(* ===== verification/Prelude.thy ===== *)
theory Prelude imports Complex_Main "HOL-Library.Word" "HOL-Library.Monad_Syntax" begin

text \<open>
  The vocabulary the components share.

  \<^item> Machine types: \<open>byte\<close> is C's \<open>unsigned char\<close> / \<open>uint8_t\<close>, \<open>u16\<close> and \<open>u32\<close> are
    \<open>uint16_t\<close> and \<open>uint32_t\<close>; C's \<open>int\<close> is \<open>int\<close> where a component's bounds keep it far
    from 2^31.
  \<^item> Runs: a piece of C++ that may stop is an \<open>'a option\<close>. \<open>None\<close> says that the code has
    no further behaviour on this input: a \<open>CHECK\<close> or \<open>assert\<close> aborts, or an array is
    accessed outside its bounds. A theorem that a function returns \<open>Some\<close> is therefore also
    a proof that it stays inside its arrays. \<open>rd\<close>, \<open>wr\<close> are the checked array accesses
    with an unsigned index, \<open>rdz\<close> and \<open>wrz\<close> those with a C \<open>int\<close> index.
  \<^item> Loops: \<open>for_in is f s\<close> runs the body \<open>f\<close> over the values that the loop variable takes,
    in their order, on the loop's state; \<open>for_in_upt\<close> is its invariant rule.
\<close>

unbundle bit_operations_syntax

type_synonym byte = "8 word"
type_synonym u16 = "16 word"
type_synonym u32 = "32 word"
type_synonym u64 = "64 word"

named_theorems access_simps \<open>what a checked access returns inside the bounds\<close>
named_theorems len_simps \<open>lengths of the arrays that the components build\<close>

section \<open>Checked array accesses\<close>

definition rd :: "'a list \<Rightarrow> nat \<Rightarrow> 'a option" where
  "rd xs i = (if i < length xs then Some (xs ! i) else None)"

definition wr :: "'a list \<Rightarrow> nat \<Rightarrow> 'a \<Rightarrow> 'a list option" where
  "wr xs i v = (if i < length xs then Some (xs[i := v]) else None)"

definition rdz :: "'a list \<Rightarrow> int \<Rightarrow> 'a option" where
  "rdz xs i = (if 0 \<le> i then rd xs (nat i) else None)"

definition wrz :: "'a list \<Rightarrow> int \<Rightarrow> 'a \<Rightarrow> 'a list option" where
  "wrz xs i v = (if 0 \<le> i then wr xs (nat i) v else None)"

text \<open>The accesses on a list that is written out, for runs on concrete arrays.\<close>

named_theorems exec_simps \<open>evaluation of accesses and loops on concrete arrays\<close>

lemma rd_Cons [exec_simps]:
  "rd (x # xs) 0 = Some x" "rd (x # xs) (Suc i) = rd xs i" "rd (x # xs) (numeral k) = rd xs (pred_numeral k)"
  by (simp_all add: rd_def numeral_eq_Suc)

lemma wr_Cons [exec_simps]:
  "wr (x # xs) 0 v = Some (v # xs)" "wr (x # xs) (Suc i) v = map_option ((#) x) (wr xs i v)"
  "wr (x # xs) (numeral k) v = map_option ((#) x) (wr xs (pred_numeral k) v)"
  by (simp_all add: wr_def numeral_eq_Suc)

lemma rdz_exec [exec_simps]:
  "rdz xs 0 = rd xs 0" "rdz xs 1 = rd xs 1" "rdz xs (numeral k) = rd xs (numeral k)"
  by (simp_all add: rdz_def)

text \<open>A \<open>CHECK(b)\<close> or \<open>assert(b)\<close>: the run goes on only when it holds.\<close>

definition check :: "bool \<Rightarrow> unit option" where
  "check b = (if b then Some () else None)"

lemma rd_in [access_simps]: "i < length xs \<Longrightarrow> rd xs i = Some (xs ! i)"
  by (simp add: rd_def)

lemma wr_in [access_simps]: "i < length xs \<Longrightarrow> wr xs i v = Some (xs[i := v])"
  by (simp add: wr_def)

lemma rdz_of_nat [simp]: "rdz xs (int i) = rd xs i"
  by (simp add: rdz_def)

lemma wrz_of_nat [simp]: "wrz xs (int i) v = wr xs i v"
  by (simp add: wrz_def)

lemma rdz_in [access_simps]: "0 \<le> i \<Longrightarrow> nat i < length xs \<Longrightarrow> rdz xs i = Some (xs ! nat i)"
  by (simp add: rdz_def rd_def)

lemma wrz_in [access_simps]:
  "0 \<le> i \<Longrightarrow> nat i < length xs \<Longrightarrow> wrz xs i v = Some (xs[nat i := v])"
  by (simp add: wrz_def wr_def)

lemma rd_eq_Some_iff: "rd xs i = Some x \<longleftrightarrow> i < length xs \<and> x = xs ! i"
  by (auto simp: rd_def)

lemma wr_eq_Some_iff: "wr xs i v = Some ys \<longleftrightarrow> i < length xs \<and> ys = xs[i := v]"
  by (auto simp: wr_def)

lemma check_True [simp]: "check True = Some ()"
  by (simp add: check_def)

lemma check_False [simp]: "check False = None"
  by (simp add: check_def)

lemma check_eq_Some_iff [simp]: "check b = Some u \<longleftrightarrow> b"
  by (simp add: check_def)

section \<open>Loops\<close>

primrec for_in :: "'i list \<Rightarrow> ('i \<Rightarrow> 's \<Rightarrow> 's option) \<Rightarrow> 's \<Rightarrow> 's option" where
  "for_in [] f s = Some s"
| "for_in (i # is) f s = do { s' \<leftarrow> f i s; for_in is f s' }"

lemma for_in_append: "for_in (is @ js) f s = do { s' \<leftarrow> for_in is f s; for_in js f s' }"
proof (induction "is" arbitrary: s)
  case (Cons i "is")
  then show ?case by (cases "f i s") simp_all
qed simp

lemma for_in_exec [exec_simps]:
  "for_in [0..<Suc 0] f s = f 0 s" "for_in [Suc 0..<2] f s = f 1 s"
  "for_in [0..<2] f s = do { s \<leftarrow> f 0 s; f 1 s }"
  "for_in [0..<3] f s = do { s \<leftarrow> f 0 s; s \<leftarrow> f 1 s; f 2 s }"
  by (simp_all add: upt_rec numeral_2_eq_2)

lemma length_3E:
  assumes "length xs = 3"
  obtains x y z where "xs = [x, y, z]"
  using assms by (auto simp: numeral_3_eq_3 length_Suc_conv)

text \<open>
  The invariant rule for \<open>for (i = lo; i < hi; i++)\<close>: if every round returns and takes the
  invariant from \<open>i\<close> to \<open>i + 1\<close>, the loop returns and its result has the invariant at \<open>hi\<close>.
\<close>

lemma for_in_upt:
  assumes "lo \<le> hi" and "P lo s"
    and "\<And>i s. lo \<le> i \<Longrightarrow> i < hi \<Longrightarrow> P i s \<Longrightarrow> \<exists>s'. f i s = Some s' \<and> P (Suc i) s'"
  shows "\<exists>s'. for_in [lo..<hi] f s = Some s' \<and> P hi s'"
  using assms
proof (induction "hi - lo" arbitrary: lo s)
  case 0
  then show ?case by simp
next
  case (Suc n)
  from Suc.hyps(2) have lt: "lo < hi" by simp
  with Suc.prems obtain t where t: "f lo s = Some t" "P (Suc lo) t"
    by blast
  have "\<exists>s'. for_in [Suc lo..<hi] f t = Some s' \<and> P hi s'"
  proof (rule Suc.hyps(1))
    show "n = hi - Suc lo" using Suc.hyps(2) by simp
    show "Suc lo \<le> hi" using lt by simp
    show "P (Suc lo) t" by (rule t(2))
    show "\<And>i s. Suc lo \<le> i \<Longrightarrow> i < hi \<Longrightarrow> P i s \<Longrightarrow> \<exists>s'. f i s = Some s' \<and> P (Suc i) s'"
      using Suc.prems(3) by simp
  qed
  with lt t(1) show ?case
    by (simp add: upt_conv_Cons)
qed

text \<open>The rule for \<open>for (i = hi - 1; i >= lo; i--)\<close>.\<close>

lemma for_in_down:
  assumes "lo \<le> hi" and "P hi s"
    and "\<And>i s. lo \<le> i \<Longrightarrow> i < hi \<Longrightarrow> P (Suc i) s \<Longrightarrow> \<exists>s'. f i s = Some s' \<and> P i s'"
  shows "\<exists>s'. for_in (rev [lo..<hi]) f s = Some s' \<and> P lo s'"
  using assms
proof (induction "hi - lo" arbitrary: hi s)
  case 0
  then show ?case by simp
next
  case (Suc n)
  then obtain k where k: "hi = Suc k" "lo \<le> k"
    by (metis Suc_diff_le diff_Suc_Suc diff_is_0_eq nat.distinct(1) not_less_eq_eq old.nat.exhaust zero_diff)
  with Suc.prems obtain t where t: "f k s = Some t" "P k t" by blast
  have "\<exists>s'. for_in (rev [lo..<k]) f t = Some s' \<and> P lo s'"
  proof (rule Suc.hyps(1))
    show "n = k - lo" using Suc.hyps(2) k by simp
    show "\<And>i s. lo \<le> i \<Longrightarrow> i < k \<Longrightarrow> P (Suc i) s \<Longrightarrow> \<exists>s'. f i s = Some s' \<and> P i s'"
      using Suc.prems(3) k by simp
  qed (use t k in auto)
  with t k show ?case by simp
qed

text \<open>The same rule when the body does not look at the position it is at.\<close>

lemma for_in_inv:
  assumes "P s" and "\<And>i s. i \<in> set is \<Longrightarrow> P s \<Longrightarrow> \<exists>s'. f i s = Some s' \<and> P s'"
  shows "\<exists>s'. for_in is f s = Some s' \<and> P s'"
  using assms
proof (induction "is" arbitrary: s)
  case Nil
  then show ?case by simp
next
  case (Cons i "is")
  obtain t where "f i s = Some t" "P t"
    using Cons.prems(2) [OF _ Cons.prems(1), of i] by auto
  with Cons.IH [of t] Cons.prems(2) show ?case by auto
qed

text \<open>A loop with a round that stops whatever the state is never returns.\<close>

lemma for_in_fails: "i \<in> set is \<Longrightarrow> (\<And>s. f i s = None) \<Longrightarrow> for_in is f s = None"
proof (induction "is" arbitrary: s)
  case (Cons j "is")
  then show ?case by (cases "f j s") auto
qed simp

text \<open>A loop with a stride is the loop over the counter.\<close>

lemma for_in_map: "for_in (map h is) f s = for_in is (\<lambda>i. f (h i)) s"
  by (induction "is" arbitrary: s) (auto intro: Option.bind_cong)

lemma for_in_cong:
  assumes "\<And>i s. i \<in> set is \<Longrightarrow> f i s = g i s"
  shows "for_in is f s = for_in is g s"
  using assms by (induction "is" arbitrary: s) (auto intro: Option.bind_cong)

text \<open>Two nested loops over a grid are one loop over its cells, row by row.\<close>

lemma for_in_nested:
  assumes "0 < n"
  shows "for_in [0..<m] (\<lambda>i. for_in [0..<n] (f i)) s = for_in [0..<m * n] (\<lambda>k. f (k div n) (k mod n)) s"
proof (induction m arbitrary: s)
  case (Suc m)
  have "for_in [0..<n] (f m) t = for_in [m * n..<Suc m * n] (\<lambda>k. f (k div n) (k mod n)) t" for t
  proof -
    have "[m * n..<Suc m * n] = map (\<lambda>j. m * n + j) [0..<n]"
      using map_add_upt [of "m * n" n] by (simp add: add.commute)
    then have "for_in [m * n..<Suc m * n] (\<lambda>k. f (k div n) (k mod n)) t =
        for_in [0..<n] (\<lambda>j. f ((m * n + j) div n) ((m * n + j) mod n)) t"
      by (simp only: for_in_map)
    also have "\<dots> = for_in [0..<n] (f m) t"
      using assms by (intro for_in_cong) simp
    finally show ?thesis by simp
  qed
  moreover have "[0..<Suc m * n] = [0..<m * n] @ [m * n..<Suc m * n]"
    using upt_add_eq_append [of 0 "m * n" n] by (simp add: add.commute)
  ultimately show ?case
    by (simp add: for_in_append Suc.IH)
qed simp

text \<open>A loop whose body always returns is the fold of what it returns.\<close>

lemma for_in_total: "for_in is (\<lambda>i s. Some (g i s)) s = Some (fold g is s)"
  by (induction "is" arbitrary: s) auto

text \<open>
  \<open>returns m P\<close>: the run \<open>m\<close> comes to an end, inside its arrays, and its result has \<open>P\<close>. The rules
  compose such facts along the code.
\<close>

definition returns :: "'a option \<Rightarrow> ('a \<Rightarrow> bool) \<Rightarrow> bool" where
  "returns m P \<longleftrightarrow> (\<exists>x. m = Some x \<and> P x)"

lemma returns_Some [simp]: "returns (Some x) P \<longleftrightarrow> P x"
  by (simp add: returns_def)

lemma returns_None [simp]: "\<not> returns None P"
  by (simp add: returns_def)

lemma returns_bind: "returns m P \<Longrightarrow> (\<And>x. P x \<Longrightarrow> returns (f x) Q) \<Longrightarrow> returns (m \<bind> f) Q"
  by (auto simp: returns_def)

lemma bindE: "m \<bind> f = Some y \<Longrightarrow> (\<And>x. m = Some x \<Longrightarrow> f x = Some y \<Longrightarrow> thesis) \<Longrightarrow> thesis"
  by (cases m) auto

lemma returns_mono: "returns m P \<Longrightarrow> (\<And>x. P x \<Longrightarrow> Q x) \<Longrightarrow> returns m Q"
  by (auto simp: returns_def)

lemma returns_for_upt:
  assumes "lo \<le> hi" and "P lo s"
    and "\<And>i s. lo \<le> i \<Longrightarrow> i < hi \<Longrightarrow> P i s \<Longrightarrow> returns (f i s) (P (Suc i))"
  shows "returns (for_in [lo..<hi] f s) (P hi)"
  using for_in_upt [of lo hi P s f] assms by (auto simp: returns_def)

lemma returns_for_inv:
  assumes "P s" and "\<And>i s. i \<in> set is \<Longrightarrow> P s \<Longrightarrow> returns (f i s) P"
  shows "returns (for_in is f s) P"
  using for_in_inv [of P s "is" f] assms by (auto simp: returns_def)

text \<open>An array that is updated element by element from its own values.\<close>

lemma map_in_place:
  assumes "length xs = n" and "\<And>i. i < n \<Longrightarrow> f i (xs ! i) = Some (g i)"
  shows "for_in [0..<n] (\<lambda>i s. do { x \<leftarrow> rd s i; v \<leftarrow> f i x; wr s i v }) xs = Some (map g [0..<n])"
proof -
  let ?P = "\<lambda>k s. length s = n \<and> (\<forall>i < n. s ! i = (if i < k then g i else xs ! i))"
  have "\<exists>s. for_in [0..<n] (\<lambda>i s. do { x \<leftarrow> rd s i; v \<leftarrow> f i x; wr s i v }) xs = Some s \<and> ?P n s"
    by (rule for_in_upt [where P = ?P])
      (use assms in \<open>auto simp: rd_def wr_def nth_list_update less_Suc_eq\<close>)
  then obtain s where "for_in [0..<n] (\<lambda>i s. do { x \<leftarrow> rd s i; v \<leftarrow> f i x; wr s i v }) xs = Some s" "?P n s"
    by blast
  moreover from this(2) have "s = map g [0..<n]"
    by (intro nth_equalityI) auto
  ultimately show ?thesis by simp
qed

text \<open>A loop that appends one element per round.\<close>

lemma append_loop:
  assumes "\<And>k. k < n \<Longrightarrow> f k = Some (g k)"
  shows "for_in [0..<n] (\<lambda>k xs. do { v \<leftarrow> f k; Some (xs @ [h v]) }) xs = Some (xs @ map (\<lambda>k. h (g k)) [0..<n])"
  using assms by (induction n) (simp_all add: for_in_append)

section \<open>Matrices\<close>

text \<open>
  A \<open>boost::numeric::ublas::matrix\<close> is the list of its rows; \<open>m(i, j)\<close> reads and writes
  inside its two dimensions.
\<close>

definition mget :: "'a list list \<Rightarrow> nat \<Rightarrow> nat \<Rightarrow> 'a option" where
  "mget m i j = do { r \<leftarrow> rd m i; rd r j }"

definition mset_at :: "'a list list \<Rightarrow> nat \<Rightarrow> nat \<Rightarrow> 'a \<Rightarrow> 'a list list option" where
  "mset_at m i j v = do { r \<leftarrow> rd m i; r' \<leftarrow> wr r j v; wr m i r' }"

definition dims :: "nat \<Rightarrow> nat \<Rightarrow> 'a list list \<Rightarrow> bool" where
  "dims h w m \<longleftrightarrow> length m = h \<and> (\<forall>r\<in>set m. length r = w)"

lemma dims_row: "dims h w m \<Longrightarrow> i < h \<Longrightarrow> length (m ! i) = w"
  by (simp add: dims_def)

lemma mget_in [access_simps]: "dims h w m \<Longrightarrow> i < h \<Longrightarrow> j < w \<Longrightarrow> mget m i j = Some (m ! i ! j)"
  by (simp add: mget_def rd_def dims_def)

lemma mset_at_in [access_simps]:
  "dims h w m \<Longrightarrow> i < h \<Longrightarrow> j < w \<Longrightarrow> mset_at m i j v = Some (m[i := (m ! i)[j := v]])"
  by (simp add: mset_at_def rd_def wr_def dims_def)

lemma dims_mset: "dims h w m \<Longrightarrow> i < h \<Longrightarrow> dims h w (m[i := (m ! i)[j := v]])"
  by (auto simp: dims_def dest!: subsetD [OF set_update_subset_insert])

lemma dims_of_fun [simp]: "dims h w (map (\<lambda>i. map (f i) [0..<w]) [0..<h])"
  by (simp add: dims_def)

text \<open>Two matrices of the same dimensions are equal when their entries are.\<close>

lemma dims_eqI:
  assumes "dims h w a" "dims h w b"
    and "\<And>i j. i < h \<Longrightarrow> j < w \<Longrightarrow> a ! i ! j = b ! i ! j"
  shows "a = b"
  using assms by (intro nth_equalityI) (auto simp: dims_def)

text \<open>
  A doubly nested loop that fills a matrix entry by entry returns the matrix of what its body
  computes, whatever the matrix held before.
\<close>

definition fill :: "nat \<Rightarrow> nat \<Rightarrow> (nat \<Rightarrow> nat \<Rightarrow> 'a option) \<Rightarrow> 'a list list \<Rightarrow> 'a list list option" where
  "fill h w f m =
     for_in [0..<h] (\<lambda>i m. for_in [0..<w] (\<lambda>j m. do { v \<leftarrow> f i j; mset_at m i j v }) m) m"

lemma fill_row:
  assumes "dims h w m" and "i < h"
    and "\<And>j. j < w \<Longrightarrow> f j = Some (g j)"
  shows "\<exists>m'. for_in [0..<w] (\<lambda>j m. do { v \<leftarrow> f j; mset_at m i j v }) m = Some m' \<and>
    dims h w m' \<and> (\<forall>i' < h. \<forall>j < w. m' ! i' ! j = (if i' = i then g j else m ! i' ! j))"
proof -
  let ?P = "\<lambda>k m'. dims h w m' \<and>
    (\<forall>i' < h. \<forall>j < w. m' ! i' ! j = (if i' = i \<and> j < k then g j else m ! i' ! j))"
  have "\<exists>m'. for_in [0..<w] (\<lambda>j m. do { v \<leftarrow> f j; mset_at m i j v }) m = Some m' \<and> ?P w m'"
  proof (rule for_in_upt [where P = ?P])
    fix k s
    assume k: "k < w" and P: "?P k s"
    have len: "length s = h" and row: "length (s ! i) = w"
      using P assms(2) by (auto simp: dims_def)
    show "\<exists>s'. do { v \<leftarrow> f k; mset_at s i k v } = Some s' \<and> ?P (Suc k) s'"
      using P assms(2,3) k len row
      by (auto simp: access_simps dims_mset nth_list_update less_Suc_eq)
  qed (use assms in auto)
  then show ?thesis by auto
qed

lemma fill_eq:
  assumes "dims h w m" and "\<And>i j. i < h \<Longrightarrow> j < w \<Longrightarrow> f i j = Some (g i j)"
  shows "fill h w f m = Some (map (\<lambda>i. map (g i) [0..<w]) [0..<h])"
proof -
  let ?P = "\<lambda>k m'. dims h w m' \<and> (\<forall>i < k. \<forall>j < w. m' ! i ! j = g i j)"
  have "\<exists>m'. fill h w f m = Some m' \<and> ?P h m'"
    unfolding fill_def
  proof (rule for_in_upt [where P = ?P])
    fix k s
    assume k: "k < h" and P: "?P k s"
    from fill_row [of h w s k "f k" "g k"] P k assms(2)
    show "\<exists>s'. for_in [0..<w] (\<lambda>j m. do { v \<leftarrow> f k j; mset_at m k j v }) s = Some s' \<and> ?P (Suc k) s'"
      by (fastforce simp: less_Suc_eq)
  qed (use assms in auto)
  then obtain m' where m': "fill h w f m = Some m'" "?P h m'" by blast
  have "m' = map (\<lambda>i. map (g i) [0..<w]) [0..<h]"
    using m'(2) by (intro dims_eqI [of h w]) auto
  with m'(1) show ?thesis by simp
qed

section \<open>Bits of integers\<close>

lemma and_mask_mod: "x AND (2 ^ m - 1) = x mod 2 ^ m" for x :: int
  by (simp add: take_bit_eq_mod [symmetric] take_bit_eq_mask mask_eq_exp_minus_1)

lemma and_power_test: "x AND 2 ^ m \<noteq> 0 \<longleftrightarrow> bit x m" for x :: int
  by (simp add: and_exp_eq_0_iff_not_bit)

lemma bit_double: "bit (push_bit 1 x) k \<longleftrightarrow> 0 < k \<and> bit x (k - 1)" for x :: int
  by (cases k) (simp_all only: bit_push_bit_iff, simp_all)

lemma uint_inject: "uint x = uint y \<longleftrightarrow> x = y" for x y :: "'a::len word"
  by (simp add: word_uint_eq_iff)

lemma xor_eq_0_iff: "x XOR y = 0 \<longleftrightarrow> x = y" for x y :: "'a::len word"
proof
  assume "x XOR y = 0"
  then have "(x XOR y) XOR y = y" by simp
  then show "x = y" by (simp add: ac_simps)
qed simp

lemma mod_add_cancel: "(a + l) mod n = (b + l) mod n \<Longrightarrow> a mod n = b mod n" for a b l n :: nat
  by (auto simp: nat_mod_eq_iff)

text \<open>Reading 32 bits as an \<open>int\<close>.\<close>

lemma sint_32: "sint (word_of_int t :: 32 word) = (t + 2 ^ 31) mod 2 ^ 32 - 2 ^ 31"
  by (simp add: sint_sbintrunc' signed_take_bit_eq_take_bit_shift take_bit_eq_mod)

lemma sint_of_nat_small: "n < 2 ^ 31 \<Longrightarrow> sint (word_of_nat n :: 32 word) = int n"
proof -
  assume n: "n < 2 ^ 31"
  have "sint (word_of_nat n :: 32 word) = (int n + 2 ^ 31) mod 2 ^ 32 - 2 ^ 31"
    unfolding sint_32 [symmetric] by simp
  also have "(int n + 2 ^ 31) mod 2 ^ 32 = int n + 2 ^ 31" using n by (intro mod_pos_pos_trivial) auto
  finally show ?thesis by simp
qed

lemma sint_of_nat_wraps: "2 ^ 31 \<le> n \<Longrightarrow> n < 2 ^ 32 \<Longrightarrow> sint (word_of_nat n :: 32 word) = int n - 2 ^ 32"
proof -
  assume n: "2 ^ 31 \<le> n" "n < 2 ^ 32"
  have "sint (word_of_nat n :: 32 word) = (int n + 2 ^ 31) mod 2 ^ 32 - 2 ^ 31"
    unfolding sint_32 [symmetric] by simp
  moreover have "(int n + 2 ^ 31) mod 2 ^ 32 = (int n - 2 ^ 31) mod 2 ^ 32"
    using mod_add_self2 [of "int n - 2 ^ 31" "2 ^ 32"] by (simp add: add.commute)
  moreover have "(int n - 2 ^ 31) mod 2 ^ 32 = int n - 2 ^ 31" using n by (intro mod_pos_pos_trivial) auto
  ultimately show ?thesis by simp
qed

section \<open>Lists of equal blocks\<close>

lemma nth_concat_blocks:
  assumes "\<And>x. x \<in> set xss \<Longrightarrow> length x = k" and "i < length xss" and "j < k"
  shows "concat xss ! (i * k + j) = xss ! i ! j"
  using assms
proof (induction xss arbitrary: i)
  case Nil
  then show ?case by simp
next
  case (Cons x xss)
  then show ?case
    by (cases i) (auto simp: nth_append)
qed

lemma length_concat_blocks:
  assumes "\<And>x. x \<in> set xss \<Longrightarrow> length x = k"
  shows "length (concat xss) = k * length xss"
  using assms by (induction xss) auto

lemma nth_map_upt_zero [simp]: "i < n \<Longrightarrow> map f [0..<n] ! i = f i"
  by simp

lemma map_nth_fun: "length xs = n \<Longrightarrow> map (\<lambda>i. f (xs ! i)) [0..<n] = map f xs"
  by (intro nth_equalityI) auto

lemma list_eq_map_nth: "length xs = n \<Longrightarrow> xs = map (\<lambda>i. xs ! i) [0..<n]"
  using map_nth [of xs] by simp

section \<open>Copies\<close>

text \<open>
  \<open>memcpy(dst + d, src + s, n)\<close> on arrays of elements, inside the bounds of both; a \<open>memmove\<close>
  within one array is the copy of the array into itself. A negative length is a huge
  \<open>size_t\<close> and leaves every array.
\<close>

definition copy_into :: "'a list \<Rightarrow> nat \<Rightarrow> 'a list \<Rightarrow> nat \<Rightarrow> int \<Rightarrow> 'a list option" where
  "copy_into dst d src s n =
     (if 0 \<le> n \<and> d + nat n \<le> length dst \<and> s + nat n \<le> length src
      then Some (take d dst @ take (nat n) (drop s src) @ drop (d + nat n) dst) else None)"

lemma copy_into_in [access_simps]:
  "d + n \<le> length dst \<Longrightarrow> s + n \<le> length src \<Longrightarrow>
   copy_into dst d src s (int n) = Some (take d dst @ take n (drop s src) @ drop (d + n) dst)"
  by (simp add: copy_into_def)

lemma length_copy_into: "copy_into dst d src s n = Some dst' \<Longrightarrow> length dst' = length dst"
  by (auto simp: copy_into_def split: if_splits)

text \<open>Storing a computed row of values from index \<open>d\<close> on, one by one.\<close>

lemma store_row:
  assumes "d + n \<le> length xs" and "\<And>i. i < n \<Longrightarrow> f i = Some (g i)"
  shows "for_in [0..<n] (\<lambda>i xs. do { v \<leftarrow> f i; wr xs (d + i) v }) xs =
    Some (take d xs @ map g [0..<n] @ drop (d + n) xs)"
proof -
  let ?P = "\<lambda>k ys. ys = take d xs @ map g [0..<k] @ drop (d + k) xs"
  have "\<exists>ys. for_in [0..<n] (\<lambda>i xs. do { v \<leftarrow> f i; wr xs (d + i) v }) xs = Some ys \<and> ?P n ys"
  proof (rule for_in_upt [where P = ?P])
    fix k ys
    assume k: "k < n" and P: "?P k ys"
    have "drop (d + k) xs = xs ! (d + k) # drop (Suc (d + k)) xs"
      using assms(1) k by (simp add: Cons_nth_drop_Suc)
    then have "ys[d + k := g k] = take d xs @ map g [0..<Suc k] @ drop (d + Suc k) xs"
      using P assms(1) k by (simp add: list_update_append)
    with P assms k show "\<exists>s'. do { v \<leftarrow> f k; wr ys (d + k) v } = Some s' \<and> ?P (Suc k) s'"
      by (simp add: wr_def)
  qed auto
  then show ?thesis by simp
qed

lemma concat_slices: "concat (map (\<lambda>y. take c (drop (y * c) xs)) [0..<n]) = take (n * c) xs"
proof (induction n)
  case (Suc n)
  have "take (n * c) xs @ take c (drop (n * c) xs) = take (Suc n * c) xs"
    by (simp only: take_add [symmetric] mult_Suc add.commute)
  with Suc show ?case by simp
qed simp

end
