(* ===== verification/Reed_Solomon.thy ===== *)
theory Reed_Solomon imports Prelude begin

text \<open>
  \<open>experimental/lib/src/reed_solomon/\<close>: \<open>rslib.h\<close>, \<open>reed_solomon.c\<close>, \<open>encode_rs.h\<close> and
  \<open>decode_rs.h\<close>, the Reed-Solomon codec that was ported from the Linux kernel. This theory is the
  code; its correctness is in \<open>Rs_Field\<close> and \<open>Rs_Code\<close>.

  \<^item> \<open>rs_control\<close> is the record of the structure, its three tables as lists.
  \<^item> A C \<open>int\<close> is an \<open>int\<close>. For the widths that \<open>rslib.h\<close> documents, 1 to 15 bits, no sum or product can
    overflow: \<open>rs_init\<close> keeps \<open>fcr\<close>, \<open>prim\<close> and \<open>nroots\<close> below 2^15, so the largest value,
    \<open>index_of[syn[i]] + (fcr + i) * prim\<close>, is below 2^15 + 2^16 * 2^15 - 2^17, which is less than 2^31. For 16 bits the products of
    \<open>decode_rs.h\<close> can overflow, which the model does not show. A table entry or a symbol is a \<open>u16\<close>; it is promoted by \<open>uint\<close>
    and stored by \<open>word_of_int\<close>.
  \<^item> Arrays that the code does not initialise start with the contents of a parameter: \<open>junk k i\<close>
    is element \<open>i\<close> of the \<open>k\<close>-th such array, \<open>malloc k\<close> tells whether the \<open>k\<close>-th allocation of a
    call succeeds. The theorems hold for every choice of them.
\<close>

section \<open>The control structure\<close>

text \<open>\<open>gffunc\<close> is a function pointer: an address, or the null pointer.\<close>

record rs_control =
  mm :: int
  nn :: int
  alpha_to :: "u16 list"
  index_of :: "u16 list"
  genpoly :: "u16 list"
  nroots :: int
  fcr :: int
  prim :: int
  iprim :: int
  gfpoly :: int
  gffunc :: "nat option"
  users :: int

text \<open>
  \<open>while (x >= rs->nn) { x -= rs->nn; x = (x >> rs->mm) + (x & rs->nn); }\<close>. A loop that does not
  end is \<open>None\<close>.
\<close>

partial_function (option) rs_modnn :: "rs_control \<Rightarrow> int \<Rightarrow> int option" where
  "rs_modnn rs x =
     (if x \<ge> nn rs
      then let x = x - nn rs in rs_modnn rs (drop_bit (nat (mm rs)) x + (x AND nn rs))
      else Some x)"

text \<open>\<open>alpha_to[rs_modnn(rs, x)]\<close>, which the codec computes in many places.\<close>

definition alpha_modnn :: "rs_control \<Rightarrow> int \<Rightarrow> u16 option" where
  "alpha_modnn rs x = do { k \<leftarrow> rs_modnn rs x; rdz (alpha_to rs) k }"

section \<open>Building the tables\<close>

definition xtime :: "int \<Rightarrow> int \<Rightarrow> int \<Rightarrow> int" where
  "xtime symsize poly sr =
     (let sr = push_bit 1 sr;
          sr = (if sr AND push_bit (nat symsize) 1 \<noteq> 0 then sr XOR poly else sr)
      in sr AND (push_bit (nat symsize) 1 - 1))"

text \<open>
  The two loops that fill \<open>index_of\<close> and \<open>alpha_to\<close>; \<open>step\<close> is \<open>xtime\<close> or the function behind
  \<open>gffunc\<close>. The last component is \<open>sr\<close> after the loop.
\<close>

definition field_tables ::
  "(int \<Rightarrow> int) \<Rightarrow> int \<Rightarrow> int \<Rightarrow> u16 list \<Rightarrow> u16 list \<Rightarrow> (u16 list \<times> u16 list \<times> int) option" where
  "field_tables step n sr index alpha =
     for_in [0..<nat n] (\<lambda>i (index, alpha, sr). do {
        index \<leftarrow> wrz index sr (word_of_nat i);
        alpha \<leftarrow> wr alpha i (word_of_int sr);
        Some (index, alpha, step sr) }) (index, alpha, sr)"

definition fill_tables ::
  "(nat \<Rightarrow> int \<Rightarrow> int) \<Rightarrow> int \<Rightarrow> int \<Rightarrow> nat option \<Rightarrow> int \<Rightarrow> u16 list \<Rightarrow> u16 list \<Rightarrow>
   (u16 list \<times> u16 list \<times> int) option" where
  "fill_tables call symsize poly func n index alpha =
     (if poly \<noteq> 0 then field_tables (xtime symsize poly) n 1 index alpha
      else do {
        f \<leftarrow> map_option call func;
        field_tables f n (f 0) index alpha })"

text \<open>
  \<open>for (iprim = 1; (iprim % prim) != 0; iprim += rs->nn);\<close> ends the run when the sum leaves
  the range of \<open>int\<close>.
\<close>

partial_function (option) find_iprim :: "int \<Rightarrow> int \<Rightarrow> int \<Rightarrow> int option" where
  "find_iprim n p ip =
     (if ip mod p = 0 then Some ip
      else if ip + n < 2 ^ 31 then find_iprim n p (ip + n) else None)"

text \<open>One factor of the generator polynomial: multiply by \<open>x + alpha^rt\<close>.\<close>

definition genpoly_factor :: "rs_control \<Rightarrow> int \<Rightarrow> nat \<Rightarrow> u16 list \<Rightarrow> u16 list option" where
  "genpoly_factor rs rt i g = do {
     g \<leftarrow> wr g (i + 1) 1;
     g \<leftarrow> for_in (rev [1..<Suc i]) (\<lambda>j g. do {
        gj \<leftarrow> rd g j;
        gp \<leftarrow> rd g (j - 1);
        if gj \<noteq> 0 then do {
          k \<leftarrow> rd (index_of rs) (unat gj);
          a \<leftarrow> alpha_modnn rs (uint k + rt);
          wr g j (gp XOR a) }
        else wr g j gp }) g;
     g0 \<leftarrow> rd g 0;
     k \<leftarrow> rd (index_of rs) (unat g0);
     a \<leftarrow> alpha_modnn rs (uint k + rt);
     wr g 0 a }"

definition make_genpoly :: "rs_control \<Rightarrow> u16 list \<Rightarrow> u16 list option" where
  "make_genpoly rs g = do {
     g \<leftarrow> wr g 0 1;
     g \<leftarrow> for_in [0..<nat (nroots rs)]
        (\<lambda>i g. genpoly_factor rs (fcr rs * prim rs + int i * prim rs) i g) g;
     for_in [0..<nat (nroots rs) + 1] (\<lambda>i g. do {
        gi \<leftarrow> rd g i; k \<leftarrow> rd (index_of rs) (unat gi); wr g i k }) g }"

text \<open>
  The rest of \<open>rs_init\<close> once the tables are filled: the check of \<open>sr\<close>, \<open>iprim\<close> and the generator
  polynomial. \<open>Some None\<close> is the null pointer that is returned after an error.
\<close>

definition rs_from_tables ::
  "(nat \<Rightarrow> nat \<Rightarrow> u16) \<Rightarrow> int \<Rightarrow> int \<Rightarrow> nat option \<Rightarrow> int \<Rightarrow> int \<Rightarrow> int \<Rightarrow> int \<Rightarrow>
   u16 list \<times> u16 list \<times> int \<Rightarrow> rs_control option option" where
  "rs_from_tables junk symsize poly func fcr0 prim0 nroots0 n = (\<lambda>(index, alpha, sr). do {
     a0 \<leftarrow> rd alpha 0;
     if sr \<noteq> uint a0 then Some None
     else do {
       ip \<leftarrow> find_iprim n prim0 1;
       let rs = \<lparr>mm = symsize, nn = n, alpha_to = alpha, index_of = index, genpoly = [],
         nroots = nroots0, fcr = fcr0, prim = prim0, iprim = ip div prim0,
         gfpoly = poly, gffunc = func, users = 0\<rparr>;
       g \<leftarrow> make_genpoly rs (map (junk 2) [0..<nat nroots0 + 1]);
       Some (Some (rs\<lparr>genpoly := g\<rparr>)) } })"

text \<open>
  \<open>call\<close> gives the functions behind the addresses. The shift \<open>1 << symsize\<close> has a value for
  \<open>symsize < 31\<close> only.
\<close>

definition rs_init ::
  "(nat \<Rightarrow> bool) \<Rightarrow> (nat \<Rightarrow> nat \<Rightarrow> u16) \<Rightarrow> (nat \<Rightarrow> int \<Rightarrow> int) \<Rightarrow>
   int \<Rightarrow> int \<Rightarrow> nat option \<Rightarrow> int \<Rightarrow> int \<Rightarrow> int \<Rightarrow> rs_control option option" where
  "rs_init malloc junk call symsize poly func fcr0 prim0 nroots0 =
     (if \<not> malloc 0 then Some None
      else do {
        check (0 \<le> symsize \<and> symsize < 31);
        let n = push_bit (nat symsize) 1 - 1;
        if \<not> malloc 1 \<or> \<not> malloc 2 \<or> \<not> malloc 3 then Some None
        else do {
          index \<leftarrow> wr (map (junk 1) [0..<nat n + 1]) 0 (word_of_int n);
          alpha \<leftarrow> wrz (map (junk 0) [0..<nat n + 1]) n 0;
          tables \<leftarrow> fill_tables call symsize poly func n index alpha;
          rs_from_tables junk symsize poly func fcr0 prim0 nroots0 n tables } })"

section \<open>The list of control structures\<close>

text \<open>
  \<open>objs\<close> maps the address of every allocated structure to its contents, \<open>rslist\<close> has the
  addresses in list order, \<open>rslock\<close> tells whether some thread holds \<open>rslistlock\<close>. To lock a held
  mutex waits, which is \<open>None\<close>; \<open>pthread_mutex_init\<close> makes it free.
\<close>

record rs_state =
  objs :: "nat \<Rightarrow> rs_control option"
  rslist :: "nat list"
  rslock :: bool

definition mutex_lock :: "rs_state \<Rightarrow> rs_state option" where
  "mutex_lock st = (if rslock st then None else Some (st\<lparr>rslock := True\<rparr>))"

definition mutex_unlock :: "rs_state \<Rightarrow> rs_state" where
  "mutex_unlock st = st\<lparr>rslock := False\<rparr>"

definition mutex_init :: "rs_state \<Rightarrow> rs_state" where
  "mutex_init st = st\<lparr>rslock := False\<rparr>"

definition rs_matches ::
  "int \<Rightarrow> int \<Rightarrow> nat option \<Rightarrow> int \<Rightarrow> int \<Rightarrow> int \<Rightarrow> rs_control \<Rightarrow> bool" where
  "rs_matches symsize poly func fcr0 prim0 nroots0 rs \<longleftrightarrow>
     symsize = mm rs \<and> poly = gfpoly rs \<and> func = gffunc rs \<and>
     fcr0 = fcr rs \<and> prim0 = prim rs \<and> nroots0 = nroots rs"

fun find_rs :: "(rs_control \<Rightarrow> bool) \<Rightarrow> (nat \<Rightarrow> rs_control option) \<Rightarrow> nat list \<Rightarrow> nat option option" where
  "find_rs P m [] = Some None"
| "find_rs P m (p # ps) = do { rs \<leftarrow> m p; if P rs then Some (Some p) else find_rs P m ps }"

text \<open>
  \<open>fresh\<close> is the address that \<open>malloc\<close> gives to a new structure. The result is the returned
  pointer and the new state. \<open>pthread_mutex_init\<close> is taken to succeed (with the default attributes it
  does); the early return of NULL for its failure is left out.
\<close>

definition init_rs_internal ::
  "(nat \<Rightarrow> bool) \<Rightarrow> (nat \<Rightarrow> nat \<Rightarrow> u16) \<Rightarrow> (nat \<Rightarrow> int \<Rightarrow> int) \<Rightarrow> nat \<Rightarrow>
   int \<Rightarrow> int \<Rightarrow> nat option \<Rightarrow> int \<Rightarrow> int \<Rightarrow> int \<Rightarrow> rs_state \<Rightarrow> (nat option \<times> rs_state) option" where
  "init_rs_internal malloc junk call fresh symsize poly func fcr0 prim0 nroots0 st =
     (let st = mutex_init st in
      if symsize < 1 then Some (None, st)
      else do {
        check (symsize < 31);
        let size = push_bit (nat symsize) 1;
        if fcr0 < 0 \<or> fcr0 \<ge> size then Some (None, st)
        else if prim0 \<le> 0 \<or> prim0 \<ge> size then Some (None, st)
        else if nroots0 < 0 \<or> nroots0 \<ge> size then Some (None, st)
        else do {
          st \<leftarrow> mutex_lock st;
          found \<leftarrow> find_rs (rs_matches symsize poly func fcr0 prim0 nroots0) (objs st) (rslist st);
          case found of
            Some p \<Rightarrow> do {
              rs \<leftarrow> objs st p;
              Some (Some p, mutex_unlock (st\<lparr>objs := (objs st)(p := Some (rs\<lparr>users := users rs + 1\<rparr>))\<rparr>)) }
          | None \<Rightarrow> do {
              r \<leftarrow> rs_init malloc junk call symsize poly func fcr0 prim0 nroots0;
              case r of
                None \<Rightarrow> Some (None, mutex_unlock st)
              | Some rs \<Rightarrow>
                  Some (Some fresh, mutex_unlock (st\<lparr>objs := (objs st)(fresh := Some (rs\<lparr>users := 1\<rparr>)),
                    rslist := fresh # rslist st\<rparr>)) } } })"

definition init_rs ::
  "(nat \<Rightarrow> bool) \<Rightarrow> (nat \<Rightarrow> nat \<Rightarrow> u16) \<Rightarrow> (nat \<Rightarrow> int \<Rightarrow> int) \<Rightarrow> nat \<Rightarrow>
   int \<Rightarrow> int \<Rightarrow> int \<Rightarrow> int \<Rightarrow> int \<Rightarrow> rs_state \<Rightarrow> (nat option \<times> rs_state) option" where
  "init_rs malloc junk call fresh symsize poly fcr0 prim0 nroots0 st =
     init_rs_internal malloc junk call fresh symsize poly None fcr0 prim0 nroots0 st"

definition init_rs_non_canonical ::
  "(nat \<Rightarrow> bool) \<Rightarrow> (nat \<Rightarrow> nat \<Rightarrow> u16) \<Rightarrow> (nat \<Rightarrow> int \<Rightarrow> int) \<Rightarrow> nat \<Rightarrow>
   int \<Rightarrow> nat \<Rightarrow> int \<Rightarrow> int \<Rightarrow> int \<Rightarrow> rs_state \<Rightarrow> (nat option \<times> rs_state) option" where
  "init_rs_non_canonical malloc junk call fresh symsize func fcr0 prim0 nroots0 st =
     init_rs_internal malloc junk call fresh symsize 0 (Some func) fcr0 prim0 nroots0 st"

definition free_rs :: "nat \<Rightarrow> rs_state \<Rightarrow> rs_state option" where
  "free_rs p st = do {
     st \<leftarrow> mutex_lock st;
     rs \<leftarrow> objs st p;
     let rs = rs\<lparr>users := users rs - 1\<rparr>;
     Some (mutex_unlock
       (if users rs = 0
        then st\<lparr>objs := (objs st)(p := None), rslist := remove1 p (rslist st)\<rparr>
        else st\<lparr>objs := (objs st)(p := Some rs)\<rparr>)) }"

section \<open>Encoding\<close>

text \<open>The masked and inverted data symbol \<open>(((uint16_t) data[i]) ^ invmsk) & msk\<close>.\<close>

definition symbol :: "rs_control \<Rightarrow> u16 \<Rightarrow> byte \<Rightarrow> u16" where
  "symbol rs invmsk d = (ucast d XOR invmsk) AND word_of_int (nn rs)"

text \<open>One round of the shift register, \<open>memmove\<close> included.\<close>

definition encode_step :: "rs_control \<Rightarrow> u16 \<Rightarrow> byte \<Rightarrow> u16 list \<Rightarrow> u16 list option" where
  "encode_step rs invmsk d par = do {
     p0 \<leftarrow> rd par 0;
     fb \<leftarrow> rd (index_of rs) (unat (symbol rs invmsk d XOR p0));
     par \<leftarrow>
       (if uint fb \<noteq> nn rs then
          for_in [1..<nat (nroots rs)] (\<lambda>j par. do {
            pj \<leftarrow> rd par j;
            g \<leftarrow> rd (genpoly rs) (nat (nroots rs) - j);
            a \<leftarrow> alpha_modnn rs (uint fb + uint g);
            wr par j (pj XOR a) }) par
        else Some par);
     par \<leftarrow> copy_into par 0 par 1 (nroots rs - 1);
     if uint fb \<noteq> nn rs then do {
       g \<leftarrow> rd (genpoly rs) 0;
       a \<leftarrow> alpha_modnn rs (uint fb + uint g);
       wrz par (nroots rs - 1) a }
     else wrz par (nroots rs - 1) 0 }"

definition encode_rs8 ::
  "rs_control \<Rightarrow> byte list \<Rightarrow> int \<Rightarrow> u16 list \<Rightarrow> u16 \<Rightarrow> (int \<times> u16 list) option" where
  "encode_rs8 rs data len par invmsk =
     (let pad = nn rs - nroots rs - len in
      if pad < 0 \<or> pad \<ge> nn rs then Some (-1, par)
      else do {
        par \<leftarrow> for_in [0..<nat len] (\<lambda>i par. do {
          d \<leftarrow> rd data i;
          encode_step rs invmsk d par }) par;
        Some (0, par) })"

section \<open>Decoding\<close>

text \<open>
  \<open>decode_rs.h\<close> in the order of its phases. \<open>S\<close> is the syndrome array \<open>s\<close>, in index form from
  the second phase on.
\<close>

subsection \<open>The syndromes\<close>

text \<open>One step of Horner's scheme at root \<open>i\<close>: the new value of \<open>syn[i]\<close> when symbol \<open>c\<close> follows.\<close>

definition horner_step :: "rs_control \<Rightarrow> nat \<Rightarrow> u16 \<Rightarrow> u16 \<Rightarrow> u16 option" where
  "horner_step rs i c sy =
     (if sy = 0 then Some c
      else do {
        k \<leftarrow> rd (index_of rs) (unat sy);
        a \<leftarrow> alpha_modnn rs (uint k + (fcr rs + int i) * prim rs);
        Some (c XOR a) })"

definition syndrome_round :: "rs_control \<Rightarrow> u16 \<Rightarrow> u16 list \<Rightarrow> u16 list option" where
  "syndrome_round rs c syn =
     for_in [0..<nat (nroots rs)] (\<lambda>i syn. do {
        sy \<leftarrow> rd syn i; v \<leftarrow> horner_step rs i c sy; wr syn i v }) syn"

definition form_syndromes ::
  "rs_control \<Rightarrow> byte list \<Rightarrow> u16 list \<Rightarrow> int \<Rightarrow> u16 \<Rightarrow> u16 list \<Rightarrow> u16 list option" where
  "form_syndromes rs data par len invmsk syn = do {
     syn \<leftarrow> for_in [0..<nat (nroots rs)] (\<lambda>i syn. do {
        d \<leftarrow> rd data 0; wr syn i (symbol rs invmsk d) }) syn;
     syn \<leftarrow> for_in [1..<nat len] (\<lambda>j syn.
        if nroots rs > 0 then do {
          d \<leftarrow> rd data j; syndrome_round rs (symbol rs invmsk d) syn }
        else Some syn) syn;
     for_in [0..<nat (nroots rs)] (\<lambda>j syn. do {
        p \<leftarrow> rd par j;
        syndrome_round rs (p AND word_of_int (nn rs)) syn }) syn }"

text \<open>Conversion to index form; the first component is \<open>syn_error\<close>.\<close>

definition index_syndromes :: "rs_control \<Rightarrow> u16 list \<Rightarrow> (u16 \<times> u16 list) option" where
  "index_syndromes rs S =
     for_in [0..<nat (nroots rs)] (\<lambda>i (err, S). do {
        v \<leftarrow> rd S i;
        k \<leftarrow> rd (index_of rs) (unat v);
        S \<leftarrow> wr S i k;
        Some (err OR v, S) }) (0, S)"

subsection \<open>The locator polynomial\<close>

definition erasure_lambda :: "rs_control \<Rightarrow> int \<Rightarrow> int list \<Rightarrow> u16 list \<Rightarrow> u16 list option" where
  "erasure_lambda rs no_eras eras_pos lambda = do {
     e0 \<leftarrow> rd eras_pos 0;
     a \<leftarrow> alpha_modnn rs (prim rs * (nn rs - 1 - e0));
     lambda \<leftarrow> wr lambda 1 a;
     for_in [1..<nat no_eras] (\<lambda>i lambda. do {
       e \<leftarrow> rd eras_pos i;
       k \<leftarrow> rs_modnn rs (prim rs * (nn rs - 1 - e));
       let u = (word_of_int k :: u16);
       for_in (rev [1..<i + 2]) (\<lambda>j lambda. do {
         lp \<leftarrow> rd lambda (j - 1);
         tmp \<leftarrow> rd (index_of rs) (unat lp);
         if uint tmp \<noteq> nn rs then do {
           a \<leftarrow> alpha_modnn rs (uint u + uint tmp);
           lj \<leftarrow> rd lambda j;
           wr lambda j (lj XOR a) }
         else Some lambda }) lambda }) lambda }"

definition init_lambda :: "rs_control \<Rightarrow> int \<Rightarrow> int list option \<Rightarrow> u16 list option" where
  "init_lambda rs no_eras eras_pos =
     (let lambda = 1 # replicate (nat (nroots rs)) 0 in
      if no_eras > 0 then do { e \<leftarrow> eras_pos; erasure_lambda rs no_eras e lambda }
      else Some lambda)"

definition index_form :: "rs_control \<Rightarrow> u16 list \<Rightarrow> u16 list \<Rightarrow> u16 list option" where
  "index_form rs lambda b =
     for_in [0..<nat (nroots rs) + 1] (\<lambda>i b. do {
        l \<leftarrow> rd lambda i; k \<leftarrow> rd (index_of rs) (unat l); wr b i k }) b"

text \<open>
  One round \<open>r\<close> of the Berlekamp-Massey loop on \<open>lambda\<close>, \<open>b\<close>, \<open>t\<close> and \<open>el\<close>.
\<close>

definition discrepancy :: "rs_control \<Rightarrow> u16 list \<Rightarrow> u16 list \<Rightarrow> int \<Rightarrow> u16 option" where
  "discrepancy rs S lambda r =
     for_in [0..<nat r] (\<lambda>i d. do {
        l \<leftarrow> rd lambda i;
        if l = 0 then Some d
        else do {
          si \<leftarrow> rdz S (r - int i - 1);
          if uint si \<noteq> nn rs then do {
            k \<leftarrow> rd (index_of rs) (unat l);
            a \<leftarrow> alpha_modnn rs (uint k + uint si);
            Some (d XOR a) }
          else Some d } }) 0"

definition shift_b :: "rs_control \<Rightarrow> u16 list \<Rightarrow> u16 list option" where
  "shift_b rs b = do { b \<leftarrow> copy_into b 1 b 0 (nroots rs); wr b 0 (word_of_int (nn rs)) }"

definition next_lambda :: "rs_control \<Rightarrow> u16 \<Rightarrow> u16 list \<Rightarrow> u16 list \<Rightarrow> u16 list \<Rightarrow> u16 list option" where
  "next_lambda rs discr lambda b t = do {
     l0 \<leftarrow> rd lambda 0;
     t \<leftarrow> wr t 0 l0;
     for_in [0..<nat (nroots rs)] (\<lambda>i t. do {
        bi \<leftarrow> rd b i;
        l \<leftarrow> rd lambda (i + 1);
        if uint bi \<noteq> nn rs then do {
          a \<leftarrow> alpha_modnn rs (uint discr + uint bi);
          wr t (i + 1) (l XOR a) }
        else wr t (i + 1) l }) t }"

definition divide_lambda :: "rs_control \<Rightarrow> u16 \<Rightarrow> u16 list \<Rightarrow> u16 list \<Rightarrow> u16 list option" where
  "divide_lambda rs discr lambda b =
     for_in [0..<nat (nroots rs) + 1] (\<lambda>i b. do {
        l \<leftarrow> rd lambda i;
        if l = 0 then wr b i (word_of_int (nn rs))
        else do {
          k \<leftarrow> rd (index_of rs) (unat l);
          v \<leftarrow> rs_modnn rs (uint k - uint discr + nn rs);
          wr b i (word_of_int v) } }) b"

definition bm_round ::
  "rs_control \<Rightarrow> u16 list \<Rightarrow> int \<Rightarrow> int \<Rightarrow> u16 list \<times> u16 list \<times> u16 list \<times> int \<Rightarrow>
   (u16 list \<times> u16 list \<times> u16 list \<times> int) option" where
  "bm_round rs S no_eras r = (\<lambda>(lambda, b, t, el). do {
     d \<leftarrow> discrepancy rs S lambda r;
     discr \<leftarrow> rd (index_of rs) (unat d);
     if uint discr = nn rs then do {
       b \<leftarrow> shift_b rs b;
       Some (lambda, b, t, el) }
     else do {
       t \<leftarrow> next_lambda rs discr lambda b t;
       (b, el) \<leftarrow>
         (if 2 * el \<le> r + no_eras - 1 then do {
            b \<leftarrow> divide_lambda rs discr lambda b;
            Some (b, r + no_eras - el) }
          else do { b \<leftarrow> shift_b rs b; Some (b, el) });
       lambda \<leftarrow> copy_into lambda 0 t 0 (nroots rs + 1);
       Some (lambda, b, t, el) } })"

definition berlekamp_massey ::
  "rs_control \<Rightarrow> u16 list \<Rightarrow> int \<Rightarrow> u16 list \<Rightarrow> u16 list \<Rightarrow> u16 list \<Rightarrow> u16 list option" where
  "berlekamp_massey rs S no_eras lambda b t = do {
     (lambda, _) \<leftarrow> for_in [no_eras + 1..nroots rs] (bm_round rs S no_eras) (lambda, b, t, no_eras);
     Some lambda }"

text \<open>\<open>lambda\<close> in index form, and its degree.\<close>

definition lambda_degree :: "rs_control \<Rightarrow> u16 list \<Rightarrow> (u16 list \<times> nat) option" where
  "lambda_degree rs lambda =
     for_in [0..<nat (nroots rs) + 1] (\<lambda>i (lambda, deg). do {
        l \<leftarrow> rd lambda i;
        k \<leftarrow> rd (index_of rs) (unat l);
        lambda \<leftarrow> wr lambda i k;
        Some (lambda, if uint k \<noteq> nn rs then i else deg) }) (lambda, 0)"

subsection \<open>The roots\<close>

text \<open>One point of the Chien search: \<open>reg\<close> is moved on, \<open>q\<close> is the value of the locator there.\<close>

definition chien_eval :: "rs_control \<Rightarrow> nat \<Rightarrow> u16 list \<Rightarrow> (u16 list \<times> u16) option" where
  "chien_eval rs deg reg =
     for_in (rev [1..<deg + 1]) (\<lambda>j (reg, q). do {
        rj \<leftarrow> rd reg j;
        if uint rj \<noteq> nn rs then do {
          k \<leftarrow> rs_modnn rs (uint rj + int j);
          reg \<leftarrow> wr reg j (word_of_int k);
          a \<leftarrow> rd (alpha_to rs) (unat (word_of_int k :: u16));
          Some (reg, q XOR a) }
        else Some (reg, q) }) (reg, 1)"

text \<open>
  The search over the values of \<open>i\<close> in the list; \<open>break\<close> is the branch that does not go on.
  The state is \<open>reg\<close>, \<open>root\<close>, \<open>loc\<close> and \<open>count\<close>.
\<close>

fun chien_search ::
  "rs_control \<Rightarrow> nat \<Rightarrow> int list \<Rightarrow> int \<Rightarrow> u16 list \<Rightarrow> u16 list \<Rightarrow> u16 list \<Rightarrow> nat \<Rightarrow>
   (u16 list \<times> u16 list \<times> nat) option" where
  "chien_search rs deg [] k reg rt loc count = Some (rt, loc, count)"
| "chien_search rs deg (i # is) k reg rt loc count = do {
     (reg, q) \<leftarrow> chien_eval rs deg reg;
     if q \<noteq> 0 then do {
       k \<leftarrow> rs_modnn rs (k + iprim rs);
       chien_search rs deg is k reg rt loc count }
     else do {
       rt \<leftarrow> wr rt count (word_of_int i);
       loc \<leftarrow> wr loc count (word_of_int k);
       if count + 1 = deg then Some (rt, loc, count + 1)
       else do {
         k \<leftarrow> rs_modnn rs (k + iprim rs);
         chien_search rs deg is k reg rt loc (count + 1) } } }"

subsection \<open>The error values\<close>

text \<open>\<open>omega[i]\<close> for \<open>i <= deg_omega = deg_lambda - 1\<close>.\<close>

definition omega_coeff :: "rs_control \<Rightarrow> u16 list \<Rightarrow> u16 list \<Rightarrow> nat \<Rightarrow> u16 option" where
  "omega_coeff rs S lambda i =
     for_in (rev [0..<i + 1]) (\<lambda>j tmp. do {
        si \<leftarrow> rd S (i - j);
        if uint si = nn rs then Some tmp
        else do {
          lj \<leftarrow> rd lambda j;
          if uint lj \<noteq> nn rs then do {
            a \<leftarrow> alpha_modnn rs (uint si + uint lj);
            Some (tmp XOR a) }
          else Some tmp } }) 0"

definition make_omega :: "rs_control \<Rightarrow> u16 list \<Rightarrow> u16 list \<Rightarrow> nat \<Rightarrow> u16 list \<Rightarrow> u16 list option" where
  "make_omega rs S lambda deg omega =
     for_in [0..<deg] (\<lambda>i omega. do {
        tmp \<leftarrow> omega_coeff rs S lambda i;
        k \<leftarrow> rd (index_of rs) (unat tmp);
        wr omega i k }) omega"

text \<open>\<open>num1\<close>: \<open>omega\<close> at the inverse of the error locator.\<close>

definition eval_omega :: "rs_control \<Rightarrow> u16 list \<Rightarrow> nat \<Rightarrow> int \<Rightarrow> u16 option" where
  "eval_omega rs omega deg rj =
     for_in (rev [0..<deg]) (\<lambda>i num. do {
        oi \<leftarrow> rd omega i;
        if uint oi \<noteq> nn rs then do {
          a \<leftarrow> alpha_modnn rs (uint oi + int i * rj);
          Some (num XOR a) }
        else Some num }) 0"

text \<open>\<open>den\<close>: the formal derivative, summed over the even \<open>i\<close> from \<open>min(deg_lambda, nroots - 1) & ~1\<close>
  down to 0.\<close>

definition evens_down :: "int \<Rightarrow> nat list" where
  "evens_down m = (if m < 0 then [] else rev (map (\<lambda>k. 2 * k) [0..<nat m div 2 + 1]))"

definition eval_deriv :: "rs_control \<Rightarrow> u16 list \<Rightarrow> nat \<Rightarrow> int \<Rightarrow> u16 option" where
  "eval_deriv rs lambda deg rj =
     for_in (evens_down (if int deg \<le> nroots rs - 1 then int deg else nroots rs - 1)) (\<lambda>i den. do {
        l \<leftarrow> rd lambda (i + 1);
        if uint l \<noteq> nn rs then do {
          a \<leftarrow> alpha_modnn rs (uint l + int i * rj);
          Some (den XOR a) }
        else Some den }) 0"

text \<open>The correction of error \<open>j\<close>, stored in \<open>corr\<close> or applied to the data when there is some.\<close>

definition correct_one ::
  "rs_control \<Rightarrow> int \<Rightarrow> u16 list \<Rightarrow> u16 list \<Rightarrow> nat \<Rightarrow> u16 list \<Rightarrow> u16 list \<Rightarrow> nat \<Rightarrow>
   byte list option \<times> u16 list option \<Rightarrow> (byte list option \<times> u16 list option) option" where
  "correct_one rs pad lambda omega deg rt loc j = (\<lambda>(data, corr). do {
     rj \<leftarrow> rd rt j;
     num1 \<leftarrow> eval_omega rs omega deg (uint rj);
     num2 \<leftarrow> alpha_modnn rs (uint rj * (fcr rs - 1) + nn rs);
     den \<leftarrow> eval_deriv rs lambda deg (uint rj);
     lj \<leftarrow> rd loc j;
     if num1 \<noteq> 0 \<and> uint lj \<ge> pad then do {
       i1 \<leftarrow> rd (index_of rs) (unat num1);
       i2 \<leftarrow> rd (index_of rs) (unat num2);
       id \<leftarrow> rd (index_of rs) (unat den);
       cor \<leftarrow> alpha_modnn rs (uint i1 + uint i2 + nn rs - uint id);
       (case corr of
          Some c \<Rightarrow> do { c \<leftarrow> wr c j cor; Some (data, Some c) }
        | None \<Rightarrow>
           (case data of
              None \<Rightarrow> Some (None, None)
            | Some d \<Rightarrow>
                if uint lj < nn rs - nroots rs then do {
                  v \<leftarrow> rdz d (uint lj - pad);
                  d \<leftarrow> wrz d (uint lj - pad) (ucast (ucast v XOR cor));
                  Some (Some d, None) }
                else Some (Some d, None))) }
     else Some (data, corr) })"

subsection \<open>The decoder\<close>

text \<open>What the caller can see: the returned count and the buffers that it passed.\<close>

record decoded =
  d_count :: int
  d_data :: "byte list option"
  d_synd :: "u16 list option"
  d_eras :: "int list option"
  d_corr :: "u16 list option"

definition finish_decode :: "int \<Rightarrow> int \<Rightarrow> u16 list \<Rightarrow> decoded \<Rightarrow> decoded option" where
  "finish_decode pad count loc res =
     (case d_eras res of
        None \<Rightarrow> Some (res\<lparr>d_count := count\<rparr>)
      | Some e \<Rightarrow> do {
          e \<leftarrow> for_in [0..<nat count] (\<lambda>i e. do { l \<leftarrow> rd loc i; wr e i (uint l - pad) }) e;
          Some (res\<lparr>d_count := count, d_eras := Some e\<rparr>) })"

text \<open>
  The code from the label \<open>decode\<close> on: the locator polynomial in index form with its degree,
  then its roots, then the corrections.
\<close>

definition make_locator ::
  "(nat \<Rightarrow> nat \<Rightarrow> u16) \<Rightarrow> rs_control \<Rightarrow> u16 list \<Rightarrow> int \<Rightarrow> int list option \<Rightarrow> (u16 list \<times> nat) option" where
  "make_locator junk rs S no_eras eras_pos = do {
     let n = nat (nroots rs);
     lambda \<leftarrow> init_lambda rs no_eras eras_pos;
     b \<leftarrow> index_form rs lambda (map (junk 0) [0..<n + 1]);
     lambda \<leftarrow> berlekamp_massey rs S no_eras lambda b (map (junk 1) [0..<n + 1]);
     lambda_degree rs lambda }"

definition find_roots ::
  "(nat \<Rightarrow> nat \<Rightarrow> u16) \<Rightarrow> rs_control \<Rightarrow> u16 list \<Rightarrow> nat \<Rightarrow> (u16 list \<times> u16 list \<times> nat) option" where
  "find_roots junk rs lambda deg = do {
     let n = nat (nroots rs);
     reg \<leftarrow> copy_into (map (junk 2) [0..<n + 1]) 1 lambda 1 (nroots rs);
     chien_search rs deg [1..nn rs] (iprim rs - 1) reg (map (junk 3) [0..<n]) (map (junk 4) [0..<n]) 0 }"

definition correct_errors ::
  "(nat \<Rightarrow> nat \<Rightarrow> u16) \<Rightarrow> rs_control \<Rightarrow> int \<Rightarrow> u16 list \<Rightarrow> u16 list \<Rightarrow> nat \<Rightarrow> decoded \<Rightarrow>
   u16 list \<times> u16 list \<times> nat \<Rightarrow> decoded option" where
  "correct_errors junk rs pad S lambda deg res = (\<lambda>(rt, loc, count).
     if deg \<noteq> count then finish_decode pad (- 74) loc res
     else do {
       omega \<leftarrow> make_omega rs S lambda deg (map (junk 5) [0..<nat (nroots rs) + 1]);
       (data, corr) \<leftarrow> for_in (rev [0..<count]) (correct_one rs pad lambda omega deg rt loc)
         (d_data res, d_corr res);
       finish_decode pad (int count) loc (res\<lparr>d_data := data, d_corr := corr\<rparr>) })"

definition decode_from_syndromes ::
  "(nat \<Rightarrow> nat \<Rightarrow> u16) \<Rightarrow> rs_control \<Rightarrow> int \<Rightarrow> u16 list \<Rightarrow> int \<Rightarrow> decoded \<Rightarrow> decoded option" where
  "decode_from_syndromes junk rs pad S no_eras res = do {
     (lambda, deg) \<leftarrow> make_locator junk rs S no_eras (d_eras res);
     found \<leftarrow> find_roots junk rs lambda deg;
     correct_errors junk rs pad S lambda deg res found }"

text \<open>\<open>assert\<close> guards the length; a null \<open>s\<close> makes the decoder form the syndromes itself.\<close>

definition decode_rs8 ::
  "(nat \<Rightarrow> nat \<Rightarrow> u16) \<Rightarrow> rs_control \<Rightarrow> byte list option \<Rightarrow> u16 list \<Rightarrow> int \<Rightarrow> u16 list option \<Rightarrow> int \<Rightarrow>
   int list option \<Rightarrow> u16 \<Rightarrow> u16 list option \<Rightarrow> decoded option" where
  "decode_rs8 junk rs data par len s no_eras eras_pos invmsk corr = do {
     let pad = nn rs - nroots rs - len;
     check (\<not> (pad < 0 \<or> pad \<ge> nn rs));
     let res = \<lparr>d_count = 0, d_data = data, d_synd = s, d_eras = eras_pos, d_corr = corr\<rparr>;
     case s of
       Some S \<Rightarrow> decode_from_syndromes junk rs pad S no_eras res
     | None \<Rightarrow> do {
         syn \<leftarrow>
           (if nroots rs > 0 then do {
              d \<leftarrow> data;
              form_syndromes rs d par len invmsk (map (junk 6) [0..<nat (nroots rs)]) }
            else Some []);
         (syn_error, S) \<leftarrow> index_syndromes rs syn;
         if syn_error = 0 then finish_decode pad 0 [] res
         else decode_from_syndromes junk rs pad S no_eras res } }"

end
