(* ===== verification/Rs_Field.thy ===== *)
theory Rs_Field imports Reed_Solomon begin

text \<open>
  The field behind the tables of \<open>rs_control\<close>. \<open>log_field\<close> is the interface that the encoder and
  the decoder need: scaling by powers of the generator is additive over \<open>XOR\<close>, periodic and
  without zero divisors. The tables that \<open>rs_init\<close> builds from a primitive polynomial provide
  it (\<open>log_field_tables\<close>).
\<close>

section \<open>Reduction modulo \<open>nn\<close>\<close>

definition sizes_ok :: "rs_control \<Rightarrow> bool" where
  "sizes_ok rs \<longleftrightarrow> 1 \<le> mm rs \<and> mm rs \<le> 16 \<and> nn rs = 2 ^ nat (mm rs) - 1"

lemma sizes_okE:
  assumes "sizes_ok rs"
  obtains m where "nat (mm rs) = m" and "1 \<le> m" and "m \<le> 16" and "nn rs = 2 ^ m - 1"
  using assms unfolding sizes_ok_def by (metis nat_mono nat_numeral nat_one_as_int)

lemma nn_pos:
  assumes "sizes_ok rs"
  shows "0 < nn rs"
proof -
  obtain m where "1 \<le> m" "nn rs = 2 ^ m - 1" using assms by (rule sizes_okE)
  moreover from this have "2 ^ 1 \<le> (2 :: int) ^ m" by (intro power_increasing) simp_all
  ultimately show ?thesis by simp
qed

lemma nn_less:
  assumes "sizes_ok rs"
  shows "nn rs < 2 ^ 16"
proof -
  obtain m where "m \<le> 16" "nn rs = 2 ^ m - 1" using assms by (rule sizes_okE)
  moreover from this have "(2 :: int) ^ m \<le> 2 ^ 16" by (intro power_increasing) simp_all
  ultimately show ?thesis by linarith
qed

lemma rs_modnn_mod:
  assumes "sizes_ok rs" and "0 \<le> x"
  shows "rs_modnn rs x = Some (x mod nn rs)"
  using assms(2)
proof (induction "nat x" arbitrary: x rule: less_induct)
  case less
  have pos: "0 < nn rs" by (rule nn_pos [OF assms(1)])
  show ?case
  proof (cases "x \<ge> nn rs")
    case False
    with less.prems show ?thesis by (simp add: rs_modnn.simps)
  next
    case True
    define m where "m = nat (mm rs)"
    define y where "y = x - nn rs"
    have n: "nn rs = 2 ^ m - 1" using assms(1) by (simp add: sizes_ok_def m_def)
    have y: "0 \<le> y" using True by (simp add: y_def)
    define z where "z = drop_bit m y + (y AND nn rs)"
    have z: "z = y div 2 ^ m + y mod 2 ^ m"
      unfolding z_def n by (simp add: drop_bit_eq_div and_mask_mod)
    have "y = (y div 2 ^ m) * (nn rs + 1) + y mod 2 ^ m"
      unfolding n diff_add_cancel by (rule div_mult_mod_eq [symmetric])
    then have yz: "y = z + (y div 2 ^ m) * nn rs"
      unfolding z by (simp add: algebra_simps)
    have q: "0 \<le> y div 2 ^ m" using y by (intro pos_imp_zdiv_nonneg_iff [THEN iffD2]) simp_all
    have z0: "0 \<le> z" unfolding z using q by simp
    have "z \<le> y" using q pos yz by (metis add.commute le_add_same_cancel2 mult_nonneg_nonneg less_imp_le)
    then have "nat z < nat x" using pos True z0 unfolding y_def by linarith
    from less.hyps [OF this z0] have "rs_modnn rs z = Some (z mod nn rs)" .
    moreover have "z mod nn rs = x mod nn rs"
    proof -
      have "y mod nn rs = z mod nn rs" by (subst yz) simp
      moreover have "y mod nn rs = x mod nn rs" unfolding y_def by (simp add: mod_diff_right_eq [symmetric])
      ultimately show ?thesis by simp
    qed
    ultimately show ?thesis
      using True by (subst rs_modnn.simps) (simp add: Let_def z_def y_def m_def)
  qed
qed

lemma rs_modnn_neg: "x < nn rs \<Longrightarrow> rs_modnn rs x = Some x"
  by (simp add: rs_modnn.simps)

section \<open>Multiplication by the generator\<close>

lemma bit_xtime:
  "bit (xtime m p x) k \<longleftrightarrow>
     k < nat m \<and> ((0 < k \<and> bit x (k - 1)) \<noteq> ((0 < nat m \<and> bit x (nat m - 1)) \<and> bit p k))"
proof -
  have "push_bit 1 x AND push_bit (nat m) 1 \<noteq> 0 \<longleftrightarrow> bit (push_bit 1 x) (nat m)"
    by (simp only: push_bit_of_1 and_power_test)
  then have "xtime m p x = take_bit (nat m)
      (push_bit 1 x XOR (if bit (push_bit 1 x) (nat m) then p else 0))"
    unfolding xtime_def Let_def
    by (simp only: push_bit_of_1 and_mask_mod take_bit_eq_mod) simp
  then show ?thesis
    by (simp only: bit_take_bit_iff bit_xor_iff bit_double) (cases "nat m"; simp)
qed

lemma xtime_xor: "xtime m p (x XOR y) = xtime m p x XOR xtime m p y"
  by (rule bit_eqI) (simp only: bit_xtime bit_xor_iff, blast)

lemma xtime_0: "xtime m p 0 = 0"
  by (simp add: xtime_def)

lemma xtime_range: "0 \<le> xtime m p x \<and> xtime m p x < 2 ^ nat m"
  unfolding xtime_def Let_def push_bit_of_1 and_mask_mod by simp

lemma xtime_nz_range: "xtime m p x \<noteq> 0 \<Longrightarrow> 1 \<le> xtime m p x \<and> xtime m p x \<le> 2 ^ nat m - 1"
  using xtime_range [of m p x] by linarith

definition xpow :: "int \<Rightarrow> int \<Rightarrow> nat \<Rightarrow> int" where
  "xpow m p k = (xtime m p ^^ k) 1"

lemma xpow_0 [simp]: "xpow m p 0 = 1"
  by (simp add: xpow_def)

lemma xpow_Suc: "xpow m p (Suc k) = xtime m p (xpow m p k)"
  by (simp add: xpow_def)

lemma xpow_range: "1 \<le> m \<Longrightarrow> 0 \<le> xpow m p k \<and> xpow m p k < 2 ^ nat m"
proof (cases k)
  case 0
  assume "1 \<le> m"
  then have "(2 :: int) ^ 1 \<le> 2 ^ nat m" by (intro power_increasing) auto
  with 0 show ?thesis by simp
next
  case (Suc j)
  then show ?thesis using xtime_range by (simp add: xpow_Suc)
qed

text \<open>\<open>x\<close> runs through all non-zero residues before it comes back to 1.\<close>

definition primitive :: "int \<Rightarrow> int \<Rightarrow> bool" where
  "primitive m p \<longleftrightarrow>
     distinct (map (xpow m p) [0..<2 ^ nat m - 1]) \<and> xpow m p (2 ^ nat m - 1) = 1"

section \<open>The interface\<close>

text \<open>
  \<open>mul k x\<close> is the product of the symbol \<open>x\<close> and the \<open>k\<close>-th power of the generator, \<open>lg x\<close> the
  logarithm of a symbol, \<open>fld\<close> the symbols.
\<close>

locale log_field =
  fixes n :: nat and fld :: "u16 \<Rightarrow> bool" and mul :: "nat \<Rightarrow> u16 \<Rightarrow> u16" and lg :: "u16 \<Rightarrow> nat"
  assumes n_pos: "0 < n"
    and zero_in: "fld 0" and one_in: "fld 1"
    and xor_in: "fld x \<Longrightarrow> fld y \<Longrightarrow> fld (x XOR y)"
    and mul_in: "fld x \<Longrightarrow> fld (mul k x)"
    and mul_zero: "mul k 0 = 0"
    and mul_mul: "fld x \<Longrightarrow> mul k (mul l x) = mul (k + l) x"
    and mul_0: "fld x \<Longrightarrow> mul 0 x = x"
    and mul_period: "fld x \<Longrightarrow> mul (k + n) x = mul k x"
    and mul_xor: "fld x \<Longrightarrow> fld y \<Longrightarrow> mul k (x XOR y) = mul k x XOR mul k y"
    and mul_lg: "fld x \<Longrightarrow> x \<noteq> 0 \<Longrightarrow> mul (lg x) 1 = x"
    and lg_mul: "lg (mul k 1) = k mod n"

text \<open>
  Evaluation of a polynomial under a map \<open>b\<close>, "multiply by the point": \<open>peval\<close> takes the
  coefficients lowest first, \<open>horner\<close> highest first and starts from a value.
\<close>

primrec peval :: "(u16 \<Rightarrow> u16) \<Rightarrow> u16 list \<Rightarrow> u16" where
  "peval b [] = 0"
| "peval b (c # cs) = c XOR b (peval b cs)"

primrec horner :: "(u16 \<Rightarrow> u16) \<Rightarrow> u16 list \<Rightarrow> u16 \<Rightarrow> u16" where
  "horner b [] s = s"
| "horner b (c # cs) s = horner b cs (c XOR b s)"

lemma horner_append: "horner b (xs @ ys) s = horner b ys (horner b xs s)"
  by (induction xs arbitrary: s) auto

lemma horner_rev: "horner b (rev cs) 0 = peval b cs"
  by (induction cs) (auto simp: horner_append)

definition add_poly :: "u16 list \<Rightarrow> u16 list \<Rightarrow> u16 list" where
  "add_poly xs ys = map2 (XOR) xs ys"

lemma length_add_poly [simp]: "length (add_poly xs ys) = min (length xs) (length ys)"
  by (simp add: add_poly_def)

lemma nth_add_poly [simp]:
  "i < length xs \<Longrightarrow> i < length ys \<Longrightarrow> add_poly xs ys ! i = xs ! i XOR ys ! i"
  by (simp add: add_poly_def)

lemma add_poly_Cons [simp]: "add_poly (x # xs) (y # ys) = (x XOR y) # add_poly xs ys"
  by (simp add: add_poly_def)

text \<open>One more factor of a polynomial; \<open>b\<close> multiplies by its root.\<close>

definition times_root :: "(u16 \<Rightarrow> u16) \<Rightarrow> u16 list \<Rightarrow> u16 list" where
  "times_root b g = add_poly (0 # g) (map b g @ [0])"

lemma mult_mod_inj:
  fixes p n x y :: nat
  assumes "coprime p n" and "x < n" "y < n" and "p * x mod n = p * y mod n"
  shows "x = y"
proof -
  have *: "x = y" if "p * x mod n = p * y mod n" "y \<le> x" "x < n" for x y
  proof -
    have "n dvd p * x - p * y"
      using that by (intro mod_eq_dvd_iff_nat [THEN iffD1]) auto
    then have "n dvd p * (x - y)" by (simp add: diff_mult_distrib2)
    then have "n dvd x - y"
      using assms(1) by (simp add: coprime_commute coprime_dvd_mult_right_iff)
    moreover have "x - y < n" using that by simp
    ultimately have "x - y = 0" by (meson nat_dvd_not_less neq0_conv)
    with that show ?thesis by simp
  qed
  show ?thesis
    using *[of x y] *[of y x] assms by (cases "y \<le> x") auto
qed

text \<open>A sum of terms \<open>c * X^j\<close>, each given by \<open>c\<close> and the logarithm of \<open>X\<close>.\<close>

primrec wsum :: "(nat \<Rightarrow> u16 \<Rightarrow> u16) \<Rightarrow> nat \<Rightarrow> (u16 \<times> nat) list \<Rightarrow> u16" where
  "wsum mul j [] = 0"
| "wsum mul j (t # ts) = mul (j * snd t) (fst t) XOR wsum mul j ts"

text \<open>The terms of a polynomial at the points \<open>(f + j) * p\<close>, with \<open>a = f * p\<close>.\<close>

primrec poly_terms :: "(nat \<Rightarrow> u16 \<Rightarrow> u16) \<Rightarrow> nat \<Rightarrow> nat \<Rightarrow> nat \<Rightarrow> u16 list \<Rightarrow> (u16 \<times> nat) list" where
  "poly_terms mul a p i [] = []"
| "poly_terms mul a p i (c # cs) = (mul (a * i) c, p * i) # poly_terms mul a p (Suc i) cs"

lemma map_snd_poly_terms:
  "map (\<lambda>t. snd t mod n) (poly_terms mul a p i cs) = map (\<lambda>k. p * k mod n) [i..<i + length cs]"
proof (induction cs arbitrary: i)
  case (Cons c cs)
  have "[i..<i + length (c # cs)] = i # [Suc i..<Suc i + length cs]"
    by (simp add: upt_conv_Cons del: upt_Suc)
  then show ?case using Cons by simp
qed simp

context log_field begin

lemma mul_periods: "fld x \<Longrightarrow> mul (r + q * n) x = mul r x"
proof (induction q)
  case (Suc q)
  then show ?case
    using mul_period [of x "r + q * n"] by (simp add: algebra_simps)
qed simp

lemma mul_eq_0: "fld x \<Longrightarrow> mul k x = 0 \<longleftrightarrow> x = 0"
proof
  assume x: "fld x" and z: "mul k x = 0"
  have "k \<le> k * n" using n_pos by (cases n) auto
  then have "mul (k * n - k) (mul k x) = mul (0 + k * n) x"
    by (simp add: x mul_mul)
  also have "\<dots> = x" by (simp only: mul_periods [OF x] mul_0 [OF x])
  finally show "x = 0" using z by (simp add: mul_zero)
qed (simp add: mul_zero)

lemma mul_commute: "fld x \<Longrightarrow> mul k (mul l x) = mul l (mul k x)"
  by (simp add: mul_mul add.commute)

lemma mul_mod: "fld x \<Longrightarrow> mul (k mod n) x = mul k x"
  using mul_periods [of x "k mod n" "k div n"] by (simp add: add.commute)

lemma peval_in: "list_all fld cs \<Longrightarrow> fld (peval (mul k) cs)"
  by (induction cs) (auto simp: zero_in xor_in mul_in)

lemma peval_scale: "list_all fld cs \<Longrightarrow> peval (mul k) (map (mul l) cs) = mul l (peval (mul k) cs)"
  by (induction cs) (auto simp: mul_zero mul_xor mul_in peval_in mul_commute)

lemma peval_add:
  "length xs = length ys \<Longrightarrow> list_all fld xs \<Longrightarrow> list_all fld ys \<Longrightarrow>
   peval (mul k) (add_poly xs ys) = peval (mul k) xs XOR peval (mul k) ys"
  by (induction xs ys rule: list_induct2) (auto simp: add_poly_def mul_xor peval_in ac_simps)

lemma peval_snoc_0: "peval (mul k) (cs @ [0]) = peval (mul k) cs"
  by (induction cs) (auto simp: mul_zero)

lemma horner_in: "list_all fld cs \<Longrightarrow> fld s \<Longrightarrow> fld (horner (mul k) cs s)"
  by (induction cs arbitrary: s) (auto simp: xor_in mul_in)

lemma horner_scale:
  "list_all fld cs \<Longrightarrow> fld s \<Longrightarrow> horner (mul k) (map (mul l) cs) (mul l s) = mul l (horner (mul k) cs s)"
  by (induction cs arbitrary: s) (auto simp: mul_commute [of _ k l] mul_xor [symmetric] mul_in xor_in)

lemma horner_add:
  assumes "length xs = length ys" and "list_all fld xs" "list_all fld ys" "fld s" "fld t"
  shows "horner (mul k) (add_poly xs ys) (s XOR t) = horner (mul k) xs s XOR horner (mul k) ys t"
  using assms
proof (induction xs ys arbitrary: s t rule: list_induct2)
  case (Cons x xs y ys)
  have "(x XOR y) XOR mul k (s XOR t) = (x XOR mul k s) XOR (y XOR mul k t)"
    using Cons.prems by (simp add: mul_xor ac_simps)
  moreover have "fld (x XOR mul k s)" "fld (y XOR mul k t)"
    using Cons.prems by (simp_all add: xor_in mul_in)
  ultimately show ?case
    using Cons by (simp only: add_poly_Cons horner.simps list.pred_inject)
qed (simp add: add_poly_def)

text \<open>The new polynomial vanishes where the old one did and at the new root.\<close>

lemma peval_times_root:
  assumes "list_all fld g"
  shows "peval (mul k) (times_root (mul r) g) = mul k (peval (mul k) g) XOR mul r (peval (mul k) g)"
proof -
  have "list_all fld (map (mul r) g)"
    using assms by (auto simp: list_all_iff mul_in)
  then show ?thesis
    using assms by (simp add: times_root_def peval_add peval_snoc_0 peval_scale zero_in)
qed

text \<open>
  The shift register: when the polynomial \<open>g\<close> is monic and vanishes at the point, a register that
  makes the code word so far vanish still does so after one round.
\<close>

lemma register_step:
  assumes g: "list_all fld g" "peval (mul k) (g @ [1]) = 0"
    and p: "list_all fld (p0 # ps)" "length (p0 # ps) = length g" and d: "fld d" and s: "fld s"
    and zero: "horner (mul k) (p0 # ps) s = 0"
    and f: "f = d XOR p0"
  shows "horner (mul k) (add_poly (ps @ [0]) (if f = 0 then map (\<lambda>_. 0) g else map (mul (lg f)) (rev g)))
    (d XOR mul k s) = 0"
proof -
  let ?u = "ps @ [0]"
  let ?v = "if f = 0 then map (\<lambda>_. 0) g else map (mul (lg f)) (rev g)"
  have fin: "fld f" using f d p by (simp add: xor_in)
  have v: "list_all fld ?v" "length ?u = length ?v"
    using g p by (auto simp: list_all_iff mul_in zero_in)
  have "horner (mul k) ?u (p0 XOR mul k s) = mul k (horner (mul k) (p0 # ps) s)"
    by (simp add: horner_append)
  then have u0: "horner (mul k) ?u (p0 XOR mul k s) = 0"
    using zero by (simp add: mul_zero)
  have zeros: "horner (mul k) (map (\<lambda>_. 0) xs) 0 = 0" for xs :: "u16 list"
    by (induction xs) (auto simp: mul_zero)
  have v0: "horner (mul k) ?v f = 0"
  proof (cases "f = 0")
    case True
    then show ?thesis using zeros by simp
  next
    case False
    have "horner (mul k) (rev g) 1 = horner (mul k) (rev (g @ [1])) 0"
      by (simp add: mul_zero)
    also have "\<dots> = 0" unfolding horner_rev using g(2) .
    finally have "mul (lg f) (horner (mul k) (rev g) 1) = 0" by (simp add: mul_zero)
    then have "horner (mul k) (map (mul (lg f)) (rev g)) (mul (lg f) 1) = 0"
      using g(1) by (subst horner_scale) (auto simp: one_in)
    with False fin show ?thesis by (simp add: mul_lg)
  qed
  have "d XOR mul k s = (p0 XOR mul k s) XOR f"
    unfolding f by (simp add: ac_simps)
  moreover have "horner (mul k) (add_poly ?u ?v) ((p0 XOR mul k s) XOR f) =
      horner (mul k) ?u (p0 XOR mul k s) XOR horner (mul k) ?v f"
    by (rule horner_add) (use v p d s fin in \<open>auto simp: xor_in mul_in zero_in\<close>)
  ultimately show ?thesis using u0 v0 by simp
qed

subsection \<open>Few terms with many zeros vanish\<close>

lemma mul_inject:
  assumes "fld x" and "x \<noteq> 0" and "mul a x = mul b x"
  shows "a mod n = b mod n"
proof -
  have "mul k x = mul (k + lg x) 1" for k
    using assms(1,2) by (metis mul_lg mul_mul one_in)
  with assms(3) have "(a + lg x) mod n = (b + lg x) mod n"
    by (metis lg_mul)
  then show ?thesis by (rule mod_add_cancel)
qed

lemma wsum_in: "\<forall>t\<in>set ts. fld (fst t) \<Longrightarrow> fld (wsum mul j ts)"
  by (induction ts) (auto simp: zero_in xor_in mul_in)

text \<open>Vandermonde: \<open>t\<close> terms at different places whose first \<open>t\<close> power sums vanish are zero.\<close>

lemma vandermonde:
  assumes "\<forall>t\<in>set ts. fld (fst t)" and "distinct (map (\<lambda>t. snd t mod n) ts)"
    and "\<forall>j < length ts. wsum mul j ts = 0"
  shows "\<forall>t\<in>set ts. fst t = 0"
  using assms
proof (induction "length ts" arbitrary: ts)
  case 0
  then show ?case by simp
next
  case (Suc m)
  then obtain c0 l0 us where ts: "ts = (c0, l0) # us" and m: "m = length us"
    by (cases ts) auto
  have fld: "fld c0" "\<forall>t\<in>set us. fld (fst t)" using Suc.prems(1) ts by auto
  have z: "wsum mul j us = mul (j * l0) c0" if "j \<le> m" for j
    using Suc.prems(3) that m ts by (auto simp: xor_eq_0_iff)
  define vs where "vs = map (\<lambda>t. (mul (snd t) (fst t) XOR mul l0 (fst t), snd t)) us"
  have step: "wsum mul j vs = wsum mul (Suc j) us XOR mul l0 (wsum mul j us)" for j
    using fld(2) unfolding vs_def
    by (induction us) (auto simp: mul_zero mul_xor mul_in wsum_in mul_mul ac_simps)
  have "\<forall>t\<in>set vs. fst t = 0"
  proof (rule Suc.hyps(1))
    show "m = length vs" by (simp add: vs_def m)
    show "\<forall>t\<in>set vs. fld (fst t)" using fld(2) by (auto simp: vs_def xor_in mul_in)
    show "distinct (map (\<lambda>t. snd t mod n) vs)" using Suc.prems(2) ts by (simp add: vs_def comp_def)
    show "\<forall>j < length vs. wsum mul j vs = 0"
    proof (intro allI impI)
      fix j assume "j < length vs"
      then have "j \<le> m" "Suc j \<le> m" by (auto simp: vs_def m)
      with z [of j] z [of "Suc j"] show "wsum mul j vs = 0"
        by (simp add: step mul_mul fld add.commute)
    qed
  qed
  then have eq: "mul (snd t) (fst t) = mul l0 (fst t)" if "t \<in> set us" for t
    using that by (auto simp: vs_def xor_eq_0_iff)
  have us: "fst t = 0" if t: "t \<in> set us" for t
  proof (rule ccontr)
    assume "fst t \<noteq> 0"
    with mul_inject [OF _ _ eq [OF t]] fld(2) t have "snd t mod n = l0 mod n" by blast
    moreover from t have "snd t mod n \<in> set (map (\<lambda>t. snd t mod n) us)" by auto
    moreover have "l0 mod n \<notin> set (map (\<lambda>t. snd t mod n) us)" using Suc.prems(2) ts by simp
    ultimately show False by simp
  qed
  then have "wsum mul 0 us = 0"
    by (induction us) (auto simp: mul_zero)
  with z [of 0] fld have "c0 = 0" by (simp add: mul_0)
  with us ts show ?case by auto
qed

lemma wsum_poly_terms:
  "list_all fld cs \<Longrightarrow> wsum mul j (poly_terms mul (f * p) p i cs) =
     mul ((f + j) * p * i) (peval (mul ((f + j) * p)) cs)"
proof (induction cs arbitrary: i)
  case (Cons c cs)
  have "j * (p * i) + f * p * i = (f + j) * p * i" "(f + j) * p * i + (f + j) * p = (f + j) * p * Suc i"
    by (simp_all add: algebra_simps)
  with Cons show ?case
    by (simp add: mul_mul mul_xor mul_in peval_in del: mult_Suc_right)
qed (simp add: mul_zero)

lemma wsum_filter: "wsum mul j (filter (\<lambda>t. fst t \<noteq> 0) ts) = wsum mul j ts"
  by (induction ts) (auto simp: mul_zero)

lemma length_nonzero_terms:
  "list_all fld cs \<Longrightarrow> length (filter (\<lambda>t. fst t \<noteq> 0) (poly_terms mul a p i cs)) = length (filter (\<lambda>c. c \<noteq> 0) cs)"
  by (induction cs arbitrary: i) (auto simp: mul_eq_0)

lemma poly_terms_in: "list_all fld cs \<Longrightarrow> \<forall>t\<in>set (poly_terms mul a p i cs). fld (fst t)"
  by (induction cs arbitrary: i) (auto simp: mul_in)

lemma poly_terms_zero:
  "list_all fld cs \<Longrightarrow> \<forall>t\<in>set (poly_terms mul a p i cs). fst t = 0 \<Longrightarrow> list_all (\<lambda>c. c = 0) cs"
  by (induction cs arbitrary: i) (auto simp: mul_eq_0)

text \<open>A polynomial with at most \<open>t\<close> coefficients that vanishes at \<open>t\<close> consecutive points is zero.\<close>

lemma sparse_zero:
  assumes cs: "list_all fld cs" "length cs \<le> n" and p: "coprime p n"
    and sparse: "length (filter (\<lambda>c. c \<noteq> 0) cs) \<le> t"
    and zeros: "\<forall>j < t. peval (mul ((f + j) * p)) cs = 0"
  shows "list_all (\<lambda>c. c = 0) cs"
proof -
  let ?ts = "poly_terms mul (f * p) p 0 cs"
  let ?us = "filter (\<lambda>t. fst t \<noteq> 0) ?ts"
  have "\<forall>t\<in>set ?us. fst t = 0"
  proof (rule vandermonde)
    show "\<forall>t\<in>set ?us. fld (fst t)" using poly_terms_in [OF cs(1), of "f * p" p 0] by auto
    have "inj_on (\<lambda>k. p * k mod n) {0..<length cs}"
      using cs(2) p by (intro inj_onI) (auto dest!: mult_mod_inj [OF p, rotated 2])
    then have "distinct (map (\<lambda>t. snd t mod n) ?ts)"
      unfolding map_snd_poly_terms by (simp add: distinct_map)
    then show "distinct (map (\<lambda>t. snd t mod n) ?us)" by (rule distinct_map_filter)
    show "\<forall>j < length ?us. wsum mul j ?us = 0"
      using zeros sparse cs(1) by (simp add: wsum_filter wsum_poly_terms length_nonzero_terms mul_zero)
  qed
  then have "\<forall>t\<in>set ?ts. fst t = 0" by auto
  with poly_terms_zero [OF cs(1)] show ?thesis by blast
qed

end

section \<open>Properties\<close>

text \<open>\<open>rs_modnn\<close> is the remainder modulo \<open>nn\<close> for every non-negative argument: the loop of
  shifts and masks ends and returns \<open>x mod nn\<close>. The comment in \<open>rslib.h\<close>, that simple arithmetic
  modulo would return a wrong result for values of at least \<open>3 * nn\<close>, is not so.\<close>

lemma rs_modnn_is_mod:
  assumes "1 \<le> mm rs" and "mm rs \<le> 16" and "nn rs = 2 ^ nat (mm rs) - 1" and "0 \<le> x"
  shows "rs_modnn rs x = Some (x mod nn rs)"
  using assms by (intro rs_modnn_mod) (auto simp: sizes_ok_def)

end
