(* ===== verification/Rs_Tables.thy ===== *)
theory Rs_Tables imports Rs_Field begin

text \<open>
  What \<open>rs_init\<close> builds: the tables of a primitive polynomial are exponentials and logarithms and
  provide the interface \<open>log_field\<close>; the generator polynomial, before its conversion to index
  form, is monic and vanishes at its \<open>nroots\<close> roots.
\<close>

section \<open>Primitive polynomials\<close>

lemma xpow_zero_stays: "xpow m p i = 0 \<Longrightarrow> xpow m p (i + k) = 0"
  by (induction k) (simp_all add: xpow_Suc xtime_0)

lemma xpow_nonzero:
  assumes "primitive m p" and "i \<le> 2 ^ nat m - 1"
  shows "xpow m p i \<noteq> 0"
proof
  assume "xpow m p i = 0"
  then have "xpow m p (i + (2 ^ nat m - 1 - i)) = 0" by (rule xpow_zero_stays)
  moreover have "i + (2 ^ nat m - 1 - i) = 2 ^ nat m - 1" using assms(2) by simp
  ultimately show False using assms(1) by (simp add: primitive_def)
qed

text \<open>Every non-zero residue is a power.\<close>

lemma primitive_covers:
  assumes "1 \<le> m" and "primitive m p" and "0 < x" and "x < 2 ^ nat m"
  shows "\<exists>i < 2 ^ nat m - 1. xpow m p i = x"
proof -
  let ?N = "2 ^ nat m - 1 :: nat"
  have sub: "xpow m p ` {..<?N} \<subseteq> {1..<2 ^ nat m}"
  proof (rule image_subsetI)
    fix i assume "i \<in> {..<?N}"
    then have "xpow m p i \<noteq> 0" using assms(2) by (intro xpow_nonzero) auto
    with xpow_range [OF assms(1), of p i] show "xpow m p i \<in> {1..<2 ^ nat m}"
      by auto
  qed
  have "inj_on (xpow m p) {..<?N}"
    using assms(2) by (simp add: primitive_def distinct_map atLeast0LessThan)
  then have "card (xpow m p ` {..<?N}) = ?N"
    by (simp add: card_image)
  moreover have "card {1..<2 ^ nat m :: int} = ?N"
    by (simp add: nat_diff_distrib nat_power_eq)
  ultimately have "xpow m p ` {..<?N} = {1..<2 ^ nat m}"
    using sub by (intro card_subset_eq) auto
  moreover have "x \<in> {1..<2 ^ nat m}" using assms(3,4) by simp
  ultimately show ?thesis by (metis imageE lessThan_iff)
qed

section \<open>The tables provide the interface\<close>

definition fld_of :: "rs_control \<Rightarrow> u16 \<Rightarrow> bool" where
  "fld_of rs x \<longleftrightarrow> uint x \<le> nn rs"

definition glog :: "rs_control \<Rightarrow> u16 \<Rightarrow> nat" where
  "glog rs x = unat (index_of rs ! unat x)"

definition gmul :: "rs_control \<Rightarrow> nat \<Rightarrow> u16 \<Rightarrow> u16" where
  "gmul rs k x = (if x = 0 then 0 else alpha_to rs ! ((glog rs x + k) mod nat (nn rs)))"

definition tables_ok :: "rs_control \<Rightarrow> int \<Rightarrow> bool" where
  "tables_ok rs p \<longleftrightarrow> sizes_ok rs \<and> primitive (mm rs) p \<and>
     length (alpha_to rs) = nat (nn rs) + 1 \<and> length (index_of rs) = nat (nn rs) + 1 \<and>
     alpha_to rs ! nat (nn rs) = 0 \<and> uint (index_of rs ! 0) = nn rs \<and>
     (\<forall>i < nat (nn rs). uint (alpha_to rs ! i) = xpow (mm rs) p i \<and>
        unat (index_of rs ! nat (xpow (mm rs) p i)) = i)"

lemma nat_nn: "sizes_ok rs \<Longrightarrow> nat (nn rs) = 2 ^ nat (mm rs) - 1"
  unfolding sizes_ok_def by (simp add: nat_diff_distrib nat_power_eq)

lemma tables_ok_sizes: "tables_ok rs p \<Longrightarrow> sizes_ok rs"
  by (simp add: tables_ok_def)

lemma alpha_elem:
  assumes "tables_ok rs p" and "i < nat (nn rs)"
  shows "alpha_to rs ! i \<noteq> 0 \<and> fld_of rs (alpha_to rs ! i) \<and> glog rs (alpha_to rs ! i) = i"
proof -
  have s: "sizes_ok rs" "primitive (mm rs) p" and m: "1 \<le> mm rs" "nn rs = 2 ^ nat (mm rs) - 1"
    using assms(1) by (auto simp: tables_ok_def sizes_ok_def)
  have u: "uint (alpha_to rs ! i) = xpow (mm rs) p i"
    using assms by (simp add: tables_ok_def)
  have "xpow (mm rs) p i \<noteq> 0"
    using assms(2) s by (intro xpow_nonzero) (auto simp: nat_nn)
  with u have "alpha_to rs ! i \<noteq> 0" by auto
  moreover have "fld_of rs (alpha_to rs ! i)"
    using xpow_range [OF m(1), of p i] m(2) u by (simp add: fld_of_def)
  moreover have "glog rs (alpha_to rs ! i) = i"
    using assms u by (simp add: glog_def tables_ok_def flip: nat_uint_eq)
  ultimately show ?thesis by blast
qed

lemma elem_cases:
  assumes "tables_ok rs p" and "fld_of rs x" and "x \<noteq> 0"
  obtains i where "i < nat (nn rs)" and "x = alpha_to rs ! i"
proof -
  have s: "sizes_ok rs" "primitive (mm rs) p" and m: "1 \<le> mm rs" "nn rs = 2 ^ nat (mm rs) - 1"
    using assms(1) by (auto simp: tables_ok_def sizes_ok_def)
  have "0 < uint x" using assms(3) by (metis uint_0_iff uint_ge_0 less_le)
  moreover have "uint x < 2 ^ nat (mm rs)" using assms(2) m(2) by (simp add: fld_of_def)
  ultimately obtain i where i: "i < 2 ^ nat (mm rs) - 1" "xpow (mm rs) p i = uint x"
    using primitive_covers [OF m(1) s(2)] by blast
  then have "x = alpha_to rs ! i"
    using assms(1) s(1) by (simp add: tables_ok_def nat_nn flip: uint_inject)
  with i that s(1) show ?thesis by (simp add: nat_nn)
qed

lemma gmul_elem:
  "tables_ok rs p \<Longrightarrow> i < nat (nn rs) \<Longrightarrow> gmul rs k (alpha_to rs ! i) = alpha_to rs ! ((i + k) mod nat (nn rs))"
  using alpha_elem [of rs p i] by (simp add: gmul_def)

lemma gmul_zero_left:
  assumes "tables_ok rs p" and "fld_of rs x"
  shows "gmul rs 0 x = x"
proof (cases "x = 0")
  case False
  obtain i where "i < nat (nn rs)" "x = alpha_to rs ! i"
    using elem_cases [OF assms False] .
  with assms(1) show ?thesis by (simp add: gmul_elem)
qed (simp add: gmul_def)

lemma glog_gmul:
  assumes "tables_ok rs p" and "fld_of rs x" and "x \<noteq> 0"
  shows "alpha_to rs ! glog rs x = x"
  using gmul_zero_left [OF assms(1,2)] elem_cases [OF assms] alpha_elem [OF assms(1)] by metis

lemma gmul_0_right [simp]: "gmul rs k 0 = 0"
  by (simp add: gmul_def)

lemma nat_nn_pos: "tables_ok rs p \<Longrightarrow> 0 < nat (nn rs)"
  using nn_pos tables_ok_sizes by force

lemma gmul_in: "tables_ok rs p \<Longrightarrow> fld_of rs x \<Longrightarrow> fld_of rs (gmul rs k x)"
  using alpha_elem [of rs p "(glog rs x + k) mod nat (nn rs)"] nat_nn_pos [of rs p]
  by (auto simp: gmul_def)

lemma gmul_gmul:
  assumes "tables_ok rs p" and "fld_of rs x"
  shows "gmul rs k (gmul rs l x) = gmul rs (k + l) x"
proof (cases "x = 0")
  case False
  obtain i where "i < nat (nn rs)" "x = alpha_to rs ! i"
    using elem_cases [OF assms False] .
  then show ?thesis
    using assms(1) nat_nn_pos [OF assms(1)] by (simp add: gmul_elem mod_simps ac_simps)
qed simp

lemma gmul_xtime:
  assumes "tables_ok rs p" and "fld_of rs x"
  shows "uint (gmul rs 1 x) = xtime (mm rs) p (uint x)"
proof (cases "x = 0")
  case True
  then show ?thesis by (simp add: xtime_0)
next
  case False
  obtain i where i: "i < nat (nn rs)" "x = alpha_to rs ! i"
    using elem_cases [OF assms False] .
  have tab: "uint (alpha_to rs ! j) = xpow (mm rs) p j" if "j < nat (nn rs)" for j
    using assms(1) that by (simp add: tables_ok_def)
  have last: "xpow (mm rs) p (nat (nn rs)) = 1"
    using assms(1) by (simp add: tables_ok_def primitive_def nat_nn)
  have "uint (alpha_to rs ! ((i + 1) mod nat (nn rs))) = xpow (mm rs) p (Suc i)"
  proof (cases "i + 1 < nat (nn rs)")
    case True
    then show ?thesis by (simp add: tab)
  next
    case False
    with i have "i + 1 = nat (nn rs)" by simp
    with last nat_nn_pos [OF assms(1)] show ?thesis by (simp add: tab)
  qed
  with i tab assms(1) show ?thesis
    by (simp add: gmul_elem xpow_Suc)
qed

lemma fld_xor:
  assumes "sizes_ok rs" and "fld_of rs x" and "fld_of rs y"
  shows "fld_of rs (x XOR y)"
proof -
  obtain m where m: "nn rs = 2 ^ m - 1" using assms(1) by (rule sizes_okE)
  have "uint x XOR uint y < 2 ^ m"
    using assms m by (intro XOR_upper) (auto simp: fld_of_def)
  with m show ?thesis by (simp add: fld_of_def uint_xor)
qed

lemma gmul_xor:
  assumes t: "tables_ok rs p" and "fld_of rs x" and "fld_of rs y"
  shows "gmul rs k (x XOR y) = gmul rs k x XOR gmul rs k y"
proof -
  note s = tables_ok_sizes [OF t]
  have one: "gmul rs 1 (a XOR b) = gmul rs 1 a XOR gmul rs 1 b" if "fld_of rs a" "fld_of rs b" for a b
    using gmul_xtime [OF t fld_xor [OF s that]] gmul_xtime [OF t that(1)] gmul_xtime [OF t that(2)]
    by (simp add: uint_xor xtime_xor flip: uint_inject)
  show ?thesis
  proof (induction k)
    case 0
    then show ?case by (simp add: gmul_zero_left [OF t] assms fld_xor [OF s])
  next
    case (Suc k)
    have "gmul rs (Suc k) z = gmul rs 1 (gmul rs k z)" if "fld_of rs z" for z
      using gmul_gmul [OF t that, of 1 k] by simp
    with Suc assms show ?case
      by (simp add: fld_xor [OF s] one [unfolded One_nat_def] gmul_in [OF t])
  qed
qed

lemma log_field_tables:
  assumes t: "tables_ok rs p"
  shows "log_field (nat (nn rs)) (fld_of rs) (gmul rs) (glog rs)"
proof
  note s = tables_ok_sizes [OF t]
  have a0: "alpha_to rs ! 0 = 1"
    using t nat_nn_pos [OF t] by (simp add: tables_ok_def flip: uint_inject)
  show "0 < nat (nn rs)" by (rule nat_nn_pos [OF t])
  show "fld_of rs 0" using nn_pos [OF s] by (simp add: fld_of_def)
  show "fld_of rs 1" using nn_pos [OF s] by (simp add: fld_of_def)
  fix x y :: u16 and k l :: nat
  show "gmul rs k 0 = 0" by simp
  have "gmul rs k (alpha_to rs ! 0) = alpha_to rs ! (k mod nat (nn rs))"
    using gmul_elem [OF t nat_nn_pos [OF t], of k] by simp
  then show "glog rs (gmul rs k 1) = k mod nat (nn rs)"
    using alpha_elem [OF t, of "k mod nat (nn rs)"] nat_nn_pos [OF t] by (simp add: a0)
  assume x: "fld_of rs x"
  show "fld_of rs (gmul rs k x)" by (rule gmul_in [OF t x])
  show "gmul rs k (gmul rs l x) = gmul rs (k + l) x" by (rule gmul_gmul [OF t x])
  show "gmul rs 0 x = x" by (rule gmul_zero_left [OF t x])
  show "gmul rs (k + nat (nn rs)) x = gmul rs k x"
    by (simp add: gmul_def add.assoc [symmetric])
  show "gmul rs (glog rs x) 1 = x" if nz: "x \<noteq> 0"
  proof -
    obtain i where "i < nat (nn rs)" "x = alpha_to rs ! i"
      using elem_cases [OF t x nz] .
    with gmul_elem [OF t nat_nn_pos [OF t], of i] alpha_elem [OF t, of i] a0
    show ?thesis by simp
  qed
  assume y: "fld_of rs y"
  show "fld_of rs (x XOR y)" by (rule fld_xor [OF s x y])
  show "gmul rs k (x XOR y) = gmul rs k x XOR gmul rs k y" by (rule gmul_xor [OF t x y])
qed

section \<open>What the code looks up\<close>

lemma unat_le_nn: "sizes_ok rs \<Longrightarrow> fld_of rs x \<Longrightarrow> unat x \<le> nat (nn rs)"
  unfolding fld_of_def by (drule nat_mono) simp

lemma index_lookup [access_simps]:
  "tables_ok rs p \<Longrightarrow> fld_of rs x \<Longrightarrow> rd (index_of rs) (unat x) = Some (index_of rs ! unat x)"
  using unat_le_nn [of rs x] by (simp add: rd_def tables_ok_def less_Suc_eq_le)

lemma index_uint: "uint (index_of rs ! unat x) = int (glog rs x)"
  by (simp add: glog_def)

lemma glog_less:
  assumes "tables_ok rs p" and "fld_of rs x" and "x \<noteq> 0"
  shows "glog rs x < nat (nn rs)"
  using elem_cases [OF assms] alpha_elem [OF assms(1)] by metis

lemma index_nn_iff:
  assumes "tables_ok rs p" and "fld_of rs x"
  shows "uint (index_of rs ! unat x) = nn rs \<longleftrightarrow> x = 0"
proof
  assume "uint (index_of rs ! unat x) = nn rs"
  then have "nat (nn rs) = glog rs x" by (metis index_uint nat_int)
  then show "x = 0" using glog_less [OF assms] by auto
next
  assume "x = 0"
  then show "uint (index_of rs ! unat x) = nn rs"
    using assms(1) by (simp add: tables_ok_def)
qed

lemma alpha_lookup:
  assumes t: "tables_ok rs p" and "0 \<le> e"
  shows "alpha_modnn rs e = Some (alpha_to rs ! (nat e mod nat (nn rs)))"
proof -
  note s = tables_ok_sizes [OF t]
  have "nat (e mod nn rs) = nat e mod nat (nn rs)"
    using assms(2) nn_pos [OF s] by (simp add: nat_mod_distrib)
  moreover have "nat e mod nat (nn rs) < nat (nn rs)"
    using nat_nn_pos [OF t] by simp
  moreover have "0 \<le> e mod nn rs" using nn_pos [OF s] by simp
  ultimately show ?thesis
    using t assms(2) by (simp add: alpha_modnn_def rs_modnn_mod [OF s] rdz_def rd_def tables_ok_def)
qed

lemma alpha_lookup_mul:
  assumes t: "tables_ok rs p" and x: "fld_of rs x" "x \<noteq> 0" and "0 \<le> e"
  shows "alpha_modnn rs (uint (index_of rs ! unat x) + e) = Some (gmul rs (nat e) x)"
proof -
  have "nat (int (glog rs x) + e) = glog rs x + nat e"
    using assms(4) by (simp add: nat_add_distrib)
  with x assms(4) show ?thesis
    by (simp add: index_uint alpha_lookup [OF t] gmul_def)
qed

section \<open>Filling the tables\<close>

lemma field_tables_spec:
  fixes f :: "int \<Rightarrow> int" and sr :: int
  defines "orb \<equiv> \<lambda>i. (f ^^ i) sr"
  assumes len: "length index = N + 1" "length alpha = N + 1"
    and orbit: "\<And>i. i < N \<Longrightarrow> 1 \<le> orb i \<and> orb i \<le> int N" and inj: "inj_on orb {..<N}"
  shows "\<exists>index' alpha'. field_tables f (int N) sr index alpha = Some (index', alpha', orb N) \<and>
    length index' = N + 1 \<and> length alpha' = N + 1 \<and> index' ! 0 = index ! 0 \<and> alpha' ! N = alpha ! N \<and>
    (\<forall>i < N. alpha' ! i = word_of_int (orb i) \<and> index' ! nat (orb i) = word_of_nat i)"
proof -
  let ?P = "\<lambda>k (index', alpha', s). s = orb k \<and>
    length index' = N + 1 \<and> length alpha' = N + 1 \<and> index' ! 0 = index ! 0 \<and> alpha' ! N = alpha ! N \<and>
    (\<forall>i < k. alpha' ! i = word_of_int (orb i) \<and> index' ! nat (orb i) = word_of_nat i)"
  have "\<exists>r. field_tables f (int N) sr index alpha = Some r \<and> ?P N r"
    unfolding field_tables_def nat_int
  proof (rule for_in_upt [where P = ?P])
    fix k and r :: "u16 list \<times> u16 list \<times> int"
    assume k: "k < N" and P: "?P k r"
    obtain ix al s where r: "r = (ix, al, s)" by (cases r)
    have ok: "1 \<le> orb k" "orb k \<le> int N" using orbit [OF k] by auto
    then have nat_ok: "nat (orb k) \<noteq> 0" "nat (orb k) < N + 1" by auto
    have ne: "nat (orb k) \<noteq> nat (orb i)" if "i < k" for i
    proof
      assume "nat (orb k) = nat (orb i)"
      then have "orb i = orb k" using orbit [of i] ok k that by auto
      with inj_onD [OF inj, of i k] k that show False by simp
    qed
    have P': "?P (Suc k) (ix[nat (orb k) := word_of_nat k], al[k := word_of_int (orb k)], f s)"
      using P r k nat_ok ne by (auto simp: less_Suc_eq nth_list_update orb_def split: if_splits)
    have "(case r of (index, alpha, sr) \<Rightarrow> do {
        index \<leftarrow> wrz index sr (word_of_nat k); alpha \<leftarrow> wr alpha k (word_of_int sr);
        Some (index, alpha, f sr) }) = Some (ix[nat (orb k) := word_of_nat k], al[k := word_of_int (orb k)], f s)"
      using P r k ok nat_ok by (simp add: wrz_def wr_def)
    with P' show "\<exists>r'. (case r of (index, alpha, sr) \<Rightarrow> do {
        index \<leftarrow> wrz index sr (word_of_nat k); alpha \<leftarrow> wr alpha k (word_of_int sr);
        Some (index, alpha, f sr) }) = Some r' \<and> ?P (Suc k) r'" by blast
  qed (use len in \<open>auto simp: orb_def\<close>)
  then show ?thesis by auto
qed

section \<open>The generator polynomial\<close>

definition root_exp :: "rs_control \<Rightarrow> nat \<Rightarrow> nat" where
  "root_exp rs i = nat ((fcr rs + int i) * prim rs)"

primrec gen :: "rs_control \<Rightarrow> nat \<Rightarrow> u16 list" where
  "gen rs 0 = [1]"
| "gen rs (Suc i) = times_root (gmul rs (root_exp rs i)) (gen rs i)"

lemma length_times_root [simp]: "length (times_root b g) = length g + 1"
  by (simp add: times_root_def)

lemma nth_times_root:
  "l \<le> length g \<Longrightarrow> times_root b g ! l =
     (if l = 0 then 0 else g ! (l - 1)) XOR (if l < length g then b (g ! l) else 0)"
  by (auto simp: times_root_def nth_append nth_Cons')

text \<open>Monic, of degree \<open>i\<close>, with a non-zero constant term.\<close>

lemma gen_shape:
  assumes t: "tables_ok rs p"
  shows "length (gen rs i) = i + 1 \<and> list_all (fld_of rs) (gen rs i) \<and> gen rs i ! i = 1 \<and> gen rs i ! 0 \<noteq> 0"
proof -
  note F = log_field_tables [OF t]
  show ?thesis
  proof (induction i)
    case 0
    then show ?case using log_field.one_in [OF F] by simp
  next
    case (Suc i)
    let ?b = "gmul rs (root_exp rs i)"
    have g: "fld_of rs (gen rs i ! l)" if "l \<le> i" for l
      using Suc that by (simp add: list_all_length)
    have "fld_of rs (gen rs (Suc i) ! l)" if "l \<le> Suc i" for l
      using Suc that g by (auto simp: nth_times_root intro!: log_field.one_in [OF F] log_field.xor_in [OF F] log_field.zero_in [OF F] log_field.mul_in [OF F])
    moreover have "gen rs (Suc i) ! 0 \<noteq> 0"
      using Suc g [of 0] by (simp add: nth_times_root log_field.mul_eq_0 [OF F])
    ultimately show ?case
      using Suc by (simp add: list_all_length nth_times_root)
  qed
qed

text \<open>It vanishes at the first \<open>i\<close> roots.\<close>

lemma gen_roots:
  assumes t: "tables_ok rs p" and "j < i"
  shows "peval (gmul rs (root_exp rs j)) (gen rs i) = 0"
  using assms(2)
proof (induction i)
  case (Suc i)
  have "peval (gmul rs (root_exp rs j)) (gen rs (Suc i)) =
      gmul rs (root_exp rs j) (peval (gmul rs (root_exp rs j)) (gen rs i)) XOR
      gmul rs (root_exp rs i) (peval (gmul rs (root_exp rs j)) (gen rs i))"
    using gen_shape [OF t, of i] by (simp add: log_field.peval_times_root [OF log_field_tables [OF t]])
  with Suc show ?case by (cases "j = i") auto
qed simp

lemma genpoly_factor_spec:
  assumes t: "tables_ok rs p" and len: "i + 2 \<le> length g" and G: "take (i + 1) g = G"
    and Gs: "list_all (fld_of rs) G" "G ! i = 1" "G ! 0 \<noteq> 0" and r: "0 \<le> r"
  shows "\<exists>g'. genpoly_factor rs r i g = Some g' \<and> length g' = length g \<and>
    take (i + 2) g' = times_root (gmul rs (nat r)) G"
proof -
  let ?b = "gmul rs (nat r)"
  have lenG: "length G = i + 1" using len G by auto
  have fG: "fld_of rs (G ! l)" if "l \<le> i" for l
    using Gs(1) lenG that by (simp add: list_all_length)
  have gG: "g ! l = G ! l" if "l \<le> i" for l
    using G that by auto
  let ?P = "\<lambda>k s. length s = length g \<and> s ! (i + 1) = 1 \<and> (\<forall>l < k. l \<le> i \<longrightarrow> s ! l = G ! l) \<and>
    (\<forall>l. k \<le> l \<and> l \<le> i \<longrightarrow> s ! l = G ! (l - 1) XOR ?b (G ! l))"
  let ?body = "\<lambda>j g. do {
        gj \<leftarrow> rd g j;
        gp \<leftarrow> rd g (j - 1);
        if gj \<noteq> 0 then do {
          k \<leftarrow> rd (index_of rs) (unat gj);
          a \<leftarrow> alpha_modnn rs (uint k + r);
          wr g j (gp XOR a) }
        else wr g j gp }"
  have "\<exists>s. for_in (rev [1..<Suc i]) ?body (g[i + 1 := 1]) = Some s \<and> ?P 1 s"
  proof (rule for_in_down [where P = ?P])
    fix j s
    assume j: "1 \<le> j" "j < Suc i" and P: "?P (Suc j) s"
    have sj: "s ! j = G ! j" "s ! (j - 1) = G ! (j - 1)" using P j by auto
    have "?body j s = Some (s[j := G ! (j - 1) XOR ?b (G ! j)])"
    proof (cases "G ! j = 0")
      case True
      then show ?thesis using sj P j len by (simp add: rd_def wr_def)
    next
      case False
      then show ?thesis
        using sj P j len fG [of j] by (simp add: rd_in wr_in index_lookup [OF t] alpha_lookup_mul [OF t _ _ r])
    qed
    moreover have "?P j (s[j := G ! (j - 1) XOR ?b (G ! j)])"
      using P j len by (auto simp: nth_list_update)
    ultimately show "\<exists>s'. ?body j s = Some s' \<and> ?P j s'" by blast
  qed (use len gG in auto)
  then obtain s where s: "for_in (rev [1..<Suc i]) ?body (g[i + 1 := 1]) = Some s" "?P 1 s" by blast
  let ?g' = "s[0 := ?b (G ! 0)]"
  have s0: "0 < length s" "s ! 0 = G ! 0" using s(2) len by auto
  then have "genpoly_factor rs r i g = Some ?g'"
    using s(1) len fG [of 0] Gs(3)
    by (simp add: genpoly_factor_def rd_in wr_in index_lookup [OF t] alpha_lookup_mul [OF t _ _ r])
  moreover have "take (i + 2) ?g' = times_root ?b G"
  proof (rule nth_equalityI)
    show "length (take (i + 2) ?g') = length (times_root ?b G)"
      using s len lenG by simp
    fix l assume "l < length (take (i + 2) ?g')"
    then have l: "l < i + 2" by simp
    show "take (i + 2) ?g' ! l = times_root ?b G ! l"
      using s(2) s0 len lenG l Gs(2) by (cases "l = 0"; cases "l = i + 1") (auto simp: nth_times_root)
  qed
  ultimately show ?thesis using s by auto
qed

lemma make_genpoly_spec:
  assumes t: "tables_ok rs p" and len: "length g = nat (nroots rs) + 1" and "0 \<le> nroots rs"
    and "0 \<le> fcr rs" "0 \<le> prim rs"
  shows "make_genpoly rs g = Some (map (\<lambda>x. index_of rs ! unat x) (gen rs (nat (nroots rs))))"
proof -
  let ?n = "nat (nroots rs)"
  let ?P = "\<lambda>i s. length s = ?n + 1 \<and> take (i + 1) s = gen rs i"
  have "\<exists>s. for_in [0..<?n] (\<lambda>i g. genpoly_factor rs (fcr rs * prim rs + int i * prim rs) i g) (g[0 := 1])
      = Some s \<and> ?P ?n s"
  proof (rule for_in_upt [where P = ?P])
    fix i s
    assume i: "i < ?n" and P: "?P i s"
    have r: "fcr rs * prim rs + int i * prim rs = (fcr rs + int i) * prim rs"
      by (simp add: algebra_simps)
    show "\<exists>s'. genpoly_factor rs (fcr rs * prim rs + int i * prim rs) i s = Some s' \<and> ?P (Suc i) s'"
      using genpoly_factor_spec [OF t, of i s "gen rs i" "(fcr rs + int i) * prim rs"]
        gen_shape [OF t, of i] P i assms(4,5)
      unfolding r by (auto simp: root_exp_def)
  next
    show "?P 0 (g[0 := 1])"
      using len by (cases g) auto
  qed simp
  then obtain s where s: "for_in [0..<?n] (\<lambda>i g. genpoly_factor rs (fcr rs * prim rs + int i * prim rs) i g)
      (g[0 := 1]) = Some s" "length s = ?n + 1" "s = gen rs ?n" by auto
  let ?h = "\<lambda>x. index_of rs ! unat x"
  let ?Q = "\<lambda>i u. u = map ?h (take i s) @ drop i s"
  have "\<exists>u. for_in [0..<?n + 1] (\<lambda>i g. do { gi \<leftarrow> rd g i; k \<leftarrow> rd (index_of rs) (unat gi); wr g i k }) s = Some u
      \<and> ?Q (?n + 1) u"
  proof (rule for_in_upt [where P = ?Q])
    fix i u
    assume i: "i < ?n + 1" and Q: "?Q i u"
    have "fld_of rs (s ! i)"
      using gen_shape [OF t, of ?n] i s(3) by (simp add: list_all_length)
    moreover have "drop i s = s ! i # drop (Suc i) s"
      using i s(2) by (simp add: Cons_nth_drop_Suc)
    moreover have "rd u i = Some (s ! i)"
      using Q i s(2) by (simp add: rd_def nth_append)
    ultimately show "\<exists>u'. do { gi \<leftarrow> rd u i; k \<leftarrow> rd (index_of rs) (unat gi); wr u i k } = Some u' \<and> ?Q (Suc i) u'"
      using Q i s(2)
      by (simp add: wr_def nth_append index_lookup [OF t] list_update_append take_Suc_conv_app_nth)
  qed auto
  with s have "for_in [0..<?n + 1] (\<lambda>i g. do { gi \<leftarrow> rd g i; k \<leftarrow> rd (index_of rs) (unat gi); wr g i k }) s =
      Some (map ?h (gen rs ?n))" by simp
  with s len assms(3) show ?thesis
    by (simp add: make_genpoly_def wr_def)
qed

section \<open>\<open>rs_init\<close>\<close>

lemma tables_ok_genpoly: "tables_ok (rs\<lparr>genpoly := g\<rparr>) p = tables_ok rs p"
  by (simp add: tables_ok_def sizes_ok_def)

lemma rs_init_eq:
  assumes m: "1 \<le> m" "m \<le> 16" and p: "p \<noteq> 0" "primitive m p"
    and par: "0 \<le> nroots0" "0 \<le> fcr0" "0 \<le> prim0"
    and ip: "find_iprim (2 ^ nat m - 1) prim0 1 = Some ip"
    and mem: "malloc 0" "malloc 1" "malloc 2" "malloc 3"
  shows "\<exists>rs. rs_init malloc junk call m p func fcr0 prim0 nroots0 = Some (Some rs) \<and> tables_ok rs p \<and>
    mm rs = m \<and> nroots rs = nroots0 \<and> fcr rs = fcr0 \<and> prim rs = prim0 \<and> iprim rs = ip div prim0 \<and>
    gfpoly rs = p \<and> gffunc rs = func \<and>
    genpoly rs = map (\<lambda>x. index_of rs ! unat x) (gen rs (nat nroots0))"
proof -
  define N where "N = (2 :: nat) ^ nat m - 1"
  have pow: "(2 :: int) ^ 1 \<le> 2 ^ nat m" "(2 :: int) ^ nat m \<le> 2 ^ 16"
  proof -
    have "1 \<le> nat m" "nat m \<le> 16" using m by linarith+
    from power_increasing [OF this(1), of "2 :: int"] power_increasing [OF this(2), of "2 :: int"]
    show "(2 :: int) ^ 1 \<le> 2 ^ nat m" "(2 :: int) ^ nat m \<le> 2 ^ 16"
      by simp_all
  qed
  have N: "int N = 2 ^ nat m - 1" by (simp add: N_def of_nat_diff)
  have "0 < int N" "int N < 2 ^ 16" unfolding N using pow by simp_all
  then have Nb: "0 < N" "N < 2 ^ 16" by simp_all
  have nexp: "push_bit (nat m) 1 - 1 = int N" by (simp add: N push_bit_of_1)
  let ?ix = "(map (junk 1) [0..<N + 1])[0 := word_of_int (int N)]"
  let ?al = "(map (junk 0) [0..<N + 1])[N := 0]"
  have pw: "(xtime m p ^^ i) 1 = xpow m p i" for i by (simp add: xpow_def)
  have orbit: "1 \<le> (xtime m p ^^ i) 1 \<and> (xtime m p ^^ i) 1 \<le> int N" if "i < N" for i
    using xpow_nonzero [OF p(2), of i] xpow_range [OF m(1), of p i] that
    unfolding pw N by (simp add: N_def)
  have inj: "inj_on (\<lambda>i. (xtime m p ^^ i) 1) {..<N}"
    using p(2) unfolding pw by (simp add: primitive_def distinct_map atLeast0LessThan N_def)
  obtain index alpha where ft: "field_tables (xtime m p) (int N) 1 ?ix ?al = Some (index, alpha, xpow m p N)"
    "length index = N + 1" "length alpha = N + 1" "index ! 0 = ?ix ! 0" "alpha ! N = ?al ! N"
    "\<forall>i < N. alpha ! i = word_of_int (xpow m p i) \<and> index ! nat (xpow m p i) = word_of_nat i"
    using field_tables_spec [of ?ix N ?al "xtime m p" 1] orbit inj unfolding pw by auto
  define rs where "rs = \<lparr>mm = m, nn = int N, alpha_to = alpha, index_of = index, genpoly = [],
      nroots = nroots0, fcr = fcr0, prim = prim0, iprim = ip div prim0, gfpoly = p, gffunc = func, users = 0\<rparr>"
  have small: "uint (word_of_int x :: u16) = x" if "0 \<le> x" "x < 2 ^ 16" for x
    using that by (simp add: uint_word_of_int_eq take_bit_int_eq_self)
  have smalln: "unat (word_of_nat i :: u16) = i" if "i < 2 ^ 16" for i
    using that by (simp add: unsigned_of_nat take_bit_nat_eq_self)
  have t: "tables_ok rs p"
    unfolding tables_ok_def
  proof (intro conjI allI impI)
    show "sizes_ok rs" using m N by (simp add: sizes_ok_def rs_def)
    show "uint (index_of rs ! 0) = nn rs"
      using ft(4) small [of "int N"] Nb by (simp add: rs_def)
    fix i assume i: "i < nat (nn rs)"
    then have "i < N" by (simp add: rs_def)
    with ft(6) orbit [of i] Nb small [of "xpow m p i"]
    show "uint (alpha_to rs ! i) = xpow (mm rs) p i" by (simp add: rs_def pw)
    show "unat (index_of rs ! nat (xpow (mm rs) p i)) = i"
      using ft(6) \<open>i < N\<close> Nb by (simp add: rs_def smalln)
  qed (use p ft(2,3,5) in \<open>auto simp: rs_def\<close>)
  define g where "g = map (\<lambda>x. index_of rs ! unat x) (gen rs (nat nroots0))"
  have mg: "make_genpoly rs (map (junk 2) [0..<nat nroots0 + 1]) = Some g"
    using make_genpoly_spec [OF t, of "map (junk 2) [0..<nat nroots0 + 1]"] par
    by (simp add: rs_def g_def)
  have a0: "rd alpha 0 = Some 1" "xpow m p N = 1"
    using ft(3,6) Nb p(2) by (auto simp: rd_def primitive_def N_def)
  have ixal: "wr (map (junk 1) [0..<N + 1]) 0 (word_of_int (int N)) = Some ?ix"
    "wrz (map (junk 0) [0..<N + 1]) (int N) 0 = Some ?al"
    by (auto simp: wr_def)
  have "rs_init malloc junk call m p func fcr0 prim0 nroots0 = Some (Some (rs\<lparr>genpoly := g\<rparr>))"
    unfolding rs_init_def Let_def nexp
    using mem m p(1) ixal ft(1) a0 ip [folded N] mg
    by (simp add: rs_def fill_tables_def rs_from_tables_def del: upt_Suc add_2_eq_Suc')
  moreover have "gmul (rs\<lparr>genpoly := g\<rparr>) = gmul rs"
    by (intro ext) (simp add: gmul_def glog_def)
  then have "gen (rs\<lparr>genpoly := g\<rparr>) k = gen rs k" for k
    by (induction k) (simp_all add: root_exp_def)
  moreover have "tables_ok (rs\<lparr>genpoly := g\<rparr>) p"
    using t by (simp add: tables_ok_genpoly)
  ultimately show ?thesis
    using \<open>\<And>k. gen (rs\<lparr>genpoly := g\<rparr>) k = gen rs k\<close>
    by (intro exI [of _ "rs\<lparr>genpoly := g\<rparr>"]) (simp add: rs_def g_def)
qed

section \<open>The root of unity\<close>

lemma find_iprim_spec:
  "find_iprim n p x = Some ip \<Longrightarrow> p dvd ip \<and> (\<exists>t :: nat. ip = x + int t * n)"
proof (induction rule: find_iprim.raw_induct [rotated, consumes 1, case_names step])
  case (step f n p x ip)
  show ?case
  proof (cases "x mod p = 0")
    case True
    with step(2) show ?thesis by (auto intro: exI [of _ 0])
  next
    case False
    with step(2) have "f n p (x + n) = Some ip" by (auto split: if_splits)
    with step(1) obtain t :: nat where "p dvd ip" "ip = x + n + int t * n" by blast
    then show ?thesis by (auto intro!: exI [of _ "Suc t"] simp: algebra_simps)
  qed
qed

lemma find_iprim_coprime:
  assumes "find_iprim n p 1 = Some ip"
  shows "coprime p n"
proof -
  obtain t :: nat where "p dvd ip" "ip = 1 + int t * n"
    using find_iprim_spec [OF assms] by blast
  then show ?thesis
    by (metis coprime_def dvd_add_left_iff dvd_mult dvd_trans)
qed

lemma find_iprim_reaches:
  "p dvd x + int t * n \<Longrightarrow> 0 < n \<Longrightarrow> x + int t * n < 2 ^ 31 \<Longrightarrow> \<exists>ip. find_iprim n p x = Some ip"
proof (induction t arbitrary: x)
  case 0
  then show ?case by (subst find_iprim.simps) (auto simp: dvd_eq_mod_eq_0)
next
  case (Suc t)
  have eq: "x + int (Suc t) * n = (x + n) + int t * n" by (simp add: algebra_simps)
  have "0 \<le> int t * n" using Suc.prems(2) by simp
  with Suc.prems(3) eq have "x + n < 2 ^ 31" by linarith
  moreover have "\<exists>ip. find_iprim n p (x + n) = Some ip"
    by (rule Suc.IH) (use Suc.prems eq in \<open>simp_all only:\<close>)
  ultimately show ?case by (subst find_iprim.simps) auto
qed

lemma find_iprim_least:
  "find_iprim n p x = Some ip \<Longrightarrow> 0 < n \<Longrightarrow> p dvd x + int u * n \<Longrightarrow> ip \<le> x + int u * n"
proof (induction arbitrary: u rule: find_iprim.raw_induct [rotated, consumes 1, case_names step])
  case (step f n p x ip)
  show ?case
  proof (cases "x mod p = 0")
    case True
    with step(2,3) show ?thesis by simp
  next
    case False
    with step(2) have f: "f n p (x + n) = Some ip" by (auto split: if_splits)
    from False step(4) obtain v where v: "u = Suc v" by (cases u) (auto simp: dvd_eq_mod_eq_0)
    then have "p dvd (x + n) + int v * n" using step(4) by (simp add: algebra_simps)
    from step(1) [OF f step(3) this] v show ?thesis by (simp add: algebra_simps)
  qed
qed

lemma coprime_multiple:
  fixes p n :: int
  assumes "coprime p n" and "0 < p"
  shows "\<exists>t. 0 \<le> t \<and> t < p \<and> p dvd 1 + t * n"
proof -
  obtain u v where uv: "u * n + v * p = 1"
    using bezout_int [of n p] assms(1) by (auto simp: coprime_iff_gcd_eq_1 gcd.commute)
  define t where "t = (- u) mod p"
  define k where "k = (- u) div p"
  have "- u = t + k * p" unfolding t_def k_def by simp
  with uv have "1 + t * n = p * (v - k * n)" by algebra
  then have "p dvd 1 + t * n" by simp
  moreover have "0 \<le> t" "t < p" using assms(2) by (auto simp: t_def)
  ultimately show ?thesis by blast
qed

lemma find_iprim_total:
  assumes "coprime p n" and "0 < p" "0 < n" and "p * n < 2 ^ 31"
  shows "\<exists>ip. find_iprim n p 1 = Some ip"
proof -
  obtain t where t: "0 \<le> t" "t < p" "p dvd 1 + t * n"
    using coprime_multiple [OF assms(1,2)] by blast
  have "(t + 1) * n \<le> p * n" using t assms(3) by (intro mult_right_mono) auto
  with assms(3,4) have "1 + t * n < 2 ^ 31" by (simp add: algebra_simps)
  then show ?thesis
    using find_iprim_reaches [of p 1 "nat t" n] t assms(3) by simp
qed

text \<open>The first multiple of \<open>prim\<close> that is reached is at most \<open>prim * nn\<close>.\<close>

lemma find_iprim_bound:
  assumes ip: "find_iprim n p 1 = Some ip" and "0 < p" "0 < n"
  shows "ip div p \<le> n"
proof -
  obtain t where t: "0 \<le> t" "t < p" "p dvd 1 + t * n"
    using coprime_multiple [OF find_iprim_coprime [OF ip] assms(2)] by blast
  then have "ip \<le> 1 + t * n"
    using find_iprim_least [OF ip assms(3), of "nat t"] by simp
  also have "\<dots> \<le> p * n"
  proof -
    have "(t + 1) * n \<le> p * n" using t assms(3) by (intro mult_right_mono) auto
    with assms(3) show ?thesis by (simp add: algebra_simps)
  qed
  finally have "ip div p \<le> p * n div p" using assms(2) by (intro zdiv_mono1) auto
  with assms(2) show ?thesis by simp
qed

end
