(* ===== verification/Rs_Code.thy ===== *)
theory Rs_Code imports Rs_Tables begin

text \<open>
  Correctness of \<open>encode_rs8\<close> and of the first phase of \<open>decode_rs8\<close>. A word, data symbols and
  then parity symbols, is a code word when it vanishes at every root of the generator
  polynomial. The encoder completes any data to a code word, the decoder returns a code word
  unchanged with the count 0, and no two code words of one length are closer than
  \<open>nroots + 1\<close> symbols, so that the decoder notices up to \<open>nroots\<close> changed symbols.
\<close>

section \<open>Control structures as \<open>rs_init\<close> builds them\<close>

definition rs_ok :: "rs_control \<Rightarrow> int \<Rightarrow> bool" where
  "rs_ok rs p \<longleftrightarrow> tables_ok rs p \<and> 0 \<le> fcr rs \<and> 0 < prim rs \<and> coprime (prim rs) (nn rs) \<and>
     0 < nroots rs \<and> nroots rs < nn rs \<and> iprim rs * prim rs mod nn rs = 1 mod nn rs \<and>
     0 < iprim rs \<and> iprim rs \<le> nn rs \<and>
     genpoly rs = map (\<lambda>x. index_of rs ! unat x) (gen rs (nat (nroots rs)))"

lemma rs_okD:
  assumes "rs_ok rs p"
  shows "tables_ok rs p" "sizes_ok rs" "0 \<le> fcr rs" "0 < prim rs" "0 < nroots rs" "nroots rs < nn rs"
    "genpoly rs = map (\<lambda>x. index_of rs ! unat x) (gen rs (nat (nroots rs)))"
  using assms by (auto simp: rs_ok_def tables_ok_def)

lemma root_exp_eq:
  "rs_ok rs p \<Longrightarrow> root_exp rs j = (nat (fcr rs) + j) * nat (prim rs)"
  by (auto simp: rs_ok_def root_exp_def nat_mult_distrib nat_add_distrib)

lemma rs_ok_field: "rs_ok rs p \<Longrightarrow> log_field (nat (nn rs)) (fld_of rs) (gmul rs) (glog rs)"
  by (rule log_field_tables) (rule rs_okD)

lemma coprime_nat: "coprime a b \<Longrightarrow> 0 \<le> a \<Longrightarrow> 0 \<le> b \<Longrightarrow> coprime (nat a) (nat b)" for a b :: int
  by (metis coprime_int_iff nat_0_le)

text \<open>No coefficient of the generator polynomial is zero, so its index form has no \<open>nn\<close>.\<close>

lemma gen_nonzero:
  assumes ok: "rs_ok rs p" and "i \<le> nat (nroots rs)"
  shows "gen rs (nat (nroots rs)) ! i \<noteq> 0"
proof
  let ?n = "nat (nroots rs)"
  let ?g = "gen rs ?n"
  note t = rs_okD(1) [OF ok]
  assume z: "?g ! i = 0"
  have g: "length ?g = ?n + 1" "list_all (fld_of rs) ?g" "?g ! ?n = 1"
    using gen_shape [OF t, of ?n] by auto
  have "?g ! i \<in> set ?g" using g(1) assms(2) by (intro nth_mem) simp
  then have "length (filter (\<lambda>c. c \<noteq> 0) ?g) < length ?g"
    using z by (intro length_filter_less [of "?g ! i"]) auto
  then have sparse: "length (filter (\<lambda>c. c \<noteq> 0) ?g) \<le> ?n" using g(1) by simp
  have "list_all (\<lambda>c. c = 0) ?g"
  proof (rule log_field.sparse_zero [OF rs_ok_field [OF ok] g(2) _ _ sparse])
    show "length ?g \<le> nat (nn rs)" using g(1) rs_okD(5,6) [OF ok] by simp
    show "coprime (nat (prim rs)) (nat (nn rs))"
      using ok by (auto simp: rs_ok_def intro!: coprime_nat)
    show "\<forall>j < ?n. peval (gmul rs ((nat (fcr rs) + j) * nat (prim rs))) ?g = 0"
      using gen_roots [OF t, of _ ?n] root_exp_eq [OF ok] by simp
  qed
  with g(1,3) show False by (auto simp: list_all_length)
qed

section \<open>Symbols\<close>

lemma fld_mask:
  assumes "sizes_ok rs"
  shows "fld_of rs (x AND word_of_int (nn rs))"
proof -
  have "uint (x AND word_of_int (nn rs)) \<le> uint (word_of_int (nn rs) :: u16)"
    by (simp only: uint_and) (rule AND_upper2, simp)
  moreover have "uint (word_of_int (nn rs) :: u16) = nn rs"
    using nn_less [OF assms] nn_pos [OF assms] by (simp add: uint_word_of_int_eq take_bit_int_eq_self)
  ultimately show ?thesis by (simp add: fld_of_def)
qed

lemma mask_id:
  assumes "sizes_ok rs" and "fld_of rs x"
  shows "x AND word_of_int (nn rs) = x"
proof -
  obtain m where m: "m \<le> 16" "nn rs = 2 ^ m - 1" using assms(1) by (rule sizes_okE)
  have "uint (word_of_int (nn rs) :: u16) = nn rs"
    using nn_less [OF assms(1)] nn_pos [OF assms(1)] by (simp add: uint_word_of_int_eq take_bit_int_eq_self)
  then have "uint (x AND word_of_int (nn rs)) = uint x mod 2 ^ m"
    by (simp only: uint_and m(2) and_mask_mod)
  also have "\<dots> = uint x" using assms(2) m(2) by (simp add: fld_of_def)
  finally show ?thesis by (simp only: uint_inject)
qed

lemma fld_symbol: "sizes_ok rs \<Longrightarrow> fld_of rs (symbol rs invmsk d)"
  unfolding symbol_def by (rule fld_mask)

text \<open>What the data stands for in the code, and the words that are code words.\<close>

definition symbols :: "rs_control \<Rightarrow> u16 \<Rightarrow> byte list \<Rightarrow> u16 list" where
  "symbols rs invmsk data = map (symbol rs invmsk) data"

definition codeword :: "rs_control \<Rightarrow> u16 list \<Rightarrow> bool" where
  "codeword rs cs \<longleftrightarrow>
     list_all (fld_of rs) cs \<and>
     list_all (\<lambda>j. horner (gmul rs (root_exp rs j)) cs 0 = 0) [0..<nat (nroots rs)]"

lemma symbols_in: "sizes_ok rs \<Longrightarrow> list_all (fld_of rs) (symbols rs invmsk data)"
  by (simp add: symbols_def list_all_iff fld_symbol)

section \<open>The encoder\<close>

text \<open>One round of the shift register in terms of the field.\<close>

definition register :: "rs_control \<Rightarrow> u16 \<Rightarrow> u16 list \<Rightarrow> u16 list" where
  "register rs d par =
     (let f = d XOR hd par; g = take (nat (nroots rs)) (gen rs (nat (nroots rs))) in
      add_poly (tl par @ [0]) (if f = 0 then map (\<lambda>_. 0) g else map (gmul rs (glog rs f)) (rev g)))"

lemma fb_product:
  assumes t: "tables_ok rs p" and "fld_of rs f" "f \<noteq> 0" and g: "fld_of rs g" "g \<noteq> 0"
  shows "alpha_modnn rs (uint (index_of rs ! unat f) + uint (index_of rs ! unat g)) =
    Some (gmul rs (glog rs f) g)"
  using alpha_lookup_mul [OF t g, of "uint (index_of rs ! unat f)"]
  by (simp add: add.commute index_uint)

lemma encode_step_eq:
  assumes ok: "rs_ok rs p" and len: "length par = nat (nroots rs)" and par: "list_all (fld_of rs) par"
  shows "encode_step rs invmsk d par = Some (register rs (symbol rs invmsk d) par)"
proof -
  note t = rs_okD(1) [OF ok] and s = rs_okD(2) [OF ok]
  define n where "n = nat (nroots rs)"
  define G where "G = gen rs n"
  define f where "f = symbol rs invmsk d XOR par ! 0"
  have n0: "0 < n" and nr: "nroots rs = int n" using rs_okD(5) [OF ok] by (auto simp: n_def)
  have lp: "length par = n" using len by (simp add: n_def)
  have G: "length G = n + 1" "\<And>i. i \<le> n \<Longrightarrow> fld_of rs (G ! i)" "\<And>i. i \<le> n \<Longrightarrow> G ! i \<noteq> 0"
    using gen_shape [OF t, of n] gen_nonzero [OF ok] by (auto simp: G_def n_def list_all_length)
  have gp: "rd (genpoly rs) i = Some (index_of rs ! unat (G ! i))" if "i \<le> n" for i
    using that G(1) rs_okD(7) [OF ok] by (simp add: rd_def G_def n_def)
  have fin: "fld_of rs f"
    using par lp n0 by (auto simp: f_def list_all_length intro!: fld_xor [OF s] fld_symbol [OF s])
  have rd0: "rd par 0 = Some (par ! 0)" "rd (index_of rs) (unat f) = Some (index_of rs ! unat f)"
    using lp n0 by (simp_all add: rd_in index_lookup [OF t fin])
  define v where "v = (if f = 0 then map (\<lambda>_. 0) (take n G) else map (gmul rs (glog rs f)) (rev (take n G)))"
  have lv: "length v = n" using G(1) by (simp add: v_def)
  have vn: "v ! i = gmul rs (glog rs f) (G ! (n - 1 - i))" if "f \<noteq> 0" "i < n" for i
    using that G(1) by (simp add: v_def rev_nth)
  have hd: "hd par = par ! 0" using lp n0 by (cases par) auto
  have reg: "register rs (symbol rs invmsk d) par = add_poly (tl par @ [0]) v"
    unfolding register_def Let_def v_def f_def hd n_def G_def ..
  show ?thesis
  proof (cases "f = 0")
    case True
    then have "uint (index_of rs ! unat f) = nn rs"
      using index_nn_iff [OF t fin] by simp
    moreover have "(take (n - 1) (drop 1 par) @ drop (n - 1) par)[n - 1 := 0] = add_poly (tl par @ [0]) v"
    proof (rule nth_equalityI)
      fix i assume "i < length ((take (n - 1) (drop 1 par) @ drop (n - 1) par)[n - 1 := 0])"
      then have "i < n" using lp n0 by simp
      then show "(take (n - 1) (drop 1 par) @ drop (n - 1) par)[n - 1 := 0] ! i = add_poly (tl par @ [0]) v ! i"
        using lp n0 lv True G(1) by (auto simp: nth_list_update nth_append v_def nth_tl)
    qed (use lp n0 lv in auto)
    ultimately show ?thesis
      using lp n0 unfolding encode_step_def reg
      by (simp add: rd0 f_def [symmetric] nr copy_into_def wrz_def wr_def nat_diff_distrib)
  next
    case False
    let ?body = "\<lambda>j par. do {
            pj \<leftarrow> rd par j;
            g \<leftarrow> rd (genpoly rs) (n - j);
            a \<leftarrow> alpha_modnn rs (uint (index_of rs ! unat f) + uint g);
            wr par j (pj XOR a) }"
    let ?P = "\<lambda>k q. length q = n \<and> (\<forall>i < n. q ! i = (if 1 \<le> i \<and> i < k then par ! i XOR v ! (i - 1) else par ! i))"
    have "\<exists>q. for_in [1..<n] ?body par = Some q \<and> ?P n q"
    proof (rule for_in_upt [where P = ?P])
      fix j q
      assume j: "1 \<le> j" "j < n" and P: "?P j q"
      have "alpha_modnn rs (uint (index_of rs ! unat f) + uint (index_of rs ! unat (G ! (n - j)))) = Some (v ! (j - 1))"
        using fb_product [OF t fin False G(2) G(3), of "n - j"] vn [OF False, of "j - 1"] j by simp
      then have "?body j q = Some (q[j := par ! j XOR v ! (j - 1)])"
        using P j gp [of "n - j"] by (simp add: rd_in wr_in)
      moreover have "?P (Suc j) (q[j := par ! j XOR v ! (j - 1)])"
        using P j by (auto simp: nth_list_update less_Suc_eq)
      ultimately show "\<exists>q'. ?body j q = Some q' \<and> ?P (Suc j) q'" by blast
    qed (use n0 lp in auto)
    then obtain q where q: "for_in [1..<n] ?body par = Some q" "length q = n"
      "\<And>i. i < n \<Longrightarrow> q ! i = (if 1 \<le> i \<and> i < n then par ! i XOR v ! (i - 1) else par ! i)"
      by blast
    have ne: "uint (index_of rs ! unat f) \<noteq> nn rs"
      using index_nn_iff [OF t fin] False by simp
    have last: "alpha_modnn rs (uint (index_of rs ! unat f) + uint (index_of rs ! unat (G ! 0))) = Some (v ! (n - 1))"
      using fb_product [OF t fin False G(2) G(3), of 0] vn [OF False, of "n - 1"] n0 by simp
    have "(take (n - 1) (drop 1 q) @ drop (n - 1) q)[n - 1 := v ! (n - 1)] = add_poly (tl par @ [0]) v"
    proof (rule nth_equalityI)
      fix i assume "i < length ((take (n - 1) (drop 1 q) @ drop (n - 1) q)[n - 1 := v ! (n - 1)])"
      then have "i < n" using q(2) n0 by simp
      then show "(take (n - 1) (drop 1 q) @ drop (n - 1) q)[n - 1 := v ! (n - 1)] ! i = add_poly (tl par @ [0]) v ! i"
      proof (cases "i = n - 1")
        case True
        then show ?thesis using q(2) lp n0 lv by (simp add: nth_append)
      next
        case False
        then have "Suc i < n" "i < n - 1" using \<open>i < n\<close> by simp_all
        then show ?thesis using q(2) q(3) [of "Suc i"] lp lv by (simp add: nth_append nth_tl)
      qed
    qed (use q(2) lp n0 lv in auto)
    then show ?thesis
      using q(1,2) n0 ne last gp [of 0] unfolding encode_step_def reg
      by (simp add: rd0 f_def [symmetric] nr copy_into_def wrz_def wr_def nat_diff_distrib)
  qed
qed

lemma register_in:
  assumes ok: "rs_ok rs p" and "length par = nat (nroots rs)" and "list_all (fld_of rs) par" and "fld_of rs d"
  shows "length (register rs d par) = nat (nroots rs) \<and> list_all (fld_of rs) (register rs d par)"
proof -
  note F = rs_ok_field [OF ok]
  let ?g = "take (nat (nroots rs)) (gen rs (nat (nroots rs)))"
  obtain q qs where par: "par = q # qs" using assms(2) rs_okD(5) [OF ok] by (cases par) auto
  have g: "length ?g = nat (nroots rs)" "list_all (fld_of rs) ?g"
    using gen_shape [OF rs_okD(1) [OF ok], of "nat (nroots rs)"] by (auto simp: list_all_iff dest: in_set_takeD)
  have add: "list_all (fld_of rs) (add_poly xs ys)" if "list_all (fld_of rs) xs" "list_all (fld_of rs) ys" for xs ys
    using that by (auto simp: list_all_length intro: log_field.xor_in [OF F])
  let ?u = "tl par @ [0]"
  let ?v = "if d XOR hd par = 0 then map (\<lambda>_. 0) ?g else map (gmul rs (glog rs (d XOR hd par))) (rev ?g)"
  have "list_all (fld_of rs) ?u" "list_all (fld_of rs) ?v"
    using assms(3) par g(2) by (auto simp: list_all_iff log_field.zero_in [OF F] log_field.mul_in [OF F])
  from add [OF this] show ?thesis
    unfolding register_def Let_def using assms(2) par g(1) by simp
qed

text \<open>The register keeps the word so far a code word.\<close>

lemma register_codeword:
  assumes ok: "rs_ok rs p" and len: "length par = nat (nroots rs)" and cw: "codeword rs (D @ par)" and d: "fld_of rs d"
  shows "codeword rs (D @ [d] @ register rs d par)"
proof -
  note t = rs_okD(1) [OF ok] and F = rs_ok_field [OF ok]
  let ?n = "nat (nroots rs)"
  let ?g = "take ?n (gen rs ?n)"
  have fld: "list_all (fld_of rs) D" "list_all (fld_of rs) par" using cw by (auto simp: codeword_def)
  obtain q qs where par: "par = q # qs" using len rs_okD(5) [OF ok] by (cases par) auto
  have g: "length (gen rs ?n) = ?n + 1" "list_all (fld_of rs) (gen rs ?n)" "gen rs ?n ! ?n = 1"
    using gen_shape [OF t, of ?n] by auto
  then have split: "gen rs ?n = ?g @ [1]"
    by (metis append_take_drop_id Cons_nth_drop_Suc drop_all le_refl lessI Suc_eq_plus1)
  have g': "list_all (fld_of rs) ?g" "length par = length ?g"
    using g(1,2) len by (auto simp: list_all_iff dest: in_set_takeD)
  have "horner (gmul rs (root_exp rs j)) (D @ [d] @ register rs d par) 0 = 0" if j: "j < ?n" for j
  proof -
    let ?k = "root_exp rs j"
    let ?s = "horner (gmul rs ?k) D 0"
    have "horner (gmul rs ?k) (q # qs) ?s = 0"
      using cw j by (simp add: codeword_def list_all_iff par horner_append)
    moreover have "peval (gmul rs ?k) (?g @ [1]) = 0"
      using gen_roots [OF t j] split by simp
    moreover have "fld_of rs ?s"
      using log_field.horner_in [OF F fld(1)] log_field.zero_in [OF F] by blast
    ultimately have "horner (gmul rs ?k) (add_poly (qs @ [0])
        (if d XOR q = 0 then map (\<lambda>_. 0) ?g else map (gmul rs (glog rs (d XOR q))) (rev ?g)))
        (d XOR gmul rs ?k ?s) = 0"
      using log_field.register_step [OF F g'(1), of ?k q qs d ?s "d XOR q"] g'(2) fld(2) d par by simp
    then show ?thesis
      by (simp add: horner_append register_def Let_def par)
  qed
  then show ?thesis
    using register_in [OF ok len fld(2) d] fld d by (auto simp: codeword_def list_all_iff)
qed

lemma horner_zeros: "(\<And>k. b 0 = 0) \<Longrightarrow> horner b (replicate n 0) 0 = 0"
  by (induction n) auto

lemma encode_rs8_codeword:
  assumes ok: "rs_ok rs p" and len: "0 \<le> len" "nat len \<le> length data" "nroots rs + len \<le> nn rs"
  shows "\<exists>par. encode_rs8 rs data len (replicate (nat (nroots rs)) 0) invmsk = Some (0, par) \<and>
    length par = nat (nroots rs) \<and> codeword rs (symbols rs invmsk (take (nat len) data) @ par)"
proof -
  note s = rs_okD(2) [OF ok] and F = rs_ok_field [OF ok]
  let ?n = "nat (nroots rs)"
  let ?P = "\<lambda>i par. length par = ?n \<and> codeword rs (symbols rs invmsk (take i data) @ par)"
  have "\<exists>par. for_in [0..<nat len] (\<lambda>i par. do { d \<leftarrow> rd data i; encode_step rs invmsk d par })
      (replicate ?n 0) = Some par \<and> ?P (nat len) par"
  proof (rule for_in_upt [where P = ?P])
    show "?P 0 (replicate ?n 0)"
      using log_field.zero_in [OF F] by (simp add: codeword_def symbols_def list_all_iff horner_zeros)
  next
    fix i par
    assume i: "i < nat len" and P: "?P i par"
    have par: "list_all (fld_of rs) par" using P by (simp add: codeword_def)
    let ?d = "symbol rs invmsk (data ! i)"
    have "codeword rs (symbols rs invmsk (take (Suc i) data) @ register rs ?d par)"
      using register_codeword [OF ok, of par "symbols rs invmsk (take i data)" ?d] P i len(2)
      by (simp add: fld_symbol [OF s] symbols_def take_Suc_conv_app_nth)
    moreover have "length (register rs ?d par) = ?n"
      using register_in [OF ok _ par] P fld_symbol [OF s] by simp
    ultimately show "\<exists>par'. do { d \<leftarrow> rd data i; encode_step rs invmsk d par } = Some par' \<and> ?P (Suc i) par'"
      using i len(2) P by (simp add: rd_in encode_step_eq [OF ok _ par])
  qed simp
  then show ?thesis
    using len rs_okD(5) [OF ok] by (auto simp: encode_rs8_def Let_def)
qed

text \<open>A length that does not fit is refused and the parity is left alone.\<close>

lemma encode_rs8_refuses:
  "nn rs < nroots rs + len \<Longrightarrow> encode_rs8 rs data len par invmsk = Some (- 1, par)"
  by (simp add: encode_rs8_def Let_def)

section \<open>The distance of code words\<close>

definition hamming :: "u16 list \<Rightarrow> u16 list \<Rightarrow> nat" where
  "hamming xs ys = length (filter (\<lambda>c. c \<noteq> 0) (add_poly xs ys))"

lemma codeword_add:
  assumes ok: "rs_ok rs p" and len: "length xs = length ys" and "codeword rs xs" "codeword rs ys"
  shows "codeword rs (add_poly xs ys)"
proof -
  note F = rs_ok_field [OF ok]
  have "horner b (add_poly xs ys) 0 = horner b xs 0 XOR horner b ys 0" if "b = gmul rs k" for b k
    using log_field.horner_add [OF F len, of 0 0 k] assms(3,4) that log_field.zero_in [OF F]
    by (simp add: codeword_def)
  with assms show ?thesis
    by (auto simp: codeword_def list_all_length intro: log_field.xor_in [OF F])
qed

lemma codeword_sparse:
  assumes ok: "rs_ok rs p" and cw: "codeword rs cs" and len: "length cs \<le> nat (nn rs)"
    and sparse: "length (filter (\<lambda>c. c \<noteq> 0) cs) \<le> nat (nroots rs)"
  shows "list_all (\<lambda>c. c = 0) cs"
proof -
  have "list_all (\<lambda>c. c = 0) (rev cs)"
  proof (rule log_field.sparse_zero [OF rs_ok_field [OF ok], where p = "nat (prim rs)"
        and t = "nat (nroots rs)" and f = "nat (fcr rs)"])
    show "list_all (fld_of rs) (rev cs)" using cw by (simp add: codeword_def)
    show "coprime (nat (prim rs)) (nat (nn rs))"
      using ok by (auto simp: rs_ok_def intro!: coprime_nat)
    show "\<forall>j < nat (nroots rs). peval (gmul rs ((nat (fcr rs) + j) * nat (prim rs))) (rev cs) = 0"
      using cw unfolding root_exp_eq [OF ok, symmetric] horner_rev [symmetric]
      by (simp add: codeword_def list_all_iff)
    show "length (filter (\<lambda>c. c \<noteq> 0) (rev cs)) \<le> nat (nroots rs)"
      using sparse by (simp add: rev_filter [symmetric])
  qed (use len in simp)
  then show ?thesis by simp
qed

lemma codeword_distance:
  assumes ok: "rs_ok rs p" and "codeword rs xs" "codeword rs ys" and len: "length xs = length ys"
    and "length xs \<le> nat (nn rs)" and near: "hamming xs ys \<le> nat (nroots rs)"
  shows "xs = ys"
proof -
  have "list_all (\<lambda>c. c = 0) (add_poly xs ys)"
    by (rule codeword_sparse [OF ok]) (use assms codeword_add [OF ok len] in \<open>auto simp: hamming_def\<close>)
  with len show ?thesis
    by (intro nth_equalityI) (auto simp: list_all_length xor_eq_0_iff)
qed

section \<open>The syndromes\<close>

definition syndrome :: "rs_control \<Rightarrow> u16 list \<Rightarrow> nat \<Rightarrow> u16" where
  "syndrome rs cs i = horner (gmul rs (root_exp rs i)) cs 0"

lemma syndrome_in:
  "rs_ok rs p \<Longrightarrow> list_all (fld_of rs) cs \<Longrightarrow> fld_of rs (syndrome rs cs i)"
  unfolding syndrome_def
  by (rule log_field.horner_in [OF rs_ok_field]) (auto intro: log_field.zero_in [OF rs_ok_field])

lemma codeword_syndrome:
  "codeword rs cs \<longleftrightarrow> list_all (fld_of rs) cs \<and> (\<forall>i < nat (nroots rs). syndrome rs cs i = 0)"
  by (auto simp: codeword_def syndrome_def list_all_iff)

lemma horner_step_eq:
  assumes ok: "rs_ok rs p" and "fld_of rs sy"
  shows "horner_step rs i c sy = Some (c XOR gmul rs (root_exp rs i) sy)"
proof (cases "sy = 0")
  case False
  have "0 \<le> (fcr rs + int i) * prim rs" using rs_okD(3,4) [OF ok] by simp
  with False assms(2) show ?thesis
    by (simp add: horner_step_def index_lookup [OF rs_okD(1) [OF ok]] root_exp_def
        alpha_lookup_mul [OF rs_okD(1) [OF ok]])
qed (simp add: horner_step_def)

lemma syndrome_round_eq:
  assumes ok: "rs_ok rs p" and "list_all (fld_of rs) cs" "n = nat (nroots rs)"
  shows "syndrome_round rs c (map (syndrome rs cs) [0..<n]) = Some (map (syndrome rs (cs @ [c])) [0..<n])"
  unfolding syndrome_round_def assms(3) [symmetric]
  by (rule map_in_place)
    (use assms syndrome_in [OF ok] in \<open>auto simp: horner_step_eq [OF ok] syndrome_def horner_append\<close>)

text \<open>A received word: the masked data and parity symbols.\<close>

definition received :: "rs_control \<Rightarrow> u16 \<Rightarrow> byte list \<Rightarrow> u16 list \<Rightarrow> u16 list" where
  "received rs invmsk data par =
     symbols rs invmsk data @ map (\<lambda>q. q AND word_of_int (nn rs)) par"

lemma received_in: "sizes_ok rs \<Longrightarrow> list_all (fld_of rs) (received rs invmsk data par)"
  using symbols_in [of rs invmsk data] by (auto simp: received_def list_all_iff fld_mask)

lemma form_syndromes_eq:
  assumes ok: "rs_ok rs p" and len: "1 \<le> len" "nat len \<le> length data" and par: "nat (nroots rs) \<le> length par"
    and syn: "length syn = nat (nroots rs)"
  shows "form_syndromes rs data par len invmsk syn =
    Some (map (syndrome rs (received rs invmsk (take (nat len) data) (take (nat (nroots rs)) par))) [0..<nat (nroots rs)])"
proof -
  note s = rs_okD(2) [OF ok]
  let ?n = "nat (nroots rs)"
  let ?D = "\<lambda>j. symbols rs invmsk (take j data)"
  let ?S = "\<lambda>cs. map (syndrome rs cs) [0..<?n]"
  have D1: "?D 1 = [symbol rs invmsk (data ! 0)]"
    using len by (cases data) (auto simp: symbols_def)
  have 1: "for_in [0..<?n] (\<lambda>i syn. do { d \<leftarrow> rd data 0; wr syn i (symbol rs invmsk d) }) syn = Some (?S (?D 1))"
  proof -
    have "for_in [0..<?n] (\<lambda>i syn. do { v \<leftarrow> Some (symbol rs invmsk (data ! 0)); wr syn (0 + i) v }) syn =
        Some (take 0 syn @ map (\<lambda>_. symbol rs invmsk (data ! 0)) [0..<?n] @ drop (0 + ?n) syn)"
      by (rule store_row) (use syn in auto)
    moreover have "rd data 0 = Some (data ! 0)" using len by (auto simp: rd_def)
    ultimately show ?thesis
      unfolding D1 using syn by (simp add: syndrome_def)
  qed
  have "\<exists>syn. for_in [1..<nat len] (\<lambda>j syn.
        if nroots rs > 0 then do { d \<leftarrow> rd data j; syndrome_round rs (symbol rs invmsk d) syn } else Some syn)
      (?S (?D 1)) = Some syn \<and> syn = ?S (?D (nat len))"
  proof (rule for_in_upt [where P = "\<lambda>j syn. syn = ?S (?D j)"])
    fix j and syn :: "u16 list"
    assume j: "j < nat len" and "syn = ?S (?D j)"
    moreover have "?D (Suc j) = ?D j @ [symbol rs invmsk (data ! j)]"
      using j len(2) by (simp add: symbols_def take_Suc_conv_app_nth)
    ultimately show "\<exists>syn'. (if nroots rs > 0 then do { d \<leftarrow> rd data j; syndrome_round rs (symbol rs invmsk d) syn }
        else Some syn) = Some syn' \<and> syn' = ?S (?D (Suc j))"
      using len(2) rs_okD(5) [OF ok] by (simp add: rd_in syndrome_round_eq [OF ok symbols_in [OF s]])
  qed (use len in auto)
  moreover
  let ?R = "\<lambda>j. received rs invmsk (take (nat len) data) (take j par)"
  have "\<exists>syn. for_in [0..<?n] (\<lambda>j syn. do { q \<leftarrow> rd par j; syndrome_round rs (q AND word_of_int (nn rs)) syn })
      (?S (?D (nat len))) = Some syn \<and> syn = ?S (?R ?n)"
  proof (rule for_in_upt [where P = "\<lambda>j syn. syn = ?S (?R j)"])
    fix j and syn :: "u16 list"
    assume j: "j < ?n" and "syn = ?S (?R j)"
    moreover have "?R (Suc j) = ?R j @ [par ! j AND word_of_int (nn rs)]"
      using j par by (simp add: received_def take_Suc_conv_app_nth)
    ultimately show "\<exists>syn'. do { q \<leftarrow> rd par j; syndrome_round rs (q AND word_of_int (nn rs)) syn } = Some syn' \<and>
        syn' = ?S (?R (Suc j))"
      using par by (simp add: rd_in syndrome_round_eq [OF ok received_in [OF s]])
  qed (auto simp: received_def)
  ultimately show ?thesis
    using 1 by (auto simp: form_syndromes_def)
qed

lemma index_syndromes_eq:
  assumes ok: "rs_ok rs p" and S: "length S = nat (nroots rs)" "list_all (fld_of rs) S"
  shows "\<exists>err. index_syndromes rs S = Some (err, map (\<lambda>v. index_of rs ! unat v) S) \<and>
    (err = 0 \<longleftrightarrow> list_all (\<lambda>v. v = 0) S)"
proof -
  let ?h = "\<lambda>v. index_of rs ! unat v"
  let ?P = "\<lambda>i (err, T). (err = 0 \<longleftrightarrow> list_all (\<lambda>v. v = 0) (take i S)) \<and> T = map ?h (take i S) @ drop i S"
  have or0: "a OR b = 0 \<longleftrightarrow> a = 0 \<and> b = 0" for a b :: u16
    by (auto simp: bit_eq_iff bit_or_iff)
  have "\<exists>r. index_syndromes rs S = Some r \<and> ?P (nat (nroots rs)) r"
    unfolding index_syndromes_def
  proof (rule for_in_upt [where P = ?P])
    fix i and r :: "u16 \<times> u16 list"
    assume i: "i < nat (nroots rs)" and P: "?P i r"
    obtain err T where r: "r = (err, T)" by (cases r)
    have T: "rd T i = Some (S ! i)" "T[i := ?h (S ! i)] = map ?h (take (Suc i) S) @ drop (Suc i) S" "i < length T"
      using P r i S(1)
      by (auto simp: rd_def nth_append list_update_append take_Suc_conv_app_nth simp flip: Cons_nth_drop_Suc)
    have "fld_of rs (S ! i)" using S i by (simp add: list_all_length)
    with T r P i S(1) show "\<exists>r'. (case r of (err, S) \<Rightarrow> do { v \<leftarrow> rd S i; k \<leftarrow> rd (index_of rs) (unat v); S \<leftarrow> wr S i k;
        Some (err OR v, S) }) = Some r' \<and> ?P (Suc i) r'"
      by (simp add: index_lookup [OF rs_okD(1) [OF ok]] wr_in or0 take_Suc_conv_app_nth)
  qed auto
  with S(1) show ?thesis by auto
qed

section \<open>Decoding a code word\<close>

lemma decode_rs8_eq:
  assumes ok: "rs_ok rs p" and len: "1 \<le> len" "nat len \<le> length data" "nroots rs + len \<le> nn rs"
    and par: "nat (nroots rs) \<le> length par"
  shows "decode_rs8 junk rs (Some data) par len None no_eras eras_pos invmsk corr =
    (let R = received rs invmsk (take (nat len) data) (take (nat (nroots rs)) par);
         pad = nn rs - nroots rs - len;
         res = \<lparr>d_count = 0, d_data = Some data, d_synd = None, d_eras = eras_pos, d_corr = corr\<rparr> in
     if codeword rs R then Some res
     else decode_from_syndromes junk rs pad
       (map (\<lambda>i. index_of rs ! unat (syndrome rs R i)) [0..<nat (nroots rs)]) no_eras res)"
proof -
  note s = rs_okD(2) [OF ok]
  let ?n = "nat (nroots rs)"
  define R where "R = received rs invmsk (take (nat len) data) (take ?n par)"
  have R: "list_all (fld_of rs) R" unfolding R_def by (rule received_in [OF s])
  have form: "form_syndromes rs data par len invmsk (map (junk 6) [0..<?n]) = Some (map (syndrome rs R) [0..<?n])"
    using form_syndromes_eq [OF ok len(1,2) par] by (simp add: R_def)
  obtain err where err: "index_syndromes rs (map (syndrome rs R) [0..<?n]) =
      Some (err, map (\<lambda>v. index_of rs ! unat v) (map (syndrome rs R) [0..<?n]))"
    "err = 0 \<longleftrightarrow> list_all (\<lambda>v. v = 0) (map (syndrome rs R) [0..<?n])"
    using index_syndromes_eq [OF ok, of "map (syndrome rs R) [0..<?n]"] syndrome_in [OF ok R]
    by (auto simp: list_all_iff)
  have "err = 0 \<longleftrightarrow> codeword rs R"
    using err(2) R by (auto simp: codeword_syndrome list_all_iff)
  with form err(1) len rs_okD(5) [OF ok] show ?thesis
    by (cases eras_pos) (auto simp: decode_rs8_def Let_def R_def [symmetric] finish_decode_def comp_def)
qed

end
