(* ===== verification/Rs_Decode.thy ===== *)
theory Rs_Decode imports Rs_Code begin

text \<open>
  The error path of \<open>decode_rs8\<close>, from the label \<open>decode\<close> on: whatever the received word, the
  decoder comes to an end, stays inside its arrays and returns -74 or a number of corrected
  symbols that is at most \<open>nroots\<close>.

  A table entry, a symbol and a value in index form are all at most \<open>nn\<close>: \<open>arr rs k xs\<close> says
  that an array has \<open>k\<close> such elements, and every phase is shown to keep it.
\<close>

section \<open>Lookups that always succeed\<close>

definition arr :: "rs_control \<Rightarrow> nat \<Rightarrow> u16 list \<Rightarrow> bool" where
  "arr rs k xs \<longleftrightarrow> length xs = k \<and> list_all (fld_of rs) xs"

lemma arr_nth: "arr rs k xs \<Longrightarrow> i < k \<Longrightarrow> fld_of rs (xs ! i)"
  by (simp add: arr_def list_all_length)

lemma arr_length: "arr rs k xs \<Longrightarrow> length xs = k"
  by (simp add: arr_def)

lemma arr_update: "arr rs k xs \<Longrightarrow> fld_of rs v \<Longrightarrow> arr rs k (xs[i := v])"
  by (auto simp: arr_def list_all_iff dest!: subsetD [OF set_update_subset_insert])

lemma arr_rd: "arr rs k xs \<Longrightarrow> i < k \<Longrightarrow> rd xs i = Some (xs ! i)"
  by (simp add: arr_def rd_def)

lemma arr_wr: "arr rs k xs \<Longrightarrow> i < k \<Longrightarrow> wr xs i v = Some (xs[i := v])"
  by (simp add: arr_def wr_def)

lemmas arr_simps = arr_rd arr_wr

lemma fld_0: "sizes_ok rs \<Longrightarrow> fld_of rs 0"
  using nn_pos [of rs] by (simp add: fld_of_def)

lemma fld_1: "sizes_ok rs \<Longrightarrow> fld_of rs 1"
  using nn_pos [of rs] by (simp add: fld_of_def)

lemma uint_small: "sizes_ok rs \<Longrightarrow> 0 \<le> k \<Longrightarrow> k \<le> nn rs \<Longrightarrow> uint (word_of_int k :: u16) = k"
  using nn_less [of rs] by (simp add: uint_word_of_int_eq take_bit_int_eq_self)

lemma fld_small: "sizes_ok rs \<Longrightarrow> 0 \<le> k \<Longrightarrow> k \<le> nn rs \<Longrightarrow> fld_of rs (word_of_int k)"
  by (simp add: fld_of_def uint_small)

lemma index_in:
  assumes t: "tables_ok rs p" and x: "fld_of rs x"
  shows "fld_of rs (index_of rs ! unat x)"
proof (cases "x = 0")
  case True
  then show ?thesis using index_nn_iff [OF t x] by (simp add: fld_of_def)
next
  case False
  then show ?thesis using glog_less [OF t x] by (simp add: fld_of_def index_uint)
qed

lemma alpha_returns:
  assumes t: "tables_ok rs p" and "0 \<le> e"
  shows "\<exists>a. alpha_modnn rs e = Some a \<and> fld_of rs a"
  using alpha_lookup [OF t assms(2)] alpha_elem [OF t, of "nat e mod nat (nn rs)"] nat_nn_pos [OF t]
  by auto

lemma alpha_bind:
  assumes t: "tables_ok rs p" and "0 \<le> e" and "\<And>a. fld_of rs a \<Longrightarrow> returns (f a) Q"
  shows "returns (alpha_modnn rs e \<bind> f) Q"
  using alpha_returns [OF t assms(2)] assms(3) by auto

lemma modnn_bind:
  assumes s: "sizes_ok rs" and "0 \<le> e" and "\<And>k. 0 \<le> k \<Longrightarrow> k < nn rs \<Longrightarrow> returns (f k) Q"
  shows "returns (rs_modnn rs e \<bind> f) Q"
  using rs_modnn_mod [OF s assms(2)] assms(3) [of "e mod nn rs"] nn_pos [OF s] by simp

lemma alpha_direct:
  assumes t: "tables_ok rs p" and "fld_of rs k"
  shows "\<exists>a. rd (alpha_to rs) (unat k) = Some a \<and> fld_of rs a"
proof (cases "uint k = nn rs")
  case True
  then have "unat k = nat (nn rs)" by (metis unat_eq_nat_uint)
  then show ?thesis
    using t fld_0 [OF tables_ok_sizes [OF t]] by (simp add: rd_def tables_ok_def)
next
  case False
  with assms(2) have "uint k < nn rs" by (simp add: fld_of_def)
  then have "nat (uint k) < nat (nn rs)" by (rule nat_less_eq_zless [OF uint_ge_0, THEN iffD2])
  then have "unat k < nat (nn rs)" by simp
  then show ?thesis
    using alpha_elem [OF t, of "unat k"] t by (simp add: rd_def tables_ok_def)
qed

section \<open>The Berlekamp-Massey loop\<close>


lemma init_lambda_0: "init_lambda rs 0 e = Some (1 # replicate (nat (nroots rs)) 0)"
  by (simp add: init_lambda_def)

lemma index_form_returns:
  assumes t: "tables_ok rs p" and l: "arr rs (nat (nroots rs) + 1) lambda" and b: "length b = nat (nroots rs) + 1"
  shows "returns (index_form rs lambda b) (arr rs (nat (nroots rs) + 1))"
proof -
  let ?n = "nat (nroots rs)"
  have "index_form rs lambda b = for_in [0..<?n + 1]
      (\<lambda>i b. do { v \<leftarrow> do { l \<leftarrow> rd lambda i; rd (index_of rs) (unat l) }; wr b (0 + i) v }) b"
    by (simp add: index_form_def Option.bind_assoc)
  also have "\<dots> = Some (take 0 b @ map (\<lambda>i. index_of rs ! unat (lambda ! i)) [0..<?n + 1] @ drop (0 + (?n + 1)) b)"
    by (rule store_row) (use b l in \<open>auto simp: arr_rd index_lookup [OF t arr_nth]\<close>)
  finally show ?thesis
    using b arr_nth [OF l] index_in [OF t] by (auto simp: arr_def list_all_length nth_append)
qed

lemma discrepancy_returns:
  assumes t: "tables_ok rs p" and l: "arr rs (nat (nroots rs) + 1) lambda" and S: "arr rs (nat (nroots rs)) S"
    and r: "1 \<le> r" "r \<le> nroots rs"
  shows "returns (discrepancy rs S lambda r) (fld_of rs)"
  unfolding discrepancy_def
proof (rule returns_for_inv)
  note s = tables_ok_sizes [OF t]
  show "fld_of rs 0" by (rule fld_0 [OF s])
  fix i d
  assume "i \<in> set [0..<nat r]" and d: "fld_of rs d"
  then have i: "i < nat (nroots rs) + 1" "0 \<le> r - int i - 1" "nat (r - int i - 1) < nat (nroots rs)"
    using r by auto
  have S': "rdz S (r - int i - 1) = Some (S ! nat (r - int i - 1))"
    using i S by (simp add: rdz_def rd_def arr_def)
  show "returns (do {
        l \<leftarrow> rd lambda i;
        if l = 0 then Some d
        else do {
          si \<leftarrow> rdz S (r - int i - 1);
          if uint si \<noteq> nn rs then do {
            k \<leftarrow> rd (index_of rs) (unat l);
            a \<leftarrow> alpha_modnn rs (uint k + uint si);
            Some (d XOR a) }
          else Some d } }) (fld_of rs)"
    using i d S' by (auto simp: arr_rd [OF l] index_lookup [OF t arr_nth [OF l]]
        intro!: alpha_bind [OF t] fld_xor [OF s])
qed

lemma shift_b_returns:
  assumes s: "sizes_ok rs" and n: "0 \<le> nroots rs" and b: "arr rs (nat (nroots rs) + 1) b"
  shows "returns (shift_b rs b) (arr rs (nat (nroots rs) + 1))"
proof -
  let ?n = "nat (nroots rs)"
  have "copy_into b 1 b 0 (nroots rs) = Some (take 1 b @ take ?n b @ drop (1 + ?n) b)"
    using b n by (simp add: copy_into_def arr_def)
  moreover have "arr rs (?n + 1) (take 1 b @ take ?n b @ drop (1 + ?n) b)"
    using b by (auto simp: arr_def list_all_iff dest: in_set_takeD in_set_dropD)
  ultimately show ?thesis
    using fld_small [OF s, of "nn rs"] nn_pos [OF s]
    by (simp add: shift_b_def arr_wr arr_update)
qed

lemma next_lambda_returns:
  assumes t: "tables_ok rs p" and l: "arr rs (nat (nroots rs) + 1) lambda" and b: "arr rs (nat (nroots rs) + 1) b"
    and len: "length T = nat (nroots rs) + 1"
  shows "returns (next_lambda rs discr lambda b T) (arr rs (nat (nroots rs) + 1))"
proof -
  note s = tables_ok_sizes [OF t]
  let ?n = "nat (nroots rs)"
  let ?body = "\<lambda>i t. do {
        bi \<leftarrow> rd b i;
        l \<leftarrow> rd lambda (i + 1);
        if uint bi \<noteq> nn rs then do {
          a \<leftarrow> alpha_modnn rs (uint discr + uint bi);
          wr t (i + 1) (l XOR a) }
        else wr t (i + 1) l }"
  let ?P = "\<lambda>i t. length t = ?n + 1 \<and> (\<forall>j \<le> i. fld_of rs (t ! j))"
  have "returns (for_in [0..<?n] ?body (T[0 := lambda ! 0])) (?P ?n)"
  proof (rule returns_for_upt [where P = ?P])
    fix i t'
    assume i: "i < ?n" and P: "?P i t'"
    have upd: "?P (Suc i) (t'[i + 1 := v])" if "fld_of rs v" for v
      using P i that by (auto simp: nth_list_update le_Suc_eq)
    have li: "fld_of rs (lambda ! (i + 1))" "rd lambda (i + 1) = Some (lambda ! (i + 1))" "rd b i = Some (b ! i)"
      "wr t' (i + 1) v = Some (t'[i + 1 := v])" for v
      using i P arr_nth [OF l] arr_rd [OF l] arr_rd [OF b] by (auto simp: wr_def)
    show "returns (?body i t') (?P (Suc i))"
      unfolding li Option.bind.bind_lunit
    proof (split if_split, intro conjI impI)
      show "returns (do { a \<leftarrow> alpha_modnn rs (uint discr + uint (b ! i)); Some (t'[i + 1 := lambda ! (i + 1) XOR a]) })
          (?P (Suc i))"
        by (rule alpha_bind [OF t]) (use upd fld_xor [OF s li(1)] in auto)
      show "returns (Some (t'[i + 1 := lambda ! (i + 1)])) (?P (Suc i))"
        using upd [OF li(1)] by simp
    qed
  qed (use len arr_nth [OF l, of 0] in auto)
  then show ?thesis
    using len unfolding next_lambda_def
    by (auto simp: arr_rd [OF l] wr_def returns_def arr_def list_all_length)
qed

lemma divide_lambda_returns:
  assumes t: "tables_ok rs p" and l: "arr rs (nat (nroots rs) + 1) lambda" and b: "arr rs (nat (nroots rs) + 1) b"
    and d: "fld_of rs discr"
  shows "returns (divide_lambda rs discr lambda b) (arr rs (nat (nroots rs) + 1))"
  unfolding divide_lambda_def
proof (rule returns_for_inv)
  note s = tables_ok_sizes [OF t]
  fix i b'
  assume "i \<in> set [0..<nat (nroots rs) + 1]" and b': "arr rs (nat (nroots rs) + 1) b'"
  then have i: "i < nat (nroots rs) + 1" by auto
  have e: "0 \<le> uint k - uint discr + nn rs" for k :: u16
    using d uint_ge_0 [of k] unfolding fld_of_def by linarith
  show "returns (do {
        l \<leftarrow> rd lambda i;
        if l = 0 then wr b' i (word_of_int (nn rs))
        else do {
          k \<leftarrow> rd (index_of rs) (unat l);
          v \<leftarrow> rs_modnn rs (uint k - uint discr + nn rs);
          wr b' i (word_of_int v) } }) (arr rs (nat (nroots rs) + 1))"
    unfolding arr_rd [OF l i] arr_wr [OF b' i] index_lookup [OF t arr_nth [OF l i]] Option.bind.bind_lunit
  proof (split if_split, intro conjI impI)
    show "returns (Some (b'[i := word_of_int (nn rs)])) (arr rs (nat (nroots rs) + 1))"
      using nn_pos [OF s] arr_update [OF b' fld_small [OF s, of "nn rs"]] by simp
    show "returns (do { v \<leftarrow> rs_modnn rs (uint (index_of rs ! unat (lambda ! i)) - uint discr + nn rs);
        Some (b'[i := word_of_int v]) }) (arr rs (nat (nroots rs) + 1))"
      by (rule modnn_bind [OF s e]) (use arr_update [OF b' fld_small [OF s]] in simp)
  qed
qed (rule b)

definition bm_state_ok :: "rs_control \<Rightarrow> u16 list \<times> u16 list \<times> u16 list \<times> int \<Rightarrow> bool" where
  "bm_state_ok rs = (\<lambda>(lambda, b, T, el).
     arr rs (nat (nroots rs) + 1) lambda \<and> arr rs (nat (nroots rs) + 1) b \<and> length T = nat (nroots rs) + 1)"

lemma bm_round_returns:
  assumes t: "tables_ok rs p" and n: "0 \<le> nroots rs" and S: "arr rs (nat (nroots rs)) S"
    and r: "1 \<le> r" "r \<le> nroots rs" and st: "bm_state_ok rs st"
  shows "returns (bm_round rs S no_eras r st) (bm_state_ok rs)"
proof -
  note s = tables_ok_sizes [OF t]
  let ?n = "nat (nroots rs)"
  obtain lambda b T el where st': "st = (lambda, b, T, el)" by (cases st)
  have l: "arr rs (?n + 1) lambda" and b: "arr rs (?n + 1) b" and T: "length T = ?n + 1"
    using st st' by (auto simp: bm_state_ok_def)
  have copy: "copy_into lambda 0 T' 0 (nroots rs + 1) = Some T'" if "arr rs (?n + 1) T'" for T'
    using that l n by (simp add: copy_into_def arr_def nat_add_distrib)
  show ?thesis
    unfolding bm_round_def st' prod.case
  proof (rule returns_bind [OF discrepancy_returns [OF t l S r]])
    fix d assume d: "fld_of rs d"
    let ?discr = "index_of rs ! unat d"
    have di: "fld_of rs ?discr" by (rule index_in [OF t d])
    have sb: "returns (shift_b rs b \<bind> f) Q" if "\<And>b'. arr rs (?n + 1) b' \<Longrightarrow> returns (f b') Q" for f :: "u16 list \<Rightarrow> 'z option" and Q
      by (rule returns_bind [OF shift_b_returns [OF s n b] that])
    show "returns (do {
       discr \<leftarrow> rd (index_of rs) (unat d);
       if uint discr = nn rs then do {
         b \<leftarrow> shift_b rs b;
         Some (lambda, b, T, el) }
       else do {
         t \<leftarrow> next_lambda rs discr lambda b T;
         (b, el) \<leftarrow>
           (if 2 * el \<le> r + no_eras - 1 then do {
              b \<leftarrow> divide_lambda rs discr lambda b;
              Some (b, r + no_eras - el) }
            else do { b \<leftarrow> shift_b rs b; Some (b, el) });
         lambda \<leftarrow> copy_into lambda 0 t 0 (nroots rs + 1);
         Some (lambda, b, t, el) } }) (bm_state_ok rs)"
      unfolding index_lookup [OF t d] Option.bind.bind_lunit
    proof (split if_split, intro conjI impI)
      show "returns (shift_b rs b \<bind> (\<lambda>b. Some (lambda, b, T, el))) (bm_state_ok rs)"
        by (rule sb) (use l T in \<open>simp add: bm_state_ok_def\<close>)
      show "returns (do {
         t \<leftarrow> next_lambda rs ?discr lambda b T;
         (b, el) \<leftarrow>
           (if 2 * el \<le> r + no_eras - 1 then do {
              b \<leftarrow> divide_lambda rs ?discr lambda b;
              Some (b, r + no_eras - el) }
            else do { b \<leftarrow> shift_b rs b; Some (b, el) });
         lambda \<leftarrow> copy_into lambda 0 t 0 (nroots rs + 1);
         Some (lambda, b, t, el) }) (bm_state_ok rs)"
      proof (rule returns_bind [OF next_lambda_returns [OF t l b T]])
        fix T' assume T': "arr rs (?n + 1) T'"
        have mid: "returns (if 2 * el \<le> r + no_eras - 1 then do {
              b \<leftarrow> divide_lambda rs ?discr lambda b;
              Some (b, r + no_eras - el) }
            else do { b \<leftarrow> shift_b rs b; Some (b, el) }) (\<lambda>(b', el'). arr rs (?n + 1) b')"
          by (auto intro!: sb returns_bind [OF divide_lambda_returns [OF t l b di]])
        show "returns (do {
         (b, el) \<leftarrow>
           (if 2 * el \<le> r + no_eras - 1 then do {
              b \<leftarrow> divide_lambda rs ?discr lambda b;
              Some (b, r + no_eras - el) }
            else do { b \<leftarrow> shift_b rs b; Some (b, el) });
         lambda \<leftarrow> copy_into lambda 0 T' 0 (nroots rs + 1);
         Some (lambda, b, T', el) }) (bm_state_ok rs)"
          by (rule returns_bind [OF mid]) (use T' in \<open>auto simp: copy bm_state_ok_def arr_length\<close>)
      qed
    qed
  qed
qed

lemma berlekamp_massey_returns:
  assumes t: "tables_ok rs p" and n: "0 \<le> nroots rs" and S: "arr rs (nat (nroots rs)) S" and e: "0 \<le> no_eras"
    and st: "bm_state_ok rs (lambda, b, T, no_eras)"
  shows "returns (berlekamp_massey rs S no_eras lambda b T) (arr rs (nat (nroots rs) + 1))"
  unfolding berlekamp_massey_def
proof (rule returns_bind [where P = "bm_state_ok rs"])
  show "returns (for_in [no_eras + 1..nroots rs] (bm_round rs S no_eras) (lambda, b, T, no_eras)) (bm_state_ok rs)"
    by (rule returns_for_inv) (use st e bm_round_returns [OF t n S] in auto)
qed (auto simp: bm_state_ok_def)

section \<open>The roots\<close>

lemma lambda_degree_returns:
  assumes t: "tables_ok rs p" and l: "arr rs (nat (nroots rs) + 1) lambda"
  shows "returns (lambda_degree rs lambda) (\<lambda>(lambda, deg). arr rs (nat (nroots rs) + 1) lambda \<and> deg \<le> nat (nroots rs))"
  unfolding lambda_degree_def
proof (rule returns_for_inv)
  fix i and st :: "u16 list \<times> nat"
  assume "i \<in> set [0..<nat (nroots rs) + 1]"
    and st: "case st of (lambda, deg) \<Rightarrow> arr rs (nat (nroots rs) + 1) lambda \<and> deg \<le> nat (nroots rs)"
  then have i: "i < nat (nroots rs) + 1" by auto
  obtain m deg where st': "st = (m, deg)" by (cases st)
  have m: "arr rs (nat (nroots rs) + 1) m" "deg \<le> nat (nroots rs)" using st st' by auto
  show "returns (case st of (lambda, deg) \<Rightarrow> do {
        l \<leftarrow> rd lambda i; k \<leftarrow> rd (index_of rs) (unat l); lambda \<leftarrow> wr lambda i k;
        Some (lambda, if uint k \<noteq> nn rs then i else deg) })
      (\<lambda>(lambda, deg). arr rs (nat (nroots rs) + 1) lambda \<and> deg \<le> nat (nroots rs))"
    unfolding st' prod.case arr_rd [OF m(1) i] arr_wr [OF m(1) i] index_lookup [OF t arr_nth [OF m(1) i]]
      Option.bind.bind_lunit returns_Some
    using arr_update [OF m(1) index_in [OF t arr_nth [OF m(1) i]]] i m(2) by auto
qed (use l in auto)

lemma chien_eval_returns:
  assumes t: "tables_ok rs p" and reg: "length reg = nat (nroots rs) + 1" "\<forall>j. 0 < j \<and> j \<le> nat (nroots rs) \<longrightarrow> fld_of rs (reg ! j)"
    and deg: "deg \<le> nat (nroots rs)"
  shows "returns (chien_eval rs deg reg) (\<lambda>(reg, q). length reg = nat (nroots rs) + 1 \<and>
    (\<forall>j. 0 < j \<and> j \<le> nat (nroots rs) \<longrightarrow> fld_of rs (reg ! j)) \<and> fld_of rs q)"
  unfolding chien_eval_def
proof (rule returns_for_inv)
  note s = tables_ok_sizes [OF t]
  let ?n = "nat (nroots rs)"
  let ?P = "\<lambda>(reg, q). length reg = ?n + 1 \<and> (\<forall>j. 0 < j \<and> j \<le> ?n \<longrightarrow> fld_of rs (reg ! j)) \<and> fld_of rs q"
  show "?P (reg, 1)" using reg fld_1 [OF s] by simp
  fix j and st :: "u16 list \<times> u16"
  assume "j \<in> set (rev [1..<deg + 1])" and st: "?P st"
  then have j: "0 < j" "j \<le> ?n" using deg by auto
  obtain r q where st': "st = (r, q)" by (cases st)
  have r: "length r = ?n + 1" "\<And>j. 0 < j \<Longrightarrow> j \<le> ?n \<Longrightarrow> fld_of rs (r ! j)" "fld_of rs q"
    using st st' by auto
  have rj: "rd r j = Some (r ! j)" "\<And>v. wr r j v = Some (r[j := v])"
    using r(1) j by (auto simp: rd_def wr_def)
  show "returns (case st of (reg, q) \<Rightarrow> do {
        rj \<leftarrow> rd reg j;
        if uint rj \<noteq> nn rs then do {
          k \<leftarrow> rs_modnn rs (uint rj + int j);
          reg \<leftarrow> wr reg j (word_of_int k);
          a \<leftarrow> rd (alpha_to rs) (unat (word_of_int k :: u16));
          Some (reg, q XOR a) }
        else Some (reg, q) }) ?P"
    unfolding st' prod.case rj Option.bind.bind_lunit
  proof (split if_split, intro conjI impI)
    show "returns (do {
          k \<leftarrow> rs_modnn rs (uint (r ! j) + int j);
          a \<leftarrow> rd (alpha_to rs) (unat (word_of_int k :: u16));
          Some (r[j := word_of_int k], q XOR a) }) ?P"
    proof (rule modnn_bind [OF s])
      fix k assume k: "0 \<le> k" "k < nn rs"
      obtain a where "rd (alpha_to rs) (unat (word_of_int k :: u16)) = Some a" "fld_of rs a"
        using alpha_direct [OF t fld_small [OF s, of k]] k by auto
      with r k j show "returns (do { a \<leftarrow> rd (alpha_to rs) (unat (word_of_int k :: u16));
          Some (r[j := word_of_int k], q XOR a) }) ?P"
        by (auto simp: nth_list_update fld_small [OF s] fld_xor [OF s])
    qed simp
  qed (use r in auto)
qed

text \<open>A locator of degree 0 has no roots.\<close>

lemma chien_eval_first:
  assumes t: "tables_ok rs p" and reg: "length reg = nat (nroots rs) + 1" "\<forall>j. 0 < j \<and> j \<le> nat (nroots rs) \<longrightarrow> fld_of rs (reg ! j)"
    and deg: "deg \<le> nat (nroots rs)"
  shows "returns (chien_eval rs deg reg) (\<lambda>(reg, q). (deg = 0 \<longrightarrow> q = 1) \<and> length reg = nat (nroots rs) + 1 \<and>
    (\<forall>j. 0 < j \<and> j \<le> nat (nroots rs) \<longrightarrow> fld_of rs (reg ! j)))"
proof (cases "deg = 0")
  case True
  then show ?thesis using reg by (simp add: chien_eval_def)
next
  case False
  then show ?thesis
    by (intro returns_mono [OF chien_eval_returns [OF assms]]) auto
qed

text \<open>
  The search finds at most \<open>deg\<close> roots, each of them between 1 and \<open>nn\<close>, with error locations
  below \<open>nn\<close>.
\<close>

definition found_ok :: "rs_control \<Rightarrow> nat \<Rightarrow> u16 list \<times> u16 list \<times> nat \<Rightarrow> bool" where
  "found_ok rs deg = (\<lambda>(rt, loc, count).
     length rt = nat (nroots rs) \<and> length loc = nat (nroots rs) \<and> count \<le> deg \<and>
     (\<forall>j < count. 1 \<le> uint (rt ! j) \<and> uint (rt ! j) \<le> nn rs \<and> uint (loc ! j) < nn rs))"

lemma chien_search_returns:
  assumes t: "tables_ok rs p" and ip: "0 < iprim rs" and deg: "deg \<le> nat (nroots rs)"
    and reg: "length reg = nat (nroots rs) + 1" "\<forall>j. 0 < j \<and> j \<le> nat (nroots rs) \<longrightarrow> fld_of rs (reg ! j)"
    and rng: "\<forall>i\<in>set is. 1 \<le> i \<and> i \<le> nn rs" and k: "0 \<le> k" "k < nn rs"
    and ok: "found_ok rs deg (rt, loc, count)" and room: "count < deg \<or> deg = 0"
    and none: "deg = 0 \<Longrightarrow> count = 0"
  shows "returns (chien_search rs deg is k reg rt loc count) (found_ok rs deg)"
  using reg rng k ok room none
proof (induction "is" arbitrary: k reg rt loc count)
  case Nil
  then show ?case by simp
next
  case (Cons i "is")
  note s = tables_ok_sizes [OF t]
  have i: "1 \<le> i" "i \<le> nn rs" using Cons.prems(3) by auto
  have eval: "returns (chien_eval rs deg reg) (\<lambda>(reg, q). (deg = 0 \<longrightarrow> q = 1) \<and> length reg = nat (nroots rs) + 1 \<and>
    (\<forall>j. 0 < j \<and> j \<le> nat (nroots rs) \<longrightarrow> fld_of rs (reg ! j)))"
    by (rule chien_eval_first [OF t Cons.prems(1,2) deg])
  have rest: "\<forall>i\<in>set is. 1 \<le> i \<and> i \<le> nn rs" using Cons.prems(3) by simp
  show ?case
    unfolding chien_search.simps
  proof (rule returns_bind [OF eval], clarify)
    fix reg' and q :: u16
    assume q': "deg = 0 \<longrightarrow> q = 1"
      and reg': "length reg' = nat (nroots rs) + 1" "\<forall>j. 0 < j \<and> j \<le> nat (nroots rs) \<longrightarrow> fld_of rs (reg' ! j)"
    have go: "returns (rs_modnn rs (k + iprim rs) \<bind> (\<lambda>k. chien_search rs deg is k reg' rt' loc' count')) (found_ok rs deg)"
      if "found_ok rs deg (rt', loc', count')" "count' < deg \<or> deg = 0" "deg = 0 \<Longrightarrow> count' = 0" for rt' loc' count'
      by (rule modnn_bind [OF s]) (use Cons.IH [OF reg' rest] that Cons.prems(4,5) ip in auto)
    show "returns (if q \<noteq> 0 then do {
       k \<leftarrow> rs_modnn rs (k + iprim rs);
       chien_search rs deg is k reg' rt loc count }
     else do {
       rt \<leftarrow> wr rt count (word_of_int i);
       loc \<leftarrow> wr loc count (word_of_int k);
       if count + 1 = deg then Some (rt, loc, count + 1)
       else do {
         k \<leftarrow> rs_modnn rs (k + iprim rs);
         chien_search rs deg is k reg' rt loc (count + 1) } }) (found_ok rs deg)"
    proof (split if_split, intro conjI impI)
      show "returns (do { k \<leftarrow> rs_modnn rs (k + iprim rs); chien_search rs deg is k reg' rt loc count }) (found_ok rs deg)"
        by (rule go) (use Cons.prems in auto)
      assume q: "\<not> q \<noteq> 0"
      have "deg \<noteq> 0" using q' q by auto
      then have c: "count < deg" "count < nat (nroots rs)" using Cons.prems(7) deg by auto
      let ?rt = "rt[count := word_of_int i]"
      let ?loc = "loc[count := word_of_int k]"
      have w: "wr rt count (word_of_int i) = Some ?rt" "wr loc count (word_of_int k) = Some ?loc"
        using Cons.prems(6) c by (auto simp: found_ok_def wr_def)
      have u: "uint (word_of_int i :: u16) = i" "uint (word_of_int k :: u16) = k"
        using uint_small [OF s] i Cons.prems(4,5) by auto
      have found: "found_ok rs deg (?rt, ?loc, count + 1)"
        using Cons.prems(4,5,6) c i u by (auto simp: found_ok_def nth_list_update less_Suc_eq)
      show "returns (do {
         rt \<leftarrow> wr rt count (word_of_int i);
         loc \<leftarrow> wr loc count (word_of_int k);
         if count + 1 = deg then Some (rt, loc, count + 1)
         else do {
           k \<leftarrow> rs_modnn rs (k + iprim rs);
           chien_search rs deg is k reg' rt loc (count + 1) } }) (found_ok rs deg)"
        unfolding w Option.bind.bind_lunit
      proof (split if_split, intro conjI impI)
        show "returns (Some (?rt, ?loc, count + 1)) (found_ok rs deg)" using found by simp
        assume "count + 1 \<noteq> deg"
        then show "returns (do { k \<leftarrow> rs_modnn rs (k + iprim rs); chien_search rs deg is k reg' ?rt ?loc (count + 1) })
            (found_ok rs deg)"
          by (intro go [OF found]) (use c in auto)
      qed
    qed
  qed
qed

section \<open>The error values\<close>

lemma xor_loop:
  assumes s: "sizes_ok rs" and d: "fld_of rs d"
    and step: "\<And>i d. i \<in> set is \<Longrightarrow> fld_of rs d \<Longrightarrow> returns (f i d) (fld_of rs)"
  shows "returns (for_in is f d) (fld_of rs)"
  using d step by (intro returns_for_inv)

lemma omega_coeff_returns:
  assumes t: "tables_ok rs p" and S: "arr rs (nat (nroots rs)) S" and l: "arr rs (nat (nroots rs) + 1) lambda"
    and i: "i < nat (nroots rs)"
  shows "returns (omega_coeff rs S lambda i) (fld_of rs)"
  unfolding omega_coeff_def
proof (rule xor_loop [OF tables_ok_sizes [OF t] fld_0 [OF tables_ok_sizes [OF t]]])
  note s = tables_ok_sizes [OF t]
  fix j d
  assume "j \<in> set (rev [0..<i + 1])" and d: "fld_of rs d"
  then have j: "i - j < nat (nroots rs)" "j < nat (nroots rs) + 1" using i by auto
  show "returns (do {
        si \<leftarrow> rd S (i - j);
        if uint si = nn rs then Some d
        else do {
          lj \<leftarrow> rd lambda j;
          if uint lj \<noteq> nn rs then do {
            a \<leftarrow> alpha_modnn rs (uint si + uint lj);
            Some (d XOR a) }
          else Some d } }) (fld_of rs)"
    unfolding arr_rd [OF S j(1)] arr_rd [OF l j(2)] Option.bind.bind_lunit
    using d by (auto intro!: alpha_bind [OF t] fld_xor [OF s])
qed

lemma make_omega_returns:
  assumes t: "tables_ok rs p" and S: "arr rs (nat (nroots rs)) S" and l: "arr rs (nat (nroots rs) + 1) lambda"
    and deg: "deg \<le> nat (nroots rs)" and om: "length omega = nat (nroots rs) + 1"
  shows "returns (make_omega rs S lambda deg omega) (\<lambda>omega. length omega = nat (nroots rs) + 1 \<and> (\<forall>i < deg. fld_of rs (omega ! i)))"
  unfolding make_omega_def
proof (rule returns_for_upt [where P = "\<lambda>k omega. length omega = nat (nroots rs) + 1 \<and> (\<forall>i < k. fld_of rs (omega ! i))"])
  fix i om'
  assume i: "i < deg" and P: "length om' = nat (nroots rs) + 1 \<and> (\<forall>j < i. fld_of rs (om' ! j))"
  have in': "i < nat (nroots rs)" using i deg by simp
  show "returns (do { tmp \<leftarrow> omega_coeff rs S lambda i; k \<leftarrow> rd (index_of rs) (unat tmp); wr om' i k })
      (\<lambda>omega. length omega = nat (nroots rs) + 1 \<and> (\<forall>j < Suc i. fld_of rs (omega ! j)))"
    by (rule returns_bind [OF omega_coeff_returns [OF t S l in']])
      (use P in' in \<open>auto simp: index_lookup [OF t] index_in [OF t] wr_def nth_list_update less_Suc_eq\<close>)
qed (use om in auto)

lemma eval_omega_returns:
  assumes t: "tables_ok rs p" and om: "deg \<le> length omega" "\<forall>i < deg. fld_of rs (omega ! i)" and r: "0 \<le> r"
  shows "returns (eval_omega rs omega deg r) (fld_of rs)"
  unfolding eval_omega_def
proof (rule xor_loop [OF tables_ok_sizes [OF t] fld_0 [OF tables_ok_sizes [OF t]]])
  note s = tables_ok_sizes [OF t]
  fix i d
  assume "i \<in> set (rev [0..<deg])" and d: "fld_of rs d"
  then have "rd omega i = Some (omega ! i)" using om by (auto simp: rd_def)
  then show "returns (do {
        oi \<leftarrow> rd omega i;
        if uint oi \<noteq> nn rs then do {
          a \<leftarrow> alpha_modnn rs (uint oi + int i * r);
          Some (d XOR a) }
        else Some d }) (fld_of rs)"
    using d r by (auto intro!: alpha_bind [OF t] fld_xor [OF s])
qed

lemma evens_down_bound: "i \<in> set (evens_down m) \<Longrightarrow> int i \<le> m"
  by (auto simp: evens_down_def split: if_splits)

lemma eval_deriv_returns:
  assumes t: "tables_ok rs p" and l: "arr rs (nat (nroots rs) + 1) lambda" and r: "0 \<le> r"
  shows "returns (eval_deriv rs lambda deg r) (fld_of rs)"
  unfolding eval_deriv_def
proof (rule xor_loop [OF tables_ok_sizes [OF t] fld_0 [OF tables_ok_sizes [OF t]]])
  note s = tables_ok_sizes [OF t]
  fix i d
  assume "i \<in> set (evens_down (if int deg \<le> nroots rs - 1 then int deg else nroots rs - 1))" and d: "fld_of rs d"
  then have "int i \<le> nroots rs - 1"
    using evens_down_bound by (fastforce split: if_splits)
  then have i: "i + 1 < nat (nroots rs) + 1" by simp
  show "returns (do {
        l \<leftarrow> rd lambda (i + 1);
        if uint l \<noteq> nn rs then do {
          a \<leftarrow> alpha_modnn rs (uint l + int i * r);
          Some (d XOR a) }
        else Some d }) (fld_of rs)"
    unfolding arr_rd [OF l i] Option.bind.bind_lunit
    using d r by (auto intro!: alpha_bind [OF t] fld_xor [OF s])
qed

definition buffers_ok :: "nat \<Rightarrow> nat \<Rightarrow> byte list option \<times> u16 list option \<Rightarrow> bool" where
  "buffers_ok len n = (\<lambda>(data, corr).
     (case data of None \<Rightarrow> True | Some d \<Rightarrow> len \<le> length d) \<and>
     (case corr of None \<Rightarrow> True | Some c \<Rightarrow> n \<le> length c))"

lemma correct_one_returns:
  assumes t: "tables_ok rs p" and f: "0 \<le> fcr rs" and l: "arr rs (nat (nroots rs) + 1) lambda"
    and om: "deg \<le> length omega" "\<forall>i < deg. fld_of rs (omega ! i)"
    and found: "found_ok rs deg (rt, loc, count)" "j < count" and deg: "deg \<le> nat (nroots rs)"
    and pad: "pad = nn rs - nroots rs - int len" and b: "buffers_ok len (nat (nroots rs)) st"
  shows "returns (correct_one rs pad lambda omega deg rt loc j st)
    (\<lambda>st'. buffers_ok len (nat (nroots rs)) st' \<and>
       map_option length (fst st') = map_option length (fst st))"
proof -
  note s = tables_ok_sizes [OF t]
  obtain data corr where st: "st = (data, corr)" by (cases st)
  have j: "j < length rt" "j < length loc" "j < nat (nroots rs)"
    and r: "1 \<le> uint (rt ! j)" "uint (rt ! j) \<le> nn rs" and lj: "uint (loc ! j) < nn rs"
    using found deg by (auto simp: found_ok_def)
  have e2: "0 \<le> uint (rt ! j) * (fcr rs - 1) + nn rs"
  proof (cases "fcr rs = 0")
    case False
    then have "0 \<le> uint (rt ! j) * (fcr rs - 1)" using f by simp
    with nn_pos [OF s] show ?thesis by simp
  qed (use r in simp)
  have e3: "0 \<le> uint i1 + uint i2 + nn rs - uint x" if "fld_of rs x" for i1 i2 x :: u16
    using that uint_ge_0 [of i1] uint_ge_0 [of i2] unfolding fld_of_def by linarith
  define Q where "Q = (\<lambda>st' :: byte list option \<times> u16 list option. buffers_ok len (nat (nroots rs)) st' \<and>
       map_option length (fst st') = map_option length data)"
  have corr: "returns (case corr of
          Some c \<Rightarrow> do { c \<leftarrow> wr c j cor; Some (data, Some c) }
        | None \<Rightarrow>
           (case data of
              None \<Rightarrow> Some (None, None)
            | Some d \<Rightarrow>
                if uint (loc ! j) < nn rs - nroots rs then do {
                  v \<leftarrow> rdz d (uint (loc ! j) - pad);
                  d \<leftarrow> wrz d (uint (loc ! j) - pad) (ucast (ucast v XOR cor));
                  Some (Some d, None) }
                else Some (Some d, None))) Q" if "pad \<le> uint (loc ! j)" for cor
  proof (cases corr)
    case (Some c)
    then show ?thesis using b st j by (auto simp: buffers_ok_def Q_def wr_def)
  next
    case None
    show ?thesis
    proof (cases data)
      case (Some d)
      have "nat (uint (loc ! j) - pad) < length d" if "uint (loc ! j) < nn rs - nroots rs" "pad \<le> uint (loc ! j)"
      proof -
        have "len \<le> length d" using b st Some by (simp add: buffers_ok_def)
        moreover have "uint (loc ! j) - pad < int len" using pad that by linarith
        ultimately show ?thesis using that by linarith
      qed
      with None Some b st that show ?thesis
        by (auto simp: buffers_ok_def Q_def rdz_def rd_def wrz_def wr_def)
    qed (use None b st in \<open>simp add: buffers_ok_def Q_def\<close>)
  qed
  have body: "returns (correct_one rs pad lambda omega deg rt loc j (data, corr)) Q"
    unfolding correct_one_def prod.case rd_in [OF j(1)] rd_in [OF j(2)] Option.bind.bind_lunit
  proof (rule returns_bind [OF eval_omega_returns [OF t om uint_ge_0]], rule alpha_bind [OF t e2],
      rule returns_bind [OF eval_deriv_returns [OF t l uint_ge_0]], split if_split, intro conjI impI)
    fix num1 num2 den
    assume n: "fld_of rs num1" "fld_of rs num2" "fld_of rs den" and c: "num1 \<noteq> 0 \<and> pad \<le> uint (loc ! j)"
    show "returns (do {
       i1 \<leftarrow> rd (index_of rs) (unat num1);
       i2 \<leftarrow> rd (index_of rs) (unat num2);
       id \<leftarrow> rd (index_of rs) (unat den);
       cor \<leftarrow> alpha_modnn rs (uint i1 + uint i2 + nn rs - uint id);
       (case corr of
          Some c \<Rightarrow> do { c \<leftarrow> wr c j cor; Some (data, Some c) }
        | None \<Rightarrow>
           (case data of
              None \<Rightarrow> Some (None, None)
            | Some d \<Rightarrow>
                if uint (loc ! j) < nn rs - nroots rs then do {
                  v \<leftarrow> rdz d (uint (loc ! j) - pad);
                  d \<leftarrow> wrz d (uint (loc ! j) - pad) (ucast (ucast v XOR cor));
                  Some (Some d, None) }
                else Some (Some d, None))) }) Q"
      unfolding index_lookup [OF t n(1)] index_lookup [OF t n(2)] index_lookup [OF t n(3)] Option.bind.bind_lunit
      by (rule alpha_bind [OF t e3 [OF index_in [OF t n(3)]]]) (rule corr, use c in simp)
  next
    show "returns (Some (data, corr)) Q" using b st by (simp add: Q_def)
  qed
  then show ?thesis unfolding st Q_def by simp
qed

section \<open>The whole decoder\<close>

lemma finish_decode_returns:
  assumes c: "count \<le> int (length loc)" and e: "case d_eras res of None \<Rightarrow> True | Some e \<Rightarrow> count \<le> int (length e)"
  shows "returns (finish_decode pad count loc res) (\<lambda>r. d_count r = count \<and> d_data r = d_data res \<and> d_corr r = d_corr res)"
proof (cases "d_eras res")
  case None
  then show ?thesis by (simp add: finish_decode_def)
next
  case (Some e)
  let ?m = "nat count"
  have "for_in [0..<?m] (\<lambda>i e. do { v \<leftarrow> do { l \<leftarrow> rd loc i; Some (uint l - pad) }; wr e (0 + i) v }) e =
      Some (take 0 e @ map (\<lambda>i. uint (loc ! i) - pad) [0..<?m] @ drop (0 + ?m) e)"
    by (rule store_row) (use c assms(2) Some in \<open>auto simp: rd_def\<close>)
  with Some show ?thesis
    by (simp add: finish_decode_def Option.bind_assoc)
qed

definition decoded_ok :: "rs_control \<Rightarrow> decoded \<Rightarrow> decoded \<Rightarrow> bool" where
  "decoded_ok rs res r \<longleftrightarrow>
     (d_count r = - 74 \<or> 0 \<le> d_count r \<and> d_count r \<le> nroots rs) \<and>
     map_option length (d_data r) = map_option length (d_data res)"

lemma make_locator_returns:
  assumes ok: "rs_ok rs p" and S: "arr rs (nat (nroots rs)) S"
  shows "returns (make_locator junk rs S 0 eras) (\<lambda>(lambda, deg). arr rs (nat (nroots rs) + 1) lambda \<and> deg \<le> nat (nroots rs))"
proof -
  note t = rs_okD(1) [OF ok] and s = rs_okD(2) [OF ok] and n = less_imp_le [OF rs_okD(5) [OF ok]]
  have l0: "arr rs (nat (nroots rs) + 1) (1 # replicate (nat (nroots rs)) 0)"
    using fld_0 [OF s] fld_1 [OF s] by (simp add: arr_def list_all_iff)
  have T: "length (map (junk k) [0..<nat (nroots rs) + 1]) = nat (nroots rs) + 1" for k by simp
  show ?thesis
    unfolding make_locator_def Let_def init_lambda_0 Option.bind.bind_lunit
    by (rule returns_bind [OF index_form_returns [OF t l0 T]],
        rule returns_bind [OF berlekamp_massey_returns [OF t n S order_refl]])
      (use l0 in \<open>auto simp: bm_state_ok_def intro: lambda_degree_returns [OF t, simplified]\<close>)
qed

lemma find_roots_returns:
  assumes ok: "rs_ok rs p" and lam: "arr rs (nat (nroots rs) + 1) lambda" and deg: "deg \<le> nat (nroots rs)"
  shows "returns (find_roots junk rs lambda deg) (found_ok rs deg)"
proof -
  let ?n = "nat (nroots rs)"
  have ip: "0 < iprim rs" "iprim rs - 1 < nn rs" "0 \<le> iprim rs - 1" and n: "0 \<le> nroots rs"
    using ok by (auto simp: rs_ok_def)
  define reg where "reg = take 1 (map (junk 2) [0..<?n + 1]) @ take ?n (drop 1 lambda) @ drop (1 + ?n) (map (junk 2) [0..<?n + 1])"
  have "copy_into (map (junk 2) [0..<?n + 1]) 1 lambda 1 (nroots rs) = Some reg"
    using lam n by (simp add: copy_into_def reg_def arr_def del: upt_Suc)
  moreover have "length reg = ?n + 1" "\<forall>j. 0 < j \<and> j \<le> ?n \<longrightarrow> fld_of rs (reg ! j)"
    using lam by (auto simp: reg_def arr_def list_all_length nth_append nth_Cons' simp del: upt_Suc)
  then have "returns (chien_search rs deg [1..nn rs] (iprim rs - 1) reg
      (map (junk 3) [0..<?n]) (map (junk 4) [0..<?n]) 0) (found_ok rs deg)"
    by (intro chien_search_returns [OF rs_okD(1) [OF ok] ip(1) deg]) (use ip in \<open>auto simp: found_ok_def\<close>)
  ultimately show ?thesis
    by (simp add: find_roots_def Let_def del: upt_Suc)
qed

lemma correct_errors_returns:
  assumes ok: "rs_ok rs p" and S: "arr rs (nat (nroots rs)) S"
    and lam: "arr rs (nat (nroots rs) + 1) lambda" and deg: "deg \<le> nat (nroots rs)" and found: "found_ok rs deg (rt, loc, count)"
    and pad: "pad = nn rs - nroots rs - int len" and bufs: "buffers_ok len (nat (nroots rs)) (d_data res, d_corr res)"
    and eras: "case d_eras res of None \<Rightarrow> True | Some e \<Rightarrow> nat (nroots rs) \<le> length e"
  shows "returns (correct_errors junk rs pad S lambda deg res (rt, loc, count)) (decoded_ok rs res)"
proof -
  let ?n = "nat (nroots rs)"
  note t = rs_okD(1) [OF ok]
  have lens: "length loc = ?n" "count \<le> ?n" and n: "0 < nroots rs" using found deg ok by (auto simp: found_ok_def rs_ok_def)
  have loops: "returns (for_in (rev [0..<count]) (correct_one rs pad lambda omega deg rt loc) (d_data res, d_corr res))
      (\<lambda>st'. buffers_ok len ?n st' \<and> map_option length (fst st') = map_option length (d_data res))"
    if om: "length omega = ?n + 1 \<and> (\<forall>i < deg. fld_of rs (omega ! i))" for omega
  proof (rule returns_for_inv)
    fix j st assume j: "j \<in> set (rev [0..<count])"
      and st: "buffers_ok len ?n st \<and> map_option length (fst st) = map_option length (d_data res)"
    show "returns (correct_one rs pad lambda omega deg rt loc j st)
        (\<lambda>st'. buffers_ok len ?n st' \<and> map_option length (fst st') = map_option length (d_data res))"
      by (rule returns_mono [OF correct_one_returns [OF t rs_okD(3) [OF ok] lam _ _ found _ deg pad]]) (use om deg j st in auto)
  qed (use bufs in simp)
  have fin: "returns (finish_decode pad c loc res') (decoded_ok rs res)"
    if "c = - 74 \<or> 0 \<le> c \<and> c \<le> nroots rs" "d_eras res' = d_eras res"
      "map_option length (d_data res') = map_option length (d_data res)" for c res'
    by (rule returns_mono [OF finish_decode_returns]) (use that lens n eras in \<open>auto simp: decoded_ok_def split: option.splits\<close>)
  have T: "length (map (junk 5) [0..<?n + 1]) = ?n + 1" by simp
  have "returns (do {
       omega \<leftarrow> make_omega rs S lambda deg (map (junk 5) [0..<?n + 1]);
       (data, corr) \<leftarrow> for_in (rev [0..<count]) (correct_one rs pad lambda omega deg rt loc) (d_data res, d_corr res);
       finish_decode pad (int count) loc (res\<lparr>d_data := data, d_corr := corr\<rparr>) }) (decoded_ok rs res)"
    by (rule returns_bind [OF make_omega_returns [OF t S lam deg T]], rule returns_bind [OF loops])
      (use lens n in \<open>auto intro!: fin\<close>)
  moreover have "returns (finish_decode pad (- 74) loc res) (decoded_ok rs res)"
    by (rule fin) auto
  ultimately show ?thesis
    by (cases "deg = count") (simp_all add: correct_errors_def del: upt_Suc)
qed

lemma decode_from_syndromes_returns:
  assumes ok: "rs_ok rs p" and S: "arr rs (nat (nroots rs)) S"
    and pad: "pad = nn rs - nroots rs - int len" and bufs: "buffers_ok len (nat (nroots rs)) (d_data res, d_corr res)"
    and eras: "case d_eras res of None \<Rightarrow> True | Some e \<Rightarrow> nat (nroots rs) \<le> length e"
  shows "returns (decode_from_syndromes junk rs pad S 0 res) (decoded_ok rs res)"
  unfolding decode_from_syndromes_def
  by (rule returns_bind [OF make_locator_returns [OF ok S]], clarify, rule returns_bind [OF find_roots_returns [OF ok]])
    (auto intro: correct_errors_returns [OF ok S _ _ _ pad bufs eras])

lemma decode_rs8_returns:
  assumes ok: "rs_ok rs p" and len: "1 \<le> len" "nat len \<le> length data" "nroots rs + len \<le> nn rs"
    and par: "nat (nroots rs) \<le> length par"
    and corr: "case corr of None \<Rightarrow> True | Some c \<Rightarrow> nat (nroots rs) \<le> length c"
    and eras: "case eras_pos of None \<Rightarrow> True | Some e \<Rightarrow> nat (nroots rs) \<le> length e"
  shows "returns (decode_rs8 junk rs (Some data) par len None 0 eras_pos invmsk corr)
    (\<lambda>r. (d_count r = - 74 \<or> 0 \<le> d_count r \<and> d_count r \<le> nroots rs) \<and>
       map_option length (d_data r) = Some (length data))"
proof -
  note t = rs_okD(1) [OF ok] and s = rs_okD(2) [OF ok]
  define R where "R = received rs invmsk (take (nat len) data) (take (nat (nroots rs)) par)"
  define res where "res = \<lparr>d_count = 0, d_data = Some data, d_synd = None, d_eras = eras_pos, d_corr = corr\<rparr>"
  let ?S = "map (\<lambda>i. index_of rs ! unat (syndrome rs R i)) [0..<nat (nroots rs)]"
  have "arr rs (nat (nroots rs)) ?S"
    using syndrome_in [OF ok received_in [OF s]] index_in [OF t] by (simp add: arr_def list_all_iff R_def)
  moreover have "buffers_ok (nat len) (nat (nroots rs)) (d_data res, d_corr res)"
    using len corr by (simp add: buffers_ok_def res_def)
  ultimately have "returns (decode_from_syndromes junk rs (nn rs - nroots rs - len) ?S 0 res) (decoded_ok rs res)"
    using len(1) eras by (intro decode_from_syndromes_returns [OF ok]) (auto simp: res_def)
  then have "returns (decode_rs8 junk rs (Some data) par len None 0 eras_pos invmsk corr) (decoded_ok rs res)"
    unfolding decode_rs8_eq [OF ok len par] Let_def R_def [symmetric] res_def [symmetric]
    using rs_okD(5) [OF ok] by (auto simp: decoded_ok_def res_def)
  then show ?thesis
    by (rule returns_mono) (simp add: decoded_ok_def res_def)
qed

section \<open>Two roots\<close>

text \<open>
  A run of the decoder with \<open>nroots = 2\<close> on a word whose first syndrome is \<open>v\<close> and whose second
  one vanishes: the locator polynomial becomes \<open>1 + v x\<close> and then 1 again.
\<close>

lemma chien_no_roots:
  assumes s: "sizes_ok rs" and "0 < iprim rs" and "0 \<le> k"
  shows "chien_search rs 0 is k reg rt loc 0 = Some (rt, loc, 0)"
  using assms(3)
proof (induction "is" arbitrary: k)
  case (Cons i "is")
  have "rs_modnn rs (k + iprim rs) = Some ((k + iprim rs) mod nn rs)" "0 \<le> (k + iprim rs) mod nn rs"
    using assms(2) Cons.prems nn_pos [OF s] by (simp_all add: rs_modnn_mod [OF s])
  with Cons.IH show ?case by (simp add: chien_eval_def)
qed simp

lemma two_roots_lookups:
  assumes ok: "rs_ok rs p" and v: "fld_of rs v" "v \<noteq> 0"
  defines "b0 \<equiv> word_of_int ((nn rs - uint (index_of rs ! unat v)) mod nn rs) :: u16"
    and "v2 \<equiv> gmul rs (glog rs v) v"
  shows "uint (index_of rs ! unat 1) = 0"
    and "alpha_modnn rs (uint (index_of rs ! unat v)) = Some v"
    and "alpha_modnn rs (uint (index_of rs ! unat v) + uint (index_of rs ! unat v)) = Some v2"
    and "fld_of rs v2" and "v2 \<noteq> 0" and "uint b0 \<noteq> nn rs"
    and "alpha_modnn rs (uint (index_of rs ! unat v2) + uint b0) = Some v"
proof -
  note t = rs_okD(1) [OF ok] and s = rs_okD(2) [OF ok] and F = rs_ok_field [OF ok]
  have "glog rs (gmul rs 0 1) = 0" using log_field.lg_mul [OF F, of 0] by simp
  then have "glog rs 1 = 0" using gmul_zero_left [OF t fld_1 [OF s]] by simp
  with index_uint [of rs 1] show one: "uint (index_of rs ! unat 1) = 0" by simp
  show "alpha_modnn rs (uint (index_of rs ! unat v)) = Some v"
    using alpha_lookup_mul [OF t v, of 0] gmul_zero_left [OF t v(1)] by simp
  show "alpha_modnn rs (uint (index_of rs ! unat v) + uint (index_of rs ! unat v)) = Some v2"
    using alpha_lookup_mul [OF t v, of "uint (index_of rs ! unat v)"] by (simp add: v2_def index_uint)
  show v2: "fld_of rs v2" "v2 \<noteq> 0"
    using gmul_in [OF t v(1)] log_field.mul_eq_0 [OF F v(1)] v(2) by (simp_all add: v2_def)
  have lt: "glog rs v < nat (nn rs)" by (rule glog_less [OF t v])
  have b0: "uint b0 = (nn rs - int (glog rs v)) mod nn rs"
    using nn_pos [OF s] unfolding b0_def index_uint
    by (intro uint_small [OF s]) (simp_all add: less_imp_le)
  then show "uint b0 \<noteq> nn rs"
    using nn_pos [OF s] by (metis less_irrefl pos_mod_bound)
  have "(nat (uint b0) + glog rs v) mod nat (nn rs) = 0"
  proof -
    have "(uint b0 + int (glog rs v)) mod nn rs = 0" unfolding b0 by (simp add: mod_simps)
    then have "nat ((uint b0 + int (glog rs v)) mod nn rs) = 0" by simp
    then show ?thesis using nn_pos [OF s] by (simp add: nat_mod_distrib nat_add_distrib)
  qed
  then have "gmul rs (nat (uint b0)) v2 = v"
    unfolding v2_def using log_field.mul_mod [OF F v(1), of "nat (uint b0) + glog rs v"] gmul_zero_left [OF t v(1)]
    by (simp add: log_field.mul_mul [OF F v(1)])
  then show "alpha_modnn rs (uint (index_of rs ! unat v2) + uint b0) = Some v"
    using alpha_lookup_mul [OF t v2, of "uint b0"] by simp
qed

lemma two_roots_locator:
  assumes ok: "rs_ok rs p" and n: "nroots rs = 2" and v: "fld_of rs v" "v \<noteq> 0"
  shows "make_locator junk rs [index_of rs ! unat v, index_of rs ! 0] 0 eras =
    Some ([index_of rs ! unat 1, index_of rs ! 0, index_of rs ! 0], 0)"
proof -
  note t = rs_okD(1) [OF ok] and s = rs_okD(2) [OF ok]
  let ?ix = "\<lambda>x. index_of rs ! unat x"
  let ?b0 = "word_of_int ((nn rs - uint (?ix v)) mod nn rs) :: u16"
  let ?w = "word_of_int (nn rs) :: u16"
  let ?S = "[?ix v, index_of rs ! 0]"
  note L = two_roots_lookups [OF ok v]
  have ixl: "rd (index_of rs) (unat x) = Some (?ix x)" if "fld_of rs x" for x
    by (rule index_lookup [OF t that])
  note ixs = ixl [OF fld_1 [OF s]] ixl [OF fld_0 [OF s], simplified] ixl [OF v(1)] ixl [OF L(4)]
  have nz: "uint (index_of rs ! 0) = nn rs" "uint ?w = nn rs"
    using index_nn_iff [OF t fld_0 [OF s]] uint_small [OF s, of "nn rs"] nn_pos [OF s] by simp_all
  have vn: "uint (?ix v) \<noteq> nn rs" "uint (?ix (gmul rs (glog rs v) v)) \<noteq> nn rs" "0 \<noteq> nn rs"
    using index_nn_iff [OF t v(1)] v(2) index_nn_iff [OF t L(4)] L(5) nn_pos [OF s] by simp_all
  have m: "rs_modnn rs (nn rs - uint (?ix v)) = Some ((nn rs - uint (?ix v)) mod nn rs)"
    using glog_less [OF t v] by (intro rs_modnn_mod [OF s]) (simp add: index_uint)
  note eval = exec_simps n copy_into_def
  have form: "index_form rs [1, 0, 0] b = Some [?ix 1, index_of rs ! 0, index_of rs ! 0]" if "length b = 3" for b
    using that ixs by (elim length_3E) (simp add: index_form_def eval)
  have r1: "bm_round rs ?S 0 1 ([1, 0, 0], [?ix 1, index_of rs ! 0, index_of rs ! 0], T, 0) =
      Some ([1, v, 0], [?b0, ?w, ?w], [1, v, 0], 1)" if "length T = 3" for T
    using that L ixs nz vn m
    by (elim length_3E) (simp add: bm_round_def discrepancy_def next_lambda_def divide_lambda_def eval)
  have r2: "\<exists>b T. bm_round rs ?S 0 2 ([1, v, 0], [?b0, ?w, ?w], [1, v, 0], 1) = Some ([1, 0, 0], b, T, 1)"
    using L ixs nz vn v
    by (simp add: bm_round_def discrepancy_def next_lambda_def shift_b_def eval)
  have deg: "lambda_degree rs [1, 0, 0] = Some ([?ix 1, index_of rs ! 0, index_of rs ! 0], 0)"
    using L ixs nz vn by (simp add: lambda_degree_def eval)
  have two: "[0 + 1..2 :: int] = [1, 2]" by (simp add: upto_rec1)
  obtain b T where r2': "bm_round rs ?S 0 2 ([1, v, 0], [?b0, ?w, ?w], [1, v, 0], 1) = Some ([1, 0, 0], b, T, 1)"
    using r2 by blast
  have "berlekamp_massey rs ?S 0 [1, 0, 0] [?ix 1, index_of rs ! 0, index_of rs ! 0] T = Some [1, 0, 0]"
    if "length T = 3" for T
    using r1 [OF that] r2' unfolding berlekamp_massey_def n two by simp
  moreover have "init_lambda rs 0 eras = Some [1, 0, 0]"
    by (simp add: init_lambda_def n numeral_2_eq_2)
  ultimately show ?thesis
    using form deg by (simp add: make_locator_def n)
qed

text \<open>
  So the locator has degree 0, no root is looked for, and the decoder reports zero errors.
\<close>

lemma two_roots_decode:
  assumes ok: "rs_ok rs p" and n: "nroots rs = 2" and len: "1 \<le> len" "nat len \<le> length data" "2 + len \<le> nn rs"
    and par: "2 \<le> length par"
    and R: "R = received rs invmsk (take (nat len) data) (take 2 par)"
    and syn: "syndrome rs R 0 \<noteq> 0" "syndrome rs R 1 = 0"
  shows "decode_rs8 junk rs (Some data) par len None 0 None invmsk None =
    Some \<lparr>d_count = 0, d_data = Some data, d_synd = None, d_eras = None, d_corr = None\<rparr>"
proof -
  note s = rs_okD(2) [OF ok]
  have len': "nroots rs + len \<le> nn rs" "nat (nroots rs) \<le> length par" using n len par by auto
  have v: "fld_of rs (syndrome rs R 0)"
    unfolding R by (rule syndrome_in [OF ok received_in [OF s]])
  have not: "\<not> codeword rs R" using syn(1) n by (auto simp: codeword_syndrome intro: exI [of _ 0])
  have S: "map (\<lambda>i. index_of rs ! unat (syndrome rs R i)) [0..<nat (nroots rs)] =
      [index_of rs ! unat (syndrome rs R 0), index_of rs ! 0]"
    using syn(2) by (simp add: n upt_rec)
  have ip: "0 < iprim rs" "0 \<le> iprim rs - 1" using ok by (auto simp: rs_ok_def)
  have roots: "find_roots junk rs [x, y, z] 0 = Some (map (junk 3) [0..<2], map (junk 4) [0..<2], 0)" for x y z
    by (simp add: find_roots_def n copy_into_def chien_no_roots [OF s ip])
  show ?thesis
    using decode_rs8_eq [OF ok len(1,2) len'] not two_roots_locator [OF ok n v syn(1)] roots
    by (simp add: Let_def n R [symmetric] S [unfolded n, simplified] decode_from_syndromes_def correct_errors_def
        make_omega_def finish_decode_def)
qed

end
