(* ===== verification/Rs_Algebra.thy ===== *)
theory Rs_Algebra imports Rs_Field begin

text \<open>
  The algebra behind error correction, over a field of characteristic 2 whose elements are 16-bit
  symbols and whose addition is \<open>XOR\<close>. Polynomials are functions from exponents to coefficients.

  The locale \<open>binary_field\<close> is the interface to the symbols. In it: Massey's lemma on the length of a
  recurrence, the invariant of the Berlekamp-Massey iteration, the fact that the iteration ends with
  the locator polynomial when at most half as many symbols are wrong as there are syndromes, and
  Forney's formula for the error values.
\<close>

section \<open>Sums\<close>

primrec xsum :: "(nat \<Rightarrow> u16) \<Rightarrow> nat \<Rightarrow> u16" where
  "xsum f 0 = 0"
| "xsum f (Suc n) = xsum f n XOR f n"

lemma xor_cancel [simp]: "x XOR (x XOR y) = y" for x y :: u16
  by (simp add: xor.assoc [symmetric])

lemma xsum_cong: "(\<And>i. i < n \<Longrightarrow> f i = g i) \<Longrightarrow> xsum f n = xsum g n"
  by (induction n) simp_all

lemma xsum_zero: "(\<And>i. i < n \<Longrightarrow> f i = 0) \<Longrightarrow> xsum f n = 0"
  by (induction n) simp_all

lemma xsum_xor: "xsum (\<lambda>i. f i XOR g i) n = xsum f n XOR xsum g n"
  by (induction n) (simp_all add: ac_simps)

lemma xsum_swap: "xsum (\<lambda>i. xsum (f i) m) n = xsum (\<lambda>j. xsum (\<lambda>i. f i j) n) m"
  by (induction n) (simp_all add: xsum_zero xsum_xor)

lemma xsum_Suc_shift: "xsum f (Suc n) = f 0 XOR xsum (\<lambda>i. f (Suc i)) n"
  by (induction n) (simp_all add: ac_simps)

lemma xsum_extend: "n \<le> m \<Longrightarrow> (\<And>i. n \<le> i \<Longrightarrow> i < m \<Longrightarrow> f i = 0) \<Longrightarrow> xsum f m = xsum f n"
proof (induction m)
  case (Suc m)
  then show ?case by (cases "n = Suc m") auto
qed simp

lemma xsum_rev: "xsum f n = xsum (\<lambda>i. f (n - Suc i)) n"
proof (induction n)
  case (Suc n)
  have "xsum (\<lambda>i. f (Suc n - Suc i)) (Suc n) = f n XOR xsum (\<lambda>i. f (n - Suc i)) n"
    by (simp only: xsum_Suc_shift diff_Suc_Suc diff_zero)
  with Suc show ?case by (simp add: ac_simps)
qed simp

lemma xsum_single: "k < n \<Longrightarrow> (\<And>i. i < n \<Longrightarrow> i \<noteq> k \<Longrightarrow> f i = 0) \<Longrightarrow> xsum f n = f k"
proof (induction n)
  case (Suc n)
  show ?case
  proof (cases "k = n")
    case True
    then have "xsum f n = 0" using Suc.prems by (intro xsum_zero) simp
    then show ?thesis using True by simp
  next
    case False
    then have "xsum f n = f k" "f n = 0" using Suc by auto
    then show ?thesis by simp
  qed
qed simp

text \<open>Neighbours in pairs.\<close>

lemma xsum_pairs: "xsum (\<lambda>i. f (2 * i) XOR f (2 * i + 1)) m = xsum f (2 * m)"
  by (induction m) (simp_all add: ac_simps)

section \<open>Polynomials over the symbols\<close>

text \<open>Multiplication by the variable.\<close>

definition shift_poly :: "(nat \<Rightarrow> u16) \<Rightarrow> nat \<Rightarrow> u16" where
  "shift_poly b j = (case j of 0 \<Rightarrow> 0 | Suc i \<Rightarrow> b i)"

lemma shift_poly_simps [simp]: "shift_poly b 0 = 0" "shift_poly b (Suc i) = b i"
  by (simp_all add: shift_poly_def)

text \<open>\<open>pr\<close> is the product; it cuts its arguments down to the field, so its laws hold for all words.\<close>

locale binary_field =
  fixes fld :: "u16 \<Rightarrow> bool" and pr :: "u16 \<Rightarrow> u16 \<Rightarrow> u16"
  assumes zero_in: "fld 0" and one_in: "fld 1"
    and xor_in: "fld x \<Longrightarrow> fld y \<Longrightarrow> fld (x XOR y)"
    and pr_in: "fld (pr x y)"
    and pr_commute: "pr x y = pr y x"
    and pr_assoc: "pr (pr x y) z = pr x (pr y z)"
    and pr_xor: "pr x (y XOR z) = pr x y XOR pr x z"
    and pr_one: "fld x \<Longrightarrow> pr 1 x = x"
    and pr_inverse: "fld x \<Longrightarrow> x \<noteq> 0 \<Longrightarrow> \<exists>y. fld y \<and> pr x y = 1"

context binary_field begin

lemma pr_left_commute: "pr x (pr y z) = pr y (pr x z)"
  by (metis pr_assoc pr_commute)

lemmas pr_ac = pr_assoc pr_commute pr_left_commute

lemma pr_0 [simp]: "pr x 0 = 0" "pr 0 x = 0"
proof -
  show "pr x 0 = 0" using pr_xor [of x 0 0] by simp
  then show "pr 0 x = 0" by (simp add: pr_commute)
qed

lemma xor_pr: "pr (x XOR y) z = pr x z XOR pr y z"
  by (simp add: pr_xor pr_commute [of _ z])

lemma pr_1 [simp]: "fld x \<Longrightarrow> pr 1 x = x" "fld x \<Longrightarrow> pr x 1 = x"
  by (simp_all add: pr_one pr_commute [of x])

lemma pr_eq_0:
  assumes "fld x" "fld y"
  shows "pr x y = 0 \<longleftrightarrow> x = 0 \<or> y = 0"
proof
  assume z: "pr x y = 0"
  show "x = 0 \<or> y = 0"
  proof (rule ccontr)
    assume n: "\<not> (x = 0 \<or> y = 0)"
    then obtain x' where "pr x x' = 1" using pr_inverse assms by blast
    then have "pr x' (pr x y) = y" using assms by (metis pr_assoc pr_commute pr_1(1))
    then show False using z n by simp
  qed
qed auto

lemma pr_cancel:
  assumes "fld x" "fld y" "fld z" "z \<noteq> 0" "pr x z = pr y z"
  shows "x = y"
proof -
  have "pr (x XOR y) z = 0" using assms(5) by (simp add: xor_pr)
  then have "x XOR y = 0" using assms pr_eq_0 xor_in by blast
  then show ?thesis by (simp add: xor_eq_0_iff)
qed

lemma pr_xsum: "pr c (xsum f n) = xsum (\<lambda>i. pr c (f i)) n"
  by (induction n) (simp_all add: pr_xor)

lemma xsum_in: "(\<And>i. i < n \<Longrightarrow> fld (f i)) \<Longrightarrow> fld (xsum f n)"
  by (induction n) (simp_all add: zero_in xor_in)

primrec pow :: "u16 \<Rightarrow> nat \<Rightarrow> u16" where
  "pow x 0 = 1"
| "pow x (Suc k) = pr x (pow x k)"

lemma pow_in [simp]: "fld (pow x k)"
  by (cases k) (simp_all add: one_in pr_in)

lemma pow_add: "pow x (k + l) = pr (pow x k) (pow x l)"
  by (induction k) (simp_all add: pr_assoc)

lemma pow_1: "fld x \<Longrightarrow> pow x (Suc 0) = x"
  by simp

lemma pow_nonzero: "fld x \<Longrightarrow> x \<noteq> 0 \<Longrightarrow> pow x k \<noteq> 0"
proof (induction k)
  case 0
  have "(1 :: u16) \<noteq> 0" by simp
  then show ?case by simp
next
  case (Suc k)
  then show ?case by (simp add: pr_eq_0)
qed

lemma pow_inverse: "pr x y = 1 \<Longrightarrow> pr (pow x k) (pow y k) = 1"
proof (induction k)
  case 0
  show ?case by (simp add: one_in)
next
  case (Suc k)
  have "pr (pow x (Suc k)) (pow y (Suc k)) = pr (pr x y) (pr (pow x k) (pow y k))"
    by (simp add: pr_ac)
  with Suc show ?case by (simp add: one_in)
qed

lemma pow_inverse_le: "pr x y = 1 \<Longrightarrow> j \<le> k \<Longrightarrow> pr (pow x k) (pow y j) = pow x (k - j)"
  using pow_add [of x "k - j" j] pow_inverse [of x y j] by (simp add: pr_assoc)

text \<open>Values of a polynomial with \<open>n\<close> coefficients, and of the reversed polynomial of degree \<open>n\<close>.\<close>

definition ev :: "(nat \<Rightarrow> u16) \<Rightarrow> nat \<Rightarrow> u16 \<Rightarrow> u16" where
  "ev p n x = xsum (\<lambda>j. pr (p j) (pow x j)) n"

definition hom :: "(nat \<Rightarrow> u16) \<Rightarrow> nat \<Rightarrow> u16 \<Rightarrow> u16" where
  "hom p n x = xsum (\<lambda>j. pr (p j) (pow x (n - j))) (Suc n)"

text \<open>\<open>poly n p\<close>: \<open>p\<close> has coefficients in the field, and at most the first \<open>n\<close> are not zero.\<close>

definition poly :: "nat \<Rightarrow> (nat \<Rightarrow> u16) \<Rightarrow> bool" where
  "poly n p \<longleftrightarrow> (\<forall>j. fld (p j)) \<and> (\<forall>j \<ge> n. p j = 0)"

lemma polyD: "poly n p \<Longrightarrow> fld (p j)" "poly n p \<Longrightarrow> n \<le> j \<Longrightarrow> p j = 0"
  by (simp_all add: poly_def)

lemma poly_mono: "poly n p \<Longrightarrow> n \<le> m \<Longrightarrow> poly m p"
  by (simp add: poly_def)

lemma poly_drop: "poly (Suc n) p \<Longrightarrow> p n = 0 \<Longrightarrow> poly n p"
  unfolding poly_def by (metis Suc_leI le_eq_less_or_eq)

lemma poly_xor: "poly n p \<Longrightarrow> poly n q \<Longrightarrow> poly n (\<lambda>j. p j XOR q j)"
  by (simp add: poly_def xor_in)

lemma poly_scale: "poly n p \<Longrightarrow> poly n (\<lambda>j. pr c (p j))"
  by (simp add: poly_def pr_in)

lemma poly_shift: "poly n p \<Longrightarrow> poly (Suc n) (shift_poly p)"
  by (auto simp: poly_def shift_poly_def zero_in split: nat.splits)

lemma poly_tail: "poly (Suc n) p \<Longrightarrow> poly n (\<lambda>j. p (Suc j))"
  by (simp add: poly_def)

lemma ev_in: "fld (ev p n x)"
  unfolding ev_def by (rule xsum_in) (rule pr_in)

lemma hom_in: "fld (hom p n x)"
  unfolding hom_def by (rule xsum_in) (rule pr_in)

lemma ev_xor: "ev (\<lambda>j. p j XOR q j) n x = ev p n x XOR ev q n x"
  by (simp add: ev_def xor_pr xsum_xor)

lemma hom_xor: "hom (\<lambda>j. p j XOR q j) n x = hom p n x XOR hom q n x"
  by (simp add: hom_def xor_pr xsum_xor del: xsum.simps)

lemma ev_scale: "ev (\<lambda>j. pr c (p j)) n x = pr c (ev p n x)"
  by (simp add: ev_def pr_xsum pr_assoc)

lemma ev_shift: "ev (shift_poly p) (Suc n) x = pr x (ev p n x)"
  by (simp add: ev_def xsum_Suc_shift pr_xsum pr_left_commute del: xsum.simps)

lemma ev_Suc: "ev p (Suc n) x = pr (p 0) 1 XOR pr x (ev (\<lambda>j. p (Suc j)) n x)"
  by (simp add: ev_def xsum_Suc_shift pr_xsum pr_left_commute del: xsum.simps)

lemma ev_extend: "poly n p \<Longrightarrow> n \<le> m \<Longrightarrow> ev p m x = ev p n x"
  unfolding ev_def by (rule xsum_extend) (simp_all add: polyD)

subsection \<open>Zeros\<close>

text \<open>Terms at different places whose first power sums vanish are zero.\<close>

lemma power_sums_zero:
  assumes "\<And>l. l < n \<Longrightarrow> fld (X l)" "inj_on X {..<n}" "\<And>l. l < n \<Longrightarrow> fld (c l)"
    and "\<And>i. i < n \<Longrightarrow> xsum (\<lambda>l. pr (c l) (pow (X l) i)) n = 0"
  shows "l < n \<Longrightarrow> c l = 0"
  using assms
proof (induction n arbitrary: c l)
  case (Suc n)
  let ?d = "\<lambda>l. pr (c l) (X l XOR X n)"
  have d: "?d l = 0" if "l < n" for l
  proof (rule Suc.IH [OF that])
    show "inj_on X {..<n}" using Suc.prems(3) by (auto simp: inj_on_def)
    fix i assume i: "i < n"
    have e: "pr (?d l) (pow (X l) i) = pr (c l) (pow (X l) (Suc i)) XOR pr (X n) (pr (c l) (pow (X l) i))" for l
      by (simp add: xor_pr pr_xor pr_ac)
    have "xsum (\<lambda>l. pr (?d l) (pow (X l) i)) (Suc n) = 0"
      unfolding e xsum_xor pr_xsum [symmetric] using Suc.prems(5) [of i] Suc.prems(5) [of "Suc i"] i by simp
    then show "xsum (\<lambda>l. pr (?d l) (pow (X l) i)) n = 0" by simp
  qed (use Suc.prems pr_in in auto)
  have c: "c l = 0" if "l < n" for l
  proof -
    have "X l \<noteq> X n" using Suc.prems(3) that by (auto simp: inj_on_def)
    then show ?thesis
      using d [OF that] that Suc.prems(2,4) pr_eq_0 [of "c l" "X l XOR X n"] xor_in by (simp add: xor_eq_0_iff)
  qed
  have "xsum (\<lambda>l. pr (c l) (pow (X l) 0)) n = 0" by (rule xsum_zero) (simp add: c)
  with Suc.prems(5) [of 0] Suc.prems(4) [of n] have "c n = 0" by simp
  with c Suc.prems(1) show ?case by (auto simp: less_Suc_eq)
qed simp

text \<open>A linear factor of \<open>p(x) - p(r)\<close>; the quotient has the same leading coefficient.\<close>

lemma split_factor:
  assumes "poly (Suc n) p" "fld r"
  shows "\<exists>q. poly n q \<and> (0 < n \<longrightarrow> q (n - 1) = p n) \<and>
    (\<forall>x. fld x \<longrightarrow> ev p (Suc n) x XOR ev p (Suc n) r = pr (x XOR r) (ev q n x))"
  using assms
proof (induction n arbitrary: p)
  case 0
  then show ?case
    by (intro exI [of _ "\<lambda>_. 0"]) (simp add: ev_def zero_in poly_def)
next
  case (Suc n)
  let ?p = "\<lambda>j. p (Suc j)"
  obtain q where q: "poly n q" "0 < n \<longrightarrow> q (n - 1) = ?p n"
    and f: "\<forall>x. fld x \<longrightarrow> ev ?p (Suc n) x XOR ev ?p (Suc n) r = pr (x XOR r) (ev q n x)"
    using Suc.IH [OF poly_tail [OF Suc.prems(1)] Suc.prems(2)] by blast
  define h where "h j = p (Suc j) XOR pr r (q j)" for j
  have lead: "h (Suc n - 1) = p (Suc n)" using polyD(2) [OF q(1)] by (simp add: h_def)
  have "ev p (Suc (Suc n)) x XOR ev p (Suc (Suc n)) r = pr (x XOR r) (ev h (Suc n) x)" if x: "fld x" for x
  proof -
    have "ev h (Suc n) x = ev ?p (Suc n) x XOR pr r (ev q n x)"
      unfolding h_def ev_xor ev_scale using ev_extend [OF q(1), of "Suc n" x] by simp
    then have "pr (x XOR r) (ev h (Suc n) x) = pr (x XOR r) (ev ?p (Suc n) x) XOR pr r (pr (x XOR r) (ev q n x))"
      by (simp only: pr_xor pr_left_commute [of r])
    also have "pr (x XOR r) (ev ?p (Suc n) x) = pr x (ev ?p (Suc n) x) XOR pr r (ev ?p (Suc n) x)"
      by (rule xor_pr)
    also have "pr (x XOR r) (ev q n x) = ev ?p (Suc n) x XOR ev ?p (Suc n) r"
      using f x by simp
    finally show ?thesis unfolding ev_Suc [of p "Suc n"] by (simp add: pr_xor ac_simps)
  qed
  moreover have "poly (Suc n) h"
    unfolding h_def using poly_xor [OF poly_tail [OF Suc.prems(1)] poly_scale [OF poly_mono [OF q(1), of "Suc n"], of r]] by simp
  ultimately show ?case using lead by blast
qed

text \<open>A polynomial with \<open>n\<close> coefficients and \<open>n\<close> roots is zero.\<close>

lemma many_roots_zero:
  assumes "poly n p" "\<And>l. l < n \<Longrightarrow> fld (x l)" "inj_on x {..<n}" "\<And>l. l < n \<Longrightarrow> ev p n (x l) = 0"
  shows "p j = 0"
  using assms
proof (induction n arbitrary: p j)
  case 0
  then show ?case by (simp add: poly_def)
next
  case (Suc n)
  have root: "ev p (Suc n) (x n) = 0" and xn: "fld (x n)" using Suc.prems(2,4) by simp_all
  obtain q where q: "poly n q" "0 < n \<longrightarrow> q (n - 1) = p n"
    and f: "\<forall>y. fld y \<longrightarrow> ev p (Suc n) y XOR ev p (Suc n) (x n) = pr (y XOR x n) (ev q n y)"
    using split_factor [OF Suc.prems(1) xn] by blast
  have inj: "inj_on x {..<n}" using Suc.prems(3) by (auto simp: inj_on_def)
  have "q j = 0" for j
  proof (rule Suc.IH [OF q(1) _ inj])
    fix l assume l: "l < n"
    then have "x l \<noteq> x n" using Suc.prems(3) by (auto simp: inj_on_def)
    moreover have "pr (x l XOR x n) (ev q n (x l)) = 0"
      using f [THEN spec, of "x l"] Suc.prems(2,4) [of l] l root by simp
    ultimately show "ev q n (x l) = 0"
      using pr_eq_0 [OF xor_in ev_in, of "x l" "x n"] Suc.prems(2) l by (simp add: xor_eq_0_iff)
  qed (use Suc.prems in auto)
  then have "n = 0 \<or> p n = 0" using q(2) by (cases n) auto
  moreover have "p n = 0" if "n = 0"
    using root that polyD(1) [OF Suc.prems(1)] by (simp add: ev_def)
  ultimately have n: "p n = 0" by blast
  show ?case
    by (rule Suc.IH [OF poly_drop [OF Suc.prems(1) n] _ inj]) (use Suc.prems(2,4) n in \<open>simp_all add: ev_def\<close>)
qed

section \<open>Recurrences\<close>

text \<open>The coefficient of \<open>x^r\<close> in the product of \<open>p\<close> and the series \<open>S\<close>.\<close>

definition disc :: "(nat \<Rightarrow> u16) \<Rightarrow> (nat \<Rightarrow> u16) \<Rightarrow> nat \<Rightarrow> u16" where
  "disc p S r = xsum (\<lambda>j. pr (p j) (S (r - j))) (Suc r)"

lemma disc_in: "fld (disc p S r)"
  unfolding disc_def by (rule xsum_in) (rule pr_in)

lemma disc_short: "poly (Suc n) p \<Longrightarrow> n \<le> r \<Longrightarrow> disc p S r = xsum (\<lambda>j. pr (p j) (S (r - j))) (Suc n)"
  unfolding disc_def by (rule xsum_extend) (simp_all add: polyD)

lemma disc_xor: "disc (\<lambda>j. p j XOR q j) S r = disc p S r XOR disc q S r"
  unfolding disc_def xor_pr xsum_xor ..

lemma disc_scale: "disc (\<lambda>j. pr c (p j)) S r = pr c (disc p S r)"
  unfolding disc_def pr_xsum pr_assoc ..

lemma disc_shift: "disc (shift_poly p) S 0 = 0" "disc (shift_poly p) S (Suc r) = disc p S r"
  unfolding disc_def by (simp, simp only: xsum_Suc_shift [of _ "Suc r"] shift_poly_simps pr_0 xor.left_neutral diff_Suc_Suc)

text \<open>
  Massey's lemma: when recurrences of the lengths \<open>L\<close> and \<open>K\<close> agree with \<open>S\<close> up to \<open>r\<close>, and the second
  also at \<open>r\<close>, then so does the first, if both together are not longer than \<open>r\<close>.
\<close>

lemma massey:
  assumes p: "poly (Suc L) p" and q: "poly (Suc K) q" "q 0 = 1" and len: "K + L \<le> r"
    and "\<And>i. L \<le> i \<Longrightarrow> i < r \<Longrightarrow> disc p S i = 0" and "\<And>i. K \<le> i \<Longrightarrow> i \<le> r \<Longrightarrow> disc q S i = 0"
  shows "disc p S r = 0"
proof -
  let ?t = "\<lambda>j k. pr (p j) (pr (q k) (S (r - j - k)))"
  have "xsum (\<lambda>j. xsum (?t j) (Suc K)) (Suc L) = 0"
  proof (rule xsum_zero)
    fix j assume "j < Suc L"
    then have "K \<le> r - j" using len by simp
    then have "xsum (\<lambda>k. pr (q k) (S (r - j - k))) (Suc K) = 0"
      using disc_short [OF q(1), of "r - j" S] assms(6) [of "r - j"] by simp
    then show "xsum (?t j) (Suc K) = 0" unfolding pr_xsum [symmetric] by simp
  qed
  moreover have "xsum (\<lambda>j. xsum (?t j) (Suc K)) (Suc L) = disc p S r"
  proof -
    have "xsum (\<lambda>j. ?t j k) (Suc L) = pr (q k) (disc p S (r - k))" if "k < Suc K" for k
    proof -
      have "L \<le> r - k" using that len by simp
      moreover have "r - j - k = r - k - j" for j by simp
      ultimately show ?thesis
        using disc_short [OF p, of "r - k" S] by (simp only: pr_left_commute [of _ "q k"] pr_xsum)
    qed
    then have "xsum (\<lambda>k. xsum (\<lambda>j. ?t j k) (Suc L)) (Suc K) = xsum (\<lambda>k. pr (q k) (disc p S (r - k))) (Suc K)"
      by (rule xsum_cong)
    also have "\<dots> = pr (q 0) (disc p S (r - 0))"
    proof (rule xsum_single)
      fix k assume "k < Suc K" "k \<noteq> 0"
      then have "disc p S (r - k) = 0" using len by (intro assms(5)) auto
      then show "pr (q k) (disc p S (r - k)) = 0" by simp
    qed simp
    finally show ?thesis unfolding xsum_swap [of ?t] using q(2) disc_in by simp
  qed
  ultimately show ?thesis by simp
qed

subsection \<open>The Berlekamp-Massey iteration\<close>

text \<open>
  After \<open>r\<close> symbols: \<open>p\<close> generates them with length \<open>L\<close>, and \<open>b\<close> is the polynomial before the last change
  of length, scaled to have discrepancy 1 and multiplied by the variable since.
\<close>

definition bm_inv :: "(nat \<Rightarrow> u16) \<Rightarrow> nat \<Rightarrow> (nat \<Rightarrow> u16) \<Rightarrow> (nat \<Rightarrow> u16) \<Rightarrow> nat \<Rightarrow> bool" where
  "bm_inv S r p b L \<longleftrightarrow> p 0 = 1 \<and> L \<le> r \<and> poly (Suc L) p \<and> poly (Suc (r - L)) b \<and>
     (\<forall>i. L \<le> i \<and> i < r \<longrightarrow> disc p S i = 0) \<and>
     (0 < L \<longrightarrow> disc b S (r - 1) = 1 \<and> (\<forall>i. r - L \<le> i \<and> i < r - 1 \<longrightarrow> disc b S i = 0))"

definition one_poly :: "nat \<Rightarrow> u16" where
  "one_poly j = (if j = 0 then 1 else 0)"

lemma poly_one: "poly (Suc 0) one_poly"
  by (auto simp: poly_def one_poly_def zero_in one_in)

lemma bm_inv_start: "bm_inv S 0 one_poly one_poly 0"
  using poly_one by (simp add: bm_inv_def one_poly_def)

lemma bm_inv_shift:
  assumes inv: "bm_inv S r p b L" and "disc q S r = 0" "q 0 = 1" "poly (Suc L) q"
    "\<And>i. L \<le> i \<Longrightarrow> i < r \<Longrightarrow> disc q S i = 0"
  shows "bm_inv S (Suc r) q (shift_poly b) L"
proof -
  have L: "L \<le> r" and b: "poly (Suc (r - L)) b"
    and d: "0 < L \<Longrightarrow> disc b S (r - 1) = 1" "\<And>i. 0 < L \<Longrightarrow> r - L \<le> i \<Longrightarrow> i < r - 1 \<Longrightarrow> disc b S i = 0"
    using inv by (simp_all add: bm_inv_def)
  have "disc (shift_poly b) S r = 1" if "0 < L"
    using d(1) [OF that] that L by (cases r) (simp_all add: disc_shift)
  moreover have "disc (shift_poly b) S i = 0" if "0 < L" "Suc r - L \<le> i" "i < r" for i
    using d(2) [OF that(1), of "i - 1"] that L by (cases i) (auto simp: disc_shift)
  moreover have "disc q S i = 0" if "L \<le> i" "i < Suc r" for i
    using assms(2,5) that by (cases "i = r") auto
  moreover have "poly (Suc (Suc r - L)) (shift_poly b)"
    using poly_shift [OF b] L by (simp add: Suc_diff_le)
  ultimately show ?thesis using assms(3,4) L by (simp add: bm_inv_def)
qed

lemma bm_inv_step:
  assumes inv: "bm_inv S r p b L" and d: "d = disc p S r" "d \<noteq> 0" "pr d d' = 1"
    and q: "\<And>j. q j = p j XOR pr d (shift_poly b j)"
  shows "if 2 * L \<le> r then bm_inv S (Suc r) q (\<lambda>j. pr d' (p j)) (Suc r - L)
    else bm_inv S (Suc r) q (shift_poly b) L"
proof -
  have L: "L \<le> r" and b: "poly (Suc (r - L)) b" and p: "p 0 = 1" "poly (Suc L) p"
    and pd: "\<And>i. L \<le> i \<Longrightarrow> i < r \<Longrightarrow> disc p S i = 0"
    and bd: "0 < L \<Longrightarrow> disc b S (r - 1) = 1" "\<And>i. 0 < L \<Longrightarrow> r - L \<le> i \<Longrightarrow> i < r - 1 \<Longrightarrow> disc b S i = 0"
    using inv by (simp_all add: bm_inv_def)
  have qq: "q = (\<lambda>j. p j XOR pr d (shift_poly b j))" using q by (rule ext)
  have qd: "disc q S i = disc p S i XOR pr d (disc (shift_poly b) S i)" for i
    unfolding qq disc_xor disc_scale ..
  have d1: "pr d 1 = d" using d(1) disc_in by simp
  have q0: "q 0 = 1" using p(1) by (simp add: q)
  have zero: "disc q S i = 0" if "0 < L" "max L (Suc r - L) \<le> i" "i \<le> r" for i
  proof (cases "i = r")
    case True
    then have "disc (shift_poly b) S i = 1" using bd(1) [OF that(1)] that L by (cases r) (simp_all add: disc_shift)
    then show ?thesis using True d(1) d1 by (simp add: qd)
  next
    case False
    then have "disc (shift_poly b) S i = 0" using bd(2) [OF that(1), of "i - 1"] that by (cases i) (auto simp: disc_shift)
    moreover have "disc p S i = 0" using pd [of i] False that by simp
    ultimately show ?thesis by (simp add: qd)
  qed
  have sb: "poly (Suc (Suc (r - L))) (\<lambda>j. pr d (shift_poly b j))" by (rule poly_scale [OF poly_shift [OF b]])
  show ?thesis
  proof (split if_split, intro conjI impI)
    assume short: "2 * L \<le> r"
    have "poly (Suc (Suc r - L)) q"
      unfolding qq by (rule poly_xor [OF poly_mono [OF p(2)] poly_mono [OF sb]]) (use short in auto)
    moreover have "disc q S i = 0" if "Suc r - L \<le> i" "i < Suc r" for i
      using zero [of i] that short by (cases "L = 0") auto
    moreover have "disc (\<lambda>j. pr d' (p j)) S r = 1" "\<And>i. L \<le> i \<Longrightarrow> i < r \<Longrightarrow> disc (\<lambda>j. pr d' (p j)) S i = 0"
      using d(1,3) pd by (simp_all add: disc_scale pr_commute)
    moreover have "poly (Suc L) (\<lambda>j. pr d' (p j))" by (rule poly_scale [OF p(2)])
    ultimately show "bm_inv S (Suc r) q (\<lambda>j. pr d' (p j)) (Suc r - L)"
      using q0 L by (simp add: bm_inv_def)
  next
    assume long: "\<not> 2 * L \<le> r"
    then have pos: "0 < L" by simp
    have "poly (Suc L) q"
      unfolding qq by (rule poly_xor [OF p(2) poly_mono [OF sb]]) (use long in auto)
    moreover have "disc q S i = 0" if "L \<le> i" "i \<le> r" for i
      using zero [OF pos, of i] that long by auto
    ultimately show "bm_inv S (Suc r) q (shift_poly b) L"
      using q0 L by (intro bm_inv_shift [OF inv]) simp_all
  qed
qed

section \<open>The locator polynomial\<close>

text \<open>
  \<open>X l\<close> are the places of the errors and \<open>Z l\<close> their values, weighted; the syndromes are power sums.
\<close>

definition errors :: "nat \<Rightarrow> (nat \<Rightarrow> u16) \<Rightarrow> (nat \<Rightarrow> u16) \<Rightarrow> bool" where
  "errors n X Z \<longleftrightarrow> inj_on X {..<n} \<and> (\<forall>l < n. fld (X l) \<and> X l \<noteq> 0 \<and> fld (Z l) \<and> Z l \<noteq> 0)"

lemma errorsD:
  assumes "errors n X Z"
  shows "inj_on X {..<n}" "l < n \<Longrightarrow> fld (X l)" "l < n \<Longrightarrow> X l \<noteq> 0" "l < n \<Longrightarrow> fld (Z l)" "l < n \<Longrightarrow> Z l \<noteq> 0"
  using assms by (auto simp: errors_def)

definition power_sum :: "nat \<Rightarrow> (nat \<Rightarrow> u16) \<Rightarrow> (nat \<Rightarrow> u16) \<Rightarrow> nat \<Rightarrow> u16" where
  "power_sum n X Z i = xsum (\<lambda>l. pr (Z l) (pow (X l) i)) n"

primrec locator :: "(nat \<Rightarrow> u16) \<Rightarrow> nat \<Rightarrow> nat \<Rightarrow> u16" where
  "locator X 0 = one_poly"
| "locator X (Suc n) = (\<lambda>j. locator X n j XOR pr (X n) (shift_poly (locator X n) j))"

lemma poly_locator: "poly (Suc n) (locator X n)"
proof (induction n)
  case (Suc n)
  show ?case
    unfolding locator.simps by (rule poly_xor [OF poly_mono [OF Suc] poly_scale [OF poly_shift [OF Suc]]]) simp
qed (simp add: poly_one)

lemma locator_0: "locator X n 0 = 1"
  by (induction n) (simp_all add: one_poly_def)

lemma ev_one: "ev one_poly (Suc 0) x = 1"
  by (simp add: ev_def one_poly_def one_in)

lemma ev_locator: "ev (locator X (Suc n)) (Suc (Suc n)) x = pr (1 XOR pr (X n) x) (ev (locator X n) (Suc n) x)"
  unfolding locator.simps ev_xor ev_scale ev_shift
  using ev_extend [OF poly_locator, of n "Suc (Suc n)" X x] ev_in [of "locator X n" "Suc n" x]
  by (simp add: xor_pr pr_assoc)

lemma locator_root:
  "ev (locator X n) (Suc n) x = 0 \<longleftrightarrow> (\<exists>l < n. pr (X l) x = 1)"
proof (induction n)
  case 0
  show ?case by (simp add: ev_one)
next
  case (Suc n)
  have "fld (1 XOR pr (X n) x)" by (rule xor_in [OF one_in pr_in])
  then have "ev (locator X (Suc n)) (Suc (Suc n)) x = 0 \<longleftrightarrow> 1 XOR pr (X n) x = 0 \<or> ev (locator X n) (Suc n) x = 0"
    unfolding ev_locator by (simp add: pr_eq_0 ev_in)
  then show ?case using Suc by (auto simp: xor_eq_0_iff less_Suc_eq)
qed

lemma hom_shift: "hom (shift_poly p) (Suc n) x = hom p n x"
  by (simp add: hom_def xsum_Suc_shift [of _ "Suc n"] del: xsum.simps)

lemma hom_step:
  assumes "poly (Suc n) p"
  shows "hom p (Suc n) x = pr x (hom p n x)"
proof -
  have "hom p (Suc n) x = xsum (\<lambda>j. pr (p j) (pow x (Suc n - j))) (Suc n)"
    using polyD(2) [OF assms, of "Suc n"] unfolding hom_def xsum.simps(2) [of _ "Suc n"] by simp
  also have "\<dots> = xsum (\<lambda>j. pr x (pr (p j) (pow x (n - j)))) (Suc n)"
    by (rule xsum_cong) (simp add: Suc_diff_le pr_left_commute)
  finally show ?thesis by (simp only: hom_def pr_xsum)
qed

lemma hom_locator: "hom (locator X (Suc n)) (Suc n) x = pr (x XOR X n) (hom (locator X n) n x)"
proof -
  have scale: "hom (\<lambda>j. pr c (p j)) m x = pr c (hom p m x)" for c p m
    by (simp only: hom_def pr_xsum pr_assoc)
  show ?thesis
    unfolding locator.simps hom_xor hom_step [OF poly_locator] scale hom_shift xor_pr ..
qed

lemma hom_locator_root: "l < n \<Longrightarrow> hom (locator X n) n (X l) = 0"
proof (induction n)
  case (Suc n)
  then show ?case unfolding hom_locator by (cases "l = n") simp_all
qed simp

lemma locator_lead:
  assumes "\<And>l. l < n \<Longrightarrow> fld (X l) \<and> X l \<noteq> 0"
  shows "locator X n n \<noteq> 0"
  using assms
proof (induction n)
  case (Suc n)
  then have "pr (X n) (locator X n n) \<noteq> 0"
    using pr_eq_0 polyD(1) [OF poly_locator] by auto
  moreover have "locator X n (Suc n) = 0" using polyD(2) [OF poly_locator] by simp
  ultimately show ?case by simp
qed (simp add: one_poly_def)

text \<open>How a recurrence acts on power sums.\<close>

lemma disc_power_sum:
  assumes "poly (Suc n) p" "n \<le> i"
  shows "disc p (power_sum m X Z) i = xsum (\<lambda>l. pr (pr (Z l) (hom p n (X l))) (pow (X l) (i - n))) m"
proof -
  have "disc p (power_sum m X Z) i = xsum (\<lambda>j. xsum (\<lambda>l. pr (p j) (pr (Z l) (pow (X l) (i - j)))) m) (Suc n)"
    unfolding disc_short [OF assms] power_sum_def pr_xsum ..
  also have "\<dots> = xsum (\<lambda>l. xsum (\<lambda>j. pr (p j) (pr (Z l) (pow (X l) (i - j)))) (Suc n)) m"
    by (rule xsum_swap)
  also have "\<dots> = xsum (\<lambda>l. pr (pr (Z l) (hom p n (X l))) (pow (X l) (i - n))) m"
  proof (rule xsum_cong)
    fix l
    have "xsum (\<lambda>j. pr (p j) (pr (Z l) (pow (X l) (i - j)))) (Suc n) =
        xsum (\<lambda>j. pr (pr (Z l) (pow (X l) (i - n))) (pr (p j) (pow (X l) (n - j)))) (Suc n)"
    proof (rule xsum_cong)
      fix j assume "j < Suc n"
      then have "pow (X l) (i - j) = pr (pow (X l) (i - n)) (pow (X l) (n - j))"
        using assms(2) pow_add [of "X l" "i - n" "n - j"] by simp
      then show "pr (p j) (pr (Z l) (pow (X l) (i - j))) = pr (pr (Z l) (pow (X l) (i - n))) (pr (p j) (pow (X l) (n - j)))"
        by (simp only: pr_ac)
    qed
    then show "xsum (\<lambda>j. pr (p j) (pr (Z l) (pow (X l) (i - j)))) (Suc n) = pr (pr (Z l) (hom p n (X l))) (pow (X l) (i - n))"
      unfolding hom_def pr_xsum [symmetric] by (simp only: pr_ac)
  qed
  finally show ?thesis .
qed

lemma disc_locator: "n \<le> i \<Longrightarrow> disc (locator X n) (power_sum n X Z) i = 0"
  unfolding disc_power_sum [OF poly_locator] by (rule xsum_zero) (simp add: hom_locator_root)

text \<open>The iteration never gets longer than the number of errors.\<close>

lemma bm_length:
  assumes inv: "bm_inv (power_sum n X Z) r p b L" and "disc p (power_sum n X Z) r \<noteq> 0"
  shows "r < n + L"
proof (rule ccontr)
  assume "\<not> r < n + L"
  then have len: "n + L \<le> r" by simp
  have "disc p (power_sum n X Z) r = 0"
    by (rule massey [where q = "locator X n" and K = n and L = L])
      (use inv len in \<open>simp_all add: bm_inv_def disc_locator poly_locator locator_0\<close>)
  with assms(2) show False by simp
qed

text \<open>When it has seen twice as many symbols as there are errors, it has the locator.\<close>

lemma locator_unique:
  assumes err: "errors n X Z" and p: "poly (Suc n) p" "p 0 = 1" and roots: "\<And>l. l < n \<Longrightarrow> hom p n (X l) = 0"
  shows "p = locator X n"
proof
  fix j
  define e where "e j = p j XOR locator X n j" for j
  define f where "f i = (if i < n then e (n - i) else 0)" for i
  have e: "poly (Suc n) e" unfolding e_def by (rule poly_xor [OF p(1) poly_locator])
  have e0: "e 0 = 0" using p(2) by (simp add: e_def locator_0)
  have "f i = 0" for i
  proof (rule many_roots_zero [of n f X])
    show "poly n f" using polyD(1) [OF e] zero_in by (simp add: poly_def f_def)
    fix l assume l: "l < n"
    have "hom e n (X l) = 0"
      unfolding e_def hom_xor using roots [OF l] hom_locator_root [OF l] by simp
    then have "xsum (\<lambda>j. pr (e (Suc j)) (pow (X l) (n - Suc j))) n = 0"
      unfolding hom_def xsum_Suc_shift using e0 by simp
    moreover have "ev f n (X l) = xsum (\<lambda>j. pr (e (Suc j)) (pow (X l) (n - Suc j))) n"
      unfolding ev_def by (subst xsum_rev) (rule xsum_cong, simp add: f_def)
    ultimately show "ev f n (X l) = 0" by simp
  qed (use errorsD [OF err] in simp_all)
  then have "e j = 0" if "0 < j" "j \<le> n" for j
    using that by (metis diff_diff_cancel diff_less f_def less_le_trans)
  moreover have "e j = 0" if "n < j" using polyD(2) [OF e] that by simp
  ultimately have "e j = 0" using e0 by (cases "j = 0 \<or> n < j") auto
  then show "p j = locator X n j" by (simp add: e_def xor_eq_0_iff)
qed

lemma bm_locator:
  assumes err: "errors n X Z" and inv: "bm_inv (power_sum n X Z) N p b L" and "L \<le> n" "2 * n \<le> N"
  shows "p = locator X n"
proof -
  have p: "poly (Suc n) p" "p 0 = 1"
    using inv assms(3) poly_mono [of "Suc L" p "Suc n"] by (auto simp: bm_inv_def)
  show ?thesis
  proof (rule locator_unique [OF err p])
    fix l assume l: "l < n"
    have "pr (Z l) (hom p n (X l)) = 0"
    proof (rule power_sums_zero [OF _ _ _ _ l])
      fix i assume i: "i < n"
      have "disc p (power_sum n X Z) (n + i) = 0"
        using inv i assms(3,4) by (simp add: bm_inv_def)
      then show "xsum (\<lambda>l. pr (pr (Z l) (hom p n (X l))) (pow (X l) i)) n = 0"
        unfolding disc_power_sum [OF p(1) le_add1] by simp
    qed (use errorsD [OF err] pr_in in auto)
    then show "hom p n (X l) = 0" using errorsD(4,5) [OF err l] pr_eq_0 hom_in by auto
  qed
qed

section \<open>The error values\<close>

text \<open>\<open>1 - X x\<close> divides the locator; the quotient is given by Horner's rule.\<close>

primrec quot :: "(nat \<Rightarrow> u16) \<Rightarrow> u16 \<Rightarrow> nat \<Rightarrow> u16" where
  "quot p a 0 = p 0"
| "quot p a (Suc i) = p (Suc i) XOR pr a (quot p a i)"

lemma quot_eq: "(\<And>j. fld (p j)) \<Longrightarrow> quot p a i = hom p i a"
proof (induction i)
  case (Suc i)
  have "hom p (Suc i) a = xsum (\<lambda>j. pr a (pr (p j) (pow a (i - j)))) (Suc i) XOR p (Suc i)"
    unfolding hom_def xsum.simps(2) [of _ "Suc i"]
    by (intro arg_cong2 [where f = "(XOR)"] xsum_cong) (simp_all add: Suc_diff_le pr_left_commute Suc.prems)
  also have "\<dots> = pr a (hom p i a) XOR p (Suc i)" by (simp only: hom_def pr_xsum)
  finally show ?case using Suc by (simp add: ac_simps)
qed (simp add: hom_def)

lemma quot_product:
  assumes p: "poly (Suc n) p" and root: "hom p n a = 0"
  shows "poly n (quot p a)" "ev p (Suc n) x = pr (1 XOR pr a x) (ev (quot p a) n x)"
proof -
  have zero: "quot p a (n + k) = 0" for k
    by (induction k) (use root quot_eq [of p a n] polyD [OF p] in \<open>simp_all\<close>)
  show q: "poly n (quot p a)"
    unfolding poly_def using zero quot_eq [of p a, OF polyD(1) [OF p]] hom_in by (metis le_iff_add)
  have "p = (\<lambda>j. quot p a j XOR pr a (shift_poly (quot p a) j))"
    by (rule ext, rename_tac j, case_tac j) (simp_all add: xor.assoc)
  then have "ev p (Suc n) x = ev (quot p a) (Suc n) x XOR pr a (ev (shift_poly (quot p a)) (Suc n) x)"
    by (metis ev_xor ev_scale)
  then show "ev p (Suc n) x = pr (1 XOR pr a x) (ev (quot p a) n x)"
    unfolding ev_shift using ev_extend [OF q, of "Suc n" x] ev_in by (simp add: xor_pr pr_assoc)
qed

text \<open>
  Forney: at the inverse of the place of error \<open>l\<close>, the polynomial of the first coefficients of
  locator times syndromes has the value \<open>Z l * w\<close>, and the derivative of the locator \<open>X l * w\<close>.
\<close>

lemma forney:
  assumes err: "errors n X Z" and l: "l < n" and x: "fld x" "pr (X l) x = 1" and m: "n \<le> 2 * m"
  shows "\<exists>w. fld w \<and> w \<noteq> 0 \<and> ev (disc (locator X n) (power_sum n X Z)) n x = pr (Z l) w \<and>
    xsum (\<lambda>i. pr (locator X n (2 * i + 1)) (pow x (2 * i))) m = pr (X l) w"
proof -
  let ?p = "locator X n" and ?w = "\<lambda>k. ev (quot (locator X n) (X k)) n x"
  note pin = polyD(1) [OF poly_locator [of n X]]
  have prod: "poly n (quot ?p (X k))" "ev ?p (Suc n) y = pr (1 XOR pr (X k) y) (ev (quot ?p (X k)) n y)" if "k < n" for k y
    using quot_product [OF poly_locator hom_locator_root [OF that]] by simp_all
  have other: "ev (quot ?p (X k)) n y = 0" if "k < n" "j < n" "k \<noteq> j" "fld y" "pr (X j) y = 1" for k j y
  proof -
    have "ev ?p (Suc n) y = 0" using that locator_root by blast
    moreover have "1 XOR pr (X k) y \<noteq> 0"
    proof
      assume "1 XOR pr (X k) y = 0"
      then have "pr (X k) y = pr (X j) y" using that by (simp add: xor_eq_0_iff)
      moreover have "y \<noteq> 0" using that by auto
      ultimately have "X k = X j" using pr_cancel errorsD(2) [OF err] that by blast
      then show False using errorsD(1) [OF err] that by (auto simp: inj_on_def)
    qed
    ultimately show ?thesis using prod(2) [OF that(1), of y] pr_eq_0 xor_in one_in pr_in ev_in by metis
  qed
  have "?w l \<noteq> 0"
  proof
    assume z: "?w l = 0"
    have "\<exists>y. fld y \<and> pr (X k) y = 1" if "k < n" for k
      using pr_inverse errorsD(2,3) [OF err that] by blast
    then obtain y where y: "\<And>k. k < n \<Longrightarrow> fld (y k) \<and> pr (X k) (y k) = 1" by metis
    have "quot ?p (X l) 0 = 0"
    proof (rule many_roots_zero [of n _ y])
      show "poly n (quot ?p (X l))" by (rule prod(1) [OF l])
      show "inj_on y {..<n}"
      proof (rule inj_onI)
        fix j k assume "j \<in> {..<n}" "k \<in> {..<n}" "y j = y k"
        then have "pr (X j) (y j) = pr (X k) (y j)" "y j \<noteq> 0" using y [of j] y [of k] by auto
        then have "X j = X k" using pr_cancel errorsD(2) [OF err] y \<open>j \<in> _\<close> \<open>k \<in> _\<close> by blast
        then show "j = k" using errorsD(1) [OF err] \<open>j \<in> _\<close> \<open>k \<in> _\<close> by (auto simp: inj_on_def)
      qed
      fix k assume k: "k < n"
      show "ev (quot ?p (X l)) n (y k) = 0"
      proof (cases "k = l")
        case True
        have "x \<noteq> 0" using x by auto
        have "pr x (X l) = pr (y l) (X l)" using x(2) y [OF l] by (simp add: pr_commute)
        then have "y l = x" using pr_cancel x(1) y [OF l] errorsD(2,3) [OF err l] by metis
        then show ?thesis using True z by simp
      qed (use other [OF l k] y [OF k] in auto)
    qed (use y in auto)
    then show False by (simp add: locator_0)
  qed
  moreover have "ev (disc ?p (power_sum n X Z)) n x = pr (Z l) (?w l)"
  proof -
    have "disc ?p (power_sum n X Z) i = xsum (\<lambda>k. pr (Z k) (quot ?p (X k) i)) n" for i
    proof -
      have "disc ?p (power_sum n X Z) i = xsum (\<lambda>j. xsum (\<lambda>k. pr (Z k) (pr (?p j) (pow (X k) (i - j)))) n) (Suc i)"
        by (simp only: disc_def power_sum_def pr_xsum pr_left_commute [of "?p _"])
      also have "\<dots> = xsum (\<lambda>k. xsum (\<lambda>j. pr (Z k) (pr (?p j) (pow (X k) (i - j)))) (Suc i)) n"
        by (rule xsum_swap)
      also have "\<dots> = xsum (\<lambda>k. pr (Z k) (hom ?p i (X k))) n"
        by (simp only: hom_def pr_xsum)
      finally show ?thesis using quot_eq [of ?p, OF pin] by simp
    qed
    then have "ev (disc ?p (power_sum n X Z)) n x = xsum (\<lambda>i. xsum (\<lambda>k. pr (Z k) (pr (quot ?p (X k) i) (pow x i))) n) n"
      by (simp only: ev_def pr_commute [of "xsum _ _"] pr_xsum pr_left_commute [of "pow x _"])
        (simp only: pr_commute [of "pow x _"])
    also have "\<dots> = xsum (\<lambda>k. xsum (\<lambda>i. pr (Z k) (pr (quot ?p (X k) i) (pow x i))) n) n"
      by (rule xsum_swap)
    also have "\<dots> = xsum (\<lambda>k. pr (Z k) (?w k)) n"
      by (simp only: ev_def pr_xsum)
    also have "\<dots> = pr (Z l) (?w l)"
      by (rule xsum_single [OF l]) (use other l x in simp)
    finally show ?thesis .
  qed
  moreover have "xsum (\<lambda>i. pr (?p (2 * i + 1)) (pow x (2 * i))) m = pr (X l) (?w l)"
  proof -
    let ?q = "quot ?p (X l)" and ?t = "\<lambda>i. pr (quot ?p (X l) i) (pow x i)"
    have "pr (?p (2 * i + 1)) (pow x (2 * i)) = pr (X l) (?t (2 * i) XOR ?t (2 * i + 1))" for i
    proof -
      have "?p (2 * i + 1) = ?q (2 * i + 1) XOR pr (X l) (?q (2 * i))" by (simp add: xor.assoc)
      moreover have up: "pr (?q (2 * i + 1)) (pow x (2 * i)) = pr (X l) (?t (2 * i + 1))"
      proof -
        have "pr (X l) (?t (2 * i + 1)) = pr (pr (X l) x) (pr (?q (2 * i + 1)) (pow x (2 * i)))"
          by (simp add: pr_ac)
        then show ?thesis using x(2) pr_in by simp
      qed
      ultimately show ?thesis unfolding pr_xor up [symmetric] by (simp only: xor_pr pr_assoc xor.commute)
    qed
    then have "xsum (\<lambda>i. pr (?p (2 * i + 1)) (pow x (2 * i))) m = pr (X l) (xsum ?t (2 * m))"
      unfolding pr_xsum [symmetric] xsum_pairs [of ?t, symmetric] by (simp only: pr_xsum)
    also have "xsum ?t (2 * m) = ?w l"
      unfolding ev_def [symmetric] by (rule ev_extend [OF prod(1) [OF l] m])
    finally show ?thesis .
  qed
  ultimately show ?thesis using ev_in by blast
qed

end

end
