(* ===== verification/Rs_Locate.thy ===== *)
theory Rs_Locate imports Rs_Decode Rs_Algebra begin

text \<open>
  The Berlekamp-Massey phase of \<open>decode_rs8\<close> computes what the algebra says: each loop of
  \<open>decode_rs.h\<close> is the corresponding operation on polynomials, so that the phase ends with the locator
  polynomial of the errors, in index form, and its degree, the number of errors.

  The locale \<open>rs_code\<close> is a control structure as \<open>rs_init\<close> builds it; its field has the product that
  \<open>binary_field\<close> asks for.
\<close>

section \<open>The product of two symbols\<close>

text \<open>\<open>cut\<close> is a projection of the words to the symbols.\<close>

locale log_field_cut = log_field +
  fixes cut :: "u16 \<Rightarrow> u16"
  assumes cut_in: "fld (cut x)" and cut_id: "fld x \<Longrightarrow> cut x = x" and cut_xor: "cut (x XOR y) = cut x XOR cut y"

context log_field_cut begin

definition times :: "u16 \<Rightarrow> u16 \<Rightarrow> u16" where
  "times x y = (if cut y = 0 then 0 else mul (lg (cut y)) (cut x))"

lemma elem_power: "fld x \<Longrightarrow> x = 0 \<or> (\<exists>k < n. x = mul k 1)"
  using mul_lg [of x] lg_mul [of "lg x"] mul_mod [OF one_in, of "lg x"] n_pos by (metis mod_less_divisor)

lemma times_power: "fld x \<Longrightarrow> times x (mul k 1) = mul k x"
proof -
  assume x: "fld x"
  have "mul k 1 \<noteq> 0" using mul_eq_0 [OF one_in, of k] by simp
  then show ?thesis
    using x by (simp add: times_def cut_id [OF mul_in [OF one_in]] cut_id [OF x] lg_mul mul_mod)
qed

lemma times_zero: "times x 0 = 0" "times 0 x = 0"
  using cut_id [OF zero_in] by (simp_all add: times_def mul_zero)

lemma times_cut: "times (cut x) y = times x y" "times x (cut y) = times x y"
  using cut_id [OF cut_in] by (simp_all add: times_def)

lemma times_in: "fld (times x y)"
  by (simp add: times_def zero_in mul_in cut_in)

lemma times_commute_in: "fld x \<Longrightarrow> fld y \<Longrightarrow> times x y = times y x"
  using elem_power [of x] elem_power [of y]
  by (auto simp: times_zero times_power mul_in one_in mul_mul add.commute)

lemma times_commute: "times x y = times y x"
  using times_commute_in [OF cut_in cut_in] times_cut by metis

lemma times_assoc_in: "fld x \<Longrightarrow> fld y \<Longrightarrow> fld z \<Longrightarrow> times (times x y) z = times x (times y z)"
  using elem_power [of z] elem_power [of y]
  by (auto simp: times_zero times_power mul_in one_in mul_mul)

lemma times_assoc: "times (times x y) z = times x (times y z)"
  using times_assoc_in [OF cut_in cut_in cut_in, of x y z]
  by (metis times_cut times_in cut_id)

lemma times_xor: "times x (y XOR z) = times x y XOR times x z"
proof -
  have "times (y XOR z) x = times y x XOR times z x"
    by (simp add: times_def cut_xor mul_xor cut_in)
  then show ?thesis by (simp add: times_commute)
qed

lemma times_inverse:
  assumes "fld x" "x \<noteq> 0"
  shows "\<exists>y. fld y \<and> times x y = 1"
proof -
  obtain k where k: "k < n" "x = mul k 1" using elem_power assms by blast
  have "mul (n - k) x = mul (n - k + k) 1" unfolding k(2) by (rule mul_mul [OF one_in])
  then have "times x (mul (n - k) 1) = mul (0 + n) 1"
    using k(1) by (simp add: times_power [OF assms(1)])
  also have "\<dots> = 1" using mul_period [OF one_in, of 0] mul_0 [OF one_in] by simp
  finally show ?thesis using mul_in [OF one_in] by blast
qed

end

sublocale log_field_cut \<subseteq> binary_field fld times
proof unfold_locales
  fix x assume "fld x"
  then show "times 1 x = x" using times_power [of x 0] mul_0 one_in by (simp add: times_commute [of 1])
qed (rule zero_in one_in xor_in times_in times_commute times_assoc times_xor times_inverse; assumption)+

section \<open>A control structure\<close>

lemma cut_xor_mask: "(x XOR y) AND m = (x AND m) XOR (y AND m)" for x y m :: u16
  by (rule bit_word_eqI) (auto simp: bit_simps)

locale rs_code =
  fixes rs :: rs_control and p :: int
  assumes ok: "rs_ok rs p"

sublocale rs_code \<subseteq> log_field_cut "nat (nn rs)" "fld_of rs" "gmul rs" "glog rs" "\<lambda>x. x AND word_of_int (nn rs)"
proof (intro_locales)
  show "log_field (nat (nn rs)) (fld_of rs) (gmul rs) (glog rs)" by (rule rs_ok_field [OF ok])
  show "log_field_cut_axioms (fld_of rs) (\<lambda>x. x AND word_of_int (nn rs))"
    by unfold_locales (simp_all add: fld_mask mask_id cut_xor_mask rs_okD(2) [OF ok])
qed

section \<open>Sums as loops\<close>

lemma rd_map_upt: "i < n \<Longrightarrow> rd (map f [0..<n]) i = Some (f i)"
  by (simp add: rd_def)

lemma upto_upt: "[1..int k] = map (\<lambda>r. int r + 1) [0..<k]"
  by (induction k) (simp_all add: upto_rec2 algebra_simps)

lemma for_xsum:
  assumes "\<And>i d. i < n \<Longrightarrow> body i d = Some (d XOR f i)"
  shows "for_in [0..<n] body d = Some (d XOR xsum f n)"
  using assms
proof (induction n)
  case (Suc n)
  then show ?case by (simp add: for_in_append xor.assoc)
qed simp

lemma for_xsum_down:
  assumes "\<And>i d. i < n \<Longrightarrow> body i d = Some (d XOR f i)"
  shows "for_in (rev [0..<n]) body d = Some (d XOR xsum f n)"
  using assms
proof (induction n arbitrary: d)
  case (Suc n)
  then show ?case by (simp add: ac_simps)
qed simp

context rs_code begin

abbreviation N :: nat where "N \<equiv> nat (nroots rs)"

abbreviation ix :: "u16 \<Rightarrow> u16" where "ix x \<equiv> index_of rs ! unat x"

lemmas tables = rs_okD(1) [OF ok]
lemmas sizes = rs_okD(2) [OF ok]

lemma N_pos: "0 < N" "int N = nroots rs"
  using rs_okD(5) [OF ok] by simp_all

lemma ix_lookup: "fld_of rs x \<Longrightarrow> rd (index_of rs) (unat x) = Some (ix x)"
  by (rule index_lookup [OF tables])

lemma ix_nn: "fld_of rs x \<Longrightarrow> uint (ix x) = nn rs \<longleftrightarrow> x = 0"
  by (rule index_nn_iff [OF tables])

lemma ix_zero: "index_of rs ! 0 = word_of_int (nn rs)"
  using ix_nn [OF zero_in] by (metis unsigned_0 word_of_int_uint)

lemma alpha_times:
  assumes "fld_of rs x" "fld_of rs y" "x \<noteq> 0" "y \<noteq> 0"
  shows "alpha_modnn rs (uint (ix x) + uint (ix y)) = Some (times x y)"
proof -
  have "times x y = gmul rs (glog rs y) x"
    using assms by (simp add: times_def cut_id)
  then show ?thesis
    using alpha_lookup_mul [OF tables assms(1,3) uint_ge_0, of "ix y"] by (simp add: glog_def)
qed

lemma alpha_power:
  assumes "fld_of rs x" "x \<noteq> 0" "0 \<le> e"
  shows "alpha_modnn rs (uint (ix x) + e) = Some (times x (gmul rs (nat e) 1))"
  using alpha_lookup_mul [OF tables assms] by (simp add: times_power [OF assms(1)])

subsection \<open>The loops\<close>

lemma discrepancy_eq:
  assumes "poly (Suc N) q" and S: "\<And>i. i < N \<Longrightarrow> fld_of rs (S i)" and r: "r < N"
  shows "discrepancy rs (map (\<lambda>i. ix (S i)) [0..<N]) (map q [0..<N + 1]) (int r + 1) = Some (disc q S r)"
proof -
  have "discrepancy rs (map (\<lambda>i. ix (S i)) [0..<N]) (map q [0..<N + 1]) (int r + 1) =
      Some (0 XOR xsum (\<lambda>j. times (q j) (S (r - j))) (nat (int r + 1)))"
    unfolding discrepancy_def
  proof (rule for_xsum)
    fix i and d :: u16
    assume "i < nat (int r + 1)"
    then have i: "i \<le> r" by simp
    then have j: "int r + 1 - int i - 1 = int (r - i)" "r - i < N" using r by auto
    have f: "fld_of rs (q i)" "fld_of rs (S (r - i))" using polyD(1) [OF assms(1)] S [OF j(2)] by auto
    show "do {
        l \<leftarrow> rd (map q [0..<N + 1]) i;
        if l = 0 then Some d
        else do {
          si \<leftarrow> rdz (map (\<lambda>i. ix (S i)) [0..<N]) (int r + 1 - int i - 1);
          if uint si \<noteq> nn rs then do {
            k \<leftarrow> rd (index_of rs) (unat l);
            a \<leftarrow> alpha_modnn rs (uint k + uint si);
            Some (d XOR a) }
          else Some d } } = Some (d XOR times (q i) (S (r - i)))"
      unfolding j(1) rdz_of_nat rd_map_upt [OF j(2)]
      using rd_map_upt [of i "N + 1" q] i r
      by (simp add: ix_lookup [OF f(1)] ix_nn [OF f(2)] alpha_times [OF f] times_zero del: upt_Suc)
  qed
  then show ?thesis by (simp add: disc_def nat_add_distrib del: xsum.simps)
qed

lemma index_form_eq:
  assumes "poly (Suc N) q" "length b = N + 1"
  shows "index_form rs (map q [0..<N + 1]) b = Some (map (\<lambda>j. ix (q j)) [0..<N + 1])"
proof -
  have "for_in [0..<N + 1] (\<lambda>i b. do { v \<leftarrow> do { l \<leftarrow> rd (map q [0..<N + 1]) i; rd (index_of rs) (unat l) }; wr b (0 + i) v }) b =
      Some (take 0 b @ map (\<lambda>i. ix (q i)) [0..<N + 1] @ drop (0 + (N + 1)) b)"
    by (rule store_row) (use assms in \<open>auto simp: rd_map_upt ix_lookup polyD simp del: upt_Suc\<close>)
  then show ?thesis using assms(2) by (simp add: index_form_def Option.bind_assoc del: upt_Suc)
qed

lemma shift_b_eq:
  "shift_b rs (map (\<lambda>j. ix (b j)) [0..<N + 1]) = Some (map (\<lambda>j. ix (shift_poly b j)) [0..<N + 1])"
proof -
  let ?b = "map (\<lambda>j. ix (b j)) [0..<N + 1]"
  have "copy_into ?b 1 ?b 0 (nroots rs) = Some (take 1 ?b @ take N ?b @ drop (1 + N) ?b)"
    using N_pos by (simp add: copy_into_def del: upt_Suc)
  moreover have "(take 1 ?b @ take N ?b @ drop (1 + N) ?b)[0 := word_of_int (nn rs)] = map (\<lambda>j. ix (shift_poly b j)) [0..<N + 1]"
    using N_pos by (intro nth_equalityI)
      (auto simp: nth_append nth_list_update ix_zero shift_poly_def min_def simp del: upt_Suc split: nat.splits)
  ultimately show ?thesis by (simp add: shift_b_def wr_def del: upt_Suc)
qed

lemma next_lambda_eq:
  assumes q: "poly (Suc N) q" and b: "poly (Suc N) b" and d: "fld_of rs d" "d \<noteq> 0" and T: "length T = N + 1"
  shows "next_lambda rs (ix d) (map q [0..<N + 1]) (map (\<lambda>j. ix (b j)) [0..<N + 1]) T =
    Some (map (\<lambda>j. q j XOR times d (shift_poly b j)) [0..<N + 1])"
proof -
  let ?q = "map q [0..<N + 1]" and ?b = "map (\<lambda>j. ix (b j)) [0..<N + 1]"
  have step: "do {
        bi \<leftarrow> rd ?b i;
        l \<leftarrow> rd ?q (i + 1);
        if uint bi \<noteq> nn rs then do {
          a \<leftarrow> alpha_modnn rs (uint (ix d) + uint bi);
          wr t (i + 1) (l XOR a) }
        else wr t (i + 1) l } = do { v \<leftarrow> Some (q (i + 1) XOR times d (b i)); wr t (1 + i) v }"
    if "i < N" for i t
    using that polyD(1) [OF b] d by (simp add: rd_map_upt ix_nn alpha_times del: upt_Suc)
  have "for_in [0..<N] (\<lambda>i t. do {
        bi \<leftarrow> rd ?b i;
        l \<leftarrow> rd ?q (i + 1);
        if uint bi \<noteq> nn rs then do {
          a \<leftarrow> alpha_modnn rs (uint (ix d) + uint bi);
          wr t (i + 1) (l XOR a) }
        else wr t (i + 1) l }) (T[0 := q 0]) =
      for_in [0..<N] (\<lambda>i t. do { v \<leftarrow> Some (q (i + 1) XOR times d (b i)); wr t (1 + i) v }) (T[0 := q 0])"
    by (rule for_in_cong) (simp only: step set_upt atLeastLessThan_iff)
  also have "\<dots> = Some (take 1 (T[0 := q 0]) @ map (\<lambda>i. q (i + 1) XOR times d (b i)) [0..<N] @ drop (1 + N) (T[0 := q 0]))"
    by (rule store_row) (use T in simp_all)
  also have "take 1 (T[0 := q 0]) @ map (\<lambda>i. q (i + 1) XOR times d (b i)) [0..<N] @ drop (1 + N) (T[0 := q 0]) =
      map (\<lambda>j. q j XOR times d (shift_poly b j)) [0..<N + 1]"
    using T by (intro nth_equalityI) (auto simp: nth_append shift_poly_def simp del: upt_Suc split: nat.splits)
  finally show ?thesis
    using T by (simp add: next_lambda_def rd_def wr_def del: upt_Suc)
qed

lemma mod_difference: "(a + y) mod n = x \<Longrightarrow> a < n \<Longrightarrow> y < n \<Longrightarrow> (x + n - a) mod n = y" for a x y n :: nat
proof -
  assume m: "(a + y) mod n = x" and b: "a < n" "y < n"
  show "(x + n - a) mod n = y"
  proof (cases "a + y < n")
    case True
    then have "x + n - a = y + n" using m b by simp
    then show ?thesis using b by simp
  next
    case False
    then have "(a + y) mod n = a + y - n" using b by (simp add: le_mod_geq)
    then have "x + n - a = y" using m b False by linarith
    then show ?thesis using b by simp
  qed
qed

lemma divide_index:
  assumes "fld_of rs x" "x \<noteq> 0" "fld_of rs d" "d \<noteq> 0" "fld_of rs d'" "times d d' = 1"
  shows "rs_modnn rs (uint (ix x) - uint (ix d) + nn rs) = Some (int (glog rs (times d' x)))"
proof -
  let ?y = "times d' x"
  have y: "fld_of rs ?y" "?y \<noteq> 0"
    using assms times_in pr_eq_0 [OF assms(5,1)] by (auto simp: times_zero)
  have "times d ?y = times (times d d') x" by (simp only: times_assoc)
  then have "times d ?y = x" using assms by simp
  then have "gmul rs (glog rs ?y) (gmul rs (glog rs d) 1) = x"
    using assms y unfolding times_def [of d ?y] by (simp add: cut_id mul_lg)
  then have "gmul rs (glog rs d + glog rs ?y) 1 = x" by (simp add: mul_mul one_in add.commute)
  then have m: "(glog rs d + glog rs ?y) mod nat (nn rs) = glog rs x" using lg_mul by metis
  have b: "glog rs d < nat (nn rs)" "glog rs x < nat (nn rs)" "glog rs ?y < nat (nn rs)"
    using glog_less [OF tables] assms y by auto
  have "(glog rs x + nat (nn rs) - glog rs d) mod nat (nn rs) = glog rs ?y"
    by (rule mod_difference [OF m b(1,3)])
  moreover have "uint (ix x) - uint (ix d) + nn rs = int (glog rs x + nat (nn rs) - glog rs d)"
    using b nn_pos [OF sizes] by (simp add: index_uint of_nat_diff)
  moreover have "int (glog rs x + nat (nn rs) - glog rs d) mod nn rs = int ((glog rs x + nat (nn rs) - glog rs d) mod nat (nn rs))"
    using nn_pos [OF sizes] by (simp add: zmod_int)
  ultimately show ?thesis by (simp only: rs_modnn_mod [OF sizes of_nat_0_le_iff])
qed

lemma divide_lambda_eq:
  assumes q: "poly (Suc N) q" and d: "fld_of rs d" "d \<noteq> 0" "fld_of rs d'" "times d d' = 1" and b: "length b = N + 1"
  shows "divide_lambda rs (ix d) (map q [0..<N + 1]) b = Some (map (\<lambda>j. ix (times d' (q j))) [0..<N + 1])"
proof -
  have step: "do {
        l \<leftarrow> rd (map q [0..<N + 1]) i;
        if l = 0 then wr c i (word_of_int (nn rs))
        else do {
          k \<leftarrow> rd (index_of rs) (unat l);
          v \<leftarrow> rs_modnn rs (uint k - uint (ix d) + nn rs);
          wr c i (word_of_int v) } } = do { v \<leftarrow> Some (ix (times d' (q i))); wr c (0 + i) v }" if "i < N + 1" for i c
    using that polyD(1) [OF q] d
    by (simp add: rd_map_upt ix_lookup divide_index times_zero ix_zero glog_def del: upt_Suc)
  have "divide_lambda rs (ix d) (map q [0..<N + 1]) b =
      for_in [0..<N + 1] (\<lambda>i c. do { v \<leftarrow> Some (ix (times d' (q i))); wr c (0 + i) v }) b"
    unfolding divide_lambda_def by (rule for_in_cong) (simp only: step set_upt atLeastLessThan_iff)
  also have "\<dots> = Some (take 0 b @ map (\<lambda>j. ix (times d' (q j))) [0..<N + 1] @ drop (0 + (N + 1)) b)"
    by (rule store_row) (use b in simp_all)
  finally show ?thesis using b by simp
qed

subsection \<open>The rounds\<close>

text \<open>The arrays of the loop stand for the polynomials of the algebra.\<close>

definition bm_arrays :: "(nat \<Rightarrow> u16) \<Rightarrow> (nat \<Rightarrow> u16) \<Rightarrow> nat \<Rightarrow> u16 list \<times> u16 list \<times> u16 list \<times> int \<Rightarrow> bool" where
  "bm_arrays q b L = (\<lambda>(lambda, c, T, el). lambda = map q [0..<N + 1] \<and> c = map (\<lambda>j. ix (b j)) [0..<N + 1] \<and>
     length T = N + 1 \<and> el = int L)"

lemma bm_round_eq:
  assumes inv: "bm_inv S r q b L" and st: "bm_arrays q b L st" and S: "\<And>i. i < N \<Longrightarrow> fld_of rs (S i)" and r: "r < N"
    and L: "disc q S r \<noteq> 0 \<Longrightarrow> r < n + L" "L \<le> n"
  shows "\<exists>st' q' b' L'. bm_round rs (map (\<lambda>i. ix (S i)) [0..<N]) 0 (int r + 1) st = Some st' \<and>
    bm_inv S (Suc r) q' b' L' \<and> bm_arrays q' b' L' st' \<and> L' \<le> n"
proof -
  obtain T where st': "st = (map q [0..<N + 1], map (\<lambda>j. ix (b j)) [0..<N + 1], T, int L)" and T: "length T = N + 1"
    using st by (cases st) (auto simp: bm_arrays_def simp del: upt_Suc)
  have q: "poly (Suc N) q" "q 0 = 1" "poly (Suc L) q" and b: "poly (Suc N) b" and Lr: "L \<le> r"
    using inv r by (auto simp: bm_inv_def elim!: poly_mono)
  let ?d = "disc q S r"
  have d: "discrepancy rs (map (\<lambda>i. ix (S i)) [0..<N]) (map q [0..<N + 1]) (int r + 1) = Some ?d"
    by (rule discrepancy_eq [OF q(1) S r])
  show ?thesis
  proof (cases "?d = 0")
    case True
    have "bm_inv S (Suc r) q (shift_poly b) L"
      using inv by (intro bm_inv_shift [OF inv True q(2,3)]) (simp add: bm_inv_def)
    moreover have "bm_round rs (map (\<lambda>i. ix (S i)) [0..<N]) 0 (int r + 1) st =
        Some (map q [0..<N + 1], map (\<lambda>j. ix (shift_poly b j)) [0..<N + 1], T, int L)"
      unfolding st' bm_round_def prod.case d Option.bind.bind_lunit ix_lookup [OF disc_in] shift_b_eq
      using True ix_nn [OF disc_in, of q S r] by simp
    ultimately show ?thesis using T L(2)
      by (intro exI [of _ q] exI [of _ "shift_poly b"] exI [of _ L] exI conjI) (auto simp: bm_arrays_def)
  next
    case False
    obtain d' where d': "fld_of rs d'" "times ?d d' = 1" using pr_inverse [OF disc_in False] by blast
    define q' where "q' j = q j XOR times ?d (shift_poly b j)" for j
    have step: "if 2 * L \<le> r then bm_inv S (Suc r) q' (\<lambda>j. times d' (q j)) (Suc r - L) else bm_inv S (Suc r) q' (shift_poly b) L"
      by (rule bm_inv_step [OF inv refl False d'(2)]) (simp add: q'_def)
    have next': "next_lambda rs (ix ?d) (map q [0..<N + 1]) (map (\<lambda>j. ix (b j)) [0..<N + 1]) T = Some (map q' [0..<N + 1])"
      unfolding q'_def by (rule next_lambda_eq [OF q(1) b disc_in False T])
    have divide: "divide_lambda rs (ix ?d) (map q [0..<N + 1]) (map (\<lambda>j. ix (b j)) [0..<N + 1]) =
        Some (map (\<lambda>j. ix (times d' (q j))) [0..<N + 1])"
      by (rule divide_lambda_eq [OF q(1) disc_in False d']) simp
    have copy: "copy_into (map q [0..<N + 1]) 0 (map q' [0..<N + 1]) 0 (nroots rs + 1) = Some (map q' [0..<N + 1])"
      using N_pos by (simp add: copy_into_def nat_add_distrib del: upt_Suc)
    have test: "2 * int L \<le> int r + 1 + 0 - 1 \<longleftrightarrow> 2 * L \<le> r" by auto
    have el: "int r + 1 + 0 - int L = int (Suc r - L)" using Lr by (simp add: of_nat_diff)
    note run = st' bm_round_def prod.case d Option.bind.bind_lunit ix_lookup [OF disc_in] shift_b_eq next' divide test el
    show ?thesis
    proof (cases "2 * L \<le> r")
      case True
      have "bm_round rs (map (\<lambda>i. ix (S i)) [0..<N]) 0 (int r + 1) st =
          Some (map q' [0..<N + 1], map (\<lambda>j. ix (times d' (q j))) [0..<N + 1], map q' [0..<N + 1], int (Suc r - L))"
        unfolding run using False True ix_nn [OF disc_in, of q S r] copy by simp
      moreover have "Suc r - L \<le> n" using L(1) [OF False] by simp
      ultimately show ?thesis using step True
        by (intro exI [of _ q'] exI [of _ "\<lambda>j. times d' (q j)"] exI [of _ "Suc r - L"] exI conjI) (auto simp: bm_arrays_def)
    next
      case long: False
      have "bm_round rs (map (\<lambda>i. ix (S i)) [0..<N]) 0 (int r + 1) st =
          Some (map q' [0..<N + 1], map (\<lambda>j. ix (shift_poly b j)) [0..<N + 1], map q' [0..<N + 1], int L)"
        unfolding run using False long ix_nn [OF disc_in, of q S r] copy by simp
      then show ?thesis using step long L(2)
        by (intro exI [of _ q'] exI [of _ "shift_poly b"] exI [of _ L] exI conjI) (auto simp: bm_arrays_def)
    qed
  qed
qed

lemma berlekamp_massey_eq:
  assumes err: "errors n X Z" "2 * n \<le> N" and T: "length T = N + 1"
  shows "berlekamp_massey rs (map (\<lambda>i. ix (power_sum n X Z i)) [0..<N]) 0 (map one_poly [0..<N + 1])
    (map (\<lambda>j. ix (one_poly j)) [0..<N + 1]) T = Some (map (locator X n) [0..<N + 1])"
proof -
  let ?S = "power_sum n X Z"
  let ?P = "\<lambda>r st. \<exists>q b L. bm_inv ?S r q b L \<and> bm_arrays q b L st \<and> L \<le> n"
  have rounds: "[0 + 1..nroots rs] = map (\<lambda>r. int r + 1) [0..<N]"
    using upto_upt [of N] N_pos by simp
  have S: "fld_of rs (?S i)" for i unfolding power_sum_def by (rule xsum_in) (rule pr_in)
  have "\<exists>st. for_in [0..<N] (\<lambda>r. bm_round rs (map (\<lambda>i. ix (?S i)) [0..<N]) 0 (int r + 1))
      (map one_poly [0..<N + 1], map (\<lambda>j. ix (one_poly j)) [0..<N + 1], T, 0) = Some st \<and> ?P N st"
  proof (rule for_in_upt [where P = ?P])
    show "?P 0 (map one_poly [0..<N + 1], map (\<lambda>j. ix (one_poly j)) [0..<N + 1], T, 0)"
      using bm_inv_start [of ?S] T by (intro exI [of _ one_poly] exI [of _ 0]) (simp add: bm_arrays_def)
    fix r st assume r: "r < N" and "?P r st"
    then obtain q b L where inv: "bm_inv ?S r q b L" "bm_arrays q b L st" "L \<le> n" by blast
    have "\<exists>st' q' b' L'. bm_round rs (map (\<lambda>i. ix (?S i)) [0..<N]) 0 (int r + 1) st = Some st' \<and>
        bm_inv ?S (Suc r) q' b' L' \<and> bm_arrays q' b' L' st' \<and> L' \<le> n"
      by (rule bm_round_eq [OF inv(1,2) S r bm_length [OF inv(1)] inv(3)])
    then show "\<exists>st'. bm_round rs (map (\<lambda>i. ix (?S i)) [0..<N]) 0 (int r + 1) st = Some st' \<and> ?P (Suc r) st'"
      by blast
  qed simp
  then obtain st q b L where st: "for_in [0..<N] (\<lambda>r. bm_round rs (map (\<lambda>i. ix (?S i)) [0..<N]) 0 (int r + 1))
      (map one_poly [0..<N + 1], map (\<lambda>j. ix (one_poly j)) [0..<N + 1], T, 0) = Some st"
    and inv: "bm_inv ?S N q b L" "bm_arrays q b L st" "L \<le> n" by blast
  have "q = locator X n" by (rule bm_locator [OF err(1) inv(1,3) err(2)])
  then have "fst st = map (locator X n) [0..<N + 1]" using inv(2) by (auto simp: bm_arrays_def)
  then show ?thesis
    unfolding berlekamp_massey_def rounds for_in_map st Option.bind.bind_lunit
    by (cases st) (simp del: upt_Suc)
qed

lemma lambda_degree_eq:
  assumes q: "poly (Suc n) q" "q n \<noteq> 0" and n: "n \<le> N"
  shows "lambda_degree rs (map q [0..<N + 1]) = Some (map (\<lambda>j. ix (q j)) [0..<N + 1], n)"
proof -
  let ?m = "\<lambda>k. map (\<lambda>j. if j < k then ix (q j) else q j) [0..<N + 1]"
  let ?P = "\<lambda>k (m, deg). m = ?m k \<and> (n < k \<longrightarrow> deg = n)"
  have "\<exists>r. lambda_degree rs (map q [0..<N + 1]) = Some r \<and> ?P (N + 1) r"
    unfolding lambda_degree_def
  proof (rule for_in_upt [where P = ?P])
    fix i r assume i: "i < nat (nroots rs) + 1" and P: "?P i r"
    obtain deg where r: "r = (?m i, deg)" and deg: "n < i \<Longrightarrow> deg = n" using P by (cases r) auto
    have f: "fld_of rs (q i)" by (rule polyD(1) [OF q(1)])
    have "rd (?m i) i = Some (q i)" using i by (subst rd_map_upt) auto
    moreover have "wr (?m i) i (ix (q i)) = Some (?m (Suc i))"
      using i by (auto simp: wr_def list_eq_iff_nth_eq nth_list_update simp del: upt_Suc)
    moreover have "n < Suc i \<Longrightarrow> (if q i \<noteq> 0 then i else deg) = n"
      using deg q polyD(2) [OF q(1), of i] by (cases "i = n") auto
    ultimately show "\<exists>r'. (case r of (lambda, deg) \<Rightarrow> do {
        l \<leftarrow> rd lambda i;
        k \<leftarrow> rd (index_of rs) (unat l);
        lambda \<leftarrow> wr lambda i k;
        Some (lambda, if uint k \<noteq> nn rs then i else deg) }) = Some r' \<and> ?P (Suc i) r'"
      unfolding r prod.case using ix_lookup [OF f] ix_nn [OF f] by (simp del: upt_Suc)
  qed (auto simp del: upt_Suc)
  then obtain deg where "lambda_degree rs (map q [0..<N + 1]) = Some (?m (N + 1), deg)" "deg = n"
    using n by auto
  moreover have "?m (N + 1) = map (\<lambda>j. ix (q j)) [0..<N + 1]"
    by (rule map_cong [OF refl]) (simp del: upt_Suc)
  ultimately show ?thesis by simp
qed

text \<open>The locator phase of the decoder, for at most \<open>nroots / 2\<close> errors.\<close>

lemma make_locator_eq:
  assumes err: "errors n X Z" "2 * n \<le> N"
  shows "make_locator junk rs (map (\<lambda>i. ix (power_sum n X Z i)) [0..<N]) 0 eras =
    Some (map (\<lambda>j. ix (locator X n j)) [0..<N + 1], n)"
proof -
  have start: "1 # replicate N 0 = map one_poly [0..<N + 1]"
    by (intro nth_equalityI) (auto simp: one_poly_def nth_Cons' simp del: upt_Suc)
  have one: "poly (Suc N) one_poly" by (rule poly_mono [OF poly_one]) simp
  have lead: "locator X n n \<noteq> 0" using errorsD(2,3) [OF err(1)] by (intro locator_lead) blast
  show ?thesis
    unfolding make_locator_def Let_def init_lambda_0 Option.bind.bind_lunit start
    using index_form_eq [OF one] berlekamp_massey_eq [OF err] lambda_degree_eq [OF poly_locator lead] err(2)
    by (simp del: upt_Suc)
qed

end

end
