(* ===== verification/Rs_Repair.thy ===== *)
theory Rs_Repair imports Rs_Locate begin

text \<open>
  The rest of \<open>decode_rs8\<close>, for at most \<open>nroots / 2\<close> errors: the Chien search finds the inverse of every
  error's place and the position of the error, Forney's formula gives its value, and the data are
  those that were encoded.
\<close>

context rs_code begin

section \<open>Powers of the generator\<close>

definition A :: "nat \<Rightarrow> u16" where
  "A e = gmul rs e 1"

lemma A_in: "fld_of rs (A e)"
  by (simp add: A_def mul_in one_in)

lemma A_nonzero: "A e \<noteq> 0"
  using mul_eq_0 [OF one_in, of e] by (simp add: A_def)

lemma A_add: "A (a + b) = times (A a) (A b)"
  unfolding A_def by (simp add: times_power mul_in one_in mul_mul add.commute)

lemma A_mult: "A (a * b) = pow (A a) b"
proof (induction b)
  case 0
  then show ?case using mul_0 [OF one_in] by (simp add: A_def)
qed (simp add: A_add)

lemma A_eq_iff: "A a = A b \<longleftrightarrow> a mod nat (nn rs) = b mod nat (nn rs)"
proof
  show "A a = A b \<Longrightarrow> a mod nat (nn rs) = b mod nat (nn rs)" unfolding A_def using lg_mul by metis
  show "a mod nat (nn rs) = b mod nat (nn rs) \<Longrightarrow> A a = A b" unfolding A_def using mul_mod [OF one_in] by metis
qed

lemma A_one_iff: "A a = 1 \<longleftrightarrow> nat (nn rs) dvd a"
  using A_eq_iff [of a 0] mul_0 [OF one_in] by (simp add: A_def dvd_eq_mod_eq_0)

lemma times_A: "fld_of rs x \<Longrightarrow> times x (A e) = gmul rs e x"
  by (simp add: A_def times_power)

lemma alpha_A:
  assumes "fld_of rs x" "x \<noteq> 0" "0 \<le> e"
  shows "alpha_modnn rs (uint (ix x) + e) = Some (times x (A (nat e)))"
  using alpha_power [OF assms] by (simp add: A_def)

lemma ix_uint: "uint (ix x) = int (glog rs x)"
  by (rule index_uint)

lemma ix_word: "word_of_int (int (glog rs x)) = ix x"
  unfolding ix_uint [symmetric] by simp

lemma next_power:
  assumes "fld_of rs x" "x \<noteq> 0"
  shows "\<exists>k. rs_modnn rs (uint (ix x) + int j) = Some k \<and> (word_of_int k :: u16) = ix (times x (A j))"
proof -
  have "times x (A j) = gmul rs (glog rs x + j) 1"
    using assms mul_lg [OF assms] mul_mul [OF one_in, of j "glog rs x"] by (simp add: times_A add.commute)
  then have "glog rs (times x (A j)) = (glog rs x + j) mod nat (nn rs)" by (simp only: lg_mul)
  moreover have "int ((glog rs x + j) mod nat (nn rs)) = (int (glog rs x) + int j) mod nn rs"
    using nn_pos [OF sizes] by (simp add: zmod_int)
  ultimately have "rs_modnn rs (uint (ix x) + int j) = Some (int (glog rs (times x (A j))))"
    unfolding ix_uint by (subst rs_modnn_mod [OF sizes]) simp_all
  then show ?thesis using ix_word by blast
qed

lemma alpha_ix:
  assumes "fld_of rs x" "x \<noteq> 0"
  shows "rd (alpha_to rs) (unat (ix x)) = Some x"
proof -
  have "glog rs x < nat (nn rs)" by (rule glog_less [OF tables assms])
  then have "unat (ix x) < length (alpha_to rs)" using tables by (simp add: tables_ok_def glog_def)
  then show ?thesis using glog_gmul [OF tables assms] by (simp add: rd_def glog_def)
qed

section \<open>The search for roots\<close>

text \<open>The registers before point \<open>i + 1\<close>: each coefficient times a power of the point \<open>i\<close>.\<close>

definition registers :: "(nat \<Rightarrow> u16) \<Rightarrow> nat \<Rightarrow> nat \<Rightarrow> u16 list \<Rightarrow> bool" where
  "registers q deg i reg \<longleftrightarrow> length reg = N + 1 \<and> (\<forall>j. 0 < j \<and> j \<le> deg \<longrightarrow> reg ! j = ix (times (q j) (A (i * j))))"

lemma chien_eval_eq:
  assumes q: "poly (Suc deg) q" "q 0 = 1" and deg: "deg \<le> N" and reg: "registers q deg i reg"
  shows "\<exists>reg'. chien_eval rs deg reg = Some (reg', ev q (Suc deg) (A (Suc i))) \<and> registers q deg (Suc i) reg'"
proof -
  let ?old = "\<lambda>j. times (q j) (A (i * j))" and ?new = "\<lambda>j. times (q j) (A (Suc i * j))"
  let ?P = "\<lambda>k (r, v). length r = N + 1 \<and> (\<forall>j. 0 < j \<and> j < k \<longrightarrow> r ! j = ix (?old j)) \<and>
    (\<forall>j. k \<le> j \<and> j \<le> deg \<longrightarrow> r ! j = ix (?new j)) \<and> v = 1 XOR xsum (\<lambda>m. ?new (k + m)) (Suc deg - k)"
  have "\<exists>s. chien_eval rs deg reg = Some s \<and> ?P 1 s"
    unfolding chien_eval_def
  proof (rule for_in_down [where P = ?P])
    show "?P (deg + 1) (reg, 1)" using reg by (auto simp: registers_def)
    fix j s assume j: "1 \<le> j" "j < deg + 1" and P: "?P (Suc j) s"
    obtain r v where s: "s = (r, v)" by (cases s)
    have r: "length r = N + 1" "r ! j = ix (?old j)" "v = 1 XOR xsum (\<lambda>m. ?new (Suc j + m)) (Suc deg - Suc j)"
      "\<And>m. 0 < m \<Longrightarrow> m < j \<Longrightarrow> r ! m = ix (?old m)" "\<And>m. Suc j \<le> m \<Longrightarrow> m \<le> deg \<Longrightarrow> r ! m = ix (?new m)"
      using P j unfolding s by auto
    have lookup: "rd r j = Some (ix (?old j))" using r(1,2) j deg by (simp add: rd_def)
    have new: "times (?old j) (A j) = ?new j" by (simp add: times_assoc A_add [symmetric] add.commute)
    have "Suc deg - j = Suc (Suc deg - Suc j)" using j by simp
    then have sum: "xsum (\<lambda>m. ?new (j + m)) (Suc deg - j) = ?new j XOR xsum (\<lambda>m. ?new (Suc j + m)) (Suc deg - Suc j)"
      by (simp only: xsum_Suc_shift) simp
    show "\<exists>s'. (case s of (reg, q) \<Rightarrow> do {
        rj \<leftarrow> rd reg j;
        if uint rj \<noteq> nn rs then do {
          k \<leftarrow> rs_modnn rs (uint rj + int j);
          reg \<leftarrow> wr reg j (word_of_int k);
          a \<leftarrow> rd (alpha_to rs) (unat (word_of_int k :: u16));
          Some (reg, q XOR a) }
        else Some (reg, q) }) = Some s' \<and> ?P j s'"
    proof (cases "?old j = 0")
      case True
      then have z: "?new j = 0" using new by (metis times_zero(2))
      have "uint (ix (?old j)) = nn rs" using True ix_nn [OF times_in] by blast
      moreover have "?P j (r, v)"
        using r z True unfolding prod.case sum by (metis (no_types, lifting) Suc_leI le_neq_implies_less less_Suc_eq xor.left_neutral)
      ultimately show ?thesis unfolding s prod.case lookup Option.bind.bind_lunit by auto
    next
      case False
      obtain k where k: "rs_modnn rs (uint (ix (?old j)) + int j) = Some k" "(word_of_int k :: u16) = ix (?new j)"
        using next_power [OF times_in False, of j] unfolding new by blast
      have "?new j \<noteq> 0" unfolding new [symmetric] using False pr_eq_0 [OF times_in A_in] A_nonzero by simp
      then have a: "rd (alpha_to rs) (unat (ix (?new j))) = Some (?new j)" by (rule alpha_ix [OF times_in])
      have w: "wr r j (ix (?new j)) = Some (r[j := ix (?new j)])" using r(1) j deg by (simp add: wr_def)
      have nz: "uint (ix (?old j)) \<noteq> nn rs" using False ix_nn [OF times_in] by blast
      have "?P j (r[j := ix (?new j)], v XOR ?new j)"
        unfolding prod.case sum using r j deg by (auto simp: nth_list_update xor.assoc xor.commute xor.left_commute)
      then show ?thesis unfolding s prod.case lookup Option.bind.bind_lunit using nz k w a by simp
    qed
  qed simp
  then obtain t where t: "chien_eval rs deg reg = Some t" "?P 1 t" by blast
  obtain r v where "t = (r, v)" by (cases t)
  with t have rv: "chien_eval rs deg reg = Some (r, v)" "?P 1 (r, v)" by simp_all
  have "ev q (Suc deg) (A (Suc i)) = 1 XOR xsum (\<lambda>m. ?new (1 + m)) deg"
    unfolding ev_def xsum_Suc_shift A_mult using q(2) one_in by (simp del: pow.simps(2))
  then have "v = ev q (Suc deg) (A (Suc i))" using rv(2) by simp
  moreover have "registers q deg (Suc i) r" using rv(2) unfolding registers_def by auto
  ultimately show ?thesis using rv(1) by blast
qed

text \<open>The points where a polynomial vanishes, and the position that belongs to a point.\<close>

definition roots_from :: "(nat \<Rightarrow> u16) \<Rightarrow> nat \<Rightarrow> nat \<Rightarrow> nat list" where
  "roots_from q deg i = filter (\<lambda>i. ev q (Suc deg) (A i) = 0) [Suc i..<Suc (nat (nn rs))]"

definition place_of :: "nat \<Rightarrow> int" where
  "place_of i = (iprim rs * int i - 1) mod nn rs"

lemma iprim: "0 < iprim rs" "iprim rs \<le> nn rs" "iprim rs * prim rs mod nn rs = 1 mod nn rs"
  using ok by (auto simp: rs_ok_def)

lemma nn_ge_1: "1 \<le> nn rs"
  using nn_pos [OF sizes] by simp

lemma place_of_range: "0 \<le> place_of i" "place_of i < nn rs"
  using nn_ge_1 by (simp_all add: place_of_def)

lemma next_place: "rs_modnn rs (place_of i + iprim rs) = Some (place_of (Suc i))"
proof -
  have "(place_of i + iprim rs) mod nn rs = place_of (Suc i)"
    unfolding place_of_def mod_add_left_eq by (simp add: algebra_simps)
  then show ?thesis using rs_modnn_mod [OF sizes, of "place_of i + iprim rs"] place_of_range(1) [of i] iprim(1) by simp
qed

lemma chien_search_eq:
  assumes q: "poly (Suc deg) q" "q 0 = 1" and deg: "deg \<le> N"
    and "registers q deg i reg" "i \<le> nat (nn rs)" and "length rt = N" "length loc = N"
    and "count + length (roots_from q deg i) = deg" "roots_from q deg i \<noteq> []"
  shows "\<exists>rt' loc'. chien_search rs deg (map int [Suc i..<Suc (nat (nn rs))]) (place_of (Suc i)) reg rt loc count = Some (rt', loc', deg) \<and>
    take deg rt' = take count rt @ map (\<lambda>i. word_of_int (int i)) (roots_from q deg i) \<and>
    take deg loc' = take count loc @ map (\<lambda>i. word_of_int (place_of i)) (roots_from q deg i) \<and>
    length rt' = N \<and> length loc' = N"
  using assms(4-)
proof (induction "nat (nn rs) - i" arbitrary: i reg rt loc count)
  case 0
  then show ?case by (simp add: roots_from_def)
next
  case (Suc d)
  then have i: "i < nat (nn rs)" by simp
  have up: "[Suc i..<Suc (nat (nn rs))] = Suc i # [Suc (Suc i)..<Suc (nat (nn rs))]"
    using i by (simp add: upt_conv_Cons del: upt_Suc)
  obtain reg' where e: "chien_eval rs deg reg = Some (reg', ev q (Suc deg) (A (Suc i)))" "registers q deg (Suc i) reg'"
    using chien_eval_eq [OF q deg Suc.prems(1)] by blast
  note IH = Suc.hyps(1) [of "Suc i" reg', OF _ e(2)]
  show ?case
  proof (cases "ev q (Suc deg) (A (Suc i)) = 0")
    case False
    then have same: "roots_from q deg (Suc i) = roots_from q deg i"
      unfolding roots_from_def up by simp
    show ?thesis
      using IH [of rt loc count] Suc.hyps(2) Suc.prems i False
      unfolding up list.map chien_search.simps e(1) same by (simp add: next_place)
  next
    case True
    then have more: "roots_from q deg i = Suc i # roots_from q deg (Suc i)"
      unfolding roots_from_def up by simp
    have c: "count < deg" "count < N" using Suc.prems(5) more deg by auto
    let ?rt = "rt[count := word_of_int (int (Suc i))]" and ?loc = "loc[count := word_of_int (place_of (Suc i))]"
    have w: "wr rt count (word_of_int (int (Suc i))) = Some ?rt" "wr loc count (word_of_int (place_of (Suc i))) = Some ?loc"
      using Suc.prems(3,4) c by (simp_all add: wr_def)
    have t: "take (count + 1) ?rt = take count rt @ [word_of_int (int (Suc i))]"
      "take (count + 1) ?loc = take count loc @ [word_of_int (place_of (Suc i))]"
      using Suc.prems(3,4) c by (simp_all add: take_Suc_conv_app_nth)
    note run = up list.map chien_search.simps e(1) Option.bind.bind_lunit prod.case w True next_place
    show ?thesis
    proof (cases "roots_from q deg (Suc i) = []")
      case empty: True
      then have "count + 1 = deg" using Suc.prems(5) more by simp
      then show ?thesis unfolding run using t more empty Suc.prems(3,4) by simp
    next
      case False
      then have "count + 1 \<noteq> deg" using Suc.prems(5) more by (cases "roots_from q deg (Suc i)") auto
      then show ?thesis
        unfolding run using IH [of ?rt ?loc "count + 1"] Suc.hyps(2) Suc.prems i False t more by simp
    qed
  qed
qed

lemma find_roots_eq:
  assumes q: "poly (Suc deg) q" "q 0 = 1" and deg: "deg \<le> N" "0 < deg" "length (roots_from q deg 0) = deg"
  shows "\<exists>rt loc. find_roots junk rs (map (\<lambda>j. ix (q j)) [0..<N + 1]) deg = Some (rt, loc, deg) \<and>
    take deg rt = map (\<lambda>i. word_of_int (int i)) (roots_from q deg 0) \<and>
    take deg loc = map (\<lambda>i. word_of_int (place_of i)) (roots_from q deg 0) \<and> length rt = N \<and> length loc = N"
proof -
  let ?q = "map (\<lambda>j. ix (q j)) [0..<N + 1]" and ?junk = "map (junk 2) [0..<N + 1]"
  define reg where "reg = take 1 ?junk @ take N (drop 1 ?q) @ drop (1 + N) ?junk"
  have copy: "copy_into ?junk 1 ?q 1 (nroots rs) = Some reg"
    using N_pos by (simp add: copy_into_def reg_def del: upt_Suc)
  have A0: "A 0 = 1" by (simp add: A_one_iff)
  have "registers q deg 0 reg"
    using deg(1) A0 polyD(1) [OF q(1)]
    by (auto simp: registers_def reg_def nth_append nth_Cons' simp del: upt_Suc)
  moreover have "place_of (Suc 0) = iprim rs - 1"
    unfolding place_of_def using iprim by simp
  moreover have "[1..nn rs] = map int [Suc 0..<Suc (nat (nn rs))]"
  proof -
    have "map int [Suc 0..<Suc k] = map (\<lambda>r. int r + 1) [0..<k]" for k
      by (simp add: map_Suc_upt [symmetric] del: upt_Suc)
    then show ?thesis using upto_upt [of "nat (nn rs)"] nn_ge_1 by simp
  qed
  moreover have "roots_from q deg 0 \<noteq> []" using deg(2,3) by auto
  ultimately show ?thesis
    using chien_search_eq [OF q deg(1), of 0 reg "map (junk 3) [0..<N]" "map (junk 4) [0..<N]" 0] deg(3) copy
    by (simp add: find_roots_def Let_def del: upt_Suc)
qed

section \<open>The positions of the errors\<close>

text \<open>\<open>pos l\<close> counts the symbols behind error \<open>l\<close>; its place in the algebra is a power of the generator.\<close>

definition place :: "(nat \<Rightarrow> nat) \<Rightarrow> nat \<Rightarrow> u16" where
  "place pos l = A (nat (prim rs) * pos l)"

definition inverse_point :: "nat \<Rightarrow> nat" where
  "inverse_point k = nat (nn rs) - nat (prim rs) * k mod nat (nn rs)"

lemma prim: "0 < nat (prim rs)" "coprime (nat (prim rs)) (nat (nn rs))"
  using ok by (auto simp: rs_ok_def intro!: coprime_nat)

lemma inverse_point_range: "1 \<le> inverse_point k" "inverse_point k \<le> nat (nn rs)"
  using nn_ge_1 by (simp_all add: inverse_point_def Suc_le_eq)

lemma inverse_point_dvd: "nat (nn rs) dvd nat (prim rs) * k + inverse_point k"
proof -
  let ?n = "nat (nn rs)" and ?a = "nat (prim rs) * k"
  have "?a + inverse_point k = ?a div ?n * ?n + ?n"
    using n_pos div_mult_mod_eq [of ?a ?n] mod_less_divisor [OF n_pos, of ?a] unfolding inverse_point_def by linarith
  then show ?thesis by simp
qed

lemma point_unique:
  assumes "1 \<le> i" "i \<le> nat (nn rs)"
  shows "times (place pos l) (A i) = 1 \<longleftrightarrow> i = inverse_point (pos l)"
proof
  let ?n = "nat (nn rs)" and ?a = "nat (prim rs) * pos l"
  show "times (place pos l) (A i) = 1" if "i = inverse_point (pos l)"
    unfolding place_def A_add [symmetric] A_one_iff that by (rule inverse_point_dvd)
  assume "times (place pos l) (A i) = 1"
  then have "?n dvd ?a + i" unfolding place_def A_add [symmetric] A_one_iff .
  moreover note inverse_point_dvd [of "pos l"]
  ultimately have d: "(?a + i) mod ?n = (?a + inverse_point (pos l)) mod ?n" by (simp add: dvd_eq_mod_eq_0)
  then have e: "i mod ?n = inverse_point (pos l) mod ?n" by (metis add.commute mod_add_cancel)
  show "i = inverse_point (pos l)"
    using e assms inverse_point_range [of "pos l"]
    by (cases "i = ?n"; cases "inverse_point (pos l) = ?n") auto
qed

text \<open>The point and the position of an error belong together.\<close>

lemma place_of_inverse: "k < nat (nn rs) \<Longrightarrow> place_of (inverse_point k) = nn rs - 1 - int k"
proof -
  assume k: "k < nat (nn rs)"
  let ?i = "int (inverse_point k)"
  have "nn rs dvd prim rs * int k + ?i"
  proof -
    have "int (nat (nn rs)) dvd int (nat (prim rs) * k + inverse_point k)"
      using inverse_point_dvd by (simp only: int_dvd_int_iff)
    then show ?thesis using nn_ge_1 prim(1) by simp
  qed
  then have "nn rs dvd iprim rs * (prim rs * int k + ?i)" by simp
  moreover have "nn rs dvd iprim rs * prim rs - 1"
    using iprim(3) by (simp add: mod_eq_dvd_iff)
  then have "nn rs dvd (iprim rs * prim rs - 1) * int k" by simp
  ultimately have "nn rs dvd iprim rs * (prim rs * int k + ?i) - (iprim rs * prim rs - 1) * int k" by (rule dvd_diff)
  then have "nn rs dvd iprim rs * ?i + int k" by (simp add: algebra_simps)
  then have "nn rs dvd (iprim rs * ?i + int k) - nn rs" by (rule dvd_diff) simp
  then have "nn rs dvd (iprim rs * ?i - 1) - (nn rs - 1 - int k)" by (simp add: algebra_simps)
  then have "place_of (inverse_point k) = (nn rs - 1 - int k) mod nn rs"
    unfolding place_of_def by (simp add: mod_eq_dvd_iff)
  also have "\<dots> = nn rs - 1 - int k" using k by (intro mod_pos_pos_trivial) linarith+
  finally show ?thesis .
qed

lemma inj_place:
  assumes "inj_on pos {..<n}" "\<And>l. l < n \<Longrightarrow> pos l < nat (nn rs)"
  shows "inj_on (place pos) {..<n}"
proof (rule inj_onI)
  fix k l assume kl: "k \<in> {..<n}" "l \<in> {..<n}" "place pos k = place pos l"
  then have "nat (prim rs) * pos k mod nat (nn rs) = nat (prim rs) * pos l mod nat (nn rs)"
    by (simp add: place_def A_eq_iff)
  then have "pos k = pos l" using mult_mod_inj [OF prim(2)] assms(2) kl by simp
  then show "k = l" using assms(1) kl by (simp add: inj_on_def)
qed

text \<open>So the search finds the point of every error, once.\<close>

lemma roots_of_locator:
  assumes pos: "inj_on pos {..<n}" "\<And>l. l < n \<Longrightarrow> pos l < nat (nn rs)"
  shows "distinct (roots_from (locator (place pos) n) n 0)"
    "set (roots_from (locator (place pos) n) n 0) = (\<lambda>l. inverse_point (pos l)) ` {..<n}"
    "length (roots_from (locator (place pos) n) n 0) = n"
proof -
  let ?R = "roots_from (locator (place pos) n) n 0"
  show d: "distinct ?R" by (simp add: roots_from_def del: upt_Suc)
  show s: "set ?R = (\<lambda>l. inverse_point (pos l)) ` {..<n}"
  proof -
    have "ev (locator (place pos) n) (Suc n) (A i) = 0 \<longleftrightarrow> (\<exists>l < n. i = inverse_point (pos l))"
      if "1 \<le> i" "i \<le> nat (nn rs)" for i
      unfolding locator_root using point_unique [OF that] by blast
    then show ?thesis
      using inverse_point_range by (auto simp: roots_from_def image_iff less_Suc_eq_le simp del: upt_Suc)
  qed
  have "inj_on (\<lambda>l. inverse_point (pos l)) {..<n}"
  proof (rule inj_onI)
    fix k l assume kl: "k \<in> {..<n}" "l \<in> {..<n}" "inverse_point (pos k) = inverse_point (pos l)"
    then have "nn rs - 1 - int (pos k) = nn rs - 1 - int (pos l)"
      using place_of_inverse [OF pos(2)] by (metis lessThan_iff)
    then show "k = l" using pos(1) kl by (simp add: inj_on_def)
  qed
  then show "length ?R = n"
    using distinct_card [OF d] card_image [of "\<lambda>l. inverse_point (pos l)" "{..<n}"] unfolding s by simp
qed

section \<open>The error values\<close>

lemma omega_coeff_eq:
  assumes q: "poly (Suc N) q" and S: "\<And>i. i < N \<Longrightarrow> fld_of rs (S i)" and i: "i < N"
  shows "omega_coeff rs (map (\<lambda>i. ix (S i)) [0..<N]) (map (\<lambda>j. ix (q j)) [0..<N + 1]) i = Some (disc q S i)"
proof -
  have "omega_coeff rs (map (\<lambda>i. ix (S i)) [0..<N]) (map (\<lambda>j. ix (q j)) [0..<N + 1]) i =
      Some (0 XOR xsum (\<lambda>j. times (q j) (S (i - j))) (i + 1))"
    unfolding omega_coeff_def
  proof (rule for_xsum_down)
    fix j and d :: u16 assume j: "j < i + 1"
    then have f: "fld_of rs (S (i - j))" "fld_of rs (q j)" using S i polyD(1) [OF q] by auto
    have l: "rd (map (\<lambda>i. ix (S i)) [0..<N]) (i - j) = Some (ix (S (i - j)))"
      "rd (map (\<lambda>j. ix (q j)) [0..<N + 1]) j = Some (ix (q j))" using i j by (simp_all add: rd_map_upt del: upt_Suc)
    show "do {
        si \<leftarrow> rd (map (\<lambda>i. ix (S i)) [0..<N]) (i - j);
        if uint si = nn rs then Some d
        else do {
          lj \<leftarrow> rd (map (\<lambda>j. ix (q j)) [0..<N + 1]) j;
          if uint lj \<noteq> nn rs then do {
            a \<leftarrow> alpha_modnn rs (uint si + uint lj);
            Some (d XOR a) }
          else Some d } } = Some (d XOR times (q j) (S (i - j)))"
      unfolding l Option.bind.bind_lunit ix_nn [OF f(1)] ix_nn [OF f(2)]
      using alpha_times [OF f] by (simp add: times_zero times_commute [of "q j"])
  qed
  then show ?thesis by (simp add: disc_def del: xsum.simps)
qed

lemma make_omega_eq:
  assumes q: "poly (Suc N) q" and S: "\<And>i. i < N \<Longrightarrow> fld_of rs (S i)" and n: "n \<le> N" and om: "length omega = N + 1"
  shows "make_omega rs (map (\<lambda>i. ix (S i)) [0..<N]) (map (\<lambda>j. ix (q j)) [0..<N + 1]) n omega =
    Some (map (\<lambda>i. ix (disc q S i)) [0..<n] @ drop n omega)"
proof -
  let ?S = "map (\<lambda>i. ix (S i)) [0..<N]" and ?q = "map (\<lambda>j. ix (q j)) [0..<N + 1]"
  have "make_omega rs ?S ?q n omega =
      for_in [0..<n] (\<lambda>i omega. do { v \<leftarrow> do { tmp \<leftarrow> omega_coeff rs ?S ?q i; rd (index_of rs) (unat tmp) }; wr omega (0 + i) v }) omega"
    by (simp add: make_omega_def Option.bind_assoc del: upt_Suc)
  also have "\<dots> = Some (take 0 omega @ map (\<lambda>i. ix (disc q S i)) [0..<n] @ drop (0 + n) omega)"
    by (rule store_row) (use n om omega_coeff_eq [OF q S] ix_lookup [OF disc_in] in \<open>auto simp del: upt_Suc\<close>)
  finally show ?thesis by simp
qed

lemma alpha_pow:
  assumes "fld_of rs x" "x \<noteq> 0"
  shows "alpha_modnn rs (uint (ix x) + int i * int r) = Some (times x (pow (A r) i))"
proof -
  have "nat (int i * int r) = r * i" by (simp add: nat_mult_distrib)
  then show ?thesis using alpha_A [OF assms, of "int i * int r"] by (simp add: A_mult)
qed

lemma eval_omega_eq:
  assumes om: "n \<le> length omega" "\<And>i. i < n \<Longrightarrow> omega ! i = ix (f i)" and f: "\<And>i. fld_of rs (f i)"
  shows "eval_omega rs omega n (int r) = Some (ev f n (A r))"
proof -
  have "eval_omega rs omega n (int r) = Some (0 XOR xsum (\<lambda>i. times (f i) (pow (A r) i)) n)"
    unfolding eval_omega_def
  proof (rule for_xsum_down)
    fix i and d :: u16 assume i: "i < n"
    then have "rd omega i = Some (ix (f i))" using om by (simp add: rd_def)
    then show "do {
        oi \<leftarrow> rd omega i;
        if uint oi \<noteq> nn rs then do {
          a \<leftarrow> alpha_modnn rs (uint oi + int i * int r);
          Some (d XOR a) }
        else Some d } = Some (d XOR times (f i) (pow (A r) i))"
      using ix_nn [OF f] alpha_pow [OF f] by (simp add: times_zero)
  qed
  then show ?thesis by (simp add: ev_def)
qed

lemma eval_deriv_eq:
  assumes q: "poly (Suc N) q" and n: "n < N"
  shows "eval_deriv rs (map (\<lambda>j. ix (q j)) [0..<N + 1]) n (int r) =
    Some (xsum (\<lambda>i. times (q (2 * i + 1)) (pow (A r) (2 * i))) (n div 2 + 1))"
proof -
  have m: "(if int n \<le> nroots rs - 1 then int n else nroots rs - 1) = int n" using n N_pos by simp
  have evens: "evens_down (int n) = map ((*) 2) (rev [0..<n div 2 + 1])"
    by (simp add: evens_down_def rev_map del: upt_Suc)
  have "eval_deriv rs (map (\<lambda>j. ix (q j)) [0..<N + 1]) n (int r) =
      Some (0 XOR xsum (\<lambda>i. times (q (2 * i + 1)) (pow (A r) (2 * i))) (n div 2 + 1))"
    unfolding eval_deriv_def m evens for_in_map
  proof (rule for_xsum_down)
    fix i and d :: u16 assume i: "i < n div 2 + 1"
    then have "2 * i + 1 < N + 1" using n by auto
    then have "rd (map (\<lambda>j. ix (q j)) [0..<N + 1]) (2 * i + 1) = Some (ix (q (2 * i + 1)))" by (rule rd_map_upt)
    then show "do {
        l \<leftarrow> rd (map (\<lambda>j. ix (q j)) [0..<N + 1]) (2 * i + 1);
        if uint l \<noteq> nn rs then do {
          a \<leftarrow> alpha_modnn rs (uint l + int (2 * i) * int r);
          Some (d XOR a) }
        else Some d } = Some (d XOR times (q (2 * i + 1)) (pow (A r) (2 * i)))"
      using ix_nn [OF polyD(1) [OF q]] alpha_pow [OF polyD(1) [OF q], of "2 * i + 1" "2 * i"] by (simp add: times_zero)
  qed
  then show ?thesis by simp
qed

text \<open>The value of error \<open>l\<close>, with the factor that the first root brings.\<close>

definition weight :: "(nat \<Rightarrow> nat) \<Rightarrow> (nat \<Rightarrow> u16) \<Rightarrow> nat \<Rightarrow> u16" where
  "weight pos e l = times (e l) (A (nat (fcr rs) * (nat (prim rs) * pos l)))"

lemma errors_placed:
  assumes "inj_on pos {..<n}" "\<And>l. l < n \<Longrightarrow> pos l < nat (nn rs)" "\<And>l. l < n \<Longrightarrow> fld_of rs (e l) \<and> e l \<noteq> 0"
  shows "errors n (place pos) (weight pos e)"
  unfolding errors_def
  using inj_place [OF assms(1,2)] assms(3) pr_eq_0 [OF _ A_in] times_in A_in A_nonzero
  by (auto simp: place_def weight_def)

lemma quotient:
  assumes "fld_of rs a" "a \<noteq> 0" "fld_of rs b" "b \<noteq> 0" "fld_of rs c" "c \<noteq> 0" "fld_of rs y" "times y c = times a b"
  shows "alpha_modnn rs (uint (ix a) + uint (ix b) + nn rs - uint (ix c)) = Some y"
proof -
  let ?n = "nat (nn rs)"
  let ?e = "glog rs b + ?n - glog rs c"
  have c: "glog rs c < ?n" "c = A (glog rs c)" "b = A (glog rs b)"
    using glog_less [OF tables assms(5,6)] mul_lg [OF assms(5,6)] mul_lg [OF assms(3,4)] by (simp_all add: A_def)
  have e: "uint (ix a) + uint (ix b) + nn rs - uint (ix c) = uint (ix a) + int ?e"
    using c(1) nn_ge_1 by (simp add: ix_uint of_nat_diff)
  have r: "alpha_modnn rs (uint (ix a) + uint (ix b) + nn rs - uint (ix c)) = Some (times a (A ?e))"
    unfolding e using alpha_A [OF assms(1,2), of "int ?e"] by simp
  have "times (times a (A ?e)) c = times a (A (?e + glog rs c))"
    by (subst c(2)) (simp add: times_assoc A_add)
  also have "A (?e + glog rs c) = A (glog rs b)"
    unfolding A_eq_iff using c(1) by simp
  also have "times a (A (glog rs b)) = times y c" using assms(8) c(3) by simp
  finally have "times a (A ?e) = y" using pr_cancel [OF times_in assms(7,5,6)] by blast
  with r show ?thesis by simp
qed

lemma second_factor:
  assumes "k < nat (nn rs)"
  shows "0 \<le> int (inverse_point k) * (fcr rs - 1) + nn rs"
    "times (A (nat (fcr rs) * (nat (prim rs) * k))) (A (nat (int (inverse_point k) * (fcr rs - 1) + nn rs))) =
     A (nat (prim rs) * k)"
proof -
  let ?i = "inverse_point k" and ?a = "nat (prim rs) * k" and ?f = "nat (fcr rs)"
  let ?e = "int ?i * (fcr rs - 1) + nn rs"
  have f: "0 \<le> fcr rs" by (rule rs_okD(3) [OF ok])
  have r: "int ?i \<le> nn rs" using inverse_point_range(2) [of k] nn_ge_1 by simp
  have expand: "?e = int (?i * ?f) + (nn rs - int ?i)" using f by (simp add: algebra_simps)
  show e0: "0 \<le> ?e" unfolding expand using r by linarith
  have "nn rs - int ?i = int (nat (nn rs) - ?i)" using r by (simp add: of_nat_diff)
  then have e: "nat ?e = ?i * ?f + (nat (nn rs) - ?i)" unfolding expand by (simp only: of_nat_add [symmetric] nat_int)
  have "?f * ?a + nat ?e + (?a + ?i) = (?f + 1) * (?a + ?i) + (nat (nn rs) - ?i)"
    unfolding e by (simp add: algebra_simps)
  moreover obtain t where t: "?a + ?i = nat (nn rs) * t" using inverse_point_dvd [of k] by (auto elim: dvdE)
  moreover have "nat (nn rs) - ?i + ?i = nat (nn rs)" using inverse_point_range(2) [of k] by simp
  ultimately have "?f * ?a + nat ?e + nat (nn rs) * t + ?a + ?i = (?f + 1) * (nat (nn rs) * t) + ?a + nat (nn rs)"
    by simp
  then have "?f * ?a + nat ?e + nat (nn rs) * (t + t) = ?a + nat (nn rs) * ((?f + 1) * t + 1)"
    using t by (simp add: algebra_simps)
  then have "(?f * ?a + nat ?e) mod nat (nn rs) = ?a mod nat (nn rs)"
    by (metis mod_mult_self2)
  then show "times (A (?f * ?a)) (A (nat ?e)) = A ?a"
    unfolding A_add [symmetric] A_eq_iff .
qed

text \<open>
  The errors of a received word: \<open>err\<close> gives the difference to the code word by position, \<open>pos\<close> lists
  the positions where it is not zero.
\<close>

definition error_places :: "nat \<Rightarrow> nat \<Rightarrow> (nat \<Rightarrow> nat) \<Rightarrow> (nat \<Rightarrow> u16) \<Rightarrow> bool" where
  "error_places M n pos err \<longleftrightarrow> inj_on pos {..<n} \<and> M \<le> nat (nn rs) \<and>
     (\<forall>l < n. pos l < M \<and> fld_of rs (err (pos l)) \<and> err (pos l) \<noteq> 0)"

abbreviation syndrome_of :: "nat \<Rightarrow> (nat \<Rightarrow> nat) \<Rightarrow> (nat \<Rightarrow> u16) \<Rightarrow> nat \<Rightarrow> u16" where
  "syndrome_of n pos err \<equiv> power_sum n (place pos) (weight pos (\<lambda>l. err (pos l)))"

lemma error_placesD:
  assumes "error_places M n pos err"
  shows "inj_on pos {..<n}" "l < n \<Longrightarrow> pos l < nat (nn rs)" "l < n \<Longrightarrow> pos l < M"
    "errors n (place pos) (weight pos (\<lambda>l. err (pos l)))" "l < n \<Longrightarrow> fld_of rs (err (pos l))" "l < n \<Longrightarrow> err (pos l) \<noteq> 0"
proof -
  have a: "inj_on pos {..<n}" "\<And>l. l < n \<Longrightarrow> pos l < M" "\<And>l. l < n \<Longrightarrow> fld_of rs (err (pos l)) \<and> err (pos l) \<noteq> 0" "M \<le> nat (nn rs)"
    using assms by (auto simp: error_places_def)
  have b: "\<And>l. l < n \<Longrightarrow> pos l < nat (nn rs)" using a(2,4) by (meson order_less_le_trans)
  show "errors n (place pos) (weight pos (\<lambda>l. err (pos l)))" by (rule errors_placed [OF a(1) b a(3)])
  show "inj_on pos {..<n}" "l < n \<Longrightarrow> pos l < nat (nn rs)" "l < n \<Longrightarrow> pos l < M"
    "l < n \<Longrightarrow> fld_of rs (err (pos l))" "l < n \<Longrightarrow> err (pos l) \<noteq> 0"
    using a b by blast+
qed

lemma syndrome_of_in: "fld_of rs (syndrome_of n pos err i)"
  unfolding power_sum_def by (rule xsum_in) (rule pr_in)

lemma error_value:
  assumes e: "error_places M n pos err" and l: "l < n"
  defines "x \<equiv> A (inverse_point (pos l))"
  defines "num1 \<equiv> ev (disc (locator (place pos) n) (syndrome_of n pos err)) n x"
  defines "den \<equiv> xsum (\<lambda>i. times (locator (place pos) n (2 * i + 1)) (pow x (2 * i))) (n div 2 + 1)"
  shows "num1 \<noteq> 0" "fld_of rs den" "den \<noteq> 0"
    "times (err (pos l)) den = times num1 (A (nat (int (inverse_point (pos l)) * (fcr rs - 1) + nn rs)))"
proof -
  note E = error_placesD [OF e]
  have px: "times (place pos l) x = 1" unfolding x_def using point_unique inverse_point_range by blast
  have "n \<le> 2 * (n div 2 + 1)" by simp
  from forney [OF E(4) l A_in px [unfolded x_def] this]
  obtain w where w: "fld_of rs w" "w \<noteq> 0" "num1 = times (weight pos (\<lambda>l. err (pos l)) l) w" "den = times (place pos l) w"
    unfolding num1_def den_def x_def by blast
  show "num1 \<noteq> 0" using w errorsD(4,5) [OF E(4) l] by (simp add: pr_eq_0)
  show "fld_of rs den" unfolding w(4) by (rule times_in)
  show "den \<noteq> 0" using w errorsD(2,3) [OF E(4) l] by (simp add: pr_eq_0)
  show "times (err (pos l)) den = times num1 (A (nat (int (inverse_point (pos l)) * (fcr rs - 1) + nn rs)))"
    unfolding w(3,4) weight_def place_def second_factor(2) [OF E(2) [OF l], symmetric] by (simp only: pr_ac)
qed

lemma ucast_xor_byte: "(ucast ((ucast v :: u16) XOR c) :: byte) = v XOR ucast c"
  by (rule bit_word_eqI) (auto simp: bit_simps)

lemma correct_one_eq:
  assumes e: "error_places M n pos err" and n: "2 * n \<le> N" and l: "l < n"
    and om: "n \<le> length omega" "\<And>i. i < n \<Longrightarrow> omega ! i = ix (disc (locator (place pos) n) (syndrome_of n pos err) i)"
    and j: "j < length rt" "j < length loc" "rt ! j = word_of_int (int (inverse_point (pos l)))"
      "loc ! j = word_of_int (place_of (inverse_point (pos l)))"
    and pad: "pad = nn rs - int M" and M: "N \<le> M" "M - N \<le> length d"
  shows "correct_one rs pad (map (\<lambda>j. ix (locator (place pos) n j)) [0..<N + 1]) omega n rt loc j (Some d, None) =
    Some (Some (if N \<le> pos l then d[M - 1 - pos l := d ! (M - 1 - pos l) XOR ucast (err (pos l))] else d), None)"
proof -
  note E = error_placesD [OF e]
  let ?i = "inverse_point (pos l)" and ?q = "locator (place pos) n"
  let ?o = "disc ?q (syndrome_of n pos err)"
  have q: "poly (Suc N) ?q" using poly_mono [OF poly_locator] n by simp
  have nN: "n < N" using n l by simp
  have r: "uint (rt ! j) = int ?i"
    unfolding j(3) using inverse_point_range [of "pos l"] nn_ge_1 by (intro uint_small [OF sizes]) simp_all
  have lo: "uint (loc ! j) = nn rs - 1 - int (pos l)"
    unfolding j(4) place_of_inverse [OF E(2) [OF l]] using E(2) [OF l] nn_ge_1 by (intro uint_small [OF sizes]) simp_all
  have num1: "eval_omega rs omega n (int ?i) = Some (ev ?o n (A ?i))"
    by (rule eval_omega_eq [OF om disc_in])
  have den: "eval_deriv rs (map (\<lambda>j. ix (?q j)) [0..<N + 1]) n (int ?i) =
      Some (xsum (\<lambda>i. times (?q (2 * i + 1)) (pow (A ?i) (2 * i))) (n div 2 + 1))" (is "_ = Some ?den")
    by (rule eval_deriv_eq [OF q nN])
  have num2: "alpha_modnn rs (int ?i * (fcr rs - 1) + nn rs) = Some (A (nat (int ?i * (fcr rs - 1) + nn rs)))"
    (is "_ = Some ?num2")
  proof -
    have "A k = alpha_to rs ! (k mod nat (nn rs))" for k
      using gmul_elem [OF tables n_pos, of k] alpha_elem [OF tables n_pos] mul_lg [OF one_in]
      unfolding A_def by (metis gmul_def glog_gmul [OF tables] one_in zero_neq_one add.left_neutral lg_mul mul_0 mod_0)
    then show ?thesis using alpha_lookup [OF tables second_factor(1) [OF E(2) [OF l]]] by simp
  qed
  note V = error_value [OF e l]
  have cor: "alpha_modnn rs (uint (ix (ev ?o n (A ?i))) + uint (ix ?num2) + nn rs - uint (ix ?den)) = Some (err (pos l))"
    by (rule quotient [OF ev_in V(1) A_in A_nonzero V(2,3) E(5) [OF l] V(4)])
  have here: "pad \<le> uint (loc ! j)" using lo pad E(3) [OF l] by simp
  have data: "uint (loc ! j) < nn rs - nroots rs \<longleftrightarrow> N \<le> pos l" using lo N_pos by auto
  have at_: "uint (loc ! j) - pad = int (M - 1 - pos l)" using lo pad E(3) [OF l] by (simp add: of_nat_diff)
  note run = rd_in [OF j(1)] rd_in [OF j(2)] r num1 num2 den ix_lookup [OF ev_in] ix_lookup [OF A_in] ix_lookup [OF V(2)] cor
  show ?thesis
  proof (cases "N \<le> pos l")
    case True
    then have "M - 1 - pos l < length d" using E(3) [OF l] M by linarith
    then show ?thesis
      unfolding correct_one_def prod.case run Option.bind.bind_lunit data at_ rdz_of_nat wrz_of_nat
      using True V(1) here by (simp add: rd_def wr_def ucast_xor_byte)
  next
    case False
    then show ?thesis
      unfolding correct_one_def prod.case run Option.bind.bind_lunit data using V(1) here by simp
  qed
qed

section \<open>All corrections\<close>

text \<open>The data after the corrections at the positions in \<open>K\<close>.\<close>

definition repaired :: "nat \<Rightarrow> (nat \<Rightarrow> u16) \<Rightarrow> nat set \<Rightarrow> byte list \<Rightarrow> byte list" where
  "repaired M err K d = map (\<lambda>i. d ! i XOR (if i < M - N \<and> M - 1 - i \<in> K then ucast (err (M - 1 - i)) else 0)) [0..<length d]"

lemma repaired_none: "repaired M err {} d = d"
  by (simp add: repaired_def map_nth)

lemma repaired_one:
  assumes "k < M" "k \<notin> K" "N \<le> M" "M - N \<le> length d"
  shows "(if N \<le> k then (repaired M err K d)[M - 1 - k := repaired M err K d ! (M - 1 - k) XOR ucast (err k)] else repaired M err K d) =
    repaired M err (insert k K) d"
proof (cases "N \<le> k")
  case True
  have b: "M - 1 - k < length d" "M - 1 - k < M - N" "M - 1 - (M - 1 - k) = k" using assms True by simp_all
  have "(repaired M err K d)[M - 1 - k := repaired M err K d ! (M - 1 - k) XOR ucast (err k)] = repaired M err (insert k K) d"
  proof (rule nth_equalityI)
    fix i assume "i < length ((repaired M err K d)[M - 1 - k := repaired M err K d ! (M - 1 - k) XOR ucast (err k)])"
    then have i: "i < length d" by (simp add: repaired_def)
    show "(repaired M err K d)[M - 1 - k := repaired M err K d ! (M - 1 - k) XOR ucast (err k)] ! i = repaired M err (insert k K) d ! i"
    proof (cases "i = M - 1 - k")
      case False
      then have "i < M - N \<Longrightarrow> M - 1 - i \<noteq> k" using assms(1) by linarith
      then show ?thesis using i False by (auto simp: repaired_def)
    qed (use i b assms(2) in \<open>simp add: repaired_def\<close>)
  qed (simp add: repaired_def)
  then show ?thesis using True by simp
next
  case False
  have "M - 1 - i \<noteq> k" if "i < M - N" for i using that False assms(3) by linarith
  then show ?thesis using False by (auto simp: repaired_def)
qed

lemma correct_errors_eq:
  assumes e: "error_places M n pos err" and n: "2 * n \<le> N" "0 < n" and pad: "pad = nn rs - int M" and M: "N \<le> M" "M - N \<le> length d"
    and res: "d_data res = Some d" "d_corr res = None" "d_eras res = None"
    and found: "take n rt = map (\<lambda>i. word_of_int (int i)) (roots_from (locator (place pos) n) n 0)"
      "take n loc = map (\<lambda>i. word_of_int (place_of i)) (roots_from (locator (place pos) n) n 0)"
      "length rt = N" "length loc = N"
  shows "correct_errors junk rs pad (map (\<lambda>i. ix (syndrome_of n pos err i)) [0..<N])
      (map (\<lambda>j. ix (locator (place pos) n j)) [0..<N + 1]) n res (rt, loc, n) =
    Some (res\<lparr>d_count := int n, d_data := Some (repaired M err (pos ` {..<n}) d)\<rparr>)"
proof -
  note E = error_placesD [OF e]
  let ?R = "roots_from (locator (place pos) n) n 0" and ?q = "locator (place pos) n"
  have R: "distinct ?R" "set ?R = (\<lambda>l. inverse_point (pos l)) ` {..<n}" "length ?R = n"
    using roots_of_locator [of pos n] E(1,2) by blast+
  have q: "poly (Suc N) ?q" using poly_mono [OF poly_locator] n(1) by simp
  have nN: "n \<le> N" using n(1) by simp
  define omega where "omega = map (\<lambda>i. ix (disc ?q (syndrome_of n pos err) i)) [0..<n] @ drop n (map (junk 5) [0..<N + 1])"
  have om: "make_omega rs (map (\<lambda>i. ix (syndrome_of n pos err i)) [0..<N]) (map (\<lambda>j. ix (?q j)) [0..<N + 1]) n
      (map (junk 5) [0..<N + 1]) = Some omega"
    unfolding omega_def by (rule make_omega_eq [OF q syndrome_of_in nN]) simp
  have om_nth: "n \<le> length omega" "\<And>i. i < n \<Longrightarrow> omega ! i = ix (disc ?q (syndrome_of n pos err) i)"
    by (simp_all add: omega_def nth_append del: upt_Suc)
  have ex: "\<exists>l. l < n \<and> ?R ! j = inverse_point (pos l)" if j: "j < n" for j
    using nth_mem [of j ?R] j unfolding R(2,3) by auto
  define s where "s j = (SOME l. l < n \<and> ?R ! j = inverse_point (pos l))" for j
  have s: "s j < n \<and> ?R ! j = inverse_point (pos (s j))" if "j < n" for j
    unfolding s_def by (rule someI_ex [OF ex [OF that]])
  have inj: "inj_on s {..<n}"
  proof (rule inj_onI)
    fix j k assume jk: "j \<in> {..<n}" "k \<in> {..<n}" "s j = s k"
    then have "?R ! j = ?R ! k" using s by simp
    then show "j = k" using jk R(1,3) by (simp add: nth_eq_iff_index_eq)
  qed
  have onto: "s ` {..<n} = {..<n}" by (rule endo_inj_surj) (use s inj in auto)
  have nth: "rt ! j = word_of_int (int (inverse_point (pos (s j))))" "loc ! j = word_of_int (place_of (inverse_point (pos (s j))))"
    if j: "j < n" for j
  proof -
    have "rt ! j = take n rt ! j" "loc ! j = take n loc ! j" using j by simp_all
    then show "rt ! j = word_of_int (int (inverse_point (pos (s j))))" "loc ! j = word_of_int (place_of (inverse_point (pos (s j))))"
      using s [OF j] j R(3) unfolding found by simp_all
  qed
  let ?K = "\<lambda>k. (\<lambda>j. pos (s j)) ` {k..<n}"
  have "\<exists>st. for_in (rev [0..<n]) (correct_one rs pad (map (\<lambda>j. ix (?q j)) [0..<N + 1]) omega n rt loc) (Some d, None) = Some st \<and>
      st = (Some (repaired M err (?K 0) d), None)"
  proof (rule for_in_down [where P = "\<lambda>k st. st = (Some (repaired M err (?K k) d), None)"])
    show "(Some d, None) = (Some (repaired M err (?K n) d), None)" by (simp add: repaired_none)
    fix j and st :: "byte list option \<times> u16 list option"
    assume j: "j < n" and st: "st = (Some (repaired M err (?K (Suc j)) d), None)"
    have l: "s j < n" using s [OF j] by blast
    have new: "pos (s j) \<notin> ?K (Suc j)"
    proof
      assume "pos (s j) \<in> ?K (Suc j)"
      then obtain k where k: "Suc j \<le> k" "k < n" "pos (s k) = pos (s j)" by auto
      have "s k < n" using s [OF k(2)] by blast
      then have "s k = s j" using inj_onD [OF E(1) k(3)] l by simp
      then have "k = j" using inj_onD [OF inj, of k j] k(2) j by simp
      then show False using k(1) by simp
    qed
    have "{j..<n} = insert j {Suc j..<n}" using j by auto
    then have "insert (pos (s j)) (?K (Suc j)) = ?K j" by simp
    moreover have "correct_one rs pad (map (\<lambda>j. ix (?q j)) [0..<N + 1]) omega n rt loc j (Some (repaired M err (?K (Suc j)) d), None) =
        Some (Some (if N \<le> pos (s j) then (repaired M err (?K (Suc j)) d)[M - 1 - pos (s j) :=
          repaired M err (?K (Suc j)) d ! (M - 1 - pos (s j)) XOR ucast (err (pos (s j)))] else repaired M err (?K (Suc j)) d), None)"
      by (rule correct_one_eq [OF e n(1) l om_nth _ _ nth [OF j] pad M(1)])
        (use j nN found(3,4) M(2) in \<open>simp_all add: repaired_def\<close>)
    ultimately show "\<exists>st'. correct_one rs pad (map (\<lambda>j. ix (?q j)) [0..<N + 1]) omega n rt loc j st = Some st' \<and>
        st' = (Some (repaired M err (?K j) d), None)"
      unfolding st repaired_one [OF E(3) [OF l] new M] by simp
  qed simp
  moreover have "?K 0 = pos ` {..<n}" using onto by (simp add: atLeast0LessThan image_image [symmetric])
  ultimately have loop: "for_in (rev [0..<n]) (correct_one rs pad (map (\<lambda>j. ix (?q j)) [0..<N + 1]) omega n rt loc) (Some d, None) =
      Some (Some (repaired M err (pos ` {..<n}) d), None)" by simp
  show ?thesis
    unfolding correct_errors_def prod.case om Option.bind.bind_lunit res(1,2) loop
    using res by (simp add: finish_decode_def om loop del: upt_Suc)
qed

text \<open>The decoder from the syndromes on.\<close>

lemma decode_from_syndromes_eq:
  assumes e: "error_places M n pos err" and n: "2 * n \<le> N" "0 < n" and pad: "pad = nn rs - int M" and M: "N \<le> M" "M - N \<le> length d"
    and res: "d_data res = Some d" "d_corr res = None" "d_eras res = None"
  shows "decode_from_syndromes junk rs pad (map (\<lambda>i. ix (syndrome_of n pos err i)) [0..<N]) 0 res =
    Some (res\<lparr>d_count := int n, d_data := Some (repaired M err (pos ` {..<n}) d)\<rparr>)"
proof -
  note E = error_placesD [OF e]
  have R: "length (roots_from (locator (place pos) n) n 0) = n" using roots_of_locator [of pos n] E(1,2) by blast
  have nN: "n \<le> N" using n(1) by simp
  from find_roots_eq [OF poly_locator locator_0 nN n(2) R, of junk]
  obtain rt loc where found: "find_roots junk rs (map (\<lambda>j. ix (locator (place pos) n j)) [0..<N + 1]) n = Some (rt, loc, n)"
    "take n rt = map (\<lambda>i. word_of_int (int i)) (roots_from (locator (place pos) n) n 0)"
    "take n loc = map (\<lambda>i. word_of_int (place_of i)) (roots_from (locator (place pos) n) n 0)" "length rt = N" "length loc = N"
    by blast
  show ?thesis
    unfolding decode_from_syndromes_def make_locator_eq [OF E(4) n(1)] Option.bind.bind_lunit prod.case found(1)
    by (rule correct_errors_eq [OF e n pad M res found(2-5)])
qed

end

end
