(* ===== verification/Rs_Codec.thy ===== *)
theory Rs_Codec imports Rs_Decode begin

text \<open>
  \<open>reed_solomon/rs_codec.h\<close>, \<open>rs_codec.cc\<close>: the class \<open>RsCodec\<close>, the RS(255, 223) code on a
  control structure that all its instances share, and the list of control structures of
  \<open>reed_solomon.c\<close> with its reference counts.

  The polynomial 0x187 of the class is shown to be primitive; with it every structure that the
  class can get from \<open>init_rs\<close> is one that the theorems of \<open>Rs_Code\<close> apply to.
\<close>

section \<open>A polynomial is primitive when it has no small period\<close>

lemma xtime_inject:
  assumes "1 \<le> m" and "odd p" and x: "0 \<le> x" "x < 2 ^ nat m" and y: "0 \<le> y" "y < 2 ^ nat m"
    and eq: "xtime m p x = xtime m p y"
  shows "x = y"
proof -
  define z where "z = x XOR y"
  have m: "0 < nat m" using assms(1) by simp
  have p0: "bit p 0" using assms(2) by (simp add: bit_0)
  have z0: "xtime m p z = 0" using eq by (simp add: z_def xtime_xor)
  have "\<not> bit (xtime m p z) 0" by (simp add: z0)
  with m p0 have top: "\<not> bit z (nat m - 1)" by (simp add: bit_xtime)
  have low: "\<not> bit z k" if "Suc k < nat m" for k
  proof -
    have "\<not> bit (xtime m p z) (Suc k)" by (simp add: z0)
    with that top show ?thesis by (simp add: bit_xtime)
  qed
  have tb: "take_bit (nat m) x = x" "take_bit (nat m) y = y"
    using x y by (simp_all add: take_bit_int_eq_self)
  have high: "\<not> bit z k" if "nat m \<le> k" for k
  proof -
    have "\<not> bit x k" "\<not> bit y k"
      using that tb by (metis bit_take_bit_iff not_less)+
    then show ?thesis by (simp add: z_def bit_xor_iff)
  qed
  have "\<not> bit z k" for k
    using low [of k] high [of k] top by (cases "Suc k < nat m"; cases "nat m \<le> k") (auto simp: not_less le_Suc_eq dest: le_antisym)
  then have "z = 0" by (simp add: bit_eq_iff)
  then have "(x XOR y) XOR y = y" by (simp add: z_def)
  then show ?thesis by (simp add: xor.assoc)
qed

lemma xpow_add: "xpow m p (k + l) = (xtime m p ^^ k) (xpow m p l)"
  by (simp add: xpow_def funpow_add)

lemma xpow_back:
  assumes "1 \<le> m" and "odd p" and "xpow m p i = xpow m p (i + d)"
  shows "xpow m p d = 1"
  using assms(3)
proof (induction i)
  case (Suc i)
  have eq: "xtime m p (xpow m p i) = xtime m p (xpow m p (i + d))"
    using Suc.prems by (simp only: xpow_Suc add_Suc)
  have "xpow m p i = xpow m p (i + d)"
    by (rule xtime_inject [OF assms(1,2) _ _ _ _ eq]) (use xpow_range [OF assms(1)] in blast)+
  then show ?case by (rule Suc.IH)
qed simp

lemma xpow_gcd: "xpow m p a = 1 \<Longrightarrow> xpow m p b = 1 \<Longrightarrow> xpow m p (gcd a b) = 1"
proof (induction a b rule: gcd_nat_induct)
  case (step a b)
  have mult: "xpow m p (q * b + r) = xpow m p r" for q r
  proof (induction q)
    case (Suc q)
    have "xpow m p (Suc q * b + r) = (xtime m p ^^ (q * b + r)) (xpow m p b)"
      by (simp add: xpow_add [symmetric] algebra_simps)
    with Suc step.prems show ?case by (simp add: xpow_def)
  qed simp
  have "xpow m p (a mod b) = 1"
    using mult [of "a div b" "a mod b"] step.prems by simp
  with step show ?case by (simp add: gcd_red_nat [of a b])
qed simp

lemma primitiveI:
  assumes "1 \<le> m" and "odd p" and one: "xpow m p (2 ^ nat m - 1) = 1"
    and small: "\<And>d. 0 < d \<Longrightarrow> d < 2 ^ nat m - 1 \<Longrightarrow> d dvd 2 ^ nat m - 1 \<Longrightarrow> xpow m p d \<noteq> 1"
  shows "primitive m p"
proof -
  let ?N = "2 ^ nat m - 1 :: nat"
  have no: "xpow m p i \<noteq> xpow m p (i + d)" if "0 < d" "i + d < ?N" for i d
  proof
    assume "xpow m p i = xpow m p (i + d)"
    then have "xpow m p (gcd d ?N) = 1"
      using xpow_back [OF assms(1,2)] one by (blast intro: xpow_gcd)
    moreover have "gcd d ?N \<le> d" "0 < gcd d ?N" using that(1) by (auto intro: dvd_imp_le)
    moreover from this have "gcd d ?N < ?N" using that(2) by linarith
    ultimately show False using small [of "gcd d ?N"] by blast
  qed
  have "inj_on (xpow m p) {..<?N}"
  proof (rule linorder_inj_onI)
    fix i j assume "i < j" "j \<in> {..<?N}"
    then show "xpow m p i \<noteq> xpow m p j" using no [of "j - i" i] by simp
  qed auto
  with one show ?thesis
    by (simp add: primitive_def distinct_map atLeast0LessThan)
qed

text \<open>The polynomial x^8 + x^7 + x^2 + x + 1 of \<open>RsCodec\<close>.\<close>

lemma xpow_0x187:
  "xpow 8 0x187 1 = 2" "xpow 8 0x187 3 = 8" "xpow 8 0x187 5 = 32" "xpow 8 0x187 15 = 244"
  "xpow 8 0x187 17 = 222" "xpow 8 0x187 51 = 108" "xpow 8 0x187 85 = 170" "xpow 8 0x187 255 = 1"
  by (simp_all add: xpow_def xtime_def numeral_eq_Suc)

lemma divisors_255: "list_all (\<lambda>d. 255 mod d = 0 \<longrightarrow> d \<in> {1, 3, 5, 15, 17, 51, 85}) [1..<255 :: nat]"
  by code_simp

lemma primitive_0x187: "primitive 8 0x187"
proof (rule primitiveI)
  fix d :: nat
  assume "0 < d" "d < 2 ^ nat 8 - 1" "d dvd 2 ^ nat 8 - 1"
  then have "d \<in> {1, 3, 5, 15, 17, 51, 85}"
    using divisors_255 by (simp add: list_all_iff mod_eq_0_iff_dvd)
  then show "xpow 8 0x187 d \<noteq> 1"
    using xpow_0x187 by auto
qed (use xpow_0x187 in simp_all)

section \<open>The class\<close>

text \<open>
  \<open>rs_\<close> is the address that the constructor got; the members look the structure up there. The
  constructor asserts that there is one.
\<close>

definition RsCodec_new ::
  "(nat \<Rightarrow> bool) \<Rightarrow> (nat \<Rightarrow> nat \<Rightarrow> u16) \<Rightarrow> (nat \<Rightarrow> int \<Rightarrow> int) \<Rightarrow> nat \<Rightarrow> rs_state \<Rightarrow> (nat \<times> rs_state) option" where
  "RsCodec_new malloc junk call fresh st = do {
     (ptr, st) \<leftarrow> init_rs malloc junk call fresh 8 0x187 0 1 32 st;
     (case ptr of None \<Rightarrow> None | Some p \<Rightarrow> Some (p, st)) }"

definition RsCodec_delete :: "nat \<Rightarrow> rs_state \<Rightarrow> rs_state option" where
  "RsCodec_delete p st = free_rs p st"

definition RsCodec_Encode :: "rs_state \<Rightarrow> nat \<Rightarrow> byte list \<Rightarrow> u16 list \<Rightarrow> (int \<times> u16 list) option" where
  "RsCodec_Encode st p data parity = do {
     rs \<leftarrow> objs st p;
     encode_rs8 rs data 223 parity 0 }"

definition RsCodec_Decode ::
  "(nat \<Rightarrow> nat \<Rightarrow> u16) \<Rightarrow> rs_state \<Rightarrow> nat \<Rightarrow> byte list \<Rightarrow> u16 list \<Rightarrow> (int \<times> byte list) option" where
  "RsCodec_Decode junk st p data parity = do {
     rs \<leftarrow> objs st p;
     r \<leftarrow> decode_rs8 junk rs (Some data) parity 223 None 0 None 0 None;
     data' \<leftarrow> d_data r;
     Some (d_count r, data') }"

section \<open>The list and its reference counts\<close>

definition same_key :: "rs_control \<Rightarrow> rs_control \<Rightarrow> bool" where
  "same_key r q \<longleftrightarrow> rs_matches (mm r) (gfpoly r) (gffunc r) (fcr r) (prim r) (nroots r) q"

text \<open>A structure over a primitive polynomial has correct tables.\<close>

definition rs_built :: "rs_control \<Rightarrow> bool" where
  "rs_built rs \<longleftrightarrow> (mm rs \<le> 16 \<and> gfpoly rs \<noteq> 0 \<and> primitive (mm rs) (gfpoly rs) \<and>
     0 < nroots rs \<and> nroots rs < 2 ^ nat (mm rs) - 1 \<longrightarrow> rs_ok rs (gfpoly rs))"

definition rs_inv :: "rs_state \<Rightarrow> bool" where
  "rs_inv st \<longleftrightarrow> \<not> rslock st \<and> distinct (rslist st) \<and> set (rslist st) = dom (objs st) \<and>
     (\<forall>p r. objs st p = Some r \<longrightarrow> 1 \<le> users r \<and> rs_built r) \<and>
     (\<forall>p q r t. objs st p = Some r \<and> objs st q = Some t \<and> same_key r t \<longrightarrow> p = q)"

lemma rs_ok_users: "rs_ok (rs\<lparr>users := u\<rparr>) p = rs_ok rs p"
proof -
  have "gmul (rs\<lparr>users := u\<rparr>) = gmul rs" by (intro ext) (simp add: gmul_def glog_def)
  then have "gen (rs\<lparr>users := u\<rparr>) n = gen rs n" for n
    by (induction n) (simp_all add: root_exp_def)
  then show ?thesis by (simp add: rs_ok_def tables_ok_def sizes_ok_def)
qed

lemma rs_built_users: "rs_built (rs\<lparr>users := u\<rparr>) = rs_built rs"
  by (simp add: rs_built_def rs_ok_users)

lemma find_iprim_1: "find_iprim n 1 x = Some x"
  by (simp add: find_iprim.simps)

text \<open>What \<open>rs_init\<close> returns when it returns a structure.\<close>

lemma rs_from_tables_result:
  assumes "rs_from_tables junk m p func fcr0 prim0 nroots0 n tables = Some (Some rs)"
  shows "mm rs = m \<and> gfpoly rs = p \<and> gffunc rs = func \<and> fcr rs = fcr0 \<and> prim rs = prim0 \<and> nroots rs = nroots0 \<and>
    (\<exists>ip. find_iprim n prim0 1 = Some ip)"
  using assms
  by (auto simp: rs_from_tables_def Let_def split: prod.splits if_splits elim!: bindE)

lemma rs_init_no_memory:
  assumes "\<not> malloc 0 \<or> \<not> malloc 1 \<or> \<not> malloc 2 \<or> \<not> malloc 3"
  shows "rs_init malloc junk call m p func fcr0 prim0 nroots0 \<in> {None, Some None}"
  using assms unfolding rs_init_def Let_def check_def
  by (cases "malloc 0"; cases "0 \<le> m \<and> m < 31") auto

lemma rs_init_result:
  assumes r: "rs_init malloc junk call m p func fcr0 prim0 nroots0 = Some (Some rs)"
  shows "mm rs = m \<and> gfpoly rs = p \<and> gffunc rs = func \<and> fcr rs = fcr0 \<and> prim rs = prim0 \<and> nroots rs = nroots0 \<and>
    malloc 0 \<and> malloc 1 \<and> malloc 2 \<and> malloc 3 \<and>
    (\<exists>ip. find_iprim (push_bit (nat m) 1 - 1) prim0 1 = Some ip)"
proof -
  have mem: "malloc 0" "malloc 1" "malloc 2" "malloc 3"
    using r rs_init_no_memory [of malloc junk call m p func fcr0 prim0 nroots0] by auto
  obtain tables where
    "rs_from_tables junk m p func fcr0 prim0 nroots0 (push_bit (nat m) 1 - 1) tables = Some (Some rs)"
    using r unfolding rs_init_def Let_def
    by (simp only: mem not_True_eq_False if_False simp_thms) (elim bindE, blast)
  from rs_from_tables_result [OF this] mem show ?thesis by blast
qed

lemma rs_init_built:
  assumes r: "rs_init malloc junk call m p func fcr0 prim0 nroots0 = Some (Some rs)"
    and range: "1 \<le> m" "0 \<le> fcr0" "0 < prim0"
  shows "rs_built rs"
proof -
  obtain ip where f: "mm rs = m" "gfpoly rs = p" "nroots rs = nroots0"
    and mem: "malloc 0" "malloc 1" "malloc 2" "malloc 3"
    and ip: "find_iprim (push_bit (nat m) 1 - 1) prim0 1 = Some ip"
    using rs_init_result [OF r] by blast
  have ip': "find_iprim (2 ^ nat m - 1) prim0 1 = Some ip" using ip by (simp only: push_bit_of_1)
  show ?thesis
    unfolding rs_built_def f
  proof (intro impI, elim conjE)
    assume a: "m \<le> 16" "p \<noteq> 0" "primitive m p" "0 < nroots0" "nroots0 < 2 ^ nat m - 1"
    obtain rs' where rs': "rs_init malloc junk call m p func fcr0 prim0 nroots0 = Some (Some rs')" "tables_ok rs' p"
      "mm rs' = m" "nroots rs' = nroots0" "fcr rs' = fcr0" "prim rs' = prim0" "iprim rs' = ip div prim0"
      "genpoly rs' = map (\<lambda>x. index_of rs' ! unat x) (gen rs' (nat nroots0))"
      using rs_init_eq [OF range(1) a(1-3) less_imp_le [OF a(4)] range(2) less_imp_le [OF range(3)] ip' mem]
      by blast
    have eq: "rs' = rs" using r rs'(1) by simp
    have nn: "nn rs = 2 ^ nat m - 1"
      using rs'(2,3) eq by (simp add: tables_ok_def sizes_ok_def)
    obtain t :: nat where t: "prim0 dvd ip" "ip = 1 + int t * (2 ^ nat m - 1)"
      using find_iprim_spec [OF ip'] by blast
    have np: "0 < nn rs" using a(4,5) nn by linarith
    have "0 < ip" using t(2) np nn by (simp add: add_pos_nonneg)
    then have "0 < ip div prim0" using t(1) range(3) by (simp add: pos_imp_zdiv_pos_iff zdvd_imp_le)
    moreover have "ip div prim0 * prim0 mod nn rs = 1 mod nn rs"
      using t by (simp add: nn)
    moreover have "coprime prim0 (nn rs)"
      using find_iprim_coprime [OF ip'] nn by simp
    moreover have "ip div prim0 \<le> nn rs"
      using find_iprim_bound [OF ip'] range(3) np nn by simp
    ultimately show "rs_ok rs p"
      using rs' a range nn unfolding eq rs_ok_def by simp
  qed
qed

lemma find_rs_Some:
  "find_rs P m ps = Some (Some q) \<Longrightarrow> q \<in> set ps \<and> (\<exists>r. m q = Some r \<and> P r)"
  by (induction ps) (auto simp: bind_eq_Some_conv split: if_splits)

lemma find_rs_None:
  "find_rs P m ps = Some None \<Longrightarrow> q \<in> set ps \<Longrightarrow> m q = Some r \<Longrightarrow> \<not> P r"
  by (induction ps) (auto simp: bind_eq_Some_conv split: if_splits)

lemma find_rs_total:
  "set ps \<subseteq> dom m \<Longrightarrow> \<exists>q. find_rs P m ps = Some q"
  by (induction ps) auto

lemma find_rs_inv: "rs_inv st \<Longrightarrow> \<exists>found. find_rs P (objs st) (rslist st) = Some found"
  by (rule find_rs_total) (simp add: rs_inv_def)

text \<open>What \<open>init_rs_internal\<close> does on arguments that pass its sanity checks.\<close>

definition args_ok :: "int \<Rightarrow> int \<Rightarrow> int \<Rightarrow> int \<Rightarrow> bool" where
  "args_ok m fcr0 prim0 nroots0 \<longleftrightarrow> 1 \<le> m \<and> m < 31 \<and> 0 \<le> fcr0 \<and> fcr0 < 2 ^ nat m \<and>
     0 < prim0 \<and> prim0 < 2 ^ nat m \<and> 0 \<le> nroots0 \<and> nroots0 < 2 ^ nat m"

lemma init_bad_args:
  assumes "\<not> args_ok m fcr0 prim0 nroots0" and "init_rs_internal malloc junk call fresh m p func fcr0 prim0 nroots0 st = Some (ptr, st')"
  shows "ptr = None \<and> st' = mutex_init st"
  using assms by (auto simp: init_rs_internal_def args_ok_def Let_def check_def split: if_splits)

lemma init_good_args:
  assumes "args_ok m fcr0 prim0 nroots0"
  shows "init_rs_internal malloc junk call fresh m p func fcr0 prim0 nroots0 st = do {
     found \<leftarrow> find_rs (rs_matches m p func fcr0 prim0 nroots0) (objs st) (rslist st);
     case found of
       Some q \<Rightarrow> do {
         rs \<leftarrow> objs st q;
         Some (Some q, st\<lparr>objs := (objs st)(q := Some (rs\<lparr>users := users rs + 1\<rparr>)), rslock := False\<rparr>) }
     | None \<Rightarrow> do {
         r \<leftarrow> rs_init malloc junk call m p func fcr0 prim0 nroots0;
         case r of
           None \<Rightarrow> Some (None, st\<lparr>rslock := False\<rparr>)
         | Some rs \<Rightarrow> Some (Some fresh, st\<lparr>objs := (objs st)(fresh := Some (rs\<lparr>users := 1\<rparr>)),
             rslist := fresh # rslist st, rslock := False\<rparr>) } }"
  using assms
  by (auto simp: init_rs_internal_def args_ok_def Let_def mutex_init_def mutex_lock_def mutex_unlock_def
      push_bit_of_1 not_le not_less intro!: Option.bind_cong split: option.splits)

lemma same_key_users: "same_key (r\<lparr>users := u\<rparr>) t = same_key r t" "same_key r (t\<lparr>users := u\<rparr>) = same_key r t"
  by (simp_all add: same_key_def rs_matches_def)

text \<open>
  The invariant is kept by \<open>init_rs_internal\<close> and \<open>free_rs\<close>. The first lemma also says what the
  caller gets.
\<close>

lemma init_inv:
  assumes inv: "rs_inv st" and fresh: "objs st fresh = None"
    and r: "init_rs_internal malloc junk call fresh m p func fcr0 prim0 nroots0 st = Some (ptr, st')"
  shows "rs_inv st' \<and>
    (case ptr of None \<Rightarrow> st' = st
     | Some q \<Rightarrow> \<exists>rs. objs st' q = Some rs \<and> rs_matches m p func fcr0 prim0 nroots0 rs \<and>
         (case objs st q of None \<Rightarrow> users rs = 1 | Some old \<Rightarrow> rs = old\<lparr>users := users old + 1\<rparr>) \<and>
         (\<forall>q'. q' \<noteq> q \<longrightarrow> objs st' q' = objs st q'))"
proof (cases "args_ok m fcr0 prim0 nroots0")
  case False
  with init_bad_args [OF False r] inv show ?thesis
    by (simp add: rs_inv_def mutex_init_def)
next
  case True
  note r = r [unfolded init_good_args [OF True]]
  obtain found where found: "find_rs (rs_matches m p func fcr0 prim0 nroots0) (objs st) (rslist st) = Some found"
    using find_rs_inv [OF inv] by blast
  have lock: "st\<lparr>rslock := False\<rparr> = st" using inv by (cases st) (simp add: rs_inv_def)
  show ?thesis
  proof (cases found)
    case (Some q)
    then obtain rs where rs: "objs st q = Some rs" "rs_matches m p func fcr0 prim0 nroots0 rs"
      using find_rs_Some found by metis
    then have st': "ptr = Some q" "st' = st\<lparr>objs := (objs st)(q := Some (rs\<lparr>users := users rs + 1\<rparr>)), rslock := False\<rparr>"
      using r found Some by auto
    have "1 \<le> users rs" using inv rs(1) unfolding rs_inv_def by blast
    then have "0 \<le> users rs" by simp
    with inv rs(1) have "rs_inv st'"
      unfolding rs_inv_def st'(2)
      by (auto simp: same_key_users rs_built_users split: if_splits)
    with st' rs show ?thesis by (auto simp: rs_matches_def)
  next
    case None
    then obtain res where res: "rs_init malloc junk call m p func fcr0 prim0 nroots0 = Some res"
      using r found by (auto elim: bindE)
    show ?thesis
    proof (cases res)
      case None
      with r res found \<open>found = None\<close> lock inv show ?thesis by auto
    next
      case (Some rs)
      have st': "ptr = Some fresh" "st' = st\<lparr>objs := (objs st)(fresh := Some (rs\<lparr>users := 1\<rparr>)),
          rslist := fresh # rslist st, rslock := False\<rparr>"
        using r res found \<open>found = None\<close> Some by auto
      have key: "rs_matches m p func fcr0 prim0 nroots0 rs" and built: "rs_built rs"
        using rs_init_result [of malloc junk call m p func fcr0 prim0 nroots0 rs]
          rs_init_built [of malloc junk call m p func fcr0 prim0 nroots0 rs] res Some True
        by (auto simp: rs_matches_def args_ok_def)
      have new: "\<not> same_key rs t \<and> \<not> same_key t rs" if "objs st q = Some t" for q t
      proof -
        have "q \<in> set (rslist st)" using that inv by (auto simp: rs_inv_def)
        from find_rs_None [OF found [unfolded \<open>found = None\<close>] this that] key
        show ?thesis by (auto simp: same_key_def rs_matches_def)
      qed
      have "rs_inv st'"
        using inv fresh built new unfolding rs_inv_def st'(2)
        by (auto simp: same_key_users rs_built_users split: if_splits)
      with st' key fresh show ?thesis by (auto simp: rs_matches_def)
    qed
  qed
qed

lemma free_inv:
  assumes inv: "rs_inv st" and p: "objs st p = Some rs"
  shows "\<exists>st'. free_rs p st = Some st' \<and> rs_inv st' \<and>
    objs st' p = (if users rs = 1 then None else Some (rs\<lparr>users := users rs - 1\<rparr>)) \<and>
    (\<forall>q. q \<noteq> p \<longrightarrow> objs st' q = objs st q)"
proof (cases "users rs = 1")
  case True
  have "free_rs p st = Some (st\<lparr>objs := (objs st)(p := None), rslist := remove1 p (rslist st), rslock := False\<rparr>)"
    using inv p True by (simp add: free_rs_def mutex_lock_def mutex_unlock_def rs_inv_def Let_def)
  moreover have "rs_inv (st\<lparr>objs := (objs st)(p := None), rslist := remove1 p (rslist st), rslock := False\<rparr>)"
    using inv unfolding rs_inv_def by (auto split: if_splits)
  ultimately show ?thesis using True by auto
next
  case False
  have "1 \<le> users rs" using inv p by (auto simp: rs_inv_def)
  with False have "2 \<le> users rs" by simp
  have "free_rs p st = Some (st\<lparr>objs := (objs st)(p := Some (rs\<lparr>users := users rs - 1\<rparr>)), rslock := False\<rparr>)"
    using inv p False by (simp add: free_rs_def mutex_lock_def mutex_unlock_def rs_inv_def Let_def)
  moreover have "rs_inv (st\<lparr>objs := (objs st)(p := Some (rs\<lparr>users := users rs - 1\<rparr>)), rslock := False\<rparr>)"
    using inv p \<open>2 \<le> users rs\<close> unfolding rs_inv_def
    by (auto simp: same_key_users rs_built_users split: if_splits)
  ultimately show ?thesis using False by auto
qed

section \<open>Encoding and decoding with the class\<close>

definition rs255 :: "rs_control \<Rightarrow> bool" where
  "rs255 rs \<longleftrightarrow> rs_ok rs 0x187 \<and> mm rs = 8 \<and> nroots rs = 32"

lemma rs255_nn: "rs255 rs \<Longrightarrow> nn rs = 255"
  by (auto simp: rs255_def rs_ok_def tables_ok_def sizes_ok_def)

lemma RsCodec_new_spec:
  assumes inv: "rs_inv st" and "objs st fresh = None" and new: "RsCodec_new malloc junk call fresh st = Some (q, st')"
  shows "rs_inv st' \<and> (\<exists>rs. objs st' q = Some rs \<and> rs255 rs \<and> rs_matches 8 0x187 None 0 1 32 rs \<and>
    (case objs st q of None \<Rightarrow> users rs = 1 | Some old \<Rightarrow> rs = old\<lparr>users := users old + 1\<rparr>)) \<and>
    (\<forall>q'. q' \<noteq> q \<longrightarrow> objs st' q' = objs st q')"
proof -
  have r: "init_rs_internal malloc junk call fresh 8 0x187 None 0 1 32 st = Some (Some q, st')"
    using new by (auto simp: RsCodec_new_def init_rs_def elim!: bindE split: option.splits prod.splits)
  from init_inv [OF assms(1,2) r] obtain rs where rs: "rs_inv st'" "objs st' q = Some rs"
    "rs_matches 8 0x187 None 0 1 32 rs"
    "case objs st q of None \<Rightarrow> users rs = 1 | Some old \<Rightarrow> rs = old\<lparr>users := users old + 1\<rparr>"
    "\<forall>q'. q' \<noteq> q \<longrightarrow> objs st' q' = objs st q'" by auto
  then have "rs_built rs" by (auto simp: rs_inv_def)
  with rs primitive_0x187 show ?thesis
    by (auto simp: rs_built_def rs_matches_def rs255_def)
qed

text \<open>With enough memory the constructor succeeds.\<close>

lemma RsCodec_new_total:
  assumes inv: "rs_inv st" and mem: "\<forall>k. malloc k"
  shows "\<exists>q st'. RsCodec_new malloc junk call fresh st = Some (q, st')"
proof -
  have args: "args_ok 8 0 1 32" by (simp add: args_ok_def)
  obtain found where found: "find_rs (rs_matches 8 0x187 None 0 1 32) (objs st) (rslist st) = Some found"
    using find_rs_inv [OF inv] by blast
  obtain rs where "rs_init malloc junk call 8 0x187 None 0 1 32 = Some (Some rs)"
    using rs_init_eq [of 8 "0x187" 32 0 1 1 malloc junk call None] primitive_0x187 mem
    by (auto simp: find_iprim_1)
  with found show ?thesis
    using find_rs_Some [of "rs_matches 8 0x187 None 0 1 32" "objs st" "rslist st"]
    by (cases found) (auto simp: RsCodec_new_def init_rs_def init_good_args [OF args])
qed

section \<open>Lemmas for the properties\<close>

lemma codeword_received:
  assumes "sizes_ok rs" and "codeword rs (symbols rs invmsk data @ par)"
  shows "received rs invmsk data par = symbols rs invmsk data @ par"
proof -
  have "list_all (fld_of rs) par" using assms(2) by (simp add: codeword_def)
  then have "map (\<lambda>q. q AND word_of_int (nn rs)) par = par"
    using mask_id [OF assms(1)] by (intro map_idI) (simp add: list_all_iff)
  then show ?thesis by (simp add: received_def)
qed

lemma encode_then_decode:
  assumes ok: "rs_ok rs p" and len: "1 \<le> len" "nat len \<le> length data" "nroots rs + len \<le> nn rs"
  shows "\<exists>par. encode_rs8 rs data len (replicate (nat (nroots rs)) 0) invmsk = Some (0, par) \<and>
    length par = nat (nroots rs) \<and> list_all (fld_of rs) par \<and>
    decode_rs8 junk rs (Some data) par len None no_eras eras_pos invmsk corr =
      Some \<lparr>d_count = 0, d_data = Some data, d_synd = None, d_eras = eras_pos, d_corr = corr\<rparr>"
proof -
  obtain par where par: "encode_rs8 rs data len (replicate (nat (nroots rs)) 0) invmsk = Some (0, par)"
    "length par = nat (nroots rs)" "codeword rs (symbols rs invmsk (take (nat len) data) @ par)"
    using encode_rs8_codeword [OF ok _ len(2,3)] len(1) by auto
  with codeword_received [OF rs_okD(2) [OF ok] par(3)] show ?thesis
    by (intro exI [of _ par]) (simp add: decode_rs8_eq [OF ok len] Let_def codeword_def)
qed

lemma symbol_inject:
  assumes s: "sizes_ok rs" and "8 \<le> mm rs" and eq: "symbol rs invmsk a = symbol rs invmsk b"
  shows "a = b"
proof (rule bit_word_eqI)
  fix k assume k: "k < LENGTH(8)"
  obtain m where m: "nat (mm rs) = m" "nn rs = 2 ^ m - 1" using s by (rule sizes_okE)
  have "bit (2 ^ m - 1 :: int) k"
    using k m(1) assms(2) by (simp add: mask_eq_exp_minus_1 [symmetric] bit_mask_iff)
  then have "bit (word_of_int (nn rs) :: u16) k"
    using k unfolding m(2) by (simp only: bit_word_of_int_iff) simp
  moreover have "bit (symbol rs invmsk a) k = bit (symbol rs invmsk b) k" using eq by simp
  ultimately show "bit a k = bit b k"
    using k unfolding symbol_def
    by (cases "bit invmsk k") (simp_all add: bit_and_iff bit_xor_iff bit_ucast_iff)
qed

lemma symbols_inject:
  assumes "sizes_ok rs" and "8 \<le> mm rs" and "symbols rs invmsk xs = symbols rs invmsk ys"
  shows "xs = ys"
  using assms(3) symbol_inject [OF assms(1,2)] unfolding symbols_def
  by (intro map_injective [of _ xs ys]) (auto intro: injI)

text \<open>Encoding and decoding with a structure of the class.\<close>

lemma RsCodec_encode_decode:
  assumes "objs st q = Some rs" and "rs255 rs" and "length data = 223"
  shows "\<exists>par. RsCodec_Encode st q data (replicate 32 0) = Some (0, par) \<and> length par = 32 \<and>
    list_all (\<lambda>s. s \<le> 255) par \<and> (\<forall>junk. RsCodec_Decode junk st q data par = Some (0, data))"
proof -
  have ok: "rs_ok rs 0x187" and n: "nroots rs = 32" "nn rs = 255"
    using rs255_nn [OF assms(2)] assms(2) by (auto simp: rs255_def)
  obtain par where par: "encode_rs8 rs data 223 (replicate 32 0) 0 = Some (0, par)" "length par = 32"
    "list_all (fld_of rs) par"
    using encode_then_decode [OF ok, of 223 data 0 "\<lambda>_ _. 0" 0 None None] n assms(3) by auto
  have "decode_rs8 junk rs (Some data) par 223 None 0 None 0 None =
      Some \<lparr>d_count = 0, d_data = Some data, d_synd = None, d_eras = None, d_corr = None\<rparr>" for junk
    using encode_then_decode [OF ok, of 223 data 0 junk 0 None None] n assms(3) par(1) by auto
  moreover have "list_all (\<lambda>s. s \<le> 255) par"
    using par(3) by (simp add: list_all_iff fld_of_def n word_le_def)
  ultimately show ?thesis using par assms(1)
    by (auto simp: RsCodec_Encode_def RsCodec_Decode_def)
qed

definition rs_empty :: rs_state where
  "rs_empty = \<lparr>objs = (\<lambda>_. None), rslist = [], rslock = False\<rparr>"

lemma rs_inv_empty: "rs_inv rs_empty"
  by (auto simp: rs_inv_def rs_empty_def)

lemma rs_ok_8:
  assumes "0 < n" and "n < 255"
  shows "\<exists>rs. rs_init (\<lambda>_. True) junk call 8 0x187 func 0 1 n = Some (Some rs) \<and> rs_ok rs 0x187 \<and>
    mm rs = 8 \<and> nroots rs = n \<and> fcr rs = 0 \<and> prim rs = 1"
proof -
  obtain rs where rs: "rs_init (\<lambda>_. True) junk call 8 0x187 func 0 1 n = Some (Some rs)" "mm rs = 8"
    "nroots rs = n" "gfpoly rs = 0x187" "fcr rs = 0" "prim rs = 1"
    using rs_init_eq [of 8 "0x187" n 0 1 1 "\<lambda>_. True" junk call func] primitive_0x187 assms
    by (auto simp: find_iprim_1)
  moreover have "rs_built rs" by (rule rs_init_built [OF rs(1)]) simp_all
  ultimately show ?thesis
    using primitive_0x187 assms by (auto simp: rs_built_def)
qed

end
