(* ===== verification/Rs_Correct.thy ===== *)
theory Rs_Correct imports Rs_Codec begin

text \<open>
  What the Reed-Solomon codec promises: the properties of \<open>reed_solomon.c\<close>, \<open>encode_rs.h\<close>,
  \<open>decode_rs.h\<close> and \<open>rs_codec.cc\<close>, and their instances on the structures over 0x187 that
  \<open>rs_init\<close> builds.
\<close>

section \<open>Structures over 0x187\<close>

text \<open>The structure that \<open>rs_init(8, 0x187, NULL, 0, 1, n)\<close> returns on zeroed memory.\<close>

definition rs_at :: "int \<Rightarrow> rs_control" where
  "rs_at n = the (the (rs_init (\<lambda>_. True) (\<lambda>_ _. 0) (\<lambda>_ x. x) 8 0x187 None 0 1 n))"

lemma rs_at_ok:
  assumes "0 < n" and "n < 255"
  shows "rs_ok (rs_at n) 0x187" "mm (rs_at n) = 8" "nroots (rs_at n) = n" "fcr (rs_at n) = 0" "prim (rs_at n) = 1"
  using rs_ok_8 [OF assms, of "\<lambda>_ _. 0" "\<lambda>_ x. x" None] by (auto simp: rs_at_def)

lemma rs_at_nn: "0 < n \<Longrightarrow> n < 255 \<Longrightarrow> nn (rs_at n) = 255"
  using rs_at_ok [of n] by (auto simp: rs_ok_def tables_ok_def sizes_ok_def)

text \<open>The laws of the field hold for the tables of the class's structure.\<close>

interpretation gf256: log_field "nat (nn (rs_at 32))" "fld_of (rs_at 32)" "gmul (rs_at 32)" "glog (rs_at 32)"
  by (rule rs_ok_field [OF rs_at_ok(1)]) simp_all

section \<open>\<open>rs_init\<close>\<close>

text \<open>C9. Over a primitive polynomial of degree at most 15, with a number of roots below the
  length of the code and a \<open>prim\<close> that is prime to it, \<open>rs_init\<close> returns a structure when memory
  is available, whatever the fresh memory holds: its logarithm tables are those of the field, its
  generator polynomial has the roots \<open>alpha^((fcr + i) prim)\<close>, and \<open>iprim\<close> is the inverse of
  \<open>prim\<close>. In particular the search for \<open>iprim\<close> ends without an overflow.\<close>

theorem rs_init_correct:
  assumes "1 \<le> m" "m \<le> 15" and "p \<noteq> 0" "primitive m p" and "0 \<le> fcr0"
    and "0 < prim0" "prim0 \<le> 2 ^ nat m" "coprime prim0 (2 ^ nat m - 1)"
    and "0 < nroots0" "nroots0 < 2 ^ nat m - 1" and "malloc 0" "malloc 1" "malloc 2" "malloc 3"
  shows "\<exists>rs. rs_init malloc junk call m p func fcr0 prim0 nroots0 = Some (Some rs) \<and> rs_ok rs p \<and>
    mm rs = m \<and> nroots rs = nroots0 \<and> fcr rs = fcr0 \<and> prim rs = prim0"
proof -
  have "(2 :: int) ^ nat m \<le> 2 ^ 15" using assms(2) by (intro power_increasing) auto
  then have "prim0 * (2 ^ nat m - 1) \<le> 2 ^ 15 * 2 ^ 15"
    using assms(6,7,9,10) by (intro mult_mono) linarith+
  then have "prim0 * (2 ^ nat m - 1) < 2 ^ 31" by simp
  then obtain ip where "find_iprim (2 ^ nat m - 1) prim0 1 = Some ip"
    using find_iprim_total [OF assms(8,6)] assms(9,10) by fastforce
  then obtain rs where rs: "rs_init malloc junk call m p func fcr0 prim0 nroots0 = Some (Some rs)"
    "mm rs = m" "nroots rs = nroots0" "fcr rs = fcr0" "prim rs = prim0" "gfpoly rs = p"
    using rs_init_eq [of m p nroots0 fcr0 prim0 ip malloc junk call func] assms by auto
  moreover have "rs_built rs" by (rule rs_init_built [OF rs(1)]) (use assms in simp_all)
  ultimately show ?thesis
    using assms by (auto simp: rs_built_def)
qed

theorem rs_init_correct_witness:
  "\<exists>rs. rs_init (\<lambda>_. True) (\<lambda>_ _. 7) (\<lambda>_ x. x) 8 0x187 None 0 1 32 = Some (Some rs) \<and> rs_ok rs 0x187 \<and>
    mm rs = 8 \<and> nroots rs = 32 \<and> fcr rs = 0 \<and> prim rs = 1"
  by (rule rs_init_correct) (simp_all add: primitive_0x187)

section \<open>A polynomial that is not primitive\<close>

lemma orbit_0x1F:
  "xtime 4 0x1F 1 = 2" "xtime 4 0x1F 2 = 4" "xtime 4 0x1F 4 = 8" "xtime 4 0x1F 8 = 15" "xtime 4 0x1F 15 = 1"
  by (simp_all add: xtime_def)

lemma tables_0x1F:
  "field_tables (xtime 4 0x1F) 15 1 ((map (junk 1) [0..<16])[0 := 15]) ((map (junk 0) [0..<16])[15 := 0]) =
    Some ([15, 10, 11, junk 1 3, 12, junk 1 5, junk 1 6, junk 1 7, 13, junk 1 9, junk 1 10, junk 1 11, junk 1 12, junk 1 13, junk 1 14, 14],
      [1, 2, 4, 8, 15, 1, 2, 4, 8, 15, 1, 2, 4, 8, 15, 0], 1)"
  unfolding field_tables_def
  by (simp add: upt_rec orbit_0x1F exec_simps wrz_def) (simp add: numeral_eq_Suc)

lemma not_primitive_0x1F: "\<not> primitive 4 0x1F"
proof -
  have "xpow 4 0x1F 0 = xpow 4 0x1F 5" by (simp add: xpow_def orbit_0x1F numeral_eq_Suc)
  moreover have "(0::nat) \<in> {0..<15}" "(5::nat) \<in> {0..<15}" by simp_all
  ultimately show ?thesis
    unfolding primitive_def distinct_map inj_on_def
    by fastforce
qed

lemma modnn_15: "nn rs = 15 \<Longrightarrow> x < 15 \<Longrightarrow> rs_modnn rs x = Some x"
  by (simp add: rs_modnn.simps)

lemma genpoly_0x1F:
  assumes rs: "mm rs = 4" "nn rs = 15" "nroots rs = 2" "fcr rs = 0" "prim rs = 1"
    "index_of rs = [15, 10, 11, x3, 12, x5, x6, x7, 13, x9, x10, x11, x12, x13, x14, 14]"
    "alpha_to rs = [1, 2, 4, 8, 15, 1, 2, 4, 8, 15, 1, 2, 4, 8, 15, 0]"
  shows "make_genpoly rs [a, b, c] = Some [11, x3, 10]"
  unfolding make_genpoly_def genpoly_factor_def
  by (simp add: rs exec_simps upt_rec alpha_modnn_def modnn_15 rdz_def del: upt_Suc)

lemma rs_init_0x1F:
  "\<exists>rs. rs_init (\<lambda>_. True) junk call 4 0x1F func 0 1 2 = Some (Some rs) \<and> genpoly rs = [11, junk 1 3, 10]"
proof -
  have [simp]: "find_iprim 15 1 1 = Some 1" by (simp add: find_iprim.simps)
  have n: "nat 15 + 1 = (16 :: nat)" "push_bit (nat 4) 1 - 1 = (15 :: int)" by simp_all
  have ix: "wr (map (junk 1) [0..<16]) 0 15 = Some ((map (junk 1) [0..<16])[0 := 15])"
    "wrz (map (junk 0) [0..<16]) 15 0 = Some ((map (junk 0) [0..<16])[15 := 0])"
    by (simp_all add: wr_def wrz_def)
  have three: "map f [0..<3] = [f 0, f 1, f 2]" for f :: "nat \<Rightarrow> u16"
    by (simp add: upt_rec numeral_2_eq_2)
  show ?thesis
    unfolding rs_init_def Let_def n
    using tables_0x1F [of junk]
    by (simp add: ix fill_tables_def rs_from_tables_def rd_Cons three genpoly_0x1F del: One_nat_def)
qed

text \<open>The check "If it's not primitive, exit" of \<open>rs_init\<close> lets a polynomial pass whose period
  only divides the length: for x^4 + x^3 + x^2 + x + 1, of period 5, it returns a structure, whose
  logarithm table keeps fresh memory at most places, and one coefficient of its generator
  polynomial is such a place.\<close>

lemma rs_init_accepts_nonprimitive:
  "\<not> primitive 4 0x1F \<and>
    (\<exists>rs. rs_init (\<lambda>_. True) junk call 4 0x1F func 0 1 2 = Some (Some rs) \<and> genpoly rs = [11, junk 1 3, 10])"
  using not_primitive_0x1F rs_init_0x1F by blast

section \<open>Encoding and decoding\<close>

text \<open>C5. Whatever the data, the encoder completes them to a code word, \<open>nroots\<close> symbols of the
  field, and the decoder accepts what the encoder wrote: it reports no error and leaves the
  data as they are.\<close>

theorem rs_encode_decode:
  assumes "rs_ok rs p" and "1 \<le> len" "nat len \<le> length data" "nroots rs + len \<le> nn rs"
  shows "\<exists>par. encode_rs8 rs data len (replicate (nat (nroots rs)) 0) invmsk = Some (0, par) \<and>
    length par = nat (nroots rs) \<and> codeword rs (symbols rs invmsk (take (nat len) data) @ par) \<and>
    decode_rs8 junk rs (Some data) par len None no_eras eras_pos invmsk corr =
      Some \<lparr>d_count = 0, d_data = Some data, d_synd = None, d_eras = eras_pos, d_corr = corr\<rparr>"
proof -
  have len0: "0 \<le> len" using assms(2) by simp
  show ?thesis
    using encode_then_decode [OF assms, of invmsk junk no_eras eras_pos corr]
      encode_rs8_codeword [OF assms(1) len0 assms(3,4), of invmsk]
    by fastforce
qed

theorem rs_encode_decode_witness:
  "\<exists>par. encode_rs8 (rs_at 32) [72, 105, 33] 3 (replicate 32 0) 0 = Some (0, par) \<and> length par = 32 \<and>
    decode_rs8 (\<lambda>_ _. 9) (rs_at 32) (Some [72, 105, 33]) par 3 None 0 None 0 None =
      Some \<lparr>d_count = 0, d_data = Some [72, 105, 33], d_synd = None, d_eras = None, d_corr = None\<rparr>"
  using rs_encode_decode [of "rs_at 32" "0x187" 3 "[72, 105, 33]" 0 "\<lambda>_ _. 9" 0 None None]
    rs_at_ok [of 32] rs_at_nn [of 32] by auto

text \<open>C6. The words that the encoder writes for two messages of one length that differ as symbols of \<open>mm\<close>
  bits differ in more than \<open>nroots\<close> symbols: the code that \<open>encode_rs8\<close> implements is maximum distance
  separable. With symbols of at least 8 bits, as in the program, different bytes are different symbols;
  with fewer bits the encoder masks the bytes, and bytes that differ in the masked bits only are one
  symbol.\<close>

theorem rs_encode_distance:
  assumes ok: "rs_ok rs p"
    and len: "0 \<le> len" "nat len \<le> length d1" "nat len \<le> length d2" "nroots rs + len \<le> nn rs"
    and enc: "encode_rs8 rs d1 len (replicate (nat (nroots rs)) 0) invmsk = Some (0, p1)"
      "encode_rs8 rs d2 len (replicate (nat (nroots rs)) 0) invmsk = Some (0, p2)"
    and diff: "symbols rs invmsk (take (nat len) d1) \<noteq> symbols rs invmsk (take (nat len) d2) \<or>
      8 \<le> mm rs \<and> take (nat len) d1 \<noteq> take (nat len) d2"
  shows "nat (nroots rs) <
    hamming (symbols rs invmsk (take (nat len) d1) @ p1) (symbols rs invmsk (take (nat len) d2) @ p2)"
proof (rule ccontr)
  let ?w1 = "symbols rs invmsk (take (nat len) d1) @ p1"
  let ?w2 = "symbols rs invmsk (take (nat len) d2) @ p2"
  have p: "length p1 = nat (nroots rs)" "codeword rs ?w1" "length p2 = nat (nroots rs)" "codeword rs ?w2"
    using encode_rs8_codeword [OF ok len(1,2,4), of invmsk] encode_rs8_codeword [OF ok len(1,3,4), of invmsk] enc
    by auto
  assume "\<not> nat (nroots rs) < hamming ?w1 ?w2"
  then have "hamming ?w1 ?w2 \<le> nat (nroots rs)" by simp
  then have "?w1 = ?w2"
    by (rule codeword_distance [OF ok p(2,4), rotated 2]) (use p(1,3) len rs_okD(5) [OF ok] in \<open>auto simp: symbols_def\<close>)
  then have "symbols rs invmsk (take (nat len) d1) = symbols rs invmsk (take (nat len) d2)"
    using p(1,3) by simp
  with diff show False using symbols_inject [OF rs_okD(2) [OF ok]] by blast
qed

theorem rs_encode_distance_witness:
  "\<exists>p1 p2. encode_rs8 (rs_at 32) [1, 2] 2 (replicate 32 0) 0 = Some (0, p1) \<and>
     encode_rs8 (rs_at 32) [1, 3] 2 (replicate 32 0) 0 = Some (0, p2) \<and>
     32 < hamming (symbols (rs_at 32) 0 [1, 2] @ p1) (symbols (rs_at 32) 0 [1, 3] @ p2)"
proof -
  have ok: "rs_ok (rs_at 32) 0x187" and n: "nroots (rs_at 32) = 32" "nn (rs_at 32) = 255" "mm (rs_at 32) = 8"
    using rs_at_ok [of 32] rs_at_nn [of 32] by simp_all
  obtain p1 p2 where "encode_rs8 (rs_at 32) [1, 2] 2 (replicate 32 0) 0 = Some (0, p1)"
    "encode_rs8 (rs_at 32) [1, 3] 2 (replicate 32 0) 0 = Some (0, p2)"
    using encode_rs8_codeword [OF ok, of 2 "[1, 2]" 0] encode_rs8_codeword [OF ok, of 2 "[1, 3]" 0] n by auto
  with rs_encode_distance [OF ok, of 2 "[1, 2]" "[1, 3]" 0 p1 p2] n show ?thesis by simp
qed

text \<open>C7. A word that differs from an encoded one in at least one and at most \<open>nroots\<close> symbols is
  noticed: the decoder's first two phases end with a \<open>syn_error\<close> that is not 0, so it does not
  return early.\<close>

theorem rs_decode_detects:
  assumes ok: "rs_ok rs p" and len: "1 \<le> len" "nat len = length d1" "nat len = length d2" "nroots rs + len \<le> nn rs"
    and enc: "encode_rs8 rs d1 len (replicate (nat (nroots rs)) 0) invmsk = Some (0, p1)"
    and par: "length p2 = nat (nroots rs)"
    and diff: "0 < hamming (symbols rs invmsk d1 @ p1) (received rs invmsk d2 p2)"
      "hamming (symbols rs invmsk d1 @ p1) (received rs invmsk d2 p2) \<le> nat (nroots rs)"
    and syn: "length syn = nat (nroots rs)"
  shows "\<exists>s err t. form_syndromes rs d2 p2 len invmsk syn = Some s \<and> index_syndromes rs s = Some (err, t) \<and> err \<noteq> 0"
proof -
  let ?R = "received rs invmsk d2 p2"
  let ?w = "symbols rs invmsk d1 @ p1"
  let ?S = "map (syndrome rs ?R) [0..<nat (nroots rs)]"
  have w: "length p1 = nat (nroots rs)" "codeword rs ?w"
    using encode_rs8_codeword [OF ok _ _ len(4), of d1 invmsk] enc len by auto
  have lenR: "length ?w = length ?R"
    using w(1) par len by (simp add: received_def symbols_def)
  have R: "list_all (fld_of rs) ?R" by (rule received_in [OF rs_okD(2) [OF ok]])
  have "\<not> codeword rs ?R"
  proof
    assume "codeword rs ?R"
    then have "?w = ?R"
      by (rule codeword_distance [OF ok w(2) _ lenR _ diff(2)])
        (use w(1) len rs_okD(5) [OF ok] in \<open>auto simp: symbols_def\<close>)
    with diff(1) show False by (auto simp: hamming_def filter_empty_conv in_set_conv_nth)
  qed
  then have ne: "\<not> list_all (\<lambda>v. v = 0) ?S" using R by (auto simp: codeword_syndrome list_all_iff)
  have "form_syndromes rs d2 p2 len invmsk syn = Some ?S"
    using form_syndromes_eq [OF ok len(1) _ _ syn, of d2 p2 invmsk] len par by simp
  moreover have "length ?S = nat (nroots rs)" "list_all (fld_of rs) ?S"
    using syndrome_in [OF ok R] by (auto simp: list_all_iff)
  ultimately show ?thesis
    using index_syndromes_eq [OF ok, of ?S] ne by blast
qed


lemma symbol_at_8:
  assumes "nn rs = 255"
  shows "symbol rs 0 d = ucast d"
proof -
  have "uint d < 2 ^ 8" using uint_lt2p [of d] by simp
  then have d: "uint (ucast d :: u16) = uint d"
    by (simp add: unsigned_ucast_eq take_bit_int_eq_self)
  have "uint (ucast d AND (255 :: u16)) = uint d AND (2 ^ 8 - 1)"
    by (simp only: uint_and d) simp
  also have "\<dots> = uint (ucast d :: u16)"
    using \<open>uint d < 2 ^ 8\<close> by (simp only: and_mask_mod d) simp
  finally show ?thesis by (simp add: symbol_def assms flip: uint_inject)
qed

theorem rs_decode_detects_witness:
  "\<exists>p1. encode_rs8 (rs_at 32) [1] 1 (replicate 32 0) 0 = Some (0, p1) \<and>
    (\<exists>s err t. form_syndromes (rs_at 32) [2] p1 1 0 (replicate 32 0) = Some s \<and>
      index_syndromes (rs_at 32) s = Some (err, t) \<and> err \<noteq> 0)"
proof -
  have ok: "rs_ok (rs_at 32) 0x187" and n: "nroots (rs_at 32) = 32" "nn (rs_at 32) = 255"
    using rs_at_ok [of 32] rs_at_nn [of 32] by simp_all
  obtain p1 where p1: "encode_rs8 (rs_at 32) [1] 1 (replicate 32 0) 0 = Some (0, p1)" "length p1 = 32"
    "list_all (fld_of (rs_at 32)) p1"
    using encode_then_decode [OF ok, of 1 "[1]" 0 "\<lambda>_ _. 0" 0 None None] n by auto
  have "received (rs_at 32) 0 [2] p1 = symbols (rs_at 32) 0 [2] @ p1"
    using mask_id [OF rs_okD(2) [OF ok]] p1(3) by (auto simp: received_def list_all_iff intro!: map_idI)
  moreover have "add_poly xs xs = replicate (length xs) 0" for xs :: "u16 list"
    by (rule nth_equalityI) simp_all
  ultimately have "hamming (symbols (rs_at 32) 0 [1] @ p1) (received (rs_at 32) 0 [2] p1) = 1"
    by (simp add: hamming_def symbols_def symbol_at_8 [OF n(2)] add_poly_def)
  with rs_decode_detects [OF ok, of 1 "[1]" "[2]" 0 p1 p1 "replicate 32 0"] p1 n show ?thesis
    by simp
qed

text \<open>C8. With a null \<open>eras_pos\<close>'s count of 0, the decoder returns on every received word: it stays
  inside all its arrays, its loops end, and the count that it reports is -EBADMSG or between 0 and
  \<open>nroots\<close>; the length of the data buffer does not change.\<close>

theorem rs_decode_total:
  assumes "rs_ok rs p" and "1 \<le> len" "nat len \<le> length data" "nroots rs + len \<le> nn rs"
    and "nat (nroots rs) \<le> length par"
    and "case corr of None \<Rightarrow> True | Some c \<Rightarrow> nat (nroots rs) \<le> length c"
    and "case eras_pos of None \<Rightarrow> True | Some e \<Rightarrow> nat (nroots rs) \<le> length e"
  shows "\<exists>r. decode_rs8 junk rs (Some data) par len None 0 eras_pos invmsk corr = Some r \<and>
    (d_count r = - 74 \<or> 0 \<le> d_count r \<and> d_count r \<le> nroots rs) \<and>
    map_option length (d_data r) = Some (length data)"
  using decode_rs8_returns [OF assms] by (auto simp: returns_def)

theorem rs_decode_total_witness:
  "\<exists>r. decode_rs8 (\<lambda>k i. word_of_nat (k * i)) (rs_at 32) (Some [1, 2, 3]) (replicate 32 5) 3 None 0 None 0 None = Some r \<and>
    (d_count r = - 74 \<or> 0 \<le> d_count r \<and> d_count r \<le> 32) \<and> map_option length (d_data r) = Some 3"
  using rs_decode_total [of "rs_at 32" "0x187" 3 "[1, 2, 3]" "replicate 32 5" None None "\<lambda>k i. word_of_nat (k * i)" 0]
    rs_at_ok [of 32] rs_at_nn [of 32] by (simp add: numeral_3_eq_3)

text \<open>C11. With two roots the decoder reports 0 errors, and so success, for a word that is not a code
  word, when its first syndrome is not zero and its second is: the locator polynomial of degree 0
  that the Berlekamp-Massey loop leaves has as many roots as the degree, and the code does not
  check for it.\<close>

theorem rs_decode_misses:
  assumes "rs_ok rs p" and "nroots rs = 2" and "1 \<le> len" "nat len = length data" "2 + len \<le> nn rs"
    and "length par = 2"
    and "syndrome rs (received rs invmsk data par) 0 \<noteq> 0" "syndrome rs (received rs invmsk data par) 1 = 0"
  shows "\<not> codeword rs (received rs invmsk data par) \<and>
    decode_rs8 junk rs (Some data) par len None 0 None invmsk None =
      Some \<lparr>d_count = 0, d_data = Some data, d_synd = None, d_eras = None, d_corr = None\<rparr>"
proof
  show "\<not> codeword rs (received rs invmsk data par)"
    using assms(2,7) by (auto simp: codeword_syndrome intro: exI [of _ 0])
  show "decode_rs8 junk rs (Some data) par len None 0 None invmsk None =
      Some \<lparr>d_count = 0, d_data = Some data, d_synd = None, d_eras = None, d_corr = None\<rparr>"
    by (rule two_roots_decode [OF assms(1-3) _ assms(5)]) (use assms in auto)
qed

lemma syndrome_missed:
  "syndrome (rs_at 2) (received (rs_at 2) 0 [0] [1, 2]) 0 = 3"
  "syndrome (rs_at 2) (received (rs_at 2) 0 [0] [1, 2]) 1 = 0"
proof -
  have ok: "rs_ok (rs_at 2) 0x187" and f: "nn (rs_at 2) = 255" "fcr (rs_at 2) = 0" "prim (rs_at 2) = 1" "mm (rs_at 2) = 8"
    using rs_at_ok [of 2] rs_at_nn [of 2] by simp_all
  note F = rs_ok_field [OF ok]
  have R: "received (rs_at 2) 0 [0] [1, 2] = [0, 1, 2]"
    by (simp add: received_def symbols_def symbol_at_8 f)
  have in1: "fld_of (rs_at 2) 1" by (rule log_field.one_in [OF F])
  have m0: "gmul (rs_at 2) k 0 = 0" for k by (rule log_field.mul_zero [OF F])
  have "uint (gmul (rs_at 2) 1 1) = uint (2 :: u16)"
    using gmul_xtime [OF rs_okD(1) [OF ok] in1] f by (simp add: xtime_def)
  then have m1: "gmul (rs_at 2) (Suc 0) 1 = 2" by (simp only: uint_inject One_nat_def)
  show "syndrome (rs_at 2) (received (rs_at 2) 0 [0] [1, 2]) 0 = 3"
    by (simp add: R syndrome_def root_exp_def f m0 log_field.mul_0 [OF F in1])
  show "syndrome (rs_at 2) (received (rs_at 2) 0 [0] [1, 2]) 1 = 0"
    by (simp add: R syndrome_def root_exp_def f m0 m1)
qed

theorem rs_decode_misses_witness:
  "\<not> codeword (rs_at 2) (received (rs_at 2) 0 [0] [1, 2]) \<and>
    decode_rs8 (\<lambda>_ _. 0) (rs_at 2) (Some [0]) [1, 2] 1 None 0 None 0 None =
      Some \<lparr>d_count = 0, d_data = Some [0], d_synd = None, d_eras = None, d_corr = None\<rparr>"
  by (rule rs_decode_misses [of "rs_at 2" "0x187"])
    (use rs_at_ok [of 2] rs_at_nn [of 2] syndrome_missed in simp_all)


section \<open>The class\<close>

lemma RsCodec_new_shares:
  assumes "rs_inv st1" and "objs st1 fresh = None"
    and q: "objs st1 q = Some rs" "rs_matches 8 0x187 None 0 1 32 rs"
    and new: "RsCodec_new malloc junk call fresh st1 = Some (q', st2)"
  shows "q' = q"
proof (rule ccontr)
  assume ne: "q' \<noteq> q"
  obtain r where r: "rs_inv st2" "objs st2 q' = Some r" "rs_matches 8 0x187 None 0 1 32 r"
    "objs st2 q = objs st1 q"
    using RsCodec_new_spec [OF assms(1,2) new] ne by metis
  then have "same_key r rs" using q by (auto simp: same_key_def rs_matches_def)
  with r q ne show False unfolding rs_inv_def by metis
qed

lemma delete_undoes:
  assumes "rs_inv st'" and "objs st' q = Some rs"
    and users: "case objs st q of None \<Rightarrow> users rs = 1 | Some old \<Rightarrow> rs = old\<lparr>users := users old + 1\<rparr> \<and> 1 \<le> users old"
    and same: "\<forall>q'. q' \<noteq> q \<longrightarrow> objs st' q' = objs st q'"
  shows "\<exists>st''. RsCodec_delete q st' = Some st'' \<and> rs_inv st'' \<and> objs st'' = objs st"
proof -
  obtain st'' where st'': "free_rs q st' = Some st''" "rs_inv st''"
    "objs st'' q = (if users rs = 1 then None else Some (rs\<lparr>users := users rs - 1\<rparr>))"
    "\<forall>q'. q' \<noteq> q \<longrightarrow> objs st'' q' = objs st' q'"
    using free_inv [OF assms(1,2)] by blast
  have "objs st'' q = objs st q" using users st''(3) by (auto split: option.splits)
  then have "objs st'' = objs st" using st''(4) same by (metis ext)
  with st'' show ?thesis by (auto simp: RsCodec_delete_def)
qed

text \<open>C10. All \<open>RsCodec\<close> objects share one structure: a second construction returns the address of
  the first and adds one user, and the two destructions give the list back as it was before the
  first construction.\<close>

theorem RsCodec_shared:
  assumes inv: "rs_inv st" and fresh: "objs st a = None" "objs st1 b = None"
    and new: "RsCodec_new malloc junk call a st = Some (q, st1)" "RsCodec_new malloc' junk' call' b st1 = Some (q', st2)"
  shows "q' = q \<and> map_option users (objs st2 q) = map_option (\<lambda>rs. users rs + 1) (objs st1 q) \<and>
    (\<exists>st3 st4. RsCodec_delete q' st2 = Some st3 \<and> RsCodec_delete q st3 = Some st4 \<and>
      objs st3 = objs st1 \<and> objs st4 = objs st \<and> rs_inv st4)"
proof -
  obtain rs where rs: "rs_inv st1" "objs st1 q = Some rs" "rs_matches 8 0x187 None 0 1 32 rs"
    "case objs st q of None \<Rightarrow> users rs = 1 | Some old \<Rightarrow> rs = old\<lparr>users := users old + 1\<rparr>"
    "\<forall>q'. q' \<noteq> q \<longrightarrow> objs st1 q' = objs st q'"
    using RsCodec_new_spec [OF inv fresh(1) new(1)] by blast
  have q: "q' = q" by (rule RsCodec_new_shares [OF rs(1) fresh(2) rs(2,3) new(2)])
  obtain r where r: "rs_inv st2" "objs st2 q = Some r" "r = rs\<lparr>users := users rs + 1\<rparr>"
    "\<forall>q'. q' \<noteq> q \<longrightarrow> objs st2 q' = objs st1 q'"
    using RsCodec_new_spec [OF rs(1) fresh(2) new(2)] rs(2) q by auto
  have u1: "case objs st q of None \<Rightarrow> users rs = 1 | Some old \<Rightarrow> rs = old\<lparr>users := users old + 1\<rparr> \<and> 1 \<le> users old"
    using rs(4) inv by (auto simp: rs_inv_def split: option.splits)
  have u2: "case objs st1 q of None \<Rightarrow> users r = 1 | Some old \<Rightarrow> r = old\<lparr>users := users old + 1\<rparr> \<and> 1 \<le> users old"
    using r(3) rs(1,2) by (auto simp: rs_inv_def)
  obtain st3 where st3: "RsCodec_delete q st2 = Some st3" "rs_inv st3" "objs st3 = objs st1"
    using delete_undoes [OF r(1,2) u2 r(4)] by blast
  moreover obtain st4 where "RsCodec_delete q st3 = Some st4" "rs_inv st4" "objs st4 = objs st"
    using delete_undoes [OF st3(2) _ u1] rs(2,5) st3(3) by auto
  ultimately show ?thesis using q r rs(2) by auto
qed

lemma RsCodec_new_first:
  assumes "RsCodec_new malloc junk call fresh rs_empty = Some (q, st')"
  shows "q = fresh"
proof -
  have "args_ok 8 0 1 32" by (simp add: args_ok_def)
  from init_good_args [OF this] assms show ?thesis
    by (auto simp: RsCodec_new_def init_rs_def rs_empty_def elim!: bindE split: option.splits)
qed

theorem RsCodec_shared_witness:
  "\<exists>q st1 st2. RsCodec_new (\<lambda>_. True) (\<lambda>_ _. 3) (\<lambda>_ x. x) 40 rs_empty = Some (q, st1) \<and>
    RsCodec_new (\<lambda>_. True) (\<lambda>_ _. 3) (\<lambda>_ x. x) 41 st1 = Some (q, st2) \<and>
    (\<exists>st3 st4. RsCodec_delete q st2 = Some st3 \<and> RsCodec_delete q st3 = Some st4 \<and>
      objs st3 = objs st1 \<and> objs st4 = (\<lambda>_. None) \<and> rs_inv st4)"
proof -
  have e: "objs rs_empty = (\<lambda>_. None)" by (simp add: rs_empty_def)
  have f40: "objs rs_empty 40 = None" by (simp add: e)
  obtain q st1 where 1: "RsCodec_new (\<lambda>_. True) (\<lambda>_ _. 3) (\<lambda>_ x. x) 40 rs_empty = Some (q, st1)"
    using RsCodec_new_total [OF rs_inv_empty, of "\<lambda>_. True"] by blast
  have inv: "rs_inv st1" using RsCodec_new_spec [OF rs_inv_empty f40 1] by blast
  obtain q' st2 where 2: "RsCodec_new (\<lambda>_. True) (\<lambda>_ _. 3) (\<lambda>_ x. x) 41 st1 = Some (q', st2)"
    using RsCodec_new_total [OF inv, of "\<lambda>_. True"] by blast
  have "q \<noteq> 41" using RsCodec_new_first [OF 1] by simp
  then have f41: "objs st1 41 = None"
    using RsCodec_new_spec [OF rs_inv_empty f40 1] e by simp
  from RsCodec_shared [OF rs_inv_empty f40 f41 1 2] 1 2 e show ?thesis by auto
qed


lemma init_ignores_lock:
  "init_rs malloc junk call fresh m poly fcr0 prim0 nroots0 st =
    init_rs malloc junk call fresh m poly fcr0 prim0 nroots0 (st\<lparr>rslock := False\<rparr>)"
  by (simp add: init_rs_def init_rs_internal_def mutex_init_def)

text \<open>The lock of the list does not keep \<open>init_rs\<close> out: while another thread holds it, \<open>free_rs\<close>
  waits, but a constructor, whose call of \<open>init_rs\<close> initialises the mutex anew, returns, and
  leaves the mutex free under its holder.\<close>

lemma RsCodec_ignores_lock:
  assumes "rslock st" and "rs_inv (st\<lparr>rslock := False\<rparr>)" and "objs st fresh = None" and "\<forall>k. malloc k"
  shows "free_rs p st = None \<and>
    (\<exists>q st'. RsCodec_new malloc junk call fresh st = Some (q, st') \<and> \<not> rslock st')"
proof
  show "free_rs p st = None" using assms(1) by (simp add: free_rs_def mutex_lock_def)
  obtain q st' where new: "RsCodec_new malloc junk call fresh (st\<lparr>rslock := False\<rparr>) = Some (q, st')"
    using RsCodec_new_total [OF assms(2,4)] by blast
  moreover have "rs_inv st'"
    using RsCodec_new_spec [OF assms(2) _ new] assms(3) by simp
  ultimately show "\<exists>q st'. RsCodec_new malloc junk call fresh st = Some (q, st') \<and> \<not> rslock st'"
    using init_ignores_lock [of malloc junk call fresh 8 "0x187" 0 1 32 st]
    by (auto simp: RsCodec_new_def rs_inv_def)
qed

end
