(* ===== verification/Rs_Corrects.thy ===== *)
theory Rs_Corrects imports Rs_Repair Rs_Correct begin

text \<open>
  The Reed-Solomon codec corrects errors: a word that differs from a code word in at most half as many
  symbols as there are parity symbols is decoded to the data of the code word, with the number of
  changed symbols as the result. \<open>Rs_Repair\<close> has the phases of the decoder; here a received word and a
  code word are turned into positions and values of errors.
\<close>

section \<open>Sums over the changed positions\<close>

lemma xsum_filter:
  assumes "\<And>k. k < m \<Longrightarrow> \<not> P k \<Longrightarrow> f k = 0"
  shows "xsum f m = xsum (\<lambda>l. f (filter P [0..<m] ! l)) (length (filter P [0..<m]))"
  using assms
proof (induction m)
  case (Suc m)
  let ?F = "filter P [0..<m]"
  have "xsum (\<lambda>l. f ((?F @ [m]) ! l)) (length ?F) = xsum (\<lambda>l. f (?F ! l)) (length ?F)"
    by (rule xsum_cong) (simp add: nth_append)
  moreover have "xsum f m = xsum (\<lambda>l. f (?F ! l)) (length ?F)" using Suc by simp
  ultimately show ?case using Suc.prems [of m] by (cases "P m") simp_all
qed simp

context rs_code begin

lemma peval_xsum:
  "list_all (fld_of rs) cs \<Longrightarrow> peval (gmul rs e) cs = xsum (\<lambda>k. times (cs ! k) (A (e * k))) (length cs)"
proof (induction cs)
  case (Cons c cs)
  have "gmul rs e (xsum (\<lambda>k. times (cs ! k) (A (e * k))) (length cs)) =
      times (xsum (\<lambda>k. times (cs ! k) (A (e * k))) (length cs)) (A e)"
    by (rule times_A [symmetric]) (rule xsum_in, rule times_in)
  also have "\<dots> = xsum (\<lambda>k. times (cs ! k) (A (e * Suc k))) (length cs)"
    by (simp only: times_commute [of "xsum _ _"] pr_xsum mult_Suc_right A_add times_commute [of "A e"] times_assoc)
  finally show ?case
    using Cons mul_0 [OF one_in] unfolding peval.simps list.size(4) add_Suc_right add_0_right xsum_Suc_shift by (simp add: A_def)
qed simp

text \<open>The errors of a received word \<open>R\<close> against a code word \<open>C\<close>, by position from the end.\<close>

definition err_at :: "u16 list \<Rightarrow> u16 list \<Rightarrow> nat \<Rightarrow> u16" where
  "err_at R C k = rev (add_poly R C) ! k"

definition err_pos :: "u16 list \<Rightarrow> u16 list \<Rightarrow> nat list" where
  "err_pos R C = filter (\<lambda>k. err_at R C k \<noteq> 0) [0..<length R]"

lemma length_err_pos:
  assumes "length R = length C"
  shows "length (err_pos R C) = hamming R C"
proof -
  have "length (filter (\<lambda>k. xs ! k \<noteq> 0) [0..<length xs]) = length (filter (\<lambda>c. c \<noteq> 0) xs)" for xs :: "u16 list"
    by (rule arg_cong [OF map_nth, where f = "\<lambda>ys. length (filter (\<lambda>c. c \<noteq> 0) ys)", of xs, unfolded filter_map length_map o_def])
  from this [of "rev (add_poly R C)"] show ?thesis
    using assms by (simp add: err_pos_def err_at_def hamming_def rev_filter [symmetric])
qed

lemma error_places_received:
  assumes "length R = length C" "length R \<le> nat (nn rs)" "list_all (fld_of rs) R" "list_all (fld_of rs) C"
  shows "error_places (length R) (length (err_pos R C)) (\<lambda>l. err_pos R C ! l) (err_at R C)"
proof -
  have "fld_of rs (err_at R C k)" if "k < length R" for k
    using assms that xor_in by (simp add: err_at_def rev_nth list_all_length)
  moreover have "err_pos R C ! l < length R \<and> err_at R C (err_pos R C ! l) \<noteq> 0" if "l < length (err_pos R C)" for l
    using nth_mem [OF that] by (auto simp: err_pos_def)
  moreover have "inj_on (\<lambda>l. err_pos R C ! l) {..<length (err_pos R C)}"
    by (rule inj_on_nth) (auto simp: err_pos_def)
  ultimately show ?thesis using assms(2) by (simp add: error_places_def)
qed

lemma received_syndrome:
  assumes len: "length R = length C" and R: "list_all (fld_of rs) R" and C: "codeword rs C" and i: "i < N"
  shows "syndrome rs R i = syndrome_of (length (err_pos R C)) (\<lambda>l. err_pos R C ! l) (err_at R C) i"
proof -
  let ?E = "add_poly R C" and ?e = "root_exp rs i"
  have Cf: "list_all (fld_of rs) C" using C by (simp add: codeword_def)
  have E: "list_all (fld_of rs) (rev ?E)"
    using len R Cf xor_in by (auto simp: list_all_length rev_nth)
  have "horner (gmul rs ?e) ?E 0 = horner (gmul rs ?e) R 0 XOR horner (gmul rs ?e) C 0"
    using horner_add [OF len R Cf zero_in zero_in] by simp
  moreover have "horner (gmul rs ?e) C 0 = 0" using C i by (simp add: codeword_def list_all_iff)
  ultimately have "syndrome rs R i = horner (gmul rs ?e) ?E 0" by (simp add: syndrome_def)
  also have "\<dots> = peval (gmul rs ?e) (rev ?E)" using horner_rev [of _ "rev ?E"] by simp
  also have "\<dots> = xsum (\<lambda>k. times (err_at R C k) (A (?e * k))) (length R)"
    unfolding peval_xsum [OF E] using len by (simp add: err_at_def)
  also have "\<dots> = xsum (\<lambda>l. times (err_at R C (err_pos R C ! l)) (A (?e * (err_pos R C ! l)))) (length (err_pos R C))"
    unfolding err_pos_def by (rule xsum_filter) (simp add: times_zero)
  also have "\<dots> = syndrome_of (length (err_pos R C)) (\<lambda>l. err_pos R C ! l) (err_at R C) i"
    unfolding power_sum_def
  proof (rule xsum_cong)
    fix l
    let ?k = "err_pos R C ! l"
    have "?e * ?k = nat (fcr rs) * (nat (prim rs) * ?k) + nat (prim rs) * ?k * i"
      by (simp add: root_exp_eq [OF ok] algebra_simps)
    then have "A (?e * ?k) = times (A (nat (fcr rs) * (nat (prim rs) * ?k))) (pow (A (nat (prim rs) * ?k)) i)"
      by (simp only: A_add A_mult)
    then show "times (err_at R C ?k) (A (?e * ?k)) = times (weight (\<lambda>l. err_pos R C ! l) (\<lambda>l. err_at R C (err_pos R C ! l)) l) (pow (place (\<lambda>l. err_pos R C ! l) l) i)"
      by (simp only: weight_def place_def times_assoc)
  qed
  finally show ?thesis .
qed

text \<open>What the corrections do to the data.\<close>

lemma repaired_data:
  assumes len: "length R = length C" "N \<le> length R" "length R - N \<le> length d" and i: "i < length R - N"
  shows "repaired (length R) (err_at R C) ((\<lambda>l. err_pos R C ! l) ` {..<length (err_pos R C)}) d ! i =
    d ! i XOR ucast (R ! i XOR C ! i)"
proof -
  let ?M = "length R" and ?k = "length R - 1 - i"
  have k: "?k < ?M" "?M - 1 - ?k = i" "i < length d" "i < ?M" using i len(3) by linarith+
  have e: "err_at R C ?k = R ! i XOR C ! i" using k len(1) by (simp add: err_at_def rev_nth Suc_diff_Suc)
  have "(\<lambda>l. err_pos R C ! l) ` {..<length (err_pos R C)} = set (err_pos R C)"
    by (auto simp: set_conv_nth)
  moreover have "?k \<in> set (err_pos R C) \<longleftrightarrow> R ! i XOR C ! i \<noteq> 0" using k(1) e by (auto simp: err_pos_def)
  ultimately show ?thesis using k i e by (auto simp: repaired_def)
qed

lemma decode_near:
  assumes len: "1 \<le> len" "nat len \<le> length data" "nroots rs + len \<le> nn rs" and par: "N \<le> length par"
    and C: "codeword rs C" "length C = nat len + N"
    and near: "2 * hamming (received rs invmsk (take (nat len) data) (take N par)) C \<le> N"
  defines "R \<equiv> received rs invmsk (take (nat len) data) (take N par)"
  shows "\<exists>data'. decode_rs8 junk rs (Some data) par len None 0 None invmsk None =
      Some \<lparr>d_count = int (hamming R C), d_data = Some data', d_synd = None, d_eras = None, d_corr = None\<rparr> \<and>
    length data' = length data \<and> drop (nat len) data' = drop (nat len) data \<and>
    (\<forall>i < nat len. data' ! i = data ! i XOR ucast (R ! i XOR C ! i))"
proof -
  let ?n = "length (err_pos R C)" and ?pos = "\<lambda>l. err_pos R C ! l"
  have lenR: "length R = nat len + N" using len(2) par by (simp add: R_def received_def symbols_def)
  then have same: "length R = length C" using C(2) by simp
  have R: "list_all (fld_of rs) R" unfolding R_def by (rule received_in [OF sizes])
  have Cf: "list_all (fld_of rs) C" using C(1) by (simp add: codeword_def)
  have n: "?n = hamming R C" by (rule length_err_pos [OF same])
  have run: "decode_rs8 junk rs (Some data) par len None 0 None invmsk None =
    (let pad = nn rs - nroots rs - len;
         res = \<lparr>d_count = 0, d_data = Some data, d_synd = None, d_eras = None, d_corr = None\<rparr> in
     if codeword rs R then Some res
     else decode_from_syndromes junk rs pad (map (\<lambda>i. ix (syndrome rs R i)) [0..<N]) 0 res)"
    using decode_rs8_eq [OF ok len par, of junk 0 None invmsk None] unfolding R_def [symmetric] Let_def .
  show ?thesis
  proof (cases "R = C")
    case True
    have "add_poly C C = replicate (length C) 0" by (intro nth_equalityI) simp_all
    then have "hamming R C = 0" by (simp add: True hamming_def)
    then show ?thesis unfolding run using True C(1) by (simp add: Let_def)
  next
    case False
    have M: "N \<le> length R" "length R - N \<le> length data" "length R \<le> nat (nn rs)"
      using lenR len N_pos by linarith+
    have pad: "nn rs - nroots rs - len = nn rs - int (length R)" using lenR len(1) N_pos by simp
    have near': "2 * ?n \<le> N" using near n by (simp add: R_def)
    have "hamming R C \<noteq> 0"
    proof
      assume "hamming R C = 0"
      then have z: "\<forall>x \<in> set (add_poly R C). x = 0" by (simp add: hamming_def filter_empty_conv)
      have "R = C"
      proof (rule nth_equalityI [OF same])
        fix i assume i: "i < length R"
        then have "add_poly R C ! i \<in> set (add_poly R C)" using same by (intro nth_mem) simp
        then have "add_poly R C ! i = 0" using z by blast
        then show "R ! i = C ! i" using i same by (simp add: xor_eq_0_iff)
      qed
      then show False using False by simp
    qed
    then have pos: "0 < ?n" using n by simp
    have no: "\<not> codeword rs R"
      using False codeword_distance [OF ok _ C(1) same M(3)] near' n by auto
    have S: "map (\<lambda>i. ix (syndrome rs R i)) [0..<N] = map (\<lambda>i. ix (syndrome_of ?n ?pos (err_at R C) i)) [0..<N]"
      using received_syndrome [OF same R C(1)] by simp
    note decode_from_syndromes_eq [OF error_places_received [OF same M(3) R Cf] near' pos pad M(1,2),
      of "\<lparr>d_count = 0, d_data = Some data, d_synd = None, d_eras = None, d_corr = None\<rparr>" junk]
    then have "decode_rs8 junk rs (Some data) par len None 0 None invmsk None =
        Some \<lparr>d_count = int ?n, d_data = Some (repaired (length R) (err_at R C) (?pos ` {..<?n}) data),
          d_synd = None, d_eras = None, d_corr = None\<rparr>"
      unfolding run Let_def S if_not_P [OF no] by simp
    moreover have "drop (nat len) (repaired (length R) (err_at R C) K data) = drop (nat len) data" for K
      using lenR by (intro nth_equalityI) (simp_all add: repaired_def less_diff_conv add.commute)
    ultimately show ?thesis
      using repaired_data [OF same M(1,2)] lenR n by (auto simp: repaired_def)
  qed
qed

end

section \<open>The codec\<close>

interpretation rs256: rs_code "rs_at 32" "0x187"
  by (rule rs_code.intro) (rule rs_at_ok, simp_all)

lemma symbol_repaired:
  "symbol rs invmsk (v XOR ucast (symbol rs invmsk v XOR symbol rs invmsk w)) = symbol rs invmsk w"
  by (rule bit_word_eqI) (auto simp: symbol_def bit_simps dest: bit_imp_le_length)

text \<open>C3. The decoder corrects errors: let \<open>orig\<close> be data bytes and \<open>par0\<close> parity symbols of a code word,
  over any structure that \<open>rs_init\<close> builds. Whatever word is received instead, with at most half as many
  changed symbols as there are parity symbols, anywhere in data and parity, \<open>decode_rs8\<close> returns the
  number of changed symbols and leaves data that stand for the symbols of \<open>orig\<close>; bytes behind the
  message are not touched. This is the Berlekamp-Massey iteration, the Chien search and Forney's
  formula of \<open>decode_rs.h\<close>, with their logarithm tables.\<close>

theorem rs_decode_corrects:
  assumes "rs_ok rs p" and "1 \<le> len" "nat len \<le> length data" "nroots rs + len \<le> nn rs" and "nat (nroots rs) \<le> length par"
    and "codeword rs (symbols rs invmsk orig @ par0)" "length orig = nat len" "length par0 = nat (nroots rs)"
    and "2 * hamming (received rs invmsk (take (nat len) data) (take (nat (nroots rs)) par)) (symbols rs invmsk orig @ par0) \<le> nat (nroots rs)"
  shows "\<exists>data'. decode_rs8 junk rs (Some data) par len None 0 None invmsk None =
      Some \<lparr>d_count = int (hamming (received rs invmsk (take (nat len) data) (take (nat (nroots rs)) par)) (symbols rs invmsk orig @ par0)),
        d_data = Some data', d_synd = None, d_eras = None, d_corr = None\<rparr> \<and>
    length data' = length data \<and> drop (nat len) data' = drop (nat len) data \<and>
    symbols rs invmsk (take (nat len) data') = symbols rs invmsk orig"
proof -
  let ?C = "symbols rs invmsk orig @ par0"
  let ?R = "received rs invmsk (take (nat len) data) (take (nat (nroots rs)) par)"
  obtain data' where d: "decode_rs8 junk rs (Some data) par len None 0 None invmsk None =
      Some \<lparr>d_count = int (hamming ?R ?C), d_data = Some data', d_synd = None, d_eras = None, d_corr = None\<rparr>"
    "length data' = length data" "drop (nat len) data' = drop (nat len) data"
    "\<And>i. i < nat len \<Longrightarrow> data' ! i = data ! i XOR ucast (?R ! i XOR ?C ! i)"
    using rs_code.decode_near [OF rs_code.intro [OF assms(1)] assms(2-6) _ assms(9)] assms(7,8)
    by (auto simp: symbols_def)
  have "?R ! i = symbol rs invmsk (data ! i)" "?C ! i = symbol rs invmsk (orig ! i)" if "i < nat len" for i
    using that assms(3,7) by (simp_all add: received_def symbols_def nth_append)
  then have "symbol rs invmsk (data' ! i) = symbol rs invmsk (orig ! i)" if "i < nat len" for i
    using that d(4) [OF that] by (simp add: symbol_repaired)
  then have "symbols rs invmsk (take (nat len) data') = symbols rs invmsk orig"
    using assms(3,7) d(2) by (intro nth_equalityI) (simp_all add: symbols_def)
  then show ?thesis using d(1-3) by blast
qed

theorem rs_decode_corrects_witness:
  "\<exists>par data'. encode_rs8 (rs_at 32) [72, 105, 33] 3 (replicate 32 0) 0 = Some (0, par) \<and>
    decode_rs8 (\<lambda>_ _. 9) (rs_at 32) (Some [72, 0, 255]) par 3 None 0 None 0 None =
      Some \<lparr>d_count = 2, d_data = Some data', d_synd = None, d_eras = None, d_corr = None\<rparr> \<and>
    symbols (rs_at 32) 0 data' = symbols (rs_at 32) 0 [72, 105, 33]"
proof -
  have ok: "rs_ok (rs_at 32) 0x187" and n: "nroots (rs_at 32) = 32" "nn (rs_at 32) = 255"
    using rs_at_ok [of 32] rs_at_nn [of 32] by simp_all
  obtain par where par: "encode_rs8 (rs_at 32) [72, 105, 33] 3 (replicate 32 0) 0 = Some (0, par)" "length par = 32"
    "list_all (fld_of (rs_at 32)) par" "codeword (rs_at 32) (symbols (rs_at 32) 0 [72, 105, 33] @ par)"
    using encode_then_decode [OF ok, of 3 "[72, 105, 33]" 0 "\<lambda>_ _. 0" 0 None None]
      encode_rs8_codeword [OF ok, of 3 "[72, 105, 33]" 0] n by auto
  have R: "received (rs_at 32) 0 [72, 0, 255] par = symbols (rs_at 32) 0 [72, 0, 255] @ par"
    using mask_id [OF rs_okD(2) [OF ok]] par(3) by (auto simp: received_def list_all_iff intro!: map_idI)
  have "add_poly par par = replicate (length par) 0" by (rule nth_equalityI) simp_all
  then have h: "hamming (received (rs_at 32) 0 [72, 0, 255] par) (symbols (rs_at 32) 0 [72, 105, 33] @ par) = 2"
    unfolding R by (simp add: hamming_def symbols_def symbol_at_8 [OF n(2)] add_poly_def)
  from rs_decode_corrects [OF ok, of 3 "[72, 0, 255]" par 0 "[72, 105, 33]" par "\<lambda>_ _. 9"] par n h
  show ?thesis by auto
qed

text \<open>The number of places where two lists of one length differ.\<close>

definition changed :: "'a list \<Rightarrow> 'a list \<Rightarrow> nat" where
  "changed xs ys = length (filter (\<lambda>t. fst t \<noteq> snd t) (zip xs ys))"

lemma hamming_changed: "hamming xs ys = changed xs ys"
  by (simp add: hamming_def changed_def add_poly_def filter_map o_def xor_eq_0_iff case_prod_beta)

lemma changed_append: "length xs = length ys \<Longrightarrow> changed (xs @ us) (ys @ vs) = changed xs ys + changed us vs"
  by (simp add: changed_def)

lemma changed_commute: "changed xs ys = changed ys xs"
proof (induction xs arbitrary: ys)
  case (Cons x xs)
  then show ?case by (cases ys) (auto simp: changed_def)
qed (simp add: changed_def)

lemma changed_map: "inj f \<Longrightarrow> changed (map f xs) (map f ys) = changed xs ys"
proof (induction xs arbitrary: ys)
  case (Cons x xs)
  then show ?case by (cases ys) (auto simp: changed_def inj_eq)
qed (simp add: changed_def)

text \<open>Over 0x187 with symbols of a byte, data that come near to what was encoded are decoded to it.\<close>

lemma decode_near_8:
  assumes ok: "rs_ok rs 0x187" and n: "mm rs = 8" "nn rs = 255" and len: "1 \<le> len" "nroots rs + len \<le> 255" "length data = nat len"
    and enc: "encode_rs8 rs data len (replicate (nat (nroots rs)) 0) 0 = Some (0, par)"
    and got: "length data' = nat len" "length par' = nat (nroots rs)" "list_all (\<lambda>s. s \<le> 255) par'"
    and near: "2 * (changed data' data + changed par' par) \<le> nat (nroots rs)"
  shows "decode_rs8 junk rs (Some data') par' len None 0 None 0 None =
    Some \<lparr>d_count = int (changed data' data + changed par' par), d_data = Some data, d_synd = None, d_eras = None, d_corr = None\<rparr>"
proof -
  have par: "length par = nat (nroots rs)" "codeword rs (symbols rs 0 data @ par)"
    using encode_rs8_codeword [OF ok, of len data 0] n len enc by auto
  have "list_all (fld_of rs) par'"
    using got(3) by (auto simp: list_all_iff fld_of_def n word_le_def)
  then have mask: "map (\<lambda>q. q AND word_of_int (nn rs)) par' = par'"
    using mask_id [OF rs_okD(2) [OF ok]] by (auto simp: list_all_iff intro!: map_idI)
  have R: "received rs 0 data' par' = symbols rs 0 data' @ par'" unfolding received_def mask ..
  have inj: "inj (symbol rs 0)" using symbol_inject [OF rs_okD(2) [OF ok], of 0] n by (auto intro: injI)
  have h: "hamming (received rs 0 data' par') (symbols rs 0 data @ par) = changed data' data + changed par' par"
    unfolding R hamming_changed using len(3) par(1) got by (simp add: changed_append symbols_def changed_map [OF inj])
  obtain data'' where d: "decode_rs8 junk rs (Some data') par' len None 0 None 0 None =
      Some \<lparr>d_count = int (changed data' data + changed par' par), d_data = Some data'', d_synd = None, d_eras = None, d_corr = None\<rparr>"
    "length data'' = length data'"
    "\<And>i. i < nat len \<Longrightarrow> data'' ! i = data' ! i XOR ucast (received rs 0 data' par' ! i XOR (symbols rs 0 data @ par) ! i)"
    using rs_code.decode_near [OF rs_code.intro [OF ok], of len data' par' "symbols rs 0 data @ par" 0 junk] n par len got near h
    by (auto simp: symbols_def)
  have "data'' = data"
  proof (rule symbols_inject [OF rs_okD(2) [OF ok], of 0], goal_cases)
    case 2
    show ?case
    proof (rule nth_equalityI)
      fix i assume "i < length (symbols rs 0 data'')"
      then have i: "i < nat len" using d(2) got(1) by (simp add: symbols_def)
      then show "symbols rs 0 data'' ! i = symbols rs 0 data ! i"
        using d(3) [OF i] d(2) got(1) len(3) symbol_repaired [of rs 0 "data' ! i" "data ! i"]
        by (simp add: R symbols_def nth_append)
    qed (use d(2) got(1) len(3) in \<open>simp add: symbols_def\<close>)
  qed (use n in simp)
  then show ?thesis using d(1) by simp
qed

lemma RsCodec_decode_near:
  assumes rs: "objs st q = Some rs" "rs255 rs" and data: "length data = 223" and enc: "RsCodec_Encode st q data (replicate 32 0) = Some (0, par)"
    and got: "length data' = 223" "length par' = 32" "list_all (\<lambda>s. s \<le> 255) par'"
    and near: "changed data' data + changed par' par \<le> 16"
  shows "RsCodec_Decode junk st q data' par' = Some (int (changed data' data + changed par' par), data)"
proof -
  have ok: "rs_ok rs 0x187" and n: "nroots rs = 32" "nn rs = 255" "mm rs = 8"
    using rs255_nn [OF rs(2)] rs(2) by (auto simp: rs255_def)
  have "encode_rs8 rs data 223 (replicate 32 0) 0 = Some (0, par)" using enc rs(1) by (simp add: RsCodec_Encode_def)
  from decode_near_8 [OF ok n(3,2), of 223 data par data' par' junk] this n data got near rs(1)
  show ?thesis by (simp add: RsCodec_Decode_def)
qed

text \<open>C4. The class \<open>RsCodec\<close> corrects 16 bytes: in every state of the list that its operations can
  leave, an object that was constructed encodes any 223 bytes to 32 parity symbols that fit in a byte
  each; and whatever at most 16 of the 255 bytes of the code word are changed, anywhere and to anything,
  \<open>Decode\<close> of the same object gives back the bytes that were encoded, and the number of changed bytes.\<close>

theorem RsCodec_corrects:
  assumes "rs_inv st" and "objs st fresh = None" and "RsCodec_new malloc junk call fresh st = Some (q, st')"
    and "length data = 223"
  shows "\<exists>par. RsCodec_Encode st' q data (replicate 32 0) = Some (0, par) \<and> length par = 32 \<and> list_all (\<lambda>s. s \<le> 255) par \<and>
    (\<forall>junk' data' par'. length data' = 223 \<longrightarrow> length par' = 32 \<longrightarrow> list_all (\<lambda>s. s \<le> 255) par' \<longrightarrow>
      changed data' data + changed par' par \<le> 16 \<longrightarrow>
      RsCodec_Decode junk' st' q data' par' = Some (int (changed data' data + changed par' par), data))"
proof -
  obtain rs where rs: "objs st' q = Some rs" "rs255 rs" using RsCodec_new_spec [OF assms(1-3)] by blast
  obtain par where par: "RsCodec_Encode st' q data (replicate 32 0) = Some (0, par)" "length par = 32" "list_all (\<lambda>s. s \<le> 255) par"
    using RsCodec_encode_decode [OF rs assms(4)] by auto
  show ?thesis using par RsCodec_decode_near [OF rs assms(4) par(1)] by blast
qed

theorem RsCodec_corrects_witness:
  "\<exists>q st par. RsCodec_new (\<lambda>_. True) (\<lambda>_ _. 3) (\<lambda>_ x. x) 40 rs_empty = Some (q, st) \<and>
    RsCodec_Encode st q (replicate 223 65) (replicate 32 0) = Some (0, par) \<and>
    RsCodec_Decode (\<lambda>_ _. 8) st q (66 # replicate 222 65) par = Some (1, replicate 223 65)"
proof -
  obtain q st where new: "RsCodec_new (\<lambda>_. True) (\<lambda>_ _. 3) (\<lambda>_ x. x) 40 rs_empty = Some (q, st)"
    using RsCodec_new_total [OF rs_inv_empty, of "\<lambda>_. True"] by blast
  have f: "objs rs_empty 40 = None" by (simp add: rs_empty_def)
  have same: "changed xs xs = 0" for xs :: "'z list" by (induction xs) (simp_all add: changed_def)
  have "changed (66 # replicate 222 65) (65 # replicate 222 (65 :: byte)) = 1"
    using same [of "replicate 222 (65 :: byte)"] by (simp add: changed_def)
  moreover have "65 # replicate 222 (65 :: byte) = replicate 223 65" by (simp add: replicate_Suc [symmetric])
  ultimately have c: "changed (66 # replicate 222 65) (replicate 223 (65 :: byte)) + changed par par = 1" for par :: "u16 list"
    using same by simp
  obtain par where par: "RsCodec_Encode st q (replicate 223 65) (replicate 32 0) = Some (0, par)" "length par = 32" "list_all (\<lambda>s. s \<le> 255) par"
    "\<And>junk' data' par'. length data' = 223 \<Longrightarrow> length par' = 32 \<Longrightarrow> list_all (\<lambda>s. s \<le> 255) par' \<Longrightarrow>
      changed data' (replicate 223 65) + changed par' par \<le> 16 \<Longrightarrow>
      RsCodec_Decode junk' st q data' par' = Some (int (changed data' (replicate 223 65) + changed par' par), replicate 223 65)"
    using RsCodec_corrects [OF rs_inv_empty f new, of "replicate 223 65"] by auto
  from par(4) [of "66 # replicate 222 65" par] show ?thesis using par(1-3) new c by auto
qed

end
