(* ===== verification/Aesthete.thy ===== *)
theory Aesthete imports Prelude begin

text \<open>
  \<open>experimental/lib/src/aesthete.h\<close> and \<open>aesthete.cc\<close>: the 48-bit representation of one
  8x8 JPEG block. A block is a 4x4 grid of 2x2 cells, each cell holds one of eight grey levels
  (three bits), so a block carries 16 indices = 48 bits = 6 bytes. \<open>std::bitset<N>\<close> is a list
  of \<open>N\<close> booleans, bit 0 first; a \<open>MatrixRepresentation\<close> is its only field \<open>bits_\<close>.

  The lemmas show that the three views of a block (6 bytes, 48 bits, 16 indices) are in
  bijection, so that what \<open>ToInts\<close> writes into an image and \<open>InitFromInts\<close> reads back from
  one is the byte string that \<open>InitFromString\<close> was given.
\<close>

section \<open>Bitsets and bytes\<close>

text \<open>\<open>std::bitset<48>::reset()\<close>, and the value that the constructor gives.\<close>

definition reset48 :: "bool list" where
  "reset48 = replicate 48 False"

text \<open>
  \<open>bitset_to_bytes\<close>: \<open>result[j >> 3] |= (bs[j] << (j & 7))\<close> for every bit. The shift is done
  in \<open>int\<close> and stored in an \<open>unsigned char\<close>.
\<close>

definition bitset_to_bytes :: "bool list \<Rightarrow> byte list option" where
  "bitset_to_bytes bs =
     for_in [0..<length bs]
       (\<lambda>j result. do {
          r \<leftarrow> rd result (j div 8);
          b \<leftarrow> rd bs j;
          wr result (j div 8) (r OR push_bit (j mod 8) (of_bool b)) })
       (replicate ((length bs + 7) div 8) 0)"

text \<open>
  \<open>((input[j >> 3] >> (j & 7)) & 1)\<close>: the byte is promoted to \<open>int\<close> first, with its sign
  when the buffer is of plain \<open>char\<close>, and shifted arithmetically.
\<close>

definition bit_of_char :: "byte \<Rightarrow> nat \<Rightarrow> bool" where
  "bit_of_char c k \<longleftrightarrow> signed_drop_bit k (scast c :: 32 word) AND 1 \<noteq> 0"

definition bit_of_uchar :: "byte \<Rightarrow> nat \<Rightarrow> bool" where
  "bit_of_uchar c k \<longleftrightarrow> signed_drop_bit k (ucast c :: 32 word) AND 1 \<noteq> 0"

definition InitFromString_char :: "byte list \<Rightarrow> bool list option" where
  "InitFromString_char input =
     for_in [0..<48]
       (\<lambda>j bits. do { c \<leftarrow> rd input (j div 8); wr bits j (bit_of_char c (j mod 8)) })
       reset48"

definition InitFromString :: "byte list \<Rightarrow> bool list option" where
  "InitFromString input =
     for_in [0..<48]
       (\<lambda>j bits. do { c \<leftarrow> rd input (j div 8); wr bits j (bit_of_uchar c (j mod 8)) })
       reset48"

text \<open>\<open>BitsetFromBytes\<close> is static and writes through its \<open>bits\<close> pointer.\<close>

definition BitsetFromBytes :: "byte list \<Rightarrow> bool list \<Rightarrow> bool list option" where
  "BitsetFromBytes input bits =
     for_in [0..<48]
       (\<lambda>j bits. do { c \<leftarrow> rd input (j div 8); wr bits j (bit_of_char c (j mod 8)) })
       (replicate (length bits) False)"

definition ToString :: "bool list \<Rightarrow> byte list option" where
  "ToString bits = bitset_to_bytes bits"

section \<open>The sixteen indices\<close>

text \<open>
  \<open>InitFromInts\<close> checks the number of values, then checks each value and stores its three
  low bits. The check lets \<open>kNumDiscretizations = 8\<close> itself pass.
\<close>

definition InitFromInts :: "int list \<Rightarrow> bool list option" where
  "InitFromInts values = do {
     check (length values = 16);
     for_in [0..<length values]
       (\<lambda>i bits. do {
          val \<leftarrow> rd values i;
          check (val \<ge> 0);
          check (val \<le> 8);
          bits \<leftarrow> wr bits (i * 3 + 0) (val AND 1 \<noteq> 0);
          bits \<leftarrow> wr bits (i * 3 + 1) (val AND 2 \<noteq> 0);
          wr bits (i * 3 + 2) (val AND 4 \<noteq> 0) })
       reset48 }"

text \<open>\<open>operator()(x, y)\<close>: the value of the cell in column \<open>x\<close> of row \<open>y\<close>.\<close>

definition cell_at :: "bool list \<Rightarrow> int \<Rightarrow> int \<Rightarrow> int option" where
  "cell_at bits x y = do {
     let start_idx = y * 12 + x * 3;
     v0 \<leftarrow> rdz bits (start_idx + 0);
     v1 \<leftarrow> rdz bits (start_idx + 1);
     v2 \<leftarrow> rdz bits (start_idx + 2);
     single_char \<leftarrow> bitset_to_bytes [v0, v1, v2];
     check (length single_char = 1);
     c \<leftarrow> rd single_char 0;
     Some (uint c) }"

definition ToInts :: "bool list \<Rightarrow> int list option" where
  "ToInts bits =
     for_in [0..<16]
       (\<lambda>i output. do { v \<leftarrow> cell_at bits (int i mod 4) (int i div 4); Some (output @ [v]) })
       []"

section \<open>Averaging the cells of a block\<close>

text \<open>
  The mean of four \<open>unsigned char\<close>s is a multiple of 1/4 below 256, which a \<open>double\<close> holds
  exactly, so \<open>rat\<close> is its value. \<open>None\<close> as \<open>output\<close> is the null pointer that \<open>CHECK_NOTNULL\<close>
  rejects.
\<close>

definition AverageAestheteBlocks :: "byte list list \<Rightarrow> rat list list option \<Rightarrow> rat list list option" where
  "AverageAestheteBlocks input output =
     (case output of
        None \<Rightarrow> None
      | Some out \<Rightarrow>
          for_in [0, 2, 4, 6] (\<lambda>i out.
            for_in [0, 2, 4, 6] (\<lambda>j out. do {
              a \<leftarrow> mget input i j;
              b \<leftarrow> mget input (i + 1) j;
              c \<leftarrow> mget input i (j + 1);
              d \<leftarrow> mget input (i + 1) (j + 1);
              mset_at out (i div 2) (j div 2)
                (of_int (uint a + uint b + uint c + uint d) / 4) }) out) out)"

section \<open>What the representation promises\<close>

subsection \<open>Bytes to bits\<close>

lemma and_one_nonzero: "x AND 1 \<noteq> 0 \<longleftrightarrow> bit x 0" for x :: "'a::len word"
  by (simp add: and_one_eq mod2_eq_if bit_0)

lemma bit_of_uchar_eq [simp]: "k < 8 \<Longrightarrow> bit_of_uchar c k \<longleftrightarrow> bit c k"
  unfolding bit_of_uchar_def and_one_nonzero
  by (simp only: bit_signed_drop_bit_iff bit_ucast_iff) auto

lemma bit_of_char_eq [simp]: "k < 8 \<Longrightarrow> bit_of_char c k \<longleftrightarrow> bit c k"
  unfolding bit_of_char_def and_one_nonzero
  by (simp only: bit_signed_drop_bit_iff bit_word_scast_iff) (auto simp: min_def)

lemma length_reset48 [len_simps]: "length reset48 = 48"
  by (simp add: reset48_def)

text \<open>The bits of a byte string, least significant bit of the first byte first.\<close>

definition bits_of :: "byte list \<Rightarrow> bool list" where
  "bits_of bs = map (\<lambda>j. bit (bs ! (j div 8)) (j mod 8)) [0..<8 * length bs]"

text \<open>A loop that writes every bit of a bitset in turn returns what it wrote.\<close>

lemma write_bits:
  assumes "length bs = n" and "\<And>j. j < n \<Longrightarrow> f j = Some (g j)"
  shows "for_in [0..<n] (\<lambda>j bits. do { c \<leftarrow> f j; wr bits j c }) bs = Some (map g [0..<n])"
proof -
  let ?P = "\<lambda>k bits. length bits = n \<and> (\<forall>j < k. bits ! j = g j)"
  have "\<exists>bits. for_in [0..<n] (\<lambda>j bits. do { c \<leftarrow> f j; wr bits j c }) bs = Some bits \<and> ?P n bits"
    by (rule for_in_upt [where P = ?P])
      (use assms in \<open>auto simp: access_simps nth_list_update less_Suc_eq\<close>)
  then obtain bits where "for_in [0..<n] (\<lambda>j bits. do { c \<leftarrow> f j; wr bits j c }) bs = Some bits"
    and "?P n bits" by blast
  moreover from this have "bits = map g [0..<n]"
    by (intro nth_equalityI) auto
  ultimately show ?thesis by simp
qed

lemma InitFromString_eq:
  assumes "6 \<le> length input"
  shows "InitFromString input = Some (bits_of (take 6 input))"
proof -
  have "InitFromString input = for_in [0..<48]
     (\<lambda>j bits. do { c \<leftarrow> rd input (j div 8) \<bind> (\<lambda>c. Some (bit_of_uchar c (j mod 8))); wr bits j c }) reset48"
    by (simp add: InitFromString_def)
  also have "\<dots> = Some (map (\<lambda>j. bit (input ! (j div 8)) (j mod 8)) [0..<48])"
    by (rule write_bits) (use assms in \<open>auto simp: len_simps access_simps\<close>)
  also have "\<dots> = Some (bits_of (take 6 input))"
    using assms by (auto simp: bits_of_def)
  finally show ?thesis .
qed

lemma length_bits_of [len_simps]: "length (bits_of bs) = 8 * length bs"
  by (simp add: bits_of_def)

lemma InitFromString_char_eq: "InitFromString_char input = InitFromString input"
  unfolding InitFromString_char_def InitFromString_def by (intro for_in_cong) auto

lemma BitsetFromBytes_eq: "length bits = 48 \<Longrightarrow> BitsetFromBytes input bits = InitFromString input"
  unfolding InitFromString_char_eq [symmetric] BitsetFromBytes_def InitFromString_char_def reset48_def
  by simp

subsection \<open>Bits to bytes\<close>

lemma bitset_to_bytes_spec:
  "\<exists>bytes. bitset_to_bytes bs = Some bytes \<and> length bytes = (length bs + 7) div 8 \<and>
     (\<forall>i < length bytes. \<forall>k < 8. bit (bytes ! i) k \<longleftrightarrow> 8 * i + k < length bs \<and> bs ! (8 * i + k))"
proof -
  let ?n = "(length bs + 7) div 8"
  let ?P = "\<lambda>j (res :: byte list). length res = ?n \<and>
    (\<forall>i < ?n. \<forall>k < 8. bit (res ! i) k \<longleftrightarrow> 8 * i + k < j \<and> bs ! (8 * i + k))"
  have "\<exists>bytes. bitset_to_bytes bs = Some bytes \<and> ?P (length bs) bytes"
    unfolding bitset_to_bytes_def
  proof (rule for_in_upt [where P = ?P])
    fix j and res :: "byte list"
    assume j: "j < length bs" and P: "?P j res"
    let ?res' = "res[j div 8 := res ! (j div 8) OR push_bit (j mod 8) (of_bool (bs ! j))]"
    have jn: "j div 8 < ?n" using j by auto
    have "bit (?res' ! i) k \<longleftrightarrow> 8 * i + k < Suc j \<and> bs ! (8 * i + k)" if "i < ?n" "k < 8" for i k
    proof (cases "i = j div 8")
      case False
      then have "8 * i + k \<noteq> j" using that by auto
      with False P that show ?thesis by auto
    next
      case True
      have "k = j mod 8 \<longleftrightarrow> 8 * i + k = j" unfolding True using \<open>k < 8\<close> by presburger
      with True P that jn show ?thesis
        by (auto simp: bit_simps less_Suc_eq)
    qed
    with P jn j show "\<exists>s'. do { r \<leftarrow> rd res (j div 8); b \<leftarrow> rd bs j;
        wr res (j div 8) (r OR push_bit (j mod 8) (of_bool b)) } = Some s' \<and> ?P (Suc j) s'"
      by (simp add: access_simps)
  qed auto
  then show ?thesis by auto
qed

lemma bitset_to_bytes_bits_of: "bitset_to_bytes (bits_of bs) = Some bs"
proof -
  obtain bytes where b: "bitset_to_bytes (bits_of bs) = Some bytes"
    "length bytes = (8 * length bs + 7) div 8"
    "\<forall>i < length bytes. \<forall>k < 8. bit (bytes ! i) k \<longleftrightarrow>
       8 * i + k < 8 * length bs \<and> bits_of bs ! (8 * i + k)"
    using bitset_to_bytes_spec [of "bits_of bs"] by (auto simp: len_simps)
  have "bytes = bs"
  proof (rule nth_equalityI)
    show "length bytes = length bs" using b(2) by simp
    fix i assume i: "i < length bytes"
    show "bytes ! i = bs ! i"
    proof (rule bit_word_eqI)
      fix k assume "k < LENGTH(8)"
      with i b(2,3) show "bit (bytes ! i) k = bit (bs ! i) k"
        by (simp add: bits_of_def)
    qed
  qed
  with b(1) show ?thesis by simp
qed

lemma bits_of_bitset_to_bytes:
  assumes "bitset_to_bytes bs = Some bytes" and "length bs = 8 * n"
  shows "bits_of bytes = bs"
proof -
  have "length bytes = n" "\<forall>i < n. \<forall>k < 8. bit (bytes ! i) k \<longleftrightarrow> bs ! (8 * i + k)"
    using bitset_to_bytes_spec [of bs] assms by auto
  with assms(2) show ?thesis
    by (intro nth_equalityI) (auto simp: bits_of_def)
qed

subsection \<open>Bits to indices and back\<close>

definition tri :: "bool list \<Rightarrow> nat \<Rightarrow> int" where
  "tri bits i = of_bool (bits ! (3 * i)) + 2 * of_bool (bits ! (3 * i + 1)) + 4 * of_bool (bits ! (3 * i + 2))"

lemma tri_range: "0 \<le> tri bits i \<and> tri bits i < 8"
  by (simp add: tri_def of_bool_def)

lemma bitset_to_bytes_3:
  "bitset_to_bytes [b0, b1, b2] = Some [of_bool b0 + 2 * of_bool b1 + 4 * of_bool b2]"
  by (cases b0; cases b1; cases b2)
    (simp_all add: bitset_to_bytes_def upt_rec rd_def wr_def)

lemma cell_at_eq:
  assumes "length bits = 48" and "i < 16"
  shows "cell_at bits (int i mod 4) (int i div 4) = Some (tri bits i)"
proof -
  have s: "int i div 4 * 12 + int i mod 4 * 3 = int (3 * i)" by presburger
  have r: "rdz bits (int (3 * i) + c) = Some (bits ! (3 * i + nat c))" if "0 \<le> c" "c < 3" for c
    using that assms by (auto simp: rdz_def rd_def nat_add_distrib nat_mult_distrib)
  show ?thesis
    unfolding cell_at_def Let_def s
    using r [of 0] r [of 1] r [of 2]
    by (auto simp: bitset_to_bytes_3 rd_def tri_def of_bool_def)
qed

lemma ToInts_eq:
  assumes "length bits = 48"
  shows "ToInts bits = Some (map (tri bits) [0..<16])"
proof -
  have "ToInts bits = for_in [0..<16] (\<lambda>i output. Some (output @ [tri bits i])) []"
    unfolding ToInts_def by (intro for_in_cong) (use assms in \<open>auto simp: cell_at_eq\<close>)
  also have "\<dots> = Some (fold (\<lambda>i output. output @ [tri bits i]) [0..<16] [])"
    by (simp add: for_in_total)
  also have "fold (\<lambda>i output. output @ [tri bits i]) [0..<16] [] = map (tri bits) [0..<16]"
    by (simp add: upt_rec)
  finally show ?thesis .
qed

lemma and_int_bits:
  "(v::int) AND 1 \<noteq> 0 \<longleftrightarrow> bit v 0" "v AND 2 \<noteq> 0 \<longleftrightarrow> bit v 1" "v AND 4 \<noteq> 0 \<longleftrightarrow> bit v 2"
  using and_exp_eq_0_iff_not_bit [of v 0] and_exp_eq_0_iff_not_bit [of v 1]
    and_exp_eq_0_iff_not_bit [of v 2]
  by auto

lemma InitFromInts_eq:
  assumes "length values = 16" and "\<forall>v\<in>set values. 0 \<le> v \<and> v \<le> 8"
  shows "InitFromInts values = Some (map (\<lambda>j. bit (values ! (j div 3)) (j mod 3)) [0..<48])"
proof -
  let ?f = "\<lambda>i bits. do { val \<leftarrow> rd values i; check (val \<ge> 0); check (val \<le> 8);
      bits \<leftarrow> wr bits (i * 3 + 0) (val AND 1 \<noteq> 0);
      bits \<leftarrow> wr bits (i * 3 + 1) (val AND 2 \<noteq> 0);
      wr bits (i * 3 + 2) (val AND 4 \<noteq> 0) }"
  let ?P = "\<lambda>i bits. length bits = 48 \<and>
    (\<forall>j < 3 * i. bits ! j = bit (values ! (j div 3)) (j mod 3))"
  have "\<exists>bits. for_in [0..<16] ?f reset48 = Some bits \<and> ?P 16 bits"
  proof (rule for_in_upt [where P = ?P])
    fix i bits
    assume i: "i < 16" and P: "?P i bits"
    let ?v = "values ! i"
    let ?b = "bits[i * 3 := bit ?v 0, Suc (i * 3) := bit ?v 1, Suc (Suc (i * 3)) := bit ?v 2]"
    have v: "rd values i = Some ?v" "0 \<le> ?v" "?v \<le> 8"
      using assms i by (auto simp: rd_def)
    have "?b ! j = bit (values ! (j div 3)) (j mod 3)" if "j < 3 * Suc i" for j
    proof (cases "j < 3 * i")
      case True
      with P show ?thesis by auto
    next
      case False
      with that have "j = i * 3 \<or> j = Suc (i * 3) \<or> j = Suc (Suc (i * 3))" by auto
      with P i show ?thesis by (auto simp: nth_list_update mod_Suc div_Suc numeral_2_eq_2)
    qed
    with P i v show "\<exists>s'. ?f i bits = Some s' \<and> ?P (Suc i) s'"
      by (auto simp: and_int_bits wr_def)
  qed (auto simp: len_simps)
  then obtain bits where b: "for_in [0..<16] ?f reset48 = Some bits" "?P 16 bits" by blast
  have "bits = map (\<lambda>j. bit (values ! (j div 3)) (j mod 3)) [0..<48]"
    using b(2) by (intro nth_equalityI) auto
  with b(1) assms(1) show ?thesis
    by (simp add: InitFromInts_def)
qed

lemma InitFromInts_fails:
  assumes "length values \<noteq> 16 \<or> (\<exists>v\<in>set values. v < 0 \<or> 8 < v)"
  shows "InitFromInts values = None"
proof (cases "length values = 16")
  case True
  with assms obtain i where "i < 16" "values ! i < 0 \<or> 8 < values ! i"
    by (auto simp: in_set_conv_nth)
  with True show ?thesis
    unfolding InitFromInts_def by (auto intro!: for_in_fails [of i] simp: rd_def check_def)
next
  case False
  then show ?thesis by (simp add: InitFromInts_def)
qed

lemma tri_of_ints:
  assumes "i < 16" and "0 \<le> v" and "v = values ! i"
  shows "tri (map (\<lambda>j. bit (values ! (j div 3)) (j mod 3)) [0..<48]) i = v mod 8"
proof -
  have "take_bit 3 v = v mod 8"
    by (simp add: take_bit_eq_mod)
  moreover have "take_bit 3 v = of_bool (bit v 0) + 2 * of_bool (bit v 1) + 4 * of_bool (bit v 2)"
    by (simp add: take_bit_Suc_from_most numeral_3_eq_3 numeral_2_eq_2)
  moreover have "3 * i + 1 < 48" "3 * i + 2 < 48" "3 * i < 48" "(3 * i + 1) div 3 = i"
    "(3 * i + 2) div 3 = i" "(3 * i + 1) mod 3 = 1" "(3 * i + 2) mod 3 = 2"
    using assms(1) by (auto simp: mod_Suc)
  ultimately show ?thesis
    using assms(3) by (simp add: tri_def)
qed

lemma bits_of_tri:
  assumes "j < 48"
  shows "bit (tri bits (j div 3)) (j mod 3) = bits ! j"
proof -
  have "j = 3 * (j div 3) + j mod 3" by simp
  moreover have "j mod 3 = 0 \<or> j mod 3 = 1 \<or> j mod 3 = 2" by presburger
  moreover have "bit (of_bool a + 2 * of_bool b + 4 * of_bool c :: int) 0 = a"
    "bit (of_bool a + 2 * of_bool b + 4 * of_bool c :: int) 1 = b"
    "bit (of_bool a + 2 * of_bool b + 4 * of_bool c :: int) 2 = c" for a b c
    by (cases a; cases b; cases c; simp add: bit_iff_odd)+
  ultimately show ?thesis
    unfolding tri_def by (metis add.right_neutral)
qed

lemma InitFromInts_ToInts:
  assumes "length bits = 48"
  shows "do { ints \<leftarrow> ToInts bits; InitFromInts ints } = Some bits"
proof -
  have "InitFromInts (map (tri bits) [0..<16]) =
      Some (map (\<lambda>j. bit (map (tri bits) [0..<16] ! (j div 3)) (j mod 3)) [0..<48])"
    by (rule InitFromInts_eq) (use tri_range [of bits] in \<open>auto simp: less_imp_le\<close>)
  also have "map (\<lambda>j. bit (map (tri bits) [0..<16] ! (j div 3)) (j mod 3)) [0..<48] = bits"
    using assms by (intro nth_equalityI) (auto simp: bits_of_tri)
  finally show ?thesis
    using assms by (simp add: ToInts_eq)
qed

subsection \<open>Averages\<close>

definition cell_mean :: "byte list list \<Rightarrow> nat \<Rightarrow> nat \<Rightarrow> rat" where
  "cell_mean m p q =
     of_int (uint (m ! (2 * p) ! (2 * q)) + uint (m ! (2 * p + 1) ! (2 * q))
       + uint (m ! (2 * p) ! (2 * q + 1)) + uint (m ! (2 * p + 1) ! (2 * q + 1))) / 4"

lemma stride_2: "[0, 2, 4, 6] = map (\<lambda>p. 2 * p) [0..<4 :: nat]"
  by (simp add: upt_rec)

lemma AverageAestheteBlocks_eq:
  assumes "dims 8 8 input" and "dims 4 4 out"
  shows "AverageAestheteBlocks input (Some out) = Some (map (\<lambda>p. map (cell_mean input p) [0..<4]) [0..<4])"
proof -
  have "AverageAestheteBlocks input (Some out) = fill 4 4
      (\<lambda>p q. do { a \<leftarrow> mget input (2 * p) (2 * q); b \<leftarrow> mget input (2 * p + 1) (2 * q);
        c \<leftarrow> mget input (2 * p) (2 * q + 1); d \<leftarrow> mget input (2 * p + 1) (2 * q + 1);
        Some (of_int (uint a + uint b + uint c + uint d) / 4) }) out"
    unfolding AverageAestheteBlocks_def fill_def stride_2 for_in_map option.case
    by (simp add: Option.bind_assoc)
  also have "\<dots> = Some (map (\<lambda>p. map (cell_mean input p) [0..<4]) [0..<4])"
    using assms(1)
    by (intro fill_eq [OF assms(2)]) (auto simp: access_simps cell_mean_def)
  finally show ?thesis .
qed

lemma cell_mean_const:
  assumes "\<And>i j. i < 8 \<Longrightarrow> j < 8 \<Longrightarrow> m ! i ! j = f (i div 2) (j div 2)" and "p < 4" "q < 4"
  shows "cell_mean m p q = of_int (uint (f p q))"
  using assms(2,3) by (simp add: cell_mean_def assms(1))

section \<open>Properties\<close>

text \<open>C18. The byte, bit and index views of a block agree: reading six bytes into a
  \<open>MatrixRepresentation\<close>, taking its sixteen indices, storing those in another one and printing
  it gives back the six bytes. This is the identity that the experiment relies on between what
  it embeds in an image and what it reads back when the channel is clean.\<close>

theorem block_bytes_roundtrip:
  assumes "6 \<le> length input"
  shows "do { bits \<leftarrow> InitFromString input; ints \<leftarrow> ToInts bits;
              bits' \<leftarrow> InitFromInts ints; ToString bits' } = Some (take 6 input)"
proof -
  have "length (bits_of (take 6 input)) = 48"
    using assms by (simp add: len_simps)
  from InitFromInts_ToInts [OF this]
  obtain ints where "ToInts (bits_of (take 6 input)) = Some ints"
    and "InitFromInts ints = Some (bits_of (take 6 input))"
    by (auto simp: bind_eq_Some_conv)
  with assms show ?thesis
    by (simp add: InitFromString_eq ToString_def bitset_to_bytes_bits_of)
qed

theorem block_bytes_roundtrip_witness:
  "6 \<le> length [200, 1, 2, 255, 77, 128 :: byte] \<and>
   do { bits \<leftarrow> InitFromString [200, 1, 2, 255, 77, 128]; ints \<leftarrow> ToInts bits;
        bits' \<leftarrow> InitFromInts ints; ToString bits' } = Some [200, 1, 2, 255, 77, 128]"
  using block_bytes_roundtrip [of "[200, 1, 2, 255, 77, 128]"] by simp

text \<open>\<open>InitFromInts\<close> returns exactly for sixteen values between 0 and 8, and what \<open>ToInts\<close>
  then reads is each value modulo 8. So the values 0 to 7 survive, and the value 8, which the
  check \<open>CHECK_LE(val, kNumDiscretizations)\<close> lets pass, silently becomes 0: a one-past-the-end
  index of the eight discretizations is taken for the first of them.\<close>

lemma InitFromInts_ToInts_values:
  "do { bits \<leftarrow> InitFromInts values; ToInts bits } =
     (if length values = 16 \<and> list_all (\<lambda>v. 0 \<le> v \<and> v \<le> 8) values
      then Some (map (\<lambda>v. v mod 8) values) else None)"
proof (cases "length values = 16 \<and> list_all (\<lambda>v. 0 \<le> v \<and> v \<le> 8) values")
  case True
  then have "\<forall>v\<in>set values. 0 \<le> v \<and> v \<le> 8" by (auto simp: list_all_iff)
  moreover from this True have "map (tri (map (\<lambda>j. bit (values ! (j div 3)) (j mod 3)) [0..<48])) [0..<16] =
      map (\<lambda>v. v mod 8) values"
    by (intro nth_equalityI) (auto simp: tri_of_ints)
  ultimately show ?thesis
    using True by (simp add: InitFromInts_eq ToInts_eq)
next
  case False
  then have "length values \<noteq> 16 \<or> (\<exists>v\<in>set values. v < 0 \<or> 8 < v)"
    by (auto simp: list_all_iff not_le)
  from InitFromInts_fails [OF this] False show ?thesis by auto
qed

text \<open>The two overloads of \<open>InitFromString\<close> and the static \<open>BitsetFromBytes\<close> read the same
  bits from the same memory: the sign extension that a plain \<open>char\<close> undergoes before the
  shift never reaches the bit that is kept.\<close>

lemma InitFromString_overloads_agree:
  "InitFromString_char input = InitFromString input \<and>
   BitsetFromBytes input reset48 = InitFromString input"
  by (simp add: InitFromString_char_eq BitsetFromBytes_eq length_reset48)

end
