(* ===== verification/Discretizations.thy ===== *)
theory Discretizations imports Prelude begin

text \<open>
  \<open>experimental/lib/src/discretizations.h\<close>: the grey levels that an image can carry, kept in a
  \<open>std::set\<close> ordered by \<open>operator >\<close>, and the search for the level closest to a value that was
  read back from a JPEG.

  A set is the list of its elements in iteration order, so an iterator is an index and
  \<open>end()\<close> the length. A \<open>double\<close> is its rational value: every value compared here is a
  multiple of 1/4 below 256, on which double arithmetic is exact.

  \<open>FindClosest\<close> reads \<open>upper->data\<close> before it compares \<open>upper\<close> with \<open>end()\<close>; the parameter
  \<open>past\<close> is the number that this read past the last element finds in memory.
\<close>

section \<open>The ordered set\<close>

definition DiscretizationCompare :: "rat \<Rightarrow> rat \<Rightarrow> bool" where
  "DiscretizationCompare left right \<longleftrightarrow> left > right"

fun set_insert :: "rat \<Rightarrow> rat list \<Rightarrow> rat list" where
  "set_insert v [] = [v]"
| "set_insert v (x # xs) =
     (if DiscretizationCompare x v then x # set_insert v xs
      else if DiscretizationCompare v x then v # x # xs
      else x # xs)"

text \<open>The first element that goes after the key.\<close>

definition upper_bound :: "rat list \<Rightarrow> rat \<Rightarrow> nat" where
  "upper_bound xs key = length (takeWhile (\<lambda>e. \<not> DiscretizationCompare key e) xs)"

definition deref :: "rat \<Rightarrow> rat list \<Rightarrow> nat \<Rightarrow> rat" where
  "deref past xs it = (if it < length xs then xs ! it else past)"

definition FindClosest :: "rat \<Rightarrow> rat list \<Rightarrow> rat \<Rightarrow> nat" where
  "FindClosest past xs searchkey =
     (let upper = upper_bound xs searchkey in
      if upper = 0 \<or> deref past xs upper = searchkey then upper
      else
        let lower = upper - 1 in
        if upper = length xs \<or>
           searchkey - deref past xs lower > deref past xs upper - searchkey
        then lower else upper)"

text \<open>
  The eight levels of the experiments: the vector that \<open>EccExperiment\<close> and \<open>AestheteRunner\<close>
  fill with \<open>push_back\<close>, and the set that \<open>EccExperiment\<close> fills with \<open>insert\<close> in the same order.
\<close>

definition discretizations :: "int list" where
  "discretizations = [240, 208, 176, 144, 112, 80, 48, 16]"

definition set_discretizations :: "rat list" where
  "set_discretizations = fold (\<lambda>v. set_insert (of_int v)) discretizations []"

section \<open>The set is kept in descending order\<close>

definition descending :: "rat list \<Rightarrow> bool" where
  "descending xs \<longleftrightarrow> sorted_wrt (>) xs"

lemma set_set_insert: "set (set_insert v xs) = insert v (set xs)"
  by (induction xs) (auto simp: DiscretizationCompare_def not_less)

lemma descending_set_insert: "descending xs \<Longrightarrow> descending (set_insert v xs)"
  by (induction xs) (auto simp: descending_def set_set_insert DiscretizationCompare_def)

lemma set_discretizations_eq: "set_discretizations = map of_int discretizations"
  by (simp add: set_discretizations_def discretizations_def DiscretizationCompare_def)

section \<open>The search\<close>

lemma upper_bound_le: "upper_bound xs key \<le> length xs"
  by (simp add: upper_bound_def length_takeWhile_le)

lemma before_upper_bound: "i < upper_bound xs key \<Longrightarrow> key \<le> xs ! i"
  unfolding upper_bound_def DiscretizationCompare_def
  by (metis (no_types, lifting) nth_mem set_takeWhileD takeWhile_nth not_less)

lemma at_upper_bound:
  assumes "upper_bound xs key < length xs"
  shows "xs ! upper_bound xs key < key"
  using assms nth_length_takeWhile [of "\<lambda>e. \<not> DiscretizationCompare key e" xs]
  by (simp add: upper_bound_def DiscretizationCompare_def)

lemma descending_nth: "descending xs \<Longrightarrow> i \<le> j \<Longrightarrow> j < length xs \<Longrightarrow> xs ! j \<le> xs ! i"
  unfolding descending_def sorted_wrt_iff_nth_less
  by (cases "i = j") (auto simp: less_le)

text \<open>
  When the stray read does not happen to find the key itself, the search returns an element, and
  no element of the set is closer to the key.
\<close>

lemma FindClosest_nearest:
  assumes "descending xs" and "xs \<noteq> []" and "past \<noteq> key"
  shows "FindClosest past xs key < length xs \<and>
    (\<forall>j < length xs. \<bar>xs ! FindClosest past xs key - key\<bar> \<le> \<bar>xs ! j - key\<bar>)"
proof -
  define u where "u = upper_bound xs key"
  have before: "key \<le> xs ! j" if "j < u" for j
    using that before_upper_bound unfolding u_def by blast
  have at: "xs ! u < key" if "u < length xs"
    using that at_upper_bound unfolding u_def by blast
  have below: "xs ! j \<le> xs ! u" "xs ! u < key" if "u \<le> j" "j < length xs" for j
    using that at descending_nth [OF assms(1), of u j] by auto
  have above: "xs ! (u - 1) \<le> xs ! j" "key \<le> xs ! j" "key \<le> xs ! (u - 1)"
    if "j < u" "u \<le> length xs" for j
    using that before [of j] before [of "u - 1"] descending_nth [OF assms(1), of j "u - 1"] by auto
  have ulen: "u \<le> length xs" by (simp add: u_def upper_bound_le)
  have dist_below: "\<bar>xs ! u - key\<bar> \<le> \<bar>xs ! j - key\<bar>" if "u \<le> j" "j < length xs" for j
    using below [OF that] by linarith
  have dist_above: "\<bar>xs ! (u - 1) - key\<bar> \<le> \<bar>xs ! j - key\<bar>" if "j < u" for j
    using above [OF that ulen] by linarith
  show ?thesis
  proof (cases "u = 0")
    case True
    then have "FindClosest past xs key = u"
      by (simp add: FindClosest_def u_def [symmetric])
    with True dist_below assms(2) show ?thesis by auto
  next
    case False
    have ne: "deref past xs u \<noteq> key"
      using assms(3) at by (auto simp: deref_def)
    show ?thesis
    proof (cases "u = length xs \<or> key - xs ! (u - 1) > xs ! u - key")
      case True
      then have fc: "FindClosest past xs key = u - 1"
        using False ne ulen by (auto simp: FindClosest_def Let_def u_def [symmetric] deref_def)
      have "\<bar>xs ! (u - 1) - key\<bar> \<le> \<bar>xs ! j - key\<bar>" if j: "j < length xs" for j
      proof (cases "j < u")
        case lt: False
        with True j below [of j] above(3) [of 0] False ulen show ?thesis by auto
      qed (rule dist_above)
      with fc False ulen show ?thesis by auto
    next
      case close: False
      then have u: "u < length xs" using ulen by auto
      with close False ne have fc: "FindClosest past xs key = u"
        by (auto simp: FindClosest_def Let_def u_def [symmetric] deref_def)
      have "\<bar>xs ! u - key\<bar> \<le> \<bar>xs ! j - key\<bar>" if j: "j < length xs" for j
      proof (cases "j < u")
        case True
        with close at [OF u] above [OF True ulen] show ?thesis by auto
      qed (use j dist_below in auto)
      with fc u show ?thesis by auto
    qed
  qed
qed

text \<open>
  The search separates the eight levels: a value that lies above \<open>level - 16\<close> and not above
  \<open>level + 16\<close> is classified as that level.
\<close>

lemma FindClosest_level:
  assumes "i < 8" and "past \<noteq> key"
    and "of_int (discretizations ! i) - 16 < key" and "key \<le> of_int (discretizations ! i) + 16"
  shows "FindClosest past set_discretizations key = i"
proof -
  have "i \<in> {0, 1, 2, 3, 4, 5, 6, 7}" using assms(1) by auto
  with assms(2-) show ?thesis
    by (elim insertE emptyE)
      (simp_all add: FindClosest_def upper_bound_def set_discretizations_eq discretizations_def
        DiscretizationCompare_def deref_def Let_def not_less)
qed

section \<open>The interface to the decoder\<close>

text \<open>
  What a decoder needs of a set of levels: sixteen indices come back from their levels as long as
  each value that is read is one the search is defined on (\<open>valid\<close>) and lies within the tolerance
  of the level that was written.
\<close>

locale quantizer =
  fixes level :: "nat \<Rightarrow> rat" and classify :: "rat \<Rightarrow> nat" and levels :: nat and tol :: rat
    and valid :: "rat \<Rightarrow> bool"
  assumes classify_level:
      "i < levels \<Longrightarrow> valid v \<Longrightarrow> level i - tol < v \<Longrightarrow> v \<le> level i + tol \<Longrightarrow> classify v = i"
    and tol_pos: "0 < tol"
begin

lemma classify_exact: "i < levels \<Longrightarrow> valid (level i) \<Longrightarrow> classify (level i) = i"
  using classify_level [of i "level i"] tol_pos by simp

lemma classify_noisy:
  assumes "i < levels" and "valid v" and "\<bar>v - level i\<bar> < tol"
  shows "classify v = i"
  using assms by (intro classify_level) (auto simp: abs_if split: if_splits)

lemma classify_map:
  assumes "\<And>k. k < n \<Longrightarrow> f k < levels" and "\<And>k. k < n \<Longrightarrow> valid (v k)"
    and "\<And>k. k < n \<Longrightarrow> \<bar>v k - level (f k)\<bar> < tol"
  shows "map (\<lambda>k. classify (v k)) [0..<n] = map f [0..<n]"
  using assms by (auto intro: classify_noisy)

end

text \<open>The set of the experiments provides it: eight levels 32 apart tolerate a noise of 16.\<close>

interpretation q8: quantizer "\<lambda>i. of_int (discretizations ! i)"
  "\<lambda>v. FindClosest past set_discretizations v" 8 16 "\<lambda>v. v \<noteq> past" for past
  by unfold_locales (auto intro: FindClosest_level)

text \<open>
  The means that are looked up are multiples of 1/4. With libstdc++ the stray read finds the
  element count of the set seen as a \<open>double\<close>, a denormal number, which is none.
\<close>

definition quarter :: "rat \<Rightarrow> bool" where
  "quarter v \<longleftrightarrow> (\<exists>k :: int. v = of_int k / 4)"

section \<open>Properties\<close>

text \<open>\<open>FindClosest\<close> on a set in descending order returns an element of it, and no other
  element is closer to the key, provided the value that the code reads past the last element
  before it looks for the end is not the key.\<close>

lemma FindClosest_is_closest:
  assumes "descending xs" and "xs \<noteq> []" and "past \<noteq> key"
  shows "FindClosest past xs key < length xs \<and>
    (\<forall>j. j < length xs \<longrightarrow> \<bar>xs ! FindClosest past xs key - key\<bar> \<le> \<bar>xs ! j - key\<bar>)"
  using FindClosest_nearest [OF assms] by blast

text \<open>The read past the end matters: when the memory behind the set holds the key and every
  level is at least the key, \<open>FindClosest\<close> returns \<open>end()\<close>, whose distance from \<open>begin()\<close>
  is the number of levels and not an index of one.\<close>

lemma FindClosest_stray_read:
  assumes "xs \<noteq> []" and "list_all (\<lambda>e. key \<le> e) xs"
  shows "FindClosest key xs key = length xs"
proof -
  have "takeWhile (\<lambda>e. \<not> DiscretizationCompare key e) xs = xs"
    using assms(2) by (induction xs) (auto simp: DiscretizationCompare_def)
  then have "upper_bound xs key = length xs"
    by (simp only: upper_bound_def)
  with assms(1) show ?thesis by (simp add: FindClosest_def deref_def)
qed

end
