(* ===== verification/Image.thy ===== *)
theory Image imports Prelude begin

text \<open>
  \<open>experimental/lib/src/array.h\<close>, \<open>array.cc\<close> and \<open>ecc_image.h\<close>: the pixel buffer that blocks
  are painted into. \<open>array<unsigned char>\<close> is the record of its three fields (\<open>im_data\<close> is \<open>data\<close> and so on); the data is a row
  major buffer of \<open>w * h\<close> bytes whose rows hold three bytes per pixel, and an access outside
  of it ends the run.

  The four painting functions write the same twelve bytes per 2x2 cell. The lemmas reduce
  \<open>FillFromInts\<close> and both \<open>FillBlockFromInts\<close> to one statement about the pixels of a block,
  and show what \<open>FillMatrixFromBlock\<close> reads.
\<close>

section \<open>Constants and the buffer\<close>

definition kBlocksWide :: nat where "kBlocksWide = 17"
definition kBlocksHigh :: nat where "kBlocksHigh = 5"
definition kPixelDimPerBlock :: nat where "kPixelDimPerBlock = 8"
definition kCharsPerPixel :: nat where "kCharsPerPixel = 3"
definition kMatrixStrBytes :: nat where "kMatrixStrBytes = 6"

record image =
  im_data :: "byte list"
  im_w :: int
  im_h :: int

text \<open>The constructor leaves the buffer as \<open>new\<close> returned it: \<open>heap\<close> is its contents.\<close>

definition array_new :: "byte list \<Rightarrow> int \<Rightarrow> int \<Rightarrow> image option" where
  "array_new heap width height = do {
     check (int (length heap) = width * height);
     Some \<lparr>im_data = heap, im_w = width, im_h = height\<rparr> }"

definition array_at :: "image \<Rightarrow> int \<Rightarrow> int \<Rightarrow> byte option" where
  "array_at im x y = rdz (im_data im) (y * im_w im + x)"

section \<open>Painting\<close>

text \<open>The twelve assignments of a cell at row \<open>r\<close> and pixel column \<open>c\<close>; \<open>value\<close> is converted to
  \<open>unsigned char\<close>.\<close>

definition write6 :: "int \<Rightarrow> int \<Rightarrow> byte list \<Rightarrow> byte list option" where
  "write6 base value d = for_in [0..<6] (\<lambda>k d. wrz d (base + int k) (word_of_int value)) d"

definition write_cell :: "int \<Rightarrow> int \<Rightarrow> int \<Rightarrow> int \<Rightarrow> byte list \<Rightarrow> byte list option" where
  "write_cell width r c value d = do {
     d \<leftarrow> write6 (r * width + 3 * c) value d;
     write6 ((r + 1) * width + 3 * c) value d }"

text \<open>\<open>rand\<close> is the sequence of values that \<open>rand()\<close> returns.\<close>

definition RandomAesthete :: "(nat \<Rightarrow> nat) \<Rightarrow> int list \<Rightarrow> image \<Rightarrow> image option" where
  "RandomAesthete rand values im = do {
     d \<leftarrow> for_in [0..<4] (\<lambda>i. for_in [0..<4] (\<lambda>j d. do {
            check (values \<noteq> []);
            value \<leftarrow> rd values (rand (4 * i + j) mod length values);
            write_cell (im_w im) (2 * int i) (2 * int j) value d })) (im_data im);
     Some (im\<lparr>im_data := d\<rparr>) }"

definition FillFromInts :: "int list \<Rightarrow> int list \<Rightarrow> image \<Rightarrow> image option" where
  "FillFromInts indices values im = do {
     check (length indices = 16);
     check (length values = 8);
     d \<leftarrow> for_in [0, 2, 4, 6] (\<lambda>i. for_in [0, 2, 4, 6] (\<lambda>j d. do {
            value_index \<leftarrow> rd indices (i div 2 * 4 + j div 2);
            value \<leftarrow> rdz values value_index;
            write_cell (im_w im) (int i) (int j) value d })) (im_data im);
     Some (im\<lparr>im_data := d\<rparr>) }"

text \<open>The overload on \<open>std::vector\<close> checks both lengths.\<close>

definition FillBlockFromInts_vector :: "int list \<Rightarrow> int list \<Rightarrow> int \<Rightarrow> int \<Rightarrow> image \<Rightarrow> image option" where
  "FillBlockFromInts_vector indices values block_h block_w im = do {
     check (length indices = 16);
     check (length values = 8);
     let init_h = block_h * 8;
     let init_w = block_w * 8;
     d \<leftarrow> for_in [0..<4] (\<lambda>i. for_in [0..<4] (\<lambda>j d. do {
            let hi = init_h + 2 * int i;
            let wi = init_w + 2 * int j;
            value_index \<leftarrow> rd indices (i * 4 + j);
            value \<leftarrow> rdz values value_index;
            write_cell (im_w im) hi wi value d })) (im_data im);
     Some (im\<lparr>im_data := d\<rparr>) }"

text \<open>The overload on \<open>StackVector\<close> checks the number of indices only.\<close>

definition FillBlockFromInts :: "int list \<Rightarrow> int list \<Rightarrow> int \<Rightarrow> int \<Rightarrow> image \<Rightarrow> image option" where
  "FillBlockFromInts indices values block_h block_w im = do {
     check (length indices = 16);
     let init_h = block_h * 8;
     let init_w = block_w * 8;
     d \<leftarrow> for_in [0..<4] (\<lambda>i. for_in [0..<4] (\<lambda>j d. do {
            let hi = init_h + 2 * int i;
            let wi = init_w + 2 * int j;
            value_index \<leftarrow> rd indices (i * 4 + j);
            value \<leftarrow> rdz values value_index;
            write_cell (im_w im) hi wi value d })) (im_data im);
     Some (im\<lparr>im_data := d\<rparr>) }"

text \<open>
  The stride is the constant \<open>kBlocksWide * kPixelDimPerBlock * 3\<close> and not \<open>w\<close>. The null pointer
  is \<open>None\<close>.
\<close>

definition FillMatrixFromBlock ::
  "int \<Rightarrow> int \<Rightarrow> image \<Rightarrow> byte list list option \<Rightarrow> byte list list option" where
  "FillMatrixFromBlock block_h block_w im lum_matrix =
     (case lum_matrix of
        None \<Rightarrow> None
      | Some m \<Rightarrow> do {
          check (dims 8 8 m);
          let init_h = block_h * 8;
          let init_w = block_w * 8;
          fill kPixelDimPerBlock kPixelDimPerBlock
            (\<lambda>i j. rdz (im_data im)
               ((init_h + int i) * int (kBlocksWide * kPixelDimPerBlock * 3) + (init_w + 3 * int j))) m })"

section \<open>Rows and columns of the buffer\<close>

text \<open>The byte of column \<open>x\<close> in row \<open>r\<close>, and the buffers that really have \<open>w * h\<close> bytes.\<close>

definition px :: "image \<Rightarrow> nat \<Rightarrow> nat \<Rightarrow> byte" where
  "px im r x = im_data im ! (r * nat (im_w im) + x)"

definition image_ok :: "nat \<Rightarrow> nat \<Rightarrow> image \<Rightarrow> bool" where
  "image_ok width height im \<longleftrightarrow>
     im_w im = int width \<and> im_h im = int height \<and> length (im_data im) = width * height"

lemma row_col_bound: "r < n \<Longrightarrow> x < m \<Longrightarrow> r * m + x < m * (n :: nat)"
proof -
  assume "r < n" "x < m"
  then have "r * m + x < Suc r * m" by simp
  also have "\<dots> \<le> n * m" using \<open>r < n\<close> by (intro mult_le_mono1) simp
  finally show ?thesis by (simp add: mult.commute)
qed

lemma row_col_inj:
  assumes "x < m" and "x' < (m :: nat)"
  shows "r * m + x = r' * m + x' \<longleftrightarrow> r = r' \<and> x = x'"
proof
  assume e: "r * m + x = r' * m + x'"
  from assms have "r = (r * m + x) div m" "r' = (r' * m + x') div m" by auto
  with e have "r = r'" by simp
  with e show "r = r' \<and> x = x'" by simp
qed simp

lemma array_at_px:
  assumes "image_ok width height im" and "x < width" "r < height"
  shows "array_at im (int x) (int r) = Some (px im r x)"
proof -
  have "int r * im_w im + int x = int (r * width + x)"
    using assms(1) by (simp add: image_ok_def)
  then have "array_at im (int x) (int r) = rd (im_data im) (r * width + x)"
    by (simp only: array_at_def rdz_of_nat)
  with assms row_col_bound [of r height x width] show ?thesis
    by (simp add: image_ok_def px_def rd_def)
qed

lemma write6_spec:
  assumes "base + 6 \<le> length d"
  shows "\<exists>d'. write6 (int base) v d = Some d' \<and> length d' = length d \<and>
    (\<forall>k. d' ! k = (if base \<le> k \<and> k < base + 6 then word_of_int v else d ! k))"
proof -
  let ?P = "\<lambda>n d'. length d' = length d \<and>
    (\<forall>k. d' ! k = (if base \<le> k \<and> k < base + n then word_of_int v else d ! k))"
  have "\<exists>d'. write6 (int base) v d = Some d' \<and> ?P 6 d'"
    unfolding write6_def
  proof (rule for_in_upt [where P = ?P])
    fix n d'
    assume n: "n < 6" and P: "?P n d'"
    have "wrz d' (int base + int n) (word_of_int v) = Some (d'[base + n := word_of_int v])"
      using assms n P by (simp add: wrz_def wr_def nat_add_distrib)
    moreover have "?P (Suc n) (d'[base + n := word_of_int v])"
      using P assms n by (auto simp: nth_list_update)
    ultimately show "\<exists>s'. wrz d' (int base + int n) (word_of_int v) = Some s' \<and> ?P (Suc n) s'"
      by blast
  qed auto
  then show ?thesis .
qed

text \<open>A cell is written into two rows and six columns of the buffer and nowhere else.\<close>

lemma write_cell_spec:
  assumes "length d = width * height" and "r + 1 < height" and "3 * c + 6 \<le> width"
  shows "\<exists>d'. write_cell (int width) (int r) (int c) v d = Some d' \<and> length d' = length d \<and>
    (\<forall>r' < height. \<forall>x < width. d' ! (r' * width + x) =
       (if (r' = r \<or> r' = r + 1) \<and> 3 * c \<le> x \<and> x < 3 * c + 6 then word_of_int v
        else d ! (r' * width + x)))"
proof -
  let ?b = "\<lambda>r. r * width + 3 * c"
  have fits: "?b r' + 6 \<le> length d" if "r' < height" for r'
    using row_col_bound [OF that, of "3 * c + 5" width] assms(1,3) by simp
  have in_row: "?b r0 \<le> r' * width + x \<and> r' * width + x < ?b r0 + 6 \<longleftrightarrow>
      r' = r0 \<and> 3 * c \<le> x \<and> x < 3 * c + 6" if x: "x < width" for r0 r' x
  proof
    assume *: "?b r0 \<le> r' * width + x \<and> r' * width + x < ?b r0 + 6"
    then obtain y where y: "r' * width + x = r0 * width + (3 * c + y)" "y < 6"
      by (metis add.assoc le_Suc_ex nat_add_left_cancel_less)
    then show "r' = r0 \<and> 3 * c \<le> x \<and> x < 3 * c + 6"
      using row_col_inj [of x width "3 * c + y" r' r0] x assms(3) by auto
  qed auto
  obtain d1 where d1: "write6 (int (?b r)) v d = Some d1" "length d1 = length d"
    "\<forall>k. d1 ! k = (if ?b r \<le> k \<and> k < ?b r + 6 then word_of_int v else d ! k)"
    using write6_spec [OF fits [of r], of v] assms(2) by auto
  obtain d2 where d2: "write6 (int (?b (r + 1))) v d1 = Some d2" "length d2 = length d1"
    "\<forall>k. d2 ! k = (if ?b (r + 1) \<le> k \<and> k < ?b (r + 1) + 6 then word_of_int v else d1 ! k)"
    using write6_spec [of "?b (r + 1)" d1 v] fits [of "r + 1"] assms(2) d1(2) by auto
  have "write_cell (int width) (int r) (int c) v d = Some d2"
    using d1(1) d2(1) by (simp add: write_cell_def algebra_simps)
  moreover have "d2 ! (r' * width + x) =
       (if (r' = r \<or> r' = r + 1) \<and> 3 * c \<le> x \<and> x < 3 * c + 6 then word_of_int v
        else d ! (r' * width + x))" if "x < width" for r' x
    using in_row [OF that, of r r'] in_row [OF that, of "r + 1" r'] d1(3) d2(3) by simp
  ultimately show ?thesis using d1(2) d2(2) by auto
qed

section \<open>Painting a block\<close>

text \<open>What the double loop of the painting functions does, for whatever value each cell gets.\<close>

definition paint :: "int \<Rightarrow> int \<Rightarrow> int \<Rightarrow> (nat \<Rightarrow> nat \<Rightarrow> int option) \<Rightarrow> byte list \<Rightarrow> byte list option" where
  "paint width init_h init_w f d =
     for_in [0..<4] (\<lambda>i. for_in [0..<4] (\<lambda>j d. do {
        value \<leftarrow> f i j;
        write_cell width (init_h + 2 * int i) (init_w + 2 * int j) value d })) d"

lemma paint_row:
  assumes "length d = width * height" and "r + 1 < height" and "3 * c + 24 \<le> width"
    and "\<And>j. j < 4 \<Longrightarrow> f j = Some (g j)"
  shows "\<exists>d'. for_in [0..<4] (\<lambda>j d. do { value \<leftarrow> f j;
        write_cell (int width) (int r) (int c + 2 * int j) value d }) d = Some d' \<and>
    length d' = length d \<and>
    (\<forall>r' < height. \<forall>x < width. d' ! (r' * width + x) =
       (if (r' = r \<or> r' = r + 1) \<and> 3 * c \<le> x \<and> x < 3 * c + 24
        then word_of_int (g ((x - 3 * c) div 6)) else d ! (r' * width + x)))"
proof -
  let ?P = "\<lambda>n d'. length d' = length d \<and>
    (\<forall>r' < height. \<forall>x < width. d' ! (r' * width + x) =
       (if (r' = r \<or> r' = r + 1) \<and> 3 * c \<le> x \<and> x < 3 * c + 6 * n
        then word_of_int (g ((x - 3 * c) div 6)) else d ! (r' * width + x)))"
  have "\<exists>d'. for_in [0..<4] (\<lambda>j d. do { value \<leftarrow> f j;
        write_cell (int width) (int r) (int c + 2 * int j) value d }) d = Some d' \<and> ?P 4 d'"
  proof (rule for_in_upt [where P = ?P])
    fix n d'
    assume n: "n < 4" and P: "?P n d'"
    have len: "length d' = width * height" using P assms(1) by simp
    have col: "3 * (c + 2 * n) + 6 \<le> width" using assms(3) n by simp
    obtain d2 where d2: "write_cell (int width) (int r) (int (c + 2 * n)) (g n) d' = Some d2"
      "length d2 = length d'"
      "\<forall>r' < height. \<forall>x < width. d2 ! (r' * width + x) =
         (if (r' = r \<or> r' = r + 1) \<and> 3 * (c + 2 * n) \<le> x \<and> x < 3 * (c + 2 * n) + 6
          then word_of_int (g n) else d' ! (r' * width + x))"
      using write_cell_spec [OF len assms(2) col, of "g n"] by blast
    have div6: "(x - 3 * c) div 6 = n" if "3 * (c + 2 * n) \<le> x" "x < 3 * (c + 2 * n) + 6" for x
    proof -
      from that have "x - 3 * c = 6 * n + (x - 3 * c - 6 * n)" "x - 3 * c - 6 * n < 6" by auto
      then show ?thesis by (metis add_cancel_left_right div_less div_mult_self4 zero_neq_numeral)
    qed
    have "?P (Suc n) d2"
      using d2(2,3) P div6 by auto
    with d2(1) assms(4) [OF n]
    show "\<exists>s'. do { value \<leftarrow> f n; write_cell (int width) (int r) (int c + 2 * int n) value d' } = Some s'
      \<and> ?P (Suc n) s'" by simp
  qed auto
  then show ?thesis by simp
qed

lemma paint_spec:
  assumes "length d = width * height" and "r + 8 \<le> height" and "3 * c + 24 \<le> width"
    and "\<And>i j. i < 4 \<Longrightarrow> j < 4 \<Longrightarrow> f i j = Some (g i j)"
  shows "\<exists>d'. paint (int width) (int r) (int c) f d = Some d' \<and> length d' = length d \<and>
    (\<forall>r' < height. \<forall>x < width. d' ! (r' * width + x) =
       (if r \<le> r' \<and> r' < r + 8 \<and> 3 * c \<le> x \<and> x < 3 * c + 24
        then word_of_int (g ((r' - r) div 2) ((x - 3 * c) div 6)) else d ! (r' * width + x)))"
proof -
  let ?P = "\<lambda>n d'. length d' = length d \<and>
    (\<forall>r' < height. \<forall>x < width. d' ! (r' * width + x) =
       (if r \<le> r' \<and> r' < r + 2 * n \<and> 3 * c \<le> x \<and> x < 3 * c + 24
        then word_of_int (g ((r' - r) div 2) ((x - 3 * c) div 6)) else d ! (r' * width + x)))"
  have "\<exists>d'. paint (int width) (int r) (int c) f d = Some d' \<and> ?P 4 d'"
    unfolding paint_def
  proof (rule for_in_upt [where P = ?P])
    fix n d'
    assume n: "n < 4" and P: "?P n d'"
    let ?body = "for_in [0..<4] (\<lambda>j d. do { value \<leftarrow> f n j;
        write_cell (int width) (int r + 2 * int n) (int c + 2 * int j) value d })"
    have len: "length d' = width * height" using P assms(1) by simp
    have row: "(r + 2 * n) + 1 < height" using assms(2) n by simp
    obtain d2 where d2: "?body d' = Some d2" "length d2 = length d'"
      "\<forall>r' < height. \<forall>x < width. d2 ! (r' * width + x) =
         (if (r' = r + 2 * n \<or> r' = r + 2 * n + 1) \<and> 3 * c \<le> x \<and> x < 3 * c + 24
          then word_of_int (g n ((x - 3 * c) div 6)) else d' ! (r' * width + x))"
      using paint_row [OF len row assms(3), of "f n" "g n"] assms(4) n by auto
    have "?P (Suc n) d2"
      using d2(2,3) P by (auto simp: less_Suc_eq)
    with d2(1) show "\<exists>s'. ?body d' = Some s' \<and> ?P (Suc n) s'" by blast
  qed auto
  then show ?thesis by simp
qed


definition cell_value :: "int list \<Rightarrow> int list \<Rightarrow> nat \<Rightarrow> nat \<Rightarrow> int option" where
  "cell_value indices values i j = do {
     value_index \<leftarrow> rd indices (i * 4 + j);
     rdz values value_index }"

lemma FillBlockFromInts_paint:
  "FillBlockFromInts indices values block_h block_w im = do {
     check (length indices = 16);
     d \<leftarrow> paint (im_w im) (block_h * 8) (block_w * 8) (cell_value indices values) (im_data im);
     Some (im\<lparr>im_data := d\<rparr>) }"
  unfolding FillBlockFromInts_def paint_def cell_value_def Let_def Option.bind_assoc ..

text \<open>The two overloads differ in the check of the number of values only.\<close>

lemma FillBlockFromInts_vector_eq:
  "FillBlockFromInts_vector indices values block_h block_w im =
     (if length values = 8 then FillBlockFromInts indices values block_h block_w im else None)"
  unfolding FillBlockFromInts_vector_def FillBlockFromInts_def Let_def
  by (cases "length indices = 16") (simp_all add: check_def)

text \<open>\<open>FillFromInts\<close> paints block (0, 0).\<close>

lemma FillFromInts_eq:
  "FillFromInts indices values im = FillBlockFromInts_vector indices values 0 0 im"
proof -
  have stride: "[0, 2, 4, 6] = map (\<lambda>p. 2 * p) [0..<4 :: nat]" by (simp add: upt_rec)
  show ?thesis
    unfolding FillFromInts_def FillBlockFromInts_vector_def stride for_in_map Let_def
    by simp
qed

definition indices_ok :: "int list \<Rightarrow> bool" where
  "indices_ok indices \<longleftrightarrow> length indices = 16 \<and> (\<forall>i\<in>set indices. 0 \<le> i \<and> i < 8)"

lemma cell_index: "i < 4 \<Longrightarrow> j < 4 \<Longrightarrow> i * 4 + j < (16 :: nat)"
  by simp

lemma indices_ok_nth:
  assumes "indices_ok indices" and "k < 16"
  shows "0 \<le> indices ! k \<and> indices ! k < 8 \<and> nat (indices ! k) < 8"
proof -
  have "indices ! k \<in> set indices" using assms by (simp add: indices_ok_def)
  with assms(1) show ?thesis by (auto simp: indices_ok_def)
qed

lemma cell_value_eq:
  assumes "indices_ok indices" and "length values = 8" and "i < 4" "j < 4"
  shows "cell_value indices values i j = Some (values ! nat (indices ! (i * 4 + j)))"
  using indices_ok_nth [OF assms(1) cell_index [OF assms(3,4)]] cell_index [OF assms(3,4)] assms(1,2)
  by (simp add: cell_value_def rd_def rdz_def indices_ok_def)

text \<open>The grey value of the pixel in row \<open>i\<close> and at byte \<open>x\<close> of a block.\<close>

definition block_px :: "int list \<Rightarrow> int list \<Rightarrow> nat \<Rightarrow> nat \<Rightarrow> byte" where
  "block_px indices values i x = word_of_int (values ! nat (indices ! (i div 2 * 4 + x div 6)))"

lemma block_window:
  fixes r b k :: nat
  assumes "0 < k"
  shows "b * k \<le> r \<and> r < b * k + k \<longleftrightarrow> r div k = b" and "r div k = b \<Longrightarrow> r - b * k = r mod k"
proof -
  show "b * k \<le> r \<and> r < b * k + k \<longleftrightarrow> r div k = b"
  proof
    assume "r div k = b"
    with mod_less_divisor [OF assms, of r] div_mult_mod_eq [of r k]
    show "b * k \<le> r \<and> r < b * k + k" by auto
  qed (auto intro!: div_nat_eqI simp: mult.commute)
  show "r div k = b \<Longrightarrow> r - b * k = r mod k"
    by (metis minus_div_mult_eq_mod)
qed

lemma FillBlockFromInts_spec:
  assumes ok: "image_ok width height im" and ind: "indices_ok indices" and val: "length values = 8"
    and bh: "8 * bh + 8 \<le> height" and bw: "24 * bw + 24 \<le> width"
  shows "\<exists>im'. FillBlockFromInts indices values (int bh) (int bw) im = Some im' \<and>
    image_ok width height im' \<and>
    (\<forall>r < height. \<forall>x < width. px im' r x =
       (if r div 8 = bh \<and> x div 24 = bw then block_px indices values (r mod 8) (x mod 24)
        else px im r x))"
proof -
  let ?g = "\<lambda>i j. values ! nat (indices ! (i * 4 + j))"
  have len: "length (im_data im) = width * height" and w: "im_w im = int width"
    using ok by (auto simp: image_ok_def)
  have c: "3 * (8 * bw) + 24 \<le> width" using bw by simp
  obtain d where d: "paint (int width) (int (8 * bh)) (int (8 * bw)) (cell_value indices values) (im_data im) = Some d"
    "length d = length (im_data im)"
    "\<forall>r' < height. \<forall>x < width. d ! (r' * width + x) =
       (if 8 * bh \<le> r' \<and> r' < 8 * bh + 8 \<and> 3 * (8 * bw) \<le> x \<and> x < 3 * (8 * bw) + 24
        then word_of_int (?g ((r' - 8 * bh) div 2) ((x - 3 * (8 * bw)) div 6))
        else im_data im ! (r' * width + x))"
    using paint_spec [OF len bh c, of "cell_value indices values" ?g] cell_value_eq [OF ind val] by auto
  have "px (im\<lparr>im_data := d\<rparr>) r x =
      (if r div 8 = bh \<and> x div 24 = bw then block_px indices values (r mod 8) (x mod 24)
       else px im r x)" if "r < height" "x < width" for r x
  proof -
    have win: "(8 * bh \<le> r \<and> r < 8 * bh + 8) = (r div 8 = bh)" "r div 8 = bh \<Longrightarrow> r - 8 * bh = r mod 8"
      "(3 * (8 * bw) \<le> x \<and> x < 3 * (8 * bw) + 24) = (x div 24 = bw)"
      "x div 24 = bw \<Longrightarrow> x - 3 * (8 * bw) = x mod 24"
      using block_window [where k = 8 and b = bh and r = r] block_window [where k = 24 and b = bw and r = x]
      by (simp_all add: mult.commute)
    have "d ! (r * width + x) = (if (8 * bh \<le> r \<and> r < 8 * bh + 8) \<and> (3 * (8 * bw) \<le> x \<and> x < 3 * (8 * bw) + 24)
        then word_of_int (?g ((r - 8 * bh) div 2) ((x - 3 * (8 * bw)) div 6))
        else im_data im ! (r * width + x))"
      using d(3) that by simp
    then show ?thesis
      unfolding win(1,3) using win(2,4) w by (simp add: px_def block_px_def)
  qed
  moreover have "FillBlockFromInts indices values (int bh) (int bw) im = Some (im\<lparr>im_data := d\<rparr>)"
    using d(1) w ind by (simp add: FillBlockFromInts_paint indices_ok_def mult.commute)
  moreover have "image_ok width height (im\<lparr>im_data := d\<rparr>)"
    using ok d(2) by (simp add: image_ok_def)
  ultimately show ?thesis by blast
qed

section \<open>Reading a block\<close>

lemma FillMatrixFromBlock_eq:
  assumes ok: "image_ok 408 40 im" and "dims 8 8 m" and "bh < 5" "bw < 17"
  shows "FillMatrixFromBlock (int bh) (int bw) im (Some m) =
    Some (map (\<lambda>i. map (\<lambda>j. px im (8 * bh + i) (8 * bw + 3 * j)) [0..<8]) [0..<8])"
proof -
  have "rdz (im_data im) ((int bh * 8 + int i) * int (kBlocksWide * kPixelDimPerBlock * 3) +
      (int bw * 8 + 3 * int j)) = Some (px im (8 * bh + i) (8 * bw + 3 * j))"
    if "i < 8" "j < 8" for i j
  proof -
    have "(int bh * 8 + int i) * int (kBlocksWide * kPixelDimPerBlock * 3) + (int bw * 8 + 3 * int j) =
        int ((8 * bh + i) * 408 + (8 * bw + 3 * j))"
      by (simp add: kBlocksWide_def kPixelDimPerBlock_def)
    moreover have "(8 * bh + i) * 408 + (8 * bw + 3 * j) < 408 * 40"
      using that assms(3,4) by (intro row_col_bound) auto
    ultimately show ?thesis
      using ok by (simp only: rdz_of_nat) (simp add: rd_def image_ok_def px_def)
  qed
  with assms(2) show ?thesis
    unfolding FillMatrixFromBlock_def Let_def
    by (simp add: kPixelDimPerBlock_def fill_eq)
qed

section \<open>Properties\<close>

text \<open>C19. Painting a block writes exactly that block: on a buffer of \<open>width * height\<close> bytes that
  contains block (\<open>bh\<close>, \<open>bw\<close>), \<open>FillBlockFromInts\<close> stays inside the buffer, sets the three bytes
  of every pixel of the block to the level of the 2x2 cell the pixel lies in, and leaves every
  other byte as it was.\<close>

theorem FillBlockFromInts_paints_block:
  assumes "image_ok width height im" and "indices_ok indices" and "length values = 8"
    and "8 * bh + 8 \<le> height" and "24 * bw + 24 \<le> width"
  shows "\<exists>im'. FillBlockFromInts indices values (int bh) (int bw) im = Some im' \<and>
    image_ok width height im' \<and>
    (\<forall>r x. r < height \<longrightarrow> x < width \<longrightarrow> px im' r x =
       (if r div 8 = bh \<and> x div 24 = bw then block_px indices values (r mod 8) (x mod 24)
        else px im r x))"
  using FillBlockFromInts_spec [OF assms] by blast

theorem FillBlockFromInts_paints_block_witness:
  "\<exists>im'. FillBlockFromInts (replicate 16 2) [240, 208, 176, 144, 112, 80, 48, 16] 0 1
      \<lparr>im_data = replicate 384 0, im_w = 48, im_h = 8\<rparr> = Some im' \<and> px im' 3 30 = 176 \<and> px im' 3 10 = 0"
proof -
  let ?im = "\<lparr>im_data = replicate 384 0, im_w = 48, im_h = 8\<rparr>"
  have ok: "image_ok 48 8 ?im" "indices_ok (replicate 16 2)"
    by (simp_all add: image_ok_def indices_ok_def)
  obtain im' where im': "FillBlockFromInts (replicate 16 2) [240, 208, 176, 144, 112, 80, 48, 16]
      (int 0) (int 1) ?im = Some im'"
    "\<forall>r x. r < 8 \<longrightarrow> x < 48 \<longrightarrow> px im' r x =
       (if r div 8 = 0 \<and> x div 24 = 1
        then block_px (replicate 16 2) [240, 208, 176, 144, 112, 80, 48, 16] (r mod 8) (x mod 24)
        else px ?im r x)"
    using FillBlockFromInts_paints_block [OF ok, of "[240, 208, 176, 144, 112, 80, 48, 16]" 0 1] by auto
  then show ?thesis
    by (intro exI [of _ im']) (auto simp: block_px_def px_def)
qed

text \<open>\<open>FillMatrixFromBlock\<close> reads block columns at the wrong place: its column offset is
  \<open>init_w + 3 * j\<close> where the buffer has the block at \<open>3 * (init_w + j)\<close>. After block
  (\<open>bh\<close>, \<open>bw\<close>) with \<open>bw > 0\<close> has been painted, the first column of the matrix that the function
  returns for that very block holds what the image had before at byte \<open>8 * bw\<close> of the row, which
  belongs to a block further to the left.\<close>

lemma FillMatrixFromBlock_reads_other_block:
  assumes "image_ok 408 40 im" and "indices_ok indices" and "length values = 8"
    and "bh < 5" and "0 < bw" and "bw < 17" and "dims 8 8 m" and "i < 8"
  shows "do { im' \<leftarrow> FillBlockFromInts indices values (int bh) (int bw) im;
              m' \<leftarrow> FillMatrixFromBlock (int bh) (int bw) im' (Some m);
              mget m' i 0 } = Some (px im (8 * bh + i) (8 * bw))"
proof -
  obtain im' where im': "FillBlockFromInts indices values (int bh) (int bw) im = Some im'"
    "image_ok 408 40 im'" "px im' (8 * bh + i) (8 * bw) = px im (8 * bh + i) (8 * bw)"
  proof -
    have left: "8 * bw div 24 \<noteq> bw" using assms(5) by auto
    show ?thesis
      using FillBlockFromInts_spec [OF assms(1-3), of bh bw] assms(4-8) left that by fastforce
  qed
  with assms show ?thesis
    by (simp add: FillMatrixFromBlock_eq mget_def rd_def)
qed

end
