(* ===== verification/Ecc_Message.thy ===== *)
theory Ecc_Message imports Prelude begin

text \<open>
  \<open>experimental/lib/src/reentrant_rand.h\<close>, \<open>reentrant_rand.cc\<close>, \<open>ecc_message.h\<close> and
  \<open>ecc_message.cc\<close>: the message of an experiment, two Reed-Solomon code words of 223 message
  bytes and 32 parity symbols, which \<open>flatten\<close> lays out in 510 bytes.

  The lemmas show that \<open>flatten\<close> returns exactly when every parity symbol fits a byte and what
  it then returns, and how much of the generator's seed reaches the random message.
\<close>

section \<open>The generator\<close>

definition kCharMax :: int where "kCharMax = 256"

text \<open>
  \<open>state_\<close> is an array of three \<open>unsigned short\<close>s, the least significant first. The constructor
  copies the four bytes of \<open>seed\<close> over the first two; the third keeps what the memory held
  (\<open>garbage\<close>).
\<close>

type_synonym rng = "u16 list"

definition ReentrantRNG :: "u16 \<Rightarrow> u32 \<Rightarrow> rng" where
  "ReentrantRNG garbage seed = [ucast seed, ucast (drop_bit 16 seed), garbage]"

definition rng_val :: "rng \<Rightarrow> nat" where
  "rng_val st = unat (st ! 0) + unat (st ! 1) * 2 ^ 16 + unat (st ! 2) * 2 ^ 32"

definition rng_of :: "nat \<Rightarrow> rng" where
  "rng_of x = [word_of_nat (x mod 2 ^ 16), word_of_nat (x div 2 ^ 16 mod 2 ^ 16),
     word_of_nat (x div 2 ^ 32 mod 2 ^ 16)]"

text \<open>\<open>nrand48\<close> of the C library: the 48-bit linear congruential generator of POSIX, of which the
  upper 31 bits are returned.\<close>

definition lcg :: "nat \<Rightarrow> nat" where
  "lcg x = (0x5DEECE66D * x + 0xB) mod 2 ^ 48"

definition nrand48 :: "rng \<Rightarrow> (int \<times> rng) option" where
  "nrand48 st = (if length st = 3
     then let x = lcg (rng_val st) in Some (int (x div 2 ^ 17), rng_of x)
     else None)"

definition RandChar :: "rng \<Rightarrow> (byte \<times> rng) option" where
  "RandChar st = do { (n, st') \<leftarrow> nrand48 st; Some (word_of_int (n mod kCharMax), st') }"

section \<open>The message\<close>

definition kRs255_223ParityBytes :: nat where "kRs255_223ParityBytes = 32"
definition kRs255_223MessageBytes :: nat where "kRs255_223MessageBytes = 223"
definition kRs255_223TotalBytes :: nat where "kRs255_223TotalBytes = 255"
definition kParityArraySize :: nat where "kParityArraySize = 32"

lemmas rs_sizes = kRs255_223ParityBytes_def kRs255_223MessageBytes_def kRs255_223TotalBytes_def
  kParityArraySize_def

datatype position = FIRST | SECOND

fun pos_num :: "position \<Rightarrow> nat" where
  "pos_num FIRST = 0"
| "pos_num SECOND = 1"

record ecc_message =
  prng :: rng
  msg_bytes :: "byte list"
  first_message :: "byte list"
  first_parity :: "u16 list"
  second_message :: "byte list"
  second_parity :: "u16 list"

definition Reset :: "ecc_message \<Rightarrow> ecc_message" where
  "Reset m = m\<lparr>msg_bytes := replicate (2 * kRs255_223TotalBytes) 0,
     first_message := replicate kRs255_223MessageBytes 0,
     first_parity := replicate kParityArraySize 0,
     second_message := replicate kRs255_223MessageBytes 0,
     second_parity := replicate kParityArraySize 0\<rparr>"

definition FillWithRandomData :: "nat \<Rightarrow> byte list \<Rightarrow> rng \<Rightarrow> (byte list \<times> rng) option" where
  "FillWithRandomData len data st =
     for_in [0..<len] (\<lambda>i (data, st). do {
        (c, st) \<leftarrow> RandChar st;
        data \<leftarrow> wr data i c;
        Some (data, st) }) (data, st)"

definition InitWithRandomData :: "ecc_message \<Rightarrow> ecc_message option" where
  "InitWithRandomData m = do {
     (d1, st) \<leftarrow> FillWithRandomData kRs255_223MessageBytes (first_message m) (prng m);
     let m = m\<lparr>first_message := d1, prng := st\<rparr>;
     (d2, st) \<leftarrow> FillWithRandomData kRs255_223MessageBytes (second_message m) (prng m);
     Some (m\<lparr>second_message := d2, prng := st\<rparr>) }"

definition SetMessage :: "byte list \<Rightarrow> position \<Rightarrow> ecc_message \<Rightarrow> ecc_message option" where
  "SetMessage message pos m = do {
     b \<leftarrow> copy_into (msg_bytes m) (pos_num pos * kRs255_223TotalBytes) message 0 (int kRs255_223MessageBytes);
     Some (m\<lparr>msg_bytes := b\<rparr>) }"

text \<open>\<open>CHECK_LE(parity[i], UCHAR_MAX)\<close>, then the symbol is stored in a byte.\<close>

definition SetParity :: "u16 list \<Rightarrow> position \<Rightarrow> ecc_message \<Rightarrow> ecc_message option" where
  "SetParity parity pos m = do {
     b \<leftarrow> for_in [0..<kParityArraySize] (\<lambda>i b. do {
            let pos_i = pos_num pos * kRs255_223TotalBytes + i;
            p \<leftarrow> rd parity i;
            check (p \<le> 255);
            wr b (kRs255_223MessageBytes + pos_i) (ucast p) }) (msg_bytes m);
     Some (m\<lparr>msg_bytes := b\<rparr>) }"

definition flatten :: "ecc_message \<Rightarrow> (byte list \<times> ecc_message) option" where
  "flatten m = do {
     b \<leftarrow> copy_into (msg_bytes m) 0 (first_message m) 0 (int (length (first_message m)));
     m \<leftarrow> SetParity (first_parity m) FIRST (m\<lparr>msg_bytes := b\<rparr>);
     b \<leftarrow> copy_into (msg_bytes m) kRs255_223TotalBytes (second_message m) 0 (int (length (second_message m)));
     m \<leftarrow> SetParity (second_parity m) SECOND (m\<lparr>msg_bytes := b\<rparr>);
     Some (msg_bytes m, m) }"

section \<open>The arrays keep their sizes\<close>

definition message_ok :: "ecc_message \<Rightarrow> bool" where
  "message_ok m \<longleftrightarrow> length (prng m) = 3 \<and> length (msg_bytes m) = 510 \<and>
     length (first_message m) = 223 \<and> length (first_parity m) = 32 \<and>
     length (second_message m) = 223 \<and> length (second_parity m) = 32"

lemma message_ok_Reset: "length (prng m) = 3 \<Longrightarrow> message_ok (Reset m)"
  by (simp add: message_ok_def Reset_def rs_sizes)

lemma RandChar_total: "length st = 3 \<Longrightarrow> \<exists>c st'. RandChar st = Some (c, st') \<and> length st' = 3"
  by (simp add: RandChar_def nrand48_def Let_def rng_of_def)

lemma FillWithRandomData_total:
  assumes "length st = 3" and "len \<le> length data"
  shows "\<exists>d st'. FillWithRandomData len data st = Some (d, st') \<and>
    length d = length data \<and> length st' = 3"
proof -
  let ?P = "\<lambda>i (d, st'). length d = length data \<and> length st' = 3"
  have "\<exists>s'. FillWithRandomData len data st = Some s' \<and> ?P len s'"
    unfolding FillWithRandomData_def
  proof (rule for_in_upt [where P = ?P])
    fix i and s :: "byte list \<times> rng"
    assume i: "i < len" and P: "?P i s"
    obtain d t where s: "s = (d, t)" by (cases s)
    from P s RandChar_total [of t] obtain c t' where "RandChar t = Some (c, t')" "length t' = 3"
      by auto
    with i P s assms(2)
    show "\<exists>s'. (case s of (data, st) \<Rightarrow> do { (c, st) \<leftarrow> RandChar st; data \<leftarrow> wr data i c; Some (data, st) })
        = Some s' \<and> ?P (Suc i) s'"
      by (simp add: wr_def)
  qed (use assms in auto)
  then show ?thesis by auto
qed

lemma message_ok_InitWithRandomData:
  assumes "message_ok m"
  shows "\<exists>m'. InitWithRandomData m = Some m' \<and> message_ok m'"
proof -
  have len: "length (prng m) = 3" "223 \<le> length (first_message m)" "223 \<le> length (second_message m)"
    using assms by (auto simp: message_ok_def)
  obtain d1 st1 where 1: "FillWithRandomData 223 (first_message m) (prng m) = Some (d1, st1)"
    "length d1 = length (first_message m)" "length st1 = 3"
    using FillWithRandomData_total [OF len(1,2)] by auto
  obtain d2 st2 where 2: "FillWithRandomData 223 (second_message m) st1 = Some (d2, st2)"
    "length d2 = length (second_message m)" "length st2 = 3"
    using FillWithRandomData_total [OF 1(3) len(3)] by auto
  with 1 assms show ?thesis
    by (simp add: InitWithRandomData_def rs_sizes Let_def message_ok_def)
qed

lemma InitWithRandomData_parity:
  "InitWithRandomData m = Some m' \<Longrightarrow>
   first_parity m' = first_parity m \<and> second_parity m' = second_parity m \<and> msg_bytes m' = msg_bytes m"
  by (auto simp: InitWithRandomData_def bind_eq_Some_conv Let_def split: prod.splits)

section \<open>The layout\<close>

definition parity_fits :: "u16 list \<Rightarrow> bool" where
  "parity_fits ps \<longleftrightarrow> list_all (\<lambda>p. p \<le> 255) ps"

lemma SetParity_eq:
  assumes "length (msg_bytes m) = 510" and "length ps = 32" and "parity_fits ps"
  shows "SetParity ps pos m = Some (m\<lparr>msg_bytes := take (pos_num pos * 255 + 223) (msg_bytes m) @ map ucast ps @
    drop (pos_num pos * 255 + 255) (msg_bytes m)\<rparr>)"
proof -
  let ?o = "pos_num pos * 255 + 223"
  have "?o + 32 \<le> length (msg_bytes m)" using assms(1) by (cases pos) auto
  moreover have "do { p \<leftarrow> rd ps i; check (p \<le> 255); Some (ucast p :: byte) } = Some (ucast (ps ! i))"
    if "i < 32" for i
    using that assms(2,3) by (simp add: rd_def parity_fits_def list_all_length)
  ultimately have "for_in [0..<32] (\<lambda>i b. do {
      v \<leftarrow> do { p \<leftarrow> rd ps i; check (p \<le> 255); Some (ucast p :: byte) }; wr b (?o + i) v }) (msg_bytes m) =
      Some (take ?o (msg_bytes m) @ map (\<lambda>i. ucast (ps ! i)) [0..<32] @ drop (?o + 32) (msg_bytes m))"
    by (rule store_row)
  then show ?thesis
    using assms(2) by (simp add: SetParity_def rs_sizes Option.bind_assoc add_ac map_nth_fun)
qed

lemma SetParity_fails:
  assumes "length ps = 32" and "\<not> parity_fits ps"
  shows "SetParity ps pos m = None"
proof -
  from assms obtain i where "i < 32" "\<not> ps ! i \<le> 255"
    by (auto simp: parity_fits_def list_all_length)
  then have "for_in [0..<32] (\<lambda>i b. do { p \<leftarrow> rd ps i; check (p \<le> 255);
      wr b (223 + (pos_num pos * 255 + i)) (ucast p) }) (msg_bytes m) = None"
    using assms(1) by (intro for_in_fails [of i]) (auto simp: rd_def check_def)
  then show ?thesis
    by (simp add: SetParity_def rs_sizes)
qed

lemma flatten_eq:
  assumes "message_ok m" and "parity_fits (first_parity m)" and "parity_fits (second_parity m)"
  shows "map_option fst (flatten m) =
    Some (first_message m @ map ucast (first_parity m) @ second_message m @ map ucast (second_parity m))"
proof -
  define A where "A = first_message m"
  define B where "B = second_message m"
  define P where "P = map (ucast :: u16 \<Rightarrow> byte) (first_parity m)"
  define Q where "Q = map (ucast :: u16 \<Rightarrow> byte) (second_parity m)"
  define C where "C = msg_bytes m"
  have len: "length A = 223" "length B = 223" "length P = 32" "length Q = 32" "length C = 510"
    using assms(1) by (auto simp: message_ok_def A_def B_def P_def Q_def C_def)
  define C1 where "C1 = A @ drop 223 C"
  define C2 where "C2 = A @ P @ drop 255 C"
  define C3 where "C3 = A @ P @ B @ drop 478 C"
  have c1: "copy_into C 0 A 0 (int (length A)) = Some C1"
    using len by (simp add: copy_into_def C1_def)
  have c2: "SetParity (first_parity m) FIRST (m\<lparr>msg_bytes := C1\<rparr>) = Some (m\<lparr>msg_bytes := C2\<rparr>)"
    using assms len by (simp add: SetParity_eq message_ok_def C1_def C2_def P_def)
  have c3: "copy_into C2 255 B 0 (int (length B)) = Some C3"
    using len by (simp add: copy_into_def C2_def C3_def)
  have c4: "SetParity (second_parity m) SECOND (m\<lparr>msg_bytes := C3\<rparr>) = Some (m\<lparr>msg_bytes := A @ P @ B @ Q\<rparr>)"
    using assms len by (simp add: SetParity_eq message_ok_def C3_def Q_def)
  show ?thesis
    using c1 c2 c3 c4
    by (simp add: flatten_def rs_sizes A_def B_def C_def P_def Q_def)
qed

lemma flatten_fails:
  assumes "message_ok m" and "\<not> parity_fits (first_parity m) \<or> \<not> parity_fits (second_parity m)"
  shows "flatten m = None"
proof (cases "parity_fits (first_parity m)")
  case False
  with assms(1) show ?thesis
    by (simp add: flatten_def message_ok_def SetParity_fails copy_into_def)
next
  case True
  with assms show ?thesis
    by (simp add: flatten_def message_ok_def SetParity_eq SetParity_fails copy_into_def rs_sizes)
qed


section \<open>How much of the seed is used\<close>

text \<open>
  The low 25 bits of the generator's state evolve on their own, and the byte that \<open>RandChar\<close>
  returns is bits 17 to 24 of the new state.
\<close>

lemma lcg_mod: "lcg x mod 2 ^ 25 = (0x5DEECE66D * (x mod 2 ^ 25) + 0xB) mod 2 ^ 25"
proof -
  have "lcg x mod 2 ^ 25 = (0x5DEECE66D * x + 0xB) mod 2 ^ 25"
    unfolding lcg_def by (rule mod_mod_cancel) (simp add: le_imp_power_dvd)
  also have "\<dots> = (0x5DEECE66D * (x mod 2 ^ 25) + 0xB) mod 2 ^ 25"
    by (metis mod_add_left_eq mod_mult_right_eq)
  finally show ?thesis .
qed

lemma length_rng_of [len_simps]: "length (rng_of x) = 3"
  by (simp add: rng_of_def)

lemma rng_val_of:
  assumes "x < 2 ^ 48"
  shows "rng_val (rng_of x) = x"
proof -
  have "x = x div 65536 * 65536 + x mod 65536"
    "x div 65536 = x div 65536 div 65536 * 65536 + x div 65536 mod 65536" by simp_all
  moreover have "x div 65536 div 65536 = x div 4294967296"
    by (simp add: div_mult2_eq [symmetric])
  moreover have "x div 4294967296 < 65536" using assms by (simp add: less_mult_imp_div_less)
  ultimately have "x mod 65536 + x div 65536 mod 65536 * 65536 + x div 4294967296 * 4294967296 = x"
    by linarith
  with \<open>x div 4294967296 < 65536\<close> show ?thesis
    by (simp add: rng_val_def rng_of_def unsigned_of_nat take_bit_eq_mod)
qed

definition low25 :: "rng \<Rightarrow> nat" where
  "low25 st = rng_val st mod 2 ^ 25"

definition low25_next :: "nat \<Rightarrow> nat" where
  "low25_next k = (0x5DEECE66D * k + 0xB) mod 2 ^ 25"

lemma RandChar_low25:
  assumes "length st = 3"
  shows "\<exists>st'. RandChar st = Some (word_of_nat (low25_next (low25 st) div 2 ^ 17), st') \<and>
    low25 st' = low25_next (low25 st) \<and> length st' = 3"
proof -
  let ?x = "lcg (rng_val st)"
  have next_eq: "low25_next (low25 st) = ?x mod 2 ^ 25"
    unfolding low25_next_def low25_def lcg_mod ..
  have "?x mod (2 ^ 17 * 2 ^ 8) = 2 ^ 17 * (?x div 2 ^ 17 mod 2 ^ 8) + ?x mod 2 ^ 17"
    by (rule mod_mult2_eq)
  then have "?x mod 2 ^ 25 div 2 ^ 17 = ?x div 2 ^ 17 mod 256"
    by simp
  then have byte: "word_of_int (int (?x div 2 ^ 17) mod kCharMax) =
      (word_of_nat (low25_next (low25 st) div 2 ^ 17) :: byte)"
  proof -
    have "int (?x div 2 ^ 17) mod kCharMax = int (?x div 2 ^ 17 mod 256)"
      by (simp add: kCharMax_def zmod_int)
    then show ?thesis
      unfolding next_eq \<open>?x mod 2 ^ 25 div 2 ^ 17 = ?x div 2 ^ 17 mod 256\<close>
      by (simp only: of_int_of_nat_eq)
  qed
  have "?x < 2 ^ 48" by (simp add: lcg_def)
  then have "low25 (rng_of ?x) = low25_next (low25 st)"
    unfolding next_eq by (simp only: low25_def rng_val_of)
  with byte assms show ?thesis
    by (simp add: RandChar_def nrand48_def Let_def len_simps)
qed

lemma FillWithRandomData_low25:
  assumes "length st1 = 3" "length st2 = 3" and "low25 st1 = low25 st2"
    and "len \<le> length d1" "len \<le> length d2"
  shows "\<exists>e1 e2 t1 t2. FillWithRandomData len d1 st1 = Some (e1, t1) \<and>
    FillWithRandomData len d2 st2 = Some (e2, t2) \<and>
    take len e1 = take len e2 \<and> low25 t1 = low25 t2 \<and> length t1 = 3 \<and> length t2 = 3 \<and>
    length e1 = length d1 \<and> length e2 = length d2"
  using assms(4,5)
proof (induction len)
  case 0
  with assms show ?case by (simp add: FillWithRandomData_def)
next
  case (Suc n)
  then obtain e1 e2 t1 t2 where IH: "FillWithRandomData n d1 st1 = Some (e1, t1)"
    "FillWithRandomData n d2 st2 = Some (e2, t2)" "take n e1 = take n e2" "low25 t1 = low25 t2"
    "length t1 = 3" "length t2 = 3" "length e1 = length d1" "length e2 = length d2" by auto
  obtain u1 where u1: "RandChar t1 = Some (word_of_nat (low25_next (low25 t1) div 2 ^ 17), u1)"
    "low25 u1 = low25_next (low25 t1)" "length u1 = 3"
    using RandChar_low25 [OF IH(5)] by blast
  obtain u2 where u2: "RandChar t2 = Some (word_of_nat (low25_next (low25 t2) div 2 ^ 17), u2)"
    "low25 u2 = low25_next (low25 t2)" "length u2 = 3"
    using RandChar_low25 [OF IH(6)] by blast
  show ?case
    using IH u1 u2 Suc.prems
    by (simp add: FillWithRandomData_def for_in_append wr_def take_update_swap take_Suc_conv_app_nth list_update_append)
qed

section \<open>Properties\<close>

text \<open>\<open>flatten\<close> lays the message out as first message, first parity, second message, second
  parity, one byte per symbol, and it does so exactly when every parity symbol fits a byte:
  otherwise \<open>CHECK_LE(parity[i], UCHAR_MAX)\<close> ends the run.\<close>

lemma flatten_layout:
  assumes "message_ok m"
  shows "map_option fst (flatten m) =
    (if list_all (\<lambda>p. p \<le> 255) (first_parity m @ second_parity m)
     then Some (first_message m @ map ucast (first_parity m) @ second_message m @ map ucast (second_parity m))
     else None)"
  using flatten_eq [OF assms] flatten_fails [OF assms] by (auto simp: parity_fits_def)

text \<open>The random messages depend on 25 bits of the generator only. Two messages whose
  generators agree modulo 2^25 get the same 446 random bytes; the third word of \<open>state_\<close>, which
  the constructor leaves uninitialised, never reaches the data, and no more than 2^25 different
  messages can be drawn.\<close>

lemma InitWithRandomData_uses_25_bits:
  assumes "message_ok m1" and "message_ok m2"
    and "rng_val (prng m1) mod 2 ^ 25 = rng_val (prng m2) mod 2 ^ 25"
  shows "\<exists>n1 n2. InitWithRandomData m1 = Some n1 \<and> InitWithRandomData m2 = Some n2 \<and>
    first_message n1 = first_message n2 \<and> second_message n1 = second_message n2"
proof -
  have len: "length (prng m1) = 3" "length (prng m2) = 3" "length (first_message m1) = 223"
    "length (first_message m2) = 223" "length (second_message m1) = 223" "length (second_message m2) = 223"
    using assms by (auto simp: message_ok_def)
  from FillWithRandomData_low25 [of "prng m1" "prng m2" 223 "first_message m1" "first_message m2"] assms(3) len
  obtain e1 e2 t1 t2 where 1: "FillWithRandomData 223 (first_message m1) (prng m1) = Some (e1, t1)"
    "FillWithRandomData 223 (first_message m2) (prng m2) = Some (e2, t2)" "e1 = e2"
    "low25 t1 = low25 t2" "length t1 = 3" "length t2 = 3"
    by (auto simp: low25_def)
  from FillWithRandomData_low25 [OF 1(5,6,4), of 223 "second_message m1" "second_message m2"] len
  obtain f1 f2 u1 u2 where "FillWithRandomData 223 (second_message m1) t1 = Some (f1, u1)"
    "FillWithRandomData 223 (second_message m2) t2 = Some (f2, u2)" "f1 = f2"
    by auto
  with 1 show ?thesis
    by (simp add: InitWithRandomData_def rs_sizes Let_def)
qed

end
