(* ===== verification/Jpeg_Codec.thy ===== *)
theory Jpeg_Codec imports Prelude begin

text \<open>
  \<open>experimental/lib/src/jpeg_codec.h\<close> and \<open>jpeg_codec.cc\<close>: the wrapper around libjpeg. libjpeg
  itself is a parameter, a \<open>compressor\<close> and a \<open>decompressor\<close>: what its calls return and the
  bytes that a call sends to the destination manager, or \<open>None\<close> when it signals an error by
  \<open>error_exit\<close>, which \<open>ErrorExit\<close> turns into a jump back to the start of \<open>Encode\<close> or \<open>Decode\<close>
  and the result false.

  A run of \<open>Encode\<close> is an option (the end of the modelled behaviour, as elsewhere) of an option:
  \<open>Some None\<close> is the result false, when the output is undefined. \<open>jcs_ext\<close> tells whether
  \<open>JCS_EXTENSIONS\<close> is defined, so both builds are modelled.
\<close>

section \<open>Formats\<close>

definition FORMAT_RGB :: int where "FORMAT_RGB = 0"
definition FORMAT_RGBA :: int where "FORMAT_RGBA = 1"
definition FORMAT_BGRA :: int where "FORMAT_BGRA = 2"

lemmas formats = FORMAT_RGB_def FORMAT_RGBA_def FORMAT_BGRA_def

text \<open>The colour spaces of libjpeg and libjpeg-turbo that the wrapper names.\<close>

datatype jcs = JCS_GRAYSCALE | JCS_RGB | JCS_YCbCr | JCS_CMYK | JCS_YCCK | JCS_other
  | JCS_EXT_RGBX | JCS_EXT_BGRX

section \<open>The destination manager\<close>

text \<open>
  \<open>JpegEncoderState\<close> with the two fields of \<open>cinfo->dest\<close>; \<open>next_output\<close> is the index of
  \<open>next_output_byte\<close> in \<open>out\<close>, which is \<open>enc_out\<close> here.
\<close>

record destination =
  enc_out :: "byte list"
  image_buffer_used :: nat
  next_output :: nat
  free_in_buffer :: nat

definition initial_output_buffer_size :: nat where "initial_output_buffer_size = 8192"

definition vector_resize :: "nat \<Rightarrow> byte list \<Rightarrow> byte list" where
  "vector_resize n xs = take n xs @ replicate (n - length xs) 0"

definition JpegEncoderState :: "byte list \<Rightarrow> destination" where
  "JpegEncoderState v = \<lparr>enc_out = v, image_buffer_used = 0, next_output = 0, free_in_buffer = 0\<rparr>"

definition InitDestination :: "destination \<Rightarrow> destination option" where
  "InitDestination d = do {
     check (image_buffer_used d = 0);
     Some (d\<lparr>enc_out := vector_resize initial_output_buffer_size (enc_out d), image_buffer_used := 0,
       next_output := 0, free_in_buffer := initial_output_buffer_size\<rparr>) }"

definition EmptyOutputBuffer :: "destination \<Rightarrow> destination" where
  "EmptyOutputBuffer d =
     (let used = length (enc_out d); v = vector_resize (length (enc_out d) * 2) (enc_out d) in
      d\<lparr>enc_out := v, image_buffer_used := used, next_output := used, free_in_buffer := length v - used\<rparr>)"

definition TermDestination :: "destination \<Rightarrow> destination option" where
  "TermDestination d = do {
     check (length (enc_out d) \<ge> image_buffer_used d);
     let used = next_output d;
     check (used < length (enc_out d));
     Some (d\<lparr>enc_out := vector_resize used (enc_out d), image_buffer_used := used\<rparr>) }"

text \<open>
  How libjpeg uses the manager: each byte goes to \<open>next_output_byte\<close>, and when \<open>free_in_buffer\<close>
  reaches zero it calls \<open>empty_output_buffer\<close>.
\<close>

definition emit_byte :: "byte \<Rightarrow> destination \<Rightarrow> destination option" where
  "emit_byte b d = do {
     v \<leftarrow> wr (enc_out d) (next_output d) b;
     let d = d\<lparr>enc_out := v, next_output := next_output d + 1, free_in_buffer := free_in_buffer d - 1\<rparr>;
     Some (if free_in_buffer d = 0 then EmptyOutputBuffer d else d) }"

definition emit_all :: "byte list \<Rightarrow> destination \<Rightarrow> destination option" where
  "emit_all bs d = for_in bs emit_byte d"

section \<open>Row converters\<close>

text \<open>
  Each converter reads pixels from index \<open>a\<close> of one buffer and writes them from index \<open>b\<close> of
  the other.
\<close>

definition StripAlpha :: "byte list \<Rightarrow> nat \<Rightarrow> nat \<Rightarrow> byte list \<Rightarrow> nat \<Rightarrow> byte list option" where
  "StripAlpha rgba a pixel_width rgb b = for_in [0..<pixel_width] (\<lambda>x rgb. do {
     p0 \<leftarrow> rd rgba (a + x * 4); rgb \<leftarrow> wr rgb (b + x * 3) p0;
     p1 \<leftarrow> rd rgba (a + x * 4 + 1); rgb \<leftarrow> wr rgb (b + x * 3 + 1) p1;
     p2 \<leftarrow> rd rgba (a + x * 4 + 2); wr rgb (b + x * 3 + 2) p2 }) rgb"

definition BGRAtoRGB :: "byte list \<Rightarrow> nat \<Rightarrow> nat \<Rightarrow> byte list \<Rightarrow> nat \<Rightarrow> byte list option" where
  "BGRAtoRGB bgra a pixel_width rgb b = for_in [0..<pixel_width] (\<lambda>x rgb. do {
     p0 \<leftarrow> rd bgra (a + x * 4 + 2); rgb \<leftarrow> wr rgb (b + x * 3) p0;
     p1 \<leftarrow> rd bgra (a + x * 4 + 1); rgb \<leftarrow> wr rgb (b + x * 3 + 1) p1;
     p2 \<leftarrow> rd bgra (a + x * 4); wr rgb (b + x * 3 + 2) p2 }) rgb"

definition AddAlpha :: "byte list \<Rightarrow> nat \<Rightarrow> nat \<Rightarrow> byte list \<Rightarrow> nat \<Rightarrow> byte list option" where
  "AddAlpha rgb a pixel_width rgba b = for_in [0..<pixel_width] (\<lambda>x rgba. do {
     p0 \<leftarrow> rd rgb (a + x * 3); rgba \<leftarrow> wr rgba (b + x * 4) p0;
     p1 \<leftarrow> rd rgb (a + x * 3 + 1); rgba \<leftarrow> wr rgba (b + x * 4 + 1) p1;
     p2 \<leftarrow> rd rgb (a + x * 3 + 2); rgba \<leftarrow> wr rgba (b + x * 4 + 2) p2;
     wr rgba (b + x * 4 + 3) 0xff }) rgba"

definition RGBtoBGRA :: "byte list \<Rightarrow> nat \<Rightarrow> nat \<Rightarrow> byte list \<Rightarrow> nat \<Rightarrow> byte list option" where
  "RGBtoBGRA rgb a pixel_width bgra b = for_in [0..<pixel_width] (\<lambda>x bgra. do {
     p0 \<leftarrow> rd rgb (a + x * 3 + 2); bgra \<leftarrow> wr bgra (b + x * 4) p0;
     p1 \<leftarrow> rd rgb (a + x * 3 + 1); bgra \<leftarrow> wr bgra (b + x * 4 + 1) p1;
     p2 \<leftarrow> rd rgb (a + x * 3); bgra \<leftarrow> wr bgra (b + x * 4 + 2) p2;
     wr bgra (b + x * 4 + 3) 0xff }) bgra"

section \<open>\<open>Encode\<close>\<close>

record compress_params =
  image_width :: nat
  image_height :: nat
  input_components :: nat
  in_color_space :: jcs
  jpeg_quality :: int

text \<open>
  \<open>jpeg_start_compress\<close> (with the calls that set the parameters), \<open>jpeg_write_scanlines\<close> with one
  row, and \<open>jpeg_finish_compress\<close>, each with the bytes that it emits.
\<close>

record 'z compressor =
  c_start :: "compress_params \<Rightarrow> ('z \<times> byte list) option"
  c_write :: "'z \<Rightarrow> byte list \<Rightarrow> ('z \<times> byte list) option"
  c_finish :: "'z \<Rightarrow> byte list option"

text \<open>\<open>cinfo.next_scanline * row_byte_width\<close>, a product of 32 unsigned bits.\<close>

definition row_offset :: "nat \<Rightarrow> nat \<Rightarrow> nat" where
  "row_offset next_scanline row_byte_width = unat (word_of_nat next_scanline * word_of_nat row_byte_width :: u32)"

text \<open>The row that \<open>&input[...]\<close> points at, of which libjpeg reads \<open>len\<close> bytes.\<close>

definition scan_row :: "byte list \<Rightarrow> nat \<Rightarrow> nat \<Rightarrow> byte list option" where
  "scan_row input off len = (if off + len \<le> length input then Some (take len (drop off input)) else None)"

text \<open>The \<open>while (cinfo.next_scanline < cinfo.image_height)\<close> loop; \<open>row y buf\<close> is the row that is
  written when \<open>next_scanline\<close> is \<open>y\<close>, \<open>buf\<close> the buffer of the converted row.\<close>

fun write_rows ::
  "'z compressor \<Rightarrow> (nat \<Rightarrow> byte list \<Rightarrow> byte list option) \<Rightarrow> nat list \<Rightarrow> 'z \<Rightarrow> byte list \<Rightarrow> destination \<Rightarrow>
   ('z \<times> destination) option option" where
  "write_rows lib row [] z buf d = Some (Some (z, d))"
| "write_rows lib row (y # ys) z buf d = do {
     r \<leftarrow> row y buf;
     (case c_write lib z r of
        None \<Rightarrow> Some None
      | Some (z, bs) \<Rightarrow> do { d \<leftarrow> emit_all bs d; write_rows lib row ys z r d }) }"

definition compress ::
  "'z compressor \<Rightarrow> compress_params \<Rightarrow> (nat \<Rightarrow> byte list \<Rightarrow> byte list option) option \<Rightarrow> byte list option \<Rightarrow>
   byte list option option" where
  "compress lib params rows new_row =
     (case c_start lib params of
        None \<Rightarrow> Some None
      | Some (z, bs) \<Rightarrow> do {
          d \<leftarrow> InitDestination (JpegEncoderState []);
          d \<leftarrow> emit_all bs d;
          (case rows of
             None \<Rightarrow> Some None
           | Some row \<Rightarrow> do {
               buf \<leftarrow> new_row;
               r \<leftarrow> write_rows lib row [0..<image_height params] z buf d;
               (case r of
                  None \<Rightarrow> Some None
                | Some (z, d) \<Rightarrow>
                    (case c_finish lib z of
                       None \<Rightarrow> Some None
                     | Some bs \<Rightarrow> do {
                         d \<leftarrow> emit_all bs d;
                         d \<leftarrow> TermDestination d;
                         Some (Some (enc_out d)) })) }) })"

text \<open>
  The three integers are not negative. The length \<open>w * 3\<close> of the converted row is an \<open>int\<close>, whose overflow is
  undefined.
\<close>

definition JPEGCodec_Encode ::
  "bool \<Rightarrow> 'z compressor \<Rightarrow> (nat \<Rightarrow> byte) \<Rightarrow> byte list \<Rightarrow> int \<Rightarrow> nat \<Rightarrow> nat \<Rightarrow> nat \<Rightarrow> int \<Rightarrow> byte list option option" where
  "JPEGCodec_Encode jcs_ext lib junk input format w h row_byte_width qual =
     (let params = (\<lambda>n cs. \<lparr>image_width = w, image_height = h, input_components = n, in_color_space = cs, jpeg_quality = qual\<rparr>);
          direct = (\<lambda>n y buf. scan_row input (row_offset y row_byte_width) (w * n)) in
      if jcs_ext then
        if format = FORMAT_RGB then compress lib (params 3 JCS_RGB) (Some (direct 3)) (Some [])
        else if format = FORMAT_RGBA then compress lib (params 4 JCS_EXT_RGBX) (Some (direct 4)) (Some [])
        else if format = FORMAT_BGRA then compress lib (params 4 JCS_EXT_BGRX) (Some (direct 4)) (Some [])
        else Some None
      else if format = FORMAT_RGB then compress lib (params 3 JCS_RGB) (Some (direct 3)) (Some [])
      else
        compress lib (params 3 JCS_RGB)
          (if format = FORMAT_RGBA then Some (\<lambda>y buf. StripAlpha input (row_offset y row_byte_width) w buf 0)
           else if format = FORMAT_BGRA then Some (\<lambda>y buf. BGRAtoRGB input (row_offset y row_byte_width) w buf 0)
           else None)
          (do { check (w * 3 < 2 ^ 31); Some (map junk [0..<w * 3]) }))"

section \<open>The source manager\<close>

record source =
  input_buffer :: "byte list"
  next_input :: nat
  bytes_in_buffer :: nat

definition InitSource :: "byte list \<Rightarrow> source" where
  "InitSource input = \<lparr>input_buffer = input, next_input = 0, bytes_in_buffer = length input\<rparr>"

definition FillInputBuffer :: "source \<Rightarrow> bool \<times> source" where
  "FillInputBuffer s = (False, s)"

definition SkipInputData :: "int \<Rightarrow> source \<Rightarrow> source" where
  "SkipInputData num_bytes s =
     (if num_bytes > int (bytes_in_buffer s) then
        s\<lparr>next_input := next_input s + bytes_in_buffer s, bytes_in_buffer := 0\<rparr>
      else if num_bytes > 0 then
        s\<lparr>bytes_in_buffer := bytes_in_buffer s - nat num_bytes, next_input := next_input s + nat num_bytes\<rparr>
      else s)"

section \<open>\<open>Decode\<close>\<close>

text \<open>
  \<open>jpeg_read_header\<close> (\<open>None\<close> unless it returns \<open>JPEG_HEADER_OK\<close>) with the colour space of the file
  and the output dimensions, \<open>jpeg_start_decompress\<close> for an output colour space and number of
  components, \<open>jpeg_read_scanlines\<close> for one row (\<open>None\<close> for an error or a return of 0) and
  \<open>jpeg_finish_decompress\<close> (whether it returns).
\<close>

record 'y decompressor =
  d_header :: "byte list \<Rightarrow> (jcs \<times> nat \<times> nat \<times> 'y) option"
  d_start :: "jcs \<Rightarrow> nat \<Rightarrow> 'y \<Rightarrow> 'y option"
  d_scanline :: "'y \<Rightarrow> (byte list \<times> 'y) option"
  d_finish :: "'y \<Rightarrow> bool"

text \<open>
  The arithmetic of \<open>Decode\<close>: a stride is an unsigned product of 32 bits that is stored in an \<open>int\<close>; the size
  of the output is an unsigned product again; \<open>row * row_write_stride\<close> is a product of \<open>int\<close>s, whose
  overflow is undefined, and a negative index lies outside the vector.
\<close>

definition row_stride :: "nat \<Rightarrow> nat \<Rightarrow> int" where
  "row_stride output_width components = sint (word_of_nat output_width * word_of_nat components :: u32)"

definition output_size :: "int \<Rightarrow> nat \<Rightarrow> nat" where
  "output_size stride output_height = unat (word_of_int stride * word_of_nat output_height :: u32)"

definition row_index :: "nat \<Rightarrow> int \<Rightarrow> nat option" where
  "row_index r stride = do { check (0 \<le> int r * stride \<and> int r * stride < 2 ^ 31); Some (nat (int r * stride)) }"

text \<open>The state of the loop over the rows is the temporary row and the output.\<close>

fun read_rows ::
  "'y decompressor \<Rightarrow> (nat \<Rightarrow> byte list \<Rightarrow> byte list \<times> byte list \<Rightarrow> (byte list \<times> byte list) option) \<Rightarrow>
   nat list \<Rightarrow> 'y \<Rightarrow> byte list \<times> byte list \<Rightarrow> ('y \<times> byte list) option option" where
  "read_rows lib store [] z bufs = Some (Some (z, snd bufs))"
| "read_rows lib store (r # rs) z bufs =
     (case d_scanline lib z of
        None \<Rightarrow> Some None
      | Some (row, z) \<Rightarrow> do { bufs \<leftarrow> store r row bufs; read_rows lib store rs z bufs })"

definition store_direct ::
  "int \<Rightarrow> nat \<Rightarrow> byte list \<Rightarrow> byte list \<times> byte list \<Rightarrow> (byte list \<times> byte list) option" where
  "store_direct stride r row = (\<lambda>(tmp, output). do {
     i \<leftarrow> row_index r stride;
     output \<leftarrow> copy_into output i row 0 (int (length row));
     Some (tmp, output) })"

definition store_converted ::
  "(byte list \<Rightarrow> nat \<Rightarrow> nat \<Rightarrow> byte list \<Rightarrow> nat \<Rightarrow> byte list option) \<Rightarrow> nat \<Rightarrow> int \<Rightarrow>
   nat \<Rightarrow> byte list \<Rightarrow> byte list \<times> byte list \<Rightarrow> (byte list \<times> byte list) option" where
  "store_converted converter w stride r row = (\<lambda>(tmp, output). do {
     tmp \<leftarrow> copy_into tmp 0 row 0 (int (length row));
     i \<leftarrow> row_index r stride;
     output \<leftarrow> converter tmp 0 w output i;
     Some (tmp, output) })"

text \<open>The part from \<open>jpeg_start_decompress\<close> on, with the way to store a row and the length of the
  rows of the output.\<close>

definition decompress_rows ::
  "'y decompressor \<Rightarrow> jcs \<Rightarrow> nat \<Rightarrow> nat \<Rightarrow> 'y \<Rightarrow>
   ((nat \<Rightarrow> byte list \<Rightarrow> byte list \<times> byte list \<Rightarrow> (byte list \<times> byte list) option) \<times> int) option \<Rightarrow>
   byte list option \<Rightarrow> byte list option option" where
  "decompress_rows lib cs components h z how new_row =
     (case d_start lib cs components z of
        None \<Rightarrow> Some None
      | Some z \<Rightarrow>
          (case how of
             None \<Rightarrow> Some None
           | Some (store, row_write_stride) \<Rightarrow> do {
               tmp \<leftarrow> new_row;
               r \<leftarrow> read_rows lib store [0..<nat (sint (word_of_nat h :: u32))] z
                 (tmp, vector_resize (output_size row_write_stride h) []);
               (case r of
                  None \<Rightarrow> Some None
                | Some (z, output) \<Rightarrow> Some (if d_finish lib z then Some output else None)) }))"

text \<open>The result of \<open>Decode\<close> is the output with \<open>*w\<close> and \<open>*h\<close>.\<close>

definition JPEGCodec_Decode ::
  "bool \<Rightarrow> 'y decompressor \<Rightarrow> (nat \<Rightarrow> byte) \<Rightarrow> byte list \<Rightarrow> int \<Rightarrow> (byte list \<times> nat \<times> nat) option option" where
  "JPEGCodec_Decode jcs_ext lib junk input format =
     (case d_header lib input of
        None \<Rightarrow> Some None
      | Some (color_space, w, h, z) \<Rightarrow>
          if color_space \<notin> {JCS_GRAYSCALE, JCS_RGB, JCS_YCbCr} then Some None
          else do {
            r \<leftarrow>
              (if jcs_ext then
                 if format = FORMAT_RGB then
                   decompress_rows lib JCS_RGB 3 h z (Some (store_direct (row_stride w 3), row_stride w 3)) (Some [])
                 else if format = FORMAT_RGBA then
                   decompress_rows lib JCS_EXT_RGBX 4 h z (Some (store_direct (row_stride w 4), row_stride w 4)) (Some [])
                 else if format = FORMAT_BGRA then
                   decompress_rows lib JCS_EXT_BGRX 4 h z (Some (store_direct (row_stride w 4), row_stride w 4)) (Some [])
                 else Some None
               else if format = FORMAT_RGB then
                 decompress_rows lib JCS_RGB 3 h z (Some (store_direct (row_stride w 3), row_stride w 3)) (Some [])
               else
                 decompress_rows lib JCS_RGB 3 h z
                   (if format = FORMAT_RGBA then Some (store_converted AddAlpha w (row_stride w 4), row_stride w 4)
                    else if format = FORMAT_BGRA then Some (store_converted RGBtoBGRA w (row_stride w 4), row_stride w 4)
                    else None)
                   (do { check (0 \<le> row_stride w 3); Some (map junk [0..<nat (row_stride w 3)]) }));
            Some (map_option (\<lambda>output. (output, w, h)) r) })"


section \<open>The destination manager returns what was emitted\<close>

lemma length_vector_resize [len_simps]: "length (vector_resize n xs) = n"
  by (simp add: vector_resize_def)

lemma vector_resize_prefix: "n \<le> length xs \<Longrightarrow> vector_resize n xs = take n xs"
  by (simp add: vector_resize_def)

text \<open>The invariant: the bytes emitted so far lie before \<open>next_output_byte\<close>, and there is room.\<close>

definition collected :: "byte list \<Rightarrow> destination \<Rightarrow> bool" where
  "collected bs d \<longleftrightarrow> next_output d = length bs \<and> take (length bs) (enc_out d) = bs \<and>
     length (enc_out d) = length bs + free_in_buffer d \<and> 0 < free_in_buffer d \<and> image_buffer_used d \<le> length bs"

lemma InitDestination_collected:
  "\<exists>d. InitDestination (JpegEncoderState v) = Some d \<and> collected [] d"
  by (simp add: InitDestination_def JpegEncoderState_def collected_def len_simps initial_output_buffer_size_def)

lemma emit_byte_collected:
  assumes "collected bs d"
  shows "\<exists>d'. emit_byte b d = Some d' \<and> collected (bs @ [b]) d'"
proof -
  let ?n = "length bs" and ?v = "(enc_out d)[length bs := b]"
  have v: "take (Suc ?n) ?v = bs @ [b]" "length ?v = ?n + free_in_buffer d" "?n < length ?v"
    using assms by (auto simp: collected_def take_Suc_conv_app_nth take_update_cancel)
  have "emit_byte b d = Some (let d' = d\<lparr>enc_out := ?v, next_output := Suc ?n, free_in_buffer := free_in_buffer d - 1\<rparr> in
      if free_in_buffer d' = 0 then EmptyOutputBuffer d' else d')"
    using assms v by (simp add: emit_byte_def wr_def collected_def Let_def)
  then show ?thesis
    using assms v
    by (cases "free_in_buffer d = 1")
      (auto simp: Let_def EmptyOutputBuffer_def collected_def vector_resize_def)
qed

lemma emit_all_collected:
  "collected bs d \<Longrightarrow> \<exists>d'. emit_all cs d = Some d' \<and> collected (bs @ cs) d'"
proof (induction cs arbitrary: bs d)
  case (Cons c cs)
  obtain d1 where d1: "emit_byte c d = Some d1" "collected (bs @ [c]) d1"
    using emit_byte_collected [OF Cons.prems] by blast
  from Cons.IH [OF d1(2)] d1(1) show ?case by (simp add: emit_all_def)
qed (simp add: emit_all_def)

lemma TermDestination_collected:
  "collected bs d \<Longrightarrow> \<exists>d'. TermDestination d = Some d' \<and> enc_out d' = bs \<and> image_buffer_used d' = length bs"
  by (auto simp: TermDestination_def collected_def Let_def vector_resize_prefix)

text \<open>C17. The destination manager is a faithful growing buffer: whatever libjpeg emits between
  \<open>jpeg_start_compress\<close> and \<open>jpeg_finish_compress\<close>, the vector holds exactly these bytes in the
  end. All writes stay inside the vector and neither DCHECK fires.\<close>

theorem destination_collects:
  "\<exists>d. do { d \<leftarrow> InitDestination (JpegEncoderState v); d \<leftarrow> emit_all bs d; TermDestination d } = Some d \<and>
    enc_out d = bs \<and> image_buffer_used d = length bs"
proof -
  obtain d where "InitDestination (JpegEncoderState v) = Some d" "collected [] d"
    using InitDestination_collected by blast
  moreover from emit_all_collected [OF this(2)] obtain e where "emit_all bs d = Some e" "collected bs e"
    by fastforce
  moreover from TermDestination_collected [OF this(2)] obtain f where
    "TermDestination e = Some f" "enc_out f = bs" "image_buffer_used f = length bs" by blast
  ultimately show ?thesis by simp
qed

section \<open>\<open>Encode\<close> writes what libjpeg emits for the rows\<close>

text \<open>The specification: the calls of libjpeg on a list of rows, and the bytes of all of them.\<close>

fun rows_bytes :: "'z compressor \<Rightarrow> 'z \<Rightarrow> byte list list \<Rightarrow> ('z \<times> byte list) option" where
  "rows_bytes lib z [] = Some (z, [])"
| "rows_bytes lib z (r # rs) = do {
     (z, bs) \<leftarrow> c_write lib z r;
     (z, cs) \<leftarrow> rows_bytes lib z rs;
     Some (z, bs @ cs) }"

definition jpeg_bytes :: "'z compressor \<Rightarrow> compress_params \<Rightarrow> byte list list \<Rightarrow> byte list option" where
  "jpeg_bytes lib params rows = do {
     (z, a) \<leftarrow> c_start lib params;
     (z, b) \<leftarrow> rows_bytes lib z rows;
     c \<leftarrow> c_finish lib z;
     Some (a @ b @ c) }"

lemma write_rows_eq:
  assumes "\<And>y buf. y \<in> set ys \<Longrightarrow> Q buf \<Longrightarrow> row y buf = Some (R y) \<and> Q (R y)"
    and "collected bs d" and "Q buf"
  shows "case rows_bytes lib z (map R ys) of
      None \<Rightarrow> write_rows lib row ys z buf d = Some None
    | Some (z', cs) \<Rightarrow> \<exists>d'. write_rows lib row ys z buf d = Some (Some (z', d')) \<and> collected (bs @ cs) d'"
  using assms
proof (induction ys arbitrary: z buf d bs)
  case (Cons y ys)
  then have r: "row y buf = Some (R y)" "Q (R y)" by auto
  show ?case
  proof (cases "c_write lib z (R y)")
    case (Some p)
    obtain z1 c1 where p: "p = (z1, c1)" by (cases p)
    obtain d1 where d1: "emit_all c1 d = Some d1" "collected (bs @ c1) d1"
      using emit_all_collected [OF Cons.prems(2)] by blast
    from Cons.IH [OF _ d1(2) r(2), of z1] Cons.prems(1)
    show ?thesis using r d1(1) Some p
      by (auto split: option.splits)
  qed (use r in simp)
qed simp

lemma compress_eq:
  assumes "\<And>y buf. y < image_height params \<Longrightarrow> Q buf \<Longrightarrow> row y buf = Some (R y) \<and> Q (R y)" and "Q buf"
  shows "compress lib params (Some row) (Some buf) = Some (jpeg_bytes lib params (map R [0..<image_height params]))"
proof (cases "c_start lib params")
  case (Some p)
  obtain z a where p: "p = (z, a)" by (cases p)
  obtain d where d: "InitDestination (JpegEncoderState []) = Some d" "collected [] d"
    using InitDestination_collected by blast
  obtain e where e: "emit_all a d = Some e" "collected a e"
    using emit_all_collected [OF d(2), of a] by auto
  note W = write_rows_eq [where ys = "[0..<image_height params]" and row = row and R = R and Q = Q and lib = lib and z = z,
      OF _ e(2) assms(2)]
  show ?thesis
  proof (cases "rows_bytes lib z (map R [0..<image_height params])")
    case None
    with W assms(1) have "write_rows lib row [0..<image_height params] z buf e = Some None" by auto
    with None d e Some p show ?thesis by (simp add: compress_def jpeg_bytes_def)
  next
    case (Some q)
    obtain z' b where q: "q = (z', b)" by (cases q)
    with W Some assms(1) obtain f where f: "write_rows lib row [0..<image_height params] z buf e = Some (Some (z', f))"
      "collected (a @ b) f" by auto
    show ?thesis
    proof (cases "c_finish lib z'")
      case None
      with f Some q d e \<open>c_start lib params = Some p\<close> p show ?thesis by (simp add: compress_def jpeg_bytes_def)
    next
      case (Some c)
      obtain g where g: "emit_all c f = Some g" "collected ((a @ b) @ c) g"
        using emit_all_collected [OF f(2)] by blast
      obtain h where "TermDestination g = Some h" "enc_out h = (a @ b) @ c"
        using TermDestination_collected [OF g(2)] by blast
      with f g Some \<open>rows_bytes lib z _ = Some q\<close> q d e \<open>c_start lib params = Some p\<close> p
      show ?thesis by (simp add: compress_def jpeg_bytes_def)
    qed
  qed
qed (simp add: compress_def jpeg_bytes_def)


section \<open>What the converters do to a row\<close>

text \<open>A loop that stores one block of \<open>c\<close> bytes per round, one after the other.\<close>

lemma blocks_loop:
  assumes "b + n * c \<le> length s" and "\<And>x. x < n \<Longrightarrow> length (blk x) = c"
    and "\<And>x s'. x < n \<Longrightarrow> length s' = length s \<Longrightarrow>
      body x s' = Some (take (b + x * c) s' @ blk x @ drop (b + x * c + c) s')"
  shows "for_in [0..<n] body s = Some (take b s @ concat (map blk [0..<n]) @ drop (b + n * c) s)"
proof -
  let ?P = "\<lambda>k t. t = take b s @ concat (map blk [0..<k]) @ drop (b + k * c) s"
  have len: "length (concat (map blk [0..<k])) = k * c" if "k \<le> n" for k
    using that assms(2) by (subst length_concat_blocks [where k = c]) auto
  have "\<exists>t. for_in [0..<n] body s = Some t \<and> ?P n t"
  proof (rule for_in_upt [where P = ?P])
    fix k t
    assume k: "k < n" and P: "?P k t"
    have fit: "b + k * c + c \<le> length s"
      using assms(1) mult_le_mono1 [of "Suc k" n c] k by simp
    have "length t = length s" using P len [of k] k fit by simp
    then have "body k t = Some (take (b + k * c) t @ blk k @ drop (b + k * c + c) t)"
      by (rule assms(3) [OF k])
    moreover have "take (b + k * c) t = take b s @ concat (map blk [0..<k])"
      using P len [of k] k fit by simp
    moreover have "drop (b + k * c + c) t = drop (b + Suc k * c) s"
      using P len [of k] k fit by (simp add: add.commute add.left_commute)
    ultimately show "\<exists>t'. body k t = Some t' \<and> ?P (Suc k) t'" by simp
  qed (use assms in auto)
  then show ?thesis by simp
qed

lemma store3:
  assumes "i + 3 \<le> length s"
  shows "s[i := p, i + 1 := q, i + 2 := r] = take i s @ [p, q, r] @ drop (i + 3) s"
  using assms
  by (intro nth_equalityI) (auto simp: nth_list_update nth_append nth_Cons' numeral_3_eq_3 numeral_2_eq_2
      intro!: arg_cong [where f = "(!) s"])

lemma store4:
  assumes "i + 4 \<le> length s"
  shows "s[i := p, i + 1 := q, i + 2 := r, i + 3 := u] = take i s @ [p, q, r, u] @ drop (i + 4) s"
  using assms
  by (intro nth_equalityI) (auto simp: nth_list_update nth_append nth_Cons' eval_nat_numeral intro!: arg_cong [where f = "(!) s"])

definition rgb_of_rgba :: "byte list \<Rightarrow> nat \<Rightarrow> nat \<Rightarrow> byte list" where
  "rgb_of_rgba p a w = concat (map (\<lambda>x. [p ! (a + x * 4), p ! (a + x * 4 + 1), p ! (a + x * 4 + 2)]) [0..<w])"

definition rgb_of_bgra :: "byte list \<Rightarrow> nat \<Rightarrow> nat \<Rightarrow> byte list" where
  "rgb_of_bgra p a w = concat (map (\<lambda>x. [p ! (a + x * 4 + 2), p ! (a + x * 4 + 1), p ! (a + x * 4)]) [0..<w])"

definition rgba_of_rgb :: "byte list \<Rightarrow> nat \<Rightarrow> nat \<Rightarrow> byte list" where
  "rgba_of_rgb p a w = concat (map (\<lambda>x. [p ! (a + x * 3), p ! (a + x * 3 + 1), p ! (a + x * 3 + 2), 0xff]) [0..<w])"

definition bgra_of_rgb :: "byte list \<Rightarrow> nat \<Rightarrow> nat \<Rightarrow> byte list" where
  "bgra_of_rgb p a w = concat (map (\<lambda>x. [p ! (a + x * 3 + 2), p ! (a + x * 3 + 1), p ! (a + x * 3), 0xff]) [0..<w])"

lemma length_rows [len_simps]:
  "length (rgb_of_rgba p a w) = w * 3" "length (rgb_of_bgra p a w) = w * 3"
  "length (rgba_of_rgb p a w) = w * 4" "length (bgra_of_rgb p a w) = w * 4"
  by (simp_all add: rgb_of_rgba_def rgb_of_bgra_def rgba_of_rgb_def bgra_of_rgb_def length_concat comp_def sum_list_triv)

lemma block_fits: "x < w \<Longrightarrow> a + w * c \<le> n \<Longrightarrow> a + x * c + c \<le> n" for a n :: nat
  using mult_le_mono1 [of "Suc x" w c] by simp

lemma StripAlpha_eq:
  assumes "a + w * 4 \<le> length p" and "b + w * 3 \<le> length q"
  shows "StripAlpha p a w q b = Some (take b q @ rgb_of_rgba p a w @ drop (b + w * 3) q)"
  unfolding StripAlpha_def rgb_of_rgba_def
proof (rule blocks_loop [OF assms(2)])
  fix x and s' :: "byte list"
  assume "x < w" "length s' = length q"
  with block_fits [OF this(1) assms(1)] block_fits [OF this(1) assms(2)] show
    "do { p0 \<leftarrow> rd p (a + x * 4); rgb \<leftarrow> wr s' (b + x * 3) p0;
       p1 \<leftarrow> rd p (a + x * 4 + 1); rgb \<leftarrow> wr rgb (b + x * 3 + 1) p1;
       p2 \<leftarrow> rd p (a + x * 4 + 2); wr rgb (b + x * 3 + 2) p2 } =
     Some (take (b + x * 3) s' @ [p ! (a + x * 4), p ! (a + x * 4 + 1), p ! (a + x * 4 + 2)] @ drop (b + x * 3 + 3) s')"
    using store3 [of "b + x * 3" s'] by (simp add: rd_def wr_def)
qed simp

lemma BGRAtoRGB_eq:
  assumes "a + w * 4 \<le> length p" and "b + w * 3 \<le> length q"
  shows "BGRAtoRGB p a w q b = Some (take b q @ rgb_of_bgra p a w @ drop (b + w * 3) q)"
  unfolding BGRAtoRGB_def rgb_of_bgra_def
proof (rule blocks_loop [OF assms(2)])
  fix x and s' :: "byte list"
  assume "x < w" "length s' = length q"
  with block_fits [OF this(1) assms(1)] block_fits [OF this(1) assms(2)] show
    "do { p0 \<leftarrow> rd p (a + x * 4 + 2); rgb \<leftarrow> wr s' (b + x * 3) p0;
       p1 \<leftarrow> rd p (a + x * 4 + 1); rgb \<leftarrow> wr rgb (b + x * 3 + 1) p1;
       p2 \<leftarrow> rd p (a + x * 4); wr rgb (b + x * 3 + 2) p2 } =
     Some (take (b + x * 3) s' @ [p ! (a + x * 4 + 2), p ! (a + x * 4 + 1), p ! (a + x * 4)] @ drop (b + x * 3 + 3) s')"
    using store3 [of "b + x * 3" s'] by (simp add: rd_def wr_def)
qed simp

lemma AddAlpha_eq:
  assumes "a + w * 3 \<le> length p" and "b + w * 4 \<le> length q"
  shows "AddAlpha p a w q b = Some (take b q @ rgba_of_rgb p a w @ drop (b + w * 4) q)"
  unfolding AddAlpha_def rgba_of_rgb_def
proof (rule blocks_loop [OF assms(2)])
  fix x and s' :: "byte list"
  assume "x < w" "length s' = length q"
  with block_fits [OF this(1) assms(1)] block_fits [OF this(1) assms(2)] show
    "do { p0 \<leftarrow> rd p (a + x * 3); rgba \<leftarrow> wr s' (b + x * 4) p0;
       p1 \<leftarrow> rd p (a + x * 3 + 1); rgba \<leftarrow> wr rgba (b + x * 4 + 1) p1;
       p2 \<leftarrow> rd p (a + x * 3 + 2); rgba \<leftarrow> wr rgba (b + x * 4 + 2) p2;
       wr rgba (b + x * 4 + 3) 0xff } =
     Some (take (b + x * 4) s' @ [p ! (a + x * 3), p ! (a + x * 3 + 1), p ! (a + x * 3 + 2), 0xff] @ drop (b + x * 4 + 4) s')"
    using store4 [of "b + x * 4" s'] by (simp add: rd_def wr_def)
qed simp

lemma RGBtoBGRA_eq:
  assumes "a + w * 3 \<le> length p" and "b + w * 4 \<le> length q"
  shows "RGBtoBGRA p a w q b = Some (take b q @ bgra_of_rgb p a w @ drop (b + w * 4) q)"
  unfolding RGBtoBGRA_def bgra_of_rgb_def
proof (rule blocks_loop [OF assms(2)])
  fix x and s' :: "byte list"
  assume "x < w" "length s' = length q"
  with block_fits [OF this(1) assms(1)] block_fits [OF this(1) assms(2)] show
    "do { p0 \<leftarrow> rd p (a + x * 3 + 2); bgra \<leftarrow> wr s' (b + x * 4) p0;
       p1 \<leftarrow> rd p (a + x * 3 + 1); bgra \<leftarrow> wr bgra (b + x * 4 + 1) p1;
       p2 \<leftarrow> rd p (a + x * 3); bgra \<leftarrow> wr bgra (b + x * 4 + 2) p2;
       wr bgra (b + x * 4 + 3) 0xff } =
     Some (take (b + x * 4) s' @ [p ! (a + x * 3 + 2), p ! (a + x * 3 + 1), p ! (a + x * 3), 0xff] @ drop (b + x * 4 + 4) s')"
    using store4 [of "b + x * 4" s'] by (simp add: rd_def wr_def)
qed simp


text \<open>Adding the alpha byte and stripping it again gives the row back, in both orders of the
  colours.\<close>

lemma nth_rgba_of_rgb:
  assumes "x < w" and "k < 4"
  shows "rgba_of_rgb p a w ! (x * 4 + k) = [p ! (a + x * 3), p ! (a + x * 3 + 1), p ! (a + x * 3 + 2), 0xff] ! k"
  unfolding rgba_of_rgb_def using assms by (subst nth_concat_blocks) auto

lemma nth_bgra_of_rgb:
  assumes "x < w" and "k < 4"
  shows "bgra_of_rgb p a w ! (x * 4 + k) = [p ! (a + x * 3 + 2), p ! (a + x * 3 + 1), p ! (a + x * 3), 0xff] ! k"
  unfolding bgra_of_rgb_def using assms by (subst nth_concat_blocks) auto

lemma triples:
  assumes "length p = w * 3"
  shows "concat (map (\<lambda>x. [p ! (x * 3), p ! (x * 3 + 1), p ! (x * 3 + 2)]) [0..<w]) = p"
proof (rule nth_equalityI)
  show len: "length (concat (map (\<lambda>x. [p ! (x * 3), p ! (x * 3 + 1), p ! (x * 3 + 2)]) [0..<w])) = length p"
    using assms by (simp add: length_concat comp_def sum_list_triv)
  fix i assume "i < length (concat (map (\<lambda>x. [p ! (x * 3), p ! (x * 3 + 1), p ! (x * 3 + 2)]) [0..<w]))"
  with len assms have i: "i < w * 3" by simp
  then have d: "i div 3 < w" by (simp add: less_mult_imp_div_less)
  have "concat (map (\<lambda>x. [p ! (x * 3), p ! (x * 3 + 1), p ! (x * 3 + 2)]) [0..<w]) ! (i div 3 * 3 + i mod 3) =
      [p ! (i div 3 * 3), p ! (i div 3 * 3 + 1), p ! (i div 3 * 3 + 2)] ! (i mod 3)"
    using d by (subst nth_concat_blocks) auto
  also have "\<dots> = p ! (i div 3 * 3 + i mod 3)"
  proof -
    have "i mod 3 = 0 \<or> i mod 3 = 1 \<or> i mod 3 = 2" by linarith
    then show ?thesis by (elim disjE) (simp_all del: div_mult_mod_eq mult_div_mod_eq)
  qed
  finally show "concat (map (\<lambda>x. [p ! (x * 3), p ! (x * 3 + 1), p ! (x * 3 + 2)]) [0..<w]) ! i = p ! i" by simp
qed

text \<open>\<open>StripAlpha\<close> undoes \<open>AddAlpha\<close> and \<open>BGRAtoRGB\<close> undoes \<open>RGBtoBGRA\<close>: a row of RGB pixels that
  is expanded to four bytes per pixel and reduced again is the same row, whatever the buffers held.\<close>

lemma alpha_roundtrip:
  assumes "length p = w * 3" and "length q = w * 4" and "length r = w * 3"
  shows "do { rgba \<leftarrow> AddAlpha p 0 w q 0; StripAlpha rgba 0 w r 0 } = Some p \<and>
    do { bgra \<leftarrow> RGBtoBGRA p 0 w q 0; BGRAtoRGB bgra 0 w r 0 } = Some p"
proof -
  have "rgb_of_rgba (rgba_of_rgb p 0 w) 0 w = concat (map (\<lambda>x. [p ! (x * 3), p ! (x * 3 + 1), p ! (x * 3 + 2)]) [0..<w])"
    unfolding rgb_of_rgba_def
    by (intro arg_cong [where f = concat] map_cong)
      (use nth_rgba_of_rgb [of _ w 0 p 0] nth_rgba_of_rgb [of _ w 1 p 0] nth_rgba_of_rgb [of _ w 2 p 0] in auto)
  moreover have "rgb_of_bgra (bgra_of_rgb p 0 w) 0 w = concat (map (\<lambda>x. [p ! (x * 3), p ! (x * 3 + 1), p ! (x * 3 + 2)]) [0..<w])"
    unfolding rgb_of_bgra_def
    by (intro arg_cong [where f = concat] map_cong)
      (use nth_bgra_of_rgb [of _ w 0 p 0] nth_bgra_of_rgb [of _ w 1 p 0] nth_bgra_of_rgb [of _ w 2 p 0] in auto)
  ultimately show ?thesis
    using assms triples [OF assms(1)] by (simp add: AddAlpha_eq StripAlpha_eq RGBtoBGRA_eq BGRAtoRGB_eq len_simps)
qed

section \<open>The rows that libjpeg gets\<close>

lemma row_fits:
  fixes y h r n l :: nat
  assumes "y < h" and "(h - 1) * r + n \<le> l"
  shows "y * r + n \<le> l"
proof -
  have "y * r \<le> (h - 1) * r" using assms(1) by (intro mult_le_mono1) simp
  with assms(2) show ?thesis by linarith
qed

lemma row_offset_small: "y * r < 2 ^ 32 \<Longrightarrow> row_offset y r = y * r"
  by (simp only: row_offset_def of_nat_mult [symmetric] unat_of_nat) simp

definition bytes_per_pixel :: "int \<Rightarrow> nat" where
  "bytes_per_pixel format = (if format = FORMAT_RGB then 3 else 4)"

text \<open>The colour space and the number of components of the rows that libjpeg is given or asked for.\<close>

definition native_space :: "bool \<Rightarrow> int \<Rightarrow> jcs \<times> nat" where
  "native_space jcs_ext format =
     (if jcs_ext \<and> format = FORMAT_RGBA then (JCS_EXT_RGBX, 4)
      else if jcs_ext \<and> format = FORMAT_BGRA then (JCS_EXT_BGRX, 4) else (JCS_RGB, 3))"

text \<open>The row of libjpeg for the row of the image at \<open>a\<close>: the bytes themselves, or their RGB part.\<close>

definition input_row :: "bool \<Rightarrow> int \<Rightarrow> byte list \<Rightarrow> nat \<Rightarrow> nat \<Rightarrow> byte list" where
  "input_row jcs_ext format input a w =
     (if jcs_ext \<or> format = FORMAT_RGB then take (w * bytes_per_pixel format) (drop a input)
      else if format = FORMAT_RGBA then rgb_of_rgba input a w else rgb_of_bgra input a w)"

definition encode_params :: "bool \<Rightarrow> int \<Rightarrow> nat \<Rightarrow> nat \<Rightarrow> int \<Rightarrow> compress_params" where
  "encode_params jcs_ext format w h q =
     (case native_space jcs_ext format of (cs, n) \<Rightarrow>
       \<lparr>image_width = w, image_height = h, input_components = n, in_color_space = cs, jpeg_quality = q\<rparr>)"

lemma Encode_rows:
  assumes "format \<in> {FORMAT_RGB, FORMAT_RGBA, FORMAT_BGRA}"
    and "0 < h" "(h - 1) * rbw + w * bytes_per_pixel format \<le> length input" "(h - 1) * rbw < 2 ^ 32" "w * 3 < 2 ^ 31"
  shows "JPEGCodec_Encode jcs_ext lib junk input format w h rbw q =
    Some (jpeg_bytes lib (encode_params jcs_ext format w h q) (map (\<lambda>y. input_row jcs_ext format input (y * rbw) w) [0..<h]))"
proof -
  let ?p = "\<lambda>n cs. \<lparr>image_width = w, image_height = h, input_components = n, in_color_space = cs, jpeg_quality = q\<rparr>"
  have fit: "y * rbw + w * bytes_per_pixel format \<le> length input" if "y < h" for y
    using row_fits [OF that assms(3)] .
  have off: "row_offset y rbw = y * rbw" if "y < h" for y
    using row_fits [OF that, of rbw 1 "2 ^ 32"] assms(4) by (intro row_offset_small) simp
  have direct: "compress lib (?p n cs) (Some (\<lambda>y buf. scan_row input (row_offset y rbw) (w * bytes_per_pixel format))) (Some []) =
      Some (jpeg_bytes lib (?p n cs) (map (\<lambda>y. take (w * bytes_per_pixel format) (drop (y * rbw) input)) [0..<image_height (?p n cs)]))" for n cs
    by (rule compress_eq [where Q = "\<lambda>_. True"]) (use fit off in \<open>simp_all add: scan_row_def\<close>)
  note direct = direct [unfolded compress_params.simps]
  note unfold = JPEGCodec_Encode_def Let_def encode_params_def native_space_def input_row_def [abs_def] formats bytes_per_pixel_def
  consider (ext) "jcs_ext \<or> format = FORMAT_RGB" | (rgba) "\<not> jcs_ext" "format = FORMAT_RGBA" | (bgra) "\<not> jcs_ext" "format = FORMAT_BGRA"
    using assms(1) by blast
  then show ?thesis
  proof cases
    case ext
    then show ?thesis using assms(1) direct by (auto simp: unfold)
  next
    case rgba
    have "compress lib (?p 3 JCS_RGB) (Some (\<lambda>y buf. StripAlpha input (row_offset y rbw) w buf 0)) (Some (map junk [0..<w * 3])) =
        Some (jpeg_bytes lib (?p 3 JCS_RGB) (map (\<lambda>y. input_row jcs_ext format input (y * rbw) w) [0..<image_height (?p 3 JCS_RGB)]))"
      by (rule compress_eq [where Q = "\<lambda>b. length b = w * 3"])
        (use fit off rgba in \<open>simp_all add: StripAlpha_eq bytes_per_pixel_def input_row_def formats len_simps\<close>)
    then show ?thesis using rgba assms(5) by (simp add: unfold)
  next
    case bgra
    have "compress lib (?p 3 JCS_RGB) (Some (\<lambda>y buf. BGRAtoRGB input (row_offset y rbw) w buf 0)) (Some (map junk [0..<w * 3])) =
        Some (jpeg_bytes lib (?p 3 JCS_RGB) (map (\<lambda>y. input_row jcs_ext format input (y * rbw) w) [0..<image_height (?p 3 JCS_RGB)]))"
      by (rule compress_eq [where Q = "\<lambda>b. length b = w * 3"])
        (use fit off bgra in \<open>simp_all add: BGRAtoRGB_eq bytes_per_pixel_def input_row_def formats len_simps\<close>)
    then show ?thesis using bgra assms(5) by (simp add: unfold)
  qed
qed

text \<open>For RGB input, the format of the experiments, the two builds do the same.\<close>

lemma Encode_RGB_builds: "JPEGCodec_Encode True lib junk input FORMAT_RGB w h rbw q =
    JPEGCodec_Encode False lib junk input FORMAT_RGB w h rbw q"
  by (simp add: JPEGCodec_Encode_def Let_def)

text \<open>The bound in the theorem below is one of the code: an image of 65500 rows, 65536 bytes apart, is
  larger than 2^32 bytes. Its last rows are read from the rows at the start of the image.\<close>

lemma row_offset_wraps: "row_offset 65499 65580 = 65499 * 65580 - 2 ^ 32"
  by (simp add: row_offset_def)


text \<open>C15. In both builds, with and without \<open>JCS_EXTENSIONS\<close>, \<open>Encode\<close> of an image of at least one
  row whose rows lie inside the input, at any row stride and in any of the three formats, returns the bytes that libjpeg
  emits for the rows, as they are (in the colour space of the format) with the extensions and in RGB
  without, or false exactly when libjpeg signals an error. The last row begins before byte 2^32, because
  from there on the offset \<open>next_scanline * row_byte_width\<close> of 32 bits wraps, and a row has fewer than
  2^31 bytes in RGB (libjpeg itself refuses more than 65500 pixels).\<close>

theorem Encode_feeds_rows:
  assumes "format \<in> {FORMAT_RGB, FORMAT_RGBA, FORMAT_BGRA}"
    and "0 < h" "(h - 1) * row_byte_width + w * bytes_per_pixel format \<le> length input"
    and "(h - 1) * row_byte_width < 2 ^ 32" "w * 3 < 2 ^ 31"
  shows "JPEGCodec_Encode jcs_ext lib junk input format w h row_byte_width q =
    Some (jpeg_bytes lib (encode_params jcs_ext format w h q)
      (map (\<lambda>y. input_row jcs_ext format input (y * row_byte_width) w) [0..<h]))"
  using assms by (rule Encode_rows)

text \<open>A compressor that stores the image as it is: the quality as a header, then the rows.\<close>

definition store_jpeg :: "nat compressor" where
  "store_jpeg = \<lparr>c_start = (\<lambda>p. Some (0, [word_of_int (jpeg_quality p)])),
     c_write = (\<lambda>z r. Some (z + 1, r)), c_finish = (\<lambda>z. Some [0xd9])\<rparr>"

theorem Encode_feeds_rows_witness:
  "JPEGCodec_Encode False store_jpeg (\<lambda>_. 0) [1, 2, 3, 4, 5, 6, 7, 8, 9, 10, 11] FORMAT_BGRA 1 2 6 50 =
      Some (Some [50, 3, 2, 1, 9, 8, 7, 0xd9]) \<and>
   JPEGCodec_Encode True store_jpeg (\<lambda>_. 0) [1, 2, 3, 4, 5, 6, 7, 8, 9, 10, 11] FORMAT_BGRA 1 2 6 50 =
      Some (Some [50, 1, 2, 3, 4, 7, 8, 9, 10, 0xd9])"
proof -
  have "JPEGCodec_Encode ext store_jpeg (\<lambda>_. 0) [1, 2, 3, 4, 5, 6, 7, 8, 9, 10, 11] FORMAT_BGRA 1 2 6 50 =
      Some (jpeg_bytes store_jpeg (encode_params ext FORMAT_BGRA 1 2 50)
        (map (\<lambda>y. input_row ext FORMAT_BGRA [1, 2, 3, 4, 5, 6, 7, 8, 9, 10, 11] (y * 6) 1) [0..<2]))" for ext
    by (rule Encode_feeds_rows) (simp_all add: formats bytes_per_pixel_def)
  then show ?thesis
    by (simp add: formats bytes_per_pixel_def input_row_def encode_params_def native_space_def rgb_of_bgra_def
        jpeg_bytes_def store_jpeg_def numeral_2_eq_2 eval_nat_numeral)
qed

section \<open>The source manager stays inside the input\<close>

definition source_ok :: "source \<Rightarrow> bool" where
  "source_ok s \<longleftrightarrow> next_input s + bytes_in_buffer s = length (input_buffer s)"

lemma skip_source_ok: "source_ok s \<Longrightarrow> source_ok (SkipInputData n s) \<and> input_buffer (SkipInputData n s) = input_buffer s"
  by (auto simp: source_ok_def SkipInputData_def)

lemma skips_source_ok:
  "source_ok s \<Longrightarrow> source_ok (fold SkipInputData ns s) \<and> input_buffer (fold SkipInputData ns s) = input_buffer s"
  by (induction ns arbitrary: s) (use skip_source_ok in auto)

lemma skips_position:
  "source_ok s \<Longrightarrow> int (next_input (fold SkipInputData ns s)) =
    fold (\<lambda>n pos. min (int (length (input_buffer s))) (pos + max 0 n)) ns (int (next_input s))"
proof (induction ns arbitrary: s)
  case (Cons n ns)
  note s = skip_source_ok [OF Cons.prems, of n]
  have "int (next_input (SkipInputData n s)) = min (int (length (input_buffer s))) (int (next_input s) + max 0 n)"
    using Cons.prems by (auto simp: source_ok_def SkipInputData_def)
  with Cons.IH [of "SkipInputData n s"] s show ?case by simp
qed simp

text \<open>However often and however far libjpeg skips, the source manager never points beyond the
  end of the input: the bytes left are the ones between the read position and the end, a skip by
  at most that many bytes moves the position by its (positive) amount, and a longer one goes to the
  end, where the next fill fails.\<close>

lemma SkipInputData_in_bounds:
  "next_input (fold SkipInputData ns (InitSource input)) + bytes_in_buffer (fold SkipInputData ns (InitSource input)) = length input \<and>
   int (next_input (fold SkipInputData ns (InitSource input))) = fold (\<lambda>n pos. min (int (length input)) (pos + max 0 n)) ns 0"
proof -
  have "source_ok (InitSource input)" by (simp add: source_ok_def InitSource_def)
  from skips_source_ok [OF this, of ns] skips_position [OF this, of ns] show ?thesis
    by (simp add: source_ok_def InitSource_def)
qed

section \<open>\<open>Decode\<close> returns the rows that libjpeg delivers\<close>

primrec scan_rows :: "'y decompressor \<Rightarrow> nat \<Rightarrow> 'y \<Rightarrow> (byte list list \<times> 'y) option" where
  "scan_rows lib 0 z = Some ([], z)"
| "scan_rows lib (Suc n) z = do { (r, z) \<leftarrow> d_scanline lib z; (rs, z) \<leftarrow> scan_rows lib n z; Some (r # rs, z) }"

text \<open>The documented behaviour that the code relies on: a row has the announced length.\<close>

primrec delivers :: "'y decompressor \<Rightarrow> nat \<Rightarrow> nat \<Rightarrow> 'y \<Rightarrow> bool" where
  "delivers lib l 0 z = True"
| "delivers lib l (Suc n) z =
     (case d_scanline lib z of None \<Rightarrow> True | Some (r, z) \<Rightarrow> length r = l \<and> delivers lib l n z)"

lemma read_rows_eq:
  assumes store: "\<And>y row tmp v. y < h \<Longrightarrow> length row = l \<Longrightarrow> length tmp = k \<Longrightarrow> length v = stride * h \<Longrightarrow>
      \<exists>tmp'. length tmp' = k \<and> store y row (tmp, v) =
        Some (tmp', take (y * stride) v @ conv row @ drop (y * stride + stride) v)"
    and conv: "\<And>row. length row = l \<Longrightarrow> length (conv row) = stride"
  shows "delivers lib l n z \<Longrightarrow> a + n = h \<Longrightarrow> length tmp = k \<Longrightarrow> length v = stride * h \<Longrightarrow>
    read_rows lib store [a..<h] z (tmp, v) =
      Some (map_option (\<lambda>(rows, z). (z, take (a * stride) v @ concat (map conv rows))) (scan_rows lib n z))"
proof (induction n arbitrary: a z tmp v)
  case 0
  then show ?case by (simp add: mult.commute)
next
  case (Suc n)
  then have a: "a < h" "[a..<h] = a # [Suc a..<h]" by (simp_all add: upt_conv_Cons)
  show ?case
  proof (cases "d_scanline lib z")
    case (Some p)
    obtain row z1 where p: "p = (row, z1)" by (cases p)
    with Some Suc.prems(1) have row: "length row = l" "delivers lib l n z1" by auto
    let ?v = "take (a * stride) v @ conv row @ drop (a * stride + stride) v"
    obtain tmp' where tmp: "length tmp' = k" "store a row (tmp, v) = Some (tmp', ?v)"
      using store [OF a(1) row(1) Suc.prems(3,4)] by blast
    have "Suc a * stride \<le> h * stride" using a(1) by (intro mult_le_mono1) simp
    then have fit: "a * stride + stride \<le> length v" using Suc.prems(4) by (simp add: algebra_simps)
    have v: "length ?v = stride * h" "take (Suc a * stride) ?v = take (a * stride) v @ conv row"
      using fit a(1) Suc.prems(4) conv [OF row(1)] by simp_all
    from Suc.IH [OF row(2) _ tmp(1) v(1), of "Suc a"] Suc.prems(2) a(2) tmp(2) Some p v(2)
    show ?thesis by (cases "scan_rows lib n z1") auto
  qed (use a in simp)
qed

text \<open>While the output has fewer than 2^31 bytes, the arithmetic of \<open>Decode\<close> is exact.\<close>

lemma row_stride_small: "w * n < 2 ^ 31 \<Longrightarrow> row_stride w n = int (w * n)"
  by (simp only: row_stride_def of_nat_mult [symmetric] sint_of_nat_small)

lemma output_size_small: "s * h < 2 ^ 32 \<Longrightarrow> output_size (int s) h = s * h"
  by (simp only: output_size_def of_int_of_nat_eq of_nat_mult [symmetric] unat_of_nat) simp

lemma row_index_small:
  assumes "y < h" "s * h < 2 ^ 31"
  shows "row_index y (int s) = Some (y * s)"
proof -
  have "y * s \<le> s * h" using assms(1) by (simp add: mult.commute mult_le_mono1)
  from le_less_trans [OF this assms(2)] have "y * s < 2 ^ 31" .
  then have "int (y * s) < int (2 ^ 31)" by (simp only: of_nat_less_iff)
  then show ?thesis by (simp add: row_index_def flip: of_nat_mult)
qed

lemma store_direct_eq:
  assumes "y < h" "length row = stride" "length v = stride * h" "stride * h < 2 ^ 31"
  shows "store_direct (int stride) y row (tmp, v) =
    Some (tmp, take (y * stride) v @ row @ drop (y * stride + stride) v)"
proof -
  have "Suc y * stride \<le> h * stride" using assms(1) by (intro mult_le_mono1) simp
  with assms(2,3) row_index_small [OF assms(1,4)] show ?thesis
    by (simp add: store_direct_def copy_into_def algebra_simps)
qed

lemma store_converted_eq:
  assumes "y < h" "length row = w * 3" "length tmp = w * 3" "length v = w * 4 * h" "w * 4 * h < 2 ^ 31"
    and conv: "\<And>p b q. length p = w * 3 \<Longrightarrow> b + w * 4 \<le> length q \<Longrightarrow>
      converter p 0 w q b = Some (take b q @ conv p @ drop (b + w * 4) q)"
  shows "store_converted converter w (int (w * 4)) y row (tmp, v) =
    Some (row, take (y * (w * 4)) v @ conv row @ drop (y * (w * 4) + w * 4) v)"
proof -
  have "Suc y * (w * 4) \<le> h * (w * 4)" using assms(1) by (intro mult_le_mono1) simp
  then have "y * (w * 4) + w * 4 \<le> length v" using assms(4) by (simp add: algebra_simps)
  with assms(2,3) conv [of row "y * (w * 4)" v] show ?thesis
    unfolding store_converted_def prod.case row_index_small [OF assms(1,5)]
    by (simp add: copy_into_def)
qed

text \<open>The row of the output for a row of libjpeg.\<close>

definition output_row :: "bool \<Rightarrow> int \<Rightarrow> nat \<Rightarrow> byte list \<Rightarrow> byte list" where
  "output_row jcs_ext format w row =
     (if jcs_ext \<or> format = FORMAT_RGB then row
      else if format = FORMAT_RGBA then rgba_of_rgb row 0 w else bgra_of_rgb row 0 w)"

text \<open>What \<open>Decode\<close> returns: the converted rows one after the other, if libjpeg has them all.\<close>

definition decoded_image :: "bool \<Rightarrow> 'y decompressor \<Rightarrow> int \<Rightarrow> nat \<Rightarrow> nat \<Rightarrow> 'y \<Rightarrow> byte list option" where
  "decoded_image jcs_ext lib format w h z = do {
     (rows, z) \<leftarrow> scan_rows lib h z;
     if d_finish lib z then Some (concat (map (output_row jcs_ext format w) rows)) else None }"

lemma decompress_rows_eq:
  assumes start: "d_start lib cs n z = Some z1" and "delivers lib l h z1" and "length tmp = k"
    and size: "0 < stride" "stride * h < 2 ^ 31"
    and store: "\<And>y row tmp v. y < h \<Longrightarrow> length row = l \<Longrightarrow> length tmp = k \<Longrightarrow> length v = stride * h \<Longrightarrow>
      \<exists>tmp'. length tmp' = k \<and> store y row (tmp, v) =
        Some (tmp', take (y * stride) v @ output_row ext format w row @ drop (y * stride + stride) v)"
    and conv: "\<And>row. length row = l \<Longrightarrow> length (output_row ext format w row) = stride"
  shows "decompress_rows lib cs n h z (Some (store, int stride)) (Some tmp) = Some (decoded_image ext lib format w h z1)"
proof -
  let ?v = "vector_resize (stride * h) []"
  have "h \<le> stride * h" using size(1) by simp
  with size(2) have h: "h < 2 ^ 31" by linarith
  have "nat (sint (word_of_nat h :: u32)) = h"
    by (simp only: sint_of_nat_small [OF h] nat_int)
  moreover have "output_size (int stride) h = stride * h"
    using size(2) by (intro output_size_small) simp
  moreover have "read_rows lib store [0..<h] z1 (tmp, ?v) = Some (map_option
      (\<lambda>(rows, z). (z, take (0 * stride) ?v @ concat (map (output_row ext format w) rows))) (scan_rows lib h z1))"
    by (rule read_rows_eq [where k = k and l = l and stride = stride])
      (fact store, fact conv, fact, fact add_0, fact, rule length_vector_resize)
  then have "read_rows lib store [0..<h] z1 (tmp, ?v) =
      Some (map_option (\<lambda>(rows, z). (z, concat (map (output_row ext format w) rows))) (scan_rows lib h z1))"
    by (simp only: mult_0 take_0 append_Nil)
  ultimately show ?thesis using start
    by (cases "scan_rows lib h z1") (auto simp: decompress_rows_def decoded_image_def)
qed

lemma decompress_direct:
  assumes "d_start lib cs n z = Some z1" "delivers lib (w * n) h z1"
    and "0 < w * n" "w * n * h < 2 ^ 31" and "ext \<or> format = FORMAT_RGB"
  shows "decompress_rows lib cs n h z (Some (store_direct (int (w * n)), int (w * n))) (Some []) = Some (decoded_image ext lib format w h z1)"
  by (rule decompress_rows_eq [OF assms(1,2) _ assms(3,4), where k = 0])
    (use assms(4,5) in \<open>auto simp del: of_nat_mult simp: store_direct_eq output_row_def\<close>)

lemma decompress_converted:
  assumes "d_start lib JCS_RGB 3 z = Some z1" "delivers lib (w * 3) h z1" "0 < w" "w * 4 * h < 2 ^ 31"
    and "length tmp = w * 3" and len: "\<And>p. length (conv p) = w * 4"
    and "\<And>p b q. length p = w * 3 \<Longrightarrow> b + w * 4 \<le> length q \<Longrightarrow>
      converter p 0 w q b = Some (take b q @ conv p @ drop (b + w * 4) q)"
    and row: "\<And>p. output_row ext format w p = conv p"
  shows "decompress_rows lib JCS_RGB 3 h z (Some (store_converted converter w (int (w * 4)), int (w * 4))) (Some tmp) =
    Some (decoded_image ext lib format w h z1)"
proof (rule decompress_rows_eq [OF assms(1,2,5) _ assms(4)])
  fix y and row tmp v :: "byte list"
  assume "y < h" "length row = w * 3" "length tmp = w * 3" "length v = w * 4 * h"
  from store_converted_eq [of y h row w tmp v converter conv, OF this assms(4,7)] this(2)
  show "\<exists>tmp'. length tmp' = w * 3 \<and> store_converted converter w (int (w * 4)) y row (tmp, v) =
      Some (tmp', take (y * (w * 4)) v @ output_row ext format w row @ drop (y * (w * 4) + w * 4) v)"
    unfolding assms(8) by blast
qed (use assms(3) len row in auto)

lemma Decode_rows:
  assumes "format \<in> {FORMAT_RGB, FORMAT_RGBA, FORMAT_BGRA}"
    and "d_header lib input = Some (cs, w, h, z)" "cs \<in> {JCS_GRAYSCALE, JCS_RGB, JCS_YCbCr}"
    and "native_space jcs_ext format = (out_cs, n)" "d_start lib out_cs n z = Some z1" "delivers lib (w * n) h z1"
    and "0 < w" "0 < h" and size: "w * bytes_per_pixel format * h < 2 ^ 31"
  shows "JPEGCodec_Decode jcs_ext lib junk input format =
    Some (map_option (\<lambda>output. (output, w, h)) (decoded_image jcs_ext lib format w h z1))"
proof -
  have "w * bytes_per_pixel format \<le> w * bytes_per_pixel format * h" using assms(8) by simp
  with size have bpp: "w * bytes_per_pixel format < 2 ^ 31" by linarith
  moreover have "w * 3 \<le> w * bytes_per_pixel format" by (simp add: bytes_per_pixel_def)
  ultimately have "w * 3 < 2 ^ 31" by linarith
  then have stride: "row_stride w 3 = int (w * 3)" by (rule row_stride_small)
  have stride4: "row_stride w 4 = int (w * 4)" if "format \<noteq> FORMAT_RGB"
    using bpp that by (intro row_stride_small) (simp add: bytes_per_pixel_def)
  consider (ext) "jcs_ext \<or> format = FORMAT_RGB" | (rgba) "\<not> jcs_ext" "format = FORMAT_RGBA" | (bgra) "\<not> jcs_ext" "format = FORMAT_BGRA"
    using assms(1) by blast
  then show ?thesis
  proof cases
    case ext
    have n: "n = bytes_per_pixel format"
      using assms(1,4) ext by (auto simp: native_space_def formats bytes_per_pixel_def split: if_splits)
    have D: "decompress_rows lib out_cs n h z (Some (store_direct (int (w * n)), int (w * n))) (Some []) = Some (decoded_image jcs_ext lib format w h z1)"
      using assms(7) size by (intro decompress_direct [OF assms(5,6) _ _ ext]) (simp_all add: n bytes_per_pixel_def)
    consider "format = FORMAT_RGB" | "jcs_ext" "format = FORMAT_RGBA" | "jcs_ext" "format = FORMAT_BGRA"
      using assms(1) ext by blast
    then show ?thesis
      by cases (use assms(2,3,4) D stride stride4 in \<open>auto simp: JPEGCodec_Decode_def native_space_def formats\<close>)
  next
    case rgba
    then have n: "out_cs = JCS_RGB" "n = 3" using assms(4) by (auto simp: native_space_def)
    have "decompress_rows lib JCS_RGB 3 h z (Some (store_converted AddAlpha w (int (w * 4)), int (w * 4))) (Some (map junk [0..<w * 3])) =
        Some (decoded_image jcs_ext lib format w h z1)"
      using assms(5,6) size assms(7) rgba unfolding n
      by (intro decompress_converted [where conv = "\<lambda>p. rgba_of_rgb p 0 w"])
        (simp_all add: AddAlpha_eq output_row_def formats len_simps bytes_per_pixel_def)
    then show ?thesis
      using rgba assms(2,3) stride stride4 by (auto simp: JPEGCodec_Decode_def formats nat_mult_distrib)
  next
    case bgra
    then have n: "out_cs = JCS_RGB" "n = 3" using assms(4) by (auto simp: native_space_def)
    have "decompress_rows lib JCS_RGB 3 h z (Some (store_converted RGBtoBGRA w (int (w * 4)), int (w * 4))) (Some (map junk [0..<w * 3])) =
        Some (decoded_image jcs_ext lib format w h z1)"
      using assms(5,6) size assms(7) bgra unfolding n
      by (intro decompress_converted [where conv = "\<lambda>p. bgra_of_rgb p 0 w"])
        (simp_all add: RGBtoBGRA_eq output_row_def formats len_simps bytes_per_pixel_def)
    then show ?thesis
      using bgra assms(2,3) stride stride4 by (auto simp: JPEGCodec_Decode_def formats nat_mult_distrib)
  qed
qed

text \<open>The bound in the theorem below is one of the code, within the largest dimensions of libjpeg: for
  65500 x 65500 pixels with four bytes each the size of the output wraps, and the vector holds a fraction
  of the image; and with three bytes the index of a row overflows \<open>int\<close> long before the last row.\<close>

lemma Decode_arithmetic_wraps:
  "output_size (row_stride 65500 4) 65500 < 65500 * 4 * 65500 - 2 ^ 33 \<and> row_index 10929 (row_stride 65500 3) = None"
  by (simp add: output_size_def row_stride_def row_index_def)

text \<open>C16. In both builds, with and without \<open>JCS_EXTENSIONS\<close>, \<open>Decode\<close> of a file whose colour space
  it accepts and whose image has positive dimensions and fewer than 2^31 bytes in the format asked for
  returns the dimensions from the header and the rows (of the announced length) that libjpeg delivers, converted to the format (with the extensions
  libjpeg delivers them in it), or false when a row or the end is missing; every access stays inside
  the output vector and the row buffer. For larger images the sizes and offsets overflow.\<close>

theorem Decode_returns_rows:
  assumes "format \<in> {FORMAT_RGB, FORMAT_RGBA, FORMAT_BGRA}"
    and "d_header lib input = Some (cs, w, h, z)" "cs \<in> {JCS_GRAYSCALE, JCS_RGB, JCS_YCbCr}"
    and "native_space jcs_ext format = (out_cs, n)" "d_start lib out_cs n z = Some z1" "delivers lib (w * n) h z1"
    and "0 < w" "0 < h" "w * bytes_per_pixel format * h < 2 ^ 31"
  shows "JPEGCodec_Decode jcs_ext lib junk input format =
    Some (map_option (\<lambda>output. (output, w, h)) (decoded_image jcs_ext lib format w h z1))"
  using assms by (rule Decode_rows)

text \<open>A decompressor for one-pixel-wide images: the rows of three bytes after a header byte.\<close>

definition thin_jpeg :: "byte list decompressor" where
  "thin_jpeg = \<lparr>d_header = (\<lambda>i. Some (JCS_YCbCr, 1, length (tl i) div 3, tl i)),
     d_start = (\<lambda>_ _ z. Some z),
     d_scanline = (\<lambda>z. if 3 \<le> length z then Some (take 3 z, drop 3 z) else None),
     d_finish = (\<lambda>_. True)\<rparr>"

theorem Decode_returns_rows_witness:
  "JPEGCodec_Decode False thin_jpeg (\<lambda>_. 0) [50, 3, 2, 1, 9, 8, 7] FORMAT_BGRA =
    Some (Some ([1, 2, 3, 255, 7, 8, 9, 255], 1, 2))"
proof -
  have d: "delivers thin_jpeg (1 * 3) 2 [3, 2, 1, 9, 8, 7]"
    by (simp add: thin_jpeg_def numeral_2_eq_2)
  have i: "decoded_image False thin_jpeg FORMAT_BGRA 1 2 [3, 2, 1, 9, 8, 7] = Some [1, 2, 3, 255, 7, 8, 9, 255]"
  proof -
    have "scan_rows thin_jpeg 2 [3, 2, 1, 9, 8, 7] = Some ([[3, 2, 1], [9, 8, 7]], [])"
      by (simp add: numeral_2_eq_2 thin_jpeg_def)
    then show ?thesis
      by (simp add: decoded_image_def output_row_def formats bgra_of_rgb_def) (simp add: thin_jpeg_def)
  qed
  have h: "d_header thin_jpeg [50, 3, 2, 1, 9, 8, 7] = Some (JCS_YCbCr, 1, 2, [3, 2, 1, 9, 8, 7])"
    "d_start thin_jpeg JCS_RGB 3 [3, 2, 1, 9, 8, 7] = Some [3, 2, 1, 9, 8, 7]"
    by (simp_all add: thin_jpeg_def)
  have n: "native_space False FORMAT_BGRA = (JCS_RGB, 3)" by (simp add: native_space_def)
  have size: "1 * bytes_per_pixel FORMAT_BGRA * 2 < 2 ^ 31" by (simp add: bytes_per_pixel_def formats)
  show ?thesis
    using Decode_returns_rows [OF _ h(1) _ n h(2) d _ _ size, of "\<lambda>_. 0"] by (simp only: i) simp
qed

section \<open>The library as its users see it\<close>

text \<open>The build of the JPEG wrapper, the two halves of libjpeg, and the flag \<open>quality\<close>.\<close>

record ('z, 'y) jpeg_lib =
  has_jcs_ext :: bool
  jpeg_c :: "'z compressor"
  jpeg_d :: "'y decompressor"
  FLAGS_quality :: int

end
