(* ===== verification/Ecc_Experiment.thy ===== *)
theory Ecc_Experiment imports Aesthete Discretizations Image Ecc_Message Rs_Codec Jpeg_Codec begin

text \<open>
  \<open>experimental/lib/src/ecc_experiment.h\<close>, \<open>ecc_experiment.cc\<close> and \<open>ecc_thread.cc\<close>: one trip of a
  random message through a JPEG. Two Reed-Solomon code words are written as 85 blocks of 6 bytes,
  the blocks are painted, the image is compressed and decompressed, each cell is averaged and
  classified to the nearest level, and the bytes read back are decoded.

  libjpeg is a parameter (\<open>Jpeg_Codec\<close>). The main theorem says that a channel that moves no
  cell mean by 16 grey levels or more returns every message.
\<close>

section \<open>The members\<close>

text \<open>
  The four grids of matrices are lists of matrices in the order of \<open>array\<close>'s buffer. \<open>codec\<close> is
  the address in \<open>rs_codec_\<close>; \<open>f_stream\<close> is the list of the numbers written.
\<close>

record ecc_experiment =
  ecc_msg :: ecc_message
  codec :: nat
  matrix_rep :: "bool list"
  matrix_entries :: "int list"
  decoded_blocks :: "byte list list list"
  decoded_aes :: "rat list list list"
  blocks :: "byte list list list"
  aes_blocks :: "rat list list list"
  e_image :: image
  output_jpeg :: "byte list"
  full_message :: "byte list"
  decoded_ints :: "int list"
  decoded_buf :: "byte list"
  im_width :: nat
  im_height :: nat
  f_stream :: "int list"

definition block_index :: "nat \<Rightarrow> nat \<Rightarrow> nat" where
  "block_index wide high = high * kBlocksWide + wide"

text \<open>\<open>m8\<close>, \<open>m4\<close> and \<open>heap\<close> are the contents of the fresh matrices and of the fresh image buffer.\<close>

definition EccExperiment ::
  "rng \<Rightarrow> nat \<Rightarrow> byte list list \<Rightarrow> rat list list \<Rightarrow> byte list \<Rightarrow> ecc_experiment option" where
  "EccExperiment rng q m8 m4 heap = do {
     im \<leftarrow> array_new heap (int (kBlocksWide * kPixelDimPerBlock * kCharsPerPixel)) (int (kBlocksHigh * kPixelDimPerBlock));
     check (dims 8 8 m8 \<and> dims 4 4 m4);
     let n = kBlocksWide * kBlocksHigh;
     Some \<lparr>ecc_msg = Reset \<lparr>prng = rng, msg_bytes = [], first_message = [], first_parity = [],
         second_message = [], second_parity = []\<rparr>,
       codec = q, matrix_rep = reset48, matrix_entries = [],
       decoded_blocks = replicate n m8, decoded_aes = replicate n m4,
       blocks = replicate n m8, aes_blocks = replicate n m4, e_image = im,
       output_jpeg = [], full_message = [], decoded_ints = [], decoded_buf = [],
       im_width = 0, im_height = 0, f_stream = []\<rparr> }"

section \<open>\<open>Run\<close>\<close>

text \<open>The loops over all blocks.\<close>

definition on_blocks :: "(nat \<Rightarrow> nat \<Rightarrow> 's \<Rightarrow> 's option) \<Rightarrow> 's \<Rightarrow> 's option" where
  "on_blocks f s = for_in [0..<kBlocksHigh] (\<lambda>high. for_in [0..<kBlocksWide] (\<lambda>wide. f high wide)) s"

text \<open>The message and its bytes.\<close>

definition prepare_message :: "rs_state \<Rightarrow> ecc_experiment \<Rightarrow> (byte list \<times> ecc_experiment) option" where
  "prepare_message st e = do {
     let m = Reset (ecc_msg e);
     m \<leftarrow> InitWithRandomData m;
     (_, p1) \<leftarrow> RsCodec_Encode st (codec e) (first_message m) (first_parity m);
     let m = m\<lparr>first_parity := p1\<rparr>;
     (_, p2) \<leftarrow> RsCodec_Encode st (codec e) (second_message m) (second_parity m);
     let m = m\<lparr>second_parity := p2\<rparr>;
     (input_bytes, m) \<leftarrow> flatten m;
     Some (input_bytes, e\<lparr>ecc_msg := m\<rparr>) }"

definition fill_image :: "byte list \<Rightarrow> ecc_experiment \<Rightarrow> ecc_experiment option" where
  "fill_image input_bytes e = on_blocks (\<lambda>image_h image_w e. do {
     rep \<leftarrow> InitFromString (drop (image_h * (kBlocksWide * kMatrixStrBytes) + kMatrixStrBytes * image_w) input_bytes);
     entries \<leftarrow> ToInts rep;
     im \<leftarrow> FillBlockFromInts entries discretizations (int image_h) (int image_w) (e_image e);
     Some (e\<lparr>matrix_rep := rep, matrix_entries := entries, e_image := im\<rparr>) }) e"

definition average_original :: "ecc_experiment \<Rightarrow> ecc_experiment option" where
  "average_original e = on_blocks (\<lambda>high wide e. do {
     let k = block_index wide high;
     b \<leftarrow> rd (blocks e) k;
     b \<leftarrow> FillMatrixFromBlock (int high) (int wide) (e_image e) (Some b);
     bs \<leftarrow> wr (blocks e) k b;
     a \<leftarrow> rd (aes_blocks e) k;
     a \<leftarrow> AverageAestheteBlocks b (Some a);
     as \<leftarrow> wr (aes_blocks e) k a;
     Some (e\<lparr>blocks := bs, aes_blocks := as\<rparr>) }) e"

text \<open>The trip through the JPEG; each result false fails its \<open>assert\<close>.\<close>

definition through_jpeg :: "('z, 'y) jpeg_lib \<Rightarrow> (nat \<Rightarrow> byte) \<Rightarrow> ecc_experiment \<Rightarrow> ecc_experiment option" where
  "through_jpeg lib junk e = do {
     r \<leftarrow> JPEGCodec_Encode (has_jcs_ext lib) (jpeg_c lib) junk (im_data (e_image e)) FORMAT_RGB
       (kBlocksWide * kPixelDimPerBlock) (kBlocksHigh * kPixelDimPerBlock)
       (kBlocksWide * kPixelDimPerBlock * kCharsPerPixel) (FLAGS_quality lib);
     jpeg \<leftarrow> r;
     check (jpeg \<noteq> []);
     r \<leftarrow> JPEGCodec_Decode (has_jcs_ext lib) (jpeg_d lib) junk jpeg FORMAT_RGB;
     (buf, w, h) \<leftarrow> r;
     Some (e\<lparr>output_jpeg := jpeg, decoded_buf := buf, im_width := w, im_height := h\<rparr>) }"

definition average_decoded :: "ecc_experiment \<Rightarrow> ecc_experiment option" where
  "average_decoded e = on_blocks (\<lambda>high wide e. do {
     let k = block_index wide high;
     b \<leftarrow> rd (decoded_blocks e) k;
     b \<leftarrow> fill 8 8 (\<lambda>i j. rd (decoded_buf e)
       ((high * kPixelDimPerBlock + i) * (kBlocksWide * kPixelDimPerBlock * 3) +
        (wide * 3 * kPixelDimPerBlock + 3 * j))) b;
     bs \<leftarrow> wr (decoded_blocks e) k b;
     a \<leftarrow> rd (decoded_aes e) k;
     a \<leftarrow> AverageAestheteBlocks b (Some a);
     as \<leftarrow> wr (decoded_aes e) k a;
     Some (e\<lparr>decoded_blocks := bs, decoded_aes := as\<rparr>) }) e"

text \<open>\<open>past\<close> is the number behind the end of the set (\<open>Discretizations\<close>).\<close>

definition read_message :: "rat \<Rightarrow> ecc_experiment \<Rightarrow> ecc_experiment option" where
  "read_message past e = on_blocks (\<lambda>block_h block_w e. do {
     mat \<leftarrow> rd (decoded_aes e) (block_index block_w block_h);
     ints \<leftarrow> for_in [0..<4] (\<lambda>i. for_in [0..<4] (\<lambda>j ints. do {
       val \<leftarrow> mget mat i j;
       Some (ints @ [int (FindClosest past set_discretizations val)]) })) [];
     rep \<leftarrow> InitFromInts ints;
     final \<leftarrow> ToString rep;
     check (length final = 6);
     Some (e\<lparr>decoded_ints := ints, matrix_rep := rep, full_message := full_message e @ final\<rparr>) })
     (e\<lparr>full_message := []\<rparr>)"

definition decode_halves :: "(nat \<Rightarrow> nat \<Rightarrow> u16) \<Rightarrow> rs_state \<Rightarrow> ecc_experiment \<Rightarrow> ecc_experiment option" where
  "decode_halves junk st e = for_in [0..<2] (\<lambda>i e. do {
     data \<leftarrow> for_in [0..<223] (\<lambda>k data. do {
       c \<leftarrow> rd (full_message e) (i * 255 + k); wr data k c }) (replicate 223 0);
     parity \<leftarrow> for_in [0..<32] (\<lambda>ii parity. do {
       c \<leftarrow> rd (full_message e) (i * 255 + 223 + ii); wr parity ii (ucast c) }) (replicate 32 0);
     (nerrors, _) \<leftarrow> RsCodec_Decode junk st (codec e) data parity;
     Some (e\<lparr>f_stream := f_stream e @ [nerrors]\<rparr>) }) e"

definition Run ::
  "('z, 'y) jpeg_lib \<Rightarrow> rat \<Rightarrow> (nat \<Rightarrow> byte) \<Rightarrow> (nat \<Rightarrow> nat \<Rightarrow> u16) \<Rightarrow> rs_state \<Rightarrow> ecc_experiment \<Rightarrow>
   ecc_experiment option" where
  "Run lib past junk8 junk16 st e = do {
     (input_bytes, e) \<leftarrow> prepare_message st e;
     e \<leftarrow> fill_image input_bytes e;
     e \<leftarrow> average_original e;
     e \<leftarrow> through_jpeg lib junk8 e;
     e \<leftarrow> average_decoded e;
     e \<leftarrow> read_message past e;
     decode_halves junk16 st e }"

text \<open>\<open>EccThread::Run\<close>: the experiment, \<open>iterations\<close> times.\<close>

definition EccThread_Run ::
  "('z, 'y) jpeg_lib \<Rightarrow> rat \<Rightarrow> (nat \<Rightarrow> byte) \<Rightarrow> (nat \<Rightarrow> nat \<Rightarrow> u16) \<Rightarrow> rs_state \<Rightarrow> nat \<Rightarrow> ecc_experiment \<Rightarrow>
   ecc_experiment option" where
  "EccThread_Run lib past junk8 junk16 st iterations e =
     for_in [0..<iterations] (\<lambda>_. Run lib past junk8 junk16 st) e"


section \<open>The state that \<open>Run\<close> needs\<close>

definition grid_ok :: "nat \<Rightarrow> 'a list list list \<Rightarrow> bool" where
  "grid_ok n ms \<longleftrightarrow> length ms = 85 \<and> (\<forall>m\<in>set ms. dims n n m)"

definition exp_ok :: "rs_state \<Rightarrow> ecc_experiment \<Rightarrow> bool" where
  "exp_ok st e \<longleftrightarrow> length (prng (ecc_msg e)) = 3 \<and> image_ok 408 40 (e_image e) \<and>
     grid_ok 8 (blocks e) \<and> grid_ok 8 (decoded_blocks e) \<and> grid_ok 4 (aes_blocks e) \<and> grid_ok 4 (decoded_aes e) \<and>
     (\<exists>rs. objs st (codec e) = Some rs \<and> rs255 rs)"

lemmas grid_sizes = kBlocksWide_def kBlocksHigh_def kPixelDimPerBlock_def kCharsPerPixel_def kMatrixStrBytes_def

lemma on_blocks_eq: "on_blocks f s = for_in [0..<85] (\<lambda>k. f (k div 17) (k mod 17)) s"
  unfolding on_blocks_def using for_in_nested [of 17 5 f s] by (simp add: grid_sizes)

lemma block_index_eq [simp]: "block_index (k mod 17) (k div 17) = k"
  by (simp add: block_index_def grid_sizes)

lemma byte_index: "k div 17 * 102 + 6 * (k mod 17) = 6 * (k :: nat)"
  by presburger

lemma block_number:
  fixes a b k :: nat
  assumes "b < 17"
  shows "a = k div 17 \<and> b = k mod 17 \<longleftrightarrow> a * 17 + b = k"
proof
  assume "a * 17 + b = k"
  then show "a = k div 17 \<and> b = k mod 17" using assms by auto
qed simp

lemma block_bounds: "k < 85 \<Longrightarrow> k div 17 < 5 \<and> k mod 17 < (17 :: nat)"
  by auto

lemma grid_nth: "grid_ok n ms \<Longrightarrow> k < 85 \<Longrightarrow> rd ms k = Some (ms ! k) \<and> dims n n (ms ! k)"
  by (simp add: grid_ok_def rd_def)

lemma grid_wr: "grid_ok n ms \<Longrightarrow> k < 85 \<Longrightarrow> dims n n m \<Longrightarrow> wr ms k m = Some (ms[k := m]) \<and> grid_ok n (ms[k := m])"
  using set_update_subset_insert [of ms k m] by (auto simp: grid_ok_def wr_def)

section \<open>The message\<close>

lemma flatten_prng:
  assumes "flatten m = Some (b, m')"
  shows "prng m' = prng m"
  using assms by (auto simp: flatten_def SetParity_def elim!: bindE)

text \<open>The two code words in the bytes of a message: data and parity of half \<open>i\<close>.\<close>

definition half_data :: "byte list \<Rightarrow> nat \<Rightarrow> byte list" where
  "half_data bytes i = take 223 (drop (i * 255) bytes)"

definition half_parity :: "byte list \<Rightarrow> nat \<Rightarrow> byte list" where
  "half_parity bytes i = take 32 (drop (i * 255 + 223) bytes)"

lemma prepare_message_spec:
  assumes ok: "exp_ok st e"
  shows "\<exists>bytes m. prepare_message st e = Some (bytes, e\<lparr>ecc_msg := m\<rparr>) \<and> length (prng m) = 3 \<and> length bytes = 510 \<and>
    (\<forall>i < 2. RsCodec_Encode st (codec e) (half_data bytes i) (replicate 32 0) = Some (0, map ucast (half_parity bytes i)))"
proof -
  obtain rs where rs: "objs st (codec e) = Some rs" "rs255 rs" using ok by (auto simp: exp_ok_def)
  have "message_ok (Reset (ecc_msg e))" using ok by (intro message_ok_Reset) (simp add: exp_ok_def)
  then obtain m where m: "InitWithRandomData (Reset (ecc_msg e)) = Some m" "message_ok m"
    using message_ok_InitWithRandomData by blast
  have par0: "first_parity m = replicate 32 0" "second_parity m = replicate 32 0"
    using InitWithRandomData_parity [OF m(1)] by (simp_all add: Reset_def rs_sizes)
  have len: "length (first_message m) = 223" "length (second_message m) = 223"
    using m(2) by (auto simp: message_ok_def rs_sizes)
  obtain p1 where p1: "RsCodec_Encode st (codec e) (first_message m) (replicate 32 0) = Some (0, p1)" "length p1 = 32"
    "list_all (\<lambda>s. s \<le> 255) p1"
    using RsCodec_encode_decode [OF rs len(1)] by blast
  obtain p2 where p2: "RsCodec_Encode st (codec e) (second_message m) (replicate 32 0) = Some (0, p2)" "length p2 = 32"
    "list_all (\<lambda>s. s \<le> 255) p2"
    using RsCodec_encode_decode [OF rs len(2)] by blast
  define M where "M = m\<lparr>first_parity := p1, second_parity := p2\<rparr>"
  have M: "message_ok M" "parity_fits (first_parity M)" "parity_fits (second_parity M)"
    using m(2) p1(2,3) p2(2,3) by (simp_all add: M_def message_ok_def rs_sizes parity_fits_def)
  obtain b m' where fl: "flatten M = Some (b, m')"
    and b: "b = first_message m @ map ucast p1 @ second_message m @ map ucast p2"
    using flatten_eq [OF M] by (auto simp: M_def)
  have narrow: "map ucast (map ucast p :: byte list) = p" if "list_all (\<lambda>s. s \<le> 255) p" for p :: "u16 list"
  proof -
    have "ucast (ucast s :: byte) = s" if "s \<le> 255" for s :: u16
    proof -
      have "uint s < 2 ^ 8" using that by (simp add: word_le_def)
      then show ?thesis by (simp add: unsigned_ucast_eq unsigned_take_bit_eq take_bit_int_eq_self flip: uint_inject)
    qed
    with that show ?thesis by (simp add: list_all_iff map_idI)
  qed
  have "length (prng m') = 3"
    using flatten_prng [OF fl] m(2) by (simp add: M_def message_ok_def)
  moreover have "prepare_message st e = Some (b, e\<lparr>ecc_msg := m'\<rparr>)"
    using m(1) p1(1) p2(1) fl par0 by (simp add: prepare_message_def M_def)
  moreover have "RsCodec_Encode st (codec e) (half_data b i) (replicate 32 0) = Some (0, map ucast (half_parity b i))" if "i < 2" for i
  proof -
    have "i = 0 \<or> i = 1" using that by linarith
    then show ?thesis
      using len p1(1,2) p2(1,2) narrow [OF p1(3)] narrow [OF p2(3)] by (auto simp: b half_data_def half_parity_def)
  qed
  ultimately show ?thesis
    using len p1(2) p2(2) by (intro exI [of _ b] exI [of _ m']) (simp add: b)
qed

section \<open>Painting the message\<close>

text \<open>The indices of block \<open>k\<close> of the message, and the level of the cell in row \<open>r\<close> and column \<open>c\<close>
  of all cells of the image.\<close>

definition block_ints :: "byte list \<Rightarrow> nat \<Rightarrow> int list" where
  "block_ints bytes k = map (tri (bits_of (take 6 (drop (6 * k) bytes)))) [0..<16]"

lemma block_ints_ok: "indices_ok (block_ints bytes k)"
  using tri_range by (auto simp: indices_ok_def block_ints_def)

lemma block_bits:
  assumes "length bytes = 510" and "k < 85"
  shows "InitFromString (drop (6 * k) bytes) = Some (bits_of (take 6 (drop (6 * k) bytes)))"
    "length (bits_of (take 6 (drop (6 * k) bytes))) = 48"
    "ToInts (bits_of (take 6 (drop (6 * k) bytes))) = Some (block_ints bytes k)"
proof -
  show "InitFromString (drop (6 * k) bytes) = Some (bits_of (take 6 (drop (6 * k) bytes)))"
    using assms by (intro InitFromString_eq) simp
  show len: "length (bits_of (take 6 (drop (6 * k) bytes))) = 48"
    using assms by (simp add: len_simps)
  show "ToInts (bits_of (take 6 (drop (6 * k) bytes))) = Some (block_ints bytes k)"
    using ToInts_eq [OF len] by (simp add: block_ints_def)
qed

lemma length_discretizations [len_simps]: "length discretizations = 8"
  by (simp add: discretizations_def)

definition painted :: "byte list \<Rightarrow> nat \<Rightarrow> image \<Rightarrow> bool" where
  "painted bytes n im \<longleftrightarrow> image_ok 408 40 im \<and>
     (\<forall>r < 40. \<forall>x < 408. r div 8 * 17 + x div 24 < n \<longrightarrow>
        px im r x = block_px (block_ints bytes (r div 8 * 17 + x div 24)) discretizations (r mod 8) (x mod 24))"

lemma paint_step:
  assumes P: "painted bytes k im" and k: "k < 85"
  shows "\<exists>im'. FillBlockFromInts (block_ints bytes k) discretizations (int (k div 17)) (int (k mod 17)) im = Some im' \<and>
    painted bytes (Suc k) im'"
proof -
  have b: "8 * (k div 17) + 8 \<le> 40" "24 * (k mod 17) + 24 \<le> 408" using block_bounds [OF k] by linarith+
  have ok: "image_ok 408 40 im" using P by (simp add: painted_def)
  obtain im' where im': "FillBlockFromInts (block_ints bytes k) discretizations (int (k div 17)) (int (k mod 17)) im = Some im'"
    "image_ok 408 40 im'"
    "\<forall>r < 40. \<forall>x < 408. px im' r x = (if r div 8 = k div 17 \<and> x div 24 = k mod 17
       then block_px (block_ints bytes k) discretizations (r mod 8) (x mod 24) else px im r x)"
    using FillBlockFromInts_spec [OF ok block_ints_ok [of bytes k] length_discretizations b] by blast
  have iff: "r div 8 = k div 17 \<and> x div 24 = k mod 17 \<longleftrightarrow> r div 8 * 17 + x div 24 = k" if "x < 408" for r x :: nat
  proof -
    have "x div 24 < 17" using that by (simp add: less_mult_imp_div_less)
    then show ?thesis by (rule block_number)
  qed
  have "painted bytes (Suc k) im'"
    unfolding painted_def
  proof (intro conjI allI impI)
    show "image_ok 408 40 im'" by (rule im'(2))
    fix r x :: nat
    assume "r < 40" "x < 408" "r div 8 * 17 + x div 24 < Suc k"
    then show "px im' r x = block_px (block_ints bytes (r div 8 * 17 + x div 24)) discretizations (r mod 8) (x mod 24)"
      using im'(3) iff [of x r] P by (cases "r div 8 * 17 + x div 24 = k") (auto simp: painted_def less_Suc_eq)
  qed
  with im'(1) show ?thesis by blast
qed

text \<open>What \<open>fill_image\<close> changes.\<close>

definition same_setup :: "ecc_experiment \<Rightarrow> ecc_experiment \<Rightarrow> bool" where
  "same_setup e e' \<longleftrightarrow> codec e' = codec e \<and> ecc_msg e' = ecc_msg e \<and> f_stream e' = f_stream e \<and>
     blocks e' = blocks e \<and> aes_blocks e' = aes_blocks e \<and> decoded_blocks e' = decoded_blocks e \<and>
     decoded_aes e' = decoded_aes e"

lemma fill_image_spec:
  assumes "image_ok 408 40 (e_image e)" and len: "length bytes = 510"
  shows "\<exists>e'. fill_image bytes e = Some e' \<and> same_setup e e' \<and> painted bytes 85 (e_image e')"
  unfolding fill_image_def on_blocks_eq
proof (rule for_in_upt [where P = "\<lambda>k e'. same_setup e e' \<and> painted bytes k (e_image e')"])
  show "same_setup e e \<and> painted bytes 0 (e_image e)" using assms by (simp add: same_setup_def painted_def)
  fix k e1
  assume k: "k < 85" and P: "same_setup e e1 \<and> painted bytes k (e_image e1)"
  obtain im where im: "FillBlockFromInts (block_ints bytes k) discretizations (int (k div 17)) (int (k mod 17)) (e_image e1) = Some im"
    "painted bytes (Suc k) im"
    using paint_step [of bytes k "e_image e1"] P k by blast
  have off: "k div 17 * (kBlocksWide * kMatrixStrBytes) + kMatrixStrBytes * (k mod 17) = 6 * k"
    using byte_index [of k] by (simp add: grid_sizes)
  show "\<exists>e2. do { rep \<leftarrow> InitFromString (drop (k div 17 * (kBlocksWide * kMatrixStrBytes) + kMatrixStrBytes * (k mod 17)) bytes);
      entries \<leftarrow> ToInts rep;
      im \<leftarrow> FillBlockFromInts entries discretizations (int (k div 17)) (int (k mod 17)) (e_image e1);
      Some (e1\<lparr>matrix_rep := rep, matrix_entries := entries, e_image := im\<rparr>) } = Some e2 \<and>
    same_setup e e2 \<and> painted bytes (Suc k) (e_image e2)"
    unfolding off using im P by (simp add: block_bits [OF len k] same_setup_def)
qed simp


section \<open>The averages\<close>

lemma average_original_spec:
  assumes "painted bytes 85 (e_image e)" and "grid_ok 8 (blocks e)" "grid_ok 4 (aes_blocks e)"
  shows "\<exists>bs as. average_original e = Some (e\<lparr>blocks := bs, aes_blocks := as\<rparr>) \<and> grid_ok 8 bs \<and> grid_ok 4 as"
proof -
  let ?P = "\<lambda>k e'. \<exists>bs as. e' = e\<lparr>blocks := bs, aes_blocks := as\<rparr> \<and> grid_ok 8 bs \<and> grid_ok 4 as"
  have "\<exists>e'. average_original e = Some e' \<and> ?P (85 :: nat) e'"
    unfolding average_original_def on_blocks_eq
  proof (rule for_in_upt [where P = ?P])
    fix k :: nat and e1 assume k: "k < 85" and "?P k e1"
    then obtain bs as where e1: "e1 = e\<lparr>blocks := bs, aes_blocks := as\<rparr>" "grid_ok 8 bs" "grid_ok 4 as" by blast
    have im: "image_ok 408 40 (e_image e1)" using assms(1) e1(1) by (simp add: painted_def)
    note b = grid_nth [OF e1(2) k] and a = grid_nth [OF e1(3) k]
    obtain m where m: "FillMatrixFromBlock (int (k div 17)) (int (k mod 17)) (e_image e1) (Some (bs ! k)) = Some m" "dims 8 8 m"
      using FillMatrixFromBlock_eq [OF im conjunct2 [OF b]] block_bounds [OF k] by simp
    obtain c where c: "AverageAestheteBlocks m (Some (as ! k)) = Some c" "dims 4 4 c"
      using AverageAestheteBlocks_eq [OF m(2) conjunct2 [OF a]] by simp
    from grid_wr [OF e1(2) k m(2)] grid_wr [OF e1(3) k c(2)] m(1) c(1) a b e1
    show "\<exists>e2. (let n = block_index (k mod 17) (k div 17) in do {
        b \<leftarrow> rd (blocks e1) n; b \<leftarrow> FillMatrixFromBlock (int (k div 17)) (int (k mod 17)) (e_image e1) (Some b);
        bs \<leftarrow> wr (blocks e1) n b; a \<leftarrow> rd (aes_blocks e1) n; a \<leftarrow> AverageAestheteBlocks b (Some a);
        as \<leftarrow> wr (aes_blocks e1) n a; Some (e1\<lparr>blocks := bs, aes_blocks := as\<rparr>) }) = Some e2 \<and> ?P (Suc k) e2"
      by auto
  qed (use assms in \<open>auto intro!: exI [of _ "blocks e"] exI [of _ "aes_blocks e"]\<close>)
  then show ?thesis by blast
qed

text \<open>The matrix of block \<open>k\<close> of a buffer of pixels, and the mean of the red values of a cell.\<close>

definition buf_matrix :: "byte list \<Rightarrow> nat \<Rightarrow> byte list list" where
  "buf_matrix buf k = map (\<lambda>i. map (\<lambda>j. buf ! ((k div 17 * 8 + i) * 408 + (k mod 17 * 24 + 3 * j))) [0..<8]) [0..<8]"

definition cell_avg :: "byte list \<Rightarrow> nat \<Rightarrow> nat \<Rightarrow> rat" where
  "cell_avg buf r c = of_int (uint (buf ! (2 * r * 408 + 6 * c)) + uint (buf ! ((2 * r + 1) * 408 + 6 * c)) +
     uint (buf ! (2 * r * 408 + (6 * c + 3))) + uint (buf ! ((2 * r + 1) * 408 + (6 * c + 3)))) / 4"

lemma cell_mean_buf:
  assumes "p < 4" "q < 4"
  shows "cell_mean (buf_matrix buf k) p q = cell_avg buf (k div 17 * 4 + p) (k mod 17 * 4 + q)"
proof -
  have "2 * p + 1 < 8" "2 * q + 1 < 8" using assms by simp_all
  then show ?thesis
    by (simp add: cell_mean_def cell_avg_def buf_matrix_def algebra_simps)
qed

lemma average_decoded_spec:
  assumes buf: "16320 \<le> length (decoded_buf e)" and "grid_ok 8 (decoded_blocks e)" "grid_ok 4 (decoded_aes e)"
  shows "\<exists>bs as. average_decoded e = Some (e\<lparr>decoded_blocks := bs, decoded_aes := as\<rparr>) \<and> grid_ok 8 bs \<and> grid_ok 4 as \<and>
    (\<forall>k < 85. as ! k = map (\<lambda>p. map (cell_mean (buf_matrix (decoded_buf e) k) p) [0..<4]) [0..<4])"
proof -
  let ?avg = "\<lambda>k. map (\<lambda>p. map (cell_mean (buf_matrix (decoded_buf e) k) p) [0..<4]) [0..<4]"
  let ?P = "\<lambda>n e'. \<exists>bs as. e' = e\<lparr>decoded_blocks := bs, decoded_aes := as\<rparr> \<and> grid_ok 8 bs \<and> grid_ok 4 as \<and>
    (\<forall>k < n. k < 85 \<longrightarrow> as ! k = ?avg k)"
  have "\<exists>e'. average_decoded e = Some e' \<and> ?P (85 :: nat) e'"
    unfolding average_decoded_def on_blocks_eq
  proof (rule for_in_upt [where P = ?P])
    fix k e1 assume k: "k < 85" and "?P k e1"
    then obtain bs as where e1: "e1 = e\<lparr>decoded_blocks := bs, decoded_aes := as\<rparr>" "grid_ok 8 bs" "grid_ok 4 as"
      "\<And>n. n < k \<Longrightarrow> as ! n = ?avg n" by auto
    note b = grid_nth [OF e1(2) k] and a = grid_nth [OF e1(3) k]
    have "fill 8 8 (\<lambda>i j. rd (decoded_buf e1) ((k div 17 * kPixelDimPerBlock + i) * (kBlocksWide * kPixelDimPerBlock * 3) +
        (k mod 17 * 3 * kPixelDimPerBlock + 3 * j))) (bs ! k) = Some (buf_matrix (decoded_buf e) k)"
      unfolding buf_matrix_def
    proof (rule fill_eq [OF conjunct2 [OF b]])
      fix i j :: nat assume "i < 8" "j < 8"
      have "(k div 17 * 8 + i) * 408 + (k mod 17 * 24 + 3 * j) < 16320"
      proof -
        have "k div 17 * 8 + i \<le> 39" using block_bounds [OF k] \<open>i < 8\<close> by linarith
        then have "(k div 17 * 8 + i) * 408 \<le> 39 * 408" by (rule mult_le_mono1)
        moreover have "k mod 17 * 24 + 3 * j < 408" using block_bounds [OF k] \<open>j < 8\<close> by linarith
        ultimately show ?thesis by linarith
      qed
      with buf e1(1) show "rd (decoded_buf e1) ((k div 17 * kPixelDimPerBlock + i) * (kBlocksWide * kPixelDimPerBlock * 3) +
          (k mod 17 * 3 * kPixelDimPerBlock + 3 * j)) =
          Some (decoded_buf e ! ((k div 17 * 8 + i) * 408 + (k mod 17 * 24 + 3 * j)))"
        by (simp add: rd_def grid_sizes mult.commute mult.left_commute)
    qed
    moreover have m: "dims 8 8 (buf_matrix (decoded_buf e) k)" by (simp add: buf_matrix_def)
    moreover have "AverageAestheteBlocks (buf_matrix (decoded_buf e) k) (Some (as ! k)) = Some (?avg k)"
      by (rule AverageAestheteBlocks_eq [OF m conjunct2 [OF a]])
    moreover have c: "dims 4 4 (?avg k)" by simp
    ultimately show "\<exists>e2. (let n = block_index (k mod 17) (k div 17) in do {
        b \<leftarrow> rd (decoded_blocks e1) n; b \<leftarrow> fill 8 8 (\<lambda>i j. rd (decoded_buf e1)
          ((k div 17 * kPixelDimPerBlock + i) * (kBlocksWide * kPixelDimPerBlock * 3) +
           (k mod 17 * 3 * kPixelDimPerBlock + 3 * j))) b;
        bs \<leftarrow> wr (decoded_blocks e1) n b; a \<leftarrow> rd (decoded_aes e1) n; a \<leftarrow> AverageAestheteBlocks b (Some a);
        as \<leftarrow> wr (decoded_aes e1) n a; Some (e1\<lparr>decoded_blocks := bs, decoded_aes := as\<rparr>) }) = Some e2 \<and> ?P (Suc k) e2"
      using grid_wr [OF e1(2) k m] grid_wr [OF e1(3) k c] a b e1 k
      by (auto simp: less_Suc_eq nth_list_update grid_ok_def intro!: exI)
  qed (use assms in \<open>auto intro!: exI [of _ "decoded_blocks e"] exI [of _ "decoded_aes e"]\<close>)
  then show ?thesis by blast
qed


section \<open>Reading the message back\<close>

lemma append_grid:
  assumes "dims 4 4 m"
  shows "for_in [0..<4] (\<lambda>i. for_in [0..<4] (\<lambda>j xs. do { v \<leftarrow> mget m i j; Some (xs @ [h v]) })) [] =
    Some (map (\<lambda>k. h (m ! (k div 4) ! (k mod 4))) [0..<16])"
proof -
  have "for_in [0..<4] (\<lambda>i. for_in [0..<4] (\<lambda>j xs. do { v \<leftarrow> mget m i j; Some (xs @ [h v]) })) [] =
      for_in [0..<16] (\<lambda>k xs. do { v \<leftarrow> mget m (k div 4) (k mod 4); Some (xs @ [h v]) }) []"
    using for_in_nested [of 4 4 "\<lambda>i j xs. do { v \<leftarrow> mget m i j; Some (xs @ [h v]) }" "[]"] by simp
  also have "\<dots> = Some ([] @ map (\<lambda>k. h (m ! (k div 4) ! (k mod 4))) [0..<16])"
    by (rule append_loop) (use assms in \<open>simp add: mget_in\<close>)
  finally show ?thesis by simp
qed

text \<open>The tolerance: no cell mean of block \<open>k\<close> is 16 or more away from the level of its index.\<close>

definition near_levels :: "byte list \<Rightarrow> nat \<Rightarrow> rat list list \<Rightarrow> bool" where
  "near_levels bytes k m \<longleftrightarrow>
     (\<forall>n < 16. \<bar>m ! (n div 4) ! (n mod 4) - of_int (discretizations ! nat (block_ints bytes k ! n))\<bar> < 16)"

lemma classify_block:
  assumes "near_levels bytes k m" and "\<And>n. n < 16 \<Longrightarrow> m ! (n div 4) ! (n mod 4) \<noteq> past"
  shows "map (\<lambda>n. int (FindClosest past set_discretizations (m ! (n div 4) ! (n mod 4)))) [0..<16] = block_ints bytes k"
proof -
  have len: "length (block_ints bytes k) = 16" by (simp add: block_ints_def)
  have r: "0 \<le> block_ints bytes k ! n \<and> nat (block_ints bytes k ! n) < 8" if "n < 16" for n
    using indices_ok_nth [OF block_ints_ok that] by simp
  have "map (\<lambda>n. FindClosest past set_discretizations (m ! (n div 4) ! (n mod 4))) [0..<16] =
      map (\<lambda>n. nat (block_ints bytes k ! n)) [0..<16]"
    by (rule q8.classify_map) (use assms r in \<open>auto simp: near_levels_def\<close>)
  then have "map (\<lambda>n. int (FindClosest past set_discretizations (m ! (n div 4) ! (n mod 4)))) [0..<16] =
      map (\<lambda>n. int (nat (block_ints bytes k ! n))) [0..<16]"
    by (simp del: upt_Suc)
  also have "\<dots> = map (\<lambda>n. block_ints bytes k ! n) [0..<16]"
    using r by (intro map_cong) auto
  also have "\<dots> = block_ints bytes k" using len by (simp add: map_nth_fun [where f = "\<lambda>x. x", simplified])
  finally show ?thesis .
qed

lemma block_back:
  assumes "length bytes = 510" and "k < 85"
  shows "do { rep \<leftarrow> InitFromInts (block_ints bytes k); ToString rep } = Some (take 6 (drop (6 * k) bytes))"
  using InitFromInts_ToInts [OF block_bits(2) [OF assms]] block_bits(3) [OF assms]
    bitset_to_bytes_bits_of [of "take 6 (drop (6 * k) bytes)"]
  by (simp add: ToString_def)

text \<open>The indices that a matrix of means is read as.\<close>

definition classes :: "rat \<Rightarrow> rat list list \<Rightarrow> int list" where
  "classes past m = map (\<lambda>n. int (FindClosest past set_discretizations (m ! (n div 4) ! (n mod 4)))) [0..<16]"

lemma read_message_blocks:
  assumes grid: "grid_ok 4 (decoded_aes e)"
    and g: "\<And>k. k < 85 \<Longrightarrow> do { rep \<leftarrow> InitFromInts (classes past (decoded_aes e ! k)); ToString rep } = Some (g k) \<and> length (g k) = 6"
  shows "\<exists>rep ints. read_message past e =
    Some (e\<lparr>decoded_ints := ints, matrix_rep := rep, full_message := concat (map g [0..<85])\<rparr>)"
proof -
  let ?P = "\<lambda>k e'. \<exists>rep ints. e' = e\<lparr>decoded_ints := ints, matrix_rep := rep, full_message := concat (map g [0..<k])\<rparr>"
  have "\<exists>e'. read_message past e = Some e' \<and> ?P (85 :: nat) e'"
    unfolding read_message_def on_blocks_eq
  proof (rule for_in_upt [where P = ?P])
    show "?P 0 (e\<lparr>full_message := []\<rparr>)" by (intro exI [of _ "matrix_rep e"] exI [of _ "decoded_ints e"]) simp
    fix k :: nat and e1 assume k: "k < 85" and "?P k e1"
    then obtain rep ints where e1: "e1 = e\<lparr>decoded_ints := ints, matrix_rep := rep, full_message := concat (map g [0..<k])\<rparr>"
      by blast
    let ?m = "decoded_aes e ! k"
    have m: "rd (decoded_aes e1) k = Some ?m" "dims 4 4 ?m"
      using grid_nth [OF grid k] e1 by simp_all
    have ints: "for_in [0..<4] (\<lambda>i. for_in [0..<4] (\<lambda>j ints. do { val \<leftarrow> mget ?m i j;
        Some (ints @ [int (FindClosest past set_discretizations val)]) })) [] = Some (classes past ?m)"
      using append_grid [OF m(2), of "\<lambda>val. int (FindClosest past set_discretizations val)"] by (simp add: classes_def)
    obtain rep' where rep': "InitFromInts (classes past ?m) = Some rep'" "ToString rep' = Some (g k)" "length (g k) = 6"
      using g [OF k] by (auto elim: bindE)
    then show "\<exists>e2. do { mat \<leftarrow> rd (decoded_aes e1) (block_index (k mod 17) (k div 17));
        ints \<leftarrow> for_in [0..<4] (\<lambda>i. for_in [0..<4] (\<lambda>j ints. do { val \<leftarrow> mget mat i j;
          Some (ints @ [int (FindClosest past set_discretizations val)]) })) [];
        rep \<leftarrow> InitFromInts ints; final \<leftarrow> ToString rep; check (length final = 6);
        Some (e1\<lparr>decoded_ints := ints, matrix_rep := rep, full_message := full_message e1 @ final\<rparr>) } = Some e2 \<and> ?P (Suc k) e2"
      using m ints e1
      by (intro exI [of _ "e\<lparr>decoded_ints := classes past ?m, matrix_rep := rep', full_message := concat (map g [0..<Suc k])\<rparr>"]) auto
  qed simp
  then show ?thesis by blast
qed

lemma read_message_spec:
  assumes len: "length bytes = 510" and grid: "grid_ok 4 (decoded_aes e)"
    and near: "\<And>k. k < 85 \<Longrightarrow> near_levels bytes k (decoded_aes e ! k)"
    and past: "\<And>k n. k < 85 \<Longrightarrow> n < 16 \<Longrightarrow> decoded_aes e ! k ! (n div 4) ! (n mod 4) \<noteq> past"
  shows "\<exists>rep ints. read_message past e = Some (e\<lparr>decoded_ints := ints, matrix_rep := rep, full_message := bytes\<rparr>)"
proof -
  have "concat (map (\<lambda>k. take 6 (drop (6 * k) bytes)) [0..<85]) = bytes"
    using concat_slices [of 6 bytes 85] len by (simp only: mult.commute [of _ 6]) simp
  moreover have "\<exists>rep ints. read_message past e = Some (e\<lparr>decoded_ints := ints, matrix_rep := rep,
      full_message := concat (map (\<lambda>k. take 6 (drop (6 * k) bytes)) [0..<85])\<rparr>)"
  proof (rule read_message_blocks [OF grid], intro conjI)
    fix k :: nat assume k: "k < 85"
    show "do { rep \<leftarrow> InitFromInts (classes past (decoded_aes e ! k)); ToString rep } = Some (take 6 (drop (6 * k) bytes))"
      using block_back [OF len k] classify_block [OF near [OF k] past [OF k]] by (simp add: classes_def)
    show "length (take 6 (drop (6 * k) bytes)) = 6" using len k by simp
  qed
  ultimately show ?thesis by simp
qed

text \<open>Whatever the means are, 510 bytes are read: each mean is closest to one of the eight levels.\<close>

lemma read_message_total:
  assumes grid: "grid_ok 4 (decoded_aes e)"
    and past: "\<And>k n. k < 85 \<Longrightarrow> n < 16 \<Longrightarrow> decoded_aes e ! k ! (n div 4) ! (n mod 4) \<noteq> past"
  shows "\<exists>rep ints got. read_message past e = Some (e\<lparr>decoded_ints := ints, matrix_rep := rep, full_message := got\<rparr>) \<and>
    length got = 510"
proof -
  have "\<exists>b. do { rep \<leftarrow> InitFromInts (classes past (decoded_aes e ! k)); ToString rep } = Some b \<and> length b = 6"
    if k: "k < 85" for k
  proof -
    have "descending set_discretizations" "set_discretizations \<noteq> []" "length set_discretizations = 8"
      by (simp_all add: set_discretizations_eq discretizations_def descending_def)
    then have "FindClosest past set_discretizations (decoded_aes e ! k ! (n div 4) ! (n mod 4)) < 8" if "n < 16" for n
      using FindClosest_nearest [of set_discretizations past] past [OF k that] by auto
    then have "\<forall>v \<in> set (classes past (decoded_aes e ! k)). 0 \<le> v \<and> v \<le> 8"
      by (auto simp: classes_def simp del: upt_Suc intro: less_imp_le)
    then obtain rep where rep: "InitFromInts (classes past (decoded_aes e ! k)) = Some rep" "length rep = 48"
      using InitFromInts_eq [of "classes past (decoded_aes e ! k)"] by (simp add: classes_def)
    obtain b where "bitset_to_bytes rep = Some b" "length b = (length rep + 7) div 8" using bitset_to_bytes_spec [of rep] by blast
    with rep show ?thesis by (simp add: ToString_def)
  qed
  then obtain g where g: "\<And>k. k < 85 \<Longrightarrow>
      do { rep \<leftarrow> InitFromInts (classes past (decoded_aes e ! k)); ToString rep } = Some (g k) \<and> length (g k) = 6"
    by moura
  have "length (concat (map g [0..<n])) = 6 * n" if "n \<le> 85" for n
    using that g by (induction n) simp_all
  then have "length (concat (map g [0..<85])) = 510" by (simp del: upt_Suc length_concat)
  then show ?thesis using read_message_blocks [OF grid g] by blast
qed

text \<open>The two numbers that are written are the results of the codec on the two halves.\<close>

lemma decode_halves_spec:
  assumes len: "length (full_message e) = 510"
    and dec: "\<And>i. i < 2 \<Longrightarrow> RsCodec_Decode junk st (codec e) (half_data (full_message e) i)
      (map ucast (half_parity (full_message e) i)) = Some (c i, d i)"
  shows "decode_halves junk st e = Some (e\<lparr>f_stream := f_stream e @ [c 0, c 1]\<rparr>)"
proof -
  let ?f = "full_message e"
  have slice: "map (\<lambda>k. ?f ! (a + k)) [0..<n] = take n (drop a ?f)" if "a + n \<le> 510" for a n
    using that len by (intro nth_equalityI) simp_all
  have data: "for_in [0..<223] (\<lambda>k data. do { c \<leftarrow> rd ?f (i * 255 + k); wr data k c }) (replicate 223 0) =
      Some (half_data ?f i)" if "i < 2" for i
    using store_row [of 0 223 "replicate 223 0" "\<lambda>k. rd ?f (i * 255 + k)" "\<lambda>k. ?f ! (i * 255 + k)"]
      slice [of "i * 255" 223] that len by (simp add: rd_def half_data_def del: upt_conv_Cons)
  have parity: "for_in [0..<32] (\<lambda>ii parity. do { c \<leftarrow> rd ?f (i * 255 + 223 + ii); wr parity ii (ucast c) }) (replicate 32 (0 :: u16)) =
      Some (map ucast (half_parity ?f i))" if "i < 2" for i
  proof -
    have "map (\<lambda>k. ucast (?f ! (i * 255 + 223 + k)) :: u16) [0..<32] = map ucast (map (\<lambda>k. ?f ! (i * 255 + 223 + k)) [0..<32])"
      by simp
    also have "\<dots> = map ucast (half_parity ?f i)"
      using slice [of "i * 255 + 223" 32] that by (simp add: half_parity_def)
    finally show ?thesis
      using store_row [of 0 32 "replicate 32 0" "\<lambda>k. do { c \<leftarrow> rd ?f (i * 255 + 223 + k); Some (ucast c :: u16) }"
          "\<lambda>k. ucast (?f ! (i * 255 + 223 + k))"] that len by (simp add: rd_def)
  qed
  show ?thesis
    using data [of 0] data [of 1] parity [of 0] parity [of 1] dec [of 0] dec [of 1]
    by (simp add: decode_halves_def for_in_exec)
qed


section \<open>The trip\<close>

text \<open>
  The channel: the JPEG of the image is decoded to a buffer of the image's size in which no cell
  mean of the red values is 16 or more away from what it was. Nothing is asked of single pixels.
\<close>

definition faithful_channel :: "('z, 'y) jpeg_lib \<Rightarrow> (nat \<Rightarrow> byte) \<Rightarrow> byte list \<Rightarrow> bool" where
  "faithful_channel lib junk img \<longleftrightarrow> (\<exists>jpeg buf w h.
     JPEGCodec_Encode (has_jcs_ext lib) (jpeg_c lib) junk img FORMAT_RGB 136 40 408 (FLAGS_quality lib) = Some (Some jpeg) \<and>
     jpeg \<noteq> [] \<and> JPEGCodec_Decode (has_jcs_ext lib) (jpeg_d lib) junk jpeg FORMAT_RGB = Some (Some (buf, w, h)) \<and>
     16320 \<le> length buf \<and> (\<forall>r < 20. \<forall>c < 68. \<bar>cell_avg buf r c - cell_avg img r c\<bar> < 16))"

lemma level_byte:
  assumes "n < 8"
  shows "uint (word_of_int (discretizations ! n) :: byte) = discretizations ! n"
proof -
  have "list_all (\<lambda>v. uint (word_of_int v :: byte) = v) discretizations"
    by (simp add: discretizations_def)
  with assms show ?thesis by (simp add: list_all_length len_simps)
qed

text \<open>Dividing in two steps: the cell and then the block of a row or column.\<close>

lemma two_steps:
  fixes x a b :: nat
  assumes "0 < a"
  shows "x div (a * b) = x div a div b" "x mod (a * b) div a = x div a mod b"
proof -
  show "x div (a * b) = x div a div b" by (rule div_mult2_eq)
  have "x mod (a * b) div a = (a * (x div a mod b) + x mod a) div a" by (simp only: mod_mult2_eq)
  then show "x mod (a * b) div a = x div a mod b" using assms by simp
qed

lemma cell_row: "r' div 2 = r \<Longrightarrow> r' div 8 = r div 4 \<and> r' mod 8 div 2 = r mod 4" for r r' :: nat
  using two_steps [of 2 r' 4] by simp

lemma cell_column: "x div 6 = c \<Longrightarrow> x div 24 = c div 4 \<and> x mod 24 div 6 = c mod 4" for x c :: nat
  using two_steps [of 6 x 4] by simp

lemma quarter_cell_mean: "quarter (cell_mean m p q)"
  unfolding quarter_def cell_mean_def by (rule exI) (rule refl)

lemma painted_level:
  assumes P: "painted bytes 85 im" and r: "r < 20" and c: "c < 68"
  shows "cell_avg (im_data im) r c =
    of_int (discretizations ! nat (block_ints bytes (r div 4 * 17 + c div 4) ! (r mod 4 * 4 + c mod 4)))"
proof -
  let ?k = "r div 4 * 17 + c div 4" and ?n = "r mod 4 * 4 + c mod 4"
  let ?v = "discretizations ! nat (block_ints bytes ?k ! ?n)"
  have k: "?k < 85"
  proof -
    have "r div 4 \<le> 4" "c div 4 \<le> 16" using r c by linarith+
    then show ?thesis by linarith
  qed
  have n: "?n < 16"
  proof -
    have "r mod 4 \<le> 3" "c mod 4 \<le> 3" by linarith+
    then show ?thesis by linarith
  qed
  have v: "uint (word_of_int ?v :: byte) = ?v"
    using indices_ok_nth [OF block_ints_ok n] by (intro level_byte) simp
  have "uint (im_data im ! (r' * 408 + x)) = ?v" if "r' div 2 = r" "x div 6 = c" for r' x
  proof -
    have "r' < 40" "x < 408" using that r c by linarith+
    moreover have "nat (im_w im) = 408" using P by (simp add: painted_def image_ok_def)
    ultimately have "im_data im ! (r' * 408 + x) = block_px (block_ints bytes ?k) discretizations (r' mod 8) (x mod 24)"
      using P k cell_row [OF that(1)] cell_column [OF that(2)] by (auto simp: painted_def px_def)
    also have "\<dots> = word_of_int ?v"
      using cell_row [OF that(1)] cell_column [OF that(2)] by (simp add: block_px_def)
    finally show ?thesis using v by simp
  qed
  from this [of "2 * r" "6 * c"] this [of "2 * r + 1" "6 * c"] this [of "2 * r" "6 * c + 3"] this [of "2 * r + 1" "6 * c + 3"]
  show ?thesis by (simp add: cell_avg_def)
qed

lemma near_levels_channel:
  assumes P: "painted bytes 85 im" and k: "k < 85"
    and near: "\<forall>r < 20. \<forall>c < 68. \<bar>cell_avg buf r c - cell_avg (im_data im) r c\<bar> < 16"
  shows "near_levels bytes k (map (\<lambda>p. map (cell_mean (buf_matrix buf k) p) [0..<4]) [0..<4])"
  unfolding near_levels_def
proof (intro allI impI)
  fix n :: nat assume n: "n < 16"
  let ?r = "k div 17 * 4 + n div 4" and ?c = "k mod 17 * 4 + n mod 4"
  have d: "n div 4 < 4" "n mod 4 < 4" using n by auto
  have rc: "?r < 20" "?c < 68" using block_bounds [OF k] d by linarith+
  have "?r div 4 = k div 17" "?c div 4 = k mod 17" "?r mod 4 = n div 4" "?c mod 4 = n mod 4" using d by simp_all
  then have "cell_avg (im_data im) ?r ?c = of_int (discretizations ! nat (block_ints bytes k ! n))"
    using painted_level [OF P rc] by simp
  moreover have "\<bar>cell_avg buf ?r ?c - cell_avg (im_data im) ?r ?c\<bar> < 16" using near rc by blast
  moreover note cell_mean_buf [OF d, of buf k]
  ultimately show "\<bar>map (\<lambda>p. map (cell_mean (buf_matrix buf k) p) [0..<4]) [0..<4] ! (n div 4) ! (n mod 4) -
      of_int (discretizations ! nat (block_ints bytes k ! n))\<bar> < 16"
    using d by simp
qed

text \<open>
  A run over any channel whose JPEG decodes to a buffer of the image's size: what it reads are the
  means of that buffer. Then the run over a faithful channel.
\<close>

lemma Run_phases:
  assumes ok: "exp_ok st e"
    and prep: "prepare_message st e = Some (bytes, e1)" "fill_image bytes e1 = Some e2"
    and jpeg: "JPEGCodec_Encode (has_jcs_ext lib) (jpeg_c lib) junk8 (im_data (e_image e2)) FORMAT_RGB 136 40 408 (FLAGS_quality lib) = Some (Some jpeg)"
      "jpeg \<noteq> []" "JPEGCodec_Decode (has_jcs_ext lib) (jpeg_d lib) junk8 jpeg FORMAT_RGB = Some (Some (buf, w, h))"
    and buf: "16320 \<le> length buf"
  shows "\<exists>e5. Run lib past junk8 junk16 st e = do { e \<leftarrow> read_message past e5; decode_halves junk16 st e } \<and>
    exp_ok st e5 \<and> codec e5 = codec e \<and> f_stream e5 = f_stream e \<and> painted bytes 85 (e_image e2) \<and>
    (\<forall>k < 85. decoded_aes e5 ! k = map (\<lambda>p. map (cell_mean (buf_matrix buf k) p) [0..<4]) [0..<4])"
proof -
  obtain m where m: "e1 = e\<lparr>ecc_msg := m\<rparr>" "length (prng m) = 3" "length bytes = 510"
    using prepare_message_spec [OF ok] prep(1) by auto
  have im1: "image_ok 408 40 (e_image e1)" using ok m(1) by (simp add: exp_ok_def)
  have same: "same_setup e1 e2" and P: "painted bytes 85 (e_image e2)"
    using fill_image_spec [OF im1 m(3)] prep(2) by auto
  have grids: "grid_ok 8 (blocks e2)" "grid_ok 4 (aes_blocks e2)" "grid_ok 8 (decoded_blocks e2)" "grid_ok 4 (decoded_aes e2)"
    using ok same m(1) by (simp_all add: exp_ok_def same_setup_def)
  obtain bs as where avg: "average_original e2 = Some (e2\<lparr>blocks := bs, aes_blocks := as\<rparr>)" "grid_ok 8 bs" "grid_ok 4 as"
    using average_original_spec [OF P grids(1,2)] by blast
  define e4 where "e4 = e2\<lparr>blocks := bs, aes_blocks := as, output_jpeg := jpeg, decoded_buf := buf, im_width := w, im_height := h\<rparr>"
  have thru: "through_jpeg lib junk8 (e2\<lparr>blocks := bs, aes_blocks := as\<rparr>) = Some e4"
    using jpeg by (simp add: through_jpeg_def e4_def grid_sizes)
  have e4: "16320 \<le> length (decoded_buf e4)" "grid_ok 8 (decoded_blocks e4)" "grid_ok 4 (decoded_aes e4)" "decoded_buf e4 = buf"
    using buf grids by (simp_all add: e4_def)
  obtain bs' as' where avg': "average_decoded e4 = Some (e4\<lparr>decoded_blocks := bs', decoded_aes := as'\<rparr>)"
    "grid_ok 8 bs'" "grid_ok 4 as'"
    "\<forall>k < 85. as' ! k = map (\<lambda>p. map (cell_mean (buf_matrix buf k) p) [0..<4]) [0..<4]"
    using average_decoded_spec [OF e4(1-3)] e4(4) by metis
  let ?e5 = "e4\<lparr>decoded_blocks := bs', decoded_aes := as'\<rparr>"
  have "Run lib past junk8 junk16 st e = do { e \<leftarrow> read_message past ?e5; decode_halves junk16 st e }"
    using prep avg(1) thru avg'(1) by (simp add: Run_def)
  moreover have "codec ?e5 = codec e" "f_stream ?e5 = f_stream e" "ecc_msg ?e5 = m"
    using same m(1) by (simp_all add: e4_def same_setup_def)
  moreover from this have "exp_ok st ?e5"
    using ok m(2) P avg avg'(2,3) by (simp add: exp_ok_def painted_def e4_def)
  ultimately show ?thesis using P avg'(4) by (intro exI [of _ ?e5]) simp
qed

lemma means_not_past:
  assumes "\<not> quarter past" and "m = map (\<lambda>p. map (cell_mean b p) [0..<4]) [0..<4]" and "n < 16"
  shows "m ! (n div 4) ! (n mod 4) \<noteq> past"
proof -
  have "n div 4 < 4" "n mod 4 < 4" using assms(3) by auto
  then have "quarter (m ! (n div 4) ! (n mod 4))" using assms(2) quarter_cell_mean by simp
  with assms(1) show ?thesis by blast
qed

lemma Run_spec:
  assumes ok: "exp_ok st e" and past: "\<not> quarter past"
    and prep: "prepare_message st e = Some (bytes, e1)" "fill_image bytes e1 = Some e2"
    and ch: "faithful_channel lib junk8 (im_data (e_image e2))"
  shows "\<exists>e'. Run lib past junk8 junk16 st e = Some e' \<and> exp_ok st e' \<and>
    f_stream e' = f_stream e @ [0, 0] \<and> full_message e' = bytes"
proof -
  have len: "length bytes = 510"
    and enc: "\<And>i. i < 2 \<Longrightarrow> RsCodec_Encode st (codec e) (half_data bytes i) (replicate 32 0) = Some (0, map ucast (half_parity bytes i))"
    using prepare_message_spec [OF ok] prep(1) by auto
  obtain jpeg buf w h where jpeg:
    "JPEGCodec_Encode (has_jcs_ext lib) (jpeg_c lib) junk8 (im_data (e_image e2)) FORMAT_RGB 136 40 408 (FLAGS_quality lib) = Some (Some jpeg)"
    "jpeg \<noteq> []" "JPEGCodec_Decode (has_jcs_ext lib) (jpeg_d lib) junk8 jpeg FORMAT_RGB = Some (Some (buf, w, h))"
    and buf: "16320 \<le> length buf" "\<forall>r < 20. \<forall>c < 68. \<bar>cell_avg buf r c - cell_avg (im_data (e_image e2)) r c\<bar> < 16"
    using ch unfolding faithful_channel_def by blast
  obtain e5 where run: "Run lib past junk8 junk16 st e = do { e \<leftarrow> read_message past e5; decode_halves junk16 st e }"
    and e5: "exp_ok st e5" "codec e5 = codec e" "f_stream e5 = f_stream e" and P: "painted bytes 85 (e_image e2)"
    and aes: "\<forall>k < 85. decoded_aes e5 ! k = map (\<lambda>p. map (cell_mean (buf_matrix buf k) p) [0..<4]) [0..<4]"
    using Run_phases [OF ok prep jpeg buf(1)] by blast
  have grid: "grid_ok 4 (decoded_aes e5)" using e5(1) by (simp add: exp_ok_def)
  obtain rep ints where rd: "read_message past e5 = Some (e5\<lparr>decoded_ints := ints, matrix_rep := rep, full_message := bytes\<rparr>)"
    using read_message_spec [OF len grid] near_levels_channel [OF P _ buf(2)] aes means_not_past [OF past] by metis
  let ?e6 = "e5\<lparr>decoded_ints := ints, matrix_rep := rep, full_message := bytes\<rparr>"
  obtain rs where rs: "objs st (codec e) = Some rs" "rs255 rs" using ok by (auto simp: exp_ok_def)
  have "RsCodec_Decode junk16 st (codec ?e6) (half_data bytes i) (map ucast (half_parity bytes i)) = Some (0, half_data bytes i)"
    if "i < 2" for i
    using RsCodec_encode_decode [OF rs, of "half_data bytes i"] enc [OF that] that len e5(2)
    by (auto simp: half_data_def)
  then have "decode_halves junk16 st ?e6 = Some (?e6\<lparr>f_stream := f_stream ?e6 @ [0, 0]\<rparr>)"
    using decode_halves_spec [of ?e6 junk16 st "\<lambda>_. 0" "half_data bytes"] len by simp
  then have "Run lib past junk8 junk16 st e = Some (?e6\<lparr>f_stream := f_stream ?e6 @ [0, 0]\<rparr>)"
    using run rd by simp
  moreover have "exp_ok st (?e6\<lparr>f_stream := f_stream ?e6 @ [0, 0]\<rparr>)" using e5(1) by (simp add: exp_ok_def)
  ultimately show ?thesis using e5(3) by auto
qed

end
