(* ===== verification/Jpeg_Stored.thy ===== *)
theory Jpeg_Stored imports Jpeg_Codec begin

text \<open>
  An instance of the parameter libjpeg: a pair of functions that stores the rows of a \<open>w\<close> x \<open>h\<close> RGB
  image behind one header byte. The hypotheses on libjpeg in the theorems about the experiments hold
  for it.
\<close>

definition stored_c :: "unit compressor" where
  "stored_c = \<lparr>c_start = (\<lambda>_. Some ((), [0xff])), c_write = (\<lambda>z r. Some (z, r)), c_finish = (\<lambda>_. Some [])\<rparr>"

definition stored_d :: "nat \<Rightarrow> nat \<Rightarrow> byte list decompressor" where
  "stored_d w h = \<lparr>d_header = (\<lambda>i. Some (JCS_YCbCr, w, h, tl i)), d_start = (\<lambda>_ _ z. Some z),
     d_scanline = (\<lambda>z. if w * 3 \<le> length z then Some (take (w * 3) z, drop (w * 3) z) else None), d_finish = (\<lambda>_. True)\<rparr>"

definition stored_lib :: "nat \<Rightarrow> nat \<Rightarrow> (unit, byte list) jpeg_lib" where
  "stored_lib w h = \<lparr>has_jcs_ext = False, jpeg_c = stored_c, jpeg_d = stored_d w h, FLAGS_quality = 90\<rparr>"

lemma stored_rows: "rows_bytes stored_c z rs = Some (z, concat rs)"
  by (induction rs) (simp_all add: stored_c_def)

lemma stored_scan:
  "n * (w * 3) \<le> length z \<Longrightarrow> delivers (stored_d w h) (w * 3) n z \<and>
    (\<exists>rows z'. scan_rows (stored_d w h) n z = Some (rows, z') \<and> concat rows = take (n * (w * 3)) z)"
proof (induction n arbitrary: z)
  case (Suc n)
  have step: "d_scanline (stored_d w h) z = Some (take (w * 3) z, drop (w * 3) z)" "length (take (w * 3) z) = w * 3"
    using Suc.prems by (simp_all add: stored_d_def)
  have fit: "n * (w * 3) \<le> length (drop (w * 3) z)" using Suc.prems by simp
  obtain rows z' where "delivers (stored_d w h) (w * 3) n (drop (w * 3) z)"
    "scan_rows (stored_d w h) n (drop (w * 3) z) = Some (rows, z')" "concat rows = take (n * (w * 3)) (drop (w * 3) z)"
    using Suc.IH [of "drop (w * 3) z"] fit by auto
  with step show ?case by (simp add: take_add)
qed simp

lemma stored_encode:
  assumes "length img = w * 3 * h" "0 < h" "w * 3 * h < 2 ^ 31"
  shows "JPEGCodec_Encode False stored_c junk img FORMAT_RGB w h (w * 3) q = Some (Some (0xff # img))"
proof -
  have fit: "(h - 1) * (w * 3) + w * 3 = w * 3 * h"
    using assms(2) by (cases h) (simp_all add: algebra_simps)
  then have "(h - 1) * (w * 3) \<le> w * 3 * h" by linarith
  from le_less_trans [OF this assms(3)] have "(h - 1) * (w * 3) < 2 ^ 32" by simp
  moreover have "w * 3 \<le> w * 3 * h" using assms(2) by simp
  from le_less_trans [OF this assms(3)] have small: "w * 3 < 2 ^ 31" .
  ultimately have "JPEGCodec_Encode False stored_c junk img FORMAT_RGB w h (w * 3) q = Some (jpeg_bytes stored_c
      (encode_params False FORMAT_RGB w h q) (map (\<lambda>y. input_row False FORMAT_RGB img (y * (w * 3)) w) [0..<h]))"
    using assms(1,2) fit small by (intro Encode_rows) (simp_all add: bytes_per_pixel_def)
  moreover have "concat (map (\<lambda>y. take (w * 3) (drop (y * (w * 3)) img)) [0..<h]) = img"
    unfolding concat_slices using assms(1) by (simp add: ac_simps)
  ultimately show ?thesis using stored_rows [of "()"]
    by (simp add: bytes_per_pixel_def jpeg_bytes_def input_row_def ac_simps) (simp add: stored_c_def)
qed

lemma stored_decode:
  assumes img: "length img = w * 3 * h" and "0 < w" "0 < h" "w * 3 * h < 2 ^ 31"
  shows "JPEGCodec_Decode False (stored_d w h) junk (0xff # img) FORMAT_RGB = Some (Some (img, w, h))"
proof -
  have d: "delivers (stored_d w h) (w * 3) h img"
    "\<exists>rows z'. scan_rows (stored_d w h) h img = Some (rows, z') \<and> concat rows = img"
    using stored_scan [of h w img h] img by (simp_all add: ac_simps)
  have n: "native_space False FORMAT_RGB = (JCS_RGB, 3)" by (simp add: native_space_def)
  have "JPEGCodec_Decode False (stored_d w h) junk (0xff # img) FORMAT_RGB =
      Some (map_option (\<lambda>output. (output, w, h)) (decoded_image False (stored_d w h) FORMAT_RGB w h img))"
    by (rule Decode_rows [OF _ _ _ n _ d(1) assms(2,3), where cs = JCS_YCbCr and z = img])
      (use assms(4) in \<open>simp_all add: stored_d_def bytes_per_pixel_def\<close>)
  moreover have "decoded_image False (stored_d w h) FORMAT_RGB w h img = Some img"
    using d(2) by (auto simp: decoded_image_def output_row_def [abs_def] stored_d_def)
  ultimately show ?thesis by simp
qed

end
