(* ===== verification/Ecc_Run.thy ===== *)
theory Ecc_Run imports Ecc_Experiment Jpeg_Stored Rs_Corrects begin

text \<open>
  The experiment as a thread runs it (\<open>EccThread::Run\<close> of \<open>ecc_thread.cc\<close>), and an instance of the
  channel: a libjpeg that stores the image as it is, with which the hypotheses of the theorems on
  \<open>EccExperiment::Run\<close> hold.
\<close>

section \<open>A JPEG that stores the rows\<close>

definition stored :: "(unit, byte list) jpeg_lib" where
  "stored = stored_lib 136 40"

lemma stored_faithful: "length img = 16320 \<Longrightarrow> faithful_channel stored junk img"
  using stored_encode [of img 136 40 junk 90] stored_decode [of img 136 40 junk]
  by (simp add: faithful_channel_def stored_def stored_lib_def)

section \<open>The first run\<close>

lemma EccExperiment_ok:
  assumes "length rng = 3" and "dims 8 8 m8" "dims 4 4 m4" and "length heap = 16320"
    and "objs st q = Some rs" "rs255 rs"
  shows "\<exists>e. EccExperiment rng q m8 m4 heap = Some e \<and> exp_ok st e \<and> f_stream e = []"
  using assms
  by (simp add: EccExperiment_def array_new_def grid_sizes exp_ok_def image_ok_def grid_ok_def Reset_def)

text \<open>An experiment on a fresh codec, with zeroed matrices.\<close>

lemma fresh_experiment:
  "\<exists>q st e. RsCodec_new (\<lambda>_. True) (\<lambda>_ _. 3) (\<lambda>_ x. x) 40 rs_empty = Some (q, st) \<and>
    EccExperiment (ReentrantRNG 0 1350000000) q (replicate 8 (replicate 8 0)) (replicate 4 (replicate 4 0)) (replicate 16320 0) = Some e \<and>
    exp_ok st e \<and> f_stream e = []"
proof -
  obtain q st where new: "RsCodec_new (\<lambda>_. True) (\<lambda>_ _. 3) (\<lambda>_ x. x) 40 rs_empty = Some (q, st)"
    using RsCodec_new_total [OF rs_inv_empty, of "\<lambda>_. True"] by blast
  moreover have "objs rs_empty 40 = None" by (simp add: rs_empty_def)
  from RsCodec_new_spec [OF rs_inv_empty this new] obtain rs where "objs st q = Some rs" "rs255 rs" by blast
  from EccExperiment_ok [OF _ _ _ _ this, of "ReentrantRNG 0 1350000000" "replicate 8 (replicate 8 0)"
      "replicate 4 (replicate 4 0)" "replicate 16320 0"]
  have "\<exists>e. EccExperiment (ReentrantRNG 0 1350000000) q (replicate 8 (replicate 8 0)) (replicate 4 (replicate 4 0))
      (replicate 16320 0) = Some e \<and> exp_ok st e \<and> f_stream e = []"
    by (simp add: dims_def ReentrantRNG_def)
  ultimately show ?thesis by blast
qed

lemma third_no_quarter: "\<not> quarter (1 / 3)"
proof
  assume "quarter (1 / 3)"
  then obtain k :: int where "(1 / 3 :: rat) = of_int k / 4" by (auto simp: quarter_def)
  then have "(of_int (3 * k) :: rat) = of_int 4" by (simp add: field_simps)
  then have "3 * k = 4" by (simp only: of_int_eq_iff)
  then show False by presburger
qed

text \<open>C1. When the JPEG moves no cell mean of the painted image by 16 grey levels or more, a run of
  the experiment delivers the random message: all its phases return, the 510 bytes read back are
  the bytes that were sent, and the two numbers written are 0. The number behind the set's end must
  not be a multiple of 1/4.\<close>

theorem Run_delivers:
  assumes "exp_ok st e" and "\<not> quarter past"
  shows "\<exists>bytes e1 e2. prepare_message st e = Some (bytes, e1) \<and> fill_image bytes e1 = Some e2 \<and> length bytes = 510 \<and>
    (faithful_channel lib junk8 (im_data (e_image e2)) \<longrightarrow>
      (\<exists>e'. Run lib past junk8 junk16 st e = Some e' \<and> f_stream e' = f_stream e @ [0, 0] \<and> full_message e' = bytes))"
proof -
  obtain bytes m where 1: "prepare_message st e = Some (bytes, e\<lparr>ecc_msg := m\<rparr>)" "length bytes = 510"
    using prepare_message_spec [OF assms(1)] by blast
  obtain e2 where 2: "fill_image bytes (e\<lparr>ecc_msg := m\<rparr>) = Some e2"
    using fill_image_spec [of "e\<lparr>ecc_msg := m\<rparr>" bytes] 1(2) assms(1) by (auto simp: exp_ok_def)
  from Run_spec [OF assms 1(1) 2, of lib junk8 junk16] 1 2 show ?thesis by blast
qed

theorem Run_delivers_witness:
  "\<exists>q st e e'. RsCodec_new (\<lambda>_. True) (\<lambda>_ _. 3) (\<lambda>_ x. x) 40 rs_empty = Some (q, st) \<and>
    EccExperiment (ReentrantRNG 0 1350000000) q (replicate 8 (replicate 8 0)) (replicate 4 (replicate 4 0)) (replicate 16320 0) = Some e \<and>
    Run stored (1 / 3) (\<lambda>_. 0) (\<lambda>_ _. 7) st e = Some e' \<and> f_stream e' = [0, 0] \<and> length (full_message e') = 510"
proof -
  obtain q st e where e: "RsCodec_new (\<lambda>_. True) (\<lambda>_ _. 3) (\<lambda>_ x. x) 40 rs_empty = Some (q, st)"
    "EccExperiment (ReentrantRNG 0 1350000000) q (replicate 8 (replicate 8 0)) (replicate 4 (replicate 4 0)) (replicate 16320 0) = Some e"
    "exp_ok st e" "f_stream e = []"
    using fresh_experiment by blast
  obtain bytes e1 e2 where b: "prepare_message st e = Some (bytes, e1)" "fill_image bytes e1 = Some e2" "length bytes = 510"
    "faithful_channel stored (\<lambda>_. 0) (im_data (e_image e2)) \<longrightarrow>
      (\<exists>e'. Run stored (1 / 3) (\<lambda>_. 0) (\<lambda>_ _. 7) st e = Some e' \<and> f_stream e' = f_stream e @ [0, 0] \<and> full_message e' = bytes)"
    using Run_delivers [OF e(3) third_no_quarter, of stored "\<lambda>_. 0" "\<lambda>_ _. 7"] by blast
  obtain m where m: "e1 = e\<lparr>ecc_msg := m\<rparr>" using prepare_message_spec [OF e(3)] b(1) by auto
  then have "image_ok 408 40 (e_image e1)" using e(3) by (simp add: exp_ok_def)
  then have "length (im_data (e_image e2)) = 16320"
    using fill_image_spec [of e1 bytes] b(2,3) by (auto simp: painted_def image_ok_def)
  with b(3,4) e(1,2,4) stored_faithful show ?thesis by auto
qed

section \<open>A run over a noisy channel\<close>

lemma RsCodec_decode_total:
  assumes "objs st q = Some rs" "rs255 rs" and "length data = 223" "length par = 32"
  shows "\<exists>c d. RsCodec_Decode junk st q data par = Some (c, d) \<and> (c = - 74 \<or> 0 \<le> c \<and> c \<le> 32)"
proof -
  have n: "rs_ok rs 0x187" "nroots rs = 32" "nn rs = 255"
    using rs255_nn [OF assms(2)] assms(2) by (auto simp: rs255_def)
  obtain r where r: "decode_rs8 junk rs (Some data) par 223 None 0 None 0 None = Some r"
    "d_count r = - 74 \<or> 0 \<le> d_count r \<and> d_count r \<le> 32" "map_option length (d_data r) = Some 223"
    using decode_rs8_returns [OF n(1), of 223 data par None None junk 0] n assms(3,4) by (auto simp: returns_def)
  then obtain d where "d_data r = Some d" by auto
  with r assms(1) show ?thesis by (auto simp: RsCodec_Decode_def)
qed

text \<open>The number of bytes of half \<open>i\<close> (data and parity) that the channel changed.\<close>

definition changed_in :: "byte list \<Rightarrow> byte list \<Rightarrow> nat \<Rightarrow> nat" where
  "changed_in got sent i = changed (half_data got i) (half_data sent i) + changed (half_parity got i) (half_parity sent i)"

lemma decode_noisy_half:
  assumes rs: "objs st q = Some rs" "rs255 rs" and len: "length got = 510" "length sent = 510" and i: "i < 2"
    and enc: "RsCodec_Encode st q (half_data sent i) (replicate 32 0) = Some (0, map ucast (half_parity sent i))"
  shows "\<exists>c d. RsCodec_Decode junk st q (half_data got i) (map ucast (half_parity got i)) = Some (c, d) \<and>
    (c = - 74 \<or> 0 \<le> c \<and> c \<le> 32) \<and> (changed_in got sent i \<le> 16 \<longrightarrow> c = int (changed_in got sent i) \<and> d = half_data sent i)"
proof -
  have l: "length (half_data got i) = 223" "length (half_data sent i) = 223" "length (half_parity got i) = 32"
    using len i by (simp_all add: half_data_def half_parity_def)
  have small: "list_all (\<lambda>s. s \<le> 255) (map ucast bs :: u16 list)" for bs :: "byte list"
  proof -
    have "(ucast b :: u16) \<le> 255" for b :: byte
      using unsigned_less [of b, where ?'a = int] by (simp add: word_le_def uint_up_ucast is_up)
    then show ?thesis by (simp add: list_all_iff)
  qed
  have inj: "inj (ucast :: byte \<Rightarrow> u16)"
  proof (rule injI)
    fix a b :: byte
    assume "(ucast a :: u16) = ucast b"
    then have "uint (ucast a :: u16) = uint (ucast b :: u16)" by simp
    then show "a = b" by (simp add: uint_up_ucast is_up word_uint_eq_iff)
  qed
  have ch: "changed_in got sent i = changed (half_data got i) (half_data sent i) +
      changed (map ucast (half_parity got i) :: u16 list) (map ucast (half_parity sent i))"
    by (simp add: changed_in_def changed_map [OF inj])
  show ?thesis
  proof (cases "changed_in got sent i \<le> 16")
    case True
    then show ?thesis
      using RsCodec_decode_near [OF rs l(2) enc l(1) _ small] l(3) ch by simp
  next
    case False
    then show ?thesis using RsCodec_decode_total [OF rs l(1), of "map ucast (half_parity got i)"] l(3) by auto
  qed
qed

text \<open>C2. The experiment measures what it claims to measure. Over any channel whose JPEG decodes to a
  buffer of the image's size, whatever is in the buffer, a run returns: it reads back 510 bytes and
  writes two numbers, each -74 or between 0 and 32. If the channel changed at most 16 of the 255 bytes
  of a half of the message, data and parity together, then the number of that half is exactly the
  number of changed bytes.\<close>

theorem Run_reports_errors:
  assumes "exp_ok st e" and "\<not> quarter past"
  shows "\<exists>bytes e1 e2. prepare_message st e = Some (bytes, e1) \<and> fill_image bytes e1 = Some e2 \<and> length bytes = 510 \<and>
    (\<forall>jpeg buf w h.
      JPEGCodec_Encode (has_jcs_ext lib) (jpeg_c lib) junk8 (im_data (e_image e2)) FORMAT_RGB 136 40 408 (FLAGS_quality lib) = Some (Some jpeg) \<longrightarrow>
      jpeg \<noteq> [] \<longrightarrow> JPEGCodec_Decode (has_jcs_ext lib) (jpeg_d lib) junk8 jpeg FORMAT_RGB = Some (Some (buf, w, h)) \<longrightarrow>
      16320 \<le> length buf \<longrightarrow>
      (\<exists>e' n. Run lib past junk8 junk16 st e = Some e' \<and> f_stream e' = f_stream e @ [n 0, n 1] \<and> length (full_message e') = 510 \<and>
        (\<forall>i < 2. (n i = - 74 \<or> 0 \<le> n i \<and> n i \<le> 32) \<and>
          (changed_in (full_message e') bytes i \<le> 16 \<longrightarrow> n i = int (changed_in (full_message e') bytes i)))))"
proof -
  obtain bytes m where 1: "prepare_message st e = Some (bytes, e\<lparr>ecc_msg := m\<rparr>)" "length bytes = 510"
    and enc: "\<And>i. i < 2 \<Longrightarrow> RsCodec_Encode st (codec e) (half_data bytes i) (replicate 32 0) = Some (0, map ucast (half_parity bytes i))"
    using prepare_message_spec [OF assms(1)] by blast
  obtain e2 where 2: "fill_image bytes (e\<lparr>ecc_msg := m\<rparr>) = Some e2"
    using fill_image_spec [of "e\<lparr>ecc_msg := m\<rparr>" bytes] 1(2) assms(1) by (auto simp: exp_ok_def)
  obtain rs where rs: "objs st (codec e) = Some rs" "rs255 rs" using assms(1) by (auto simp: exp_ok_def)
  have "\<exists>e' n. Run lib past junk8 junk16 st e = Some e' \<and> f_stream e' = f_stream e @ [n 0, n 1] \<and> length (full_message e') = 510 \<and>
      (\<forall>i < 2. (n i = - 74 \<or> 0 \<le> n i \<and> n i \<le> 32) \<and>
        (changed_in (full_message e') bytes i \<le> 16 \<longrightarrow> n i = int (changed_in (full_message e') bytes i)))"
    if jpeg: "JPEGCodec_Encode (has_jcs_ext lib) (jpeg_c lib) junk8 (im_data (e_image e2)) FORMAT_RGB 136 40 408 (FLAGS_quality lib) = Some (Some jpeg)"
      "jpeg \<noteq> []" "JPEGCodec_Decode (has_jcs_ext lib) (jpeg_d lib) junk8 jpeg FORMAT_RGB = Some (Some (buf, w, h))"
      "16320 \<le> length buf" for jpeg buf w h
  proof -
    obtain e5 where run: "Run lib past junk8 junk16 st e = do { e \<leftarrow> read_message past e5; decode_halves junk16 st e }"
      and e5: "exp_ok st e5" "codec e5 = codec e" "f_stream e5 = f_stream e"
      and aes: "\<forall>k < 85. decoded_aes e5 ! k = map (\<lambda>p. map (cell_mean (buf_matrix buf k) p) [0..<4]) [0..<4]"
      using Run_phases [OF assms(1) 1(1) 2 jpeg] by blast
    have grid: "grid_ok 4 (decoded_aes e5)" using e5(1) by (simp add: exp_ok_def)
    obtain rep ints got where rd: "read_message past e5 = Some (e5\<lparr>decoded_ints := ints, matrix_rep := rep, full_message := got\<rparr>)"
      "length got = 510"
      using read_message_total [OF grid] means_not_past [OF assms(2)] aes by metis
    let ?e6 = "e5\<lparr>decoded_ints := ints, matrix_rep := rep, full_message := got\<rparr>"
    define r where "r i = the (RsCodec_Decode junk16 st (codec e) (half_data got i) (map ucast (half_parity got i)))" for i
    have r: "RsCodec_Decode junk16 st (codec e) (half_data got i) (map ucast (half_parity got i)) = Some (fst (r i), snd (r i))"
      "fst (r i) = - 74 \<or> 0 \<le> fst (r i) \<and> fst (r i) \<le> 32"
      "changed_in got bytes i \<le> 16 \<Longrightarrow> fst (r i) = int (changed_in got bytes i)" if "i < 2" for i
      using decode_noisy_half [OF rs rd(2) 1(2) that enc [OF that], of junk16] by (auto simp: r_def)
    have "decode_halves junk16 st ?e6 = Some (?e6\<lparr>f_stream := f_stream ?e6 @ [fst (r 0), fst (r 1)]\<rparr>)"
      by (rule decode_halves_spec [where d = "\<lambda>i. snd (r i)"]) (use rd(2) r(1) e5(2) in simp_all)
    with run rd r(2,3) e5(3) show ?thesis by (intro exI [of _ "?e6\<lparr>f_stream := f_stream ?e6 @ [fst (r 0), fst (r 1)]\<rparr>"] exI [of _ "\<lambda>i. fst (r i)"]) simp
  qed
  with 1 2 show ?thesis by blast
qed

theorem Run_reports_errors_witness:
  "\<exists>st e e' n bytes e1. exp_ok st e \<and> prepare_message st e = Some (bytes, e1) \<and>
    Run stored (1 / 3) (\<lambda>_. 0) (\<lambda>_ _. 7) st e = Some e' \<and> f_stream e' = [n (0 :: nat), n 1] \<and>
    n 0 \<le> 32 \<and> (changed_in (full_message e') bytes 1 \<le> 16 \<longrightarrow> n 1 = int (changed_in (full_message e') bytes 1))"
proof -
  obtain q st e where e: "exp_ok st e" "f_stream e = []" using fresh_experiment by blast
  obtain bytes e1 e2 where b: "prepare_message st e = Some (bytes, e1)" "fill_image bytes e1 = Some e2" "length bytes = 510"
    and run: "\<And>jpeg buf w h.
      JPEGCodec_Encode (has_jcs_ext stored) (jpeg_c stored) (\<lambda>_. 0) (im_data (e_image e2)) FORMAT_RGB 136 40 408 (FLAGS_quality stored) = Some (Some jpeg) \<Longrightarrow>
      jpeg \<noteq> [] \<Longrightarrow> JPEGCodec_Decode (has_jcs_ext stored) (jpeg_d stored) (\<lambda>_. 0) jpeg FORMAT_RGB = Some (Some (buf, w, h)) \<Longrightarrow>
      16320 \<le> length buf \<Longrightarrow>
      (\<exists>e' n. Run stored (1 / 3) (\<lambda>_. 0) (\<lambda>_ _. 7) st e = Some e' \<and> f_stream e' = f_stream e @ [n 0, n 1] \<and> length (full_message e') = 510 \<and>
        (\<forall>i < 2. (n i = - 74 \<or> 0 \<le> n i \<and> n i \<le> 32) \<and>
          (changed_in (full_message e') bytes i \<le> 16 \<longrightarrow> n i = int (changed_in (full_message e') bytes i))))"
    using Run_reports_errors [OF e(1) third_no_quarter, of stored "\<lambda>_. 0" "\<lambda>_ _. 7"] by blast
  obtain m where m: "e1 = e\<lparr>ecc_msg := m\<rparr>" using prepare_message_spec [OF e(1)] b(1) by auto
  then have "image_ok 408 40 (e_image e1)" using e(1) by (simp add: exp_ok_def)
  then have img: "length (im_data (e_image e2)) = 16320"
    using fill_image_spec [of e1 bytes] b(2,3) by (auto simp: painted_def image_ok_def)
  obtain jpeg buf w h where jpeg:
    "JPEGCodec_Encode (has_jcs_ext stored) (jpeg_c stored) (\<lambda>_. 0) (im_data (e_image e2)) FORMAT_RGB 136 40 408 (FLAGS_quality stored) = Some (Some jpeg)"
    "jpeg \<noteq> []" "JPEGCodec_Decode (has_jcs_ext stored) (jpeg_d stored) (\<lambda>_. 0) jpeg FORMAT_RGB = Some (Some (buf, w, h))" "16320 \<le> length buf"
    using stored_faithful [OF img, of "\<lambda>_. 0"] unfolding faithful_channel_def by blast
  obtain e' n where r: "Run stored (1 / 3) (\<lambda>_. 0) (\<lambda>_ _. 7) st e = Some e'" "f_stream e' = f_stream e @ [n 0, n 1]"
    "\<forall>i < 2. (n i = - 74 \<or> 0 \<le> n i \<and> n i \<le> 32) \<and>
      (changed_in (full_message e') bytes i \<le> 16 \<longrightarrow> n i = int (changed_in (full_message e') bytes i))"
    using run [OF jpeg] by blast
  have "n 0 \<le> 32" "changed_in (full_message e') bytes 1 \<le> 16 \<longrightarrow> n 1 = int (changed_in (full_message e') bytes 1)"
    using r(3) [rule_format, of 0] r(3) [rule_format, of 1] by auto
  with e b(1) r(1,2) show ?thesis
    by (intro exI [of _ st] exI [of _ e] exI [of _ e'] exI [of _ n] exI [of _ bytes] exI [of _ e1]) simp
qed

section \<open>A thread\<close>

text \<open>A thread that runs the experiment \<open>n\<close> times over a channel that is faithful to every
  painted message writes \<open>2 n\<close> zeros and nothing else, and leaves the experiment ready for more.\<close>

lemma EccThread_Run_delivers:
  assumes "exp_ok st e" and "\<not> quarter past"
    and "\<And>bytes im. length bytes = 510 \<Longrightarrow> painted bytes 85 im \<Longrightarrow> faithful_channel lib junk8 (im_data im)"
  shows "\<exists>e'. EccThread_Run lib past junk8 junk16 st n e = Some e' \<and> exp_ok st e' \<and>
    f_stream e' = f_stream e @ replicate (2 * n) 0"
  unfolding EccThread_Run_def
proof (rule for_in_upt [where P = "\<lambda>k e'. exp_ok st e' \<and> f_stream e' = f_stream e @ replicate (2 * k) 0"])
  fix k e1 assume P: "exp_ok st e1 \<and> f_stream e1 = f_stream e @ replicate (2 * k) 0"
  then have ok: "exp_ok st e1" by simp
  obtain bytes m where 1: "prepare_message st e1 = Some (bytes, e1\<lparr>ecc_msg := m\<rparr>)" "length bytes = 510"
    using prepare_message_spec [OF ok] by blast
  obtain e2 where 2: "fill_image bytes (e1\<lparr>ecc_msg := m\<rparr>) = Some e2" "painted bytes 85 (e_image e2)"
    using fill_image_spec [of "e1\<lparr>ecc_msg := m\<rparr>" bytes] 1(2) ok by (auto simp: exp_ok_def)
  obtain e3 where "Run lib past junk8 junk16 st e1 = Some e3" "exp_ok st e3" "f_stream e3 = f_stream e1 @ [0, 0]"
    using Run_spec [OF ok assms(2) 1(1) 2(1) assms(3) [OF 1(2) 2(2)], of junk16] by blast
  moreover have "replicate (2 * k) 0 @ [0, 0] = replicate (2 * Suc k) (0 :: int)"
    by (simp add: replicate_append_same [symmetric] replicate_add)
  ultimately show "\<exists>e'. Run lib past junk8 junk16 st e1 = Some e' \<and> exp_ok st e' \<and>
      f_stream e' = f_stream e @ replicate (2 * Suc k) 0"
    using P by simp
qed (use assms(1) in simp_all)

end
