(* ===== verification/Buffer.thy ===== *)
theory Buffer imports Prelude "HOL-Library.Multiset" begin

text \<open>
  The interface that the two queues of the program share: an operation that stores an element or
  refuses it, and one that hands out a stored element or says that there is none. \<open>content\<close> is
  what a state holds, as a bag; the second operation may depend on outside information (a random
  number). Locale \<open>fifo\<close> adds the order of a queue.
\<close>

datatype ('x, 'r) buffer_op = Push 'x | Pop 'r

text \<open>
  The client: it executes a list of operations and keeps what was stored and what it was handed.
\<close>

fun exec_ops :: "('x \<Rightarrow> 's \<Rightarrow> (bool \<times> 's) option) \<Rightarrow> ('r \<Rightarrow> 's \<Rightarrow> ('x option \<times> 's) option) \<Rightarrow>
    ('x, 'r) buffer_op list \<Rightarrow> 's \<Rightarrow> ('x list \<times> 'x list \<times> 's) option" where
  "exec_ops push pop [] s = Some ([], [], s)"
| "exec_ops push pop (Push x # ops) s = do {
     (b, s) \<leftarrow> push x s;
     (ins, outs, s) \<leftarrow> exec_ops push pop ops s;
     Some (if b then x # ins else ins, outs, s) }"
| "exec_ops push pop (Pop r # ops) s = do {
     (y, s) \<leftarrow> pop r s;
     (ins, outs, s) \<leftarrow> exec_ops push pop ops s;
     Some (ins, case y of None \<Rightarrow> outs | Some x \<Rightarrow> x # outs, s) }"

locale buffer =
  fixes push :: "'x \<Rightarrow> 's \<Rightarrow> (bool \<times> 's) option"
    and pop :: "'r \<Rightarrow> 's \<Rightarrow> ('x option \<times> 's) option"
    and content :: "'s \<Rightarrow> 'x multiset"
    and ok :: "'s \<Rightarrow> bool"
  assumes push_stored: "ok s \<Longrightarrow> push x s = Some (True, s') \<Longrightarrow> ok s' \<and> content s' = add_mset x (content s)"
    and push_refused: "ok s \<Longrightarrow> push x s = Some (False, s') \<Longrightarrow> ok s' \<and> content s' = content s"
    and pop_some: "ok s \<Longrightarrow> pop r s = Some (Some x, s') \<Longrightarrow> ok s' \<and> content s = add_mset x (content s')"
    and pop_none: "ok s \<Longrightarrow> pop r s = Some (None, s') \<Longrightarrow> ok s' \<and> content s = {#} \<and> content s' = {#}"
begin

lemma push_any:
  "ok s \<Longrightarrow> push x s = Some (b, s') \<Longrightarrow> ok s' \<and> content s' = (if b then add_mset x (content s) else content s)"
  using push_stored [of s x s'] push_refused [of s x s'] by (cases b) simp_all

lemma exec_conserves:
  assumes "exec_ops push pop ops s = Some (ins, outs, s')" and "ok s"
  shows "ok s' \<and> content s + mset ins = mset outs + content s'"
  using assms
proof (induction ops arbitrary: s ins outs)
  case Nil
  then show ?case by simp
next
  case (Cons op ops)
  show ?case
  proof (cases op)
    case (Push x)
    with Cons.prems obtain b t ins' where 1: "push x s = Some (b, t)"
      "exec_ops push pop ops t = Some (ins', outs, s')" "ins = (if b then x # ins' else ins')"
      by (auto elim!: bindE)
    with Cons.IH [OF 1(2)] push_any [OF Cons.prems(2) 1(1)] show ?thesis by auto
  next
    case (Pop r)
    with Cons.prems obtain y t outs' where 1: "pop r s = Some (y, t)"
      "exec_ops push pop ops t = Some (ins, outs', s')" "outs = (case y of None \<Rightarrow> outs' | Some x \<Rightarrow> x # outs')"
      by (auto elim!: bindE)
    show ?thesis
    proof (cases y)
      case None
      then have "ok t \<and> content s = {#} \<and> content t = {#}" using pop_none 1(1) Cons.prems(2) by blast
      with Cons.IH [OF 1(2)] 1(3) None show ?thesis by simp
    next
      case (Some x)
      then have "ok t \<and> content s = add_mset x (content t)" using pop_some 1(1) Cons.prems(2) by blast
      moreover from this have "ok s' \<and> content t + mset ins = mset outs' + content s'"
        using Cons.IH [OF 1(2)] by blast
      ultimately show ?thesis using 1(3) Some by simp
    qed
  qed
qed

text \<open>A client that drains the buffer has been handed every element once.\<close>

lemma exec_drained:
  assumes "exec_ops push pop ops s = Some (ins, outs, s')" and "ok s"
    and "content s = {#}" and "pop r s' = Some (None, s'')"
  shows "mset ins = mset outs"
  using exec_conserves [OF assms(1,2)] pop_none [of s' r s''] assms(3,4) by simp

end

text \<open>A buffer that hands out its elements in the order in which it stored them.\<close>

locale fifo = buffer push pop "\<lambda>s. mset (line s)" ok
  for push :: "'x \<Rightarrow> 's \<Rightarrow> (bool \<times> 's) option" and pop :: "'r \<Rightarrow> 's \<Rightarrow> ('x option \<times> 's) option"
    and line :: "'s \<Rightarrow> 'x list" and ok :: "'s \<Rightarrow> bool" +
  assumes push_last: "ok s \<Longrightarrow> push x s = Some (b, s') \<Longrightarrow> line s' = (if b then line s @ [x] else line s)"
    and pop_first: "ok s \<Longrightarrow> pop r s = Some (Some x, s') \<Longrightarrow> line s = x # line s'"
begin

lemma exec_in_order:
  assumes "exec_ops push pop ops s = Some (ins, outs, s')" and "ok s"
  shows "line s @ ins = outs @ line s'"
  using assms
proof (induction ops arbitrary: s ins outs)
  case Nil
  then show ?case by simp
next
  case (Cons op ops)
  show ?case
  proof (cases op)
    case (Push x)
    with Cons.prems obtain b t ins' where 1: "push x s = Some (b, t)"
      "exec_ops push pop ops t = Some (ins', outs, s')" "ins = (if b then x # ins' else ins')"
      by (auto elim!: bindE)
    have "ok t" using push_any [OF Cons.prems(2) 1(1)] by simp
    with Cons.IH [OF 1(2)] push_last [OF Cons.prems(2) 1(1)] 1(3) show ?thesis by auto
  next
    case (Pop r)
    with Cons.prems obtain y t outs' where 1: "pop r s = Some (y, t)"
      "exec_ops push pop ops t = Some (ins, outs', s')" "outs = (case y of None \<Rightarrow> outs' | Some x \<Rightarrow> x # outs')"
      by (auto elim!: bindE)
    show ?thesis
    proof (cases y)
      case None
      then have "ok t \<and> mset (line s) = {#} \<and> mset (line t) = {#}" using pop_none 1(1) Cons.prems(2) by blast
      with Cons.IH [OF 1(2)] 1(3) None show ?thesis by simp
    next
      case (Some x)
      then have "line s = x # line t" "ok t" using pop_first pop_some 1(1) Cons.prems(2) by blast+
      with Cons.IH [OF 1(2)] 1(3) Some show ?thesis by simp
    qed
  qed
qed

end

end
