(* ===== verification/Threadsafe_Queue.thy ===== *)
theory Threadsafe_Queue imports Buffer begin

text \<open>
  threadsafe_queue.h: a ring buffer whose \<open>PopRandom\<close> is meant to hand out the entries in a random
  order. Both operations run under the object's mutex; the null-pointer tests are the caller's
  side. \<open>random()\<close> is an argument. The indices are C's \<open>int64\<close>.
\<close>

record 'a ts_queue =
  objects :: "'a list"
  nextin :: int
  nextout :: int
  q_size :: int
  pushed :: int
  popped :: int

text \<open>C's remainder, which is undefined for a zero divisor.\<close>

definition c_rem :: "int \<Rightarrow> int \<Rightarrow> int option" where
  "c_rem a b = (if b = 0 then None else Some (sgn a * (\<bar>a\<bar> mod \<bar>b\<bar>)))"

text \<open>\<open>new T[n]\<close> with a negative \<open>n\<close> throws; the new memory holds anything.\<close>

definition ThreadsafeQueue_new :: "(nat \<Rightarrow> 'a) \<Rightarrow> 64 word \<Rightarrow> 'a ts_queue option" where
  "ThreadsafeQueue_new junk queuesize = do {
     let n = sint (queuesize + 1);
     check (0 \<le> n);
     Some \<lparr>objects = map junk [0..<nat n], nextin = 0, nextout = 0, q_size = n, pushed = 0, popped = 0\<rparr> }"

definition Push_obj :: "'a \<Rightarrow> 'a ts_queue \<Rightarrow> (bool \<times> 'a ts_queue) option" where
  "Push_obj obj q = do {
     nextnextin \<leftarrow> c_rem (nextin q + 1) (q_size q);
     if nextnextin \<noteq> nextout q then do {
       os \<leftarrow> wrz (objects q) (nextin q) obj;
       Some (True, q\<lparr>objects := os, nextin := nextnextin, pushed := pushed q + 1\<rparr>) }
     else Some (False, q) }"

text \<open>The place of the entry to hand out.\<close>

definition newindex :: "int \<Rightarrow> int \<Rightarrow> 'a ts_queue \<Rightarrow> int option" where
  "newindex rand entries q =
     (if entries \<noteq> 0 then do { r \<leftarrow> c_rem rand entries; c_rem (r + nextout q) (q_size q) }
      else Some (nextout q))"

definition PopRandom :: "int \<Rightarrow> 'a ts_queue \<Rightarrow> ('a option \<times> 'a ts_queue) option" where
  "PopRandom rand q =
     (if nextin q \<noteq> nextout q then do {
        lastin \<leftarrow> c_rem (nextin q - 1 + q_size q) (q_size q);
        entries \<leftarrow> c_rem (lastin - nextout q + q_size q) (q_size q);
        new \<leftarrow> newindex rand entries q;
        tmp \<leftarrow> rdz (objects q) (nextout q);
        x \<leftarrow> rdz (objects q) new;
        os \<leftarrow> wrz (objects q) (nextout q) x;
        os \<leftarrow> wrz os new tmp;
        obj \<leftarrow> rdz os (nextout q);
        nextout' \<leftarrow> c_rem (nextout q + 1) (q_size q);
        Some (Some obj, q\<lparr>objects := os, nextout := nextout', popped := popped q + 1\<rparr>) }
      else Some (None, q))"

section \<open>The entries in their order\<close>

definition count_of :: "'a ts_queue \<Rightarrow> nat" where
  "count_of q = nat ((nextin q - nextout q) mod q_size q)"

definition entries_of :: "'a ts_queue \<Rightarrow> 'a list" where
  "entries_of q = take (count_of q) (rotate (nat (nextout q)) (objects q))"

definition ring_ok :: "'a ts_queue \<Rightarrow> bool" where
  "ring_ok q \<longleftrightarrow> 0 < q_size q \<and> int (length (objects q)) = q_size q \<and>
     0 \<le> nextin q \<and> nextin q < q_size q \<and> 0 \<le> nextout q \<and> nextout q < q_size q"

lemma c_rem_pos: "0 \<le> a \<Longrightarrow> 0 < b \<Longrightarrow> c_rem a b = Some (a mod b)"
  by (cases "a = 0") (simp_all add: c_rem_def)

text \<open>Such a state in natural numbers: a ring of \<open>N\<close> places, \<open>k\<close> entries from place \<open>p\<close> on.\<close>

lemma ring_nat:
  assumes "ring_ok q"
  obtains N p k where "0 < N" "length (objects q) = N" "q_size q = int N" "nextout q = int p" "p < N"
    "nextin q = int ((p + k) mod N)" "k < N" "count_of q = k"
proof -
  let ?N = "nat (q_size q)" and ?p = "nat (nextout q)" and ?k = "count_of q"
  have N: "0 < ?N" "q_size q = int ?N" "length (objects q) = ?N" "nextout q = int ?p" "?p < ?N"
    using assms by (auto simp: ring_ok_def)
  have k: "int ?k = (nextin q - nextout q) mod q_size q" "?k < ?N"
    using assms by (auto simp: ring_ok_def count_of_def nat_less_iff)
  have "int ((?p + ?k) mod ?N) = (nextout q + (nextin q - nextout q) mod q_size q) mod q_size q"
    using N(2,4) k(1) by (simp add: zmod_int)
  also have "\<dots> = nextin q" using assms by (simp add: ring_ok_def mod_add_right_eq)
  finally show thesis using that [of ?N ?p ?k] N k by simp
qed

lemma count_ring:
  assumes "nextin q = int ((p + k) mod N)" "nextout q = int p" "q_size q = int N" "k < N"
  shows "count_of q = k"
proof -
  have "(int ((p + k) mod N) - int p) mod int N = int (p + k - p) mod int N"
    by (simp add: zmod_int mod_diff_left_eq)
  also have "\<dots> = int k" using assms(4) by (simp add: zmod_int [symmetric])
  finally show ?thesis using assms by (simp add: count_of_def)
qed

lemma nth_entries:
  assumes "0 < N" "length (objects q) = N" "nextout q = int p" "count_of q = k" "k < N" "i < k"
  shows "entries_of q ! i = objects q ! ((p + i) mod N)"
  using assms by (simp add: entries_of_def nth_rotate)

lemma length_entries: "ring_ok q \<Longrightarrow> length (entries_of q) = count_of q"
  by (erule ring_nat) (simp add: entries_of_def)

lemma count_lt: "ring_ok q \<Longrightarrow> int (count_of q) < q_size q"
  by (erule ring_nat) simp

lemma ring_index_inj: "p < N \<Longrightarrow> i < N \<Longrightarrow> j < N \<Longrightarrow> (p + i) mod N = (p + j) mod N \<longleftrightarrow> i = j" for N :: nat
  by (auto dest!: mod_eq_dvd_iff_nat [THEN iffD1, rotated] simp: nat_mod_eq_iff mod_if split: if_splits)

lemma ring_next: "p < N \<Longrightarrow> k < N \<Longrightarrow> (p + Suc k) mod N = p \<longleftrightarrow> Suc k = N" for N :: nat
  using ring_index_inj [of p N "Suc k" 0] by (cases "Suc k = N") auto

lemma Push_spec:
  assumes "ring_ok q"
  shows "if int (Suc (count_of q)) < q_size q
    then \<exists>q'. Push_obj x q = Some (True, q') \<and> ring_ok q' \<and> entries_of q' = entries_of q @ [x] \<and> q_size q' = q_size q
    else Push_obj x q = Some (False, q)"
  using assms
proof (rule ring_nat)
  fix N p k
  assume N: "0 < N" "length (objects q) = N" "q_size q = int N" "nextout q = int p" "p < N"
    and k: "nextin q = int ((p + k) mod N)" "k < N" "count_of q = k"
  have "c_rem (int ((p + k) mod N) + 1) (int N) = Some ((int ((p + k) mod N) + 1) mod int N)"
    using N(1) by (intro c_rem_pos) auto
  also have "(int ((p + k) mod N) + 1) mod int N = int ((p + Suc k) mod N)"
    by (simp add: zmod_int mod_add_left_eq mod_add_right_eq ac_simps)
  finally have c: "c_rem (nextin q + 1) (q_size q) = Some (int ((p + Suc k) mod N))" by (simp add: N k)
  show ?thesis
  proof (cases "Suc k < N")
    case True
    let ?j = "(p + k) mod N"
    let ?q = "q\<lparr>objects := (objects q)[?j := x], nextin := int ((p + Suc k) mod N), pushed := pushed q + 1\<rparr>"
    have "(p + Suc k) mod N \<noteq> p" using ring_next [OF N(5) k(2)] True by simp
    then have P: "Push_obj x q = Some (True, ?q)"
      using c N k by (simp add: Push_obj_def wr_def)
    have ok: "ring_ok ?q" using N by (simp add: ring_ok_def nat_less_iff)
    have cnt: "count_of ?q = Suc k" using count_ring [of ?q p "Suc k" N] N True by simp
    have "entries_of ?q = entries_of q @ [x]"
    proof (rule nth_equalityI)
      show "length (entries_of ?q) = length (entries_of q @ [x])"
        using length_entries [OF ok] length_entries [OF assms] cnt k by simp
      fix i assume "i < length (entries_of ?q)"
      then have i: "i < Suc k" using length_entries [OF ok] cnt by simp
      have "entries_of ?q ! i = objects ?q ! ((p + i) mod N)"
        using N True i cnt by (intro nth_entries [of N _ p "Suc k"]) simp_all
      also have "\<dots> = (if i = k then x else objects q ! ((p + i) mod N))"
        using ring_index_inj [OF N(5), of k i] i k N by (auto simp: nth_list_update)
      also have "\<dots> = (entries_of q @ [x]) ! i"
        using nth_entries [OF N(1,2,4) k(3,2), of i] length_entries [OF assms] i k by (simp add: nth_append)
      finally show "entries_of ?q ! i = (entries_of q @ [x]) ! i" .
    qed
    then show ?thesis using P ok True N k by simp
  next
    case False
    then have "Suc k = N" using k by simp
    then have "(p + Suc k) mod N = p" using ring_next [OF N(5) k(2)] by simp
    then show ?thesis using c False N k by (simp add: Push_obj_def)
  qed
qed

text \<open>Which entry a random number selects, counted from the oldest.\<close>

definition selected :: "int \<Rightarrow> nat \<Rightarrow> nat" where
  "selected rand k = (if k \<le> 1 then 0 else nat (rand mod int (k - 1)))"

lemma selected_not_last: "1 < k \<Longrightarrow> selected rand k < k - 1"
  using pos_mod_bound [of "int (k - 1)" rand] by (simp add: selected_def nat_less_iff del: pos_mod_bound)

lemma selected_less: "0 < k \<Longrightarrow> selected rand k < k"
  using selected_not_last [of k rand] by (cases "1 < k") (simp_all add: selected_def)

lemma PopRandom_spec:
  assumes "ring_ok q" "0 \<le> rand"
  shows "if count_of q = 0 then PopRandom rand q = Some (None, q)
    else \<exists>q'. PopRandom rand q = Some (Some (entries_of q ! selected rand (count_of q)), q') \<and> ring_ok q' \<and>
      entries_of q' = tl ((entries_of q)[selected rand (count_of q) := hd (entries_of q)]) \<and> q_size q' = q_size q"
  using assms(1)
proof (rule ring_nat)
  fix N p k
  assume N: "0 < N" "length (objects q) = N" "q_size q = int N" "nextout q = int p" "p < N"
    and k: "nextin q = int ((p + k) mod N)" "k < N" "count_of q = k"
  show ?thesis
  proof (cases "k = 0")
    case True
    then show ?thesis using N k by (simp add: PopRandom_def)
  next
    case False
    let ?E = "entries_of q" and ?j = "selected rand k"
    have ne: "(p + k) mod N \<noteq> p" using ring_index_inj [OF N(5) k(2) N(1)] False N by simp
    have j: "?j < k" using selected_less False by simp
    have "c_rem (nextin q - 1 + q_size q) (q_size q) = Some ((nextin q - 1 + q_size q) mod q_size q)"
      using N k by (intro c_rem_pos) auto
    also have "(nextin q - 1 + q_size q) mod q_size q = (int (p + k) mod int N - 1) mod int N"
      by (simp add: N(3) k(1) zmod_int)
    also have "\<dots> = (int (p + k) - 1) mod int N" by (rule mod_diff_left_eq)
    also have "int (p + k) - 1 = int (p + (k - 1))" using False by simp
    also have "int (p + (k - 1)) mod int N = int ((p + (k - 1)) mod N)" by (simp only: zmod_int)
    finally have l: "c_rem (nextin q - 1 + q_size q) (q_size q) = Some (int ((p + (k - 1)) mod N))" .
    have "c_rem (int ((p + (k - 1)) mod N) - int p + int N) (int N) = Some ((int ((p + (k - 1)) mod N) - int p + int N) mod int N)"
      using N by (intro c_rem_pos) auto
    also have "(int ((p + (k - 1)) mod N) - int p + int N) mod int N = (int ((p + (k - 1)) mod N) - int p) mod int N" by simp
    also have "\<dots> = (int (p + (k - 1)) - int p) mod int N" by (simp only: zmod_int mod_diff_left_eq)
    also have "\<dots> = int (k - 1)" using k(2) by (simp add: zmod_int [symmetric])
    finally have e: "c_rem (int ((p + (k - 1)) mod N) - int p + int N) (int N) = Some (int (k - 1))" .
    have n: "newindex rand (int (k - 1)) q = Some (int ((p + ?j) mod N))"
    proof (cases "k = 1")
      case True
      then show ?thesis using N by (simp add: selected_def newindex_def)
    next
      case False
      then have "c_rem rand (int (k - 1)) = Some (rand mod int (k - 1))"
        using assms(2) j by (intro c_rem_pos) auto
      moreover have r: "rand mod int (k - 1) = int ?j" using False j by (auto simp: selected_def)
      moreover have "c_rem (int ?j + int p) (int N) = Some (int ((p + ?j) mod N))"
        using N by (subst c_rem_pos) (simp_all add: zmod_int add.commute)
      ultimately show ?thesis using False j N by (simp add: newindex_def)
    qed
    let ?i = "(p + ?j) mod N"
    let ?os = "(objects q)[p := objects q ! ?i, ?i := objects q ! p]"
    have i: "?i < N" using N by simp
    have x: "?os ! p = objects q ! ?i" using N i by (cases "?i = p") simp_all
    have "c_rem (int p + 1) (int N) = Some (int (Suc p mod N))"
      using N by (subst c_rem_pos) (simp_all add: zmod_int add.commute)
    then have P: "PopRandom rand q = Some (Some (objects q ! ?i), q\<lparr>objects := ?os, nextout := int (Suc p mod N), popped := popped q + 1\<rparr>)"
      (is "_ = Some (_, ?q)")
      using N k ne l e n x i by (simp add: PopRandom_def rd_def wr_def del: of_nat_diff One_nat_def)
    have ok: "ring_ok ?q" using N k by (simp add: ring_ok_def nat_less_iff)
    have "(Suc p mod N + (k - 1)) mod N = (Suc p + (k - 1)) mod N" by (rule mod_add_left_eq)
    also have "Suc p + (k - 1) = p + k" using False by simp
    finally have "(Suc p mod N + (k - 1)) mod N = (p + k) mod N" .
    then have cnt: "count_of ?q = k - 1"
      using count_ring [of ?q "Suc p mod N" "k - 1" N] N k by simp
    have "entries_of ?q = tl (?E[?j := hd ?E])"
    proof (rule nth_equalityI)
      show len: "length (entries_of ?q) = length (tl (?E[?j := hd ?E]))"
        using length_entries [OF ok] length_entries [OF assms(1)] cnt k by simp
      fix a assume "a < length (entries_of ?q)"
      then have a: "Suc a < k" using length_entries [OF ok] cnt by simp
      have hd: "hd ?E = objects q ! p"
        using nth_entries [OF N(1,2,4) k(3,2), of 0] False N length_entries [OF assms(1)] k
        by (cases ?E) auto
      have "entries_of ?q ! a = ?os ! ((Suc p mod N + a) mod N)"
        using N k a cnt by (subst nth_entries [of N _ "Suc p mod N" "k - 1"]) simp_all
      also have "(Suc p mod N + a) mod N = (p + Suc a) mod N" by (simp add: mod_add_left_eq)
      also have "?os ! \<dots> = (if Suc a = ?j then objects q ! p else objects q ! ((p + Suc a) mod N))"
        using ring_index_inj [OF N(5), of ?j "Suc a"] ring_index_inj [OF N(5), of "Suc a" 0] a j k N
        by (auto simp: nth_list_update)
      also have "\<dots> = tl (?E[?j := hd ?E]) ! a"
        using nth_entries [OF N(1,2,4) k(3,2) a] a k length_entries [OF assms(1)] hd
        by (simp add: nth_tl nth_list_update)
      finally show "entries_of ?q ! a = tl (?E[?j := hd ?E]) ! a" .
    qed
    moreover have "objects q ! ?i = ?E ! ?j" using nth_entries [OF N(1,2,4) k(3,2) j] by simp
    ultimately show ?thesis using P ok False k by simp
  qed
qed

section \<open>The queue as a buffer\<close>

lemma mset_swap_out:
  assumes "j < length xs"
  shows "mset xs = add_mset (xs ! j) (mset (tl (xs[j := hd xs])))"
proof (cases xs)
  case (Cons y ys)
  show ?thesis
  proof (cases j)
    case (Suc i)
    then have "i < length ys" using assms Cons by simp
    then have "mset ys = add_mset (ys ! i) (mset ys - {#ys ! i#})" by simp
    then show ?thesis using Cons Suc \<open>i < length ys\<close> by (simp add: mset_update)
  qed (simp add: Cons)
qed (use assms in simp)

lemma entries_nonempty: "ring_ok q \<Longrightarrow> count_of q \<noteq> 0 \<Longrightarrow> entries_of q \<noteq> []"
  using length_entries [of q] by auto

interpretation ring: buffer Push_obj "\<lambda>r. PopRandom (int r)" "\<lambda>q. mset (entries_of q)" "\<lambda>q. ring_ok q \<and> q_size q = m" for m
proof unfold_locales
  fix x :: 'a and s s' :: "'a ts_queue" assume ok: "ring_ok s \<and> q_size s = m"
  then have "ring_ok s" by simp
  note spec = Push_spec [OF this, of x]
  show "Push_obj x s = Some (True, s') \<Longrightarrow> (ring_ok s' \<and> q_size s' = m) \<and> mset (entries_of s') = add_mset x (mset (entries_of s))"
    using spec ok by (auto split: if_splits)
  show "Push_obj x s = Some (False, s') \<Longrightarrow> (ring_ok s' \<and> q_size s' = m) \<and> mset (entries_of s') = mset (entries_of s)"
    using spec ok by (auto split: if_splits)
next
  fix r :: nat and x :: 'a and s s' :: "'a ts_queue" assume ok: "ring_ok s \<and> q_size s = m"
  then have ok': "ring_ok s" by simp
  let ?j = "selected (int r) (count_of s)"
  show "PopRandom (int r) s = Some (Some x, s') \<Longrightarrow>
    (ring_ok s' \<and> q_size s' = m) \<and> mset (entries_of s) = add_mset x (mset (entries_of s'))"
  proof (cases "count_of s = 0")
    case False
    then have "mset (entries_of s) = add_mset (entries_of s ! ?j) (mset (tl ((entries_of s)[?j := hd (entries_of s)])))"
      using mset_swap_out [of ?j "entries_of s"] length_entries [OF ok'] selected_less [of "count_of s" "int r"] by simp
    then show "PopRandom (int r) s = Some (Some x, s') \<Longrightarrow>
        (ring_ok s' \<and> q_size s' = m) \<and> mset (entries_of s) = add_mset x (mset (entries_of s'))"
      using PopRandom_spec [OF ok', of "int r"] False ok by auto
  qed (use PopRandom_spec [OF ok', of "int r"] in simp)
  show "PopRandom (int r) s = Some (None, s') \<Longrightarrow>
    (ring_ok s' \<and> q_size s' = m) \<and> mset (entries_of s) = {#} \<and> mset (entries_of s') = {#}"
    using PopRandom_spec [OF ok', of "int r"] length_entries [OF ok'] ok by (auto split: if_splits)
qed

lemma ring_exec_returns:
  "ring_ok q \<Longrightarrow> \<exists>ins outs q'. exec_ops Push_obj (\<lambda>r. PopRandom (int r)) ops q = Some (ins, outs, q')"
proof (induction ops arbitrary: q)
  case (Cons op ops)
  show ?case
  proof (cases op)
    case (Push x)
    obtain b q' where "Push_obj x q = Some (b, q')" "ring_ok q'"
      using Push_spec [OF Cons.prems, of x] Cons.prems by (auto split: if_splits)
    then show ?thesis using Cons.IH [of q'] Push by auto
  next
    case (Pop r)
    obtain y q' where "PopRandom (int r) q = Some (y, q')" "ring_ok q'"
      using PopRandom_spec [OF Cons.prems, of "int r"] Cons.prems by (auto split: if_splits)
    then show ?thesis using Cons.IH [of q'] Pop by auto
  qed
qed simp

lemma new_ring:
  assumes "ThreadsafeQueue_new junk n = Some q" "n + 1 \<noteq> 0"
  shows "ring_ok q \<and> entries_of q = [] \<and> q_size q = uint n + 1"
proof -
  have s: "0 \<le> sint (n + 1)" "q = \<lparr>objects = map junk [0..<nat (sint (n + 1))], nextin = 0, nextout = 0, q_size = sint (n + 1), pushed = 0, popped = 0\<rparr>"
    using assms(1) by (auto simp: ThreadsafeQueue_new_def Let_def check_def split: if_splits)
  then have "sint (n + 1) = uint (n + 1)"
    using sint_lt [of "n + 1"] by (simp add: uint_sint take_bit_int_eq_self)
  moreover have "uint (n + 1) = uint n + 1"
  proof (rule ccontr)
    assume "uint (n + 1) \<noteq> uint n + 1"
    then have "uint (n + 1) = uint n + 1 - 2 ^ 64" using uint_plus_if' [of n 1] by (simp split: if_splits)
    then have "uint (n + 1) = 0" using uint_lt2p [of n] uint_ge_0 [of "n + 1"] by simp
    then show False using assms(2) by (simp add: uint_0_iff)
  qed
  ultimately show ?thesis using s by (simp add: ring_ok_def entries_of_def count_of_def)
qed

text \<open>C23. A client that pushes and pops at will (with any random numbers) never gets the queue stuck and
  gets back what it stored: the values accepted are the values handed out together with those
  still inside, as bags; at most \<open>queuesize\<close> entries are inside, and \<open>Push\<close> refuses exactly when that
  many are.\<close>

theorem ThreadsafeQueue_conserves:
  assumes "ThreadsafeQueue_new junk n = Some q" and "n + 1 \<noteq> 0"
  shows "\<exists>ins outs q' b p. exec_ops Push_obj (\<lambda>r. PopRandom (int r)) ops q = Some (ins, outs, q') \<and>
    mset ins = mset outs + mset (entries_of q') \<and> length (entries_of q') \<le> unat n \<and>
    Push_obj x q' = Some (b, p) \<and> (b \<longleftrightarrow> length (entries_of q') < unat n)"
proof -
  have q: "ring_ok q \<and> q_size q = uint n + 1" "entries_of q = []" using new_ring [OF assms] by simp_all
  then obtain ins outs q' where e: "exec_ops Push_obj (\<lambda>r. PopRandom (int r)) ops q = Some (ins, outs, q')"
    using ring_exec_returns by blast
  from ring.exec_conserves [OF e, of "uint n + 1"] q
  have q': "ring_ok q'" "q_size q' = int (unat n) + 1" "mset ins = mset outs + mset (entries_of q')" by auto
  have "int (length (entries_of q')) < q_size q'"
    using length_entries [OF q'(1)] count_lt [OF q'(1)] by simp
  then have "length (entries_of q') \<le> unat n" using q'(2) by linarith
  moreover have "int (Suc (count_of q')) < q_size q' \<longleftrightarrow> length (entries_of q') < unat n"
    using q'(2) length_entries [OF q'(1)] by linarith
  then have "\<exists>b p. Push_obj x q' = Some (b, p) \<and> (b \<longleftrightarrow> length (entries_of q') < unat n)"
    using Push_spec [OF q'(1), of x] by (auto split: if_splits)
  ultimately show ?thesis using e q'(3) by blast
qed

theorem ThreadsafeQueue_conserves_witness:
  "\<exists>q ins outs q'. ThreadsafeQueue_new (\<lambda>_. 0 :: int) 2 = Some q \<and>
    exec_ops Push_obj (\<lambda>r. PopRandom (int r)) [Push 5, Push 7, Push 9, Pop 4] q = Some (ins, outs, q') \<and>
    mset ins = mset outs + mset (entries_of q')"
proof -
  have "ThreadsafeQueue_new (\<lambda>_. 0 :: int) 2 = Some \<lparr>objects = [0, 0, 0], nextin = 0, nextout = 0, q_size = 3, pushed = 0, popped = 0\<rparr>"
    by (simp add: ThreadsafeQueue_new_def upt_rec numeral_3_eq_3)
  then obtain q where q: "ThreadsafeQueue_new (\<lambda>_. 0 :: int) 2 = Some q" by blast
  then show ?thesis
    using ThreadsafeQueue_conserves [OF q, of "[Push 5, Push 7, Push 9, Pop 4]" 0] by (simp del: exec_ops.simps) blast
qed

text \<open>The fetch is not random over all entries: with two or more entries inside, no random number
  makes \<open>PopRandom\<close> hand out the most recently pushed one, which stays the most recent.\<close>

lemma PopRandom_spares_newest:
  assumes "ring_ok q" "1 < length (entries_of q)" "0 \<le> rand"
  shows "\<exists>j q'. PopRandom rand q = Some (Some (entries_of q ! j), q') \<and> j < length (entries_of q) - 1 \<and>
    last (entries_of q') = last (entries_of q) \<and> length (entries_of q') = length (entries_of q) - 1"
proof -
  let ?E = "entries_of q" and ?j = "selected rand (count_of q)"
  have k: "length ?E = count_of q" using length_entries [OF assms(1)] .
  then have j: "?j < length ?E - 1" using selected_not_last assms(2) by simp
  obtain q' where q': "PopRandom rand q = Some (Some (?E ! ?j), q')" "entries_of q' = tl (?E[?j := hd ?E])"
    using PopRandom_spec [OF assms(1,3)] assms(2) k by (auto split: if_splits)
  have ne: "tl (?E[?j := hd ?E]) \<noteq> []" using assms(2) by (cases ?E) (auto split: nat.splits)
  then have "last (tl (?E[?j := hd ?E])) = last (?E[?j := hd ?E])" by (simp add: last_tl)
  also have "\<dots> = ?E[?j := hd ?E] ! (length ?E - 1)" using assms(2) by (subst last_conv_nth) auto
  also have "\<dots> = last ?E" using j assms(2) by (subst last_conv_nth) auto
  finally show ?thesis using q' j by (intro exI) auto
qed

end
