(* ===== verification/Queue.thy ===== *)
theory Queue imports Buffer begin

text \<open>
  queue.h: a queue behind a mutex and three condition variables, after Python's \<open>Queue\<close>. The
  stored values are the non-null pointers that the callers put.

  A call locks the mutex, runs a critical section and ends in a \<open>reply\<close>: it returns (\<open>Stored\<close>,
  \<open>Refused\<close> for put's \<open>true\<close> and \<open>false\<close>; \<open>Handed\<close>, \<open>Nothing\<close> for get's pointer and \<open>NULL\<close>; \<open>Done\<close>,
  \<open>Joined\<close>), or it goes to sleep on a condition variable with what it will look at when it is woken
  (\<open>Waits\<close>). A section is a function of the clock and the queue that also says which condition
  variable it signals; \<open>None\<close> is a fatal log message or a failed CHECK. The locking calls
  themselves succeed. The inductive relation \<open>step\<close> interleaves the sections of any number of
  threads, with the sleeping and the woken threads of POSIX condition variables, spurious
  wake-ups included.
\<close>


record 'a queue =
  maxsize :: u64
  unfinished_tasks :: int
  items :: "'a list"

datatype cond = All_tasks_done | Not_empty | Not_full

datatype notice = Silence | Signal cond | Broadcast cond

text \<open>What a sleeping thread was doing; the number is the end of its waiting time.\<close>

datatype 'a call = Putting 'a "int option" | Getting "int option" | Joining

fun waits_for :: "'a call \<Rightarrow> cond" where
  "waits_for (Putting v e) = Not_full"
| "waits_for (Getting e) = Not_empty"
| "waits_for Joining = All_tasks_done"

datatype 'a reply =
  Stored 'a | Refused | Handed 'a | Nothing | Done | Joined | Waits "'a call"

type_synonym 'a turn = "('a reply \<times> 'a queue \<times> notice) option"

section \<open>Operations\<close>

definition Queue_new :: "u64 \<Rightarrow> 'a queue" where
  "Queue_new n = \<lparr>maxsize = n, unfinished_tasks = 0, items = []\<rparr>"

definition qsize :: "'a queue \<Rightarrow> int" where
  "qsize q = sint (of_nat (length (items q)) :: 32 word)"

definition Queue_delete :: "'a queue \<Rightarrow> unit option" where
  "Queue_delete q = check (qsize q = 0)"

definition empty_queue :: "'a queue \<Rightarrow> bool" where
  "empty_queue q = (if length (items q) > 0 then False else True)"

definition at_max :: "'a queue \<Rightarrow> bool" where
  "at_max q \<longleftrightarrow> (of_nat (length (items q)) :: u64) = maxsize q"

definition full :: "'a queue \<Rightarrow> bool" where
  "full q \<longleftrightarrow> 0 < (of_bool (at_max q) :: int)"

definition task_done :: "'a queue \<Rightarrow> 'a turn" where
  "task_done q =
     (let unfinished = unfinished_tasks q - 1 in
      if unfinished \<le> 0 then do {
        check (\<not> unfinished < 0);
        Some (Done, q\<lparr>unfinished_tasks := unfinished\<rparr>, Broadcast All_tasks_done) }
      else Some (Done, q\<lparr>unfinished_tasks := unfinished\<rparr>, Silence))"

definition join :: "'a queue \<Rightarrow> 'a turn" where
  "join q = Some (if unfinished_tasks q > 0 then Waits Joining else Joined, q, Silence)"

text \<open>The end of \<open>put\<close>; the counter is a C int, whose overflow is undefined.\<close>

definition put_store :: "'a \<Rightarrow> 'a queue \<Rightarrow> 'a turn" where
  "put_store v q = do {
     check (unfinished_tasks q < 2 ^ 31 - 1);
     Some (Stored v, q\<lparr>items := items q @ [v], unfinished_tasks := unfinished_tasks q + 1\<rparr>, Signal Not_empty) }"

text \<open>The head of the two waiting loops of \<open>put\<close>; \<open>now\<close> is what \<open>time(NULL)\<close> returns.\<close>

definition put_wait :: "'a \<Rightarrow> int option \<Rightarrow> int \<Rightarrow> 'a queue \<Rightarrow> 'a turn" where
  "put_wait v endtime now q =
     (if at_max q
      then case endtime of
          None \<Rightarrow> Some (Waits (Putting v endtime), q, Silence)
        | Some e \<Rightarrow> Some (if e - now \<le> 0 then Refused else Waits (Putting v endtime), q, Silence)
      else put_store v q)"

definition put :: "'a \<Rightarrow> bool \<Rightarrow> int \<Rightarrow> int \<times> int \<Rightarrow> 'a queue \<Rightarrow> 'a turn" where
  "put v block timeout clock q =
     (if maxsize q > 0 \<and> \<not> block
      then if at_max q then Some (Refused, q, Silence)
        else if timeout = 0 then put_wait v None (snd clock) q
        else if timeout < 0 then None
        else put_wait v (Some (fst clock + timeout)) (snd clock) q
      else put_store v q)"

definition put_nowait :: "'a \<Rightarrow> int \<times> int \<Rightarrow> 'a queue \<Rightarrow> 'a turn" where
  "put_nowait v clock q = put v False 0 clock q"

definition get_take :: "'a queue \<Rightarrow> 'a turn" where
  "get_take q = (case items q of [] \<Rightarrow> None | x # xs \<Rightarrow> Some (Handed x, q\<lparr>items := xs\<rparr>, Signal Not_full))"

definition get_wait :: "int option \<Rightarrow> int \<Rightarrow> 'a queue \<Rightarrow> 'a turn" where
  "get_wait endtime now q =
     (if length (items q) = 0
      then case endtime of
          None \<Rightarrow> Some (Waits (Getting endtime), q, Silence)
        | Some e \<Rightarrow> Some (if e - now \<le> 0 then Nothing else Waits (Getting endtime), q, Silence)
      else get_take q)"

definition get :: "bool \<Rightarrow> int \<Rightarrow> int \<times> int \<Rightarrow> 'a queue \<Rightarrow> 'a turn" where
  "get block timeout clock q =
     (if \<not> block then if length (items q) = 0 then Some (Nothing, q, Silence) else get_take q
      else if timeout = 0 then get_wait None (snd clock) q
      else if timeout < 0 then None
      else get_wait (Some (fst clock + timeout)) (snd clock) q)"

definition get_nowait :: "int \<times> int \<Rightarrow> 'a queue \<Rightarrow> 'a turn" where
  "get_nowait clock q = get False 0 clock q"

lemmas put_defs = put_def put_wait_def put_store_def
lemmas get_defs = get_def get_wait_def get_take_def

section \<open>Threads\<close>

datatype 'a request = Put 'a bool int | Get bool int | Task_done | Join

fun perform :: "'a request \<Rightarrow> int \<times> int \<Rightarrow> 'a queue \<Rightarrow> 'a turn" where
  "perform (Put v block timeout) clock q = put v block timeout clock q"
| "perform (Get block timeout) clock q = get block timeout clock q"
| "perform Task_done clock q = task_done q"
| "perform Join clock q = join q"

text \<open>A thread that is woken looks again at the condition of its waiting loop.\<close>

fun recheck :: "'a call \<Rightarrow> int \<Rightarrow> 'a queue \<Rightarrow> 'a turn" where
  "recheck (Putting v e) now q = put_wait v e now q"
| "recheck (Getting e) now q = get_wait e now q"
| "recheck Joining now q = join q"

record ('t, 'a) monitor =
  mqueue :: "'a queue"
  sleeping :: "'t \<Rightarrow> 'a call option"
  woken :: "'t \<Rightarrow> 'a call option"

definition fresh :: "u64 \<Rightarrow> ('t, 'a) monitor" where
  "fresh n = \<lparr>mqueue = Queue_new n, sleeping = Map.empty, woken = Map.empty\<rparr>"

text \<open>Thread \<open>t\<close> leaves the mutex, by returning or by going to sleep.\<close>

definition settle :: "'t \<Rightarrow> 'a reply \<Rightarrow> 'a queue \<Rightarrow> ('t, 'a) monitor \<Rightarrow> ('t, 'a) monitor" where
  "settle t r q s = s\<lparr>mqueue := q, woken := (woken s)(t := None),
     sleeping := (case r of Waits c \<Rightarrow> (sleeping s)(t \<mapsto> c) | _ \<Rightarrow> sleeping s)\<rparr>"

definition wake :: "'t \<Rightarrow> ('t, 'a) monitor \<Rightarrow> ('t, 'a) monitor" where
  "wake t s = s\<lparr>sleeping := (sleeping s)(t := None), woken := (woken s)(t := sleeping s t)\<rparr>"

definition sleepers :: "cond \<Rightarrow> ('t, 'a) monitor \<Rightarrow> 't set" where
  "sleepers c s = {t. \<exists>k. sleeping s t = Some k \<and> waits_for k = c}"

definition wake_all :: "cond \<Rightarrow> ('t, 'a) monitor \<Rightarrow> ('t, 'a) monitor" where
  "wake_all c s = s\<lparr>
     sleeping := (\<lambda>t. case sleeping s t of Some k \<Rightarrow> if waits_for k = c then None else Some k | None \<Rightarrow> None),
     woken := (\<lambda>t. case sleeping s t of Some k \<Rightarrow> if waits_for k = c then Some k else woken s t | None \<Rightarrow> woken s t)\<rparr>"

inductive notified :: "notice \<Rightarrow> ('t, 'a) monitor \<Rightarrow> ('t, 'a) monitor \<Rightarrow> bool" where
  silence: "notified Silence s s"
| signal: "t \<in> sleepers c s \<Longrightarrow> notified (Signal c) s (wake t s)"
| signal_none: "sleepers c s = {} \<Longrightarrow> notified (Signal c) s s"
| broadcast: "notified (Broadcast c) s (wake_all c s)"

text \<open>
  A step of the program, labelled with the reply. A thread only starts a call when it is not in
  one; \<open>allowed\<close> restricts the calls that the program makes.
\<close>

inductive step :: "('a request \<Rightarrow> bool) \<Rightarrow> ('t, 'a) monitor \<Rightarrow> 'a reply option \<Rightarrow> ('t, 'a) monitor \<Rightarrow> bool"
  for allowed :: "'a request \<Rightarrow> bool" where
  enter: "allowed req \<Longrightarrow> sleeping s t = None \<Longrightarrow> woken s t = None \<Longrightarrow>
    perform req clock (mqueue s) = Some (r, q, n) \<Longrightarrow> notified n (settle t r q s) s' \<Longrightarrow> step allowed s (Some r) s'"
| resume: "woken s t = Some k \<Longrightarrow> recheck k now (mqueue s) = Some (r, q, n) \<Longrightarrow>
    notified n (settle t r q s) s' \<Longrightarrow> step allowed s (Some r) s'"
| spurious: "sleeping s t = Some k \<Longrightarrow> step allowed s None (wake t s)"

inductive run :: "('a request \<Rightarrow> bool) \<Rightarrow> ('t, 'a) monitor \<Rightarrow> 'a reply list \<Rightarrow> ('t, 'a) monitor \<Rightarrow> bool"
  for allowed :: "'a request \<Rightarrow> bool" where
  start: "run allowed s [] s"
| visible: "run allowed s tr s' \<Longrightarrow> step allowed s' (Some r) s'' \<Longrightarrow> run allowed s (tr @ [r]) s''"
| hidden: "run allowed s tr s' \<Longrightarrow> step allowed s' None s'' \<Longrightarrow> run allowed s tr s''"

inductive_cases notifiedE: "notified n s s'"
inductive_simps notified_silence: "notified Silence s s'"
inductive_simps notified_signal: "notified (Signal c) s s'"
inductive_simps notified_broadcast: "notified (Broadcast c) s s'"
inductive_cases stepE: "step allowed s l s'"

fun stored :: "'a reply list \<Rightarrow> 'a list" where
  "stored [] = []"
| "stored (Stored v # tr) = v # stored tr"
| "stored (_ # tr) = stored tr"

fun handed :: "'a reply list \<Rightarrow> 'a list" where
  "handed [] = []"
| "handed (Handed v # tr) = v # handed tr"
| "handed (_ # tr) = handed tr"

fun dones :: "'a reply list \<Rightarrow> nat" where
  "dones [] = 0"
| "dones (Done # tr) = Suc (dones tr)"
| "dones (_ # tr) = dones tr"

section \<open>One critical section\<close>

text \<open>What a reply says of the queue before and after, and of the signal.\<close>

fun effect :: "'a queue \<Rightarrow> 'a reply \<Rightarrow> 'a queue \<Rightarrow> notice \<Rightarrow> bool" where
  "effect q (Stored v) q' n \<longleftrightarrow> items q' = items q @ [v] \<and> unfinished_tasks q' = unfinished_tasks q + 1 \<and>
     maxsize q' = maxsize q \<and> n = Signal Not_empty"
| "effect q (Handed v) q' n \<longleftrightarrow> items q = v # items q' \<and> unfinished_tasks q' = unfinished_tasks q \<and>
     maxsize q' = maxsize q \<and> n = Signal Not_full"
| "effect q Done q' n \<longleftrightarrow> items q' = items q \<and> unfinished_tasks q' = unfinished_tasks q - 1 \<and>
     0 < unfinished_tasks q \<and> maxsize q' = maxsize q \<and>
     n = (if unfinished_tasks q' = 0 then Broadcast All_tasks_done else Silence)"
| "effect q Nothing q' n \<longleftrightarrow> q' = q \<and> n = Silence \<and> items q = []"
| "effect q (Waits (Getting e)) q' n \<longleftrightarrow> q' = q \<and> n = Silence \<and> items q = []"
| "effect q (Waits Joining) q' n \<longleftrightarrow> q' = q \<and> n = Silence \<and> 0 < unfinished_tasks q"
| "effect q (Waits (Putting v e)) q' n \<longleftrightarrow> q' = q \<and> n = Silence \<and> at_max q"
| "effect q Joined q' n \<longleftrightarrow> q' = q \<and> n = Silence \<and> unfinished_tasks q \<le> 0"
| "effect q Refused q' n \<longleftrightarrow> q' = q \<and> n = Silence \<and> at_max q"

lemma put_store_effect: "put_store v q = Some (r, q', n) \<Longrightarrow> effect q r q' n \<and> r = Stored v"
  by (auto simp: put_store_def elim!: bindE)

lemma get_take_effect: "get_take q = Some (r, q', n) \<Longrightarrow> effect q r q' n \<and> r = Handed (hd (items q))"
  by (auto simp: get_take_def split: list.splits)

lemma put_wait_effect:
  "put_wait v e now q = Some (r, q', n) \<Longrightarrow> effect q r q' n \<and> (\<not> at_max q \<longrightarrow> r = Stored v)"
  by (auto simp: put_wait_def dest: put_store_effect split: if_splits option.splits)

lemma get_wait_effect:
  "get_wait e now q = Some (r, q', n) \<Longrightarrow> effect q r q' n \<and> r \<in> {Nothing, Waits (Getting e), Handed (hd (items q))}"
  by (auto simp: get_wait_def dest: get_take_effect split: if_splits option.splits)

lemma join_effect: "join q = Some (r, q', n) \<Longrightarrow> effect q r q' n \<and> r \<in> {Joined, Waits Joining}"
  by (auto simp: join_def)

lemma task_done_effect: "task_done q = Some (r, q', n) \<Longrightarrow> effect q r q' n \<and> r = Done"
  by (auto simp: task_done_def Let_def elim!: bindE split: if_splits)

text \<open>\<open>put\<close> never sleeps: it only comes to its waiting loops when the queue is not full.\<close>

lemma put_effect: "put v block timeout clock q = Some (r, q', n) \<Longrightarrow> effect q r q' n \<and> r \<in> {Stored v, Refused}"
  using put_store_effect [of v q r q' n] put_wait_effect [of v _ "snd clock" q r q' n]
  by (auto simp: put_def split: if_splits)

lemma get_effect:
  "get block timeout clock q = Some (r, q', n) \<Longrightarrow>
   effect q r q' n \<and> (r = Nothing \<or> r = Handed (hd (items q)) \<or> (block \<and> (\<exists>e. r = Waits (Getting e))))"
  using get_take_effect [of q r q' n] get_wait_effect [of _ "snd clock" q r q' n]
  by (auto simp: get_def split: if_splits)

lemma perform_effect:
  "perform req clock q = Some (r, q', n) \<Longrightarrow> effect q r q' n \<and> (\<forall>v e. r \<noteq> Waits (Putting v e))"
  using put_effect [of _ _ _ clock q r q' n] get_effect [of _ _ clock q r q' n]
    task_done_effect [of q r q' n] join_effect [of q r q' n]
  by (cases req) auto

lemma recheck_effect: "recheck k now q = Some (r, q', n) \<Longrightarrow> effect q r q' n"
  using put_wait_effect [of _ _ now q r q' n] get_wait_effect [of _ now q r q' n] join_effect [of q r q' n]
  by (cases k) auto

section \<open>Any interleaving\<close>

definition getters :: "('t, 'a) monitor \<Rightarrow> 't set" where
  "getters s = {t. \<exists>e. woken s t = Some (Getting e)}"

text \<open>Nobody waits for room, no thread sleeps and is awake, and finitely many are awake.\<close>

definition parked :: "('t, 'a) monitor \<Rightarrow> bool" where
  "parked s \<longleftrightarrow> finite (dom (woken s)) \<and> dom (sleeping s) \<inter> dom (woken s) = {} \<and>
     (\<forall>t v e. sleeping s t \<noteq> Some (Putting v e) \<and> woken s t \<noteq> Some (Putting v e))"

definition wakeups_ok :: "('t, 'a) monitor \<Rightarrow> bool" where
  "wakeups_ok s \<longleftrightarrow> (sleepers Not_empty s \<noteq> {} \<longrightarrow> length (items (mqueue s)) \<le> card (getters s)) \<and>
     (sleepers All_tasks_done s \<noteq> {} \<longrightarrow> 0 < unfinished_tasks (mqueue s))"

lemma mqueue_notified [simp]: "notified n s s' \<Longrightarrow> mqueue s' = mqueue s"
  by (erule notifiedE) (simp_all add: wake_def wake_all_def)

lemma mqueue_settle [simp]: "mqueue (settle t r q s) = q"
  by (simp add: settle_def)

lemma mqueue_wake_all [simp]: "mqueue (wake_all c s) = mqueue s"
  by (simp add: wake_all_def)

lemma mqueue_wake [simp]: "mqueue (wake t s) = mqueue s"
  by (simp add: wake_def)

text \<open>A step, taken apart: a spurious wake-up, or a critical section that a thread runs and leaves.\<close>

lemma step_parts:
  assumes "step allowed s l s'" and "parked s"
  obtains (Spurious) t k where "l = None" "sleeping s t = Some k" "s' = wake t s"
  | (Turn) t r q n where "l = Some r" "sleeping s t = None" "effect (mqueue s) r q n"
      "notified n (settle t r q s) s'" "\<And>v e. r \<noteq> Waits (Putting v e)"
      "t \<in> getters s \<Longrightarrow> r = Nothing \<or> (\<exists>x. r = Handed x) \<or> (\<exists>e. r = Waits (Getting e))"
  using assms(1)
proof (cases rule: step.cases)
  case (enter req t clock r q n)
  then show thesis using perform_effect [OF enter(5)] by (intro Turn [of r t q n]) (auto simp: getters_def)
next
  case (resume t k now r q n)
  have nt: "sleeping s t = None" using resume(2) assms(2) by (auto simp: parked_def dom_def)
  show thesis
  proof (cases k)
    case (Putting v e)
    then show thesis using resume(2) assms(2) by (auto simp: parked_def)
  next
    case (Getting e)
    then show thesis using resume nt get_wait_effect [of e now "mqueue s" r q n]
      by (intro Turn [of r t q n]) auto
  next
    case Joining
    then show thesis using resume nt join_effect [of "mqueue s" r q n]
      by (intro Turn [of r t q n]) (auto simp: getters_def)
  qed
qed (use Spurious in blast)

lemma parked_wake: "parked s \<Longrightarrow> sleeping s t = Some k \<Longrightarrow> parked (wake t s)"
  by (auto simp: parked_def wake_def split: if_splits)

lemma parked_wake_all: "parked s \<Longrightarrow> finite (dom (sleeping s)) \<Longrightarrow> parked (wake_all c s)"
proof -
  assume p: "parked s" and f: "finite (dom (sleeping s))"
  have "dom (woken (wake_all c s)) \<subseteq> dom (woken s) \<union> dom (sleeping s)"
    by (auto simp: wake_all_def split: option.splits if_splits)
  then have "finite (dom (woken (wake_all c s)))"
    using p f by (auto simp: parked_def intro: finite_subset)
  moreover have "dom (sleeping (wake_all c s)) \<inter> dom (woken (wake_all c s)) = {}"
    using p by (fastforce simp: parked_def wake_all_def split: option.splits if_splits)
  moreover have "sleeping (wake_all c s) t \<noteq> Some (Putting v e) \<and> woken (wake_all c s) t \<noteq> Some (Putting v e)" for t v e
    using p by (auto simp: parked_def wake_all_def split: option.splits)
  ultimately show ?thesis by (simp add: parked_def)
qed

lemma parked_settle:
  assumes "parked s" "sleeping s t = None" "\<And>v e. r \<noteq> Waits (Putting v e)"
  shows "parked (settle t r q s)"
  using assms by (auto simp: parked_def settle_def split: reply.splits)

lemma finite_sleeping_settle: "finite (dom (sleeping s)) \<Longrightarrow> finite (dom (sleeping (settle t r q s)))"
  by (simp add: settle_def split: reply.splits)

lemma finite_sleeping_wake: "finite (dom (sleeping s)) \<Longrightarrow> finite (dom (sleeping (wake t s)))"
  by (simp add: wake_def)

lemma finite_sleeping_notified: "finite (dom (sleeping s)) \<Longrightarrow> notified n s s' \<Longrightarrow> finite (dom (sleeping s'))"
proof (erule notifiedE)
  fix c assume f: "finite (dom (sleeping s))" and [simp]: "s' = wake_all c s"
  have "dom (sleeping s') \<subseteq> dom (sleeping s)" by (auto simp: wake_all_def split: option.splits if_splits)
  then show ?thesis using f finite_subset by blast
qed (simp_all add: wake_def)

lemma parked_notified:
  assumes "parked s" "finite (dom (sleeping s))" "notified n s s'" shows "parked s'"
  using assms(3)
proof (rule notifiedE)
  fix t c assume "t \<in> sleepers c s" "s' = wake t s"
  then show ?thesis using parked_wake [OF assms(1)] by (auto simp: sleepers_def)
qed (simp_all add: assms(1) parked_wake_all [OF assms(1,2)])

lemma step_parked:
  assumes "step allowed s l s'" "parked s" "finite (dom (sleeping s))"
  shows "parked s' \<and> finite (dom (sleeping s'))"
  using assms(1,2)
proof (cases rule: step_parts)
  case (Spurious t k)
  then show ?thesis using assms parked_wake finite_sleeping_wake by auto
next
  case (Turn t r q n)
  have "parked (settle t r q s)" "finite (dom (sleeping (settle t r q s)))"
    using parked_settle [OF assms(2) Turn(2)] Turn(5) finite_sleeping_settle [OF assms(3)] by blast+
  then show ?thesis using parked_notified finite_sleeping_notified Turn(4) by blast
qed

text \<open>What a wake-up does to the sleepers and to the getters that are awake.\<close>

lemma sleepers_wake: "sleepers c (wake t s) \<subseteq> sleepers c s"
  by (auto simp: sleepers_def wake_def split: if_splits)

lemma getters_wake:
  "sleeping s t = Some k \<Longrightarrow> woken s t = None \<Longrightarrow>
   getters (wake t s) = (case k of Getting e \<Rightarrow> insert t (getters s) | _ \<Rightarrow> getters s)"
  by (auto simp: getters_def wake_def split: call.splits)

lemma finite_getters: "parked s \<Longrightarrow> finite (getters s)"
  by (rule finite_subset [of _ "dom (woken s)"]) (auto simp: getters_def parked_def)

lemma wakeups_wake:
  assumes "wakeups_ok s" "parked s" "sleeping s t = Some k" shows "wakeups_ok (wake t s)"
proof -
  have "woken s t = None" using assms(2,3) by (auto simp: parked_def)
  then have "getters s \<subseteq> getters (wake t s)"
    using getters_wake [OF assms(3)] by (auto split: call.splits)
  then have "card (getters s) \<le> card (getters (wake t s))"
    using finite_getters [OF parked_wake [OF assms(2,3)]] card_mono by blast
  then show ?thesis
    using assms(1) sleepers_wake [of _ t s] by (fastforce simp: wakeups_ok_def)
qed

lemma getters_settle: "getters (settle t r q s) = getters s - {t}"
  by (auto simp: getters_def settle_def)

lemma sleepers_settle:
  "sleeping s t = None \<Longrightarrow> sleepers c (settle t r q s) =
   (case r of Waits k \<Rightarrow> if waits_for k = c then insert t (sleepers c s) else sleepers c s | _ \<Rightarrow> sleepers c s)"
  by (auto simp: sleepers_def settle_def split: reply.splits)

lemma sleepers_wake_all: "sleepers c (wake_all c' s) = (if c = c' then {} else sleepers c s)"
  by (auto simp: sleepers_def wake_all_def split: option.splits if_splits)

lemma getters_wake_all:
  assumes "parked s" shows "getters (wake_all All_tasks_done s) = getters s"
  using assms by (fastforce simp: getters_def wake_all_def parked_def waits_for.simps split: option.splits if_splits call.splits)

lemma no_room_sleepers: "parked s \<Longrightarrow> sleepers Not_full s = {}"
proof -
  have "waits_for k = Not_full \<Longrightarrow> \<exists>v e. k = Putting v e" for k :: "'b call" by (cases k) auto
  then show "parked s \<Longrightarrow> sleepers Not_full s = {}" by (fastforce simp: sleepers_def parked_def)
qed

lemma notified_no_room: "parked s \<Longrightarrow> notified (Signal Not_full) s s' \<Longrightarrow> s' = s"
  by (drule no_room_sleepers) (auto simp only: notified_signal empty_iff)

lemma wakeups_iff: "wakeups_ok s \<longleftrightarrow>
  (sleepers Not_empty s = {} \<or> length (items (mqueue s)) \<le> card (getters s)) \<and>
  (sleepers All_tasks_done s = {} \<or> 0 < unfinished_tasks (mqueue s))"
  by (auto simp: wakeups_ok_def)

text \<open>Leaving the mutex without a signal.\<close>

lemma wakeups_silent:
  assumes "wakeups_ok s" "effect (mqueue s) r q Silence" "sleeping s t = None" "\<And>v e. r \<noteq> Waits (Putting v e)"
    and "t \<in> getters s \<Longrightarrow> r = Nothing \<or> (\<exists>x. r = Handed x) \<or> (\<exists>e. r = Waits (Getting e))"
  shows "wakeups_ok (settle t r q s)"
proof (cases "t \<in> getters s")
  case True
  then have "items q = []" "unfinished_tasks q = unfinished_tasks (mqueue s)" using assms(2,5) by auto
  then show ?thesis
    using assms(1) True assms(5) sleepers_settle [OF assms(3), of All_tasks_done r q]
    by (auto simp: wakeups_ok_def)
next
  case False
  then have g: "getters (settle t r q s) = getters s" by (simp add: getters_settle)
  show ?thesis
  proof (cases r)
    case (Waits k)
    then show ?thesis
      using assms g sleepers_settle [OF assms(3), of _ r q] by (cases k) (simp_all add: wakeups_iff)
  qed (use assms(1,2) g sleepers_settle [OF assms(3), of _ r q] in \<open>simp_all add: wakeups_iff split: if_splits\<close>)
qed

lemma wakeups_stored:
  assumes "wakeups_ok s" "parked (settle t (Stored v) q s)" "effect (mqueue s) (Stored v) q n" "sleeping s t = None"
    and "t \<notin> getters s" "finite (getters s)" "notified n (settle t (Stored v) q s) s'"
  shows "wakeups_ok s'"
proof -
  let ?s = "settle t (Stored v) q s"
  have g: "getters ?s = getters s" using assms(5) by (simp add: getters_settle)
  have n: "n = Signal Not_empty" and q: "length (items q) = Suc (length (items (mqueue s)))"
    "unfinished_tasks q = unfinished_tasks (mqueue s) + 1" using assms(3) by auto
  have sl: "sleepers c ?s = sleepers c s" for c using sleepers_settle [OF assms(4)] by simp
  have ok: "unfinished_tasks q > 0" if "sleepers All_tasks_done s \<noteq> {}"
    using assms(1) that q(2) by (simp add: wakeups_ok_def)
  have "sleepers Not_empty s = {} \<and> s' = ?s \<or> (\<exists>t'\<in>sleepers Not_empty s. s' = wake t' ?s)"
    using assms(7) unfolding n notified_signal sl by blast
  then show ?thesis
  proof (elim disjE bexE)
    fix t' assume t': "t' \<in> sleepers Not_empty s" "s' = wake t' ?s"
    then have "t' \<in> sleepers Not_empty ?s" by (simp add: sl)
    then obtain k where k: "sleeping ?s t' = Some k" "waits_for k = Not_empty" by (auto simp: sleepers_def)
    then obtain e where e: "k = Getting e" by (cases k) auto
    have "woken ?s t' = None" using assms(2) k(1) by (auto simp: parked_def)
    moreover from this have "t' \<notin> getters ?s" by (auto simp: getters_def)
    ultimately have "card (getters s') = Suc (card (getters s))"
      using getters_wake [OF k(1)] t'(2) e g assms(6) by simp
    moreover have "length (items (mqueue s)) \<le> card (getters s)"
      using t'(1) assms(1) by (auto simp: wakeups_ok_def)
    moreover have "sleepers All_tasks_done s' \<subseteq> sleepers All_tasks_done s"
      using sleepers_wake [of All_tasks_done t' ?s] t'(2) sl by simp
    ultimately show ?thesis using q t'(2) ok by (cases "sleepers All_tasks_done s = {}") (simp_all add: wakeups_ok_def)
  qed (simp add: wakeups_ok_def sl ok)
qed

lemma wakeups_handed:
  assumes "wakeups_ok s" "effect (mqueue s) (Handed v) q n" "sleeping s t = None" "finite (getters s)"
  shows "wakeups_ok (settle t (Handed v) q s)"
proof -
  have "card (getters s) \<le> Suc (card (getters s - {t}))"
    using assms(4) by (cases "t \<in> getters s") (simp_all add: card_Diff_singleton)
  then show ?thesis
    using assms(1,2) sleepers_settle [OF assms(3), of _ "Handed v" q] by (auto simp: wakeups_iff getters_settle)
qed

lemma wakeups_broadcast:
  assumes "wakeups_ok s" "parked (settle t Done q s)" "effect (mqueue s) Done q n" "sleeping s t = None" "t \<notin> getters s"
  shows "wakeups_ok (wake_all All_tasks_done (settle t Done q s))"
  using assms(1,3,5) sleepers_settle [OF assms(4), of Not_empty Done q] getters_wake_all [OF assms(2)]
  by (simp add: wakeups_ok_def sleepers_wake_all getters_settle)

lemma step_wakeups:
  assumes "step allowed s l s'" "parked s" "finite (dom (sleeping s))" "wakeups_ok s"
  shows "wakeups_ok s'"
  using assms(1,2)
proof (cases rule: step_parts)
  case (Spurious t k)
  show ?thesis using wakeups_wake [OF assms(4,2) Spurious(2)] Spurious(3) by simp
next
  case (Turn t r q n)
  have p: "parked (settle t r q s)" using parked_settle [OF assms(2) Turn(2)] Turn(5) by blast
  note fg = finite_getters [OF assms(2)]
  show ?thesis
  proof (cases n)
    case Silence
    then show ?thesis
      using wakeups_silent [OF assms(4) _ Turn(2,5,6)] Turn(3,4) by (simp add: notified_silence)
  next
    case (Signal c)
    then have "(\<exists>v. r = Stored v) \<or> (\<exists>v. r = Handed v \<and> c = Not_full)"
      using Turn(3) by (auto elim: effect.elims split: if_splits)
    then show ?thesis
    proof (elim disjE exE conjE)
      fix v assume "r = Stored v"
      then show ?thesis using wakeups_stored [OF assms(4) _ _ Turn(2) _ fg] p Turn(3,4,6) by blast
    next
      fix v assume "r = Handed v" "c = Not_full"
      then show ?thesis
        using wakeups_handed [OF assms(4) _ Turn(2) fg] notified_no_room [OF p] Turn(3,4) Signal by blast
    qed
  next
    case (Broadcast c)
    then have "r = Done \<and> c = All_tasks_done" using Turn(3) by (auto elim: effect.elims split: if_splits)
    then show ?thesis
      using wakeups_broadcast [OF assms(4) _ _ Turn(2)] p Turn(3,4,6) Broadcast by (auto simp: notified_broadcast)
  qed
qed

lemma stored_append [simp]: "stored (xs @ ys) = stored xs @ stored ys"
  by (induction xs rule: stored.induct) simp_all

lemma handed_append [simp]: "handed (xs @ ys) = handed xs @ handed ys"
  by (induction xs rule: handed.induct) simp_all

lemma dones_append [simp]: "dones (xs @ ys) = dones xs + dones ys"
  by (induction xs rule: dones.induct) simp_all

text \<open>The books of a trace: the queue in the monitor is what the trace says.\<close>

definition balanced :: "'a reply list \<Rightarrow> 'a queue \<Rightarrow> bool" where
  "balanced tr q \<longleftrightarrow> stored tr = handed tr @ items q \<and> unfinished_tasks q = int (length (stored tr)) - int (dones tr) \<and>
     0 \<le> unfinished_tasks q"

lemma effect_balanced: "balanced tr q \<Longrightarrow> effect q r q' n \<Longrightarrow> balanced (tr @ [r]) q'"
  by (cases r rule: reply.exhaust) (auto simp: balanced_def elim: effect.elims)

lemma run_invariant:
  fixes s :: "('t, 'a) monitor"
  assumes "run allowed (fresh n) tr s"
  shows "parked s \<and> finite (dom (sleeping s)) \<and> wakeups_ok s \<and> balanced tr (mqueue s)"
  using assms
proof (induction "fresh n :: ('t, 'a) monitor" tr s rule: run.induct)
  case start
  then show ?case by (simp add: fresh_def Queue_new_def parked_def wakeups_ok_def balanced_def sleepers_def)
next
  case (visible tr s' r s'')
  then have I: "parked s'" "finite (dom (sleeping s'))" "wakeups_ok s'" "balanced tr (mqueue s')" by simp_all
  have "balanced (tr @ [r]) (mqueue s'')"
    using visible.hyps(3) I(1)
  proof (cases rule: step_parts)
    case (Turn t r' q n)
    then show ?thesis using effect_balanced [OF I(4) Turn(3)] mqueue_notified [OF Turn(4)] by simp
  qed simp
  then show ?case using step_parked step_wakeups visible.hyps(3) I by blast
next
  case (hidden tr s' s'')
  then have I: "parked s'" "finite (dom (sleeping s'))" "wakeups_ok s'" "balanced tr (mqueue s')" by simp_all
  have "mqueue s'' = mqueue s'"
    using hidden.hyps(3) I(1) by (cases rule: step_parts) simp_all
  then show ?case using step_parked step_wakeups hidden.hyps(3) I by metis
qed

section \<open>The queue as a buffer\<close>

text \<open>One thread that uses \<open>put_nowait\<close> and \<open>get_nowait\<close> has a FIFO buffer.\<close>

definition offer :: "'a \<Rightarrow> 'a queue \<Rightarrow> (bool \<times> 'a queue) option" where
  "offer v q = do { (r, q', n) \<leftarrow> put_nowait v (0, 0) q; Some (r = Stored v, q') }"

definition poll :: "int \<times> int \<Rightarrow> 'a queue \<Rightarrow> ('a option \<times> 'a queue) option" where
  "poll clock q = do { (r, q', n) \<leftarrow> get_nowait clock q; Some (case r of Handed x \<Rightarrow> Some x | _ \<Rightarrow> None, q') }"

lemma offer_effect: "offer v q = Some (b, q') \<Longrightarrow> items q' = (if b then items q @ [v] else items q)"
  unfolding offer_def put_nowait_def
proof (elim bindE, clarsimp)
  fix r n assume "put v False 0 (0, 0) q = Some (r, q', n)"
  from put_effect [OF this] show
    "(r = Stored v \<longrightarrow> items q' = items q @ [v]) \<and> (r \<noteq> Stored v \<longrightarrow> items q' = items q)" by auto
qed

lemma poll_effect:
  "poll clock q = Some (y, q') \<Longrightarrow> (case y of None \<Rightarrow> items q = [] \<and> q' = q | Some x \<Rightarrow> items q = x # items q')"
  unfolding poll_def get_nowait_def
proof (elim bindE, clarsimp)
  fix r n assume "get False 0 clock q = Some (r, q', n)"
  from get_effect [OF this] show
    "case case r of Handed x \<Rightarrow> Some x | _ \<Rightarrow> None of
       None \<Rightarrow> items q = [] \<and> q' = q | Some x \<Rightarrow> items q = x # items q'" by auto
qed

interpretation nowait: fifo offer poll items "\<lambda>_. True"
proof unfold_locales
  fix x :: 'a and s s'
  show "offer x s = Some (True, s') \<Longrightarrow> True \<and> mset (items s') = add_mset x (mset (items s))"
    using offer_effect [of x s True s'] by simp
  show "offer x s = Some (False, s') \<Longrightarrow> True \<and> mset (items s') = mset (items s)"
    using offer_effect [of x s False s'] by simp
  fix b show "offer x s = Some (b, s') \<Longrightarrow> items s' = (if b then items s @ [x] else items s)"
    by (rule offer_effect)
next
  fix r :: "int \<times> int" and x :: 'a and s s'
  show "poll r s = Some (Some x, s') \<Longrightarrow> True \<and> mset (items s) = add_mset x (mset (items s'))"
    using poll_effect [of r s "Some x" s'] by simp
  show "poll r s = Some (None, s') \<Longrightarrow> True \<and> mset (items s) = {#} \<and> mset (items s') = {#}"
    using poll_effect [of r s None s'] by auto
  show "poll r s = Some (Some x, s') \<Longrightarrow> items s = x # items s'"
    using poll_effect [of r s "Some x" s'] by simp
qed

text \<open>A run: threads 0 and 2 wait for an element and thread 1 puts one; thread 0 is woken.\<close>

lemma sample_run:
  "\<exists>s. run (\<lambda>_. True) (fresh 1 :: (nat, 'a) monitor) [Waits (Getting None), Waits (Getting None), Stored v] s \<and>
    items (mqueue s) = [v] \<and> woken s 0 = Some (Getting None) \<and> sleeping s 2 = Some (Getting None) \<and>
    unfinished_tasks (mqueue s) = 1"
proof -
  let ?m = "fresh 1 :: (nat, 'a) monitor"
  let ?v = "settle 2 (Waits (Getting None)) (Queue_new 1) ?m"
  let ?w = "settle 0 (Waits (Getting None)) (Queue_new 1) ?v"
  let ?q = "\<lparr>maxsize = 1, unfinished_tasks = 1, items = [v]\<rparr>"
  let ?p = "settle 1 (Stored v) ?q ?w"
  have "step (\<lambda>_. True) ?m (Some (Waits (Getting None))) ?v"
    by (rule step.enter [of _ "Get True 0" _ 2 "(0, 0)" _ "Queue_new 1" Silence])
      (auto simp: fresh_def get_defs Queue_new_def intro: notified.silence)
  then have "run (\<lambda>_. True) ?m ([] @ [Waits (Getting None)]) ?v" by (rule run.visible [OF run.start])
  moreover have "step (\<lambda>_. True) ?v (Some (Waits (Getting None))) ?w"
    by (rule step.enter [of _ "Get True 0" _ 0 "(0, 0)" _ "Queue_new 1" Silence])
      (auto simp: fresh_def settle_def get_defs Queue_new_def intro: notified.silence)
  ultimately have "run (\<lambda>_. True) ?m (([] @ [Waits (Getting None)]) @ [Waits (Getting None)]) ?w" by (rule run.visible)
  moreover have "step (\<lambda>_. True) ?w (Some (Stored v)) (wake 0 ?p)"
  proof (rule step.enter [of _ "Put v True 0" _ 1 "(0, 0)" _ ?q "Signal Not_empty"])
    show "notified (Signal Not_empty) ?p (wake 0 ?p)"
      by (rule notified.signal) (simp add: sleepers_def settle_def fresh_def)
  qed (simp_all add: fresh_def put_defs Queue_new_def settle_def)
  ultimately have "run (\<lambda>_. True) ?m ((([] @ [Waits (Getting None)]) @ [Waits (Getting None)]) @ [Stored v]) (wake 0 ?p)"
    by (rule run.visible)
  then show ?thesis
    by (intro exI [of _ "wake 0 ?p"]) (auto simp: wake_def settle_def fresh_def)
qed

text \<open>C20. Whatever threads do, in any interleaving: the values put so far are the values handed out
  so far, in the same order, followed by the content of the queue; the counter of unfinished tasks
  is the number of values put minus the number of \<open>task_done\<close> calls and is never negative; and no
  thread ever waits for room.\<close>

theorem Queue_is_fifo:
  assumes "run allowed (fresh n) tr s"
  shows "stored tr = handed tr @ items (mqueue s) \<and>
    unfinished_tasks (mqueue s) = int (length (stored tr)) - int (dones tr) \<and> 0 \<le> unfinished_tasks (mqueue s) \<and>
    sleepers Not_full s = {}"
  using run_invariant [OF assms] no_room_sleepers [of s] unfolding balanced_def by blast

theorem Queue_is_fifo_witness:
  "\<exists>s. run (\<lambda>_. True) (fresh 1 :: (nat, nat) monitor) [Waits (Getting None), Waits (Getting None), Stored 5] s \<and>
    [5] = items (mqueue s) \<and> unfinished_tasks (mqueue s) = 1"
proof -
  obtain s where s: "run (\<lambda>_. True) (fresh 1 :: (nat, nat) monitor) [Waits (Getting None), Waits (Getting None), Stored 5] s"
    using sample_run [of 5] by blast
  from Queue_is_fifo [OF s] s show ?thesis by (intro exI [of _ s]) simp
qed

text \<open>C21. No wake-up is lost: when the queue holds a value and some thread sleeps in \<open>get\<close>, another
  thread is awake in \<open>get\<close> and takes the first value as soon as it gets the mutex; and a
  thread only sleeps in \<open>join\<close> while there are unfinished tasks.\<close>

theorem Queue_wakes_getters:
  assumes "run allowed (fresh n) tr s"
  shows "(sleeping s t = Some (Getting e) \<and> items (mqueue s) \<noteq> [] \<longrightarrow>
      (\<exists>t' e'. woken s t' = Some (Getting e') \<and>
        (\<forall>now. \<exists>q. recheck (Getting e') now (mqueue s) = Some (Handed (hd (items (mqueue s))), q, Signal Not_full)))) \<and>
    (sleeping s t = Some Joining \<longrightarrow> 0 < unfinished_tasks (mqueue s))"
proof (intro conjI impI; (elim conjE)?)
  assume t: "sleeping s t = Some (Getting e)" and i: "items (mqueue s) \<noteq> []"
  then have "t \<in> sleepers Not_empty s" by (simp add: sleepers_def)
  then have "length (items (mqueue s)) \<le> card (getters s)"
    using run_invariant [OF assms] unfolding wakeups_ok_def by blast
  then have "0 < card (getters s)" using i by (cases "items (mqueue s)") simp_all
  then have "getters s \<noteq> {}" by force
  then obtain t' where "t' \<in> getters s" by blast
  then obtain e' where "woken s t' = Some (Getting e')" by (auto simp: getters_def)
  moreover have "\<exists>q. recheck (Getting e') now (mqueue s) = Some (Handed (hd (items (mqueue s))), q, Signal Not_full)" for now
    using i by (cases "items (mqueue s)") (simp_all add: get_wait_def get_take_def)
  ultimately show "\<exists>t' e'. woken s t' = Some (Getting e') \<and>
    (\<forall>now. \<exists>q. recheck (Getting e') now (mqueue s) = Some (Handed (hd (items (mqueue s))), q, Signal Not_full))" by blast
next
  assume "sleeping s t = Some Joining"
  then have "t \<in> sleepers All_tasks_done s" by (simp add: sleepers_def)
  then show "0 < unfinished_tasks (mqueue s)" using run_invariant [OF assms] unfolding wakeups_ok_def by blast
qed

theorem Queue_wakes_getters_witness:
  "\<exists>s. run (\<lambda>_. True) (fresh 1 :: (nat, nat) monitor) [Waits (Getting None), Waits (Getting None), Stored 5] s \<and>
    sleeping s 2 = Some (Getting None) \<and> items (mqueue s) = [5] \<and> (\<exists>t' e'. woken s t' = Some (Getting e'))"
proof -
  obtain s where s: "run (\<lambda>_. True) (fresh 1 :: (nat, nat) monitor) [Waits (Getting None), Waits (Getting None), Stored 5] s"
    "items (mqueue s) = [5]" "sleeping s 2 = Some (Getting None)"
    using sample_run [of 5] by blast
  from Queue_wakes_getters [OF s(1), of 2 None] s show ?thesis by (intro exI [of _ s]) auto
qed

section \<open>The bound\<close>

definition is_blocking :: "'a request \<Rightarrow> bool" where
  "is_blocking req = (case req of Put v block timeout \<Rightarrow> block | _ \<Rightarrow> False)"

definition in_bound :: "'a queue \<Rightarrow> bool" where
  "in_bound q \<longleftrightarrow> 0 < maxsize q \<and> length (items q) \<le> unat (maxsize q)"

lemma effect_in_bound:
  assumes "effect q r q' n" "in_bound q" "(\<exists>v. r = Stored v) \<longrightarrow> \<not> at_max q"
  shows "in_bound q'"
proof (cases "\<exists>v. r = Stored v")
  case True
  then have "length (items q) \<noteq> unat (maxsize q)" using assms(3) by (auto simp: at_max_def)
  then show ?thesis using True assms(1,2) by (auto simp: in_bound_def)
next
  case False
  then have "length (items q') \<le> length (items q) \<and> maxsize q' = maxsize q"
    using assms(1) by (auto elim: effect.elims)
  then show ?thesis using assms(2) by (auto simp: in_bound_def)
qed

lemma perform_room:
  assumes "perform req clock q = Some (r, q', n)" "\<not> is_blocking req" "in_bound q"
  shows "(\<exists>v. r = Stored v) \<longrightarrow> \<not> at_max q"
proof (cases req)
  case (Put v block timeout)
  then show ?thesis using assms by (auto simp: is_blocking_def in_bound_def put_def split: if_splits)
next
  case (Get block timeout)
  then show ?thesis using assms(1) get_effect [of block timeout clock q r q' n] by auto
next
  case Task_done
  then show ?thesis using assms(1) task_done_effect [of q r q' n] by simp
next
  case Join
  then show ?thesis using assms(1) join_effect [of q r q' n] by auto
qed

lemma recheck_room:
  assumes "recheck k now q = Some (r, q', n)" "\<And>v e. k \<noteq> Putting v e"
  shows "(\<exists>v. r = Stored v) \<longrightarrow> \<not> at_max q"
proof (cases k)
  case (Getting e)
  then show ?thesis using assms(1) get_wait_effect [of e now q r q' n] by auto
next
  case Joining
  then show ?thesis using assms(1) join_effect [of q r q' n] by auto
qed (use assms(2) in blast)

lemma step_within:
  assumes "step (\<lambda>req. \<not> is_blocking req) s l s'" "parked s" "in_bound (mqueue s)"
  shows "in_bound (mqueue s') \<and> maxsize (mqueue s') = maxsize (mqueue s)"
proof -
  have m: "effect q r q' n \<Longrightarrow> maxsize q' = maxsize q" for q r q' and n by (auto elim: effect.elims)
  from assms(1) show ?thesis
  proof (cases rule: step.cases)
    case (enter req t clock r q n)
    have e: "effect (mqueue s) r q n" using perform_effect [OF enter(5)] by simp
    show ?thesis
      using effect_in_bound [OF e assms(3) perform_room [OF enter(5,2) assms(3)]] m [OF e]
        mqueue_notified [OF enter(6)] by simp
  next
    case (resume t k now r q n)
    have e: "effect (mqueue s) r q n" using recheck_effect [OF resume(3)] .
    have "k \<noteq> Putting v e" for v e using assms(2) resume(2) by (auto simp: parked_def)
    then show ?thesis
      using effect_in_bound [OF e assms(3) recheck_room [OF resume(3)]] m [OF e]
        mqueue_notified [OF resume(4)] by simp
  qed (use assms(3) in simp)
qed

lemma run_within:
  fixes s :: "('t, 'a) monitor"
  assumes "run (\<lambda>req. \<not> is_blocking req) (fresh n) tr s" "0 < n"
  shows "in_bound (mqueue s) \<and> maxsize (mqueue s) = n"
  using assms
proof (induction "fresh n :: ('t, 'a) monitor" tr s rule: run.induct)
  case start
  then show ?case by (simp add: in_bound_def fresh_def Queue_new_def)
next
  case (visible tr s' r s'')
  then show ?case using step_within [OF visible.hyps(3)] run_invariant [OF visible.hyps(1)] by simp
next
  case (hidden tr s' s'')
  then show ?case using step_within [OF hidden.hyps(3)] run_invariant [OF hidden.hyps(1)] by simp
qed

text \<open>Puts that block, one after the other.\<close>

lemma blocking_puts:
  assumes "int k < 2 ^ 31"
  shows "run (\<lambda>req. is_blocking req) (fresh n :: (nat, 'a) monitor) (replicate k (Stored v))
    ((fresh n)\<lparr>mqueue := \<lparr>maxsize = n, unfinished_tasks = int k, items = replicate k v\<rparr>\<rparr>)"
  using assms
proof (induction k)
  case 0
  then show ?case using run.start [of "\<lambda>req. is_blocking req" "fresh n"] by (simp add: fresh_def Queue_new_def)
next
  case (Suc k)
  let ?s = "\<lambda>k. (fresh n :: (nat, 'a) monitor)\<lparr>mqueue := \<lparr>maxsize = n, unfinished_tasks = int k, items = replicate k v\<rparr>\<rparr>"
  have "step (\<lambda>req. is_blocking req) (?s k) (Some (Stored v)) (?s (Suc k))"
  proof (rule step.enter [of _ "Put v True 0" _ 0 "(0, 0)" _ "mqueue (?s (Suc k))" "Signal Not_empty"])
    have "settle 0 (Stored v) (mqueue (?s (Suc k))) (?s k) = ?s (Suc k)" by (simp add: settle_def fresh_def)
    then show "notified (Signal Not_empty) (settle 0 (Stored v) (mqueue (?s (Suc k))) (?s k)) (?s (Suc k))"
      by (simp add: notified_signal sleepers_def fresh_def)
  qed (use Suc.prems in \<open>simp_all add: is_blocking_def fresh_def put_defs replicate_append_same\<close>)
  then have "run (\<lambda>req. is_blocking req) (fresh n) (replicate k (Stored v) @ [Stored v]) (?s (Suc k))"
    using Suc by (intro run.visible) auto
  then show ?case by (simp add: replicate_append_same)
qed

text \<open>A queue of maximum size \<open>n > 0\<close> never holds more than \<open>n\<close> values as long as all puts are
  non-blocking ones, in every interleaving.\<close>

lemma Queue_bounded_without_blocking:
  assumes "run (\<lambda>req. \<not> is_blocking req) (fresh n) tr s" "0 < n"
  shows "length (items (mqueue s)) \<le> unat n"
  using run_within [OF assms] unfolding in_bound_def by blast

text \<open>C22. A blocking put does not wait for room: a queue of maximum size \<open>n\<close> takes \<open>n + 1\<close> of them
  (and more) without a thread going to sleep, and holds more than \<open>n\<close> values then.\<close>

theorem Queue_blocking_put_overfills:
  assumes "n < 2 ^ 31 - 1"
  shows "\<exists>s. run is_blocking (fresh n :: (nat, 'a) monitor) (replicate (Suc (unat n)) (Stored v)) s \<and>
    length (items (mqueue s)) = Suc (unat n)"
proof -
  have "uint n < uint (2 ^ 31 - 1 :: u64)" using assms by (simp only: word_less_def)
  then have "int (Suc (unat n)) < 2 ^ 31" by simp
  from blocking_puts [OF this, of n v] show ?thesis by (intro exI) auto
qed

theorem Queue_blocking_put_overfills_witness:
  "\<exists>s. run is_blocking (fresh 10 :: (nat, nat) monitor) (replicate 11 (Stored 3)) s \<and> length (items (mqueue s)) = 11"
  using Queue_blocking_put_overfills [of 10 3] by simp

end
