(* ===== verification/Experiment.thy ===== *)
theory Experiment imports Aesthete Discretizations Image Jpeg_Stored begin

text \<open>
  The experiments without error correction: \<open>experiment.cc\<close> (one 8x8 block through a JPEG, counting
  the cells that moved), the older \<open>jpeg_benchmark.cc\<close>, and \<open>jpeg_delta.cc\<close> (the byte-wise
  difference of two JPEGs).

  A \<open>double\<close> that is converted to \<open>unsigned char\<close> loses its fraction; outside 0..255 the conversion is
  undefined in C++, and the model takes the low byte, as x86 compilers do. The results of \<open>Encode\<close> and
  \<open>Decode\<close> are ignored by the code; the model does not follow a run in which one of them is
  false, because the contents of their output vectors are unspecified then. The fresh buffers and matrices are
  arguments.
\<close>

section \<open>One block\<close>

definition trunc :: "rat \<Rightarrow> int" where
  "trunc x = (if 0 \<le> x then \<lfloor>x\<rfloor> else \<lceil>x\<rceil>)"

definition to_uchar :: "rat \<Rightarrow> byte" where
  "to_uchar x = word_of_int (trunc x)"

text \<open>The red values of the painted block, and of the decoded rows.\<close>

definition orig_matrix :: "image \<Rightarrow> byte list list \<Rightarrow> byte list list option" where
  "orig_matrix im m = fill 8 8 (\<lambda>i j. array_at im (3 * int j) (int i)) m"

definition decoded_matrix :: "byte list \<Rightarrow> byte list list \<Rightarrow> byte list list option" where
  "decoded_matrix decoded m = fill 8 8 (\<lambda>i j. rd decoded (i * 24 + 3 * j)) m"

definition block_trip :: "('z, 'y) jpeg_lib \<Rightarrow> (nat \<Rightarrow> byte) \<Rightarrow> image \<Rightarrow> byte list option" where
  "block_trip lib junk im = do {
     r \<leftarrow> JPEGCodec_Encode (has_jcs_ext lib) (jpeg_c lib) junk (im_data im) FORMAT_RGB 8 8 24 (FLAGS_quality lib);
     jpeg \<leftarrow> r;
     check (jpeg \<noteq> []);
     r \<leftarrow> JPEGCodec_Decode (has_jcs_ext lib) (jpeg_d lib) junk jpeg FORMAT_RGB;
     (decoded, w, h) \<leftarrow> r;
     Some decoded }"

definition diff_of :: "rat list list \<Rightarrow> rat list list \<Rightarrow> byte list list" where
  "diff_of a b = map2 (map2 (\<lambda>x y. to_uchar (x - y))) a b"

text \<open>The counting loop; \<open>(int)(char)\<close> is the signed reading of the byte.\<close>

definition count_errors :: "(int \<Rightarrow> bool) \<Rightarrow> byte list list \<Rightarrow> nat option" where
  "count_errors bad diff = for_in [0..<4] (\<lambda>i. for_in [0..<4] (\<lambda>j nerrors. do {
     d \<leftarrow> mget diff i j;
     Some (if bad \<bar>sint d\<bar> then nerrors + 1 else nerrors) })) 0"

section \<open>\<open>Experiment\<close>\<close>

text \<open>\<open>log\<close> is what is written to the file: the count and the averaged original.\<close>

record plain_experiment =
  ex_discretizations :: "int list"
  ex_log :: "(nat \<times> rat list list) list"

definition Experiment_new :: "int list \<Rightarrow> plain_experiment" where
  "Experiment_new d = \<lparr>ex_discretizations = d, ex_log = []\<rparr>"

definition Experiment_Run ::
  "('z, 'y) jpeg_lib \<Rightarrow> (nat \<Rightarrow> byte) \<Rightarrow> byte list \<Rightarrow> byte list list \<Rightarrow> rat list list \<Rightarrow> int list \<Rightarrow>
   plain_experiment \<Rightarrow> (nat \<times> plain_experiment) option" where
  "Experiment_Run lib junk heap m8 m4 matrix_entries e = do {
     check (length matrix_entries = 16);
     im \<leftarrow> array_new heap 24 8;
     im \<leftarrow> FillFromInts matrix_entries (ex_discretizations e) im;
     orig \<leftarrow> orig_matrix im m8;
     orig_aes \<leftarrow> AverageAestheteBlocks orig (Some m4);
     decoded \<leftarrow> block_trip lib junk im;
     deco \<leftarrow> decoded_matrix decoded m8;
     decoded_aes \<leftarrow> AverageAestheteBlocks deco (Some m4);
     nerrors \<leftarrow> count_errors (\<lambda>d. d \<ge> 16) (diff_of orig_aes decoded_aes);
     let log = (if nerrors > 0 then ex_log e @ [(nerrors, orig_aes)] else ex_log e);
     Some (nerrors, e\<lparr>ex_log := log\<rparr>) }"

section \<open>\<open>jpeg_benchmark\<close>\<close>

text \<open>\<open>rand\<close> is the sequence of values that \<open>rand()\<close> returns.\<close>

definition GenerateRandomRgbArray :: "(nat \<Rightarrow> nat) \<Rightarrow> int list \<Rightarrow> nat \<Rightarrow> nat \<Rightarrow> byte list \<Rightarrow> byte list option" where
  "GenerateRandomRgbArray rand values num_values num_rgb_pixels entries =
     for_in [0..<num_rgb_pixels] (\<lambda>i entries. do {
       check (num_values \<noteq> 0);
       value \<leftarrow> rd values (rand i mod num_values);
       entries \<leftarrow> wr entries (3 * i) (word_of_int value);
       entries \<leftarrow> wr entries (3 * i + 1) (word_of_int value);
       wr entries (3 * i + 2) (word_of_int value) }) entries"

definition benchmark_iteration ::
  "('z, 'y) jpeg_lib \<Rightarrow> (nat \<Rightarrow> byte) \<Rightarrow> byte list \<Rightarrow> byte list list \<Rightarrow> rat list list \<Rightarrow> (nat \<Rightarrow> nat) \<Rightarrow> int list \<Rightarrow>
   (nat \<times> rat list list) option" where
  "benchmark_iteration lib junk heap m8 m4 rand values = do {
     im \<leftarrow> array_new heap 24 8;
     im \<leftarrow> RandomAesthete rand values im;
     orig \<leftarrow> orig_matrix im m8;
     orig_aes \<leftarrow> AverageAestheteBlocks orig (Some m4);
     decoded \<leftarrow> block_trip lib junk im;
     deco \<leftarrow> decoded_matrix decoded m8;
     decoded_aes \<leftarrow> AverageAestheteBlocks deco (Some m4);
     nerrors \<leftarrow> count_errors (\<lambda>d. d > 16) (diff_of orig_aes decoded_aes);
     Some (nerrors, orig_aes) }"

text \<open>The output is the list of the pairs with a positive count; each iteration uses 16 random
  numbers.\<close>

definition benchmark_main ::
  "('z, 'y) jpeg_lib \<Rightarrow> (nat \<Rightarrow> byte) \<Rightarrow> byte list \<Rightarrow> byte list list \<Rightarrow> rat list list \<Rightarrow> (nat \<Rightarrow> nat) \<Rightarrow> nat \<Rightarrow>
   (nat \<times> rat list list) list option" where
  "benchmark_main lib junk heap m8 m4 rand iters =
     for_in [0..<iters] (\<lambda>iter cout. do {
       (nerrors, orig_aes) \<leftarrow> benchmark_iteration lib junk heap m8 m4 (\<lambda>k. rand (16 * iter + k)) discretizations;
       Some (if nerrors > 0 then cout @ [(nerrors, orig_aes)] else cout) }) []"

section \<open>\<open>JPEGDelta\<close>\<close>

definition RGBDiff :: "byte list \<Rightarrow> byte list \<Rightarrow> byte list option" where
  "RGBDiff image_a image_b = do {
     check (length image_a = length image_b);
     Some (map2 (\<lambda>a b. a - b) image_a image_b) }"

definition JPEGDiff ::
  "('z, 'y) jpeg_lib \<Rightarrow> (nat \<Rightarrow> byte) \<Rightarrow> byte list \<Rightarrow> byte list \<Rightarrow> byte list option" where
  "JPEGDiff lib junk image_a image_b = do {
     r \<leftarrow> JPEGCodec_Decode (has_jcs_ext lib) (jpeg_d lib) junk image_a FORMAT_RGB;
     (rgb_image_a, w_a, h_a) \<leftarrow> r;
     r \<leftarrow> JPEGCodec_Decode (has_jcs_ext lib) (jpeg_d lib) junk image_b FORMAT_RGB;
     (rgb_image_b, w_b, h_b) \<leftarrow> r;
     RGBDiff rgb_image_a rgb_image_b }"

section \<open>The test on the signed byte\<close>

lemma sint_byte: "sint (word_of_int t :: byte) = (t + 128) mod 256 - 128"
  by (simp add: sint_sbintrunc' signed_take_bit_eq_take_bit_shift take_bit_eq_mod)

lemma abs_trunc: "\<bar>trunc x\<bar> = \<lfloor>\<bar>x\<bar>\<rfloor>"
proof (cases "0 \<le> x")
  case False
  then have "0 \<le> \<lfloor>- x\<rfloor>" by simp
  with False show ?thesis by (simp add: trunc_def ceiling_def)
qed (simp add: trunc_def)

lemma trunc_big: "16 \<le> \<bar>trunc x\<bar> \<longleftrightarrow> 16 \<le> \<bar>x\<bar>"
  by (simp add: abs_trunc le_floor_iff)

text \<open>The byte wraps around, but not far enough to hide a difference of 16 when no difference exceeds
  240.\<close>

lemma wrapped_big:
  assumes "\<bar>t\<bar> \<le> 240"
  shows "16 \<le> \<bar>sint (word_of_int t :: byte)\<bar> \<longleftrightarrow> 16 \<le> \<bar>t\<bar>"
proof -
  consider "t < -128" | "-128 \<le> t" "t < 128" | "128 \<le> t" by linarith
  then show ?thesis
  proof cases
    case 1
    have "(t + 128) mod 256 = (t + 128 + 256) mod 256" by (rule mod_add_self2 [symmetric])
    also have "\<dots> = t + 128 + 256" using 1 assms by (intro mod_pos_pos_trivial) auto
    finally show ?thesis using 1 assms unfolding sint_byte by linarith
  next
    case 2
    then have "(t + 128) mod 256 = t + 128" by (intro mod_pos_pos_trivial) auto
    then show ?thesis unfolding sint_byte by simp
  next
    case 3
    have "(t + 128) mod 256 = (t + 128 - 256) mod 256" using mod_add_self2 [of "t - 128" 256] by (simp add: add.commute)
    also have "\<dots> = t + 128 - 256" using 3 assms by (intro mod_pos_pos_trivial) auto
    finally show ?thesis using 3 assms unfolding sint_byte by linarith
  qed
qed

lemma uchar_big:
  assumes "\<bar>x\<bar> \<le> 240"
  shows "16 \<le> \<bar>sint (to_uchar x)\<bar> \<longleftrightarrow> 16 \<le> \<bar>x\<bar>"
proof -
  have "\<lfloor>\<bar>x\<bar>\<rfloor> \<le> \<lfloor>240 :: rat\<rfloor>" using assms by (rule floor_mono)
  then have "\<bar>trunc x\<bar> \<le> 240" by (simp add: abs_trunc)
  from wrapped_big [OF this] show ?thesis unfolding to_uchar_def trunc_big .
qed

section \<open>\<open>Run\<close> counts the cells that moved\<close>

text \<open>The level that was painted into cell \<open>k\<close>, and the mean of the decoded cell.\<close>

definition level_at :: "int list \<Rightarrow> int list \<Rightarrow> nat \<Rightarrow> rat" where
  "level_at values entries k = of_int (values ! nat (entries ! k))"

definition decoded_mean :: "byte list \<Rightarrow> nat \<Rightarrow> rat" where
  "decoded_mean buf k = cell_mean (map (\<lambda>i. map (\<lambda>j. buf ! (i * 24 + 3 * j)) [0..<8]) [0..<8]) (k div 4) (k mod 4)"

definition moved :: "int list \<Rightarrow> int list \<Rightarrow> byte list \<Rightarrow> nat list" where
  "moved values entries buf = filter (\<lambda>k. 16 \<le> \<bar>level_at values entries k - decoded_mean buf k\<bar>) [0..<16]"

lemma count_errors_eq:
  assumes "dims 4 4 d"
  shows "count_errors bad d = Some (length (filter (\<lambda>k. bad \<bar>sint (d ! (k div 4) ! (k mod 4))\<bar>) [0..<16]))"
proof -
  let ?f = "\<lambda>k n. do { d \<leftarrow> mget d (k div 4) (k mod 4); Some (if bad \<bar>sint d\<bar> then n + 1 else n) }"
  have "count_errors bad d = for_in [0..<16] ?f (0 :: nat)"
    unfolding count_errors_def
    using for_in_nested [of 4 4 "\<lambda>i j n. do { d \<leftarrow> mget d i j; Some (if bad \<bar>sint d\<bar> then n + 1 else n) }" 0] by simp
  moreover have "\<exists>n. for_in [0..<16] ?f (0 :: nat) = Some n \<and>
      n = length (filter (\<lambda>k. bad \<bar>sint (d ! (k div 4) ! (k mod 4))\<bar>) [0..<16])"
    by (rule for_in_upt [where P = "\<lambda>k n. n = length (filter (\<lambda>k. bad \<bar>sint (d ! (k div 4) ! (k mod 4))\<bar>) [0..<k])"])
      (use assms in \<open>auto simp: mget_in\<close>)
  ultimately show ?thesis by simp
qed

lemma uint_byte_range: "0 \<le> uint (x :: byte) \<and> uint x \<le> 255"
  using uint_lt2p [of x] by simp

lemma cell_mean_range: "0 \<le> cell_mean m p q \<and> cell_mean m p q \<le> 255"
proof -
  have "0 \<le> uint (m ! (2 * p) ! (2 * q)) + uint (m ! (2 * p + 1) ! (2 * q)) + uint (m ! (2 * p) ! (2 * q + 1)) +
      uint (m ! (2 * p + 1) ! (2 * q + 1))"
    "uint (m ! (2 * p) ! (2 * q)) + uint (m ! (2 * p + 1) ! (2 * q)) + uint (m ! (2 * p) ! (2 * q + 1)) +
      uint (m ! (2 * p + 1) ! (2 * q + 1)) \<le> 1020"
    using uint_byte_range [of "m ! (2 * p) ! (2 * q)"] uint_byte_range [of "m ! (2 * p + 1) ! (2 * q)"]
      uint_byte_range [of "m ! (2 * p) ! (2 * q + 1)"] uint_byte_range [of "m ! (2 * p + 1) ! (2 * q + 1)"] by linarith+
  then have "(0 :: rat) \<le> of_int (uint (m ! (2 * p) ! (2 * q)) + uint (m ! (2 * p + 1) ! (2 * q)) +
      uint (m ! (2 * p) ! (2 * q + 1)) + uint (m ! (2 * p + 1) ! (2 * q + 1)))"
    "of_int (uint (m ! (2 * p) ! (2 * q)) + uint (m ! (2 * p + 1) ! (2 * q)) + uint (m ! (2 * p) ! (2 * q + 1)) +
      uint (m ! (2 * p + 1) ! (2 * q + 1))) \<le> (1020 :: rat)"
    by (simp_all only: of_int_0_le_iff of_int_le_numeral_iff)
  then show ?thesis by (simp add: cell_mean_def)
qed

text \<open>What the painted block looks like to \<open>Run\<close>.\<close>

lemma painted_means:
  assumes "indices_ok entries" "length values = 8" "\<And>v. v \<in> set values \<Longrightarrow> 0 \<le> v \<and> v < 256"
    and "length heap = 192" "dims 8 8 m8" "dims 4 4 m4"
  shows "\<exists>im orig. FillFromInts entries values \<lparr>im_data = heap, im_w = 24, im_h = 8\<rparr> = Some im \<and>
    length (im_data im) = 192 \<and> orig_matrix im m8 = Some orig \<and>
    AverageAestheteBlocks orig (Some m4) = Some (map (\<lambda>p. map (\<lambda>q. level_at values entries (p * 4 + q)) [0..<4]) [0..<4])"
proof -
  let ?im = "\<lparr>im_data = heap, im_w = 24, im_h = 8\<rparr>"
  have "image_ok 24 8 ?im" using assms(4) by (simp add: image_ok_def)
  from FillBlockFromInts_spec [OF this assms(1,2), of 0 0] obtain im where
    im: "FillBlockFromInts entries values 0 0 ?im = Some im" "image_ok 24 8 im"
    "\<forall>r x. r < 8 \<longrightarrow> x < 24 \<longrightarrow> px im r x = block_px entries values (r mod 8) (x mod 24)"
    by auto
  let ?orig = "map (\<lambda>i. map (\<lambda>j. block_px entries values i (3 * j)) [0..<8]) [0..<8]"
  have "orig_matrix im m8 = Some ?orig"
    unfolding orig_matrix_def
  proof (rule fill_eq [OF assms(5)])
    fix i j :: nat assume "i < 8" "j < 8"
    then show "array_at im (3 * int j) (int i) = Some (block_px entries values i (3 * j))"
      using array_at_px [OF im(2), of "3 * j" i] im(3) by simp
  qed
  moreover have "AverageAestheteBlocks ?orig (Some m4) = Some (map (\<lambda>p. map (cell_mean ?orig p) [0..<4]) [0..<4])"
    by (rule AverageAestheteBlocks_eq) (simp_all add: assms(6))
  moreover have "cell_mean ?orig p q = level_at values entries (p * 4 + q)" if "p < 4" "q < 4" for p q
  proof -
    let ?v = "values ! nat (entries ! (p * 4 + q))"
    have "cell_mean ?orig p q = of_int (uint (word_of_int ?v :: byte))"
      by (rule cell_mean_const [where f = "\<lambda>p q. word_of_int (values ! nat (entries ! (p * 4 + q)))"])
        (use that in \<open>simp_all add: block_px_def\<close>)
    moreover have "?v \<in> set values"
      using indices_ok_nth [OF assms(1) cell_index [OF that]] assms(2) by simp
    then have "uint (word_of_int ?v :: byte) = ?v" using assms(3) by (simp add: uint_word_of_int)
    ultimately show ?thesis by (simp add: level_at_def)
  qed
  ultimately have "AverageAestheteBlocks ?orig (Some m4) =
      Some (map (\<lambda>p. map (\<lambda>q. level_at values entries (p * 4 + q)) [0..<4]) [0..<4])" by simp
  moreover have "FillFromInts entries values ?im = Some im"
    unfolding FillFromInts_eq FillBlockFromInts_vector_eq using im(1) assms(2) by simp
  moreover have "length (im_data im) = 192" using im(2) by (simp add: image_ok_def)
  ultimately show ?thesis using \<open>orig_matrix im m8 = Some ?orig\<close> by blast
qed

text \<open>The level list of the program, with values in 16..240.\<close>

definition block_levels :: "int list \<Rightarrow> bool" where
  "block_levels values \<longleftrightarrow> length values = 8 \<and> (\<forall>v\<in>set values. 16 \<le> v \<and> v \<le> 240)"

lemma block_levels_program: "block_levels discretizations"
  by (simp add: block_levels_def discretizations_def)

lemma level_range:
  assumes "block_levels values" "indices_ok entries" "k < 16"
  shows "16 \<le> level_at values entries k \<and> level_at values entries k \<le> 240"
proof -
  have "values ! nat (entries ! k) \<in> set values"
    using indices_ok_nth [OF assms(2,3)] assms(1) by (simp add: block_levels_def)
  then show ?thesis using assms(1) by (auto simp: block_levels_def level_at_def)
qed

lemma diff_errors:
  assumes "block_levels values" "indices_ok entries"
  shows "count_errors (\<lambda>d. d \<ge> 16)
      (diff_of (map (\<lambda>p. map (\<lambda>q. level_at values entries (p * 4 + q)) [0..<4]) [0..<4])
        (map (\<lambda>p. map (cell_mean (map (\<lambda>i. map (\<lambda>j. buf ! (i * 24 + 3 * j)) [0..<8]) [0..<8]) p) [0..<4]) [0..<4])) =
    Some (length (moved values entries buf))"
    (is "count_errors _ (diff_of ?a ?b) = _")
proof -
  have d: "dims 4 4 (diff_of ?a ?b)" by (auto simp: diff_of_def dims_def set_zip)
  have at: "16 \<le> \<bar>sint (diff_of ?a ?b ! (k div 4) ! (k mod 4))\<bar> \<longleftrightarrow>
      16 \<le> \<bar>level_at values entries k - decoded_mean buf k\<bar>" if "k < 16" for k
  proof -
    have "k div 4 < 4" "k mod 4 < 4" using that by (simp_all add: less_mult_imp_div_less)
    then have "diff_of ?a ?b ! (k div 4) ! (k mod 4) = to_uchar (level_at values entries k - decoded_mean buf k)"
      by (simp add: diff_of_def decoded_mean_def)
    moreover have "\<bar>level_at values entries k - decoded_mean buf k\<bar> \<le> 240"
      using level_range [OF assms that]
        cell_mean_range [of "map (\<lambda>i. map (\<lambda>j. buf ! (i * 24 + 3 * j)) [0..<8]) [0..<8]" "k div 4" "k mod 4"]
      unfolding decoded_mean_def abs_le_iff by linarith
    ultimately show ?thesis using uchar_big by simp
  qed
  have "filter (\<lambda>k. 16 \<le> \<bar>sint (diff_of ?a ?b ! (k div 4) ! (k mod 4))\<bar>) [0..<16] = moved values entries buf"
    unfolding moved_def by (rule filter_cong [OF refl]) (use at in auto)
  with count_errors_eq [OF d, of "\<lambda>d. d \<ge> 16"] show ?thesis by simp
qed

lemma decoded_means:
  assumes "192 \<le> length buf" "dims 8 8 m8" "dims 4 4 m4"
  shows "\<exists>deco. decoded_matrix buf m8 = Some deco \<and> AverageAestheteBlocks deco (Some m4) =
    Some (map (\<lambda>p. map (cell_mean (map (\<lambda>i. map (\<lambda>j. buf ! (i * 24 + 3 * j)) [0..<8]) [0..<8]) p) [0..<4]) [0..<4])"
proof -
  have "decoded_matrix buf m8 = Some (map (\<lambda>i. map (\<lambda>j. buf ! (i * 24 + 3 * j)) [0..<8]) [0..<8])"
    unfolding decoded_matrix_def by (rule fill_eq [OF assms(2)]) (use assms(1) in \<open>simp add: rd_def\<close>)
  then show ?thesis using AverageAestheteBlocks_eq [of _ m4] assms(3) by simp
qed

lemma Experiment_Run_plain:
  assumes "block_levels (ex_discretizations e)" and "indices_ok entries"
    and "length heap = 192" "dims 8 8 m8" "dims 4 4 m4"
    and trip: "\<And>im. length (im_data im) = 192 \<Longrightarrow> \<exists>buf. block_trip lib junk im = Some buf \<and> 192 \<le> length buf"
  shows "\<exists>im buf levels. FillFromInts entries (ex_discretizations e) \<lparr>im_data = heap, im_w = 24, im_h = 8\<rparr> = Some im \<and>
    block_trip lib junk im = Some buf \<and>
    levels = map (\<lambda>p. map (\<lambda>q. level_at (ex_discretizations e) entries (p * 4 + q)) [0..<4]) [0..<4] \<and>
    Experiment_Run lib junk heap m8 m4 entries e =
      Some (length (moved (ex_discretizations e) entries buf),
        e\<lparr>ex_log := (if moved (ex_discretizations e) entries buf = [] then ex_log e
          else ex_log e @ [(length (moved (ex_discretizations e) entries buf), levels)])\<rparr>)"
proof -
  let ?v = "ex_discretizations e"
  have v: "length ?v = 8" "\<And>x. x \<in> set ?v \<Longrightarrow> 0 \<le> x \<and> x < 256" using assms(1) by (auto simp: block_levels_def)
  obtain im orig where im: "FillFromInts entries ?v \<lparr>im_data = heap, im_w = 24, im_h = 8\<rparr> = Some im"
    "length (im_data im) = 192" "orig_matrix im m8 = Some orig"
    "AverageAestheteBlocks orig (Some m4) = Some (map (\<lambda>p. map (\<lambda>q. level_at ?v entries (p * 4 + q)) [0..<4]) [0..<4])"
    using painted_means [OF assms(2) v assms(3-5)] by blast
  obtain buf where buf: "block_trip lib junk im = Some buf" "192 \<le> length buf" using trip [OF im(2)] by blast
  obtain deco where "decoded_matrix buf m8 = Some deco" "AverageAestheteBlocks deco (Some m4) =
    Some (map (\<lambda>p. map (cell_mean (map (\<lambda>i. map (\<lambda>j. buf ! (i * 24 + 3 * j)) [0..<8]) [0..<8]) p) [0..<4]) [0..<4])"
    using decoded_means [OF buf(2) assms(4,5)] by blast
  moreover have "length entries = 16" using assms(2) by (simp add: indices_ok_def)
  ultimately have "Experiment_Run lib junk heap m8 m4 entries e =
      Some (length (moved ?v entries buf), e\<lparr>ex_log := (if moved ?v entries buf = [] then ex_log e
        else ex_log e @ [(length (moved ?v entries buf), map (\<lambda>p. map (\<lambda>q. level_at ?v entries (p * 4 + q)) [0..<4]) [0..<4])])\<rparr>)"
    using im buf diff_errors [OF assms(1,2), of buf] assms(3)
    by (simp add: Experiment_Run_def array_new_def del: upt_Suc)
  then show ?thesis using im(1) buf(1) by blast
qed

text \<open>C24. \<open>Experiment::Run\<close> returns the number of cells whose mean moved by 16 grey levels or more on
  the trip through the JPEG, and logs it with the painted levels exactly when it is positive: the
  test on a signed byte does not hide a difference, although the byte wraps around.\<close>

theorem Experiment_Run_counts_moved:
  assumes "block_levels (ex_discretizations e)" and "indices_ok entries"
    and "length heap = 192" "dims 8 8 m8" "dims 4 4 m4"
    and trip: "\<And>im. length (im_data im) = 192 \<Longrightarrow> \<exists>buf. block_trip lib junk im = Some buf \<and> 192 \<le> length buf"
  shows "\<exists>im buf levels. FillFromInts entries (ex_discretizations e) \<lparr>im_data = heap, im_w = 24, im_h = 8\<rparr> = Some im \<and>
    block_trip lib junk im = Some buf \<and>
    levels = map (\<lambda>p. map (\<lambda>q. level_at (ex_discretizations e) entries (p * 4 + q)) [0..<4]) [0..<4] \<and>
    Experiment_Run lib junk heap m8 m4 entries e =
      Some (length (moved (ex_discretizations e) entries buf),
        e\<lparr>ex_log := (if moved (ex_discretizations e) entries buf = [] then ex_log e
          else ex_log e @ [(length (moved (ex_discretizations e) entries buf), levels)])\<rparr>)"
  using assms by (rule Experiment_Run_plain)

theorem Experiment_Run_counts_moved_witness:
  "\<exists>im buf e. FillFromInts (replicate 16 2) discretizations \<lparr>im_data = replicate 192 0, im_w = 24, im_h = 8\<rparr> = Some im \<and>
    block_trip (stored_lib 8 8) (\<lambda>_. 0) im = Some buf \<and>
    Experiment_Run (stored_lib 8 8) (\<lambda>_. 0) (replicate 192 0) (replicate 8 (replicate 8 0)) (replicate 4 (replicate 4 0))
      (replicate 16 2) (Experiment_new discretizations) = Some (length (moved discretizations (replicate 16 2) buf), e)"
proof -
  have trip: "\<exists>buf. block_trip (stored_lib 8 8) (\<lambda>_. 0) im = Some buf \<and> 192 \<le> length buf"
    if "length (im_data im) = 192" for im
    using stored_encode [of "im_data im" 8 8] stored_decode [of "im_data im" 8 8] that
    by (simp add: block_trip_def stored_lib_def)
  have "block_levels (ex_discretizations (Experiment_new discretizations))" "indices_ok (replicate 16 2)"
    "length (replicate 192 (0 :: byte)) = 192" "dims 8 8 (replicate 8 (replicate 8 (0 :: byte)))"
    "dims 4 4 (replicate 4 (replicate 4 (0 :: rat)))"
    using block_levels_program by (auto simp: Experiment_new_def indices_ok_def dims_def)
  from Experiment_Run_counts_moved [OF this trip] show ?thesis by (auto simp: Experiment_new_def)
qed

text \<open>The difference of two RGB buffers determines the first from the second: adding the second
  back, byte by byte modulo 256, gives the first. Buffers of different lengths abort.\<close>

lemma RGBDiff_invertible:
  "(case RGBDiff a b of
      None \<Rightarrow> length a \<noteq> length b
    | Some d \<Rightarrow> length d = length a \<and> map2 (\<lambda>x y. x + y) d b = a)"
proof (cases "length a = length b")
  case True
  then have "map2 (\<lambda>x y. x + y) (map2 (\<lambda>a b. a - b) a b) b = a"
    by (induction a b rule: list_induct2) simp_all
  with True show ?thesis by (simp add: RGBDiff_def)
qed (simp add: RGBDiff_def)

end
