(* ===== verification/Aesthete_Threads.thy ===== *)
theory Aesthete_Threads imports Queue Experiment Ecc_Message begin

text \<open>
  \<open>aesthete_thread.cc\<close>: what a generator does, that puts chunks of random matrices into a queue, and
  what a runner does with a chunk, an \<open>Experiment\<close> on each matrix; \<open>queue_main.cc\<close> and
  \<open>generate_aesthete_matrices.cc\<close>. \<open>In_Memory\<close> has the threads of both kinds at work on one queue.

  A \<open>CharMatrix\<close> is the list of its six bytes, a chunk is a list of matrices. The loop of a generator
  is a partial function into \<open>option\<close>, because it can run for ever; it is followed here with the queue
  to itself.
\<close>

type_synonym chunk = "byte list list"

section \<open>Generators\<close>

definition random_matrix :: "rng \<Rightarrow> (byte list \<times> rng) option" where
  "random_matrix rg = for_in [0..<6] (\<lambda>j (matrix, rg). do {
     (c, rg) \<leftarrow> RandChar rg;
     matrix \<leftarrow> wr matrix j c;
     Some (matrix, rg) }) (replicate 6 0, rg)"

text \<open>The inner loop, on the two counters, the generator's state and the chunk.\<close>

function chunk_loop :: "int \<Rightarrow> int \<Rightarrow> int \<Rightarrow> int \<Rightarrow> rng \<Rightarrow> chunk \<Rightarrow> (int \<times> rng \<times> chunk) option" where
  "chunk_loop num csize generated chunk_i rg matrices =
     (if generated < num \<and> chunk_i < csize then do {
        (matrix, rg) \<leftarrow> random_matrix rg;
        chunk_loop num csize (generated + 1) (chunk_i + 1) rg (matrices @ [matrix]) }
      else Some (generated, rg, matrices))"
  by pat_completeness auto
termination by (relation "measure (\<lambda>(num, csize, generated, _). nat (num - generated))") auto

text \<open>
  A round of the outer loop, with the queue that the chunk is put into (\<open>put(matrices, true, 0)\<close>).
  \<open>reserve(FLAGS_chunk_size)\<close> throws when the size is negative; \<open>csize\<close> is this flag too, which every
  caller passes as the chunk size.
\<close>

definition generator_round :: "int \<Rightarrow> int \<Rightarrow> int \<Rightarrow> rng \<Rightarrow> chunk queue \<Rightarrow> (int \<times> rng \<times> chunk queue) option" where
  "generator_round num csize generated rg q = do {
     check (0 \<le> csize);
     (generated, rg, matrices) \<leftarrow> chunk_loop num csize generated 0 rg [];
     (r, q, n) \<leftarrow> put matrices True 0 (0, 0) q;
     Some (generated, rg, q) }"

partial_function (option) generator_loop ::
  "int \<Rightarrow> int \<Rightarrow> int \<Rightarrow> rng \<Rightarrow> chunk queue \<Rightarrow> chunk queue option" where
  "generator_loop num csize generated rg q =
     (if generated < num then do {
        (generated, rg, q) \<leftarrow> generator_round num csize generated rg q;
        generator_loop num csize generated rg q }
      else Some q)"

text \<open>\<open>Generator::Run\<close> and \<open>ECCGenerator::Run\<close> have the same body.\<close>

definition Generator_Run :: "int \<Rightarrow> int \<Rightarrow> rng \<Rightarrow> chunk queue \<Rightarrow> chunk queue option" where
  "Generator_Run num_matrices chunk_size rg q = generator_loop num_matrices chunk_size 0 rg q"

definition ECCGenerator_Run :: "int \<Rightarrow> int \<Rightarrow> rng \<Rightarrow> chunk queue \<Rightarrow> chunk queue option" where
  "ECCGenerator_Run num_matrices chunk_size rg q = generator_loop num_matrices chunk_size 0 rg q"

section \<open>Runners\<close>

text \<open>The arguments that every run of the experiment gets.\<close>

record ('z, 'y) bench =
  b_lib :: "('z, 'y) jpeg_lib"
  b_junk :: "nat \<Rightarrow> byte"
  b_heap :: "byte list"
  b_m8 :: "byte list list"
  b_m4 :: "rat list list"

definition run_matrix :: "('z, 'y) bench \<Rightarrow> byte list \<Rightarrow> plain_experiment \<Rightarrow> plain_experiment option" where
  "run_matrix b matrix e = do {
     mr \<leftarrow> InitFromString matrix;
     matrix_entries \<leftarrow> ToInts mr;
     (n, e) \<leftarrow> Experiment_Run (b_lib b) (b_junk b) (b_heap b) (b_m8 b) (b_m4 b) matrix_entries e;
     Some e }"

definition run_chunk :: "('z, 'y) bench \<Rightarrow> chunk \<Rightarrow> plain_experiment \<Rightarrow> plain_experiment option" where
  "run_chunk b matrices e = for_in matrices (run_matrix b) e"

section \<open>The programs\<close>

text \<open>\<open>queue_main\<close>: what it logs and prints.\<close>

partial_function (option) drain_queue :: "int queue \<Rightarrow> int list \<Rightarrow> (int queue \<times> int list) option" where
  "drain_queue q cout =
     (if \<not> empty_queue q then do {
        (r, q, n) \<leftarrow> get True 0 (0, 0) q;
        (case r of Handed i \<Rightarrow> drain_queue q (cout @ [i]) | _ \<Rightarrow> None) }
      else Some (q, cout))"

definition queue_main :: "(string \<times> int list) option" where
  "queue_main = do {
     let q = Queue_new 10;
     (r, q, n) \<leftarrow> put 1 True 0 (0, 0) q;
     (r, q, n) \<leftarrow> put 2 True 0 (0, 0) q;
     (r, q, n) \<leftarrow> put 3 True 0 (0, 0) q;
     let pempty = (if empty_queue q then ''empty'' else ''not empty'');
     (q, cout) \<leftarrow> drain_queue q [];
     Queue_delete q;
     Some (pempty, cout) }"

text \<open>\<open>generate_aesthete_matrices\<close>: the bar of \<open>printProgBar\<close>, and the file it writes; \<open>rand\<close> is the
  sequence of values that \<open>rand()\<close> returns.\<close>

definition progress_bar :: "int \<Rightarrow> string" where
  "progress_bar percent = map (\<lambda>i. if int i < percent div 2 then CHR ''=''
     else if int i = percent div 2 then CHR ''>'' else CHR '' '') [0..<50]"

definition generate_matrices :: "(nat \<Rightarrow> nat) \<Rightarrow> nat \<Rightarrow> byte list option" where
  "generate_matrices rand num_matrices = do {
     (to_write, file) \<leftarrow> for_in [0..<num_matrices] (\<lambda>i (to_write, file). do {
       mr \<leftarrow> InitFromInts (map (\<lambda>j. int (rand (16 * i + j) mod 8)) [0..<16]);
       s \<leftarrow> ToString mr;
       let to_write = to_write @ take 6 s;
       if (i + 1) mod 512 = 0 then do {
         check (512 * 6 \<le> length to_write);
         Some ([], file @ take (512 * 6) to_write) }
       else Some (to_write, file) }) ([], []);
     Some (if length to_write > 0 then file @ to_write else file) }"

section \<open>Chunks\<close>

declare chunk_loop.simps [simp del]

lemma random_matrix_total:
  assumes "length rg = 3"
  shows "\<exists>m rg'. random_matrix rg = Some (m, rg') \<and> length m = 6 \<and> length rg' = 3"
proof -
  let ?P = "\<lambda>(i :: nat) (m :: byte list, p :: rng). length m = 6 \<and> length p = 3"
  have "\<exists>s. random_matrix rg = Some s \<and> ?P 6 s"
    unfolding random_matrix_def
  proof (rule for_in_upt [where P = ?P])
    fix i :: nat and s :: "byte list \<times> rng"
    assume i: "i < 6" and P: "?P i s"
    obtain m p where s: "s = (m, p)" by (cases s)
    then obtain c p' where "RandChar p = Some (c, p')" "length p' = 3" using P RandChar_total [of p] by auto
    with i P s show "\<exists>s'. (case s of (m, p) \<Rightarrow> do { (c, p) \<leftarrow> RandChar p; m \<leftarrow> wr m i c; Some (m, p) }) = Some s' \<and> ?P (Suc i) s'"
      by (simp add: wr_def)
  qed (use assms in auto)
  then show ?thesis by auto
qed

text \<open>The matrices that a generator makes are the first \<open>n\<close> that its random numbers give.\<close>

primrec random_matrices :: "nat \<Rightarrow> rng \<Rightarrow> (chunk \<times> rng) option" where
  "random_matrices 0 rg = Some ([], rg)"
| "random_matrices (Suc n) rg = do {
     (m, rg) \<leftarrow> random_matrix rg; (ms, rg) \<leftarrow> random_matrices n rg; Some (m # ms, rg) }"

lemma random_matrices_total:
  "length rg = 3 \<Longrightarrow> \<exists>ms rg'. random_matrices n rg = Some (ms, rg') \<and> length ms = n \<and> length rg' = 3 \<and> (\<forall>m\<in>set ms. length m = 6)"
proof (induction n arbitrary: rg)
  case (Suc n)
  obtain m p where m: "random_matrix rg = Some (m, p)" "length m = 6" "length p = 3"
    using random_matrix_total Suc.prems by blast
  with Suc.IH [of p] show ?case by fastforce
qed simp

lemma random_matrices_add:
  "random_matrices (m + n) rg = do {
     (xs, rg) \<leftarrow> random_matrices m rg; (ys, rg) \<leftarrow> random_matrices n rg; Some (xs @ ys, rg) }"
proof (induction m arbitrary: rg)
  case 0
  then show ?case by (cases "random_matrices n rg") auto
next
  case (Suc m)
  show ?case
  proof (cases "random_matrix rg")
    case (Some p)
    obtain x rg1 where p: "p = (x, rg1)" by (cases p)
    show ?thesis
    proof (cases "random_matrices m rg1")
      case (Some q)
      obtain xs rg2 where "q = (xs, rg2)" by (cases q)
      with Some p \<open>random_matrix rg = Some p\<close> Suc.IH [of rg1] show ?thesis
        by (cases "random_matrices n rg2") auto
    qed (use Some p Suc.IH [of rg1] in simp)
  qed simp
qed

lemma chunk_loop_random:
  "chunk_loop num csize g i rg acc = do {
     (ms, rg) \<leftarrow> random_matrices (nat (min (num - g) (csize - i))) rg;
     Some (g + max 0 (min (num - g) (csize - i)), rg, acc @ ms) }"
proof (induction num csize g i rg acc rule: chunk_loop.induct)
  case (1 num csize g i rg acc)
  show ?case
  proof (cases "g < num \<and> i < csize")
    case False
    then have n: "nat (min (num - g) (csize - i)) = 0" "max 0 (min (num - g) (csize - i)) = 0" by auto
    show ?thesis unfolding n by (subst chunk_loop.simps) (simp only: False if_False, simp)
  next
    case True
    have n: "nat (min (num - g) (csize - i)) = Suc (nat (min (num - (g + 1)) (csize - (i + 1))))"
      "g + max 0 (min (num - g) (csize - i)) = g + 1 + max 0 (min (num - (g + 1)) (csize - (i + 1)))"
      using True by auto
    show ?thesis
    proof (cases "random_matrix rg")
      case (Some p)
      obtain m rg1 where p: "p = (m, rg1)" by (cases p)
      from 1 [OF True Some p [symmetric]] show ?thesis
        unfolding n using True Some p
        by (cases "random_matrices (nat (min (num - (g + 1)) (csize - (i + 1)))) rg1")
          (auto simp: chunk_loop.simps [of num csize g])
    qed (use True n in \<open>simp add: chunk_loop.simps [of num csize g]\<close>)
  qed
qed

text \<open>A chunk holds the smaller of what is left and the chunk size.\<close>

lemma chunk_loop_spec:
  assumes "length rg = 3"
  shows "\<exists>rg' ms. chunk_loop num csize g i rg acc = Some (g + max 0 (min (num - g) (csize - i)), rg', acc @ ms) \<and>
    length rg' = 3 \<and> int (length ms) = max 0 (min (num - g) (csize - i)) \<and> (\<forall>m\<in>set ms. length m = 6)"
  using assms
proof (induction num csize g i rg acc rule: chunk_loop.induct)
  case (1 num csize g i rg acc)
  show ?case
  proof (cases "g < num \<and> i < csize")
    case False
    then have "max 0 (min (num - g) (csize - i)) = 0" by auto
    moreover have "chunk_loop num csize g i rg acc = Some (g, rg, acc)"
      by (subst chunk_loop.simps) (simp only: False if_False)
    ultimately show ?thesis using 1(2) by simp
  next
    case True
    obtain m p where m: "random_matrix rg = Some (m, p)" "length m = 6" "length p = 3"
      using random_matrix_total 1(2) by blast
    have n: "g + 1 + max 0 (min (num - (g + 1)) (csize - (i + 1))) = g + max 0 (min (num - g) (csize - i))"
      "max 0 (min (num - (g + 1)) (csize - (i + 1))) + 1 = max 0 (min (num - g) (csize - i))"
      using True by auto
    obtain p' ms where "chunk_loop num csize (g + 1) (i + 1) p (acc @ [m]) =
        Some (g + 1 + max 0 (min (num - (g + 1)) (csize - (i + 1))), p', (acc @ [m]) @ ms)"
      "length p' = 3" "int (length ms) = max 0 (min (num - (g + 1)) (csize - (i + 1)))" "\<forall>m\<in>set ms. length m = 6"
      using 1(1) [OF True m(1) refl m(3)] by blast
    then show ?thesis
      using True m n by (intro exI [of _ p'] exI [of _ "m # ms"]) (simp add: chunk_loop.simps [of num csize g])
  qed
qed

text \<open>A generator with a positive chunk size puts chunks that together hold all its matrices.\<close>

lemma generator_loop_spec:
  assumes "0 < csize" "length rg = 3" "unfinished_tasks q + (num - g) < 2 ^ 31"
  shows "\<exists>q' cs. generator_loop num csize g rg q = Some q' \<and> items q' = items q @ cs \<and>
    unfinished_tasks q' = unfinished_tasks q + int (length cs) \<and> int (length (concat cs)) = max 0 (num - g) \<and>
    (\<forall>c\<in>set cs. 0 < length c \<and> int (length c) \<le> csize \<and> (\<forall>m\<in>set c. length m = 6)) \<and>
    int (length cs) = (max 0 (num - g) + csize - 1) div csize"
  using assms(2,3)
proof (induction "nat (num - g)" arbitrary: g rg q rule: less_induct)
  case less
  show ?case
  proof (cases "g < num")
    case False
    then have "max 0 (num - g) = 0" "(csize - 1) div csize = 0" using assms(1) by auto
    then show ?thesis using False by (simp add: generator_loop.simps [of num csize g])
  next
    case True
    let ?k = "min (num - g) csize"
    have k: "max 0 (min (num - g) (csize - 0)) = ?k" "0 < ?k" using True assms(1) by auto
    obtain p ms where c: "chunk_loop num csize g 0 rg [] = Some (g + ?k, p, [] @ ms)" "length p = 3"
      "int (length ms) = ?k" "\<forall>m\<in>set ms. length m = 6"
      using chunk_loop_spec [OF less.prems(1), of num csize g 0 "[]"] unfolding k(1) by blast
    let ?q = "q\<lparr>items := items q @ [ms], unfinished_tasks := unfinished_tasks q + 1\<rparr>"
    have p: "put ms True 0 (0, 0) q = Some (Stored ms, ?q, Signal Not_empty)"
      using less.prems(2) True by (simp add: put_def put_store_def)
    have lt: "nat (num - (g + ?k)) < nat (num - g)" using k(2) True by linarith
    have "unfinished_tasks ?q = unfinished_tasks q + 1" by simp
    then have room: "unfinished_tasks ?q + (num - (g + ?k)) < 2 ^ 31" using k(2) less.prems(2) by linarith
    obtain q' cs where q': "generator_loop num csize (g + ?k) p ?q = Some q'" "items q' = items ?q @ cs"
      "unfinished_tasks q' = unfinished_tasks ?q + int (length cs)" "int (length (concat cs)) = max 0 (num - (g + ?k))"
      "\<forall>c\<in>set cs. 0 < length c \<and> int (length c) \<le> csize \<and> (\<forall>m\<in>set c. length m = 6)"
      "int (length cs) = (max 0 (num - (g + ?k)) + csize - 1) div csize"
      using less.hyps [OF lt c(2) room] by blast
    have "generator_loop num csize g rg q = Some q'"
      using True c(1) p q'(1) assms(1) by (simp add: generator_loop.simps [of num csize g] generator_round_def)
    moreover have "int (length (concat (ms # cs))) = max 0 (num - g)" using q'(4) c(3) True by auto
    moreover have "int (length (ms # cs)) = (max 0 (num - g) + csize - 1) div csize"
    proof (cases "num - g \<le> csize")
      case le: True
      then have "(num - g + csize - 1) div csize = 1" using True by (intro int_div_pos_eq [where r = "num - g - 1"]) auto
      moreover have "(0 + csize - 1) div csize = 0" using assms(1) by simp
      ultimately show ?thesis using q'(6) True le by simp
    next
      case False
      have "num - g + csize - 1 = (num - (g + csize) + csize - 1) + 1 * csize" by simp
      then have "(num - g + csize - 1) div csize = (num - (g + csize) + csize - 1) div csize + 1"
        using assms(1) by (simp only: div_mult_self1)
      then show ?thesis using q'(6) False True by simp
    qed
    ultimately show ?thesis
      using q'(2,3,5) c(3,4) k(2) by (intro exI [of _ q'] exI [of _ "ms # cs"]) auto
  qed
qed

text \<open>Without a positive chunk size it never comes to an end: with size 0 it puts empty chunks for ever, and
  with a negative one \<open>reserve\<close> throws.\<close>

lemma chunk_loop_empty: "csize \<le> i \<Longrightarrow> chunk_loop num csize g i rg acc = Some (g, rg, acc)"
  by (subst chunk_loop.simps) simp

lemma generator_loop_stuck:
  "generator_loop num csize g rg q = Some q' \<Longrightarrow> csize \<le> 0 \<longrightarrow> num \<le> g"
proof (induction rule: generator_loop.raw_induct [rotated, consumes 1, case_names step])
  case (step loop num csize g rg q q')
  show ?case
  proof (rule impI, rule ccontr)
    assume c: "csize \<le> 0" "\<not> num \<le> g"
    then have "chunk_loop num csize g 0 rg [] = Some (g, rg, [])" by (simp add: chunk_loop_empty)
    with step(2) c obtain q1 where "loop num csize g rg q1 = Some q'"
      by (auto simp: generator_round_def elim!: bindE)
    from step(1) [OF this] c show False by simp
  qed
qed

section \<open>Running a chunk\<close>

lemma run_chunk_append: "run_chunk b (xs @ ys) e = do { e \<leftarrow> run_chunk b xs e; run_chunk b ys e }"
  by (simp add: run_chunk_def for_in_append)

lemma get_nonblock:
  "get False t clock q = Some (case items q of [] \<Rightarrow> (Nothing, q, Silence) | x # xs \<Rightarrow> (Handed x, q\<lparr>items := xs\<rparr>, Signal Not_full))"
  by (simp add: get_def get_take_def split: list.splits)

text \<open>The arguments with which every run of the experiment returns.\<close>

definition bench_ok :: "('z, 'y) bench \<Rightarrow> bool" where
  "bench_ok b \<longleftrightarrow> length (b_heap b) = 192 \<and> dims 8 8 (b_m8 b) \<and> dims 4 4 (b_m4 b) \<and>
     (\<forall>im. length (im_data im) = 192 \<longrightarrow> (\<exists>buf. block_trip (b_lib b) (b_junk b) im = Some buf \<and> 192 \<le> length buf))"

lemma run_matrix_total:
  assumes "bench_ok b" "length m = 6" "block_levels (ex_discretizations e)"
  shows "\<exists>e'. run_matrix b m e = Some e' \<and> ex_discretizations e' = ex_discretizations e"
proof -
  have bits: "length (bits_of m) = 48" using assms(2) by (simp add: len_simps)
  let ?ints = "map (tri (bits_of m)) [0..<16]"
  have "indices_ok ?ints" using tri_range [of "bits_of m"] by (auto simp: indices_ok_def)
  then have "\<exists>n e'. Experiment_Run (b_lib b) (b_junk b) (b_heap b) (b_m8 b) (b_m4 b) ?ints e = Some (n, e') \<and>
      ex_discretizations e' = ex_discretizations e"
    using Experiment_Run_plain [OF assms(3), of ?ints "b_heap b" "b_m8 b" "b_m4 b" "b_lib b" "b_junk b"] assms(1)
    unfolding bench_ok_def by fastforce
  then show ?thesis
    using assms(2) bits by (auto simp: run_matrix_def InitFromString_eq ToInts_eq)
qed

lemma run_chunk_total:
  assumes "bench_ok b" "\<forall>m\<in>set ms. length m = 6" "block_levels (ex_discretizations e)"
  shows "\<exists>e'. run_chunk b ms e = Some e'"
  using for_in_inv [of "\<lambda>e. block_levels (ex_discretizations e)" e ms "run_matrix b"]
    run_matrix_total [OF assms(1)] assms(2,3)
  unfolding run_chunk_def by (metis (no_types, lifting))

section \<open>The file of matrices\<close>

definition matrix_ints :: "(nat \<Rightarrow> nat) \<Rightarrow> nat \<Rightarrow> int list" where
  "matrix_ints rand i = map (\<lambda>j. int (rand (16 * i + j) mod 8)) [0..<16]"

lemma ints_bytes:
  assumes "length vs = 16" "\<forall>v\<in>set vs. 0 \<le> v \<and> v < 8"
  shows "\<exists>s. do { mr \<leftarrow> InitFromInts vs; ToString mr } = Some s \<and> length s = 6 \<and>
    do { mr \<leftarrow> InitFromString s; ToInts mr } = Some vs"
proof -
  let ?bits = "map (\<lambda>j. bit (vs ! (j div 3)) (j mod 3)) [0..<48]"
  have i: "InitFromInts vs = Some ?bits" using InitFromInts_eq [OF assms(1)] assms(2) by force
  obtain s where s: "bitset_to_bytes ?bits = Some s" "length s = 6"
    using bitset_to_bytes_spec [of ?bits] by auto
  then have b: "bits_of s = ?bits" using bits_of_bitset_to_bytes [OF s(1), of 6] by simp
  have "map (tri ?bits) [0..<16] = vs"
  proof (rule nth_equalityI)
    fix k assume "k < length (map (tri ?bits) [0..<16])"
    then have k: "k < 16" by simp
    then have "vs ! k \<in> set vs" using assms(1) by simp
    then have "0 \<le> vs ! k" "vs ! k < 8" using assms(2) by auto
    then show "map (tri ?bits) [0..<16] ! k = vs ! k" using tri_of_ints [OF k] k by simp
  qed (simp add: assms(1))
  then have "ToInts ?bits = Some vs" using ToInts_eq [of ?bits] by (simp del: upt_Suc)
  moreover have "InitFromString s = Some ?bits" using InitFromString_eq [of s] s(2) b by simp
  ultimately show ?thesis using i s by (auto simp: ToString_def)
qed

definition matrix_bytes :: "(nat \<Rightarrow> nat) \<Rightarrow> nat \<Rightarrow> byte list" where
  "matrix_bytes rand i = the (do { mr \<leftarrow> InitFromInts (matrix_ints rand i); ToString mr })"

lemma matrix_bytes_spec:
  "do { mr \<leftarrow> InitFromInts (matrix_ints rand i); ToString mr } = Some (matrix_bytes rand i)"
  "length (matrix_bytes rand i) = 6"
  "do { mr \<leftarrow> InitFromString (matrix_bytes rand i); ToInts mr } = Some (matrix_ints rand i)"
proof -
  obtain s where "do { mr \<leftarrow> InitFromInts (matrix_ints rand i); ToString mr } = Some s" "length s = 6"
    "do { mr \<leftarrow> InitFromString s; ToInts mr } = Some (matrix_ints rand i)"
    using ints_bytes [of "matrix_ints rand i"] by (auto simp: matrix_ints_def)
  then show "do { mr \<leftarrow> InitFromInts (matrix_ints rand i); ToString mr } = Some (matrix_bytes rand i)"
    "length (matrix_bytes rand i) = 6"
    "do { mr \<leftarrow> InitFromString (matrix_bytes rand i); ToInts mr } = Some (matrix_ints rand i)"
    by (simp_all add: matrix_bytes_def)
qed

lemma generate_matrices_eq:
  "generate_matrices rand n = Some (concat (map (matrix_bytes rand) [0..<n]))"
proof -
  let ?body = "\<lambda>i (to_write :: byte list, file). do {
       mr \<leftarrow> InitFromInts (map (\<lambda>j. int (rand (16 * i + j) mod 8)) [0..<16]);
       s \<leftarrow> ToString mr;
       let to_write = to_write @ take 6 s;
       if (i + 1) mod 512 = 0 then do {
         check (512 * 6 \<le> length to_write);
         Some ([], file @ take (512 * 6) to_write) }
       else Some (to_write, file) }"
  let ?P = "\<lambda>k (to_write, file). file @ to_write = concat (map (matrix_bytes rand) [0..<k]) \<and> length to_write = 6 * (k mod 512)"
  have "\<exists>s. for_in [0..<n] ?body ([], []) = Some s \<and> ?P n s"
  proof (rule for_in_upt [where P = ?P])
    fix i :: nat and s :: "byte list \<times> byte list"
    assume P: "?P i s"
    obtain w fl where s: "s = (w, fl)" by (cases s)
    have m: "\<And>f. do { mr \<leftarrow> InitFromInts (map (\<lambda>j. int (rand (16 * i + j) mod 8)) [0..<16]); s \<leftarrow> ToString mr; f s } = f (matrix_bytes rand i)"
      using matrix_bytes_spec(1) [of rand i] by (auto simp: matrix_ints_def simp del: upt_Suc elim!: bindE)
    have "length (w @ matrix_bytes rand i) = 6 * Suc (i mod 512)" using P s matrix_bytes_spec(2) by simp
    moreover have "concat (map (matrix_bytes rand) [0..<Suc i]) = (fl @ w) @ matrix_bytes rand i" using P s by simp
    moreover have "Suc i mod 512 = (if Suc (i mod 512) = 512 then 0 else Suc (i mod 512))" by (rule mod_Suc)
    ultimately show "\<exists>s'. ?body i s = Some s' \<and> ?P (Suc i) s'"
      using P s matrix_bytes_spec(2) [of rand i] unfolding m s prod.case
      by (auto simp: Let_def m simp del: upt_Suc)
  qed auto
  then show ?thesis by (auto simp: generate_matrices_def)
qed

lemma concat_slice:
  assumes "\<And>i. length (f i) = c" "i < n"
  shows "take c (drop (c * i) (concat (map f [0..<n]))) = f i"
proof -
  have l: "length (concat (map f [0..<i])) = c * i"
    using assms(1) by (induction i) (simp_all add: algebra_simps)
  have "[0..<n] = [0..<i] @ i # [Suc i..<n]"
    using assms(2) upt_add_eq_append [of 0 i "n - i"] by (simp add: upt_conv_Cons)
  then have "concat (map f [0..<n]) = concat (map f [0..<i]) @ f i @ concat (map f [Suc i..<n])" by simp
  then show ?thesis using l assms(1) [of i] by simp
qed

section \<open>Properties\<close>

text \<open>A bench around the libjpeg that stores the rows.\<close>

definition stored_bench :: "(unit, byte list) bench" where
  "stored_bench = \<lparr>b_lib = stored_lib 8 8, b_junk = (\<lambda>_. 0), b_heap = replicate 192 0,
     b_m8 = replicate 8 (replicate 8 0), b_m4 = replicate 4 (replicate 4 0)\<rparr>"

lemma stored_bench_ok: "bench_ok stored_bench"
proof -
  have "\<exists>buf. block_trip (stored_lib 8 8) (\<lambda>_. 0) im = Some buf \<and> 192 \<le> length buf"
    if "length (im_data im) = 192" for im
    using stored_encode [of "im_data im" 8 8] stored_decode [of "im_data im" 8 8] that
    by (simp add: block_trip_def stored_lib_def)
  then show ?thesis by (auto simp: bench_ok_def stored_bench_def dims_def)
qed

text \<open>C26. A generator returns exactly when its chunk size is positive or there is nothing to make:
  with a chunk size of 0 it puts empty chunks for ever, and with a negative one \<open>reserve\<close> throws.\<close>

theorem Generator_Run_returns_iff:
  assumes "length rg = 3" "unfinished_tasks q + num < 2 ^ 31"
  shows "(\<exists>q'. Generator_Run num csize rg q = Some q') \<longleftrightarrow> 0 < csize \<or> num \<le> 0"
proof
  assume "\<exists>q'. Generator_Run num csize rg q = Some q'"
  then show "0 < csize \<or> num \<le> 0" using generator_loop_stuck by (fastforce simp: Generator_Run_def)
next
  assume "0 < csize \<or> num \<le> 0"
  moreover have "unfinished_tasks q + (num - 0) < 2 ^ 31" using assms(2) by simp
  ultimately show "\<exists>q'. Generator_Run num csize rg q = Some q'"
    using generator_loop_spec [of csize rg q num 0] assms(1)
    by (auto simp: Generator_Run_def generator_loop.simps [of num csize 0])
qed

theorem Generator_Run_returns_iff_witness:
  "Generator_Run 5 0 [1, 2, 3] (Queue_new 0) = None \<and> (\<exists>q'. Generator_Run 5 2 [1, 2, 3] (Queue_new 0) = Some q')"
proof -
  have a: "length [1, 2, 3 :: u16] = 3" "unfinished_tasks (Queue_new 0 :: chunk queue) + 5 < 2 ^ 31"
    by (simp_all add: Queue_new_def)
  have "\<not> (\<exists>q'. Generator_Run 5 0 [1, 2, 3] (Queue_new 0) = Some q')"
    using Generator_Run_returns_iff [OF a, of 0] by simp
  moreover have "\<exists>q'. Generator_Run 5 2 [1, 2, 3] (Queue_new 0) = Some q'"
    using Generator_Run_returns_iff [OF a, of 2] by simp
  ultimately show ?thesis by auto
qed

text \<open>The file that \<open>generate_aesthete_matrices\<close> writes has six bytes per matrix, whatever the
  pieces it is written in, and reading any six of them back gives the sixteen random
  indices of that matrix.\<close>

lemma generate_matrices_readable:
  "\<exists>out. generate_matrices rand n = Some out \<and> length out = 6 * n \<and>
    (\<forall>i < n. do { mr \<leftarrow> InitFromString (take 6 (drop (6 * i) out)); ToInts mr } = Some (matrix_ints rand i))"
proof -
  let ?out = "concat (map (matrix_bytes rand) [0..<n])"
  have "length ?out = 6 * n" by (induction n) (simp_all add: matrix_bytes_spec(2))
  moreover have "\<forall>i < n. do { mr \<leftarrow> InitFromString (take 6 (drop (6 * i) ?out)); ToInts mr } = Some (matrix_ints rand i)"
    using concat_slice [of "matrix_bytes rand" 6 _ n] matrix_bytes_spec by simp
  ultimately show ?thesis using generate_matrices_eq [of rand n] by (intro exI [of _ ?out]) simp
qed

lemma queue_main_prints: "queue_main = Some (''not empty'', [1, 2, 3])"
  by (simp add: queue_main_def put_def put_store_def Queue_new_def empty_queue_def drain_queue.simps get_defs
    Queue_delete_def qsize_def)

end
