(* ===== verification/In_Memory.thy ===== *)
theory In_Memory imports Aesthete_Threads begin

text \<open>
  \<open>in_memory_experiment.cc\<close> with the threads of \<open>aesthete_thread.cc\<close>: generators put chunks into one
  queue, runners take them out, and \<open>main\<close> starts, tells and joins them, on every schedule.

  A step of a thread is what it does up to and including its next access of something shared, which is a
  critical section of the queue, the flag \<open>done_\<close> of a runner, or the end of a thread in \<open>pthread_join\<close>; what
  happens in between touches memory of the thread only. A schedule is a list of threads, of which each
  takes its next step in its turn, or does nothing when it has not been started, is blocked or is at its end.
  \<open>None\<close> is a failed CHECK, which aborts the program.

  \<open>get\<close> is called without blocking, and \<open>put\<close> with blocking never waits, so only \<open>main\<close> sleeps, in
  \<open>join\<close>. \<open>done_\<close> is a plain bool that two threads access without a lock; the model takes its reads and
  writes in the order of the schedule.
\<close>

section \<open>The state\<close>

record generator =
  g_generated :: int
  g_rng :: rng

datatype runner_pc = Asking | Saw_nothing | Holding chunk | Ended

record runner =
  r_pc :: runner_pc
  r_experiment :: plain_experiment
  r_done :: bool

text \<open>Where \<open>main\<close> is: how many threads it has started, in \<open>queue.join()\<close>, asleep there, at the \<open>Join\<close> of a
  generator, at the \<open>Done\<close> or the \<open>Join\<close> of a runner, at the end, where the queue is destroyed, and after it.\<close>

datatype main_pc = Starting nat | Joining_queue | Asleep | Joining_generator nat | Telling nat
  | Joining_runner nat | Destroying | Finished

record program =
  p_queue :: "chunk queue"
  p_generators :: "generator list"
  p_runners :: "runner list"
  p_main :: main_pc

datatype thread = Main | Generator nat | Runner nat | Spurious

section \<open>Steps\<close>

text \<open>\<open>pthread_cond_broadcast(&all_tasks_done_)\<close> wakes \<open>main\<close>; nobody waits on the other two conditions.\<close>

definition woken :: "notice \<Rightarrow> main_pc \<Rightarrow> main_pc" where
  "woken n pc = (if n = Broadcast All_tasks_done \<and> pc = Asleep then Joining_queue else pc)"

text \<open>A round of a generator; its thread is at an end when it has made its matrices.\<close>

definition generator_step :: "int \<Rightarrow> int \<Rightarrow> nat \<Rightarrow> program \<Rightarrow> program option option" where
  "generator_step num csize i s =
     (let g = p_generators s ! i in
      if g_generated g < num then do {
        (generated, rg, q) \<leftarrow> generator_round num csize (g_generated g) (g_rng g) (p_queue s);
        Some (Some (s\<lparr>p_queue := q, p_generators := (p_generators s)[i := \<lparr>g_generated = generated, g_rng = rg\<rparr>]\<rparr>)) }
      else Some None)"

definition runner_step :: "('z, 'y) bench \<Rightarrow> nat \<Rightarrow> program \<Rightarrow> program option option" where
  "runner_step b i s =
     (let r = p_runners s ! i in
      case r_pc r of
        Asking \<Rightarrow> do {
          (queue_resp, q, n) \<leftarrow> get False 5 (0, 0) (p_queue s);
          let pc = (case queue_resp of Handed queue_entry \<Rightarrow> Holding queue_entry | _ \<Rightarrow> Saw_nothing);
          Some (Some (s\<lparr>p_queue := q, p_runners := (p_runners s)[i := r\<lparr>r_pc := pc\<rparr>]\<rparr>)) }
      | Saw_nothing \<Rightarrow>
          Some (Some (s\<lparr>p_runners := (p_runners s)[i := r\<lparr>r_pc := if r_done r then Ended else Asking\<rparr>]\<rparr>))
      | Holding queue_entry \<Rightarrow> do {
          e \<leftarrow> run_chunk b queue_entry (r_experiment r);
          (r', q, n) \<leftarrow> task_done (p_queue s);
          Some (Some (s\<lparr>p_queue := q, p_main := woken n (p_main s),
            p_runners := (p_runners s)[i := r\<lparr>r_pc := Asking, r_experiment := e\<rparr>]\<rparr>)) }
      | Ended \<Rightarrow> Some None)"

definition main_step :: "int \<Rightarrow> program \<Rightarrow> program option option" where
  "main_step num s =
     (case p_main s of
        Starting n \<Rightarrow> Some (Some (s\<lparr>p_main :=
          if n < length (p_generators s) + length (p_runners s) then Starting (n + 1) else Joining_queue\<rparr>))
      | Joining_queue \<Rightarrow> do {
          (r, q, n) \<leftarrow> join (p_queue s);
          Some (Some (s\<lparr>p_queue := q, p_main := if r = Joined then Joining_generator 0 else Asleep\<rparr>)) }
      | Asleep \<Rightarrow> Some None
      | Joining_generator i \<Rightarrow> Some (
          if i < length (p_generators s) then
            (if g_generated (p_generators s ! i) < num then None else Some (s\<lparr>p_main := Joining_generator (i + 1)\<rparr>))
          else Some (s\<lparr>p_main := Telling 0\<rparr>))
      | Telling i \<Rightarrow> Some (Some (
          if i < length (p_runners s) then
            s\<lparr>p_main := Telling (i + 1), p_runners := (p_runners s)[i := (p_runners s ! i)\<lparr>r_done := True\<rparr>]\<rparr>
          else s\<lparr>p_main := Joining_runner 0\<rparr>))
      | Joining_runner i \<Rightarrow> Some (
          if i < length (p_runners s) then
            (if r_pc (p_runners s ! i) = Ended then Some (s\<lparr>p_main := Joining_runner (i + 1)\<rparr>) else None)
          else Some (s\<lparr>p_main := Destroying\<rparr>))
      | Destroying \<Rightarrow> do { Queue_delete (p_queue s); Some (Some (s\<lparr>p_main := Finished\<rparr>)) }
      | Finished \<Rightarrow> Some None)"

text \<open>\<open>main\<close> starts the generators and then the runners.\<close>

definition started :: "program \<Rightarrow> nat \<Rightarrow> bool" where
  "started s k = (case p_main s of Starting n \<Rightarrow> k < n | _ \<Rightarrow> True)"

text \<open>A spurious wake-up, as POSIX allows, takes \<open>main\<close> to the test of \<open>join\<close> again.\<close>

fun thread_step :: "('z, 'y) bench \<Rightarrow> int \<Rightarrow> int \<Rightarrow> thread \<Rightarrow> program \<Rightarrow> program option option" where
  "thread_step b num csize Main s = main_step num s"
| "thread_step b num csize (Generator i) s =
     (if i < length (p_generators s) \<and> started s i then generator_step num csize i s else Some None)"
| "thread_step b num csize (Runner i) s =
     (if i < length (p_runners s) \<and> started s (length (p_generators s) + i) then runner_step b i s else Some None)"
| "thread_step b num csize Spurious s = Some (if p_main s = Asleep then Some (s\<lparr>p_main := Joining_queue\<rparr>) else None)"

primrec schedule :: "('z, 'y) bench \<Rightarrow> int \<Rightarrow> int \<Rightarrow> thread list \<Rightarrow> program \<Rightarrow> program option" where
  "schedule b num csize [] s = Some s"
| "schedule b num csize (t # ts) s = do {
     r \<leftarrow> thread_step b num csize t s;
     schedule b num csize ts (case r of None \<Rightarrow> s | Some s \<Rightarrow> s) }"

text \<open>
  The program with the flags that count, on a schedule; \<open>seed i\<close> is the state that the random numbers of
  generator \<open>i\<close> start with. The number of matrices and the chunk size are flags of 64 bits that are passed
  as \<open>int\<close>; the theorems take them in that range.
\<close>

definition in_memory_start :: "nat \<Rightarrow> nat \<Rightarrow> u64 \<Rightarrow> (nat \<Rightarrow> rng) \<Rightarrow> program" where
  "in_memory_start gen_threads run_threads queue_size seed =
     \<lparr>p_queue = Queue_new queue_size,
      p_generators = map (\<lambda>i. \<lparr>g_generated = 0, g_rng = seed i\<rparr>) [0..<gen_threads],
      p_runners = map (\<lambda>i. \<lparr>r_pc = Asking, r_experiment = Experiment_new [240, 208, 176, 144, 112, 80, 48, 16],
        r_done = False\<rparr>) [0..<run_threads],
      p_main = Starting 0\<rparr>"

definition in_memory_main ::
  "('z, 'y) bench \<Rightarrow> nat \<Rightarrow> nat \<Rightarrow> int \<Rightarrow> int \<Rightarrow> u64 \<Rightarrow> (nat \<Rightarrow> rng) \<Rightarrow> thread list \<Rightarrow> program option" where
  "in_memory_main b gen_threads run_threads num_matrices chunk_size queue_size seed ts =
     schedule b (num_matrices div int gen_threads) chunk_size ts (in_memory_start gen_threads run_threads queue_size seed)"

section \<open>Sums over the threads\<close>






section \<open>Where the matrices are\<close>



definition in_hand :: "runner \<Rightarrow> byte list multiset" where
  "in_hand r = (case r_pc r of Holding c \<Rightarrow> mset c | _ \<Rightarrow> {#})"

definition holding :: "runner \<Rightarrow> nat" where
  "holding r = (case r_pc r of Holding c \<Rightarrow> 1 | _ \<Rightarrow> 0)"






section \<open>A step of a generator\<close>




section \<open>A step of a runner\<close>

text \<open>The four kinds of steps, as updates of the state.\<close>

lemma runner_asks:
  assumes "r_pc (p_runners s ! i) = Asking"
  shows "runner_step b i s = Some (Some (case items (p_queue s) of
      [] \<Rightarrow> s\<lparr>p_runners := (p_runners s)[i := (p_runners s ! i)\<lparr>r_pc := Saw_nothing\<rparr>]\<rparr>
    | c # cs \<Rightarrow> s\<lparr>p_queue := (p_queue s)\<lparr>items := cs\<rparr>, p_runners := (p_runners s)[i := (p_runners s ! i)\<lparr>r_pc := Holding c\<rparr>]\<rparr>))"
  using assms by (simp add: runner_step_def Let_def get_nonblock split: list.splits)

lemma runner_saw_nothing:
  assumes "r_pc (p_runners s ! i) = Saw_nothing"
  shows "runner_step b i s = Some (Some (s\<lparr>p_runners := (p_runners s)[i := (p_runners s ! i)\<lparr>r_pc :=
    if r_done (p_runners s ! i) then Ended else Asking\<rparr>]\<rparr>))"
  using assms by (simp add: runner_step_def Let_def)


lemma holding_simps [simp]:
  "holding (r\<lparr>r_pc := Asking\<rparr>) = 0" "holding (r\<lparr>r_pc := Saw_nothing\<rparr>) = 0" "holding (r\<lparr>r_pc := Ended\<rparr>) = 0"
  "holding (r\<lparr>r_pc := Holding c\<rparr>) = 1" "holding (r\<lparr>r_pc := Asking, r_experiment := e\<rparr>) = 0" "holding (r\<lparr>r_done := d\<rparr>) = holding r"
  "in_hand (r\<lparr>r_pc := Asking\<rparr>) = {#}" "in_hand (r\<lparr>r_pc := Saw_nothing\<rparr>) = {#}" "in_hand (r\<lparr>r_pc := Ended\<rparr>) = {#}"
  "in_hand (r\<lparr>r_pc := Holding c\<rparr>) = mset c" "in_hand (r\<lparr>r_pc := Asking, r_experiment := e\<rparr>) = {#}"
  "in_hand (r\<lparr>r_done := d\<rparr>) = in_hand r"
  by (simp_all add: holding_def in_hand_def)







section \<open>A step of main\<close>


section \<open>Schedules\<close>





section \<open>The program can always come to its end\<close>













section \<open>The whole program\<close>






text \<open>One generator, one runner and one matrix: a schedule on which the matrix is run, and one on which the
  program aborts. In the second the runner finds the queue empty, then the chunk is put, the generator
  ends and \<open>main\<close>, which saw no unfinished task before, tells the runner, which looks at its flag only now
  and ends.\<close>

lemma one_round:
  assumes "length rg = 3" "unfinished_tasks q = 0" "items q = []"
  shows "\<exists>m rg'. generator_round 1 1 0 rg q = Some (1, rg', q\<lparr>items := [[m]], unfinished_tasks := 1\<rparr>) \<and>
    random_matrices 1 rg = Some ([m], rg') \<and> length m = 6"
proof -
  obtain m p where m: "random_matrix rg = Some (m, p)" "length m = 6"
    using random_matrix_total assms(1) by blast
  then show ?thesis
    using assms(2,3)
    by (simp add: generator_round_def chunk_loop_random put_def put_store_def)
qed


text \<open>Because a chunk can be left in the queue although every generator and every runner has ended, a matrix
  can be lost, and then the CHECK in \<open>~Queue\<close> aborts the program.\<close>

lemma in_memory_main_can_abort:
  assumes "length (seed 0) = 3"
  shows "in_memory_main b 1 1 1 1 n seed
      ([Main, Main, Main, Main, Runner 0, Generator 0] @ replicate 4 Main @ [Runner 0] @ replicate 3 Main) = None"
proof -
  obtain m rg where m: "generator_round 1 1 0 (seed 0) (Queue_new n) = Some (1, rg, (Queue_new n)\<lparr>items := [[m]], unfinished_tasks := 1\<rparr>)"
    using one_round [OF assms, of "Queue_new n"] by (auto simp: Queue_new_def)
  then show ?thesis
    by (simp add: in_memory_main_def in_memory_start_def main_step_def runner_step_def generator_step_def started_def
        Let_def join_def get_nonblock Queue_delete_def qsize_def Queue_new_def numeral_eq_Suc)
qed

text \<open>A runner that has not been told does not wait on an empty queue: it asks again and again.\<close>

lemma runner_spins:
  assumes "i < length (p_runners s)" "r_pc (p_runners s ! i) = Asking" "\<not> r_done (p_runners s ! i)" "items (p_queue s) = []"
    and "started s (length (p_generators s) + i)"
  shows "schedule b num csize [Runner i, Runner i] s = Some s"
proof -
  let ?s = "s\<lparr>p_runners := (p_runners s)[i := (p_runners s ! i)\<lparr>r_pc := Saw_nothing\<rparr>]\<rparr>"
  have "thread_step b num csize (Runner i) s = Some (Some ?s)"
    using assms runner_asks [of s i b] by simp
  moreover have "(p_runners s ! i)\<lparr>r_pc := Asking\<rparr> = p_runners s ! i" using assms(2) by (cases "p_runners s ! i") simp
  then have "(p_runners s)[i := (p_runners s ! i)\<lparr>r_pc := Asking\<rparr>] = p_runners s" by (simp only: list_update_id)
  then have "thread_step b num csize (Runner i) ?s = Some (Some s)"
    using assms runner_saw_nothing [of ?s i b] by (simp add: started_def)
  ultimately show ?thesis by (simp del: thread_step.simps)
qed


end
