(* ===== verification/Base64.thy ===== *)
theory Base64 imports Base64_Tables begin

text \<open>
  \<open>modp_b64.cc\<close> and \<open>base64.cc\<close>: base64 encoding and decoding by table lookups. The decoder exists
  twice, for little-endian and for big-endian machines. A buffer is a list of bytes that is
  written in place; the functions return the C result and the buffer.

  The reference is RFC 4648: \<open>sextets_of\<close> cuts bytes into six-bit values, \<open>b64\<close> writes them in the
  alphabet with padding, and \<open>bytes_of\<close> puts the values together again.
\<close>

section \<open>Encoding\<close>

definition CHARPAD :: byte where "CHARPAD = 61"

text \<open>\<open>*p++ = c\<close>, on the buffer and the position of \<open>p\<close> in it.\<close>

definition emit :: "byte \<Rightarrow> byte list \<times> nat \<Rightarrow> (byte list \<times> nat) option" where
  "emit c s = (case s of (dest, p) \<Rightarrow> do { dest \<leftarrow> wr dest p c; Some (dest, p + 1) })"

text \<open>The conversion of a size, or of the difference of two pointers, to \<open>int\<close>.\<close>

definition to_int :: "nat \<Rightarrow> int" where
  "to_int n = sint (word_of_nat n :: 32 word)"

text \<open>The switch on the number of bytes left at \<open>i\<close>, and the end of the string; \<open>p - dest\<close> is returned as
  an \<open>int\<close>.\<close>

definition encode_rest :: "byte list \<Rightarrow> nat \<Rightarrow> int \<Rightarrow> byte list \<times> nat \<Rightarrow> (int \<times> byte list) option" where
  "encode_rest str i left s = do {
     (dest, p) \<leftarrow>
       (if left = 0 then Some s
        else if left = 1 then do {
          t1 \<leftarrow> rd str i;
          c0 \<leftarrow> rd e0 (unat t1);
          c1 \<leftarrow> rdz e1 (push_bit 4 (uint t1 AND 0x03));
          for_in [c0, c1, CHARPAD, CHARPAD] emit s }
        else do {
          t1 \<leftarrow> rd str i; t2 \<leftarrow> rd str (i + 1);
          c0 \<leftarrow> rd e0 (unat t1);
          c1 \<leftarrow> rdz e1 (push_bit 4 (uint t1 AND 0x03) OR (drop_bit 4 (uint t2) AND 0x0F));
          c2 \<leftarrow> rdz e2 (push_bit 2 (uint t2 AND 0x0F));
          for_in [c0, c1, c2, CHARPAD] emit s });
     dest \<leftarrow> wr dest p 0;
     Some (to_int p, dest) }"

definition modp_b64_encode :: "byte list \<Rightarrow> byte list \<Rightarrow> int \<Rightarrow> (int \<times> byte list) option" where
  "modp_b64_encode dest str len = do {
     let rounds = nat (len div 3);
     s \<leftarrow> for_in (map (\<lambda>k. 3 * k) [0..<rounds]) (\<lambda>i s. do {
       t1 \<leftarrow> rd str i; t2 \<leftarrow> rd str (i + 1); t3 \<leftarrow> rd str (i + 2);
       c0 \<leftarrow> rd e0 (unat t1);
       c1 \<leftarrow> rdz e1 (push_bit 4 (uint t1 AND 0x03) OR (drop_bit 4 (uint t2) AND 0x0F));
       c2 \<leftarrow> rdz e1 (push_bit 2 (uint t2 AND 0x0F) OR (drop_bit 6 (uint t3) AND 0x03));
       c3 \<leftarrow> rd e2 (unat t3);
       for_in [c0, c1, c2, c3] emit s }) (dest, 0);
     encode_rest str (3 * rounds) (len - int (3 * rounds)) s }"

definition modp_b64_encode_len :: "nat \<Rightarrow> nat" where
  "modp_b64_encode_len A = (A + 2) div 3 * 4 + 1"

definition modp_b64_decode_len :: "nat \<Rightarrow> nat" where
  "modp_b64_decode_len A = A div 4 * 3 + 2"

text \<open>\<open>std::string::resize\<close>.\<close>

definition string_resize :: "nat \<Rightarrow> byte list \<Rightarrow> byte list" where
  "string_resize n s = take n s @ replicate (n - length s) 0"

text \<open>The result is \<open>None\<close> inside when the C++ function returns false.\<close>

definition Base64Encode :: "byte list \<Rightarrow> byte list option option" where
  "Base64Encode input = do {
     let temp = replicate (modp_b64_encode_len (length input)) 0;
     (output_size, temp) \<leftarrow> modp_b64_encode temp input (to_int (length input));
     Some (if output_size < 0 then None else Some (string_resize (nat output_size) temp)) }"

section \<open>Decoding on a little-endian machine\<close>

text \<open>\<open>srcInt[k]\<close>, and the write \<open>*destInt = x\<close> at byte \<open>p\<close>.\<close>

definition load_le :: "byte list \<Rightarrow> nat \<Rightarrow> u32 option" where
  "load_le src k = do {
     b0 \<leftarrow> rd src (4 * k); b1 \<leftarrow> rd src (4 * k + 1); b2 \<leftarrow> rd src (4 * k + 2); b3 \<leftarrow> rd src (4 * k + 3);
     Some (word_of_nat (unat b0 + 2 ^ 8 * unat b1 + 2 ^ 16 * unat b2 + 2 ^ 24 * unat b3)) }"

definition store_le :: "byte list \<Rightarrow> nat \<Rightarrow> u32 \<Rightarrow> byte list option" where
  "store_le dest p x = do {
     dest \<leftarrow> wr dest p (ucast x); dest \<leftarrow> wr dest (p + 1) (ucast (drop_bit 8 x));
     dest \<leftarrow> wr dest (p + 2) (ucast (drop_bit 16 x)); wr dest (p + 3) (ucast (drop_bit 24 x)) }"

definition lookup4_le :: "u32 \<Rightarrow> u32 option" where
  "lookup4_le y = do {
     a \<leftarrow> rd le_d0 (unat (y AND 0xff)); b \<leftarrow> rd le_d1 (unat (drop_bit 8 y AND 0xff));
     c \<leftarrow> rd le_d2 (unat (drop_bit 16 y AND 0xff)); d \<leftarrow> rd le_d3 (unat (drop_bit 24 y AND 0xff));
     Some (a OR b OR c OR d) }"

text \<open>The length without the padding.\<close>

definition strip_padding :: "byte list \<Rightarrow> int \<Rightarrow> int option" where
  "strip_padding src len = do {
     c \<leftarrow> rdz src (len - 1);
     if c = CHARPAD then do {
       c \<leftarrow> rdz src (len - 1 - 1);
       Some (if c = CHARPAD then len - 1 - 1 else len - 1) }
     else Some len }"

text \<open>The body of the loop over the groups of four, where \<open>failed\<close> is the early return, and the switch
  on the characters left.\<close>

definition decode_chunk_le :: "byte list \<Rightarrow> nat \<Rightarrow> bool \<times> byte list \<times> u32 \<Rightarrow> (bool \<times> byte list \<times> u32) option" where
  "decode_chunk_le src i s = (case s of (failed, dest, y) \<Rightarrow>
     if failed then Some (True, dest, y)
     else do {
       x \<leftarrow> lookup4_le y;
       if x \<ge> BADCHAR then Some (True, dest, y)
       else do {
         dest \<leftarrow> store_le dest (3 * i) x;
         y \<leftarrow> load_le src (i + 1);
         Some (False, dest, y) } })"

definition decode_last_le :: "int \<Rightarrow> int \<Rightarrow> byte list \<Rightarrow> u32 \<Rightarrow> (int \<times> byte list) option" where
  "decode_last_le leftover chunks dest y = do {
     let p = 3 * nat chunks;
     if leftover = 0 then do {
       x \<leftarrow> lookup4_le y;
       if x \<ge> BADCHAR then Some (- 1, dest)
       else do {
         dest \<leftarrow> wr dest p (ucast x); dest \<leftarrow> wr dest (p + 1) (ucast (drop_bit 8 x));
         dest \<leftarrow> wr dest (p + 2) (ucast (drop_bit 16 x));
         Some ((chunks + 1) * 3, dest) } }
     else do {
       (x, dest) \<leftarrow>
         (if leftover = 1 then do {
            x \<leftarrow> rd le_d0 (unat (y AND 0xff));
            dest \<leftarrow> wr dest p (ucast x);
            Some (x, dest) }
          else if leftover = 2 then do {
            a \<leftarrow> rd le_d0 (unat (y AND 0xff)); b \<leftarrow> rd le_d1 (unat (drop_bit 8 y AND 0xff));
            dest \<leftarrow> wr dest p (ucast (a OR b));
            Some (a OR b, dest) }
          else do {
            a \<leftarrow> rd le_d0 (unat (y AND 0xff)); b \<leftarrow> rd le_d1 (unat (drop_bit 8 y AND 0xff));
            c \<leftarrow> rd le_d2 (unat (drop_bit 16 y AND 0xff));
            dest \<leftarrow> wr dest p (ucast (a OR b OR c));
            dest \<leftarrow> wr dest (p + 1) (ucast (drop_bit 8 (a OR b OR c)));
            Some (a OR b OR c, dest) });
       if x \<ge> BADCHAR then Some (- 1, dest) else Some (3 * chunks + 6 * leftover div 8, dest) } }"

definition modp_b64_decode_le :: "byte list \<Rightarrow> byte list \<Rightarrow> int \<Rightarrow> (int \<times> byte list) option" where
  "modp_b64_decode_le dest src len =
     (if len = 0 then Some (0, dest)
      else if len < 4 \<or> len mod 4 \<noteq> 0 then Some (- 1, dest)
      else do {
        len \<leftarrow> strip_padding src len;
        let leftover = len mod 4;
        let chunks = (if leftover = 0 then len div 4 - 1 else len div 4);
        y \<leftarrow> load_le src 0;
        (failed, dest, y) \<leftarrow> for_in [0..<nat chunks] (decode_chunk_le src) (False, dest, y);
        if failed then Some (- 1, dest) else decode_last_le leftover chunks dest y })"

definition Base64Decode :: "byte list \<Rightarrow> byte list option option" where
  "Base64Decode input = do {
     let temp = replicate (modp_b64_decode_len (length input)) 0;
     (output_size, temp) \<leftarrow> modp_b64_decode_le temp input (to_int (length input));
     Some (if output_size < 0 then None else Some (string_resize (nat output_size) temp)) }"

text \<open>The overloads that return the string; the second one CHECKs.\<close>

definition Base64Encode_string :: "byte list \<Rightarrow> byte list option" where
  "Base64Encode_string input = do { r \<leftarrow> Base64Encode input; Some (case r of None \<Rightarrow> [] | Some t \<Rightarrow> t) }"

definition Base64Decode_string :: "byte list \<Rightarrow> byte list option" where
  "Base64Decode_string input = do { r \<leftarrow> Base64Decode input; r }"

section \<open>Decoding on a big-endian machine\<close>

definition load_be :: "byte list \<Rightarrow> nat \<Rightarrow> u32 option" where
  "load_be src k = do {
     b0 \<leftarrow> rd src (4 * k); b1 \<leftarrow> rd src (4 * k + 1); b2 \<leftarrow> rd src (4 * k + 2); b3 \<leftarrow> rd src (4 * k + 3);
     Some (word_of_nat (unat b3 + 2 ^ 8 * unat b2 + 2 ^ 16 * unat b1 + 2 ^ 24 * unat b0)) }"

definition store_be :: "byte list \<Rightarrow> nat \<Rightarrow> u32 \<Rightarrow> byte list option" where
  "store_be dest p x = do {
     dest \<leftarrow> wr dest p (ucast (drop_bit 24 x)); dest \<leftarrow> wr dest (p + 1) (ucast (drop_bit 16 x));
     dest \<leftarrow> wr dest (p + 2) (ucast (drop_bit 8 x)); wr dest (p + 3) (ucast x) }"

definition lookup4_be :: "u32 \<Rightarrow> u32 option" where
  "lookup4_be y = do {
     a \<leftarrow> rd be_d0 (unat (drop_bit 24 y AND 0xff)); b \<leftarrow> rd be_d1 (unat (drop_bit 16 y AND 0xff));
     c \<leftarrow> rd be_d2 (unat (drop_bit 8 y AND 0xff)); d \<leftarrow> rd be_d3 (unat (y AND 0xff));
     Some (a OR b OR c OR d) }"

definition decode_chunk_be :: "byte list \<Rightarrow> nat \<Rightarrow> bool \<times> byte list \<times> u32 \<Rightarrow> (bool \<times> byte list \<times> u32) option" where
  "decode_chunk_be src i s = (case s of (failed, dest, y) \<Rightarrow>
     if failed then Some (True, dest, y)
     else do {
       x \<leftarrow> lookup4_be y;
       if x \<ge> BADCHAR then Some (True, dest, y)
       else do {
         dest \<leftarrow> store_be dest (3 * i) (push_bit 8 x);
         y \<leftarrow> load_be src (i + 1);
         Some (False, dest, y) } })"

definition decode_last_be :: "int \<Rightarrow> int \<Rightarrow> byte list \<Rightarrow> u32 \<Rightarrow> (int \<times> byte list) option" where
  "decode_last_be leftover chunks dest y = do {
     let p = 3 * nat chunks;
     if leftover = 0 then do {
       x \<leftarrow> lookup4_be y;
       if x \<ge> BADCHAR then Some (- 1, dest)
       else do {
         dest \<leftarrow> wr dest p (ucast (drop_bit 16 x)); dest \<leftarrow> wr dest (p + 1) (ucast (drop_bit 8 x));
         dest \<leftarrow> wr dest (p + 2) (ucast x);
         Some ((chunks + 1) * 3, dest) } }
     else do {
       (x, dest) \<leftarrow>
         (if leftover = 1 then do {
            x \<leftarrow> rd be_d3 (unat (drop_bit 24 y));
            dest \<leftarrow> wr dest p (ucast x);
            Some (x, dest) }
          else if leftover = 2 then do {
            a \<leftarrow> rd be_d3 (unat (drop_bit 24 y)); b \<leftarrow> rd be_d3 (unat (drop_bit 16 y AND 0xff));
            let x = a * 64 + b;
            dest \<leftarrow> wr dest p (ucast (drop_bit 4 x));
            Some (x, dest) }
          else do {
            a \<leftarrow> rd be_d3 (unat (drop_bit 24 y)); b \<leftarrow> rd be_d3 (unat (drop_bit 16 y AND 0xff));
            c \<leftarrow> rd be_d3 (unat (drop_bit 8 y AND 0xff));
            let x = (a * 64 + b) * 64 + c;
            dest \<leftarrow> wr dest p (ucast (drop_bit 10 x));
            dest \<leftarrow> wr dest (p + 1) (ucast (drop_bit 2 x));
            Some (x, dest) });
       if x \<ge> BADCHAR then Some (- 1, dest) else Some (3 * chunks + 6 * leftover div 8, dest) } }"

definition modp_b64_decode_be :: "byte list \<Rightarrow> byte list \<Rightarrow> int \<Rightarrow> (int \<times> byte list) option" where
  "modp_b64_decode_be dest src len =
     (if len = 0 then Some (0, dest)
      else if len < 4 \<or> len mod 4 \<noteq> 0 then Some (- 1, dest)
      else do {
        len \<leftarrow> strip_padding src len;
        let leftover = len mod 4;
        let chunks = (if leftover = 0 then len div 4 - 1 else len div 4);
        y \<leftarrow> load_be src 0;
        (failed, dest, y) \<leftarrow> for_in [0..<nat chunks] (decode_chunk_be src) (False, dest, y);
        if failed then Some (- 1, dest) else decode_last_be leftover chunks dest y })"

section \<open>The reference\<close>

fun sextets_of :: "byte list \<Rightarrow> nat list" where
  "sextets_of (a # b # c # r) = unat a div 4 # (unat a mod 4 * 16 + unat b div 16) #
     (unat b mod 16 * 4 + unat c div 64) # unat c mod 64 # sextets_of r"
| "sextets_of [a, b] = [unat a div 4, unat a mod 4 * 16 + unat b div 16, unat b mod 16 * 4]"
| "sextets_of [a] = [unat a div 4, unat a mod 4 * 16]"
| "sextets_of [] = []"

definition b64 :: "byte list \<Rightarrow> byte list" where
  "b64 x = map ((!) alphabet) (sextets_of x) @ replicate ((4 - length (sextets_of x) mod 4) mod 4) CHARPAD"

fun bytes_of :: "nat list \<Rightarrow> byte list" where
  "bytes_of (a # b # c # d # r) = word_of_nat (a * 4 + b div 16) # word_of_nat (b mod 16 * 16 + c div 4) #
     word_of_nat (c mod 4 * 64 + d) # bytes_of r"
| "bytes_of [a, b, c] = [word_of_nat (a * 4 + b div 16), word_of_nat (b mod 16 * 16 + c div 4)]"
| "bytes_of [a, b] = [word_of_nat (a * 4 + b div 16)]"
| "bytes_of _ = []"

lemma byte_lt: "unat (b :: byte) < 256"
  using unsigned_less [of b] by simp

lemma byte_of_parts: "word_of_nat (unat (a :: byte) div m * m + unat a mod m) = a"
  unfolding div_mult_mod_eq by simp

lemma bytes_of_sextets: "bytes_of (sextets_of x) = x"
proof (induction x rule: sextets_of.induct)
  case (1 a b c r)
  have "unat a div 4 * 4 + (unat a mod 4 * 16 + unat b div 16) div 16 = unat a div 4 * 4 + unat a mod 4"
    "(unat a mod 4 * 16 + unat b div 16) mod 16 * 16 + (unat b mod 16 * 4 + unat c div 64) div 4 =
      unat b div 16 * 16 + unat b mod 16"
    "(unat b mod 16 * 4 + unat c div 64) mod 4 * 64 + unat c mod 64 = unat c div 64 * 64 + unat c mod 64"
    using byte_lt [of b] byte_lt [of c] by (simp_all add: div_add1_eq less_mult_imp_div_less)
  then show ?case using 1 by (simp only: sextets_of.simps bytes_of.simps byte_of_parts)
next
  case (2 a b)
  have "unat a div 4 * 4 + (unat a mod 4 * 16 + unat b div 16) div 16 = unat a div 4 * 4 + unat a mod 4"
    "(unat a mod 4 * 16 + unat b div 16) mod 16 * 16 + unat b mod 16 * 4 div 4 = unat b div 16 * 16 + unat b mod 16"
    using byte_lt [of b] by (simp_all add: div_add1_eq less_mult_imp_div_less)
  then show ?case by (simp only: sextets_of.simps bytes_of.simps byte_of_parts)
next
  case (3 a)
  have "unat a div 4 * 4 + unat a mod 4 * 16 div 16 = unat a div 4 * 4 + unat a mod 4" by simp
  then show ?case by (simp only: sextets_of.simps bytes_of.simps byte_of_parts)
qed simp

lemma sextets_less: "v \<in> set (sextets_of x) \<Longrightarrow> v < 64"
proof (induction x rule: sextets_of.induct)
  case (1 a b c r)
  have "unat a div 4 < 64" "unat b div 16 < 16" "unat c div 64 < 4"
    using byte_lt [of a] byte_lt [of b] byte_lt [of c] by (simp_all add: less_mult_imp_div_less)
  moreover have "unat a mod 4 < 4" "unat b mod 16 < 16" by simp_all
  ultimately show ?case using 1 by auto
next
  case (2 a b)
  have "unat a div 4 < 64" "unat b div 16 < 16"
    using byte_lt [of a] byte_lt [of b] by (simp_all add: less_mult_imp_div_less)
  moreover have "unat a mod 4 < 4" "unat b mod 16 < 16" by simp_all
  ultimately show ?case using 2 by auto
next
  case (3 a)
  have "unat a div 4 < 64" "unat a mod 4 < 4" using byte_lt [of a] by (simp_all add: less_mult_imp_div_less)
  then show ?case using 3 by auto
qed simp

lemma length_sextets: "length (sextets_of x) = 4 * (length x div 3) + (if length x mod 3 = 0 then 0 else length x mod 3 + 1)"
  by (induction x rule: sextets_of.induct) auto

lemma length_b64: "length (b64 x) = (length x + 2) div 3 * 4"
proof -
  have "length x mod 3 = 0 \<or> length x mod 3 = 1 \<or> length x mod 3 = 2" by presburger
  then show ?thesis
  proof (elim disjE)
    assume m: "length x mod 3 = 0"
    then have "(length x + 2) div 3 = length x div 3" by presburger
    then show ?thesis using m by (simp add: b64_def length_sextets)
  next
    assume m: "length x mod 3 = 1"
    then have "(length x + 2) div 3 = length x div 3 + 1" by presburger
    moreover have "Suc (Suc (4 * (length x div 3))) mod 4 = 2" by presburger
    ultimately show ?thesis using m by (simp add: b64_def length_sextets)
  next
    assume m: "length x mod 3 = 2"
    then have "(length x + 2) div 3 = length x div 3 + 1" by presburger
    then show ?thesis using m by (simp add: b64_def length_sextets)
  qed
qed

section \<open>The encoder writes the reference\<close>

lemma or_low: "0 \<le> b \<Longrightarrow> b < 2 ^ n \<Longrightarrow> push_bit n a OR b = a * 2 ^ n + b" for a b :: int
proof -
  assume b: "0 \<le> b" "b < 2 ^ n"
  then have "take_bit n b = b" by (simp add: take_bit_int_eq_self)
  then have "\<not> bit b k" if "n \<le> k" for k using that by (metis bit_take_bit_iff linorder_not_less)
  then have "push_bit n a AND b = 0" by (intro bit_eqI) (auto simp: bit_and_iff bit_push_bit_iff)
  then show ?thesis using disjunctive_add_eq_or [of "push_bit n a" b] by (simp add: push_bit_eq_mult)
qed

lemma small_and: "n < 16 \<Longrightarrow> int n AND 0x0F = int n" "n < 4 \<Longrightarrow> int n AND 0x03 = int n"
  using and_mask_mod [of "int n" 4] and_mask_mod [of "int n" 2] by simp_all

lemma low_bits: "uint (t :: byte) AND 0x03 = int (unat t mod 4)" "uint t AND 0x0F = int (unat t mod 16)"
    "drop_bit 4 (uint t) AND 0x0F = int (unat t div 16)" "drop_bit 6 (uint t) AND 0x03 = int (unat t div 64)"
proof -
  have u: "uint t = int (unat t)" by simp
  show "uint t AND 0x03 = int (unat t mod 4)" "uint t AND 0x0F = int (unat t mod 16)"
    using and_mask_mod [of "int (unat t)" 2] and_mask_mod [of "int (unat t)" 4] by (simp_all add: zmod_int)
  have lt: "unat t div 16 < 16" "unat t div 64 < 4" using byte_lt [of t] by (simp_all add: less_mult_imp_div_less)
  have d: "drop_bit 4 (uint t) = int (unat t div 16)" "drop_bit 6 (uint t) = int (unat t div 64)"
    by (simp_all add: drop_bit_eq_div zdiv_int)
  show "drop_bit 4 (uint t) AND 0x0F = int (unat t div 16)" "drop_bit 6 (uint t) AND 0x03 = int (unat t div 64)"
    unfolding d using small_and lt by blast+
qed

lemma e1_index:
  fixes t1 t2 t3 :: byte
  shows "rdz e1 (push_bit 4 (uint t1 AND 0x03) OR (drop_bit 4 (uint t2) AND 0x0F)) = Some (alphabet ! (unat t1 mod 4 * 16 + unat t2 div 16))"
  "rdz e1 (push_bit 2 (uint t2 AND 0x0F) OR (drop_bit 6 (uint t3) AND 0x03)) = Some (alphabet ! (unat t2 mod 16 * 4 + unat t3 div 64))"
  "rdz e1 (push_bit 4 (uint t1 AND 0x03)) = Some (alphabet ! (unat t1 mod 4 * 16))"
  "rdz e2 (push_bit 2 (uint t2 AND 0x0F)) = Some (alphabet ! (unat t2 mod 16 * 4))"
proof -
  have d: "unat t2 div 16 < 16" "unat t3 div 64 < 4" using byte_lt [of t2] byte_lt [of t3] by (simp_all add: less_mult_imp_div_less)
  have m: "unat t1 mod 4 < 4" "unat t2 mod 16 < 16" by simp_all
  have i: "unat t1 mod 4 * 16 + unat t2 div 16 < 64" "unat t2 mod 16 * 4 + unat t3 div 64 < 64"
    "unat t1 mod 4 * 16 < 64" "unat t2 mod 16 * 4 < 64" using d m by linarith+
  have r: "rdz e1 (int k) = Some (alphabet ! k)" "rdz e2 (int k) = Some (alphabet ! k)" if "k < 64" for k
    using that e1_nth [of k] e2_nth [of k] by (simp_all add: rd_def len_simps)
  have p: "push_bit 4 (int (unat t1 mod 4)) = int (unat t1 mod 4 * 16)" "push_bit 2 (int (unat t2 mod 16)) = int (unat t2 mod 16 * 4)"
    by (simp_all add: push_bit_eq_mult)
  show "rdz e1 (push_bit 4 (uint t1 AND 0x03)) = Some (alphabet ! (unat t1 mod 4 * 16))"
    "rdz e2 (push_bit 2 (uint t2 AND 0x0F)) = Some (alphabet ! (unat t2 mod 16 * 4))"
    unfolding low_bits p using r i by blast+
  have "push_bit 4 (int (unat t1 mod 4)) OR int (unat t2 div 16) = int (unat t1 mod 4 * 16 + unat t2 div 16)"
    "push_bit 2 (int (unat t2 mod 16)) OR int (unat t3 div 64) = int (unat t2 mod 16 * 4 + unat t3 div 64)"
    using or_low [of "int (unat t2 div 16)" 4 "int (unat t1 mod 4)"] or_low [of "int (unat t3 div 64)" 2 "int (unat t2 mod 16)"] d
    by simp_all
  then show "rdz e1 (push_bit 4 (uint t1 AND 0x03) OR (drop_bit 4 (uint t2) AND 0x0F)) =
      Some (alphabet ! (unat t1 mod 4 * 16 + unat t2 div 16))"
    "rdz e1 (push_bit 2 (uint t2 AND 0x0F) OR (drop_bit 6 (uint t3) AND 0x03)) =
      Some (alphabet ! (unat t2 mod 16 * 4 + unat t3 div 64))"
    unfolding low_bits by (simp_all only: r i)
qed

lemma e0_index: "rd e0 (unat t) = Some (alphabet ! (unat t div 4))" "rd e2 (unat t) = Some (alphabet ! (unat t mod 64))" for t :: byte
  using byte_lt [of t] e0_nth [of "unat t"] e2_nth [of "unat t"] by (simp_all add: rd_def len_simps)

lemma emit_in: "p < length dest \<Longrightarrow> emit c (dest, p) = Some (dest[p := c], Suc p)"
  by (simp add: emit_def wr_def)

lemma emits_eq:
  "p + length cs \<le> length dest \<Longrightarrow>
   for_in cs emit (dest, p) = Some (take p dest @ cs @ drop (p + length cs) dest, p + length cs)"
proof (induction cs arbitrary: dest p)
  case (Cons c cs)
  then have "drop p dest = dest ! p # drop (Suc p) dest" by (simp add: Cons_nth_drop_Suc)
  moreover have "for_in cs emit (dest[p := c], Suc p) =
      Some (take (Suc p) (dest[p := c]) @ cs @ drop (Suc p + length cs) (dest[p := c]), Suc p + length cs)"
    by (rule Cons.IH) (use Cons.prems in simp)
  moreover have "take (Suc p) (dest[p := c]) = take p dest @ [c]" using Cons.prems by (simp add: take_Suc_conv_app_nth)
  ultimately show ?case using Cons.prems by (simp add: emit_in)
qed simp

lemma sextets_of_append: "3 dvd length x \<Longrightarrow> sextets_of (x @ y) = sextets_of x @ sextets_of y"
proof (induction x rule: sextets_of.induct)
  case (1 a b c r)
  then have "3 dvd length r" by (simp add: dvd_eq_mod_eq_0)
  then show ?case using 1 by simp
qed (simp_all add: dvd_eq_mod_eq_0)

lemma encode_round:
  "do { c0 \<leftarrow> rd e0 (unat t1);
     c1 \<leftarrow> rdz e1 (push_bit 4 (uint t1 AND 0x03) OR (drop_bit 4 (uint t2) AND 0x0F));
     c2 \<leftarrow> rdz e1 (push_bit 2 (uint t2 AND 0x0F) OR (drop_bit 6 (uint t3) AND 0x03));
     c3 \<leftarrow> rd e2 (unat t3);
     for_in [c0, c1, c2, c3] emit s } = for_in (map ((!) alphabet) (sextets_of [t1, t2, t3])) emit s"
  for t1 t2 t3 :: byte
  unfolding e0_index e1_index by simp

lemma take_3: "i + 3 \<le> length xs \<Longrightarrow> take (i + 3) xs = take i xs @ [xs ! i, xs ! (i + 1), xs ! (i + 2)]"
  by (simp add: take_Suc_conv_app_nth numeral_3_eq_3)

text \<open>The loop writes the sextets of the bytes read so far.\<close>

lemma encode_loop:
  assumes "3 * n \<le> length str" "4 * n \<le> length dest"
  shows "for_in (map (\<lambda>k. 3 * k) [0..<n]) (\<lambda>i s. do {
       t1 \<leftarrow> rd str i; t2 \<leftarrow> rd str (i + 1); t3 \<leftarrow> rd str (i + 2);
       c0 \<leftarrow> rd e0 (unat t1);
       c1 \<leftarrow> rdz e1 (push_bit 4 (uint t1 AND 0x03) OR (drop_bit 4 (uint t2) AND 0x0F));
       c2 \<leftarrow> rdz e1 (push_bit 2 (uint t2 AND 0x0F) OR (drop_bit 6 (uint t3) AND 0x03));
       c3 \<leftarrow> rd e2 (unat t3);
       for_in [c0, c1, c2, c3] emit s }) (dest, 0) =
    Some (map ((!) alphabet) (sextets_of (take (3 * n) str)) @ drop (4 * n) dest, 4 * n)"
    (is "for_in _ ?body _ = _")
proof -
  let ?enc = "\<lambda>k. map ((!) alphabet) (sextets_of (take (3 * k) str))"
  have len: "length (?enc k) = 4 * k" if "k \<le> n" for k
    using that assms(1) by (simp add: length_sextets)
  have "\<exists>s. for_in [0..<n] (\<lambda>k. ?body (3 * k)) (dest, 0) = Some s \<and> s = (?enc n @ drop (4 * n) dest, 4 * n)"
  proof (rule for_in_upt [where P = "\<lambda>k s. s = (?enc k @ drop (4 * k) dest, 4 * k)"])
    fix k s assume k: "k < n" and s: "s = (?enc k @ drop (4 * k) dest, 4 * k)"
    have i: "3 * k + 3 \<le> length str" using k assms(1) by linarith
    let ?t = "\<lambda>j. str ! (3 * k + j)"
    have "3 * Suc k = 3 * k + 3" by simp
    then have "take (3 * Suc k) str = take (3 * k) str @ [?t 0, ?t 1, ?t 2]" using take_3 [OF i] by (simp add: add.commute)
    moreover have "3 dvd length (take (3 * k) str)" using i by simp
    ultimately have e: "?enc (Suc k) = ?enc k @ map ((!) alphabet) (sextets_of [?t 0, ?t 1, ?t 2])"
      by (simp only: sextets_of_append map_append)
    have "?body (3 * k) s = for_in (map ((!) alphabet) (sextets_of [?t 0, ?t 1, ?t 2])) emit s"
      using i encode_round by (simp add: rd_in numeral_2_eq_2 del: for_in.simps)
    also have "\<dots> = Some (?enc k @ map ((!) alphabet) (sextets_of [?t 0, ?t 1, ?t 2]) @ drop (4 * Suc k) dest, 4 * Suc k)"
      unfolding s using len [of k] k assms(2) by (subst emits_eq) simp_all
    finally show "\<exists>s'. ?body (3 * k) s = Some s' \<and> s' = (?enc (Suc k) @ drop (4 * Suc k) dest, 4 * Suc k)"
      unfolding e by simp
  qed (use assms in auto)
  then show ?thesis unfolding for_in_map by simp
qed

text \<open>The last one or two bytes.\<close>

lemma b64_split:
  assumes "n = length x div 3"
  shows "b64 x = map ((!) alphabet) (sextets_of (take (3 * n) x)) @ map ((!) alphabet) (sextets_of (drop (3 * n) x)) @
    replicate ((4 - length (sextets_of (drop (3 * n) x)) mod 4) mod 4) CHARPAD"
proof -
  have "3 dvd length (take (3 * n) x)" using assms by simp
  then have e: "sextets_of x = sextets_of (take (3 * n) x) @ sextets_of (drop (3 * n) x)"
    using sextets_of_append [of "take (3 * n) x" "drop (3 * n) x"] by simp
  have "length (sextets_of (take (3 * n) x)) = 4 * n" using assms by (simp add: length_sextets)
  then have "length (sextets_of x) mod 4 = length (sextets_of (drop (3 * n) x)) mod 4" by (simp add: e)
  then show ?thesis by (simp add: b64_def e)
qed

lemma finish_emit:
  assumes "length out + length cs < length dest"
  shows "do { (dest, p) \<leftarrow> for_in cs emit (out @ drop (length out) dest, length out); dest \<leftarrow> wr dest p 0; Some (to_int p, dest) } =
    Some (to_int (length (out @ cs)), out @ cs @ 0 # drop (length out + length cs + 1) dest)"
proof -
  have "for_in cs emit (out @ drop (length out) dest, length out) =
      Some (out @ cs @ drop (length out + length cs) dest, length out + length cs)"
    using assms by (subst emits_eq) (simp_all add: add.commute)
  moreover have "drop (length out + length cs) dest = dest ! (length out + length cs) # drop (Suc (length out + length cs)) dest"
    using assms by (simp add: Cons_nth_drop_Suc)
  ultimately show ?thesis using assms by (simp add: wr_def list_update_append)
qed

lemma short_lists: "length xs = 1 \<Longrightarrow> \<exists>a. xs = [a]" "length xs = 2 \<Longrightarrow> \<exists>a b. xs = [a, b]"
  by (auto simp: length_Suc_conv numeral_2_eq_2)

lemma rd_drop: "drop i x = a # l \<Longrightarrow> rd x i = Some a"
  by (metis list.distinct(1) drop_all linorder_not_less nth_via_drop rd_def)

lemma rd_drop_1: "drop i x = a # b # l \<Longrightarrow> rd x (i + 1) = Some b"
proof -
  assume d: "drop i x = a # b # l"
  have "drop (i + 1) x = drop 1 (drop i x)" by (simp add: add.commute)
  then have "drop (i + 1) x = b # l" unfolding d by simp
  then show ?thesis by (rule rd_drop)
qed

lemma encode_rest_1:
  assumes "rd str i = Some t"
  shows "encode_rest str i 1 s = do {
    (dest, p) \<leftarrow> for_in [alphabet ! (unat t div 4), alphabet ! (unat t mod 4 * 16), CHARPAD, CHARPAD] emit s;
    dest \<leftarrow> wr dest p 0; Some (to_int p, dest) }"
  unfolding encode_rest_def assms e0_index e1_index Option.bind.simps by (simp only: if_False one_neq_zero refl if_True)

lemma encode_rest_2:
  assumes "rd str i = Some t" "rd str (i + 1) = Some u" and left: "left \<noteq> 0" "left \<noteq> 1"
  shows "encode_rest str i left s = do {
    (dest, p) \<leftarrow> for_in [alphabet ! (unat t div 4), alphabet ! (unat t mod 4 * 16 + unat u div 16),
      alphabet ! (unat u mod 16 * 4), CHARPAD] emit s;
    dest \<leftarrow> wr dest p 0; Some (to_int p, dest) }"
  unfolding encode_rest_def assms(1,2) e0_index e1_index Option.bind.simps using left by (simp del: for_in.simps)

lemma modp_b64_encode_eq:
  assumes "length (b64 x) < length dest"
  shows "modp_b64_encode dest x (int (length x)) =
    Some (to_int (length (b64 x)), b64 x @ 0 # drop (length (b64 x) + 1) dest)"
proof -
  define n where "n = length x div 3"
  let ?out = "map ((!) alphabet) (sextets_of (take (3 * n) x))" and ?r = "drop (3 * n) x"
  have n: "3 * n \<le> length x" "nat (int (length x) div 3) = n" by (simp_all add: n_def nat_div_distrib)
  have lo: "length ?out = 4 * n" using n(1) by (simp add: length_sextets)
  have b: "b64 x = ?out @ map ((!) alphabet) (sextets_of ?r) @ replicate ((4 - length (sextets_of ?r) mod 4) mod 4) CHARPAD"
    by (rule b64_split [OF n_def])
  then have fit: "4 * n \<le> length dest" using assms lo by simp
  have L: "length x = 3 * n + length ?r" "length ?r < 3" using n(1) by (simp_all add: n_def)
  have e: "modp_b64_encode dest x (int (length x)) =
      encode_rest x (3 * n) (int (length x) - int (3 * n)) (?out @ drop (4 * n) dest, 4 * n)"
    unfolding modp_b64_encode_def n(2) Let_def encode_loop [OF n(1) fit] by simp
  have fin: "do { (dest, p) \<leftarrow> for_in cs emit (?out @ drop (4 * n) dest, 4 * n); dest \<leftarrow> wr dest p 0; Some (to_int p, dest) } =
      Some (to_int (length (b64 x)), b64 x @ 0 # drop (length (b64 x) + 1) dest)" if "b64 x = ?out @ cs" for cs
    using finish_emit [of ?out cs dest] assms lo unfolding that by simp
  have left: "int (length x) - int (3 * n) = int (length ?r)" using L(1) by simp
  consider "length ?r = 0" | "length ?r = 1" | "length ?r = 2" using L(2) by linarith
  then show ?thesis
  proof cases
    case 1
    then have "b64 x = ?out @ []" using b by simp
    from fin [OF this] have A: "do { (dest, p) \<leftarrow> Some (?out @ drop (4 * n) dest, 4 * n); dest \<leftarrow> wr dest p 0; Some (to_int p, dest) } =
        Some (to_int (length (b64 x)), b64 x @ 0 # drop (length (b64 x) + 1) dest)" by (simp only: for_in.simps)
    have B: "encode_rest x (3 * n) 0 s = do { (dest, p) \<leftarrow> Some s; dest \<leftarrow> wr dest p 0; Some (to_int p, dest) }" for s
      by (simp add: encode_rest_def)
    show ?thesis unfolding e left 1 semiring_1_class.of_nat_0 B by (rule A)
  next
    case 2
    then obtain a where r: "?r = [a]" using short_lists(1) by blast
    have x: "rd x (3 * n) = Some a" by (rule rd_drop [OF r])
    have "b64 x = ?out @ [alphabet ! (unat a div 4), alphabet ! (unat a mod 4 * 16), CHARPAD, CHARPAD]"
      using b r by (simp add: numeral_2_eq_2)
    from fin [OF this] show ?thesis unfolding e left 2 semiring_1_class.of_nat_1 encode_rest_1 [OF x] .
  next
    case 3
    then obtain a c where r: "?r = [a, c]" using short_lists(2) by blast
    have x: "rd x (3 * n) = Some a" "rd x (3 * n + 1) = Some c"
      by (rule rd_drop [OF r] rd_drop_1 [OF r])+
    have "b64 x = ?out @ [alphabet ! (unat a div 4), alphabet ! (unat a mod 4 * 16 + unat c div 16), alphabet ! (unat c mod 16 * 4), CHARPAD]"
      using b r by simp
    from fin [OF this] show ?thesis unfolding e left 3 of_nat_numeral
      by (subst encode_rest_2 [OF x]) simp_all
  qed
qed

lemma to_int_eq: "n < 2 ^ 31 \<Longrightarrow> to_int n = int n"
  unfolding to_int_def by (rule sint_of_nat_small)

lemma to_int_wraps: "2 ^ 31 \<le> n \<Longrightarrow> n < 2 ^ 32 \<Longrightarrow> to_int n = int n - 2 ^ 32"
  unfolding to_int_def by (rule sint_of_nat_wraps)

text \<open>The text has up to a third more bytes than the input, so the returned length does not fit an \<open>int\<close>
  from 1,610,612,734 bytes on: it is negative then, and \<open>Base64Encode\<close> returns false.\<close>

lemma Base64Encode_cases:
  assumes "length x < 2 ^ 31"
  shows "Base64Encode x = Some (if length (b64 x) < 2 ^ 31 then Some (b64 x) else None)"
proof -
  let ?temp = "replicate (modp_b64_encode_len (length x)) (0 :: byte)"
  have "length (b64 x) < length ?temp"
    by (simp add: modp_b64_encode_len_def length_b64)
  from modp_b64_encode_eq [OF this] have m:
    "Base64Encode x = Some (if to_int (length (b64 x)) < 0 then None
      else Some (string_resize (nat (to_int (length (b64 x)))) (b64 x @ 0 # drop (length (b64 x) + 1) ?temp)))"
    by (simp add: Base64Encode_def to_int_eq [OF assms])
  show ?thesis
  proof (cases "length (b64 x) < 2 ^ 31")
    case True
    then show ?thesis by (simp add: m to_int_eq string_resize_def)
  next
    case False
    moreover have "length x < 2147483648" using assms by simp
    then have "(length x + 2) div 3 * 4 < 4294967296" by linarith
    then have "length (b64 x) < 2 ^ 32" by (simp add: length_b64)
    then have "int (length (b64 x)) < int (2 ^ 32)" by (simp only: of_nat_less_iff)
    ultimately have "to_int (length (b64 x)) < 0" using to_int_wraps [of "length (b64 x)"] \<open>length (b64 x) < 2 ^ 32\<close> by simp
    with False show ?thesis by (simp add: m)
  qed
qed

lemma Base64Encode_eq:
  assumes "length (b64 x) < 2 ^ 31"
  shows "Base64Encode x = Some (Some (b64 x))"
proof -
  have "length x < 2 ^ 31" using assms unfolding length_b64 by linarith
  from Base64Encode_cases [OF this] assms show ?thesis by simp
qed

end
