(* ===== verification/Base64_Decode.thy ===== *)
theory Base64_Decode imports Base64 begin

text \<open>
  What the decoder of \<open>modp_b64.cc\<close> computes: on every input it agrees with a reference decoder
  that strips the padding, checks the characters and puts the six-bit values together.
\<close>

section \<open>The decoder reads the reference\<close>

text \<open>The tables of the little-endian decoder, byte by byte of their words.\<close>

definition part0 :: "u32 \<Rightarrow> byte" where "part0 x = ucast x"
definition part1 :: "u32 \<Rightarrow> byte" where "part1 x = ucast (drop_bit 8 x)"
definition part2 :: "u32 \<Rightarrow> byte" where "part2 x = ucast (drop_bit 16 x)"

lemmas parts = part0_def part1_def part2_def

lemma parts_or:
  "part0 (x OR y) = part0 x OR part0 y" "part1 (x OR y) = part1 x OR part1 y" "part2 (x OR y) = part2 x OR part2 y"
  by (intro bit_word_eqI; auto simp: parts bit_simps)+

lemma part_of_nat:
  "part0 (word_of_nat n) = word_of_nat n" "part1 (word_of_nat n) = word_of_nat (n mod 2 ^ 32 div 2 ^ 8)"
  "part2 (word_of_nat n) = word_of_nat (n mod 2 ^ 32 div 2 ^ 16)"
proof -
  have d: "n mod 2 ^ 32 div 2 ^ k = drop_bit k (take_bit 32 n)" for k
    by (simp add: drop_bit_eq_div take_bit_eq_mod)
  show "part0 (word_of_nat n) = word_of_nat n" unfolding parts
    by (rule bit_word_eqI) (auto simp: bit_simps)
  show "part1 (word_of_nat n) = word_of_nat (n mod 2 ^ 32 div 2 ^ 8)" unfolding parts d
    by (rule bit_word_eqI) (auto simp: bit_simps)
  show "part2 (word_of_nat n) = word_of_nat (n mod 2 ^ 32 div 2 ^ 16)" unfolding parts d
    by (rule bit_word_eqI) (auto simp: bit_simps)
qed

lemma or_low_word: "b < 2 ^ n \<Longrightarrow> word_of_nat (a * 2 ^ n) OR word_of_nat b = (word_of_nat (a * 2 ^ n + b) :: 'w::len word)"
proof -
  assume "b < 2 ^ n"
  then have "int b < int (2 ^ n)" by (simp only: of_nat_less_iff)
  then have "push_bit n (int a) OR int b = int (a * 2 ^ n + b)" using or_low [of "int b" n "int a"] by simp
  then have "word_of_int (push_bit n (int a) OR int b) = (word_of_nat (a * 2 ^ n + b) :: 'w word)" by simp
  then show ?thesis by (simp add: of_int_or_eq push_bit_eq_mult)
qed

text \<open>A character of the alphabet and the six bits that it stands for.\<close>

definition valid :: "byte list \<Rightarrow> bool" where
  "valid x = (\<forall>c \<in> set x. sextet (unat c) \<noteq> None)"

definition val :: "byte \<Rightarrow> nat" where
  "val c = (case sextet (unat c) of None \<Rightarrow> 0 | Some v \<Rightarrow> v)"

lemma val_less: "val c < 64"
  using sextet_less by (auto simp: val_def split: option.split)

text \<open>The reference decoder: \<open>None\<close> when the text is not base64.\<close>

definition strip :: "byte list \<Rightarrow> byte list" where
  "strip x = (if x \<noteq> [] \<and> last x = CHARPAD
     then (if butlast x \<noteq> [] \<and> last (butlast x) = CHARPAD then butlast (butlast x) else butlast x) else x)"

definition unb64 :: "byte list \<Rightarrow> byte list option" where
  "unb64 x = (if length x mod 4 = 0 \<and> valid (strip x) then Some (bytes_of (map val (strip x))) else None)"

definition le_word :: "(nat \<Rightarrow> nat) \<Rightarrow> byte \<Rightarrow> u32" where
  "le_word f c = (case sextet (unat c) of None \<Rightarrow> BADCHAR | Some v \<Rightarrow> word_of_nat (f v))"

definition l0 :: "nat \<Rightarrow> nat" where "l0 v = v * 4"
definition l1 :: "nat \<Rightarrow> nat" where "l1 v = v div 16 + v mod 16 * 4096"
definition l2 :: "nat \<Rightarrow> nat" where "l2 v = v div 4 * 256 + v mod 4 * 4194304"
definition l3 :: "nat \<Rightarrow> nat" where "l3 v = v * 65536"

lemma table_rd: "rd (decode_table (\<lambda>v. word_of_nat (f v))) (unat c) = Some (le_word f c)" for c :: byte
  using byte_lt [of c] by (simp add: rd_def len_simps decode_table_nth le_word_def)

lemma le_rd:
  "rd le_d0 (unat c) = Some (le_word l0 c)" "rd le_d1 (unat c) = Some (le_word l1 c)"
  "rd le_d2 (unat c) = Some (le_word l2 c)" "rd le_d3 (unat c) = Some (le_word l3 c)" for c :: byte
  using table_rd [of l0] table_rd [of l1] table_rd [of l2] table_rd [of l3]
  unfolding le_d0_eq le_d1_eq le_d2_eq le_d3_eq l0_def l1_def l2_def l3_def by blast+

lemma l_less: "v < 64 \<Longrightarrow> l0 v < 2 ^ 24" "v < 64 \<Longrightarrow> l1 v < 2 ^ 24" "v < 64 \<Longrightarrow> l2 v < 2 ^ 24" "v < 64 \<Longrightarrow> l3 v < 2 ^ 24"
proof -
  assume v: "v < 64"
  then have "v div 4 < 16" "v div 16 < 4" by (simp_all add: less_mult_imp_div_less)
  moreover have "v mod 16 < 16" "v mod 4 < 4" by simp_all
  ultimately show "l0 v < 2 ^ 24" "l1 v < 2 ^ 24" "l2 v < 2 ^ 24" "l3 v < 2 ^ 24"
    using v by (simp_all add: l0_def l1_def l2_def l3_def)
qed

text \<open>A word is below \<open>BADCHAR\<close> when its top byte is zero, and an \<open>OR\<close> keeps that.\<close>

lemma le_word_top:
  assumes "\<And>v. v < 64 \<Longrightarrow> f v < 2 ^ 24"
  shows "drop_bit 24 (le_word f c) = 0 \<longleftrightarrow> valid [c]"
proof (cases "sextet (unat c)")
  case None
  then show ?thesis by (simp add: le_word_def valid_def BADCHAR_def)
next
  case (Some v)
  then have "f v < 2 ^ 24" by (intro assms) (rule sextet_less)
  then have "unat (drop_bit 24 (word_of_nat (f v) :: u32)) = 0"
    by (simp add: unat_drop_bit_eq unat_of_nat drop_bit_eq_div [of 24 "_ :: nat"] del: drop_bit_of_nat)
  then have "drop_bit 24 (word_of_nat (f v) :: u32) = 0" by (simp only: unsigned_eq_0_iff)
  then show ?thesis by (simp add: le_word_def valid_def Some)
qed

lemma le_word_ge: "valid [c] \<or> BADCHAR \<le> le_word f c"
  by (cases "sextet (unat c)") (simp_all add: le_word_def valid_def)

lemma top_less: "drop_bit 24 x = 0 \<Longrightarrow> x < BADCHAR" for x :: u32
proof -
  assume "drop_bit 24 x = 0"
  then have "unat x div 2 ^ 24 = 0" by (metis drop_bit_eq_div unat_drop_bit_eq unsigned_0)
  then have "unat x < 2 ^ 24" by (simp add: div_eq_0_iff)
  then show ?thesis by (simp add: word_less_nat_alt BADCHAR_def)
qed

lemma or_ge: "BADCHAR \<le> x \<or> BADCHAR \<le> y \<Longrightarrow> BADCHAR \<le> x OR y" for x y :: u32
proof -
  have "uint x \<le> uint (x OR y)" "uint y \<le> uint (x OR y)"
    using or_greater_eq [of "uint y" "uint x"] or_greater_eq [of "uint x" "uint y"]
    by (simp_all add: unsigned_or_eq or.commute)
  then have "x \<le> x OR y" "y \<le> x OR y" by (simp_all add: word_le_def)
  then show "BADCHAR \<le> x \<or> BADCHAR \<le> y \<Longrightarrow> BADCHAR \<le> x OR y" by (blast intro: order_trans)
qed

lemma byte_of_word: "unat (drop_bit k y AND 0xff) = unat y div 2 ^ k mod 256" for y :: u32
proof -
  have "drop_bit k y AND 0xff = take_bit 8 (drop_bit k y)" by (simp add: take_bit_eq_mask mask_eq_exp_minus_1)
  then have "unat (drop_bit k y AND 0xff) = take_bit 8 (drop_bit k (unat y))"
    by (simp only: unsigned_take_bit_eq unat_drop_bit_eq)
  also have "\<dots> = unat y div 2 ^ k mod 2 ^ 8" unfolding take_bit_eq_mod drop_bit_eq_div ..
  finally show ?thesis by simp
qed

definition le_join :: "byte \<Rightarrow> byte \<Rightarrow> byte \<Rightarrow> byte \<Rightarrow> u32" where
  "le_join b0 b1 b2 b3 = word_of_nat (unat b0 + 2 ^ 8 * unat b1 + 2 ^ 16 * unat b2 + 2 ^ 24 * unat b3)"

lemma base_256: "n < 256 \<Longrightarrow> (n + 256 * m) mod 256 = n" "n < 256 \<Longrightarrow> (n + 256 * m) div 256 = m" for n m :: nat
  by simp_all

lemma unat_word_of_nat_32: "unat (word_of_nat n :: u32) = take_bit 32 n"
  by (simp add: unsigned_of_nat)

lemma unat_le_join: "unat (le_join b0 b1 b2 b3) = unat b0 + 256 * (unat b1 + 256 * (unat b2 + 256 * unat b3))"
proof -
  have "unat b0 + 256 * (unat b1 + 256 * (unat b2 + 256 * unat b3)) < 2 ^ 32"
    using byte_lt [of b0] byte_lt [of b1] byte_lt [of b2] byte_lt [of b3] by simp
  moreover have "le_join b0 b1 b2 b3 = word_of_nat (unat b0 + 256 * (unat b1 + 256 * (unat b2 + 256 * unat b3)))"
    unfolding le_join_def by (intro arg_cong [of _ _ word_of_nat]) simp
  ultimately show ?thesis using take_bit_nat_eq_self [of _ 32] by (simp only: unat_word_of_nat_32)
qed

lemma le_join_bytes:
  "unat (le_join b0 b1 b2 b3 AND 0xff) = unat b0" "unat (drop_bit 8 (le_join b0 b1 b2 b3) AND 0xff) = unat b1"
  "unat (drop_bit 16 (le_join b0 b1 b2 b3) AND 0xff) = unat b2" "unat (drop_bit 24 (le_join b0 b1 b2 b3) AND 0xff) = unat b3"
proof -
  have p: "n div 2 ^ 8 = n div 256" "n div 2 ^ 16 = n div 256 div 256" "n div 2 ^ 24 = n div 256 div 256 div 256" for n :: nat
    by (simp_all add: div_mult2_eq [symmetric])
  have z: "unat (le_join b0 b1 b2 b3 AND 0xff) = unat (le_join b0 b1 b2 b3) mod 256"
    using byte_of_word [of 0 "le_join b0 b1 b2 b3"] by simp
  show "unat (le_join b0 b1 b2 b3 AND 0xff) = unat b0" "unat (drop_bit 8 (le_join b0 b1 b2 b3) AND 0xff) = unat b1"
    "unat (drop_bit 16 (le_join b0 b1 b2 b3) AND 0xff) = unat b2" "unat (drop_bit 24 (le_join b0 b1 b2 b3) AND 0xff) = unat b3"
    unfolding z byte_of_word p unat_le_join base_256 [OF byte_lt] by (simp_all add: byte_lt)
qed

lemma lookup4_le_join: "lookup4_le (le_join b0 b1 b2 b3) =
  Some (le_word l0 b0 OR le_word l1 b1 OR le_word l2 b2 OR le_word l3 b3)"
  unfolding lookup4_le_def le_join_bytes le_rd by simp

lemma load_le_in:
  assumes "4 * k + 4 \<le> length src"
  shows "load_le src k = Some (le_join (src ! (4 * k)) (src ! (4 * k + 1)) (src ! (4 * k + 2)) (src ! (4 * k + 3)))"
  using assms by (simp add: load_le_def le_join_def rd_in)

text \<open>What the decoder can meet: a word with an empty top byte, or one that is at least \<open>BADCHAR\<close>.\<close>

definition entry :: "u32 \<Rightarrow> bool" where
  "entry x = (BADCHAR \<le> x \<or> drop_bit 24 x = 0)"

lemma entry_or:
  assumes "entry x" "entry y"
  shows "entry (x OR y)" "BADCHAR \<le> x OR y \<longleftrightarrow> BADCHAR \<le> x \<or> BADCHAR \<le> y"
proof -
  have "BADCHAR \<le> x OR y \<or> drop_bit 24 (x OR y) = 0" if "\<not> (BADCHAR \<le> x \<or> BADCHAR \<le> y)"
  proof -
    from that assms have "drop_bit 24 x = 0" "drop_bit 24 y = 0" unfolding entry_def by blast+
    then show ?thesis unfolding drop_bit_or by (simp only: or.left_neutral simp_thms)
  qed
  then show "entry (x OR y)" unfolding entry_def using or_ge [of x y] by blast
  have "\<not> BADCHAR \<le> x OR y" if "\<not> (BADCHAR \<le> x \<or> BADCHAR \<le> y)"
  proof -
    from that assms have "drop_bit 24 x = 0" "drop_bit 24 y = 0" unfolding entry_def by blast+
    then have "drop_bit 24 (x OR y) = 0" unfolding drop_bit_or by (simp only: or.left_neutral)
    then show ?thesis using top_less [of "x OR y"] by (simp only: not_le)
  qed
  then show "BADCHAR \<le> x OR y \<longleftrightarrow> BADCHAR \<le> x \<or> BADCHAR \<le> y" using or_ge [of x y] by blast
qed

lemma entry_le_word:
  assumes "\<And>v. v < 64 \<Longrightarrow> f v < 2 ^ 24"
  shows "entry (le_word f c) \<and> (BADCHAR \<le> le_word f c \<longleftrightarrow> \<not> valid [c])"
  using le_word_top [of f c, OF assms] le_word_ge [of c f] top_less [of "le_word f c"]
  unfolding entry_def by (auto simp: not_le [symmetric])

text \<open>A word passes the test of the decoder when all its characters are valid.\<close>

lemma below_iff:
  "BADCHAR \<le> le_word l0 a OR le_word l1 b \<longleftrightarrow> \<not> valid [a, b]"
  "BADCHAR \<le> le_word l0 a OR le_word l1 b OR le_word l2 c \<longleftrightarrow> \<not> valid [a, b, c]"
  "BADCHAR \<le> le_word l0 a OR le_word l1 b OR le_word l2 c OR le_word l3 d \<longleftrightarrow> \<not> valid [a, b, c, d]"
proof -
  have e: "entry (le_word l0 a)" "entry (le_word l1 b)" "entry (le_word l2 c)" "entry (le_word l3 d)"
    by (simp_all only: entry_le_word l_less)
  have i: "BADCHAR \<le> le_word l0 a \<longleftrightarrow> \<not> valid [a]" "BADCHAR \<le> le_word l1 b \<longleftrightarrow> \<not> valid [b]"
    "BADCHAR \<le> le_word l2 c \<longleftrightarrow> \<not> valid [c]" "BADCHAR \<le> le_word l3 d \<longleftrightarrow> \<not> valid [d]"
    by (simp_all only: entry_le_word l_less)
  note cd = entry_or [OF e(3,4)]
  note bcd = entry_or [OF e(2) cd(1)] and bc = entry_or [OF e(2,3)]
  have v: "valid [a, b] \<longleftrightarrow> valid [a] \<and> valid [b]" "valid [a, b, c] \<longleftrightarrow> valid [a] \<and> valid [b] \<and> valid [c]"
    "valid [a, b, c, d] \<longleftrightarrow> valid [a] \<and> valid [b] \<and> valid [c] \<and> valid [d]"
    by (simp_all add: valid_def)
  show "BADCHAR \<le> le_word l0 a OR le_word l1 b \<longleftrightarrow> \<not> valid [a, b]" unfolding v entry_or(2) [OF e(1,2)] i by blast
  show "BADCHAR \<le> le_word l0 a OR le_word l1 b OR le_word l2 c \<longleftrightarrow> \<not> valid [a, b, c]"
    unfolding v entry_or(2) [OF e(1) bc(1)] bc(2) i by blast
  show "BADCHAR \<le> le_word l0 a OR le_word l1 b OR le_word l2 c OR le_word l3 d \<longleftrightarrow> \<not> valid [a, b, c, d]"
    unfolding v entry_or(2) [OF e(1) bcd(1)] bcd(2) cd(2) i by blast
qed

lemma mult_256: "b * 4096 = b * 16 * 256" "b * 4194304 = b * 16384 * 256" "b * 65536 = b * 256 * 256" for b :: nat by simp_all
lemma div_65536: "n div 65536 = n div 256 div 256" for n :: nat by (simp add: div_mult2_eq [symmetric])
lemma low_256: "(a + b * 4096) mod 256 = a mod 256" "(a + b * 4096) div 256 = a div 256 + b * 16"
    "(a * 256 + b * 4194304) mod 256 = 0" "(a * 256 + b * 4194304) div 256 = a + b * 64 * 256"
    "b * 65536 mod 256 = 0" "b * 65536 div 256 = b * 256" for a b :: nat
  subgoal unfolding mult_256 by (rule mod_mult_self1)
  subgoal unfolding mult_256 by (subst div_mult_self1) simp_all
  subgoal unfolding mult_256 distrib_right [symmetric] by (rule mod_mult_self2_is_0)
  subgoal unfolding mult_256 distrib_right [symmetric] by (subst nonzero_mult_div_cancel_right) simp_all
  subgoal unfolding mult_256 by (rule mod_mult_self2_is_0)
  subgoal unfolding mult_256 by (subst nonzero_mult_div_cancel_right) simp_all
  done
lemma high_256: "(a * 256 + b * 4194304) div 65536 = a div 256 + b * 64" "b * 256 mod 256 = 0" "b * 65536 div 65536 = b" for a b :: nat
  subgoal unfolding div_65536 low_256 by (subst div_mult_self1) simp_all
  subgoal by (rule mod_mult_self2_is_0)
  subgoal by (subst nonzero_mult_div_cancel_right) simp_all
  done

lemma part_word:
  assumes "v < 64"
  shows "part0 (word_of_nat (l0 v)) = word_of_nat (v * 4)" "part1 (word_of_nat (l0 v)) = 0" "part2 (word_of_nat (l0 v)) = 0"
    "part0 (word_of_nat (l1 v)) = word_of_nat (v div 16)" "part1 (word_of_nat (l1 v)) = word_of_nat (v mod 16 * 16)" "part2 (word_of_nat (l1 v)) = 0"
    "part0 (word_of_nat (l2 v)) = 0" "part1 (word_of_nat (l2 v)) = word_of_nat (v div 4)" "part2 (word_of_nat (l2 v)) = word_of_nat (v mod 4 * 64)"
    "part0 (word_of_nat (l3 v)) = 0" "part1 (word_of_nat (l3 v)) = 0" "part2 (word_of_nat (l3 v)) = word_of_nat v"
proof -
  have le: "l0 v < 2 ^ 32" "l1 v < 2 ^ 32" "l2 v < 2 ^ 32" "l3 v < 2 ^ 32" using l_less [OF assms] by simp_all
  have d: "v div 4 < 16" "v div 16 < 4" "v mod 16 < 16" "v mod 4 < 4" using assms by (simp_all add: less_mult_imp_div_less)
  note q = div_65536 and a = low_256 and aa = high_256
  have m: "n mod 256 = k mod 256 \<Longrightarrow> word_of_nat n = (word_of_nat k :: byte)" for n k
    by (simp add: word_of_nat_eq_iff take_bit_eq_mod)
  have z: "n mod 256 = 0 \<Longrightarrow> word_of_nat n = (0 :: byte)" for n using m [of n 0] by simp
  note r = part_of_nat mod_less [OF le(1)] mod_less [OF le(2)] mod_less [OF le(3)] mod_less [OF le(4)]
  note p = power_numeral_even power_numeral_odd
  have n: "2 ^ 8 = (256 :: nat)" "2 ^ 16 = (65536 :: nat)" by simp_all
  show "part0 (word_of_nat (l0 v)) = word_of_nat (v * 4)" "part1 (word_of_nat (l0 v)) = 0" "part2 (word_of_nat (l0 v)) = 0"
    unfolding r n unfolding l0_def using assms by simp_all
  show "part0 (word_of_nat (l1 v)) = word_of_nat (v div 16)" "part1 (word_of_nat (l1 v)) = word_of_nat (v mod 16 * 16)"
      "part2 (word_of_nat (l1 v)) = 0"
    unfolding r n unfolding l1_def
    subgoal by (rule m) (simp only: a)
    subgoal using d by (simp only: a) simp
    subgoal using d by (simp only: q a) simp
    done
  show "part0 (word_of_nat (l2 v)) = 0" "part1 (word_of_nat (l2 v)) = word_of_nat (v div 4)" "part2 (word_of_nat (l2 v)) = word_of_nat (v mod 4 * 64)"
    unfolding r n unfolding l2_def
    subgoal by (rule z) (simp only: a aa)
    subgoal by (rule m) (simp only: a aa mod_mult_self1)
    subgoal using d by (simp only: a aa) simp
    done
  show "part0 (word_of_nat (l3 v)) = 0" "part1 (word_of_nat (l3 v)) = 0" "part2 (word_of_nat (l3 v)) = word_of_nat v"
    unfolding r n unfolding l3_def
    subgoal by (rule z) (simp only: a aa)
    subgoal by (rule z) (simp only: a aa)
    subgoal by (simp only: a aa)
    done
qed

lemma valid_word: "valid [c] \<Longrightarrow> le_word f c = word_of_nat (f (val c))"
  by (auto simp: le_word_def valid_def val_def)

lemma valid_append: "valid (x @ y) \<longleftrightarrow> valid x \<and> valid y"
  by (auto simp: valid_def)

lemma valid_Cons: "valid (a # x) \<longleftrightarrow> valid [a] \<and> valid x"
  by (simp add: valid_def)

lemma quarter_or: "u < 64 \<Longrightarrow> word_of_nat (v * 4) OR word_of_nat (u div 16) = (word_of_nat (v * 4 + u div 16) :: byte)"
  "u < 64 \<Longrightarrow> word_of_nat (v * 16) OR word_of_nat (u div 4) = (word_of_nat (v * 16 + u div 4) :: byte)"
  "u < 64 \<Longrightarrow> word_of_nat (v * 64) OR word_of_nat u = (word_of_nat (v * 64 + u) :: byte)"
  using or_low_word [of "u div 16" 2 v, where 'w = 8] or_low_word [of "u div 4" 4 v, where 'w = 8] or_low_word [of u 6 v, where 'w = 8]
  by (simp_all add: less_mult_imp_div_less)

lemma group_parts:
  assumes "valid [a, b, c, d]"
  shows "part0 (le_word l0 a OR le_word l1 b OR le_word l2 c OR le_word l3 d) = word_of_nat (val a * 4 + val b div 16)"
    "part1 (le_word l0 a OR le_word l1 b OR le_word l2 c OR le_word l3 d) = word_of_nat (val b mod 16 * 16 + val c div 4)"
    "part2 (le_word l0 a OR le_word l1 b OR le_word l2 c OR le_word l3 d) = word_of_nat (val c mod 4 * 64 + val d)"
    "part0 (le_word l0 a OR le_word l1 b OR le_word l2 c) = word_of_nat (val a * 4 + val b div 16)"
    "part1 (le_word l0 a OR le_word l1 b OR le_word l2 c) = word_of_nat (val b mod 16 * 16 + val c div 4)"
    "part0 (le_word l0 a OR le_word l1 b) = word_of_nat (val a * 4 + val b div 16)"
proof -
  have v: "valid [a]" "valid [b]" "valid [c]" "valid [d]" using assms by (simp_all add: valid_def)
  note w = valid_word [OF v(1)] valid_word [OF v(2)] valid_word [OF v(3)] valid_word [OF v(4)]
  note p = part_word [OF val_less [of a]] part_word [OF val_less [of b]] part_word [OF val_less [of c]] part_word [OF val_less [of d]]
  show "part0 (le_word l0 a OR le_word l1 b OR le_word l2 c OR le_word l3 d) = word_of_nat (val a * 4 + val b div 16)"
    "part1 (le_word l0 a OR le_word l1 b OR le_word l2 c OR le_word l3 d) = word_of_nat (val b mod 16 * 16 + val c div 4)"
    "part2 (le_word l0 a OR le_word l1 b OR le_word l2 c OR le_word l3 d) = word_of_nat (val c mod 4 * 64 + val d)"
    "part0 (le_word l0 a OR le_word l1 b OR le_word l2 c) = word_of_nat (val a * 4 + val b div 16)"
    "part1 (le_word l0 a OR le_word l1 b OR le_word l2 c) = word_of_nat (val b mod 16 * 16 + val c div 4)"
    "part0 (le_word l0 a OR le_word l1 b) = word_of_nat (val a * 4 + val b div 16)"
    unfolding w parts_or p by (simp_all only: or.left_neutral or.right_neutral quarter_or val_less)
qed

lemma bytes_of_append: "4 dvd length x \<Longrightarrow> bytes_of (x @ y) = bytes_of x @ bytes_of y"
proof (induction x rule: bytes_of.induct)
  case (1 a b c d r)
  then have "4 dvd length r" by (simp add: dvd_eq_mod_eq_0)
  then show ?case using 1 by simp
qed (simp_all add: dvd_eq_mod_eq_0)

lemma length_bytes_of: "length x = 4 * n \<Longrightarrow> length (bytes_of x) = 3 * n"
proof (induction x arbitrary: n rule: bytes_of.induct)
  case (1 a b c d r)
  then have "length r = 4 * (n - 1)" "1 \<le> n" by simp_all
  then show ?case using 1 by simp
qed (presburger | simp)+

text \<open>The writes of a group.\<close>

lemma wr_next: "p < length dest \<Longrightarrow> take p dest = out \<Longrightarrow>
  \<exists>dest'. wr dest p b = Some dest' \<and> take (Suc p) dest' = out @ [b] \<and> length dest' = length dest"
  by (auto simp: wr_def take_Suc_conv_app_nth)

lemma wr_after: "take n dest = out \<Longrightarrow> n \<le> p \<Longrightarrow> p < length dest \<Longrightarrow>
  \<exists>dest'. wr dest p b = Some dest' \<and> take n dest' = out \<and> length dest' = length dest"
  by (auto simp: wr_def)

lemma store_le_in:
  assumes "p + 4 \<le> length dest" "take p dest = out"
  shows "\<exists>dest'. store_le dest p x = Some dest' \<and> take (p + 3) dest' = out @ [part0 x, part1 x, part2 x] \<and> length dest' = length dest"
proof -
  obtain d1 where 1: "wr dest p (part0 x) = Some d1" "take (Suc p) d1 = out @ [part0 x]" "length d1 = length dest"
    using wr_next [of p dest out "part0 x"] assms by auto
  obtain d2 where 2: "wr d1 (Suc p) (part1 x) = Some d2" "take (Suc (Suc p)) d2 = (out @ [part0 x]) @ [part1 x]" "length d2 = length dest"
    using wr_next [of "Suc p" d1 _ "part1 x", OF _ 1(2)] 1(3) assms by auto
  obtain d3 where 3: "wr d2 (Suc (Suc p)) (part2 x) = Some d3" "take (Suc (Suc (Suc p))) d3 = ((out @ [part0 x]) @ [part1 x]) @ [part2 x]"
      "length d3 = length dest"
    using wr_next [of "Suc (Suc p)" d2 _ "part2 x", OF _ 2(2)] 2(3) assms by auto
  obtain d4 where 4: "wr d3 (Suc (Suc (Suc p))) (ucast (drop_bit 24 x)) = Some d4"
      "take (Suc (Suc (Suc p))) d4 = ((out @ [part0 x]) @ [part1 x]) @ [part2 x]" "length d4 = length dest"
    using wr_after [OF 3(2), of "Suc (Suc (Suc p))" "ucast (drop_bit 24 x)"] 3(3) assms by auto
  have n: "p + 1 = Suc p" "p + 2 = Suc (Suc p)" "p + 3 = Suc (Suc (Suc p))" by simp_all
  have "store_le dest p x = Some d4"
    using 1(1) 2(1) 3(1) 4(1) unfolding store_le_def parts n by simp
  then show ?thesis using 4 unfolding n by simp
qed

text \<open>The loop: after \<open>k\<close> groups it has failed when one of their characters was not valid, and otherwise
  the bytes of the groups stand in front.\<close>

lemma take_4: "4 * k + 4 \<le> length xs \<Longrightarrow>
  take (4 * Suc k) xs = take (4 * k) xs @ [xs ! (4 * k), xs ! (4 * k + 1), xs ! (4 * k + 2), xs ! (4 * k + 3)]"
  by (simp add: take_Suc_conv_app_nth eval_nat_numeral)

lemma decode_loop:
  assumes "4 * n + 4 \<le> length src" "3 * n + 1 \<le> length dest" and y0: "load_le src 0 = Some y0"
  shows "\<exists>failed dest' y. for_in [0..<n] (decode_chunk_le src) (False, dest, y0) = Some (failed, dest', y)
    \<and> length dest' = length dest \<and> (failed \<longleftrightarrow> \<not> valid (take (4 * n) src))
    \<and> (\<not> failed \<longrightarrow> take (3 * n) dest' = bytes_of (map val (take (4 * n) src)) \<and> load_le src n = Some y)"
proof -
  let ?P = "\<lambda>k (failed, dest', y). length dest' = length dest \<and> (failed \<longleftrightarrow> \<not> valid (take (4 * k) src))
    \<and> (\<not> failed \<longrightarrow> take (3 * k) dest' = bytes_of (map val (take (4 * k) src)) \<and> load_le src k = Some y)"
  have "\<exists>s. for_in [0..<n] (decode_chunk_le src) (False, dest, y0) = Some s \<and> ?P n s"
  proof (rule for_in_upt)
    show "?P 0 (False, dest, y0)" using y0 by (simp add: valid_def)
  next
    fix k s assume k: "k < n" and P: "?P k s"
    obtain failed d y where s: "s = (failed, d, y)" by (cases s)
    let ?a = "src ! (4 * k)" and ?b = "src ! (4 * k + 1)" and ?c = "src ! (4 * k + 2)" and ?d = "src ! (4 * k + 3)"
    have k4: "4 * k + 4 \<le> length src" using k assms(1) by linarith
    note t = take_4 [OF k4]
    show "\<exists>s'. decode_chunk_le src k s = Some s' \<and> ?P (Suc k) s'"
    proof (cases failed)
      case True
      then have "decode_chunk_le src k s = Some s" "\<not> valid (take (4 * Suc k) src)"
        using P unfolding t valid_append by (simp_all add: decode_chunk_le_def s)
      then show ?thesis using P True unfolding s by auto
    next
      case False
      then have F: "length d = length dest" "valid (take (4 * k) src)" "take (3 * k) d = bytes_of (map val (take (4 * k) src))"
        "y = le_join ?a ?b ?c ?d" using P load_le_in [OF k4] by (auto simp: s)
      let ?x = "le_word l0 ?a OR le_word l1 ?b OR le_word l2 ?c OR le_word l3 ?d"
      have x: "lookup4_le y = Some ?x" unfolding F(4) by (rule lookup4_le_join)
      show ?thesis
      proof (cases "valid [?a, ?b, ?c, ?d]")
        case False
        then have "BADCHAR \<le> ?x" unfolding below_iff .
        then have "decode_chunk_le src k s = Some (True, d, y)" using \<open>\<not> failed\<close> x by (simp add: decode_chunk_le_def s)
        moreover have "\<not> valid (take (4 * Suc k) src)" using False unfolding t valid_append by blast
        ultimately show ?thesis using F(1) by auto
      next
        case True
        then have "\<not> BADCHAR \<le> ?x" unfolding below_iff by blast
        obtain d' where d': "store_le d (3 * k) ?x = Some d'" "take (3 * k + 3) d' = bytes_of (map val (take (4 * k) src)) @ [part0 ?x, part1 ?x, part2 ?x]"
          "length d' = length d" using store_le_in [OF _ F(3), of ?x] F(1) k assms(2) by auto
        have k5: "4 * Suc k + 4 \<le> length src" using mult_le_mono2 [OF Suc_leI [OF k], of 4] assms(1) by linarith
        obtain y' where y': "load_le src (Suc k) = Some y'" using load_le_in [OF k5] by blast
        have "decode_chunk_le src k s = Some (False, d', y')"
          using \<open>\<not> failed\<close> \<open>\<not> BADCHAR \<le> ?x\<close> x d'(1) y' by (simp add: decode_chunk_le_def s)
        moreover have "valid (take (4 * Suc k) src)" using True F(2) unfolding t valid_append by blast
        moreover have "take (3 * Suc k) d' = bytes_of (map val (take (4 * Suc k) src))"
        proof -
          have E: "3 * Suc k = 3 * k + 3" and D: "4 dvd length (map val (take (4 * k) src))" using k4 by simp_all
          show ?thesis
            unfolding t map_append bytes_of_append [OF D] E d'(2) group_parts [OF True] list.map bytes_of.simps ..
        qed
        ultimately show ?thesis using y' d'(3) F(1) by auto
      qed
    qed
  qed simp
  then show ?thesis by auto
qed

text \<open>The last group, with two, three or four characters.\<close>

lemma decode_last:
  fixes a b c d :: byte
  assumes "take p dest = out" "p + 2 < length dest" "p = 3 * nat n" "0 \<le> n"
  defines "y \<equiv> le_join a b c d"
  shows "\<exists>r dest'. decode_last_le 0 n dest y = Some (r, dest') \<and>
      (if valid [a, b, c, d] then r = 3 * n + 3 \<and> take (p + 3) dest' = out @ bytes_of (map val [a, b, c, d]) else r = - 1)"
    "\<exists>r dest'. decode_last_le 3 n dest y = Some (r, dest') \<and>
      (if valid [a, b, c] then r = 3 * n + 2 \<and> take (p + 2) dest' = out @ bytes_of (map val [a, b, c]) else r = - 1)"
    "\<exists>r dest'. decode_last_le 2 n dest y = Some (r, dest') \<and>
      (if valid [a, b] then r = 3 * n + 1 \<and> take (p + 1) dest' = out @ bytes_of (map val [a, b]) else r = - 1)"
proof -
  have A: "valid [alphabet ! 0]" by (simp add: valid_def sextet_alphabet)
  have v: "valid [a, b, c] \<Longrightarrow> valid [a, b, c, alphabet ! 0]" "valid [a, b] \<Longrightarrow> valid [a, b, alphabet ! 0, alphabet ! 0]"
    using A by (simp_all add: valid_def)
  have n: "p + 1 = Suc p" "p + 2 = Suc (Suc p)" "p + 3 = Suc (Suc (Suc p))" by simp_all
  let ?x = "le_word l0 a OR le_word l1 b OR le_word l2 c OR le_word l3 d"
  obtain d1 where 1: "wr dest p (part0 ?x) = Some d1" "take (Suc p) d1 = out @ [part0 ?x]" "length d1 = length dest"
    using wr_next [of p dest out "part0 ?x"] assms by auto
  obtain d2 where 2: "wr d1 (Suc p) (part1 ?x) = Some d2" "take (Suc (Suc p)) d2 = (out @ [part0 ?x]) @ [part1 ?x]" "length d2 = length dest"
    using wr_next [of "Suc p" d1 _ "part1 ?x", OF _ 1(2)] 1(3) assms by auto
  obtain d3 where 3: "wr d2 (Suc (Suc p)) (part2 ?x) = Some d3" "take (Suc (Suc (Suc p))) d3 = ((out @ [part0 ?x]) @ [part1 ?x]) @ [part2 ?x]"
    using wr_next [of "Suc (Suc p)" d2 _ "part2 ?x", OF _ 2(2)] 2(3) assms by auto
  show "\<exists>r dest'. decode_last_le 0 n dest y = Some (r, dest') \<and>
      (if valid [a, b, c, d] then r = 3 * n + 3 \<and> take (p + 3) dest' = out @ bytes_of (map val [a, b, c, d]) else r = - 1)"
  proof (cases "valid [a, b, c, d]")
    case True
    then have "\<not> BADCHAR \<le> ?x" unfolding below_iff by blast
    then have "decode_last_le 0 n dest y = Some ((n + 1) * 3, d3)"
      using 1(1) 2(1) 3(1) unfolding decode_last_le_def y_def lookup4_le_join parts assms(3) [symmetric] by (simp add: n)
    then show ?thesis using True 3(2) group_parts [OF True] unfolding n by simp
  next
    case False
    then have "BADCHAR \<le> ?x" unfolding below_iff .
    then show ?thesis using False unfolding decode_last_le_def y_def lookup4_le_join by simp
  qed
  let ?x = "le_word l0 a OR le_word l1 b OR le_word l2 c"
  obtain e1 where 1: "wr dest p (part0 ?x) = Some e1" "take (Suc p) e1 = out @ [part0 ?x]" "length e1 = length dest"
    using wr_next [of p dest out "part0 ?x"] assms by auto
  obtain e2 where 2: "wr e1 (Suc p) (part1 ?x) = Some e2" "take (Suc (Suc p)) e2 = (out @ [part0 ?x]) @ [part1 ?x]"
    using wr_next [of "Suc p" e1 _ "part1 ?x", OF _ 1(2)] 1(3) assms by auto
  have "decode_last_le 3 n dest y = Some (if BADCHAR \<le> ?x then - 1 else 3 * n + 2, e2)"
    using 1(1) 2(1) unfolding decode_last_le_def y_def le_join_bytes le_rd parts assms(3) [symmetric] by (simp add: n)
  then show "\<exists>r dest'. decode_last_le 3 n dest y = Some (r, dest') \<and>
      (if valid [a, b, c] then r = 3 * n + 2 \<and> take (p + 2) dest' = out @ bytes_of (map val [a, b, c]) else r = - 1)"
    using below_iff(2) [of a b c] 2(2) group_parts(4,5) [OF v(1)] unfolding n by auto
  let ?x = "le_word l0 a OR le_word l1 b"
  obtain f1 where 1: "wr dest p (part0 ?x) = Some f1" "take (Suc p) f1 = out @ [part0 ?x]"
    using wr_next [of p dest out "part0 ?x"] assms by auto
  have "decode_last_le 2 n dest y = Some (if BADCHAR \<le> ?x then - 1 else 3 * n + 1, f1)"
    using 1(1) unfolding decode_last_le_def y_def le_join_bytes le_rd parts assms(3) [symmetric] by simp
  then show "\<exists>r dest'. decode_last_le 2 n dest y = Some (r, dest') \<and>
      (if valid [a, b] then r = 3 * n + 1 \<and> take (p + 1) dest' = out @ bytes_of (map val [a, b]) else r = - 1)"
    using below_iff(1) [of a b] 1(2) group_parts(6) [OF v(2)] unfolding n by auto
qed

text \<open>The whole decoder agrees with the reference.\<close>

lemma strip_snoc: "strip (pre @ [a, b, c, d]) = pre @ (if d = CHARPAD then if c = CHARPAD then [a, b] else [a, b, c] else [a, b, c, d])"
  by (simp add: strip_def butlast_append)

lemma bytes_of_group: "length (bytes_of [a, b, c, d]) = 3" "length (bytes_of [a, b, c]) = 2" "length (bytes_of [a, b]) = 1"
  by simp_all

lemma decode_result:
  assumes "\<exists>r dest'. run = Some (r, dest') \<and> (if ok then r = c \<and> take q dest' = out @ tail else r = - 1)"
    "c = int (length out + length tail)" "q = length out + length tail"
  shows "\<exists>r dest'. run = Some (r, dest') \<and> (case if ok then Some (out @ tail) else None of
    None \<Rightarrow> r = - 1 | Some out \<Rightarrow> r = int (length out) \<and> take (length out) dest' = out)"
  using assms by (cases ok) auto

lemma modp_b64_decode_le_eq:
  assumes "length src = 4 * n + 4" "length dest = 3 * n + 5"
  shows "\<exists>r dest'. modp_b64_decode_le dest src (int (length src)) = Some (r, dest') \<and>
    (case unb64 src of None \<Rightarrow> r = - 1 | Some out \<Rightarrow> r = int (length out) \<and> take (length out) dest' = out)"
proof -
  let ?pre = "take (4 * n) src"
  let ?a = "src ! (4 * n)" and ?b = "src ! (4 * n + 1)" and ?c = "src ! (4 * n + 2)" and ?d = "src ! (4 * n + 3)"
  have src: "src = ?pre @ [?a, ?b, ?c, ?d]" using take_4 [of n src] assms(1) by simp
  have pad: "strip_padding src (int (length src)) =
      Some (if ?d = CHARPAD then if ?c = CHARPAD then int (4 * n + 2) else int (4 * n + 3) else int (length src))"
    using assms(1) by (simp add: strip_padding_def rdz_in nat_add_distrib nat_mult_distrib) (simp add: add.commute)
  obtain y0 where y0: "load_le src 0 = Some y0" using load_le_in [of 0 src] assms(1) by auto
  obtain failed d y where loop: "for_in [0..<n] (decode_chunk_le src) (False, dest, y0) = Some (failed, d, y)"
    and L: "length d = length dest" "failed \<longleftrightarrow> \<not> valid ?pre"
      "\<not> failed \<Longrightarrow> take (3 * n) d = bytes_of (map val ?pre) \<and> load_le src n = Some y"
    using decode_loop [OF _ _ y0, of n dest] assms by auto
  have lead: "modp_b64_decode_le dest src (int (length src)) =
      (if failed then Some (- 1, d) else decode_last_le (len mod 4) (int n) d y)"
    if len: "strip_padding src (int (length src)) = Some len" "(if len mod 4 = 0 then len div 4 - 1 else len div 4) = int n" for len
    unfolding modp_b64_decode_le_def using assms(1) loop len y0 by (simp add: Let_def)
  have div: "(4 * int n + 2) mod 4 = 2" "(4 * int n + 2) div 4 = int n" "(4 * int n + 3) mod 4 = 3" "(4 * int n + 3) div 4 = int n"
    "(4 * int n + 4) mod 4 = 0" "(4 * int n + 4) div 4 = int n + 1" by presburger+
  have D: "4 dvd length (map val ?pre)" using assms(1) by simp
  have out: "length (bytes_of (map val ?pre)) = 3 * n" using assms(1) by (intro length_bytes_of) simp
  have un: "unb64 src = (if valid ?pre \<and> valid t then Some (bytes_of (map val ?pre) @ bytes_of (map val t)) else None)"
    if "strip src = ?pre @ t" for t
    unfolding unb64_def that valid_append map_append bytes_of_append [OF D] using assms(1) by simp
  have st: "strip src = ?pre @ (if ?d = CHARPAD then if ?c = CHARPAD then [?a, ?b] else [?a, ?b, ?c] else [?a, ?b, ?c, ?d])"
    using strip_snoc [of ?pre ?a ?b ?c ?d] unfolding src [symmetric] .
  show ?thesis
  proof (cases failed)
    case True
    then have "unb64 src = None" using un [OF st] L(2) by simp
    moreover have "\<exists>len. strip_padding src (int (length src)) = Some len \<and> (if len mod 4 = 0 then len div 4 - 1 else len div 4) = int n"
      unfolding pad using div assms(1) by auto
    ultimately show ?thesis using lead True by auto
  next
    case False
    have y: "y = le_join ?a ?b ?c ?d" and t: "take (3 * n) d = bytes_of (map val ?pre)"
      using L(3) [OF False] load_le_in [of n src] assms(1) by auto
    have ok: "valid ?pre" using L(2) False by blast
    have room: "3 * n + 2 < length d" using L(1) assms(2) by simp
    have p: "3 * n = 3 * nat (int n)" "0 \<le> int n" by simp_all
    note last = decode_last [OF t room p, of ?a ?b ?c ?d, folded y]
    have lead: "modp_b64_decode_le dest src (int (length src)) = decode_last_le (len mod 4) (int n) d y"
      if "strip_padding src (int (length src)) = Some len" "(if len mod 4 = 0 then len div 4 - 1 else len div 4) = int n" for len
      using lead [OF that] False by simp
    consider "?d \<noteq> CHARPAD" | "?d = CHARPAD" "?c \<noteq> CHARPAD" | "?d = CHARPAD" "?c = CHARPAD" by blast
    then show ?thesis
    proof cases
      case 1
      then have "strip_padding src (int (length src)) = Some (int (length src))" unfolding pad by simp
      then have m: "modp_b64_decode_le dest src (int (length src)) = decode_last_le 0 (int n) d y"
        using lead [of "int (length src)"] div assms(1) by simp
      have u: "unb64 src = (if valid [?a, ?b, ?c, ?d] then Some (bytes_of (map val ?pre) @ bytes_of (map val [?a, ?b, ?c, ?d])) else None)"
        using un [of "[?a, ?b, ?c, ?d]"] st 1 ok by simp
      show ?thesis unfolding m u by (rule decode_result [OF last(1)]) (simp_all add: out)
    next
      case 2
      then have "strip_padding src (int (length src)) = Some (int (4 * n + 3))" unfolding pad by simp
      then have m: "modp_b64_decode_le dest src (int (length src)) = decode_last_le 3 (int n) d y"
        using lead [of "int (4 * n + 3)"] div assms(1) by simp
      have u: "unb64 src = (if valid [?a, ?b, ?c] then Some (bytes_of (map val ?pre) @ bytes_of (map val [?a, ?b, ?c])) else None)"
        using un [of "[?a, ?b, ?c]"] st 2 ok by simp
      show ?thesis unfolding m u by (rule decode_result [OF last(2)]) (simp_all add: out)
    next
      case 3
      then have "strip_padding src (int (length src)) = Some (int (4 * n + 2))" unfolding pad by simp
      then have m: "modp_b64_decode_le dest src (int (length src)) = decode_last_le 2 (int n) d y"
        using lead [of "int (4 * n + 2)"] div assms(1) by simp
      have u: "unb64 src = (if valid [?a, ?b] then Some (bytes_of (map val ?pre) @ bytes_of (map val [?a, ?b])) else None)"
        using un [of "[?a, ?b]"] st 3 ok by simp
      show ?thesis unfolding m u by (rule decode_result [OF last(3)]) (simp_all add: out)
    qed
  qed
qed

section \<open>The C++ functions\<close>

lemma Base64Decode_eq:
  assumes "length x < 2 ^ 31"
  shows "Base64Decode x = Some (unb64 x)"
proof (cases "x \<noteq> [] \<and> length x mod 4 = 0")
  case True
  then have "0 < length x" "length x mod 4 = 0" by simp_all
  then have "length x = 4 * (length x div 4 - 1) + 4" by presburger
  then obtain n where n: "length x = 4 * n + 4" by blast
  let ?temp = "replicate (modp_b64_decode_len (length x)) (0 :: byte)"
  have "length ?temp = 3 * n + 5" by (simp add: modp_b64_decode_len_def n)
  then obtain r t where d: "modp_b64_decode_le ?temp x (int (length x)) = Some (r, t)"
    and r: "case unb64 x of None \<Rightarrow> r = - 1 | Some out \<Rightarrow> r = int (length out) \<and> take (length out) t = out"
    using modp_b64_decode_le_eq [OF n] by blast
  have "length out \<le> length t" if "take (length out) t = out" for out
    using arg_cong [OF that, of length] by simp
  then show ?thesis using r
    by (auto simp: Base64Decode_def to_int_eq [OF assms] d string_resize_def split: option.splits)
next
  case False
  then show ?thesis
  proof (cases "x = []")
    case True
    then show ?thesis by (simp add: Base64Decode_def to_int_eq modp_b64_decode_le_def string_resize_def unb64_def strip_def valid_def)
  next
    case nonempty: False
    then have m: "length x mod 4 \<noteq> 0" using False by simp
    then have "int (length x) mod 4 \<noteq> 0" by presburger
    then have "modp_b64_decode_le dest x (int (length x)) = Some (- 1, dest)" for dest
      using nonempty by (simp add: modp_b64_decode_le_def)
    then show ?thesis using m by (simp add: Base64Decode_def to_int_eq [OF assms] unb64_def)
  qed
qed

lemma pad_invalid: "sextet (unat CHARPAD) = None"
  by (simp add: CHARPAD_def sextet_def)

lemma strip_pad:
  assumes "valid u" "k \<le> 2"
  shows "strip (u @ replicate k CHARPAD) = u"
proof -
  have n: "last u \<noteq> CHARPAD" if "u \<noteq> []"
    using assms(1) last_in_set [OF that] pad_invalid by (auto simp: valid_def)
  consider "k = 0" | "k = 1" | "k = 2" using assms(2) by linarith
  then show ?thesis using n by cases (auto simp: strip_def butlast_append numeral_2_eq_2)
qed

lemma pad_at_most_2: "r < 3 \<Longrightarrow> (4 - (4 * q + (if r = 0 then 0 else r + 1)) mod 4) mod 4 \<le> 2" for r q :: nat
proof -
  assume "r < 3"
  then have "r = 0 \<or> r = 1 \<or> r = 2" by linarith
  moreover have "(4 * q) mod 4 = 0" "(4 * q + (1 + 1)) mod 4 = 2" "(4 * q + (2 + 1)) mod 4 = 3" by presburger+
  ultimately show ?thesis by auto
qed

lemma unb64_b64: "unb64 (b64 x) = Some x"
proof -
  let ?u = "map ((!) alphabet) (sextets_of x)" and ?k = "(4 - length (sextets_of x) mod 4) mod 4"
  have v: "valid ?u" using sextets_less sextet_alphabet by (fastforce simp: valid_def)
  have "?k \<le> 2" unfolding length_sextets by (rule pad_at_most_2) simp
  then have "strip (b64 x) = ?u" unfolding b64_def by (rule strip_pad [OF v])
  moreover have "map val ?u = sextets_of x"
    unfolding map_map by (rule map_idI) (simp add: val_def sextet_alphabet sextets_less)
  moreover have "length (b64 x) mod 4 = 0" unfolding length_b64 by simp
  ultimately show ?thesis using v by (simp add: unb64_def bytes_of_sextets del: map_map)
qed

lemma Base64_roundtrip_plain:
  assumes "(length x + 2) div 3 * 4 < 2 ^ 31"
  shows "do { r \<leftarrow> Base64Encode x; case r of None \<Rightarrow> Some None | Some t \<Rightarrow> Base64Decode t } = Some (Some x)"
proof -
  have "length x < 2 ^ 31" using assms by linarith
  moreover have "length (b64 x) < 2 ^ 31" using assms unfolding length_b64 .
  ultimately show ?thesis by (simp add: Base64Encode_eq Base64Decode_eq unb64_b64)
qed

text \<open>C27. Base64 round trip: \<open>Base64Decode\<close> on a little-endian machine returns true with the very bytes that
  \<open>Base64Encode\<close> was given, for every string whose encoding has fewer than 2^31 characters.\<close>

theorem Base64_roundtrip:
  assumes "(length x + 2) div 3 * 4 < 2 ^ 31"
  shows "do { r \<leftarrow> Base64Encode x; case r of None \<Rightarrow> Some None | Some t \<Rightarrow> Base64Decode t } = Some (Some x)"
  by (rule Base64_roundtrip_plain [OF assms])

theorem Base64_roundtrip_witness:
  "do { r \<leftarrow> Base64Encode [77, 97]; case r of None \<Rightarrow> Some None | Some t \<Rightarrow> Base64Decode t } = Some (Some [77, 97])"
  by (rule Base64_roundtrip) simp

text \<open>The encoder agrees with RFC 4648 on every string whose encoding has fewer than 2^31 characters: it writes the
  six-bit values of the bytes in the alphabet and pads with equals signs; no access of its tables or
  buffers is out of bounds.\<close>

lemma Base64Encode_is_rfc4648:
  assumes "length (b64 x) < 2 ^ 31"
  shows "Base64Encode x = Some (Some (b64 x))"
  by (rule Base64Encode_eq [OF assms])

text \<open>C28. What the little-endian decoder accepts: it returns false when the length is not a multiple of
  four or a character before the padding is not in the alphabet, and otherwise the bytes of the six-bit
  values; no access of its tables or buffers is out of bounds, on any input of fewer than 2^31 bytes.\<close>

theorem Base64Decode_is_reference:
  assumes "length x < 2 ^ 31"
  shows "Base64Decode x = Some (unb64 x)"
  by (rule Base64Decode_eq [OF assms])

theorem Base64Decode_is_reference_witness: "Base64Decode [84, 87, 69, 33] = Some None"
  using Base64Decode_is_reference [of "[84, 87, 69, 33]"]
  by (simp add: unb64_def strip_def CHARPAD_def valid_def sextet_def)

text \<open>An input of 2^31 + 2 bytes or more (and less than 2^32) is not refused: the size does not fit the
  \<open>int\<close>, and \<open>Base64Encode\<close> returns true with four characters, the encoding of the first two bytes.\<close>

lemma Base64Encode_truncates:
  assumes "2 ^ 31 + 2 \<le> length x" "length x < 2 ^ 32"
  shows "\<exists>t. Base64Encode x = Some (Some t) \<and> length t = 4"
proof -
  let ?n = "to_int (length x)" and ?temp = "replicate (modp_b64_encode_len (length x)) (0 :: byte)"
  have "0 < length x" "0 + 1 < length x" using assms(1) by linarith+
  then obtain t u where tu: "rd x 0 = Some t" "rd x (0 + 1) = Some u" using rd_in by blast
  let ?cs = "[alphabet ! (unat t div 4), alphabet ! (unat t mod 4 * 16 + unat u div 16), alphabet ! (unat u mod 16 * 4), CHARPAD]"
  have "?n = int (length x) - 2 ^ 32" by (rule to_int_wraps) (use assms in simp_all)
  moreover have "int (length x) < int (2 ^ 32)" using assms(2) by (simp only: of_nat_less_iff)
  ultimately have n: "?n < 0" by simp
  then have "nat (?n div 3) = 0" by (simp add: neg_imp_zdiv_neg_iff)
  then have "modp_b64_encode ?temp x ?n = encode_rest x 0 ?n (?temp, 0)"
    unfolding modp_b64_encode_def by simp
  also have "encode_rest x 0 ?n (?temp, 0) = do {
      (dest, p) \<leftarrow> for_in ?cs emit (?temp, 0); dest \<leftarrow> wr dest p 0; Some (to_int p, dest) }"
    using n by (intro encode_rest_2 [OF tu]) simp_all
  also have "\<dots> = Some (4, ?cs @ 0 # drop 5 ?temp)"
    using finish_emit [of "[]" ?cs ?temp] assms(1) by (simp add: modp_b64_encode_len_def to_int_eq del: for_in.simps)
  finally show ?thesis by (simp add: Base64Encode_def string_resize_def)
qed

section \<open>The big-endian decoder\<close>

text \<open>The decoder for big-endian machines accepts text that is not base64: with two characters and
  padding, or three and padding, it multiplies table entries, and \<open>BADCHAR\<close> times 64 wraps below
  \<open>BADCHAR\<close>. It returns two bytes for \<open>!A!=\<close>, which the reference (and the little-endian decoder)
  refuses.\<close>

lemma decode_be_accepts_invalid:
  "map_option fst (modp_b64_decode_be [0, 0, 0, 0, 0] [33, 65, 33, 61] 4) = Some 2 \<and>
   unb64 [33, 65, 33, 61] = None"
proof -
  have b: "unat (33 :: byte) = 33" "unat (65 :: byte) = 65" by simp_all
  have r: "rd be_d3 33 = Some BADCHAR" "rd be_d3 65 = Some 0"
    unfolding be_d3_eq by (simp_all add: rd_def len_simps decode_table_nth sextet_def)
  show ?thesis
    by (simp add: modp_b64_decode_be_def strip_padding_def CHARPAD_def exec_simps load_be_def decode_last_be_def
        r BADCHAR_def unb64_def strip_def valid_def sextet_def)
qed

end
