(* ===== verification/Rs_Program.thy ===== *)
theory Rs_Program imports Prelude begin

text \<open>
  \<open>rs.c\<close>: Simon Rockliff's stand-alone program for a Reed-Solomon code with 15 symbols of four bits,
  of which 9 are data, which corrects 3 errors. The global arrays become arguments and results. A C
  \<open>int\<close> is an \<open>int\<close> (all values are small); every array access is checked, so that an access
  outside its array is \<open>None\<close>.

  Local arrays that the code does not initialise hold the contents of a parameter: \<open>junk k i\<close> is
  element \<open>i\<close> of the \<open>k\<close>-th one. The two-dimensional \<open>elp\<close> is a list of rows.
\<close>

section \<open>Tables\<close>

text \<open>The remainder of C, which has the sign of the dividend.\<close>

definition crem :: "int \<Rightarrow> int \<Rightarrow> int" where
  "crem x n = (if x < 0 then - ((- x) mod n) else x mod n)"

definition pp :: "int list" where "pp = [1, 1, 0, 0, 1]"

text \<open>\<open>alpha_to\<close> and \<open>index_of\<close>, which are zero before.\<close>

definition generate_gf :: "int list \<Rightarrow> int list \<Rightarrow> (int list \<times> int list) option" where
  "generate_gf alpha_to index_of = do {
     let mask = 1;
     alpha_to \<leftarrow> wr alpha_to 4 0;
     (alpha_to, index_of, mask) \<leftarrow> for_in [0..<4] (\<lambda>i (alpha_to, index_of, mask). do {
       alpha_to \<leftarrow> wr alpha_to i mask;
       a \<leftarrow> rd alpha_to i;
       index_of \<leftarrow> wrz index_of a (int i);
       p \<leftarrow> rd pp i;
       alpha_to \<leftarrow> (if p \<noteq> 0 then do { am \<leftarrow> rd alpha_to 4; wr alpha_to 4 (am XOR mask) } else Some alpha_to);
       Some (alpha_to, index_of, push_bit 1 mask) }) (alpha_to, index_of, mask);
     am \<leftarrow> rd alpha_to 4;
     index_of \<leftarrow> wrz index_of am 4;
     let mask = drop_bit 1 mask;
     (alpha_to, index_of) \<leftarrow> for_in [5..<15] (\<lambda>i (alpha_to, index_of). do {
       ap \<leftarrow> rd alpha_to (i - 1);
       alpha_to \<leftarrow>
         (if ap \<ge> mask then wr alpha_to i (am XOR push_bit 1 (ap XOR mask))
          else wr alpha_to i (push_bit 1 ap));
       a \<leftarrow> rd alpha_to i;
       index_of \<leftarrow> wrz index_of a (int i);
       Some (alpha_to, index_of) }) (alpha_to, index_of);
     index_of \<leftarrow> wr index_of 0 (- 1);
     Some (alpha_to, index_of) }"

definition gen_poly :: "int list \<Rightarrow> int list \<Rightarrow> int list \<Rightarrow> int list option" where
  "gen_poly alpha_to index_of gg = do {
     gg \<leftarrow> wr gg 0 2;
     gg \<leftarrow> wr gg 1 1;
     gg \<leftarrow> for_in [2..<7] (\<lambda>i gg. do {
       gg \<leftarrow> wr gg i 1;
       gg \<leftarrow> for_in (rev [1..<i]) (\<lambda>j gg. do {
         g \<leftarrow> rd gg j; g' \<leftarrow> rd gg (j - 1);
         if g \<noteq> 0 then do {
           k \<leftarrow> rdz index_of g;
           a \<leftarrow> rdz alpha_to (crem (k + int i) 15);
           wr gg j (g' XOR a) }
         else wr gg j g' }) gg;
       g0 \<leftarrow> rd gg 0;
       k \<leftarrow> rdz index_of g0;
       a \<leftarrow> rdz alpha_to (crem (k + int i) 15);
       wr gg 0 a }) gg;
     for_in [0..<7] (\<lambda>i gg. do { g \<leftarrow> rd gg i; k \<leftarrow> rdz index_of g; wr gg i k }) gg }"

section \<open>Encoding\<close>

definition shift_register :: "int list \<Rightarrow> int list \<Rightarrow> int list \<Rightarrow> int list \<Rightarrow> int \<Rightarrow> int list option" where
  "shift_register alpha_to index_of gg bb d = do {
     b5 \<leftarrow> rd bb 5;
     feedback \<leftarrow> rdz index_of (d XOR b5);
     if feedback \<noteq> - 1 then do {
       bb \<leftarrow> for_in (rev [1..<6]) (\<lambda>j bb. do {
         g \<leftarrow> rd gg j;
         b \<leftarrow> rd bb (j - 1);
         if g \<noteq> - 1 then do { a \<leftarrow> rdz alpha_to (crem (g + feedback) 15); wr bb j (b XOR a) }
         else wr bb j b }) bb;
       g \<leftarrow> rd gg 0;
       a \<leftarrow> rdz alpha_to (crem (g + feedback) 15);
       wr bb 0 a }
     else do {
       bb \<leftarrow> for_in (rev [1..<6]) (\<lambda>j bb. do { b \<leftarrow> rd bb (j - 1); wr bb j b }) bb;
       wr bb 0 0 } }"

definition encode_rs :: "int list \<Rightarrow> int list \<Rightarrow> int list \<Rightarrow> int list \<Rightarrow> int list \<Rightarrow> int list option" where
  "encode_rs alpha_to index_of gg data bb = do {
     bb \<leftarrow> for_in [0..<6] (\<lambda>i bb. wr bb i 0) bb;
     for_in (rev [0..<9]) (\<lambda>i bb. do { d \<leftarrow> rd data i; shift_register alpha_to index_of gg bb d }) bb }"

section \<open>Decoding\<close>

definition rd2 :: "int list list \<Rightarrow> nat \<Rightarrow> int \<Rightarrow> int option" where
  "rd2 e u i = do { r \<leftarrow> rd e u; rdz r i }"

definition wr2 :: "int list list \<Rightarrow> nat \<Rightarrow> int \<Rightarrow> int \<Rightarrow> int list list option" where
  "wr2 e u i v = do { r \<leftarrow> rd e u; r \<leftarrow> wrz r i v; wr e u r }"

text \<open>The syndromes, in index form; \<open>s[0]\<close> is not set.\<close>

definition syndromes :: "int list \<Rightarrow> int list \<Rightarrow> int list \<Rightarrow> int list \<Rightarrow> (int \<times> int list) option" where
  "syndromes alpha_to index_of recd s =
     for_in [1..<7] (\<lambda>i (syn_error, s). do {
       v \<leftarrow> for_in [0..<15] (\<lambda>j v. do {
         r \<leftarrow> rd recd j;
         if r \<noteq> - 1 then do { a \<leftarrow> rdz alpha_to (crem (r + int i * int j) 15); Some (v XOR a) } else Some v }) 0;
       let syn_error = (if v \<noteq> 0 then 1 else syn_error);
       k \<leftarrow> rdz index_of v;
       s \<leftarrow> wr s i k;
       Some (syn_error, s) }) (0, s)"

record berlekamp =
  elp :: "int list list"
  discr :: "int list"
  deg :: "int list"
  u_lu :: "int list"

definition init_tables :: "int list \<Rightarrow> berlekamp \<Rightarrow> berlekamp option" where
  "init_tables s b = do {
     d \<leftarrow> wr (discr b) 0 0;
     s1 \<leftarrow> rd s 1;
     d \<leftarrow> wr d 1 s1;
     e \<leftarrow> wr2 (elp b) 0 0 0;
     e \<leftarrow> wr2 e 1 0 1;
     e \<leftarrow> for_in [1..<6] (\<lambda>i e. do { e \<leftarrow> wr2 e 0 (int i) (- 1); wr2 e 1 (int i) 0 }) e;
     l \<leftarrow> wr (deg b) 0 0; l \<leftarrow> wr l 1 0;
     ul \<leftarrow> wr (u_lu b) 0 (- 1); ul \<leftarrow> wr ul 1 0;
     Some \<lparr>elp = e, discr = d, deg = l, u_lu = ul\<rparr> }"

text \<open>The search for \<open>q\<close>: down to the first non-zero discrepancy, then for the greatest \<open>u_lu\<close>.\<close>

fun last_nonzero :: "int list \<Rightarrow> nat \<Rightarrow> nat option" where
  "last_nonzero d q = do {
     dq \<leftarrow> rd d q;
     if dq = - 1 \<and> q > 0 then last_nonzero d (q - 1) else Some q }"

definition find_q :: "int list \<Rightarrow> int list \<Rightarrow> nat \<Rightarrow> nat option" where
  "find_q d ul u = do {
     q \<leftarrow> last_nonzero d (u - 1);
     if q > 0 then
       for_in (rev [0..<q]) (\<lambda>j q. do {
         dj \<leftarrow> rd d j;
         if dj \<noteq> - 1 then do { a \<leftarrow> rd ul q; b \<leftarrow> rd ul j; Some (if a < b then j else q) }
         else Some q }) q
     else Some q }"

text \<open>The new polynomial and its degree.\<close>

definition same_elp :: "int list \<Rightarrow> nat \<Rightarrow> berlekamp \<Rightarrow> berlekamp option" where
  "same_elp index_of u b = do {
     lu \<leftarrow> rd (deg b) u;
     l \<leftarrow> wr (deg b) (u + 1) lu;
     e \<leftarrow> for_in [0..<nat (lu + 1)] (\<lambda>i e. do {
       x \<leftarrow> rd2 e u (int i);
       e \<leftarrow> wr2 e (u + 1) (int i) x;
       k \<leftarrow> rdz index_of x;
       wr2 e u (int i) k }) (elp b);
     Some (b\<lparr>elp := e, deg := l\<rparr>) }"

definition new_elp :: "int list \<Rightarrow> int list \<Rightarrow> nat \<Rightarrow> berlekamp \<Rightarrow> berlekamp option" where
  "new_elp alpha_to index_of u b = do {
     q \<leftarrow> find_q (discr b) (u_lu b) u;
     lu \<leftarrow> rd (deg b) u;
     lq \<leftarrow> rd (deg b) q;
     l \<leftarrow> wr (deg b) (u + 1) (if lu > lq + int u - int q then lu else lq + int u - int q);
     e \<leftarrow> for_in [0..<6] (\<lambda>i e. wr2 e (u + 1) (int i) 0) (elp b);
     e \<leftarrow> for_in [0..<nat (lq + 1)] (\<lambda>i e. do {
       x \<leftarrow> rd2 e q (int i);
       if x \<noteq> - 1 then do {
         du \<leftarrow> rd (discr b) u; dq \<leftarrow> rd (discr b) q;
         a \<leftarrow> rdz alpha_to (crem (du + 15 - dq + x) 15);
         wr2 e (u + 1) (int i + int u - int q) a }
       else Some e }) e;
     e \<leftarrow> for_in [0..<nat (lu + 1)] (\<lambda>i e. do {
       y \<leftarrow> rd2 e (u + 1) (int i); x \<leftarrow> rd2 e u (int i);
       e \<leftarrow> wr2 e (u + 1) (int i) (y XOR x);
       k \<leftarrow> rdz index_of x;
       wr2 e u (int i) k }) e;
     Some (b\<lparr>elp := e, deg := l\<rparr>) }"

definition next_discrepancy :: "int list \<Rightarrow> int list \<Rightarrow> int list \<Rightarrow> nat \<Rightarrow> berlekamp \<Rightarrow> berlekamp option" where
  "next_discrepancy alpha_to index_of s u b = do {
     su \<leftarrow> rd s (u + 1);
     v \<leftarrow> (if su \<noteq> - 1 then rdz alpha_to su else Some 0);
     d \<leftarrow> wr (discr b) (u + 1) v;
     l \<leftarrow> rd (deg b) (u + 1);
     d \<leftarrow> for_in [1..<nat (l + 1)] (\<lambda>i d. do {
       si \<leftarrow> rdz s (int u + 1 - int i);
       if si \<noteq> - 1 then do {
         x \<leftarrow> rd2 (elp b) (u + 1) (int i);
         if x \<noteq> 0 then do {
           k \<leftarrow> rdz index_of x;
           a \<leftarrow> rdz alpha_to (crem (si + k) 15);
           v \<leftarrow> rd d (u + 1);
           wr d (u + 1) (v XOR a) }
         else Some d }
       else Some d }) d;
     v \<leftarrow> rd d (u + 1);
     k \<leftarrow> rdz index_of v;
     d \<leftarrow> wr d (u + 1) k;
     Some (b\<lparr>discr := d\<rparr>) }"

text \<open>One round of the \<open>do\<close> loop, and the loop; the flag says that it goes on, the number is \<open>u\<close>.\<close>

definition elp_round :: "int list \<Rightarrow> int list \<Rightarrow> int list \<Rightarrow> nat \<Rightarrow> berlekamp \<Rightarrow> berlekamp option" where
  "elp_round alpha_to index_of s u b = do {
     du \<leftarrow> rd (discr b) u;
     b \<leftarrow> (if du = - 1 then same_elp index_of u b else new_elp alpha_to index_of u b);
     l \<leftarrow> rd (deg b) (u + 1);
     ul \<leftarrow> wr (u_lu b) (u + 1) (int u - l);
     let b = b\<lparr>u_lu := ul\<rparr>;
     if u < 6 then next_discrepancy alpha_to index_of s u b else Some b }"

definition find_elp :: "int list \<Rightarrow> int list \<Rightarrow> int list \<Rightarrow> berlekamp \<Rightarrow> (bool \<times> nat \<times> berlekamp) option" where
  "find_elp alpha_to index_of s b =
     for_in [1..<7] (\<lambda>u (more, u', b).
       if more then do {
         b \<leftarrow> elp_round alpha_to index_of s u b;
         l \<leftarrow> rd (deg b) (u + 1);
         Some (u < 6 \<and> l \<le> 3, u, b) }
       else Some (more, u', b)) (True, 0, b)"

text \<open>The roots and locations of errors.\<close>

definition find_roots15 :: "int list \<Rightarrow> int \<Rightarrow> int list \<Rightarrow> int list \<Rightarrow> int list \<Rightarrow> (int list \<times> int list \<times> nat) option" where
  "find_roots15 alpha_to l reg rts loc = do {
     (reg, rts, loc, count) \<leftarrow> for_in [1..<16] (\<lambda>i (reg, rts, loc, count). do {
       (reg, q) \<leftarrow> for_in [1..<nat (l + 1)] (\<lambda>j (reg, q). do {
         r \<leftarrow> rd reg j;
         if r \<noteq> - 1 then do {
           reg \<leftarrow> wr reg j (crem (r + int j) 15);
           r \<leftarrow> rd reg j;
           a \<leftarrow> rdz alpha_to r;
           Some (reg, q XOR a) }
         else Some (reg, q) }) (reg, 1);
       if q = 0 then do {
         rts \<leftarrow> wr rts count (int i);
         loc \<leftarrow> wr loc count (15 - int i);
         Some (reg, rts, loc, count + 1) }
       else Some (reg, rts, loc, count) }) (reg, rts, loc, 0);
     Some (rts, loc, count) }"

definition form_z :: "int list \<Rightarrow> int list \<Rightarrow> int list \<Rightarrow> int list \<Rightarrow> int \<Rightarrow> int list \<Rightarrow> int list option" where
  "form_z alpha_to index_of s e l z =
     for_in [1..<nat (l + 1)] (\<lambda>i z. do {
       si \<leftarrow> rd s i; ei \<leftarrow> rd e i;
       a \<leftarrow> (if si \<noteq> - 1 then rdz alpha_to si else Some 0);
       b \<leftarrow> (if ei \<noteq> - 1 then rdz alpha_to ei else Some 0);
       z \<leftarrow> wr z i (if si \<noteq> - 1 \<and> ei \<noteq> - 1 then a XOR b else if si \<noteq> - 1 then a else if ei \<noteq> - 1 then b else 0);
       z \<leftarrow> for_in [1..<i] (\<lambda>j z. do {
         sj \<leftarrow> rd s j; ej \<leftarrow> rd e (i - j);
         if sj \<noteq> - 1 \<and> ej \<noteq> - 1 then do {
           a \<leftarrow> rdz alpha_to (crem (ej + sj) 15); v \<leftarrow> rd z i; wr z i (v XOR a) }
         else Some z }) z;
       v \<leftarrow> rd z i;
       k \<leftarrow> rdz index_of v;
       wr z i k }) z"

definition to_poly :: "int list \<Rightarrow> int list \<Rightarrow> int list option" where
  "to_poly alpha_to recd =
     for_in [0..<15] (\<lambda>i recd. do {
       r \<leftarrow> rd recd i;
       if r \<noteq> - 1 then do { a \<leftarrow> rdz alpha_to r; wr recd i a } else wr recd i 0 }) recd"

text \<open>The correction of the error at \<open>loc[i]\<close>.\<close>

definition correct_at :: "int list \<Rightarrow> int list \<Rightarrow> int list \<Rightarrow> int \<Rightarrow> int list \<Rightarrow> int list \<Rightarrow> nat \<Rightarrow> int list \<times> int list \<Rightarrow> (int list \<times> int list) option" where
  "correct_at alpha_to index_of z l rts loc i s = (case s of (err, recd) \<Rightarrow> do {
     p \<leftarrow> rd loc i;
     ri \<leftarrow> rd rts i;
     err \<leftarrow> wrz err p 1;
     err \<leftarrow> for_in [1..<nat (l + 1)] (\<lambda>j err. do {
       zj \<leftarrow> rd z j;
       if zj \<noteq> - 1 then do { a \<leftarrow> rdz alpha_to (crem (zj + int j * ri) 15); v \<leftarrow> rdz err p; wrz err p (v XOR a) }
       else Some err }) err;
     v \<leftarrow> rdz err p;
     if v \<noteq> 0 then do {
       k \<leftarrow> rdz index_of v;
       err \<leftarrow> wrz err p k;
       q \<leftarrow> for_in [0..<nat l] (\<lambda>j q.
         if j \<noteq> i then do {
           lj \<leftarrow> rd loc j;
           a \<leftarrow> rdz alpha_to (crem (lj + ri) 15);
           k \<leftarrow> rdz index_of (1 XOR a);
           Some (q + k) }
         else Some q) 0;
       let q = crem q 15;
       v \<leftarrow> rdz err p;
       a \<leftarrow> rdz alpha_to (crem (v - q + 15) 15);
       err \<leftarrow> wrz err p a;
       r \<leftarrow> rdz recd p;
       recd \<leftarrow> wrz recd p (r XOR a);
       Some (err, recd) }
     else Some (err, recd) })"

definition correct15 :: "(nat \<Rightarrow> nat \<Rightarrow> int) \<Rightarrow> int list \<Rightarrow> int list \<Rightarrow> int list \<Rightarrow> int list \<Rightarrow> int list \<Rightarrow> int \<Rightarrow> int list option" where
  "correct15 junk alpha_to index_of s recd e l = do {
     e \<leftarrow> for_in [0..<nat (l + 1)] (\<lambda>i e. do { x \<leftarrow> rd e i; k \<leftarrow> rdz index_of x; wr e i k }) e;
     reg \<leftarrow> for_in [1..<nat (l + 1)] (\<lambda>i reg. do { x \<leftarrow> rd e i; wr reg i x }) (map (junk 0) [0..<4]);
     (rts, loc, count) \<leftarrow> find_roots15 alpha_to l reg (map (junk 1) [0..<3]) (map (junk 2) [0..<3]);
     if int count = l then do {
       z \<leftarrow> form_z alpha_to index_of s e l (map (junk 3) [0..<4]);
       err \<leftarrow> for_in [0..<15] (\<lambda>i err. wr err i 0) (map (junk 4) [0..<15]);
       recd \<leftarrow> to_poly alpha_to recd;
       (err, recd) \<leftarrow> for_in [0..<nat l] (correct_at alpha_to index_of z l rts loc) (err, recd);
       Some recd }
     else to_poly alpha_to recd }"

definition decode_rs :: "(nat \<Rightarrow> nat \<Rightarrow> int) \<Rightarrow> int list \<Rightarrow> int list \<Rightarrow> int list \<Rightarrow> int list option" where
  "decode_rs junk alpha_to index_of recd = do {
     (syn_error, s) \<leftarrow> syndromes alpha_to index_of recd (map (junk 5) [0..<7]);
     if syn_error \<noteq> 0 then do {
       b \<leftarrow> init_tables s \<lparr>elp = map (\<lambda>u. map (junk (10 + u)) [0..<6]) [0..<8], discr = map (junk 6) [0..<8],
         deg = map (junk 7) [0..<8], u_lu = map (junk 8) [0..<8]\<rparr>;
       (_, u, b) \<leftarrow> find_elp alpha_to index_of s b;
       l \<leftarrow> rd (deg b) (u + 1);
       if l \<le> 3 then do { e \<leftarrow> rd (elp b) (u + 1); correct15 junk alpha_to index_of s recd e l }
       else to_poly alpha_to recd }
     else to_poly alpha_to recd }"

section \<open>The program\<close>

text \<open>\<open>main\<close> returns the rows that it prints: the tables, then \<open>bb\<close> or \<open>data\<close> beside \<open>recd\<close>.\<close>

definition rs_main :: "(nat \<Rightarrow> nat \<Rightarrow> int) \<Rightarrow> ((int \<times> int) list \<times> (int \<times> int) list) option" where
  "rs_main junk = do {
     (alpha_to, index_of) \<leftarrow> generate_gf (replicate 16 0) (replicate 16 0);
     gg \<leftarrow> gen_poly alpha_to index_of (replicate 7 0);
     let data = [8, 6, 8, 1, 2, 4, 15, 9, 9];
     bb \<leftarrow> encode_rs alpha_to index_of gg data (replicate 6 0);
     recd \<leftarrow> for_in [0..<6] (\<lambda>i recd. do { b \<leftarrow> rd bb i; wr recd i b }) (replicate 15 0);
     recd \<leftarrow> for_in [0..<9] (\<lambda>i recd. do { d \<leftarrow> rd data i; wr recd (i + 6) d }) recd;
     data \<leftarrow> wr data (15 - 15 div 2) 3;
     recd \<leftarrow> for_in [0..<15] (\<lambda>i recd. do { r \<leftarrow> rd recd i; k \<leftarrow> rdz index_of r; wr recd i k }) recd;
     recd \<leftarrow> decode_rs junk alpha_to index_of recd;
     Some (zip alpha_to index_of, zip (bb @ data) recd) }"

end
