(* ===== verification/Rs_Program_Correct.thy ===== *)
theory Rs_Program_Correct imports Rs_Program Rs_Correct begin

text \<open>
  The program \<open>rs.c\<close> and the library of \<open>reed_solomon/\<close> use the same code: with a structure that
  \<open>rs_init\<close> builds for 4 bits, the polynomial x^4 + x + 1 and the six roots from alpha^1 on, the
  library computes the same check symbols. The properties of the program follow from those of the
  library by this equivalence.
\<close>

section \<open>The tables\<close>

definition AT :: "int list" where
  "AT = [1, 2, 4, 8, 3, 6, 12, 11, 5, 10, 7, 14, 15, 13, 9, 0]"

definition IO :: "int list" where
  "IO = [- 1, 0, 1, 4, 2, 8, 5, 10, 3, 14, 9, 7, 6, 13, 11, 12]"

definition GG :: "int list" where
  "GG = [6, 9, 6, 4, 14, 10, 0]"

lemma generate_gf_eq: "generate_gf (replicate 16 0) (replicate 16 0) = Some (AT, IO)"
  unfolding AT_def IO_def by code_simp

lemma gen_poly_eq: "gen_poly AT IO (replicate 7 0) = Some GG"
  unfolding AT_def IO_def GG_def by code_simp

lemma length_tables15 [simp]: "length AT = 16" "length IO = 16" "length GG = 7"
  by (simp_all add: AT_def IO_def GG_def)

text \<open>Multiplication by a power of alpha.\<close>

definition amul :: "nat \<Rightarrow> int \<Rightarrow> int" where
  "amul k x = (if x = 0 then 0 else AT ! ((nat (IO ! nat x) + k) mod 15))"

definition sym4 :: "int \<Rightarrow> bool" where
  "sym4 x = (0 \<le> x \<and> x < 16)"

lemma sym4_cases: "sym4 x \<Longrightarrow> x \<in> set [0..15]"
  by (simp add: sym4_def)

lemma AT_xtime: "list_all (\<lambda>i. xtime 4 0x13 (AT ! i) = (if i = 14 then 1 else AT ! Suc i)) [0..<15]"
  by code_simp

lemma xpow_AT: "i < 15 \<Longrightarrow> xpow 4 0x13 i = AT ! i"
proof (induction i)
  case (Suc i)
  then show ?case using AT_xtime by (simp add: xpow_Suc list_all_iff del: upt_rec_numeral)
qed (simp add: AT_def)

lemma IO_AT: "sym4 x \<Longrightarrow> x \<noteq> 0 \<Longrightarrow> 0 \<le> IO ! nat x \<and> IO ! nat x < 15 \<and> AT ! nat (IO ! nat x) = x"
proof -
  have "list_all (\<lambda>x. x = 0 \<or> (0 \<le> IO ! nat x \<and> IO ! nat x < 15 \<and> AT ! nat (IO ! nat x) = x)) [0..15]"
    by code_simp
  then show "sym4 x \<Longrightarrow> x \<noteq> 0 \<Longrightarrow> 0 \<le> IO ! nat x \<and> IO ! nat x < 15 \<and> AT ! nat (IO ! nat x) = x"
    using sym4_cases [of x] by (auto simp: list_all_iff)
qed

lemma AT_range: "i < 15 \<Longrightarrow> 0 < AT ! i \<and> AT ! i < 16"
proof -
  have "list_all (\<lambda>i. 0 < AT ! i \<and> AT ! i < 16) [0..<15]" by code_simp
  then show "i < 15 \<Longrightarrow> 0 < AT ! i \<and> AT ! i < 16" by (simp add: list_all_iff)
qed

lemma amul_sym: "sym4 (amul k x)"
  using AT_range [of "(nat (IO ! nat x) + k) mod 15"] by (auto simp: amul_def sym4_def intro: less_imp_le)

text \<open>A structure of the library for this code.\<close>

definition like_rs15 :: "rs_control \<Rightarrow> bool" where
  "like_rs15 rs \<longleftrightarrow> rs_ok rs 0x13 \<and> mm rs = 4 \<and> nroots rs = 6 \<and> fcr rs = 1 \<and> prim rs = 1"

lemma primitive_0x13: "primitive 4 0x13"
proof -
  have "xpow 4 0x13 (Suc 14) = 1"
    unfolding xpow_Suc using AT_xtime xpow_AT [of 14] by (simp add: list_all_iff del: upt_rec_numeral)
  moreover have "map (xpow 4 0x13) [0..<15] = take 15 AT" using xpow_AT by (intro nth_equalityI) simp_all
  moreover have "distinct (take 15 AT)" by (simp add: AT_def)
  ultimately show ?thesis by (simp add: primitive_def)
qed

lemma like_rs15_nn: "like_rs15 rs \<Longrightarrow> nn rs = 15"
proof -
  assume "like_rs15 rs"
  then have "sizes_ok rs" "mm rs = 4" using rs_okD(2) [of rs] by (auto simp: like_rs15_def)
  then show ?thesis by (simp add: sizes_ok_def)
qed

lemma fld_sym: "like_rs15 rs \<Longrightarrow> fld_of rs x \<longleftrightarrow> sym4 (uint x)"
  by (auto simp: fld_of_def like_rs15_nn sym4_def)

lemma uint_gmul:
  assumes rs: "like_rs15 rs" and x: "fld_of rs x"
  shows "uint (gmul rs k x) = amul k (uint x)"
proof (cases "x = 0")
  case False
  let ?i = "nat (IO ! nat (uint x))"
  have "uint x \<noteq> 0" using False by (simp add: uint_0_iff)
  then have i: "?i < 15" "AT ! ?i = uint x" using IO_AT [of "uint x"] x fld_sym [OF rs] by auto
  have t: "tables_ok rs 0x13" "mm rs = 4" "nat (nn rs) = 15"
    using rs rs_okD(1) like_rs15_nn [OF rs] by (auto simp: like_rs15_def)
  have a: "uint (alpha_to rs ! j) = AT ! j" "unat (index_of rs ! nat (AT ! j)) = j" if "j < 15" for j
    using t that xpow_AT [OF that] by (auto simp: tables_ok_def)
  have "glog rs x = ?i" using a(2) [OF i(1)] i(2) by (simp add: glog_def)
  then show ?thesis using False \<open>uint x \<noteq> 0\<close> a(1) t(3) by (simp add: gmul_def amul_def)
qed (simp add: gmul_def amul_def)

section \<open>The encoders agree\<close>

text \<open>The generator polynomial of the library, in polynomial form.\<close>

definition GP :: "int list" where
  "GP = [12, 10, 12, 3, 9, 7, 1]"

lemma uint_times_root:
  "map uint (times_root b g) = map2 (\<lambda>x y. x XOR y) (0 # map uint g) (map uint (map b g) @ [0])"
  by (intro nth_equalityI) (auto simp: nth_times_root nth_append nth_Cons' uint_xor)

primrec igen :: "nat \<Rightarrow> int list" where
  "igen 0 = [1]"
| "igen (Suc i) = map2 (\<lambda>x y. x XOR y) (0 # igen i) (map (amul (Suc i)) (igen i) @ [0])"

lemma igen_6: "igen 6 = GP"
  unfolding GP_def by code_simp

lemma uint_gen:
  assumes rs: "like_rs15 rs"
  shows "map uint (gen rs i) = igen i"
proof (induction i)
  case (Suc i)
  have "list_all (fld_of rs) (gen rs i)"
    using gen_shape [of rs "0x13" i] rs rs_okD(1) by (auto simp: like_rs15_def)
  then have m: "map uint (map (gmul rs (Suc i)) (gen rs i)) = map (amul (Suc i)) (map uint (gen rs i))"
    by (simp add: list_all_iff uint_gmul [OF rs])
  have r: "root_exp rs i = Suc i" using rs by (simp add: root_exp_def like_rs15_def)
  show ?case unfolding gen.simps r uint_times_root m Suc.IH by simp
qed simp

text \<open>One round of the shift register.\<close>

definition next_bb :: "int list \<Rightarrow> int \<Rightarrow> int list" where
  "next_bb bb d = (let f = d XOR bb ! 5 in
     [amul 6 f, bb ! 0 XOR amul 9 f, bb ! 1 XOR amul 6 f, bb ! 2 XOR amul 4 f, bb ! 3 XOR amul 14 f, bb ! 4 XOR amul 10 f])"

lemma IO_rd: "sym4 x \<Longrightarrow> rdz IO x = Some (IO ! nat x) \<and> (IO ! nat x = - 1 \<longleftrightarrow> x = 0)"
  using IO_AT [of x] by (cases "x = 0") (auto simp: rdz_def rd_def sym4_def, simp_all add: IO_def)

lemma AT_rd: "0 \<le> k \<Longrightarrow> rdz AT (crem k 15) = Some (AT ! (nat k mod 15))"
  by (simp add: rdz_def rd_def crem_def nat_mod_distrib)

lemma amul_rd:
  assumes "sym4 x" "x \<noteq> 0" "0 \<le> k"
  shows "rdz AT (crem (k + IO ! nat x) 15) = Some (amul (nat k) x)" "rdz AT (crem (IO ! nat x + k) 15) = Some (amul (nat k) x)"
proof -
  have "0 \<le> IO ! nat x" using IO_AT [OF assms(1,2)] by blast
  then show "rdz AT (crem (k + IO ! nat x) 15) = Some (amul (nat k) x)" "rdz AT (crem (IO ! nat x + k) 15) = Some (amul (nat k) x)"
    using assms by (simp_all add: AT_rd amul_def nat_add_distrib add.commute)
qed

lemma six: "length bb = 6 \<Longrightarrow> \<exists>a b c d e f. bb = [a, b, c, d, e, f]"
  by (auto simp: length_Suc_conv eval_nat_numeral)

lemma xor_sym: "sym4 x \<Longrightarrow> sym4 y \<Longrightarrow> sym4 (x XOR y)"
proof -
  assume "sym4 x" "sym4 y"
  then have "take_bit 4 x = x" "take_bit 4 y = y" by (simp_all add: sym4_def take_bit_int_eq_self)
  then have "take_bit 4 (x XOR y) = x XOR y" by (metis take_bit_xor)
  then have "x XOR y = (x XOR y) mod 2 ^ 4" by (simp only: take_bit_eq_mod)
  then show "sym4 (x XOR y)" unfolding sym4_def
    using pos_mod_bound [of "2 ^ 4 :: int" "x XOR y"] pos_mod_sign [of "2 ^ 4 :: int" "x XOR y"] by simp
qed

lemma shift_register_eq:
  assumes bb: "length bb = 6" "list_all sym4 bb" and d: "sym4 d"
  shows "shift_register AT IO GG bb d = Some (next_bb bb d)"
proof -
  obtain b0 b1 b2 b3 b4 b5 where b: "bb = [b0, b1, b2, b3, b4, b5]" using six [OF bb(1)] by blast
  define f where "f = d XOR b5"
  have f: "sym4 f" using bb(2) d by (simp add: f_def b xor_sym)
  have r: "rev [Suc 0..<6] = [5, 4, 3, 2, Suc 0]" by (simp add: upt_conv_Cons)
  have g: "rd GG 0 = Some 6" "rd GG (Suc 0) = Some 9" "rd GG 2 = Some 6" "rd GG 3 = Some 4" "rd GG 4 = Some 14" "rd GG 5 = Some 10"
    by (simp_all add: GG_def rd_def)
  show ?thesis
  proof (cases "f = 0")
    case True
    then show ?thesis using IO_rd [OF f]
      by (simp add: shift_register_def b r exec_simps next_bb_def amul_def flip: f_def)
  next
    case False
    then have k: "rdz IO f = Some (IO ! nat f)" "IO ! nat f \<noteq> - 1" using IO_rd [OF f] by simp_all
    show ?thesis
      using k amul_rd(1) [OF f False]
      by (simp add: shift_register_def b r g exec_simps next_bb_def flip: f_def)
  qed
qed

text \<open>The register of the library is the register of the program, read backwards.\<close>

lemma uint_register:
  assumes rs: "like_rs15 rs" and par: "length par = 6" "list_all (fld_of rs) par" and d: "fld_of rs d"
  shows "rev (map uint (register rs d par)) = next_bb (rev (map uint par)) (uint d)"
proof -
  obtain p0 p1 p2 p3 p4 p5 where p: "par = [p0, p1, p2, p3, p4, p5]" using six [OF par(1)] by blast
  define f where "f = d XOR p0"
  have ok: "rs_ok rs 0x13" using rs by (simp add: like_rs15_def)
  have f: "fld_of rs f" using fld_xor [OF rs_okD(2) [OF ok]] par(2) d by (simp add: f_def p)
  have uf: "uint d XOR uint p0 = uint f" by (simp add: f_def uint_xor)
  have "map uint (gen rs 6) = [12, 10, 12, 3, 9, 7, 1]" using uint_gen [OF rs, of 6] by (simp only: igen_6 GP_def)
  then obtain g0 g1 g2 g3 g4 g5 g6 where g: "gen rs 6 = [g0, g1, g2, g3, g4, g5, g6]"
    and ug: "uint g0 = 12" "uint g1 = 10" "uint g2 = 12" "uint g3 = 3" "uint g4 = 9" "uint g5 = 7"
    by (auto simp: map_eq_Cons_conv)
  have G: "fld_of rs g" if "g \<in> {g0, g1, g2, g3, g4, g5}" for g
    using that gen_shape [OF rs_okD(1) [OF ok], of 6] g by auto
  have m: "uint (gmul rs (glog rs f) g) = amul (nat (IO ! nat (uint g))) (uint f)" if "g \<in> {g0, g1, g2, g3, g4, g5}" "f \<noteq> 0" for g
  proof -
    have "uint g \<noteq> 0" using that ug by auto
    moreover have uf0: "uint f \<noteq> 0" using that(2) by (simp add: uint_0_iff)
    moreover have "glog rs f = nat (IO ! nat (uint f))"
    proof -
      let ?i = "nat (IO ! nat (uint f))"
      have i: "?i < 15" "AT ! ?i = uint f" using IO_AT [of "uint f"] f fld_sym [OF rs] uf0 by auto
      have "unat (index_of rs ! nat (AT ! ?i)) = ?i"
        using rs rs_okD(1) [OF ok] like_rs15_nn [OF rs] xpow_AT [OF i(1)] i(1) by (auto simp: like_rs15_def tables_ok_def)
      then show ?thesis using i(2) by (simp add: glog_def)
    qed
    ultimately show ?thesis
      unfolding uint_gmul [OF rs G [OF that(1)]] amul_def by (simp add: add.commute)
  qed
  have un: "unat g = nat (uint g)" for g :: u16 by simp
  have ug': "unat g0 = 12" "unat g1 = 10" "unat g2 = 12" "unat g3 = 3" "unat g4 = 9" "unat g5 = 7"
    unfolding un ug by (simp_all only: nat_numeral)
  have IO6: "IO ! 12 = 6" "IO ! 10 = 9" "IO ! 3 = 4" "IO ! 9 = 14" "IO ! 7 = 10" by (simp_all add: IO_def)
  show ?thesis
  proof (cases "f = 0")
    case True
    then show ?thesis using rs uf
      by (simp add: register_def next_bb_def like_rs15_def g p amul_def add_poly_def flip: f_def)
  next
    case False
    then show ?thesis using rs uf m ug ug' IO6
      by (simp add: register_def next_bb_def Let_def like_rs15_def g p add_poly_def uint_xor flip: f_def)
  qed
qed

text \<open>Two loops in step.\<close>

lemma for_in_rel:
  assumes "R s t" and "\<And>i s t. i \<in> set is \<Longrightarrow> R s t \<Longrightarrow> \<exists>s' t'. f i s = Some s' \<and> g i t = Some t' \<and> R s' t'"
  shows "\<exists>s' t'. for_in is f s = Some s' \<and> for_in is g t = Some t' \<and> R s' t'"
  using assms
proof (induction "is" arbitrary: s t)
  case (Cons i "is")
  obtain s' t' where "f i s = Some s'" "g i t = Some t'" "R s' t'" using Cons.prems(2) [of i s t] Cons.prems(1) by auto
  then show ?case using Cons.IH [of s' t'] Cons.prems(2) by auto
qed auto

definition bytes_of_symbols :: "int list \<Rightarrow> byte list" where
  "bytes_of_symbols data = map word_of_int data"

lemma symbol_of: "like_rs15 rs \<Longrightarrow> sym4 d \<Longrightarrow> uint (symbol rs 0 (word_of_int d)) = d"
proof -
  assume rs: "like_rs15 rs" and d: "sym4 d"
  have t: "take_bit 4 d = d" "take_bit 8 d = d" "take_bit 16 d = d" using d by (simp_all add: sym4_def take_bit_int_eq_self)
  have "d AND 15 = take_bit 4 d" unfolding take_bit_eq_mask by (simp add: mask_eq_exp_minus_1)
  with t show ?thesis
    by (simp add: symbol_def like_rs15_nn [OF rs] uint_and uint_word_of_int_eq unsigned_ucast_eq)
qed

lemma encoders_agree:
  assumes rs: "like_rs15 rs" and data: "length data = 9" "list_all sym4 data" and bb: "length bb = 6"
  shows "\<exists>par. encode_rs8 rs (bytes_of_symbols (rev data)) 9 (replicate 6 0) 0 = Some (0, par) \<and>
    length par = 6 \<and> list_all (fld_of rs) par \<and> encode_rs AT IO GG data bb = Some (rev (map uint par))"
proof -
  have ok: "rs_ok rs 0x13" and nn: "nn rs = 15" "nroots rs = 6" using rs like_rs15_nn [OF rs] by (auto simp: like_rs15_def)
  have zero: "for_in [0..<6] (\<lambda>i bb. wr bb i 0) bb = Some (replicate 6 0)"
  proof -
    obtain a b c d e f where "bb = [a, b, c, d, e, f]" using six [OF bb] by blast
    then show ?thesis by (simp add: upt_conv_Cons exec_simps eval_nat_numeral)
  qed
  let ?R = "\<lambda>par bb. length par = 6 \<and> list_all (fld_of rs) par \<and> bb = rev (map uint par)"
  let ?f = "\<lambda>i par. do { d \<leftarrow> rd (bytes_of_symbols (rev data)) i; encode_step rs 0 d par }"
  let ?g = "\<lambda>i bb. do { d \<leftarrow> rd data (8 - i); shift_register AT IO GG bb d }"
  have "\<exists>par bb. for_in [0..<9] ?f (replicate 6 0) = Some par \<and> for_in [0..<9] ?g (replicate 6 0) = Some bb \<and> ?R par bb"
  proof (rule for_in_rel)
    show "?R (replicate 6 0) (replicate 6 0)" using log_field.zero_in [OF rs_ok_field [OF ok]] by (simp add: list_all_iff)
  next
    fix i par bb assume i: "i \<in> set [0..<9]" and R: "?R par bb"
    let ?d = "data ! (8 - i)"
    have d: "sym4 ?d" using data i by (simp add: list_all_length)
    have 1: "rd (bytes_of_symbols (rev data)) i = Some (word_of_int ?d)" "rd data (8 - i) = Some ?d"
      using data(1) i by (simp_all add: bytes_of_symbols_def rd_def rev_nth)
    let ?s = "symbol rs 0 (word_of_int ?d)"
    have s: "fld_of rs ?s" by (rule fld_symbol [OF rs_okD(2) [OF ok]])
    have st: "encode_step rs 0 (word_of_int ?d) par = Some (register rs ?s par)"
      using R nn by (intro encode_step_eq [OF ok]) simp_all
    have "shift_register AT IO GG bb ?d = Some (next_bb bb ?d)"
      using R fld_sym [OF rs] by (intro shift_register_eq d) (simp_all add: list_all_iff)
    also have "next_bb bb ?d = rev (map uint (register rs ?s par))"
      using uint_register [OF rs _ _ s, of par] R symbol_of [OF rs d] by simp
    finally have sg: "shift_register AT IO GG bb ?d = Some (rev (map uint (register rs ?s par)))" .
    have "length (register rs ?s par) = 6 \<and> list_all (fld_of rs) (register rs ?s par)"
      using register_in [OF ok, of par ?s] R s nn by simp
    then show "\<exists>s' t'. ?f i par = Some s' \<and> ?g i bb = Some t' \<and> ?R s' t'"
      using 1 st sg by auto
  qed
  then obtain par where p: "for_in [0..<9] ?f (replicate 6 0) = Some par" "for_in [0..<9] ?g (replicate 6 0) = Some (rev (map uint par))"
    "length par = 6" "list_all (fld_of rs) par" by blast
  have "rev [0..<9] = map (\<lambda>i. 8 - i) [0..<9 :: nat]" by (simp add: upt_conv_Cons)
  then have "encode_rs AT IO GG data bb = Some (rev (map uint par))"
    using zero p(2) by (simp add: encode_rs_def for_in_map del: upt_rec_numeral)
  moreover have "encode_rs8 rs (bytes_of_symbols (rev data)) 9 (replicate 6 0) 0 = Some (0, par)"
    using p(1) nn by (simp add: encode_rs8_def Let_def del: upt_rec_numeral)
  ultimately show ?thesis using p(3,4) by blast
qed

section \<open>Syndromes\<close>

primrec isum :: "(nat \<Rightarrow> int) \<Rightarrow> nat \<Rightarrow> int" where
  "isum f 0 = 0"
| "isum f (Suc n) = isum f n XOR f n"

lemma isum_cong: "(\<And>j. j < n \<Longrightarrow> f j = g j) \<Longrightarrow> isum f n = isum g n"
  by (induction n) simp_all

lemma isum_sym: "(\<And>j. j < n \<Longrightarrow> sym4 (f j)) \<Longrightarrow> sym4 (isum f n)"
  by (induction n) (simp_all add: xor_sym, simp add: sym4_def)

text \<open>The value of the word \<open>C\<close>, lowest coefficient first, at alpha^i.\<close>

definition syn :: "int list \<Rightarrow> nat \<Rightarrow> int" where
  "syn C i = isum (\<lambda>j. amul (i * j) (C ! j)) (length C)"

definition idx :: "int \<Rightarrow> int" where
  "idx x = IO ! nat x"

lemma syn_sym: "sym4 (syn C i)"
  unfolding syn_def by (rule isum_sym) (rule amul_sym)

lemma idx_0: "sym4 x \<Longrightarrow> idx x = - 1 \<longleftrightarrow> x = 0"
  using IO_rd [of x] by (simp add: idx_def)

lemma rd_map_idx: "j < length C \<Longrightarrow> rd (map idx C) j = Some (idx (C ! j))"
  by (simp add: rd_def)

lemma syndrome_loop:
  assumes C: "length C = 15" "list_all sym4 C"
  shows "for_in [0..<15] (\<lambda>j v. do {
    r \<leftarrow> rd (map idx C) j;
    if r \<noteq> - 1 then do { a \<leftarrow> rdz AT (crem (r + int i * int j) 15); Some (v XOR a) } else Some v }) 0 = Some (syn C i)"
proof -
  have "\<exists>v. for_in [0..<15] (\<lambda>j v. do {
    r \<leftarrow> rd (map idx C) j;
    if r \<noteq> - 1 then do { a \<leftarrow> rdz AT (crem (r + int i * int j) 15); Some (v XOR a) } else Some v }) 0 = Some v
    \<and> v = isum (\<lambda>j. amul (i * j) (C ! j)) 15"
  proof (rule for_in_upt [where P = "\<lambda>k v. v = isum (\<lambda>j. amul (i * j) (C ! j)) k"])
    fix j v assume j: "j < 15" and v: "v = isum (\<lambda>j. amul (i * j) (C ! j)) j"
    have c: "sym4 (C ! j)" using C j by (simp add: list_all_length)
    have n: "int i * int j = int (i * j)" by simp
    show "\<exists>v'. do { r \<leftarrow> rd (map idx C) j;
        if r \<noteq> - 1 then do { a \<leftarrow> rdz AT (crem (r + int i * int j) 15); Some (v XOR a) } else Some v } = Some v'
      \<and> v' = isum (\<lambda>j. amul (i * j) (C ! j)) (Suc j)"
    proof (cases "C ! j = 0")
      case True
      then show ?thesis using rd_map_idx [of j C] C(1) j idx_0 [OF c] v by (simp add: amul_def)
    next
      case False
      then have "rdz AT (crem (idx (C ! j) + int i * int j) 15) = Some (amul (i * j) (C ! j))"
        using amul_rd(2) [OF c False, of "int (i * j)"] unfolding idx_def n nat_int by (simp only: of_nat_0_le_iff)
      then show ?thesis using rd_map_idx [of j C] C(1) j idx_0 [OF c] v False by simp
    qed
  qed simp_all
  then show ?thesis using C(1) by (simp add: syn_def)
qed

lemma rdz_IO: "sym4 x \<Longrightarrow> rdz IO x = Some (idx x)"
  using IO_rd [of x] by (simp add: idx_def)

lemma syndromes_eq:
  assumes C: "length C = 15" "list_all sym4 C" and s: "length s = 7"
  shows "\<exists>err. syndromes AT IO (map idx C) s = Some (err, s ! 0 # map (\<lambda>i. idx (syn C i)) [1..<7]) \<and>
    (err = 0 \<longleftrightarrow> list_all (\<lambda>i. syn C i = 0) [1..<7])"
proof -
  let ?T = "\<lambda>k. s ! 0 # map (\<lambda>i. idx (syn C i)) [1..<k] @ drop k s"
  let ?P = "\<lambda>k (err, t). t = ?T k \<and> (err = (0 :: int) \<longleftrightarrow> list_all (\<lambda>i. syn C i = 0) [1..<k])"
  have "\<exists>r. syndromes AT IO (map idx C) s = Some r \<and> ?P 7 r"
    unfolding syndromes_def syndrome_loop [OF C]
  proof (rule for_in_upt)
    have "s = s ! 0 # drop 1 s" using s by (cases s) simp_all
    then show "?P 1 (0, s)" by simp
  next
    fix k and r :: "int \<times> int list" assume k: "1 \<le> k" "k < 7" and P: "?P k r"
    obtain err t where r: "r = (err, t)" by (cases r)
    have "t[k := v] = s ! 0 # map (\<lambda>i. idx (syn C i)) [1..<k] @ v # drop (Suc k) s" for v
    proof -
      have "drop k s = s ! k # drop (Suc k) s" using k s by (simp add: Cons_nth_drop_Suc)
      moreover have "length (map (\<lambda>i. idx (syn C i)) [1..<k]) = k - 1" by simp
      ultimately show ?thesis using P k by (simp add: r list_update_append nth_Cons' split: nat.split)
    qed
    moreover have "k < length t" using P k s by (simp add: r)
    ultimately have "wr t k (idx (syn C k)) = Some (?T (Suc k))" using k by (simp add: wr_def)
    then show "\<exists>r'. (case r of (syn_error, s) \<Rightarrow> do {
        v \<leftarrow> Some (syn C k);
        let syn_error = (if v \<noteq> 0 then 1 else syn_error);
        k' \<leftarrow> rdz IO v; s \<leftarrow> wr s k k'; Some (syn_error, s) }) = Some r' \<and> ?P (Suc k) r'"
      using P k by (auto simp: r rdz_IO [OF syn_sym] Let_def)
  qed simp
  then show ?thesis using s by auto
qed

text \<open>\<open>to_poly\<close> undoes \<open>idx\<close>.\<close>

lemma AT_idx: "sym4 x \<Longrightarrow> x \<noteq> 0 \<Longrightarrow> rdz AT (idx x) = Some x"
  using IO_AT [of x] by (simp add: idx_def rdz_def rd_def nat_less_iff)

lemma to_poly_eq:
  assumes C: "length C = 15" "list_all sym4 C"
  shows "to_poly AT (map idx C) = Some C"
proof -
  have "\<exists>r. to_poly AT (map idx C) = Some r \<and> r = take 15 C @ drop 15 (map idx C)"
    unfolding to_poly_def
  proof (rule for_in_upt [where P = "\<lambda>k r. r = take k C @ drop k (map idx C)"])
    fix k r assume k: "k < 15" and r: "r = take k C @ drop k (map idx C)"
    have c: "sym4 (C ! k)" using C k by (simp add: list_all_length)
    have d: "drop k (map idx C) = idx (C ! k) # drop (Suc k) (map idx C)" using k C(1) by (simp add: Cons_nth_drop_Suc [symmetric])
    have rk: "rd r k = Some (idx (C ! k))" using k C(1) by (simp add: r d rd_def nth_append)
    have "wr r k (C ! k) = Some (take (Suc k) C @ drop (Suc k) (map idx C))"
      using k C(1) by (simp add: wr_def r d list_update_append take_Suc_conv_app_nth)
    then show "\<exists>r'. do { x \<leftarrow> rd r k; if x \<noteq> - 1 then do { a \<leftarrow> rdz AT x; wr r k a } else wr r k 0 } = Some r' \<and>
        r' = take (Suc k) C @ drop (Suc k) (map idx C)"
      using rk AT_idx [OF c] idx_0 [OF c] by (cases "C ! k = 0") simp_all
  qed simp_all
  then show ?thesis using C(1) by simp
qed

section \<open>Code words\<close>

lemma peval_snoc:
  assumes F: "log_field n fld mul lg" and "list_all fld cs" "fld c"
  shows "peval (mul k) (cs @ [c]) = peval (mul k) cs XOR mul (k * length cs) c"
  using assms(2)
proof (induction cs)
  case Nil
  then show ?case using log_field.mul_0 [OF F assms(3)] log_field.mul_zero [OF F] by simp
next
  case (Cons x cs)
  then have "fld (peval (mul k) cs)" "fld (mul (k * length cs) c)"
    using log_field.peval_in [OF F] log_field.mul_in [OF F assms(3)] by simp_all
  then have "mul k (peval (mul k) cs XOR mul (k * length cs) c) = mul k (peval (mul k) cs) XOR mul (k + k * length cs) c"
    using log_field.mul_xor [OF F] log_field.mul_mul [OF F assms(3)] by simp
  then show ?case using Cons by (simp add: xor.assoc)
qed

lemma uint_peval:
  assumes rs: "like_rs15 rs" and W: "list_all (fld_of rs) W"
  shows "uint (peval (gmul rs k) W) = syn (map uint W) k"
  using W
proof (induction W rule: rev_induct)
  case (snoc c W)
  have F: "log_field (nat (nn rs)) (fld_of rs) (gmul rs) (glog rs)"
    using rs by (intro rs_ok_field [of rs "0x13"]) (simp add: like_rs15_def)
  have "uint (peval (gmul rs k) (W @ [c])) = uint (peval (gmul rs k) W) XOR amul (k * length W) (uint c)"
    using peval_snoc [OF F, of W c k] snoc.prems uint_gmul [OF rs] by (simp add: uint_xor)
  also have "\<dots> = syn (map uint (W @ [c])) k"
  proof -
    have "isum (\<lambda>j. amul (k * j) (map uint (W @ [c]) ! j)) (length W) = isum (\<lambda>j. amul (k * j) (map uint W ! j)) (length W)"
      by (rule isum_cong) (simp add: nth_append)
    moreover have "map uint (W @ [c]) ! length W = uint c" by (simp add: nth_append)
    ultimately show ?thesis using snoc by (simp only: syn_def length_map length_append_singleton isum.simps list_all_append)
  qed
  finally show ?case .
qed (simp add: syn_def)

lemma encode_rs_codeword:
  assumes data: "length data = 9" "list_all sym4 data" and bb: "length bb0 = 6" and rs: "like_rs15 rs"
  shows "\<exists>bb. encode_rs AT IO GG data bb0 = Some bb \<and> length bb = 6 \<and> list_all sym4 bb \<and>
    (\<forall>i \<in> {1..6}. syn (bb @ data) i = 0)"
proof -
  have ok: "rs_ok rs 0x13" and nr: "nroots rs = 6" "nn rs = 15" using rs like_rs15_nn [OF rs] by (auto simp: like_rs15_def)
  let ?D = "bytes_of_symbols (rev data)"
  obtain par where par: "encode_rs8 rs ?D 9 (replicate 6 0) 0 = Some (0, par)" "length par = 6" "list_all (fld_of rs) par"
    "encode_rs AT IO GG data bb0 = Some (rev (map uint par))"
    using encoders_agree [OF rs data bb] by blast
  have "length ?D = 9" using data(1) by (simp add: bytes_of_symbols_def)
  then have c: "codeword rs (symbols rs 0 ?D @ par)"
    using encode_rs8_codeword [OF ok, of 9 ?D 0] par(1) nr by auto
  let ?W = "rev (symbols rs 0 ?D @ par)"
  have "map uint (symbols rs 0 ?D) = rev data"
    using data(2) symbol_of [OF rs]
    by (simp add: symbols_def bytes_of_symbols_def list_all_iff rev_map [symmetric] map_idI)
  then have W: "map uint ?W = rev (map uint par) @ data" by (simp add: rev_map [symmetric])
  have "syn (rev (map uint par) @ data) i = 0" if "i \<in> {1..6}" for i
  proof -
    have r: "root_exp rs (i - 1) = i" using that rs by (simp add: root_exp_def like_rs15_def)
    have "horner (gmul rs (root_exp rs (i - 1))) (rev ?W) 0 = 0"
    proof -
      have "i - 1 \<in> set [0..<nat (nroots rs)]" using that nr by auto
      then show ?thesis using c unfolding codeword_def list_all_iff rev_rev_ident by blast
    qed
    then have "peval (gmul rs i) ?W = 0" unfolding r horner_rev .
    moreover have "list_all (fld_of rs) ?W" using c by (simp add: codeword_def)
    ultimately show ?thesis using uint_peval [OF rs, of ?W i] unfolding W by simp
  qed
  then show ?thesis using par(2,3,4) fld_sym [OF rs] by (simp add: list_all_iff)
qed

lemma like_rs15_exists:
  "\<exists>rs. rs_init (\<lambda>_. True) junk call 4 0x13 None 1 1 6 = Some (Some rs) \<and> like_rs15 rs"
proof -
  have ip: "find_iprim (2 ^ nat 4 - 1) 1 1 = Some 1" by (simp add: find_iprim.simps)
  obtain rs where rs: "rs_init (\<lambda>_. True) junk call 4 0x13 None 1 1 6 = Some (Some rs)" "tables_ok rs 0x13"
    "mm rs = 4" "nroots rs = 6" "fcr rs = 1" "prim rs = 1" "gfpoly rs = 0x13"
    using rs_init_eq [of 4 "0x13" 6 1 1 1 "\<lambda>_. True" junk call None] primitive_0x13 ip by auto
  have "rs_built rs" by (rule rs_init_built [OF rs(1)]) (simp_all add: primitive_0x13)
  then have "rs_ok rs 0x13" using rs primitive_0x13 by (auto simp: rs_built_def)
  then show ?thesis using rs by (simp add: like_rs15_def)
qed

lemma decode_codeword:
  assumes C: "length C = 15" "list_all sym4 C" and z: "\<forall>i \<in> {1..6}. syn C i = 0"
  shows "decode_rs junk AT IO (map idx C) = Some C"
proof -
  obtain err where s: "syndromes AT IO (map idx C) (map (junk 5) [0..<7]) =
      Some (err, map (junk 5) [0..<7] ! 0 # map (\<lambda>i. idx (syn C i)) [1..<7])"
    and e: "err = 0 \<longleftrightarrow> list_all (\<lambda>i. syn C i = 0) [1..<7]"
    using syndromes_eq [OF C, of "map (junk 5) [0..<7]"] by (auto simp del: upt_rec_numeral)
  have "list_all (\<lambda>i. syn C i = 0) [1..<7]" using z by (simp add: list_all_iff del: upt_rec_numeral)
  then have "err = 0" using e by blast
  then show ?thesis unfolding decode_rs_def s using to_poly_eq [OF C] by simp
qed

lemma rs_program_roundtrip_plain:
  assumes "length data = 9" "list_all sym4 data" "length bb0 = 6"
  shows "\<exists>al io gg bb. generate_gf (replicate 16 0) (replicate 16 0) = Some (al, io) \<and>
    gen_poly al io (replicate 7 0) = Some gg \<and> encode_rs al io gg data bb0 = Some bb \<and>
    decode_rs junk al io (map (\<lambda>x. io ! nat x) (bb @ data)) = Some (bb @ data)"
proof -
  obtain rs where rs: "like_rs15 rs" using like_rs15_exists by blast
  obtain bb where bb: "encode_rs AT IO GG data bb0 = Some bb" "length bb = 6" "list_all sym4 bb"
    "\<forall>i \<in> {1..6}. syn (bb @ data) i = 0"
    using encode_rs_codeword [OF assms rs] by blast
  have "decode_rs junk AT IO (map idx (bb @ data)) = Some (bb @ data)"
    using assms bb by (intro decode_codeword) simp_all
  then show ?thesis using generate_gf_eq gen_poly_eq bb(1) unfolding idx_def by blast
qed

section \<open>Properties\<close>

text \<open>C29. The program \<open>rs.c\<close> and the library compute the same code: whenever \<open>rs_init\<close> builds a structure
  for 4 bits, x^4 + x + 1 and the roots alpha^1 to alpha^6 (and memory is available it does), \<open>encode_rs\<close>
  of the program returns the check symbols of \<open>encode_rs8\<close> of the library, in reverse order, for every
  data of nine symbols. All accesses of both are in bounds.\<close>

theorem rs_program_is_library:
  assumes "length data = 9" "\<forall>d \<in> set data. 0 \<le> d \<and> d < 16" "length bb0 = 6"
  shows "\<exists>al io gg rs par. generate_gf (replicate 16 0) (replicate 16 0) = Some (al, io) \<and>
    gen_poly al io (replicate 7 0) = Some gg \<and>
    rs_init (\<lambda>_. True) junk call 4 0x13 None 1 1 6 = Some (Some rs) \<and>
    encode_rs8 rs (bytes_of_symbols (rev data)) 9 (replicate 6 0) 0 = Some (0, par) \<and>
    encode_rs al io gg data bb0 = Some (rev (map uint par))"
proof -
  have "list_all sym4 data" using assms(2) by (simp add: list_all_iff sym4_def)
  then show ?thesis
    using like_rs15_exists [of junk call] encoders_agree [OF _ assms(1) _ assms(3)] generate_gf_eq gen_poly_eq by blast
qed

theorem rs_program_is_library_witness:
  "\<exists>al io gg rs par. generate_gf (replicate 16 0) (replicate 16 0) = Some (al, io) \<and>
    gen_poly al io (replicate 7 0) = Some gg \<and>
    rs_init (\<lambda>_. True) (\<lambda>_ _. 7) (\<lambda>_ x. x) 4 0x13 None 1 1 6 = Some (Some rs) \<and>
    encode_rs8 rs (bytes_of_symbols (rev [1, 2, 3, 4, 5, 6, 7, 8, 9])) 9 (replicate 6 0) 0 = Some (0, par) \<and>
    encode_rs al io gg [1, 2, 3, 4, 5, 6, 7, 8, 9] (replicate 6 0) = Some (rev (map uint par))"
  using rs_program_is_library [of "[1, 2, 3, 4, 5, 6, 7, 8, 9]" "replicate 6 0" "\<lambda>_ _. 7" "\<lambda>_ x. x"] by auto

text \<open>C30. The program's decoder gives back every code word of its encoder: nine data symbols, encoded,
  converted to index form and decoded, come back unchanged with their check symbols, whatever the
  uninitialised local arrays hold.\<close>

theorem rs_program_roundtrip:
  assumes "length data = 9" "\<forall>d \<in> set data. 0 \<le> d \<and> d < 16" "length bb0 = 6"
  shows "\<exists>al io gg bb. generate_gf (replicate 16 0) (replicate 16 0) = Some (al, io) \<and>
    gen_poly al io (replicate 7 0) = Some gg \<and> encode_rs al io gg data bb0 = Some bb \<and>
    decode_rs junk al io (map (\<lambda>x. io ! nat x) (bb @ data)) = Some (bb @ data)"
  using assms by (intro rs_program_roundtrip_plain) (simp_all add: list_all_iff sym4_def)

theorem rs_program_roundtrip_witness:
  "\<exists>al io gg bb. generate_gf (replicate 16 0) (replicate 16 0) = Some (al, io) \<and>
    encode_rs al io gg [8, 6, 8, 1, 2, 4, 15, 9, 9] (replicate 6 0) = Some bb \<and>
    decode_rs (\<lambda>_ _. 77) al io (map (\<lambda>x. io ! nat x) (bb @ [8, 6, 8, 1, 2, 4, 15, 9, 9])) = Some (bb @ [8, 6, 8, 1, 2, 4, 15, 9, 9])"
  using rs_program_roundtrip [of "[8, 6, 8, 1, 2, 4, 15, 9, 9]" "replicate 6 0" "\<lambda>_ _. 77"] by auto

section \<open>A write outside \<open>elp\<close>\<close>

text \<open>While the discrepancies are zero the polynomial stays 1. When the sixth syndrome is the first one
  that is not zero, the sixth round moves \<open>elp[0][0]\<close> up by six places, and a row has six.\<close>

lemma row6: "map f [0..<6] = [f 0, f 1, f 2, f 3, f 4, f (5::nat)]"
  by (simp add: upt_conv_Cons eval_nat_numeral)

lemma row8: "map f [0..<8] = [f 0, f 1, f 2, f 3, f 4, f 5, f 6, f (7::nat)]"
  by (simp add: upt_conv_Cons eval_nat_numeral)

lemma end_of_row: "wr [] i v = None"
  by (simp add: wr_def)

lemma find_elp_overflow:
  assumes x: "rdz AT x = Some a" "rdz IO a = Some x" "x \<noteq> - 1"
    and e: "elp b = [[e0, e1, e2, e3, e4, e5], [f0, f1, f2, f3, f4, f5], [g0, g1, g2, g3, g4, g5], [h0, h1, h2, h3, h4, h5],
      [i0, i1, i2, i3, i4, i5], [j0, j1, j2, j3, j4, j5], [k0, k1, k2, k3, k4, k5], [l0, l1, l2, l3, l4, l5]]"
    and b: "discr b = [d0, d1, d2, d3, d4, d5, d6, d7]" "deg b = [m0, m1, m2, m3, m4, m5, m6, m7]" "u_lu b = [n0, n1, n2, n3, n4, n5, n6, n7]"
    and s: "s = [s0, - 1, - 1, - 1, - 1, - 1, x]"
  shows "do { b \<leftarrow> init_tables s b; find_elp AT IO s b } = None"
proof -
  have IO: "rd IO 0 = Some (- 1)" "rd IO (Suc 0) = Some 0" by (simp_all add: IO_def rd_def)
  have init: "init_tables s b = Some \<lparr>elp = [[0, - 1, - 1, - 1, - 1, - 1], [1, 0, 0, 0, 0, 0], [g0, g1, g2, g3, g4, g5], [h0, h1, h2, h3, h4, h5],
      [i0, i1, i2, i3, i4, i5], [j0, j1, j2, j3, j4, j5], [k0, k1, k2, k3, k4, k5], [l0, l1, l2, l3, l4, l5]],
      discr = [0, - 1, d2, d3, d4, d5, d6, d7], deg = [0, 0, m2, m3, m4, m5, m6, m7], u_lu = [- 1, 0, n2, n3, n4, n5, n6, n7]\<rparr>"
    unfolding init_tables_def e b s by (simp add: exec_simps rd2_def wr2_def wrz_def upt_conv_Cons)
  have u: "[1..<7] = [1, 2, 3, 4, 5, 6 :: nat]" by (simp add: upt_conv_Cons eval_nat_numeral)
  show ?thesis
    unfolding init Option.bind.bind_lunit find_elp_def u unfolding s
    by (simp add: exec_simps upt_conv_Cons elp_round_def same_elp_def new_elp_def next_discrepancy_def find_q_def
        rd2_def wr2_def wrz_def IO x Let_def end_of_row)
qed

lemma decode_rs_overflow_plain:
  assumes C: "length C = 15" "list_all sym4 C" and z: "\<forall>i \<in> {1..5}. syn C i = 0" and nz: "syn C 6 \<noteq> 0"
  shows "decode_rs junk AT IO (map idx C) = None"
proof -
  have r: "[1..<7] = [1, 2, 3, 4, 5, 6 :: nat]" by (simp add: upt_conv_Cons eval_nat_numeral)
  let ?x = "idx (syn C 6)" and ?s0 = "map (junk 5) [0..<7] ! 0"
  obtain err where s: "syndromes AT IO (map idx C) (map (junk 5) [0..<7]) =
      Some (err, ?s0 # map (\<lambda>i. idx (syn C i)) [1..<7])"
    and e: "err = 0 \<longleftrightarrow> list_all (\<lambda>i. syn C i = 0) [1..<7]"
    using syndromes_eq [OF C, of "map (junk 5) [0..<7]"] by (auto simp del: upt_rec_numeral)
  have "idx 0 = - 1" by (simp add: idx_def IO_def)
  then have s6: "?s0 # map (\<lambda>i. idx (syn C i)) [1..<7] = [?s0, - 1, - 1, - 1, - 1, - 1, ?x]"
    using z unfolding r by simp
  have "err \<noteq> 0" using e nz unfolding r by simp
  have x: "rdz AT ?x = Some (syn C 6)" "rdz IO (syn C 6) = Some ?x" "?x \<noteq> - 1"
    using AT_idx [OF syn_sym nz] rdz_IO [OF syn_sym] idx_0 [OF syn_sym, of C 6] nz by simp_all
  have rows: "map (\<lambda>u. map (junk (10 + u)) [0..<6]) [0..<8] = map (\<lambda>u. [junk (10 + u) 0, junk (10 + u) 1, junk (10 + u) 2, junk (10 + u) 3, junk (10 + u) 4, junk (10 + u) 5]) [0..<8]"
    unfolding row6 ..
  have "do { b \<leftarrow> init_tables [?s0, - 1, - 1, - 1, - 1, - 1, ?x] \<lparr>elp = map (\<lambda>u. map (junk (10 + u)) [0..<6]) [0..<8],
      discr = map (junk 6) [0..<8], deg = map (junk 7) [0..<8], u_lu = map (junk 8) [0..<8]\<rparr>;
    find_elp AT IO [?s0, - 1, - 1, - 1, - 1, - 1, ?x] b } = None"
    by (rule find_elp_overflow [OF x]) (simp_all only: berlekamp.select_convs row6 row8)
  then show ?thesis
    unfolding decode_rs_def s Option.bind.bind_lunit prod.case s6 using \<open>err \<noteq> 0\<close> by (auto simp: bind_eq_None_conv)
qed

text \<open>C31. The program's decoder writes outside its local array \<open>elp\<close> for every received word whose value
  is zero at alpha^1 to alpha^5 and not at alpha^6: the degree of the new polynomial is 6, and it is
  written to column 6 of the last of 8 rows of 6 columns.\<close>

theorem decode_rs_overflow:
  assumes "length C = 15" "\<forall>c \<in> set C. 0 \<le> c \<and> c < 16" "\<forall>i \<in> {1..5}. syn C i = 0" "syn C 6 \<noteq> 0"
  shows "decode_rs junk AT IO (map idx C) = None"
  using assms by (intro decode_rs_overflow_plain) (simp_all add: list_all_iff sym4_def)

text \<open>The product of the factors X + alpha^i, i = 1..5, is such a word.\<close>

theorem decode_rs_overflow_witness:
  "\<exists>C. C = igen 5 @ replicate 9 0 \<and> decode_rs (\<lambda>_ _. 77) AT IO (map idx C) = None"
proof -
  let ?C = "igen 5 @ replicate 9 0"
  have "length ?C = 15" by code_simp
  moreover have "\<forall>c \<in> set ?C. 0 \<le> c \<and> c < 16" by code_simp
  moreover have "list_all (\<lambda>i. syn ?C i = 0) [1..<6]" by code_simp
  then have "\<forall>i \<in> {1..5}. syn ?C i = 0" by (auto simp: list_all_iff simp del: upt_rec_numeral igen.simps)
  moreover have "syn ?C 6 \<noteq> 0" by code_simp
  ultimately show ?thesis using decode_rs_overflow [of ?C "\<lambda>_ _. 77"] by blast
qed

text \<open>The demonstration in \<open>main\<close> does not test the decoder: the symbol that it corrupts is one of
  \<open>data\<close> and not of the received word, which was already copied. The run ends, the decoder finds no
  error, and in the last row the printed \<open>data\<close> (3) differs from the decoded symbol (9).\<close>

lemma rs_main_corrupts_data:
  "map_option (\<lambda>(tables, rows). rows) (rs_main junk) =
    Some (zip [15, 13, 10, 0, 6, 13, 8, 6, 8, 1, 2, 4, 15, 9, 3] [15, 13, 10, 0, 6, 13, 8, 6, 8, 1, 2, 4, 15, 9, 9])"
proof -
  let ?data = "[8, 6, 8, 1, 2, 4, 15, 9, 9] :: int list" and ?bb = "[15, 13, 10, 0, 6, 13] :: int list"
  have bb: "encode_rs AT IO GG ?data (replicate 6 0) = Some ?bb" by code_simp
  have fill: "do { recd \<leftarrow> for_in [0..<6] (\<lambda>i recd. do { b \<leftarrow> rd ?bb i; wr recd i b }) (replicate 15 0);
      recd \<leftarrow> for_in [0..<9] (\<lambda>i recd. do { d \<leftarrow> rd ?data i; wr recd (i + 6) d }) recd;
      for_in [0..<15] (\<lambda>i recd. do { r \<leftarrow> rd recd i; k \<leftarrow> rdz IO r; wr recd i k }) recd } = Some (map idx (?bb @ ?data))"
    by code_simp
  have hurt: "wr ?data (15 - 15 div 2) 3 = Some [8, 6, 8, 1, 2, 4, 15, 9, 3]" by code_simp
  have sy: "list_all sym4 ?data" by (simp add: sym4_def)
  obtain rs where rs: "like_rs15 rs" using like_rs15_exists by blast
  have "list_all sym4 ?bb" "\<forall>i \<in> {1..6}. syn (?bb @ ?data) i = 0"
    using encode_rs_codeword [OF _ sy _ rs, of "replicate 6 0"] bb by simp_all
  then have dec: "decode_rs junk AT IO (map idx (?bb @ ?data)) = Some (?bb @ ?data)"
    using sy by (intro decode_codeword) simp_all
  obtain r1 r2 where r: "for_in [0..<6] (\<lambda>i recd. do { b \<leftarrow> rd ?bb i; wr recd i b }) (replicate 15 0) = Some r1"
    "for_in [0..<9] (\<lambda>i recd. do { d \<leftarrow> rd ?data i; wr recd (i + 6) d }) r1 = Some r2"
    "for_in [0..<15] (\<lambda>i recd. do { r \<leftarrow> rd recd i; k \<leftarrow> rdz IO r; wr recd i k }) r2 = Some (map idx (?bb @ ?data))"
    using fill by (auto simp only: bind_eq_Some_conv)
  show ?thesis
    unfolding rs_main_def generate_gf_eq gen_poly_eq Option.bind.bind_lunit prod.case Let_def bb r hurt dec by simp
qed

end
