(* ===== verification/List_Head.thy ===== *)
theory List_Head imports Prelude begin

text \<open>
  \<open>reed_solomon/list.h\<close>: the circular doubly linked lists that hold the \<open>rs_control\<close> structures. The
  memory is a partial map from addresses to \<open>struct list_head\<close>; an access through a pointer that
  points to no such structure fails. A list is a ring of structures, one of which is its head.
\<close>

section \<open>The memory\<close>

record list_head =
  next_of :: nat
  prev_of :: nat

type_synonym memory = "nat \<Rightarrow> list_head option"

definition LIST_POISON1 :: nat where "LIST_POISON1 = 0x00100100"
definition LIST_POISON2 :: nat where "LIST_POISON2 = 0x00200200"

definition get_next :: "memory \<Rightarrow> nat \<Rightarrow> nat option" where
  "get_next h p = do { c \<leftarrow> h p; Some (next_of c) }"

definition get_prev :: "memory \<Rightarrow> nat \<Rightarrow> nat option" where
  "get_prev h p = do { c \<leftarrow> h p; Some (prev_of c) }"

definition set_next :: "nat \<Rightarrow> nat \<Rightarrow> memory \<Rightarrow> memory option" where
  "set_next p v h = do { c \<leftarrow> h p; Some (h(p \<mapsto> c\<lparr>next_of := v\<rparr>)) }"

definition set_prev :: "nat \<Rightarrow> nat \<Rightarrow> memory \<Rightarrow> memory option" where
  "set_prev p v h = do { c \<leftarrow> h p; Some (h(p \<mapsto> c\<lparr>prev_of := v\<rparr>)) }"

section \<open>The operations\<close>

definition INIT_LIST_HEAD :: "nat \<Rightarrow> memory \<Rightarrow> memory option" where
  "INIT_LIST_HEAD p h = do { h \<leftarrow> set_next p p h; set_prev p p h }"

text \<open>\<open>__list_add\<close> and \<open>__list_del\<close>.\<close>

definition list_add_between :: "nat \<Rightarrow> nat \<Rightarrow> nat \<Rightarrow> memory \<Rightarrow> memory option" where
  "list_add_between new_input prev nxt h = do {
     h \<leftarrow> set_prev nxt new_input h;
     h \<leftarrow> set_next new_input nxt h;
     h \<leftarrow> set_prev new_input prev h;
     set_next prev new_input h }"

definition list_add :: "nat \<Rightarrow> nat \<Rightarrow> memory \<Rightarrow> memory option" where
  "list_add new_input head h = do { n \<leftarrow> get_next h head; list_add_between new_input head n h }"

definition list_add_tail :: "nat \<Rightarrow> nat \<Rightarrow> memory \<Rightarrow> memory option" where
  "list_add_tail new_input head h = do { p \<leftarrow> get_prev h head; list_add_between new_input p head h }"

definition list_del_between :: "nat \<Rightarrow> nat \<Rightarrow> memory \<Rightarrow> memory option" where
  "list_del_between prev nxt h = do { h \<leftarrow> set_prev nxt prev h; set_next prev nxt h }"

definition list_del :: "nat \<Rightarrow> memory \<Rightarrow> memory option" where
  "list_del entry h = do {
     p \<leftarrow> get_prev h entry;
     n \<leftarrow> get_next h entry;
     h \<leftarrow> list_del_between p n h;
     h \<leftarrow> set_next entry LIST_POISON1 h;
     set_prev entry LIST_POISON2 h }"

definition list_del_init :: "nat \<Rightarrow> memory \<Rightarrow> memory option" where
  "list_del_init entry h = do {
     p \<leftarrow> get_prev h entry;
     n \<leftarrow> get_next h entry;
     h \<leftarrow> list_del_between p n h;
     INIT_LIST_HEAD entry h }"

definition list_move :: "nat \<Rightarrow> nat \<Rightarrow> memory \<Rightarrow> memory option" where
  "list_move entry head h = do {
     p \<leftarrow> get_prev h entry;
     n \<leftarrow> get_next h entry;
     h \<leftarrow> list_del_between p n h;
     list_add entry head h }"

definition list_move_tail :: "nat \<Rightarrow> nat \<Rightarrow> memory \<Rightarrow> memory option" where
  "list_move_tail entry head h = do {
     p \<leftarrow> get_prev h entry;
     n \<leftarrow> get_next h entry;
     h \<leftarrow> list_del_between p n h;
     list_add_tail entry head h }"

definition list_empty :: "memory \<Rightarrow> nat \<Rightarrow> bool option" where
  "list_empty h head = do { n \<leftarrow> get_next h head; Some (n = head) }"

text \<open>\<open>__list_splice\<close>.\<close>

definition list_splice_between :: "nat \<Rightarrow> nat \<Rightarrow> memory \<Rightarrow> memory option" where
  "list_splice_between list head h = do {
     first \<leftarrow> get_next h list;
     last \<leftarrow> get_prev h list;
     after \<leftarrow> get_next h head;
     h \<leftarrow> set_prev first head h;
     h \<leftarrow> set_next head first h;
     h \<leftarrow> set_next last after h;
     set_prev after last h }"

definition list_splice :: "nat \<Rightarrow> nat \<Rightarrow> memory \<Rightarrow> memory option" where
  "list_splice list head h = do {
     e \<leftarrow> list_empty h list;
     if \<not> e then list_splice_between list head h else Some h }"

definition list_splice_init :: "nat \<Rightarrow> nat \<Rightarrow> memory \<Rightarrow> memory option" where
  "list_splice_init list head h = do {
     e \<leftarrow> list_empty h list;
     if \<not> e then do { h \<leftarrow> list_splice_between list head h; INIT_LIST_HEAD list h } else Some h }"

text \<open>
  The loops. \<open>list_for_each\<close> and \<open>list_for_each_prev\<close> give the entries that the loop variable takes;
  on a damaged ring the loop need not end. \<open>list_for_each_safe\<close> has read the next entry before its
  body runs, so the body may take the entry off the list. The \<open>prefetch\<close> of the first two macros has
  no effect on the memory and is left out.
\<close>

partial_function (option) walk :: "(nat \<Rightarrow> nat option) \<Rightarrow> nat \<Rightarrow> nat \<Rightarrow> nat list option" where
  "walk step head pos =
     (if pos = head then Some []
      else do { n \<leftarrow> step pos; ps \<leftarrow> walk step head n; Some (pos # ps) })"

definition list_for_each :: "memory \<Rightarrow> nat \<Rightarrow> nat list option" where
  "list_for_each h head = do { pos \<leftarrow> get_next h head; walk (get_next h) head pos }"

definition list_for_each_prev :: "memory \<Rightarrow> nat \<Rightarrow> nat list option" where
  "list_for_each_prev h head = do { pos \<leftarrow> get_prev h head; walk (get_prev h) head pos }"

partial_function (option) safe_loop :: "(nat \<Rightarrow> memory \<Rightarrow> memory option) \<Rightarrow> nat \<Rightarrow> nat \<Rightarrow> nat \<Rightarrow> memory \<Rightarrow> memory option" where
  "safe_loop body head pos n h =
     (if pos = head then Some h
      else do { h \<leftarrow> body pos h; m \<leftarrow> get_next h n; safe_loop body head n m h })"

definition list_for_each_safe :: "(nat \<Rightarrow> memory \<Rightarrow> memory option) \<Rightarrow> nat \<Rightarrow> memory \<Rightarrow> memory option" where
  "list_for_each_safe body head h = do {
     pos \<leftarrow> get_next h head;
     n \<leftarrow> get_next h pos;
     safe_loop body head pos n h }"

text \<open>\<open>list_entry\<close>: the structure around a list member, which lies \<open>off\<close> bytes behind its start.\<close>

definition list_entry :: "nat \<Rightarrow> nat \<Rightarrow> nat" where
  "list_entry off ptr = ptr - off"

section \<open>Rings\<close>

text \<open>
  \<open>linked n p xs\<close>: in the next pointers \<open>n\<close> and the previous pointers \<open>p\<close> each address of \<open>xs\<close> is linked
  with the following one. The list at \<open>head\<close> with the entries \<open>xs\<close> is the ring \<open>head # xs @ [head]\<close>.
\<close>

fun linked :: "(nat \<Rightarrow> nat option) \<Rightarrow> (nat \<Rightarrow> nat option) \<Rightarrow> nat list \<Rightarrow> bool" where
  "linked n p (a # b # xs) \<longleftrightarrow> n a = Some b \<and> p b = Some a \<and> linked n p (b # xs)"
| "linked n p xs \<longleftrightarrow> True"

definition dlist :: "memory \<Rightarrow> nat \<Rightarrow> nat list \<Rightarrow> bool" where
  "dlist h head xs \<longleftrightarrow> distinct (head # xs) \<and> linked (get_next h) (get_prev h) (head # xs @ [head])"

lemma linked_append: "linked n p (xs @ a # ys) \<longleftrightarrow> linked n p (xs @ [a]) \<and> linked n p (a # ys)"
proof (induction xs rule: induct_list012)
  case (2 x)
  show ?case by (cases ys) auto
qed auto

lemma linked_next: "q \<notin> set (butlast xs) \<Longrightarrow> linked (n(q := v)) p xs = linked n p xs"
  by (induction n p xs rule: linked.induct) auto

lemma linked_prev: "q \<notin> set (tl xs) \<Longrightarrow> linked n (p(q := v)) xs = linked n p xs"
  by (induction n p xs rule: linked.induct) auto

lemma linked_cong:
  "(\<And>a. a \<in> set xs \<Longrightarrow> n a = n' a \<and> p a = p' a) \<Longrightarrow> linked n p xs = linked n' p' xs"
  by (induction n p xs rule: linked.induct) auto

lemma access_eq:
  "get_next h p = map_option next_of (h p)" "get_prev h p = map_option prev_of (h p)"
  by (cases "h p"; simp add: get_next_def get_prev_def)+

text \<open>A write changes one pointer; \<open>touches\<close> says which structures a run may have changed.\<close>

definition touches :: "nat set \<Rightarrow> memory \<Rightarrow> memory \<Rightarrow> bool" where
  "touches S h h' \<longleftrightarrow> dom h' = dom h \<and> (\<forall>q. q \<notin> S \<longrightarrow> h' q = h q)"

lemma touches_trans: "touches S h h' \<Longrightarrow> touches T h' h'' \<Longrightarrow> touches (S \<union> T) h h''"
  by (simp add: touches_def)

lemma touches_mono: "touches S h h' \<Longrightarrow> S \<subseteq> T \<Longrightarrow> touches T h h'"
  by (auto simp: touches_def)

lemma touches_refl [simp]: "touches S h h"
  by (simp add: touches_def)

lemma set_next_ok:
  assumes "p \<in> dom h"
  shows "\<exists>h'. set_next p v h = Some h' \<and> get_next h' = (get_next h)(p := Some v) \<and> get_prev h' = get_prev h \<and> touches {p} h h'"
proof -
  obtain c where c: "h p = Some c" using assms by auto
  show ?thesis
    by (rule exI [of _ "h(p \<mapsto> c\<lparr>next_of := v\<rparr>)"]) (use c in \<open>auto simp: set_next_def access_eq fun_eq_iff touches_def\<close>)
qed

lemma set_prev_ok:
  assumes "p \<in> dom h"
  shows "\<exists>h'. set_prev p v h = Some h' \<and> get_prev h' = (get_prev h)(p := Some v) \<and> get_next h' = get_next h \<and> touches {p} h h'"
proof -
  obtain c where c: "h p = Some c" using assms by auto
  show ?thesis
    by (rule exI [of _ "h(p \<mapsto> c\<lparr>prev_of := v\<rparr>)"]) (use c in \<open>auto simp: set_prev_def access_eq fun_eq_iff touches_def\<close>)
qed

lemma INIT_LIST_HEAD_ok:
  assumes "p \<in> dom h"
  shows "\<exists>h'. INIT_LIST_HEAD p h = Some h' \<and> dlist h' p [] \<and> touches {p} h h'"
proof -
  obtain h1 where 1: "set_next p p h = Some h1" "get_next h1 = (get_next h)(p := Some p)" "touches {p} h h1"
    using set_next_ok [OF assms] by blast
  have "p \<in> dom h1" using assms 1(3) by (simp add: touches_def)
  then obtain h2 where 2: "set_prev p p h1 = Some h2" "get_prev h2 = (get_prev h1)(p := Some p)" "get_next h2 = get_next h1" "touches {p} h1 h2"
    using set_prev_ok by blast
  show ?thesis
    using 1 2 touches_trans [OF 1(3) 2(4)] by (simp add: INIT_LIST_HEAD_def dlist_def)
qed

lemma list_add_between_ok:
  assumes "new_input \<in> dom h" "prev \<in> dom h" "nxt \<in> dom h"
  shows "\<exists>h'. list_add_between new_input prev nxt h = Some h' \<and>
    get_next h' = (get_next h)(new_input := Some nxt, prev := Some new_input) \<and>
    get_prev h' = (get_prev h)(nxt := Some new_input, new_input := Some prev) \<and> touches {new_input, prev, nxt} h h'"
proof -
  obtain h1 where 1: "set_prev nxt new_input h = Some h1" "get_prev h1 = (get_prev h)(nxt := Some new_input)"
    "get_next h1 = get_next h" "touches {nxt} h h1"
    using set_prev_ok [OF assms(3)] by blast
  have "new_input \<in> dom h1" using assms 1(4) by (simp add: touches_def)
  then obtain h2 where 2: "set_next new_input nxt h1 = Some h2" "get_next h2 = (get_next h1)(new_input := Some nxt)"
    "get_prev h2 = get_prev h1" "touches {new_input} h1 h2"
    using set_next_ok by blast
  have "new_input \<in> dom h2" using assms 1(4) 2(4) by (simp add: touches_def)
  then obtain h3 where 3: "set_prev new_input prev h2 = Some h3" "get_prev h3 = (get_prev h2)(new_input := Some prev)"
    "get_next h3 = get_next h2" "touches {new_input} h2 h3"
    using set_prev_ok by blast
  have "prev \<in> dom h3" using assms 1(4) 2(4) 3(4) by (simp add: touches_def)
  then obtain h4 where 4: "set_next prev new_input h3 = Some h4" "get_next h4 = (get_next h3)(prev := Some new_input)"
    "get_prev h4 = get_prev h3" "touches {prev} h3 h4"
    using set_next_ok by blast
  have "touches {new_input, prev, nxt} h h4"
    using touches_trans [OF touches_trans [OF touches_trans [OF 1(4) 2(4)] 3(4)] 4(4)] by (rule touches_mono) auto
  with 1 2 3 4 show ?thesis by (simp add: list_add_between_def)
qed

lemma list_del_between_ok:
  assumes "prev \<in> dom h" "nxt \<in> dom h"
  shows "\<exists>h'. list_del_between prev nxt h = Some h' \<and> get_next h' = (get_next h)(prev := Some nxt) \<and>
    get_prev h' = (get_prev h)(nxt := Some prev) \<and> touches {prev, nxt} h h'"
proof -
  obtain h1 where 1: "set_prev nxt prev h = Some h1" "get_prev h1 = (get_prev h)(nxt := Some prev)"
    "get_next h1 = get_next h" "touches {nxt} h h1"
    using set_prev_ok [OF assms(2)] by blast
  have "prev \<in> dom h1" using assms 1(4) by (simp add: touches_def)
  then obtain h2 where 2: "set_next prev nxt h1 = Some h2" "get_next h2 = (get_next h1)(prev := Some nxt)"
    "get_prev h2 = get_prev h1" "touches {prev} h1 h2"
    using set_next_ok by blast
  have "touches {prev, nxt} h h2" using touches_trans [OF 1(4) 2(4)] by (rule touches_mono) auto
  with 1 2 show ?thesis by (simp add: list_del_between_def)
qed

lemma linked_dom: "linked (get_next h) (get_prev h) xs \<Longrightarrow> 2 \<le> length xs \<Longrightarrow> set xs \<subseteq> dom h"
proof (induction xs)
  case (Cons a xs)
  then obtain b ys where xs: "xs = b # ys" by (cases xs) auto
  have ab: "a \<in> dom h" "b \<in> dom h" using Cons.prems(1) by (auto simp: xs access_eq)
  show ?case
  proof (cases ys)
    case Nil
    then show ?thesis using ab xs by simp
  next
    case (Cons c zs)
    then show ?thesis using Cons.IH Cons.prems(1) ab xs by auto
  qed
qed simp

lemma dlist_dom: "dlist h head xs \<Longrightarrow> set (head # xs) \<subseteq> dom h"
  using linked_dom [of h "head # xs @ [head]"] by (auto simp: dlist_def)

lemma dlist_frame:
  assumes "dlist h head xs" and "\<And>p. p \<in> set (head # xs) \<Longrightarrow> h' p = h p"
  shows "dlist h' head xs"
proof -
  have "linked (get_next h') (get_prev h') (head # xs @ [head]) = linked (get_next h) (get_prev h) (head # xs @ [head])"
    by (rule linked_cong) (use assms(2) in \<open>auto simp: access_eq\<close>)
  with assms(1) show ?thesis by (simp add: dlist_def)
qed

section \<open>The operations on rings\<close>

text \<open>A place of the ring lies between the last address of \<open>head # as\<close> and the first of \<open>bs @ [head]\<close>.\<close>

lemma ring_place:
  obtains us a b vs where "head # as = us @ [a]" and "bs @ [head] = b # vs"
  by (metis append_butlast_last_id list.distinct(1) list.exhaust snoc_eq_iff_butlast)

lemma ring_place_facts:
  assumes "head # as = us @ [a]" "bs @ [head] = b # vs" "distinct (head # as @ bs)"
  shows "a \<notin> set us" "b \<notin> set vs" "a \<in> set (head # as)" "b \<in> set (head # bs)" "b \<notin> set as" "a \<notin> set bs"
    "set (head # as @ bs) = insert a (insert b (set us \<union> set vs))"
proof -
  have "distinct (head # as)" "distinct (bs @ [head])" using assms(3) by auto
  then have "distinct (us @ [a])" "distinct (b # vs)" using assms(1,2) by simp_all
  then show "a \<notin> set us" "b \<notin> set vs" by simp_all
  have s: "set (us @ [a]) = set (head # as)" "set (b # vs) = set (bs @ [head])" using assms(1,2) by simp_all
  show "a \<in> set (head # as)" "b \<in> set (head # bs)" using s by auto
  show "b \<notin> set as"
  proof (cases bs)
    case Nil
    then show ?thesis using assms(2,3) by auto
  next
    case (Cons c cs)
    then show ?thesis using assms(2,3) by auto
  qed
  show "a \<notin> set bs"
  proof (cases as rule: rev_cases)
    case Nil
    then show ?thesis using assms(1,3) by auto
  next
    case (snoc cs c)
    then show ?thesis using assms(1,3) by auto
  qed
  show "set (head # as @ bs) = insert a (insert b (set us \<union> set vs))" using s by auto
qed

lemma ring_cut:
  assumes "head # as = us @ [a]" "bs @ [head] = b # vs"
  shows "linked n p (head # (as @ bs) @ [head]) \<longleftrightarrow> linked n p (head # as) \<and> n a = Some b \<and> p b = Some a \<and> linked n p (bs @ [head])"
    "linked n p (head # (as @ x # bs) @ [head]) \<longleftrightarrow> linked n p (head # as) \<and> n a = Some x \<and> p x = Some a \<and>
       n x = Some b \<and> p b = Some x \<and> linked n p (bs @ [head])"
proof -
  have eq1: "head # (as @ bs) @ [head] = us @ a # b # vs" using assms by (metis append.assoc append_Cons append_Nil)
  show "linked n p (head # (as @ bs) @ [head]) \<longleftrightarrow> linked n p (head # as) \<and> n a = Some b \<and> p b = Some a \<and> linked n p (bs @ [head])"
    unfolding eq1 assms using linked_append [of n p us a "b # vs"] by simp
  have eq2: "head # (as @ x # bs) @ [head] = us @ a # x # b # vs" using assms by (metis append.assoc append_Cons append_Nil)
  show "linked n p (head # (as @ x # bs) @ [head]) \<longleftrightarrow> linked n p (head # as) \<and> n a = Some x \<and> p x = Some a \<and>
       n x = Some b \<and> p b = Some x \<and> linked n p (bs @ [head])"
    unfolding eq2 assms using linked_append [of n p us a "x # b # vs"] by simp
qed

text \<open>Insertion at a place, and removal of the entry at a place.\<close>

lemma ring_insert:
  assumes ring: "dlist h head (as @ bs)" and x: "x \<in> dom h" "x \<notin> set (head # as @ bs)"
    and place: "head # as = us @ [a]" "bs @ [head] = b # vs"
  shows "\<exists>h'. list_add_between x a b h = Some h' \<and> dlist h' head (as @ x # bs) \<and> touches (insert x (set (head # as @ bs))) h h'"
proof -
  have d: "distinct (head # as @ bs)" using ring by (simp add: dlist_def)
  note f = ring_place_facts [OF place d]
  have "a \<in> dom h" "b \<in> dom h" using dlist_dom [OF ring] f(7) by auto
  then obtain h' where h': "list_add_between x a b h = Some h'"
    "get_next h' = (get_next h)(x := Some b, a := Some x)" "get_prev h' = (get_prev h)(b := Some x, x := Some a)"
    "touches {x, a, b} h h'"
    using list_add_between_ok [OF x(1)] by blast
  have l: "linked (get_next h) (get_prev h) (head # as)" "linked (get_next h) (get_prev h) (bs @ [head])"
    using ring ring_cut(1) [OF place] by (auto simp: dlist_def)
  have but: "butlast (head # as) = us" "tl (bs @ [head]) = vs" using place by simp_all
  have xn: "x \<noteq> a" "x \<noteq> b" "x \<notin> set us" "x \<notin> set vs" using x(2) unfolding f(7) by simp_all
  have "linked (get_next h') (get_prev h') (head # as)"
    using l(1) f(1-6) x(2) xn but by (simp add: h'(2,3) linked_next linked_prev del: butlast.simps)
  moreover have "linked (get_next h') (get_prev h') (bs @ [head])"
    using l(2) f(1-6) x(2) xn but by (simp add: h'(2,3) linked_next linked_prev)
  ultimately have "dlist h' head (as @ x # bs)"
    using d x(2) xn(1,2) ring_cut(2) [OF place, of "get_next h'" "get_prev h'" x] by (auto simp: dlist_def h'(2,3))
  moreover have "touches (insert x (set (head # as @ bs))) h h'" using h'(4) by (rule touches_mono) (use f in auto)
  ultimately show ?thesis using h'(1) by blast
qed

lemma ring_remove:
  assumes ring: "dlist h head (as @ x # bs)" and place: "head # as = us @ [a]" "bs @ [head] = b # vs"
  shows "get_prev h x = Some a" "get_next h x = Some b"
    and "\<exists>h'. list_del_between a b h = Some h' \<and> dlist h' head (as @ bs) \<and> touches (set (head # as @ bs)) h h'"
proof -
  have d: "distinct (head # as @ bs)" "x \<notin> set (head # as @ bs)" using ring by (auto simp: dlist_def)
  note f = ring_place_facts [OF place d(1)]
  have cut: "linked (get_next h) (get_prev h) (head # as)" "linked (get_next h) (get_prev h) (bs @ [head])"
    "get_prev h x = Some a" "get_next h x = Some b"
    using ring ring_cut(2) [OF place, of "get_next h" "get_prev h" x] by (auto simp: dlist_def)
  show "get_prev h x = Some a" "get_next h x = Some b" by (rule cut(3), rule cut(4))
  have "a \<in> dom h" "b \<in> dom h" using dlist_dom [OF ring] f(3,4) by auto
  then obtain h' where h': "list_del_between a b h = Some h'" "get_next h' = (get_next h)(a := Some b)"
    "get_prev h' = (get_prev h)(b := Some a)" "touches {a, b} h h'"
    using list_del_between_ok by blast
  have but: "butlast (head # as) = us" "tl (bs @ [head]) = vs" using place by simp_all
  have "linked (get_next h') (get_prev h') (head # as)"
    using cut(1) f(1-6) but by (simp add: h'(2,3) linked_next linked_prev del: butlast.simps)
  moreover have "linked (get_next h') (get_prev h') (bs @ [head])"
    using cut(2) f(1-6) but by (simp add: h'(2,3) linked_next linked_prev)
  ultimately have "dlist h' head (as @ bs)"
    using d ring_cut(1) [OF place, of "get_next h'" "get_prev h'"] by (auto simp: dlist_def h'(2,3))
  moreover have "touches (set (head # as @ bs)) h h'" using h'(4) by (rule touches_mono) (use f in auto)
  ultimately show "\<exists>h'. list_del_between a b h = Some h' \<and> dlist h' head (as @ bs) \<and> touches (set (head # as @ bs)) h h'"
    using h'(1) by blast
qed

lemma list_add_ring:
  assumes ring: "dlist h head xs" and x: "x \<in> dom h" "x \<notin> set (head # xs)"
  shows "\<exists>h'. list_add x head h = Some h' \<and> dlist h' head (x # xs) \<and> touches (insert x (set (head # xs))) h h'"
proof -
  obtain b vs where b: "xs @ [head] = b # vs" by (cases "xs @ [head]") auto
  have "get_next h head = Some b" using ring b by (simp add: dlist_def)
  with ring_insert [of h head "[]" xs x "[]" head b vs] ring x b show ?thesis by (simp add: list_add_def)
qed

lemma list_add_tail_ring:
  assumes ring: "dlist h head xs" and x: "x \<in> dom h" "x \<notin> set (head # xs)"
  shows "\<exists>h'. list_add_tail x head h = Some h' \<and> dlist h' head (xs @ [x]) \<and> touches (insert x (set (head # xs))) h h'"
proof -
  obtain us a where a: "head # xs = us @ [a]" by (metis list.distinct(1) rev_exhaust)
  have eq: "head # xs @ [head] = us @ a # [head]" using a by simp
  have "linked (get_next h) (get_prev h) (head # xs @ [head])" using ring by (simp add: dlist_def)
  then have "get_prev h head = Some a"
    unfolding eq using linked_append [of "get_next h" "get_prev h" us a "[head]"] by simp
  with ring_insert [of h head xs "[]" x us a head "[]"] ring x a show ?thesis by (simp add: list_add_tail_def)
qed

text \<open>What \<open>list_del\<close>, \<open>list_del_init\<close> and the moves have in common.\<close>

lemma detach_ring:
  assumes ring: "dlist h head xs" and x: "x \<in> set xs"
  shows "\<exists>p n h'. get_prev h x = Some p \<and> get_next h x = Some n \<and> list_del_between p n h = Some h' \<and>
    dlist h' head (remove1 x xs) \<and> touches (set (head # remove1 x xs)) h h'"
proof -
  obtain as bs where xs: "xs = as @ x # bs" using x by (auto simp: in_set_conv_decomp)
  have "x \<notin> set as" using ring xs by (simp add: dlist_def)
  then have r: "remove1 x xs = as @ bs" using xs by (simp add: remove1_append)
  obtain us a where a: "head # as = us @ [a]" by (metis list.distinct(1) rev_exhaust)
  obtain b vs where b: "bs @ [head] = b # vs" by (cases "bs @ [head]") auto
  show ?thesis using ring_remove [OF ring [unfolded xs] a b] unfolding r by blast
qed

text \<open>Splicing the entries of one ring into another behind its head.\<close>

lemma splice_ring:
  assumes r1: "dlist h list xs" and r2: "dlist h head ys" and ne: "xs \<noteq> []"
    and disj: "set (list # xs) \<inter> set (head # ys) = {}"
  shows "\<exists>h'. list_splice_between list head h = Some h' \<and> dlist h' head (xs @ ys) \<and> touches (set (head # xs @ ys)) h h'"
proof -
  obtain f ws where f: "xs = f # ws" using ne by (cases xs) auto
  obtain us l where l: "xs = us @ [l]" using ne by (cases xs rule: rev_cases) auto
  obtain b vs where b: "ys @ [head] = b # vs" by (cases "ys @ [head]") auto
  have d: "distinct xs" "distinct ys" "head \<notin> set ys" "list \<notin> set xs" using r1 r2 by (auto simp: dlist_def)
  have L: "linked (get_next h) (get_prev h) (list # xs @ [list])" and H: "linked (get_next h) (get_prev h) (head # ys @ [head])"
    using r1 r2 by (simp_all add: dlist_def)
  have first: "get_next h list = Some f" using L f by simp
  have "list # xs @ [list] = (list # us) @ l # [list]" using l by simp
  then have last: "get_prev h list = Some l" and Lx: "linked (get_next h) (get_prev h) (list # us @ [l])"
    using L linked_append [of "get_next h" "get_prev h" "list # us" l "[list]"] by (simp_all del: linked.simps) (simp_all add: linked.simps)
  then have X: "linked (get_next h) (get_prev h) xs" using l f by (cases us) auto
  have after: "get_next h head = Some b" and Y: "linked (get_next h) (get_prev h) (ys @ [head])"
    using H b by simp_all
  have b_in: "b \<in> set (head # ys)" "b \<notin> set vs"
  proof -
    have "b \<in> set (ys @ [head])" using b by simp
    then show "b \<in> set (head # ys)" by auto
    have "distinct (ys @ [head])" using d by simp
    then show "b \<notin> set vs" using b by simp
  qed
  have fl: "f \<in> set xs" "l \<in> set xs" by (simp add: f, simp add: l)
  have sep: "f \<noteq> head" "f \<noteq> b" "l \<noteq> head" "l \<noteq> b" "f \<notin> set ys" "l \<notin> set ys" "b \<notin> set xs" "head \<notin> set xs"
    using disj fl b_in by auto
  have dom: "f \<in> dom h" "l \<in> dom h" "head \<in> dom h" "b \<in> dom h"
    using dlist_dom [OF r1] dlist_dom [OF r2] fl b_in(1) by auto
  obtain h1 where 1: "set_prev f head h = Some h1" "get_prev h1 = (get_prev h)(f := Some head)" "get_next h1 = get_next h" "touches {f} h h1"
    using set_prev_ok [OF dom(1)] by blast
  have "head \<in> dom h1" using dom 1(4) by (simp add: touches_def)
  then obtain h2 where 2: "set_next head f h1 = Some h2" "get_next h2 = (get_next h1)(head := Some f)" "get_prev h2 = get_prev h1" "touches {head} h1 h2"
    using set_next_ok by blast
  have "l \<in> dom h2" using dom 1(4) 2(4) by (simp add: touches_def)
  then obtain h3 where 3: "set_next l b h2 = Some h3" "get_next h3 = (get_next h2)(l := Some b)" "get_prev h3 = get_prev h2" "touches {l} h2 h3"
    using set_next_ok by blast
  have "b \<in> dom h3" using dom 1(4) 2(4) 3(4) by (simp add: touches_def)
  then obtain h4 where 4: "set_prev b l h3 = Some h4" "get_prev h4 = (get_prev h3)(b := Some l)" "get_next h4 = get_next h3" "touches {b} h3 h4"
    using set_prev_ok by blast
  have run: "list_splice_between list head h = Some h4"
    using first last after 1(1) 2(1) 3(1) 4(1) by (simp add: list_splice_between_def)
  have n4: "get_next h4 = (get_next h)(head := Some f, l := Some b)" and p4: "get_prev h4 = (get_prev h)(f := Some head, b := Some l)"
    using 1 2 3 4 by simp_all
  have dl: "l \<notin> set us" "f \<notin> set ws" using d(1) l f by (simp, metis distinct.simps(2))
  have "butlast xs = us" "tl xs = ws" by (simp add: l, simp add: f)
  moreover have "b \<notin> set ws" "head \<notin> set us" using sep(7,8) by (simp add: f, simp add: l)
  ultimately have X4: "linked (get_next h4) (get_prev h4) xs"
    using X dl by (simp add: n4 p4 linked_next linked_prev)
  have "tl (ys @ [head]) = vs" "f \<notin> set vs"
    using b sep(1,5) by (simp, metis list.set_intros(2) Un_iff empty_iff insert_iff list.set(1) list.simps(15) set_append)
  then have Y4: "linked (get_next h4) (get_prev h4) (b # vs)"
    using Y b_in(2) sep(6) d(3) unfolding b [symmetric] by (simp add: n4 p4 linked_next linked_prev)
  have "head # (xs @ ys) @ [head] = head # us @ l # b # vs" using l b by simp
  moreover have "linked (get_next h4) (get_prev h4) (head # us @ [l])"
    using X4 sep(1,2,3) f unfolding l [symmetric] by (simp add: n4 p4)
  moreover have "get_next h4 l = Some b" "get_prev h4 b = Some l" using sep by (simp_all add: n4 p4)
  ultimately have "linked (get_next h4) (get_prev h4) (head # (xs @ ys) @ [head])"
    using linked_append [of "get_next h4" "get_prev h4" "head # us" l "b # vs"] Y4 by simp
  then have "dlist h4 head (xs @ ys)" using d disj by (auto simp: dlist_def)
  moreover have "touches (set (head # xs @ ys)) h h4"
    using touches_trans [OF touches_trans [OF touches_trans [OF 1(4) 2(4)] 3(4)] 4(4)] by (rule touches_mono) (use fl b_in in auto)
  ultimately show ?thesis using run by blast
qed

section \<open>Loops over rings\<close>

lemma walk_ring:
  assumes "linked n p (xs @ [head])" "head \<notin> set xs" "xs @ [head] = a # ys"
  shows "walk n head a = Some xs"
  using assms
proof (induction xs arbitrary: a ys)
  case Nil
  then show ?case by (simp add: walk.simps)
next
  case (Cons x xs)
  obtain c zs where c: "xs @ [head] = c # zs" by (cases "xs @ [head]") auto
  have "linked n p (x # c # zs)" using Cons.prems(1) by (simp add: c)
  then have "n x = Some c" "linked n p (xs @ [head])" unfolding c by simp_all
  then have "walk n head c = Some xs" using Cons.IH Cons.prems(2) c by simp
  then show ?case using Cons.prems \<open>n x = Some c\<close> by (subst walk.simps) simp
qed

lemma linked_rev: "linked n p (rev xs) = linked p n xs"
proof (induction xs rule: induct_list012)
  case (3 x y zs)
  have "linked n p (rev (x # y # zs)) = linked n p (rev zs @ y # [x])" by simp
  also have "\<dots> \<longleftrightarrow> linked n p (rev (y # zs)) \<and> n y = Some x \<and> p x = Some y"
    using linked_append [of n p "rev zs" y "[x]"] by simp
  finally show ?case using 3 by auto
qed simp_all

lemma for_each_ring:
  assumes "dlist h head xs"
  shows "list_for_each h head = Some xs" "list_for_each_prev h head = Some (rev xs)" "list_empty h head = Some (xs = [])"
proof -
  have d: "head \<notin> set xs" and l: "linked (get_next h) (get_prev h) (head # xs @ [head])" using assms by (auto simp: dlist_def)
  obtain a ys where a: "xs @ [head] = a # ys" by (cases "xs @ [head]") auto
  have "get_next h head = Some a" "linked (get_next h) (get_prev h) (xs @ [head])" using l by (simp_all add: a)
  then show "list_for_each h head = Some xs" using walk_ring [OF _ d a] by (simp add: list_for_each_def)
  have "a = head \<longleftrightarrow> xs = []" using a d by (cases xs) auto
  then show "list_empty h head = Some (xs = [])" using \<open>get_next h head = Some a\<close> by (simp add: list_empty_def)
  obtain b zs where b: "rev xs @ [head] = b # zs" by (cases "rev xs @ [head]") auto
  have "linked (get_prev h) (get_next h) (rev (head # xs @ [head]))" using l by (simp only: linked_rev)
  then have "get_prev h head = Some b" "linked (get_prev h) (get_next h) (rev xs @ [head])" by (simp_all add: b)
  then show "list_for_each_prev h head = Some (rev xs)" using walk_ring [OF _ _ b] d by (simp add: list_for_each_prev_def)
qed

text \<open>Taking every entry off during a safe loop leaves the list empty, and each entry a list of its own.\<close>

lemma del_init_ring:
  assumes ring: "dlist h head xs" and x: "x \<in> set xs"
  shows "\<exists>h'. list_del_init x h = Some h' \<and> dlist h' head (remove1 x xs) \<and> dlist h' x [] \<and> touches (set (head # xs)) h h'"
proof -
  obtain p n h1 where 1: "get_prev h x = Some p" "get_next h x = Some n" "list_del_between p n h = Some h1"
    "dlist h1 head (remove1 x xs)" "touches (set (head # remove1 x xs)) h h1"
    using detach_ring [OF ring x] by blast
  have "x \<in> dom h1" using dlist_dom [OF ring] x 1(5) by (auto simp: touches_def)
  then obtain h2 where 2: "INIT_LIST_HEAD x h1 = Some h2" "dlist h2 x []" "touches {x} h1 h2"
    using INIT_LIST_HEAD_ok by blast
  have "x \<notin> set (head # remove1 x xs)" using ring x by (auto simp: dlist_def)
  then have "dlist h2 head (remove1 x xs)" using 1(4) 2(3) by (intro dlist_frame [OF 1(4)]) (auto simp: touches_def)
  moreover have "touches (set (head # xs)) h h2"
    using touches_trans [OF 1(5) 2(3)] by (rule touches_mono) (use x in \<open>auto dest: notin_set_remove1\<close>)
  ultimately show ?thesis using 1 2 by (simp add: list_del_init_def)
qed

lemma safe_loop_clears:
  assumes "dlist h head xs" "xs @ [head] = pos # ys" "tl xs @ [head] = n # zs"
  shows "\<exists>h'. safe_loop list_del_init head pos n h = Some h' \<and> dlist h' head [] \<and> (\<forall>x \<in> set xs. dlist h' x []) \<and>
    touches (set (head # xs)) h h'"
  using assms
proof (induction xs arbitrary: h pos n ys zs)
  case Nil
  then show ?case by (simp add: safe_loop.simps)
next
  case (Cons x xs)
  have x: "pos = x" "xs @ [head] = n # zs" "x \<noteq> head" "x \<notin> set xs" using Cons.prems by (auto simp: dlist_def)
  obtain h1 where 1: "list_del_init x h = Some h1" "dlist h1 head xs" "dlist h1 x []" "touches (set (head # x # xs)) h h1"
    using del_init_ring [OF Cons.prems(1), of x] by auto
  obtain m us where m: "tl xs @ [head] = m # us" by (cases "tl xs @ [head]") auto
  have next_n: "\<exists>m'. get_next h1 n = Some m' \<and> (n \<noteq> head \<longrightarrow> m' = m)"
  proof (cases xs)
    case Nil
    then have "n = head" using x(2) by simp
    then show ?thesis using 1(2) Nil by (simp add: dlist_def)
  next
    case (Cons c cs)
    then have "n = c" "cs @ [head] = m # us" using x(2) m by simp_all
    moreover have "linked (get_next h1) (get_prev h1) (head # c # cs @ [head])" using 1(2) Cons by (simp add: dlist_def)
    ultimately show ?thesis by simp
  qed
  then obtain m' where m': "get_next h1 n = Some m'" "n \<noteq> head \<longrightarrow> m' = m" by blast
  obtain h2 where 2: "safe_loop list_del_init head n m h1 = Some h2" "dlist h2 head []" "\<forall>x \<in> set xs. dlist h2 x []"
    "touches (set (head # xs)) h1 h2"
    using Cons.IH [OF 1(2) x(2) m] by blast
  have "safe_loop list_del_init head n m' h1 = Some h2"
    using 2(1) m'(2) by (cases "n = head") (simp_all add: safe_loop.simps)
  then have "safe_loop list_del_init head pos n h = Some h2"
    using x(1,3) 1(1) m'(1) by (subst safe_loop.simps) simp
  moreover have "dlist h2 x []" using x(3,4) 2(4) by (intro dlist_frame [OF 1(3)]) (auto simp: touches_def)
  moreover have "touches (set (head # x # xs)) h h2"
    using touches_trans [OF 1(4) 2(4)] by (rule touches_mono) auto
  ultimately show ?case using 2(2,3) by auto
qed

lemma for_each_safe_clears:
  assumes "dlist h head xs"
  shows "\<exists>h'. list_for_each_safe list_del_init head h = Some h' \<and> dlist h' head [] \<and> (\<forall>x \<in> set xs. dlist h' x [])"
proof -
  obtain pos ys where p: "xs @ [head] = pos # ys" by (cases "xs @ [head]") auto
  obtain n zs where n: "tl xs @ [head] = n # zs" by (cases "tl xs @ [head]") auto
  have l: "linked (get_next h) (get_prev h) (head # xs @ [head])" using assms by (simp add: dlist_def)
  then have "get_next h head = Some pos" by (simp add: p)
  moreover have "\<exists>m. get_next h pos = Some m \<and> (pos \<noteq> head \<longrightarrow> m = n)"
  proof (cases xs)
    case Nil
    then show ?thesis using l p by simp
  next
    case (Cons c cs)
    then have "cs @ [head] = n # zs" "pos = c" using p n by simp_all
    then show ?thesis using l Cons by simp
  qed
  then obtain m where m: "get_next h pos = Some m" "pos \<noteq> head \<longrightarrow> m = n" by blast
  moreover obtain h' where "safe_loop list_del_init head pos n h = Some h'" "dlist h' head []" "\<forall>x \<in> set xs. dlist h' x []"
    using safe_loop_clears [OF assms p n] by blast
  moreover from this(1) m(2) have "safe_loop list_del_init head pos m h = Some h'"
    by (cases "pos = head") (simp_all add: safe_loop.simps)
  ultimately show ?thesis by (simp add: list_for_each_safe_def)
qed

section \<open>Refinement of lists of addresses\<close>

text \<open>
  The abstract state: for the head of each list its entries. Every structure is head or entry of at most
  one list (\<open>rep\<close>); structures outside \<open>members\<close> may contain anything.
\<close>

type_synonym lists = "nat \<Rightarrow> nat list option"

definition members :: "lists \<Rightarrow> nat set" where
  "members A = {q. \<exists>p xs. A p = Some xs \<and> q \<in> set (p # xs)}"

definition entries_in :: "lists \<Rightarrow> nat set" where
  "entries_in A = {q. \<exists>p xs. A p = Some xs \<and> q \<in> set xs}"

definition rep :: "memory \<Rightarrow> lists \<Rightarrow> bool" where
  "rep h A \<longleftrightarrow> (\<forall>p xs. A p = Some xs \<longrightarrow> dlist h p xs) \<and>
     (\<forall>p q xs ys. A p = Some xs \<longrightarrow> A q = Some ys \<longrightarrow> p \<noteq> q \<longrightarrow> set (p # xs) \<inter> set (q # ys) = {})"

definition take_off :: "nat \<Rightarrow> lists \<Rightarrow> lists" where
  "take_off x A = (\<lambda>p. map_option (remove1 x) (A p))"

datatype list_op = Init nat | Add nat nat | Add_tail nat nat | Del nat | Del_init nat
  | Move nat nat | Move_tail nat nat | Splice nat nat | Splice_init nat nat

fun perform_op :: "list_op \<Rightarrow> memory \<Rightarrow> memory option" where
  "perform_op (Init p) = INIT_LIST_HEAD p"
| "perform_op (Add x head) = list_add x head"
| "perform_op (Add_tail x head) = list_add_tail x head"
| "perform_op (Del x) = list_del x"
| "perform_op (Del_init x) = list_del_init x"
| "perform_op (Move x head) = list_move x head"
| "perform_op (Move_tail x head) = list_move_tail x head"
| "perform_op (Splice l head) = list_splice l head"
| "perform_op (Splice_init l head) = list_splice_init l head"

text \<open>What each operation promises, on the allocated structures \<open>D\<close>.\<close>

inductive list_step :: "nat set \<Rightarrow> list_op \<Rightarrow> lists \<Rightarrow> lists \<Rightarrow> bool" for D where
  step_init: "p \<in> D \<Longrightarrow> p \<notin> members A \<Longrightarrow> list_step D (Init p) A (A(p \<mapsto> []))"
| step_add: "A head = Some xs \<Longrightarrow> x \<in> D \<Longrightarrow> x \<notin> members A \<Longrightarrow> list_step D (Add x head) A (A(head \<mapsto> x # xs))"
| step_add_tail: "A head = Some xs \<Longrightarrow> x \<in> D \<Longrightarrow> x \<notin> members A \<Longrightarrow> list_step D (Add_tail x head) A (A(head \<mapsto> xs @ [x]))"
| step_del: "x \<in> entries_in A \<Longrightarrow> list_step D (Del x) A (take_off x A)"
| step_del_init: "x \<in> entries_in A \<Longrightarrow> list_step D (Del_init x) A ((take_off x A)(x \<mapsto> []))"
| step_move: "x \<in> entries_in A \<Longrightarrow> take_off x A head = Some xs \<Longrightarrow>
    list_step D (Move x head) A ((take_off x A)(head \<mapsto> x # xs))"
| step_move_tail: "x \<in> entries_in A \<Longrightarrow> take_off x A head = Some xs \<Longrightarrow>
    list_step D (Move_tail x head) A ((take_off x A)(head \<mapsto> xs @ [x]))"
| step_splice: "A l = Some xs \<Longrightarrow> A head = Some ys \<Longrightarrow> l \<noteq> head \<Longrightarrow>
    list_step D (Splice l head) A (if xs = [] then A else A(l := None, head \<mapsto> xs @ ys))"
| step_splice_init: "A l = Some xs \<Longrightarrow> A head = Some ys \<Longrightarrow> l \<noteq> head \<Longrightarrow>
    list_step D (Splice_init l head) A (A(l \<mapsto> [], head \<mapsto> xs @ ys))"

inductive list_run :: "nat set \<Rightarrow> list_op list \<Rightarrow> lists \<Rightarrow> lists \<Rightarrow> bool" for D where
  run_done: "list_run D [] A A"
| run_step: "list_step D op A B \<Longrightarrow> list_run D ops B C \<Longrightarrow> list_run D (op # ops) A C"

inductive_cases list_stepE: "list_step D op A B"

lemma repD: "rep h A \<Longrightarrow> A p = Some xs \<Longrightarrow> dlist h p xs"
  by (simp add: rep_def)

lemma rep_disjoint: "rep h A \<Longrightarrow> A p = Some xs \<Longrightarrow> A q = Some ys \<Longrightarrow> p \<noteq> q \<Longrightarrow> set (p # xs) \<inter> set (q # ys) = {}"
  by (simp add: rep_def)

lemma members_dom: "rep h A \<Longrightarrow> members A \<subseteq> dom h"
  using dlist_dom by (fastforce simp: members_def rep_def)

lemma membersI: "A p = Some xs \<Longrightarrow> q \<in> set (p # xs) \<Longrightarrow> q \<in> members A"
  unfolding members_def by blast

lemma members_drop:
  assumes "rep h A" "A p = Some xs"
  shows "members (A(p := None)) = members A - set (p # xs)"
proof (rule set_eqI)
  fix q
  show "q \<in> members (A(p := None)) \<longleftrightarrow> q \<in> members A - set (p # xs)"
  proof
    assume "q \<in> members (A(p := None))"
    then obtain r ys where r: "A r = Some ys" "r \<noteq> p" "q \<in> set (r # ys)" by (auto simp: members_def split: if_splits)
    then show "q \<in> members A - set (p # xs)"
      using rep_disjoint [OF assms r(1)] membersI [of A r ys q] by blast
  next
    assume q: "q \<in> members A - set (p # xs)"
    then obtain r ys where r: "A r = Some ys" "q \<in> set (r # ys)" by (auto simp: members_def)
    with q assms(2) have "r \<noteq> p" by auto
    with r show "q \<in> members (A(p := None))" by (intro membersI [of _ r ys]) simp_all
  qed
qed

lemma rep_drop: "rep h A \<Longrightarrow> rep h (A(p := None))"
  by (simp add: rep_def)

lemma rep_frame:
  assumes "rep h A" "touches T h h'" "T \<inter> members A = {}"
  shows "rep h' A"
proof -
  have "dlist h' p xs" if "A p = Some xs" for p xs
  proof (rule dlist_frame [OF repD [OF assms(1) that]])
    fix q assume "q \<in> set (p # xs)"
    then have "q \<notin> T" using membersI [of A p xs q] that assms(3) by blast
    then show "h' q = h q" using assms(2) by (simp add: touches_def)
  qed
  with assms(1) show ?thesis unfolding rep_def by blast
qed

lemma rep_new:
  assumes "rep h A" "dlist h p xs" "set (p # xs) \<inter> members A = {}"
  shows "rep h (A(p \<mapsto> xs))"
proof -
  have "set (p # xs) \<inter> set (q # ys) = {}" if "A q = Some ys" for q ys
    using assms(3) that by (fastforce simp: members_def)
  then show ?thesis using assms(1,2) unfolding rep_def by (simp add: Int_commute)
qed

lemma rep_update:
  assumes "rep h A" "A p = Some xs" "dlist h' p ys" "touches T h h'"
    and "T \<inter> members (A(p := None)) = {}" "set ys \<inter> members (A(p := None)) = {}"
  shows "rep h' (A(p \<mapsto> ys))"
proof -
  have "rep h' (A(p := None))" using rep_frame [OF rep_drop [OF assms(1)] assms(4,5)] .
  moreover have "p \<notin> members (A(p := None))" using members_drop [OF assms(1,2)] by simp
  ultimately have "rep h' ((A(p := None))(p \<mapsto> ys))" using assms(3,6) by (intro rep_new) auto
  then show ?thesis by simp
qed

lemma take_off_eq:
  assumes "rep h A" "A p = Some xs" "x \<in> set xs"
  shows "take_off x A = A(p \<mapsto> remove1 x xs)"
proof (rule ext)
  fix q
  show "take_off x A q = (A(p \<mapsto> remove1 x xs)) q"
  proof (cases "q = p")
    case False
    have "x \<notin> set ys" if "A q = Some ys" for ys
      using rep_disjoint [OF assms(1,2) that] False assms(3) by auto
    then show ?thesis using False by (cases "A q") (simp_all add: take_off_def remove1_idem)
  qed (simp add: take_off_def assms(2))
qed

lemma members_take_off:
  assumes "rep h A" "x \<in> entries_in A"
  shows "members (take_off x A) = members A - {x}"
proof -
  obtain p xs where p: "A p = Some xs" "x \<in> set xs" using assms(2) by (auto simp: entries_in_def)
  have "distinct (p # xs)" using repD [OF assms(1) p(1)] by (simp add: dlist_def)
  then have s: "set (p # remove1 x xs) = set (p # xs) - {x}" using p(2) by (auto simp: set_remove1_eq)
  have "members (A(p \<mapsto> ys)) = set (p # ys) \<union> members (A(p := None))" for ys
    by (auto simp: members_def)
  then have "members (take_off x A) = (set (p # xs) - {x}) \<union> (members A - set (p # xs))"
    unfolding take_off_eq [OF assms(1) p] s members_drop [OF assms(1) p(1), symmetric] by (simp only: s)
  also have "\<dots> = members A - {x}" using p membersI [of A p xs] by auto
  finally show ?thesis .
qed

lemma add_rep:
  assumes A: "rep h A" "A head = Some xs" and x: "x \<in> dom h" "x \<notin> members A"
  shows "\<exists>h'. list_add x head h = Some h' \<and> rep h' (A(head \<mapsto> x # xs)) \<and> dom h' = dom h"
    and "\<exists>h'. list_add_tail x head h = Some h' \<and> rep h' (A(head \<mapsto> xs @ [x])) \<and> dom h' = dom h"
proof -
  have out: "x \<notin> set (head # xs)" using x(2) membersI [of A head xs x] A(2) by blast
  note drop = members_drop [OF A]
  obtain h' where h': "list_add x head h = Some h'" "dlist h' head (x # xs)" "touches (insert x (set (head # xs))) h h'"
    using list_add_ring [OF repD [OF A] x(1) out] by blast
  have "rep h' (A(head \<mapsto> x # xs))" by (rule rep_update [OF A h'(2,3)]) (use x(2) drop in auto)
  with h' show "\<exists>h'. list_add x head h = Some h' \<and> rep h' (A(head \<mapsto> x # xs)) \<and> dom h' = dom h"
    by (auto simp: touches_def)
  obtain h2 where h2: "list_add_tail x head h = Some h2" "dlist h2 head (xs @ [x])" "touches (insert x (set (head # xs))) h h2"
    using list_add_tail_ring [OF repD [OF A] x(1) out] by blast
  have "rep h2 (A(head \<mapsto> xs @ [x]))" by (rule rep_update [OF A h2(2,3)]) (use x(2) drop in auto)
  with h2 show "\<exists>h'. list_add_tail x head h = Some h' \<and> rep h' (A(head \<mapsto> xs @ [x])) \<and> dom h' = dom h"
    by (auto simp: touches_def)
qed

lemma detach_rep:
  assumes A: "rep h A" and x: "x \<in> entries_in A"
  shows "\<exists>p n h'. get_prev h x = Some p \<and> get_next h x = Some n \<and> list_del_between p n h = Some h' \<and>
    rep h' (take_off x A) \<and> dom h' = dom h \<and> x \<in> dom h \<and> x \<notin> members (take_off x A)"
proof -
  obtain head xs where p: "A head = Some xs" "x \<in> set xs" using x by (auto simp: entries_in_def)
  obtain pr n h' where h': "get_prev h x = Some pr" "get_next h x = Some n" "list_del_between pr n h = Some h'"
    "dlist h' head (remove1 x xs)" "touches (set (head # remove1 x xs)) h h'"
    using detach_ring [OF repD [OF A p(1)] p(2)] by blast
  have "rep h' (A(head \<mapsto> remove1 x xs))"
    by (rule rep_update [OF A p(1) h'(4,5)]) (use members_drop [OF A p(1)] in \<open>auto dest: notin_set_remove1\<close>)
  moreover have "x \<in> dom h" using members_dom [OF A] membersI [of A head xs x] p by auto
  ultimately show ?thesis
    using h' members_take_off [OF A x] take_off_eq [OF A p] by (auto simp: touches_def)
qed

lemma splice_rep:
  assumes A: "rep h A" "A l = Some xs" "A head = Some ys" "l \<noteq> head" "xs \<noteq> []"
  shows "\<exists>h'. list_splice_between l head h = Some h' \<and> rep h' (A(l := None, head \<mapsto> xs @ ys)) \<and> dom h' = dom h \<and>
    l \<notin> members (A(l := None, head \<mapsto> xs @ ys)) \<and> l \<in> dom h"
proof -
  obtain h' where h': "list_splice_between l head h = Some h'" "dlist h' head (xs @ ys)" "touches (set (head # xs @ ys)) h h'"
    using splice_ring [OF repD [OF A(1,2)] repD [OF A(1,3)] A(5) rep_disjoint [OF A(1-4)]] by blast
  let ?B = "A(l := None)"
  have B: "rep h ?B" "?B head = Some ys" using rep_drop [OF A(1)] A(3,4) by simp_all
  have m: "members (?B(head := None)) = members A - set (l # xs) - set (head # ys)"
    unfolding members_drop [OF B] members_drop [OF A(1,2)] ..
  have rep: "rep h' (?B(head \<mapsto> xs @ ys))" 
    by (rule rep_update [OF B h'(2,3)]; unfold m; auto)
  have "members (?B(head \<mapsto> xs @ ys)) = set (head # xs @ ys) \<union> members (?B(head := None))" by (auto simp: members_def)
  moreover have "l \<notin> set (head # xs @ ys)"
    using rep_disjoint [OF A(1-4)] repD [OF A(1,2)] by (auto simp: dlist_def)
  ultimately have "l \<notin> members (?B(head \<mapsto> xs @ ys))" using m by simp
  moreover have "l \<in> dom h" using members_dom [OF A(1)] membersI [of A l xs l] A(2) by auto
  ultimately show ?thesis using h' rep by (auto simp: touches_def)
qed

lemma init_rep:
  assumes "rep h A" "p \<in> dom h" "p \<notin> members A"
  shows "\<exists>h'. INIT_LIST_HEAD p h = Some h' \<and> rep h' (A(p \<mapsto> [])) \<and> dom h' = dom h"
proof -
  obtain h' where h': "INIT_LIST_HEAD p h = Some h'" "dlist h' p []" "touches {p} h h'"
    using INIT_LIST_HEAD_ok [OF assms(2)] by blast
  have "rep h' A" by (rule rep_frame [OF assms(1) h'(3)]) (use assms(3) in simp)
  then have "rep h' (A(p \<mapsto> []))" by (rule rep_new [OF _ h'(2)]) (use assms(3) in simp)
  with h' show ?thesis by (auto simp: touches_def)
qed

lemma poison_rep:
  assumes "rep h A" "x \<in> dom h" "x \<notin> members A"
  shows "\<exists>h1 h2. set_next x v h = Some h1 \<and> set_prev x w h1 = Some h2 \<and> rep h2 A \<and> dom h2 = dom h"
proof -
  obtain h1 where 1: "set_next x v h = Some h1" "touches {x} h h1" using set_next_ok [OF assms(2)] by blast
  have "x \<in> dom h1" using assms(2) 1(2) by (simp add: touches_def)
  then obtain h2 where 2: "set_prev x w h1 = Some h2" "touches {x} h1 h2" using set_prev_ok by blast
  have "rep h2 A"
    by (rule rep_frame [OF rep_frame [OF assms(1) 1(2)] 2(2)]) (use assms(3) in simp_all)
  with 1 2 show ?thesis by (simp add: touches_def)
qed

lemma step_refines:
  assumes "list_step D op A A'" and "rep h A" and "D = dom h"
  shows "\<exists>h'. perform_op op h = Some h' \<and> rep h' A' \<and> dom h' = dom h"
  using assms
proof (induction rule: list_step.induct)
  case (step_init p A)
  then show ?case using init_rep [of h A p] unfolding perform_op.simps by blast
next
  case (step_add A head xs x)
  then show ?case using add_rep(1) [of h A head xs x] unfolding perform_op.simps by blast
next
  case (step_add_tail A head xs x)
  then show ?case using add_rep(2) [of h A head xs x] unfolding perform_op.simps by blast
next
  case (step_del x A)
  obtain p n h1 where 1: "get_prev h x = Some p" "get_next h x = Some n" "list_del_between p n h = Some h1"
    "rep h1 (take_off x A)" "dom h1 = dom h" "x \<in> dom h" "x \<notin> members (take_off x A)"
    using detach_rep [OF step_del(2,1)] by blast
  obtain h2 h3 where 2: "set_next x LIST_POISON1 h1 = Some h2" "set_prev x LIST_POISON2 h2 = Some h3"
    "rep h3 (take_off x A)" "dom h3 = dom h1"
    using poison_rep [OF 1(4) _ 1(7)] 1(5,6) by metis
  have "list_del x h = Some h3" "dom h3 = dom h" using 1 2 by (simp_all add: list_del_def)
  with 2(3) show ?case unfolding perform_op.simps by blast
next
  case (step_del_init x A)
  obtain p n h1 where 1: "get_prev h x = Some p" "get_next h x = Some n" "list_del_between p n h = Some h1"
    "rep h1 (take_off x A)" "dom h1 = dom h" "x \<in> dom h" "x \<notin> members (take_off x A)"
    using detach_rep [OF step_del_init(2,1)] by blast
  obtain h2 where 2: "INIT_LIST_HEAD x h1 = Some h2" "rep h2 ((take_off x A)(x \<mapsto> []))" "dom h2 = dom h1"
    using init_rep [OF 1(4) _ 1(7)] 1(5,6) by metis
  have "list_del_init x h = Some h2" "dom h2 = dom h" using 1 2 by (simp_all add: list_del_init_def)
  with 2(2) show ?case unfolding perform_op.simps by blast
next
  case (step_move x A head xs)
  obtain p n h1 where 1: "get_prev h x = Some p" "get_next h x = Some n" "list_del_between p n h = Some h1"
    "rep h1 (take_off x A)" "dom h1 = dom h" "x \<in> dom h" "x \<notin> members (take_off x A)"
    using detach_rep [OF step_move(3,1)] by blast
  obtain h2 where 2: "list_add x head h1 = Some h2" "rep h2 ((take_off x A)(head \<mapsto> x # xs))" "dom h2 = dom h1"
    using add_rep(1) [OF 1(4) step_move(2) _ 1(7)] 1(5,6) by metis
  have "list_move x head h = Some h2" "dom h2 = dom h" using 1 2 by (simp_all add: list_move_def)
  with 2(2) show ?case unfolding perform_op.simps by blast
next
  case (step_move_tail x A head xs)
  obtain p n h1 where 1: "get_prev h x = Some p" "get_next h x = Some n" "list_del_between p n h = Some h1"
    "rep h1 (take_off x A)" "dom h1 = dom h" "x \<in> dom h" "x \<notin> members (take_off x A)"
    using detach_rep [OF step_move_tail(3,1)] by blast
  obtain h2 where 2: "list_add_tail x head h1 = Some h2" "rep h2 ((take_off x A)(head \<mapsto> xs @ [x]))" "dom h2 = dom h1"
    using add_rep(2) [OF 1(4) step_move_tail(2) _ 1(7)] 1(5,6) by metis
  have "list_move_tail x head h = Some h2" "dom h2 = dom h" using 1 2 by (simp_all add: list_move_tail_def)
  with 2(2) show ?case unfolding perform_op.simps by blast
next
  case (step_splice A l xs head ys)
  note e = for_each_ring(3) [OF repD [OF step_splice(4,1)]]
  show ?case
  proof (cases "xs = []")
    case False
    obtain h1 where 1: "list_splice_between l head h = Some h1" "rep h1 (A(l := None, head \<mapsto> xs @ ys))" "dom h1 = dom h"
      using splice_rep [OF step_splice(4,1,2,3) False] by blast
    have "list_splice l head h = Some h1" using 1(1) e False by (simp add: list_splice_def)
    with 1 show ?thesis unfolding perform_op.simps if_not_P [OF False] by blast
  qed (use step_splice(4) e in \<open>simp add: list_splice_def\<close>)
next
  case (step_splice_init A l xs head ys)
  note e = for_each_ring(3) [OF repD [OF step_splice_init(4,1)]]
  show ?case
  proof (cases "xs = []")
    case True
    then have "A(l \<mapsto> [], head \<mapsto> xs @ ys) = A" using step_splice_init(1,2) by (simp add: map_upd_triv)
    then show ?thesis using step_splice_init(4) e True by (simp add: list_splice_init_def)
  next
    case False
    let ?B = "A(l := None, head \<mapsto> xs @ ys)"
    obtain h1 where 1: "list_splice_between l head h = Some h1" "rep h1 ?B" "dom h1 = dom h" "l \<notin> members ?B" "l \<in> dom h"
      using splice_rep [OF step_splice_init(4,1,2,3) False] by blast
    have "?B(l \<mapsto> []) = A(l \<mapsto> [], head \<mapsto> xs @ ys)" using step_splice_init(3) by (auto simp: fun_eq_iff)
    then obtain h2 where 2: "INIT_LIST_HEAD l h1 = Some h2" "rep h2 (A(l \<mapsto> [], head \<mapsto> xs @ ys))" "dom h2 = dom h1"
      using init_rep [OF 1(2) _ 1(4)] 1(3,5) by metis
    have "list_splice_init l head h = Some h2" "dom h2 = dom h" using 1 2 e False by (simp_all add: list_splice_init_def)
    with 2(2) show ?thesis unfolding perform_op.simps by blast
  qed
qed

lemma run_refines:
  "list_run D ops A A' \<Longrightarrow> rep h A \<Longrightarrow> D = dom h \<Longrightarrow> \<exists>h'. for_in ops perform_op h = Some h' \<and> rep h' A' \<and> dom h' = dom h"
proof (induction arbitrary: h rule: list_run.induct)
  case (run_step op A B ops C)
  obtain h1 where 1: "perform_op op h = Some h1" "rep h1 B" "dom h1 = dom h"
    using step_refines [OF run_step.hyps(1) run_step.prems] by blast
  have "D = dom h1" using 1(3) run_step.prems(2) by simp
  from run_step.IH [OF 1(2) this] obtain h2 where "for_in ops perform_op h1 = Some h2" "rep h2 C" "dom h2 = dom h1" by blast
  then show ?case using 1 by simp
qed simp

lemma step_to: "list_step D op A B \<Longrightarrow> B = C \<Longrightarrow> list_step D op A C"
  by simp

text \<open>C14. The pointer operations of \<open>list.h\<close> implement lists of addresses. From any memory in which every
  structure is in at most one ring, a run of operations that an abstract machine on lists allows (an entry
  that is added is in no list, one that is deleted or moved is in some list, the lists of a splice
  differ) touches no unallocated structure, and afterwards each loop over a list visits exactly the
  entries that the abstract machine has in it, forwards and backwards.\<close>

theorem list_ops_refine:
  assumes "rep h A" and "list_run (dom h) ops A A'"
  shows "\<exists>h'. for_in ops perform_op h = Some h' \<and> rep h' A' \<and> dom h' = dom h \<and>
    (\<forall>head xs. A' head = Some xs \<longrightarrow> list_for_each h' head = Some xs \<and> list_for_each_prev h' head = Some (rev xs) \<and>
      list_empty h' head = Some (xs = []))"
proof -
  obtain h' where "for_in ops perform_op h = Some h'" "rep h' A'" "dom h' = dom h"
    using run_refines [OF assms(2,1) refl] by blast
  moreover have "list_for_each h' head = Some xs \<and> list_for_each_prev h' head = Some (rev xs) \<and> list_empty h' head = Some (xs = [])"
    if "A' head = Some xs" for head xs
    using for_each_ring [OF repD [OF \<open>rep h' A'\<close> that]] by blast
  ultimately show ?thesis by blast
qed

theorem list_ops_refine_witness:
  "\<exists>h'. for_in [Init 1, Init 2, Add 5 1, Add_tail 7 1, Add 8 2, Move 5 2, Del 7] perform_op
      (\<lambda>p. if p < 9 then Some \<lparr>next_of = 0, prev_of = 99\<rparr> else None) = Some h' \<and>
    list_for_each h' 2 = Some [5, 8] \<and> list_empty h' 1 = Some True"
proof -
  let ?h = "\<lambda>p. if p < 9 then Some \<lparr>next_of = 0, prev_of = 99\<rparr> else None"
  define N where "N = (\<lambda>_ :: nat. None :: nat list option)"
  have D: "dom ?h = {p. p < 9}" by (auto split: if_splits)
  have rep: "rep ?h N" by (simp add: rep_def N_def)
  note [simp] = members_def N_def D
  let ?A = "N(1 \<mapsto> [])" and ?B = "N(1 \<mapsto> [], 2 \<mapsto> [])" and ?C = "N(1 \<mapsto> [5], 2 \<mapsto> [])" and ?D = "N(1 \<mapsto> [5, 7], 2 \<mapsto> [])"
  let ?E = "N(1 \<mapsto> [5, 7], 2 \<mapsto> [8])" and ?F = "N(1 \<mapsto> [7], 2 \<mapsto> [5, 8])" and ?G = "N(1 \<mapsto> [], 2 \<mapsto> [5, 8])"
  have 1: "list_step (dom ?h) (Init 1) N ?A" by (rule step_init) auto
  have 2: "list_step (dom ?h) (Init 2) ?A ?B" by (rule step_init) auto
  have 3: "list_step (dom ?h) (Add 5 1) ?B ?C" by (rule step_to, rule step_add [of _ _ "[]"]) (auto split: if_splits)
  have 4: "list_step (dom ?h) (Add_tail 7 1) ?C ?D" by (rule step_to, rule step_add_tail [of _ _ "[5]"]) (auto split: if_splits)
  have 5: "list_step (dom ?h) (Add 8 2) ?D ?E" by (rule step_to, rule step_add [of _ _ "[]"]) (auto split: if_splits)
  have 6: "list_step (dom ?h) (Move 5 2) ?E ?F"
    by (rule step_to, rule step_move [of _ _ _ "[8]"]) (auto simp: entries_in_def take_off_def)
  have 7: "list_step (dom ?h) (Del 7) ?F ?G"
    by (rule step_to, rule step_del) (auto simp: entries_in_def take_off_def)
  have "list_run (dom ?h) [Init 1, Init 2, Add 5 1, Add_tail 7 1, Add 8 2, Move 5 2, Del 7] N ?G"
    by (rule run_step [OF 1 run_step [OF 2 run_step [OF 3 run_step [OF 4 run_step [OF 5 run_step [OF 6 run_step [OF 7 run_done]]]]]]])
  from list_ops_refine [OF rep this] show ?thesis by auto
qed

end
