(* ===== verification/Rs_List.thy ===== *)
theory Rs_List imports Rs_Codec List_Head begin

text \<open>
  The list of control structures in memory: \<open>init_rs_internal\<close> and \<open>free_rs\<close> of \<open>reed_solomon.c\<close> on the
  pointers of \<open>list.h\<close>. \<open>Reed_Solomon\<close> has the list \<open>rslist\<close> as a list of addresses; here it is a ring of
  \<open>struct list_head\<close> members, \<open>off\<close> bytes inside each structure, around the static head. The two agree.
\<close>

record rs_memory =
  structs :: "nat \<Rightarrow> rs_control option"
  nodes :: memory
  locked :: bool

text \<open>The search of \<open>init_rs_internal\<close>: \<open>list_for_each\<close> with \<open>list_entry\<close>, left at the first match.\<close>

partial_function (option) find_node ::
  "(rs_control \<Rightarrow> bool) \<Rightarrow> rs_memory \<Rightarrow> nat \<Rightarrow> nat \<Rightarrow> nat \<Rightarrow> nat option option" where
  "find_node P c off head pos =
     (if pos = head then Some None
      else do {
        rs \<leftarrow> structs c (list_entry off pos);
        if P rs then Some (Some (list_entry off pos))
        else do { n \<leftarrow> get_next (nodes c) pos; find_node P c off head n } })"

text \<open>\<open>garbage\<close> is what the memory of a new structure holds.\<close>

definition init_rs_memory ::
  "(nat \<Rightarrow> bool) \<Rightarrow> (nat \<Rightarrow> nat \<Rightarrow> u16) \<Rightarrow> list_head \<Rightarrow> (nat \<Rightarrow> int \<Rightarrow> int) \<Rightarrow> nat \<Rightarrow> nat \<Rightarrow> nat \<Rightarrow>
   int \<Rightarrow> int \<Rightarrow> nat option \<Rightarrow> int \<Rightarrow> int \<Rightarrow> int \<Rightarrow> rs_memory \<Rightarrow> (nat option \<times> rs_memory) option" where
  "init_rs_memory malloc junk garbage call off head fresh symsize poly func fcr0 prim0 nroots0 c =
     (let c = c\<lparr>locked := False\<rparr> in
      if symsize < 1 then Some (None, c)
      else do {
        check (symsize < 31);
        let size = push_bit (nat symsize) 1;
        if fcr0 < 0 \<or> fcr0 \<ge> size then Some (None, c)
        else if prim0 \<le> 0 \<or> prim0 \<ge> size then Some (None, c)
        else if nroots0 < 0 \<or> nroots0 \<ge> size then Some (None, c)
        else do {
          check (\<not> locked c);
          let c = c\<lparr>locked := True\<rparr>;
          tmp \<leftarrow> get_next (nodes c) head;
          found \<leftarrow> find_node (rs_matches symsize poly func fcr0 prim0 nroots0) c off head tmp;
          case found of
            Some p \<Rightarrow> do {
              rs \<leftarrow> structs c p;
              Some (Some p, c\<lparr>structs := (structs c)(p := Some (rs\<lparr>users := users rs + 1\<rparr>)), locked := False\<rparr>) }
          | None \<Rightarrow> do {
              r \<leftarrow> rs_init malloc junk call symsize poly func fcr0 prim0 nroots0;
              case r of
                None \<Rightarrow> Some (None, c\<lparr>locked := False\<rparr>)
              | Some rs \<Rightarrow> do {
                  h \<leftarrow> INIT_LIST_HEAD (fresh + off) ((nodes c)(fresh + off \<mapsto> garbage));
                  h \<leftarrow> list_add (fresh + off) head h;
                  Some (Some fresh, c\<lparr>structs := (structs c)(fresh := Some (rs\<lparr>users := 1\<rparr>)), nodes := h, locked := False\<rparr>) } } } })"

definition free_rs_memory :: "nat \<Rightarrow> nat \<Rightarrow> rs_memory \<Rightarrow> rs_memory option" where
  "free_rs_memory off p c = do {
     check (\<not> locked c);
     rs \<leftarrow> structs c p;
     let rs = rs\<lparr>users := users rs - 1\<rparr>;
     if users rs = 0
     then do {
       h \<leftarrow> list_del (p + off) (nodes c);
       Some (c\<lparr>structs := (structs c)(p := None), nodes := h(p + off := None), locked := False\<rparr>) }
     else Some (c\<lparr>structs := (structs c)(p := Some rs), locked := False\<rparr>) }"

section \<open>The agreement\<close>

definition stands_for :: "nat \<Rightarrow> nat \<Rightarrow> rs_memory \<Rightarrow> rs_state \<Rightarrow> bool" where
  "stands_for off head c st \<longleftrightarrow> structs c = objs st \<and> locked c = rslock st \<and>
     dlist (nodes c) head (map (\<lambda>p. p + off) (rslist st))"

lemma find_node_eq:
  assumes "linked (get_next (nodes c)) pv (map (\<lambda>p. p + off) ps @ [head])" "head \<notin> set (map (\<lambda>p. p + off) ps)"
    and "map (\<lambda>p. p + off) ps @ [head] = pos # ys"
  shows "find_node P c off head pos = find_rs P (structs c) ps"
  using assms
proof (induction ps arbitrary: pos ys)
  case Nil
  then show ?case by (simp add: find_node.simps)
next
  case (Cons p ps)
  obtain n zs where n: "map (\<lambda>p. p + off) ps @ [head] = n # zs" by (cases "map (\<lambda>p. p + off) ps @ [head]") auto
  have pos: "pos = p + off" "pos \<noteq> head" using Cons.prems by auto
  have "linked (get_next (nodes c)) pv (pos # n # zs)" using Cons.prems(1) by (simp add: n pos(1))
  then have l: "get_next (nodes c) pos = Some n" "linked (get_next (nodes c)) pv (map (\<lambda>p. p + off) ps @ [head])"
    unfolding n by simp_all
  have "find_node P c off head n = find_rs P (structs c) ps" using Cons.IH [OF l(2) _ n] Cons.prems(2) by simp
  then show ?case using l(1) pos(2) unfolding pos(1)
    by (subst find_node.simps, cases "structs c p") (simp_all add: list_entry_def)
qed

lemma search_agrees:
  assumes "stands_for off head c st"
  shows "do { tmp \<leftarrow> get_next (nodes c) head; find_node P (c\<lparr>locked := b\<rparr>) off head tmp } = find_rs P (objs st) (rslist st)"
proof -
  let ?xs = "map (\<lambda>p. p + off) (rslist st)"
  have d: "dlist (nodes c) head ?xs" and s: "structs c = objs st" using assms by (simp_all add: stands_for_def)
  obtain pos ys where pos: "?xs @ [head] = pos # ys" by (cases "?xs @ [head]") auto
  have l: "linked (get_next (nodes c)) (get_prev (nodes c)) (head # ?xs @ [head])" "head \<notin> set ?xs"
    using d by (simp_all add: dlist_def)
  then have "get_next (nodes c) head = Some pos" "linked (get_next (nodes c)) (get_prev (nodes c)) (?xs @ [head])"
    by (simp_all add: pos)
  then show ?thesis
    using find_node_eq [of "c\<lparr>locked := b\<rparr>" "get_prev (nodes c)" off "rslist st" head pos ys P] l(2) pos s by simp
qed

lemma new_node:
  assumes d: "dlist h head xs" and x: "x \<notin> set (head # xs)"
  shows "\<exists>h1 h2. INIT_LIST_HEAD x (h(x \<mapsto> garbage)) = Some h1 \<and> list_add x head h1 = Some h2 \<and> dlist h2 head (x # xs)"
proof -
  obtain h1 where 1: "INIT_LIST_HEAD x (h(x \<mapsto> garbage)) = Some h1" "touches {x} (h(x \<mapsto> garbage)) h1"
    using INIT_LIST_HEAD_ok [of x "h(x \<mapsto> garbage)"] by auto
  have "dlist h1 head xs" by (rule dlist_frame [OF d]) (use x 1(2) in \<open>auto simp: touches_def\<close>)
  moreover have "x \<in> dom h1" using 1(2) by (simp add: touches_def)
  ultimately show ?thesis using list_add_ring [of h1 head xs x] x 1(1) by blast
qed

lemma deleted_node:
  assumes d: "dlist h head xs" and x: "x \<in> set xs"
  shows "\<exists>h'. list_del x h = Some h' \<and> dlist (h'(x := None)) head (remove1 x xs)"
proof -
  obtain p n h1 where 1: "get_prev h x = Some p" "get_next h x = Some n" "list_del_between p n h = Some h1"
    "dlist h1 head (remove1 x xs)" "touches (set (head # remove1 x xs)) h h1"
    using detach_ring [OF d x] by blast
  have out: "x \<notin> set (head # remove1 x xs)" using d x by (auto simp: dlist_def)
  have "x \<in> dom h1" using dlist_dom [OF d] x 1(5) by (auto simp: touches_def)
  then obtain h2 where 2: "set_next x LIST_POISON1 h1 = Some h2" "touches {x} h1 h2" using set_next_ok by blast
  have "x \<in> dom h2" using \<open>x \<in> dom h1\<close> 2(2) by (simp add: touches_def)
  then obtain h3 where 3: "set_prev x LIST_POISON2 h2 = Some h3" "touches {x} h2 h3" using set_prev_ok by blast
  have "dlist (h3(x := None)) head (remove1 x xs)"
    by (rule dlist_frame [OF 1(4)]) (use out 2(2) 3(2) in \<open>auto simp: touches_def\<close>)
  then show ?thesis using 1(1-3) 2(1) 3(1) by (simp add: list_del_def)
qed

lemma init_agrees:
  assumes c: "stands_for off head c st" and fresh: "fresh \<notin> set (rslist st)" "fresh + off \<noteq> head"
    and run: "init_rs_internal malloc junk call fresh m p func fcr0 prim0 nroots0 st = Some (ptr, st')"
  shows "\<exists>c'. init_rs_memory malloc junk garbage call off head fresh m p func fcr0 prim0 nroots0 c = Some (ptr, c') \<and>
    stands_for off head c' st'"
proof (cases "args_ok m fcr0 prim0 nroots0")
  case False
  have "ptr = None" "st' = mutex_init st" using init_bad_args [OF False run] by simp_all
  moreover have "init_rs_memory malloc junk garbage call off head fresh m p func fcr0 prim0 nroots0 c = Some (None, c\<lparr>locked := False\<rparr>)"
    using False run by (auto simp: init_rs_memory_def init_rs_internal_def args_ok_def Let_def check_def split: if_splits)
  ultimately show ?thesis using c by (simp add: stands_for_def mutex_init_def)
next
  case True
  let ?P = "rs_matches m p func fcr0 prim0 nroots0"
  let ?xs = "map (\<lambda>p. p + off) (rslist st)"
  obtain found where found: "find_rs ?P (objs st) (rslist st) = Some found"
    using run unfolding init_good_args [OF True] by (auto elim: bindE)
  have s: "structs c = objs st" "dlist (nodes c) head ?xs" using c by (simp_all add: stands_for_def)
  obtain tmp where tmp: "get_next (nodes c) head = Some tmp" "find_node ?P (c\<lparr>locked := True\<rparr>) off head tmp = Some found"
    using search_agrees [OF c, of ?P True] found by (auto elim: bindE)
  have good: "\<not> m < 1" "m < 31" "\<not> (fcr0 < 0 \<or> push_bit (nat m) 1 \<le> fcr0)" "\<not> (prim0 \<le> 0 \<or> push_bit (nat m) 1 \<le> prim0)"
    "\<not> (nroots0 < 0 \<or> push_bit (nat m) 1 \<le> nroots0)"
    using True by (auto simp: args_ok_def)
  note mem = init_rs_memory_def [of malloc junk garbage call off head fresh m p func fcr0 prim0 nroots0 c]
  show ?thesis
  proof (cases found)
    case (Some q)
    then obtain rs where rs: "objs st q = Some rs" "ptr = Some q"
      "st' = st\<lparr>objs := (objs st)(q := Some (rs\<lparr>users := users rs + 1\<rparr>)), rslock := False\<rparr>"
      using run found unfolding init_good_args [OF True] by (auto elim: bindE)
    then show ?thesis using tmp good Some s unfolding mem by (simp add: stands_for_def)
  next
    case None
    then obtain r where r: "rs_init malloc junk call m p func fcr0 prim0 nroots0 = Some r"
      using run found unfolding init_good_args [OF True] by (auto elim: bindE)
    show ?thesis
    proof (cases r)
      case None': None
      then have "ptr = None" "st' = st\<lparr>rslock := False\<rparr>"
        using run found r None unfolding init_good_args [OF True] by simp_all
      then show ?thesis using tmp good None None' r s unfolding mem by (simp add: stands_for_def)
    next
      case (Some rs)
      then have st': "ptr = Some fresh" "st' = st\<lparr>objs := (objs st)(fresh := Some (rs\<lparr>users := 1\<rparr>)), rslist := fresh # rslist st, rslock := False\<rparr>"
        using run found r None unfolding init_good_args [OF True] by simp_all
      have "fresh + off \<notin> set (head # ?xs)" using fresh by auto
      then obtain h1 h2 where "INIT_LIST_HEAD (fresh + off) ((nodes c)(fresh + off \<mapsto> garbage)) = Some h1"
        "list_add (fresh + off) head h1 = Some h2" "dlist h2 head ((fresh + off) # ?xs)"
        using new_node [OF s(2), of "fresh + off" garbage] by blast
      then show ?thesis using tmp good None Some r s st' unfolding mem by (simp add: stands_for_def)
    qed
  qed
qed

lemma free_agrees:
  assumes c: "stands_for off head c st" and p: "p \<in> set (rslist st)" and run: "free_rs p st = Some st'"
  shows "\<exists>c'. free_rs_memory off p c = Some c' \<and> stands_for off head c' st'"
proof -
  let ?xs = "map (\<lambda>p. p + off) (rslist st)"
  have s: "structs c = objs st" "dlist (nodes c) head ?xs" "locked c = rslock st" using c by (simp_all add: stands_for_def)
  obtain rs where rs: "objs st p = Some rs" "\<not> rslock st"
    using run by (auto simp: free_rs_def mutex_lock_def elim!: bindE split: if_splits)
  show ?thesis
  proof (cases "users rs = 1")
    case True
    have "p + off \<in> set ?xs" using p by simp
    then obtain h where h: "list_del (p + off) (nodes c) = Some h" "dlist (h(p + off := None)) head (remove1 (p + off) ?xs)"
      using deleted_node [OF s(2)] by blast
    have "remove1 (p + off) (map (\<lambda>p. p + off) ps) = map (\<lambda>p. p + off) (remove1 p ps)" for ps
      by (induction ps) auto
    then have "stands_for off head (c\<lparr>structs := (structs c)(p := None), nodes := h(p + off := None), locked := False\<rparr>) st'"
      using run rs True s h by (auto simp: free_rs_def mutex_lock_def mutex_unlock_def stands_for_def Let_def)
    then show ?thesis using rs True s h(1) by (simp add: free_rs_memory_def Let_def)
  next
    case False
    then show ?thesis using run rs s
      by (auto simp: free_rs_def free_rs_memory_def mutex_lock_def mutex_unlock_def stands_for_def Let_def)
  qed
qed

text \<open>C13. The pointer list of the control structures implements the list of addresses. Whatever state of
  the library its operations can leave, with the ring in memory in agreement with it: \<open>init_rs_internal\<close>
  on the ring returns the same pointer and \<open>free_rs\<close> succeeds whenever its structure is allocated; both
  access allocated structures only, and leave a ring that agrees with the new state.\<close>

theorem rs_list_in_memory:
  assumes "rs_inv st" and "stands_for off head c st"
  shows "(\<forall>fresh ptr st'. objs st fresh = None \<longrightarrow> fresh + off \<noteq> head \<longrightarrow>
      init_rs_internal malloc junk call fresh m p func fcr0 prim0 nroots0 st = Some (ptr, st') \<longrightarrow>
      (\<exists>c'. init_rs_memory malloc junk garbage call off head fresh m p func fcr0 prim0 nroots0 c = Some (ptr, c') \<and>
        stands_for off head c' st' \<and> rs_inv st')) \<and>
    (\<forall>q. objs st q \<noteq> None \<longrightarrow>
      (\<exists>st' c'. free_rs q st = Some st' \<and> free_rs_memory off q c = Some c' \<and> stands_for off head c' st' \<and> rs_inv st'))"
proof (intro conjI allI impI)
  fix fresh ptr st'
  assume f: "objs st fresh = None" "fresh + off \<noteq> head"
    and run: "init_rs_internal malloc junk call fresh m p func fcr0 prim0 nroots0 st = Some (ptr, st')"
  have "fresh \<notin> set (rslist st)" using assms(1) f(1) by (auto simp: rs_inv_def)
  from init_agrees [OF assms(2) this f(2) run] init_inv [OF assms(1) f(1) run]
  show "\<exists>c'. init_rs_memory malloc junk garbage call off head fresh m p func fcr0 prim0 nroots0 c = Some (ptr, c') \<and>
    stands_for off head c' st' \<and> rs_inv st'" by blast
next
  fix q assume "objs st q \<noteq> None"
  then obtain rs where rs: "objs st q = Some rs" by auto
  obtain st' where st': "free_rs q st = Some st'" "rs_inv st'" using free_inv [OF assms(1) rs] by blast
  have "q \<in> set (rslist st)" using assms(1) rs by (auto simp: rs_inv_def)
  from free_agrees [OF assms(2) this st'(1)] st'
  show "\<exists>st' c'. free_rs q st = Some st' \<and> free_rs_memory off q c = Some c' \<and> stands_for off head c' st' \<and> rs_inv st'" by blast
qed

theorem rs_list_in_memory_witness:
  "\<exists>c c'. init_rs_memory (\<lambda>_. True) (\<lambda>_ _. 3) \<lparr>next_of = 7, prev_of = 7\<rparr> (\<lambda>_ x. x) 16 1000 40 8 0x187 None 0 1 32
      \<lparr>structs = \<lambda>_. None, nodes = (\<lambda>_. None)(1000 \<mapsto> \<lparr>next_of = 1000, prev_of = 1000\<rparr>), locked = False\<rparr> = Some (Some 40, c) \<and>
    list_for_each (nodes c) 1000 = Some [56] \<and> free_rs_memory 16 40 c = Some c' \<and> list_for_each (nodes c') 1000 = Some []"
proof -
  let ?c = "\<lparr>structs = \<lambda>_. None, nodes = (\<lambda>_. None)(1000 \<mapsto> \<lparr>next_of = 1000, prev_of = 1000\<rparr>), locked = False\<rparr>"
  have c: "stands_for 16 1000 ?c rs_empty" by (simp add: stands_for_def rs_empty_def dlist_def access_eq)
  have args: "args_ok 8 0 1 32" by (simp add: args_ok_def)
  obtain rs where "rs_init (\<lambda>_. True) (\<lambda>_ _. 3) (\<lambda>_ x. x) 8 0x187 None 0 1 32 = Some (Some rs)"
    using rs_init_eq [of 8 "0x187" 32 0 1 1 "\<lambda>_. True" "\<lambda>_ _. 3" "\<lambda>_ x. x" None] primitive_0x187
    by (auto simp: find_iprim_1)
  then obtain st where st: "init_rs_internal (\<lambda>_. True) (\<lambda>_ _. 3) (\<lambda>_ x. x) 40 8 0x187 None 0 1 32 rs_empty = Some (Some 40, st)"
    "rslist st = [40]" "objs st 40 = Some (rs\<lparr>users := 1\<rparr>)"
    by (simp add: init_good_args [OF args] rs_empty_def)
  have f: "objs rs_empty 40 = None" "(40 :: nat) + 16 \<noteq> 1000" by (simp_all add: rs_empty_def)
  obtain c where 1: "init_rs_memory (\<lambda>_. True) (\<lambda>_ _. 3) \<lparr>next_of = 7, prev_of = 7\<rparr> (\<lambda>_ x. x) 16 1000 40 8 0x187 None 0 1 32 ?c = Some (Some 40, c)"
    "stands_for 16 1000 c st" "rs_inv st"
    using conjunct1 [OF rs_list_in_memory [OF rs_inv_empty c], rule_format, OF f st(1), of "\<lparr>next_of = 7, prev_of = 7\<rparr>"] by blast
  obtain st' c' where 2: "free_rs 40 st = Some st'" "free_rs_memory 16 40 c = Some c'" "stands_for 16 1000 c' st'"
    using conjunct2 [OF rs_list_in_memory [OF 1(3,2)], rule_format, of 40] st(3) by auto
  have "rslist st' = []"
    using 2(1) st(2,3) 1(3) by (auto simp: free_rs_def mutex_lock_def mutex_unlock_def rs_inv_def Let_def)
  then have "list_for_each (nodes c) 1000 = Some [56]" "list_for_each (nodes c') 1000 = Some []"
    using 1(2) 2(3) st(2) for_each_ring(1) by (simp_all add: stands_for_def)
  with 1(1) 2(2) show ?thesis by blast
qed

end
