(* ===== verification/Utils.thy ===== *)
theory Utils imports Prelude begin

text \<open>
  \<open>utils.h\<close> and \<open>utils.cc\<close>: statistics without storing the values, random strings, transaction ids, and
  IPv4 addresses as text. The random generator of Crypto++ and the addresses of boost are parameters; the
  functions that only call Crypto++'s filters or read the clock are left out.
\<close>

section \<open>Stats\<close>

text \<open>\<open>Stats<int>\<close>. A sum outside the range of \<open>int\<close> is undefined behaviour.\<close>

definition in_int :: "int \<Rightarrow> bool" where
  "in_int x \<longleftrightarrow> - (2 ^ 31) \<le> x \<and> x < 2 ^ 31"

record stats =
  size_of :: u64
  min_of :: int
  max_of :: int
  sum_of :: int

definition Stats_new :: stats where
  "Stats_new = \<lparr>size_of = 0, min_of = 0, max_of = 0, sum_of = 0\<rparr>"

definition Stats_Add :: "int \<Rightarrow> stats \<Rightarrow> stats option" where
  "Stats_Add value s = do {
     check (in_int (sum_of s + value));
     let s = s\<lparr>sum_of := sum_of s + value, size_of := size_of s + 1\<rparr>;
     if size_of s = 1 then Some (s\<lparr>min_of := value, max_of := value\<rparr>)
     else do {
       let s = (if value < min_of s then s\<lparr>min_of := value\<rparr> else s);
       Some (if value > max_of s then s\<lparr>max_of := value\<rparr> else s) } }"

text \<open>\<open>sum_ / size_\<close>: the sum is converted to the unsigned type of the size, the quotient back to \<open>int\<close>.\<close>

definition Stats_Mean :: "stats \<Rightarrow> int" where
  "Stats_Mean s = (if size_of s > 0 then sint (ucast ((word_of_int (sum_of s) :: u64) div size_of s) :: u32) else 0)"

section \<open>Random numbers and strings\<close>

text \<open>
  \<open>rand_num k\<close> is the number that the generator gives at the \<open>k\<close>-th attempt, \<open>convertible\<close> Crypto++'s
  \<open>IsConvertableToLong\<close>.
\<close>

partial_function (option) RandomInt32 :: "(nat \<Rightarrow> int) \<Rightarrow> (int \<Rightarrow> bool) \<Rightarrow> nat \<Rightarrow> u32 option" where
  "RandomInt32 rand_num convertible k =
     (if convertible (rand_num k) then Some (word_of_int \<bar>rand_num k\<bar>)
      else RandomInt32 rand_num convertible (Suc k))"

definition RandomUint32 :: "(nat \<Rightarrow> int) \<Rightarrow> (int \<Rightarrow> bool) \<Rightarrow> nat \<Rightarrow> u32 option" where
  "RandomUint32 rand_num convertible k = RandomInt32 rand_num convertible k"

text \<open>\<open>block k n\<close> are the \<open>n\<close> bytes that the \<open>k\<close>-th call of \<open>GenerateBlock\<close> writes.\<close>

partial_function (option) random_blocks :: "(nat \<Rightarrow> nat \<Rightarrow> byte list) \<Rightarrow> nat \<Rightarrow> nat \<Rightarrow> byte list \<Rightarrow> byte list option" where
  "random_blocks block len k random_string =
     (if length random_string < len then
        let iter_length = min (len - length random_string) 65536 in
        random_blocks block len (Suc k) (random_string @ block k iter_length)
      else Some random_string)"

definition RandomString :: "(nat \<Rightarrow> nat \<Rightarrow> byte list) \<Rightarrow> nat \<Rightarrow> byte list option" where
  "RandomString block len = random_blocks block len 0 []"

text \<open>The three corrections; a \<open>char\<close> is signed, \<open>*it + 128\<close> an \<open>int\<close> that is not negative.\<close>

definition alphanumeric_char :: "byte \<Rightarrow> byte" where
  "alphanumeric_char c =
     (let x = (sint c + 128) mod 122;
          x = (if 48 > x then x + 48 else x);
          x = (if 57 < x \<and> 65 > x then x + 7 else x);
          x = (if 90 < x \<and> 97 > x then x + 6 else x)
      in word_of_int x)"

definition RandomAlphaNumericString :: "(nat \<Rightarrow> nat \<Rightarrow> byte list) \<Rightarrow> nat \<Rightarrow> byte list option" where
  "RandomAlphaNumericString block len = map_option (map alphanumeric_char) (RandomString block len)"

definition GenerateNextTransactionId :: "(nat \<Rightarrow> int) \<Rightarrow> (int \<Rightarrow> bool) \<Rightarrow> u32 \<Rightarrow> u32 option" where
  "GenerateNextTransactionId rand_num convertible ident =
     (let kMaxId = 2147483645 in
      if ident = 0 then do { r \<leftarrow> RandomUint32 rand_num convertible 0; Some (r mod kMaxId + 1) }
      else Some (ident mod kMaxId + 1))"

section \<open>Addresses\<close>

text \<open>Boost's address of either version, its parser (which may throw) and its printer.\<close>

datatype ip_address = V4 "byte list" | V6 "byte list"

definition IpAsciiToBytes :: "(byte list \<Rightarrow> ip_address option) \<Rightarrow> byte list \<Rightarrow> byte list" where
  "IpAsciiToBytes from_string decimal_ip =
     (case from_string decimal_ip of Some (V4 addr) \<Rightarrow> addr | Some (V6 addr) \<Rightarrow> addr | None \<Rightarrow> [])"

definition IpBytesToAscii :: "(ip_address \<Rightarrow> byte list) \<Rightarrow> byte list \<Rightarrow> byte list" where
  "IpBytesToAscii to_string bytes_ip =
     (if length bytes_ip = 4 then to_string (V4 bytes_ip)
      else if length bytes_ip = 16 then to_string (V6 bytes_ip) else [])"

text \<open>\<open>%u\<close>, and \<open>snprintf\<close> with a text that is already formatted: at most \<open>n - 1\<close> characters and a null.\<close>

fun print_u :: "nat \<Rightarrow> byte list" where
  "print_u n = (if n < 10 then [word_of_nat (48 + n)] else print_u (n div 10) @ [word_of_nat (48 + n mod 10)])"

declare print_u.simps [simp del]

definition snprintf :: "byte list \<Rightarrow> nat \<Rightarrow> byte list \<Rightarrow> byte list option" where
  "snprintf buf n str = do {
     let out = take (n - 1) str @ [0];
     check (length out \<le> length buf);
     Some (out @ drop (length out) buf) }"

definition octet :: "u32 \<Rightarrow> nat \<Rightarrow> nat" where
  "octet address shift = unat (drop_bit shift address AND 0xFF)"

definition dotted :: "u32 \<Rightarrow> byte list" where
  "dotted a = print_u (octet a 24) @ 46 # print_u (octet a 16) @ 46 # print_u (octet a 8) @ 46 # print_u (octet a 0)"

definition IpNetToAscii :: "u32 \<Rightarrow> byte list \<Rightarrow> byte list option" where
  "IpNetToAscii address ip_buffer = (let sizer = 15 in snprintf ip_buffer sizer (dotted address))"

text \<open>\<open>atoi\<close>: white space, a sign, digits; a number that is too large is undefined behaviour.\<close>

definition is_digit :: "byte \<Rightarrow> bool" where
  "is_digit c \<longleftrightarrow> 48 \<le> c \<and> c \<le> 57"

definition is_space :: "byte \<Rightarrow> bool" where
  "is_space c \<longleftrightarrow> c = 32 \<or> 9 \<le> c \<and> c \<le> 13"

fun digits :: "nat \<Rightarrow> byte list \<Rightarrow> nat option" where
  "digits acc [] = None"
| "digits acc (c # cs) =
     (if is_digit c then do { let v = acc * 10 + (unat c - 48); check (v < 2 ^ 31); digits v cs } else Some acc)"

fun atoi :: "byte list \<Rightarrow> int option" where
  "atoi [] = None"
| "atoi (c # cs) =
     (if is_space c then atoi cs
      else if c = 45 then map_option (\<lambda>v. - int v) (digits 0 cs)
      else if c = 43 then map_option int (digits 0 cs)
      else map_option int (digits 0 (c # cs)))"

fun parse_quads :: "byte list \<Rightarrow> int \<Rightarrow> bool \<Rightarrow> u32 \<Rightarrow> u32 option" where
  "parse_quads [] shift startQuad ret = (if shift \<ge> 0 then None else Some ret)"
| "parse_quads (c # cs) shift startQuad ret =
     (if shift \<ge> 0 \<and> c \<noteq> 0 then do {
        (shift, ret) \<leftarrow>
          (if startQuad then do {
             v \<leftarrow> atoi (c # cs);
             let quad = (word_of_int v :: byte);
             Some (shift - 8, ret OR push_bit (nat shift) (ucast quad)) }
           else Some (shift, ret));
        parse_quads cs shift (c = 46) ret }
      else Some ret)"

definition IpAsciiToNet :: "byte list \<Rightarrow> u32 option" where
  "IpAsciiToNet buffer = parse_quads buffer 24 True 0"

section \<open>The statistics\<close>

lemma unat_nat: "n < 2 ^ LENGTH('a) \<Longrightarrow> unat (word_of_nat n :: 'a::len word) = n"
  by (simp add: unsigned_of_nat take_bit_nat_eq_self)

lemma stats_run:
  assumes "\<And>k. k \<le> length xs \<Longrightarrow> in_int (sum_list (take k xs))" and "length xs < 2 ^ 64" "xs \<noteq> []"
  shows "for_in xs Stats_Add Stats_new = Some \<lparr>size_of = word_of_nat (length xs), min_of = Min (set xs), max_of = Max (set xs), sum_of = sum_list xs\<rparr>"
  using assms
proof (induction xs rule: rev_induct)
  case (snoc x xs)
  have sum: "in_int (sum_list xs + x)" using snoc.prems(1) [of "Suc (length xs)"] by simp
  show ?case
  proof (cases "xs = []")
    case True
    then show ?thesis using sum by (simp add: Stats_Add_def Stats_new_def Let_def)
  next
    case False
    have pre: "in_int (sum_list (take k xs))" if "k \<le> length xs" for k using snoc.prems(1) [of k] that by simp
    have len: "length xs < 2 ^ 64" "length xs + 1 < 2 ^ 64" using snoc.prems(2) by simp_all
    have u: "unat (word_of_nat (length xs) + 1 :: u64) = length xs + 1"
      using unat_nat [of "length xs + 1", where ?'a = 64] len(2) by (simp only: of_nat_add of_nat_1 len_of_numeral_defs) simp
    have size: "(word_of_nat (length xs) + 1 :: u64) \<noteq> 1"
    proof
      assume "(word_of_nat (length xs) + 1 :: u64) = 1"
      then have "unat (word_of_nat (length xs) + 1 :: u64) = unat (1 :: u64)" by (rule arg_cong)
      then show False using u False by simp
    qed
    have mm: "Min (insert x (set xs)) = min x (Min (set xs))" "Max (insert x (set xs)) = max x (Max (set xs))"
      using False by simp_all
    show ?thesis
      using snoc.IH [OF pre len(1) False] sum size
      by (auto simp: for_in_append Stats_Add_def Let_def mm min_def max_def add.commute)
  qed
qed simp

section \<open>Strings and ids\<close>

definition alnum :: "byte \<Rightarrow> bool" where
  "alnum c \<longleftrightarrow> 48 \<le> c \<and> c \<le> 57 \<or> 65 \<le> c \<and> c \<le> 90 \<or> 97 \<le> c \<and> c \<le> 122"

lemma alphanumeric_value:
  fixes s :: int
  assumes "- 128 \<le> s" "s < 128"
  defines "x \<equiv> (let x = (s + 128) mod 122; x = (if 48 > x then x + 48 else x); x = (if 57 < x \<and> 65 > x then x + 7 else x)
      in if 90 < x \<and> 97 > x then x + 6 else x)"
  shows "48 \<le> x \<and> x \<le> 57 \<or> 65 \<le> x \<and> x \<le> 90 \<or> 97 \<le> x \<and> x \<le> 121"
proof -
  have "0 \<le> (s + 128) mod 122" "(s + 128) mod 122 \<le> 121" using pos_mod_bound [of 122 "s + 128"] by simp_all
  then show ?thesis unfolding x_def Let_def by (auto split: if_splits)
qed

lemma byte_of_int_le:
  assumes "0 \<le> a" "a < 256" "0 \<le> b" "b < 256"
  shows "(word_of_int a :: byte) \<le> word_of_int b \<longleftrightarrow> a \<le> b"
  using assms by (simp add: word_le_def uint_word_of_int)

lemma alphanumeric_char_alnum: "alnum (alphanumeric_char c) \<and> alphanumeric_char c \<noteq> 122"
proof -
  have "- 128 \<le> sint c" "sint c < 128" using sint_greater_eq [of c] sint_less [of c] by simp_all
  note range = alphanumeric_value [OF this]
  define x where "x = (let x = (sint c + 128) mod 122; x = (if 48 > x then x + 48 else x); x = (if 57 < x \<and> 65 > x then x + 7 else x)
      in if 90 < x \<and> 97 > x then x + 6 else x)"
  have c: "alphanumeric_char c = word_of_int x" by (simp add: alphanumeric_char_def x_def Let_def)
  have r: "48 \<le> x \<and> x \<le> 57 \<or> 65 \<le> x \<and> x \<le> 90 \<or> 97 \<le> x \<and> x \<le> 121" using range unfolding x_def .
  then have u: "uint (word_of_int x :: byte) = x" by (auto simp: uint_word_of_int)
  then have "word_of_int x \<noteq> (122 :: byte)" using r by auto
  then show ?thesis using r u unfolding c alnum_def by (auto simp: word_le_def)
qed

lemma random_blocks_spec:
  assumes "\<And>k n. length (block k n) = n" and "length s \<le> len"
  shows "\<exists>out. random_blocks block len k s = Some out \<and> length out = len \<and> take (length s) out = s"
  using assms(2)
proof (induction "len - length s" arbitrary: k s rule: less_induct)
  case less
  show ?case
  proof (cases "length s < len")
    case True
    let ?s = "s @ block k (min (len - length s) 65536)"
    have "len - length ?s < len - length s" "length ?s \<le> len" using True assms(1) by auto
    then obtain out where out: "random_blocks block len (Suc k) ?s = Some out" "length out = len" "take (length ?s) out = ?s"
      using less.hyps by blast
    have "take (length s) (take (length ?s) out) = take (length s) ?s" using out(3) by simp
    then have "take (length s) out = s" by (simp add: min_def)
    with True out show ?thesis by (subst random_blocks.simps) (simp add: Let_def)
  next
    case False
    with less.prems show ?thesis by (simp add: random_blocks.simps)
  qed
qed

section \<open>Texts of addresses\<close>

lemma digit_char: "d < 10 \<Longrightarrow> is_digit (word_of_nat (48 + d)) \<and> unat (word_of_nat (48 + d) :: byte) = 48 + d"
proof -
  assume "d < 10"
  then have "unat (word_of_nat (48 + d) :: byte) = 48 + d" by (intro unat_nat) simp
  then show ?thesis using \<open>d < 10\<close> by (simp add: is_digit_def word_le_nat_alt)
qed

lemma digit_step: "d < 10 \<Longrightarrow> u * 10 + d < 2 ^ 31 \<Longrightarrow> digits u (word_of_nat (48 + d) # ys) = digits (u * 10 + d) ys"
  using digit_char [of d] by (simp add: Let_def check_def)

lemma digits_print:
  "acc * 10 ^ length (print_u n) + n < 2 ^ 31 \<Longrightarrow> digits acc (print_u n @ ys) = digits (acc * 10 ^ length (print_u n) + n) ys"
proof (induction n arbitrary: ys rule: print_u.induct)
  case (1 n)
  show ?case
  proof (cases "n < 10")
    case True
    then have p: "print_u n = [word_of_nat (48 + n)]" by (simp add: print_u.simps)
    show ?thesis using 1(2) digit_char [OF True] unfolding p by (simp add: Let_def check_def)
  next
    case False
    have p: "print_u n = print_u (n div 10) @ [word_of_nat (48 + n mod 10)]" using False by (subst print_u.simps) simp
    let ?k = "length (print_u (n div 10))"
    have eq: "(acc * 10 ^ ?k + n div 10) * 10 + n mod 10 = acc * 10 ^ length (print_u n) + n"
      unfolding p by (simp add: algebra_simps)
    have small: "acc * 10 ^ ?k + n div 10 < 2 ^ 31" using 1(2) unfolding eq [symmetric]
      by (rule le_less_trans [rotated]) simp
    have d: "n mod 10 < 10" by simp
    have "digits acc (print_u n @ ys) = digits (acc * 10 ^ ?k + n div 10) (word_of_nat (48 + n mod 10) # ys)"
      unfolding p using 1(1) [OF False small] by simp
    also have "\<dots> = digits ((acc * 10 ^ ?k + n div 10) * 10 + n mod 10) ys"
      by (rule digit_step [OF d]) (use 1(2) in \<open>simp only: eq\<close>)
    finally show ?thesis unfolding eq .
  qed
qed

lemma print_u_digits: "\<forall>c \<in> set (print_u n). is_digit c"
proof (induction n rule: print_u.induct)
  case (1 n)
  then show ?case using digit_char [of n] digit_char [of "n mod 10"] by (subst print_u.simps) auto
qed

lemma print_u_ne: "print_u n \<noteq> []"
  by (subst print_u.simps) simp

lemma print_u_length:
  shows "n < 10 \<Longrightarrow> length (print_u n) = 1" and "10 \<le> n \<Longrightarrow> n < 100 \<Longrightarrow> length (print_u n) = 2"
    and "100 \<le> n \<Longrightarrow> n < 1000 \<Longrightarrow> length (print_u n) = 3"
proof -
  have step: "\<not> n < 10 \<Longrightarrow> length (print_u n) = Suc (length (print_u (n div 10)))" for n by (subst print_u.simps) simp
  show one: "n < 10 \<Longrightarrow> length (print_u n) = 1" for n by (subst print_u.simps) simp
  show two: "10 \<le> n \<Longrightarrow> n < 100 \<Longrightarrow> length (print_u n) = 2" for n using step [of n] one [of "n div 10"] by simp
  assume n: "100 \<le> n" "n < 1000"
  then have "10 \<le> n div 10" "n div 10 < 100" by auto
  then show "length (print_u n) = 3" using step [of n] two [of "n div 10"] n(1) by simp
qed

lemma digit_facts: "is_digit c \<Longrightarrow> \<not> is_space c \<and> c \<noteq> 45 \<and> c \<noteq> 43 \<and> c \<noteq> 0 \<and> c \<noteq> 46"
  by (auto simp: is_digit_def is_space_def word_le_def)

lemma atoi_print:
  assumes "n < 2 ^ 31" "\<not> is_digit c"
  shows "atoi (print_u n @ c # ys) = Some (int n)"
proof -
  obtain d ds where p: "print_u n = d # ds" using print_u_ne [of n] by (cases "print_u n") auto
  have "is_digit d" using print_u_digits [of n] p by simp
  then have "atoi (print_u n @ c # ys) = map_option int (digits 0 (print_u n @ c # ys))"
    unfolding p using digit_facts by simp
  also have "digits 0 (print_u n @ c # ys) = Some n"
    using digits_print [of 0 n "c # ys"] assms by simp
  finally show ?thesis by simp
qed

lemma parse_digits:
  assumes "\<forall>c \<in> set ds. is_digit c" "0 \<le> shift"
  shows "parse_quads (ds @ ys) shift False ret = parse_quads ys shift False ret"
  using assms(1)
proof (induction ds)
  case (Cons d ds)
  then have "d \<noteq> 0" "d \<noteq> 46" using digit_facts by auto
  with Cons assms(2) show ?case by simp
qed simp

lemma parse_after_last: "shift < 0 \<Longrightarrow> parse_quads xs shift b ret = Some ret"
  by (cases xs) simp_all

text \<open>One number and the character behind it.\<close>

lemma parse_number:
  assumes n: "n < 256" and shift: "0 \<le> shift" and c: "c = 46 \<or> c = 0"
  shows "parse_quads (print_u n @ c # ys) shift True ret =
    parse_quads (c # ys) (shift - 8) False (ret OR push_bit (nat shift) (word_of_nat n))"
proof -
  obtain d ds where p: "print_u n = d # ds" using print_u_ne [of n] by (cases "print_u n") auto
  have dig: "is_digit d" "\<forall>c \<in> set ds. is_digit c" using print_u_digits [of n] p by simp_all
  have "\<not> is_digit c" using c by (auto simp: is_digit_def word_le_def)
  then have at: "atoi (d # ds @ c # ys) = Some (int n)" using atoi_print [of n c ys] n unfolding p by simp
  have q: "ucast (word_of_int (int n) :: byte) = (word_of_nat n :: u32)"
    using n take_bit_nat_eq_self [of n 32] take_bit_nat_eq_self [of n 8] by (simp add: word_unat_eq_iff unat_nat unsigned_ucast_eq)
  have "parse_quads (print_u n @ c # ys) shift True ret =
      parse_quads (ds @ c # ys) (shift - 8) False (ret OR push_bit (nat shift) (word_of_nat n))"
    using at shift digit_facts [OF dig(1)] q unfolding p by simp
  also have "\<dots> = parse_quads (c # ys) (shift - 8) False (ret OR push_bit (nat shift) (word_of_nat n))"
  proof (cases "shift - 8 < 0")
    case True
    then show ?thesis by (simp only: parse_after_last)
  next
    case False
    then show ?thesis using parse_digits [OF dig(2)] by simp
  qed
  finally show ?thesis .
qed

lemma parse_dot: "0 \<le> shift \<Longrightarrow> parse_quads (46 # cs) shift False ret = parse_quads cs shift True ret"
  by simp

lemma parse_dotted:
  assumes "p < 256" "q < 256" "r < 256" "s < 256"
  shows "parse_quads (print_u p @ 46 # print_u q @ 46 # print_u r @ 46 # print_u s @ 0 # rest) 24 True 0 =
    Some (push_bit 24 (word_of_nat p) OR push_bit 16 (word_of_nat q) OR push_bit 8 (word_of_nat r) OR word_of_nat s)"
  using assms by (simp add: parse_number parse_dot parse_after_last or.assoc del: parse_quads.simps)

lemma octet_word: "word_of_nat (octet a k) = (drop_bit k a AND 255 :: u32)"
  by (simp add: octet_def)

lemma octet_less: "octet a k < 256"
proof -
  have "(drop_bit k a AND 255 :: u32) = take_bit 8 (drop_bit k a)"
    using take_bit_eq_mask [of 8 "drop_bit k a"] by (simp add: mask_eq_exp_minus_1)
  then show ?thesis unfolding octet_def using take_bit_nat_less_exp [of 8 "unat (drop_bit k a)"]
    by (simp add: unsigned_take_bit_eq)
qed

lemma octets_join:
  "push_bit 24 (drop_bit 24 a AND 255) OR push_bit 16 (drop_bit 16 a AND 255) OR push_bit 8 (drop_bit 8 a AND 255) OR (drop_bit 0 a AND 255) = (a :: u32)"
  "push_bit 24 (drop_bit 24 a AND 255) OR push_bit 16 (drop_bit 16 a AND 255) OR push_bit 8 (drop_bit 8 a AND 255) = (a AND 0xFFFFFF00 :: u32)"
proof -
  have m: "(255 :: u32) = mask 8" "(0xFFFFFF00 :: u32) = NOT (mask 8)" by (simp_all add: mask_eq_exp_minus_1)
  have four: "n < 8 \<or> 8 \<le> n \<and> n < 16 \<or> 16 \<le> n \<and> n < 24 \<or> 24 \<le> n" for n :: nat by linarith
  show "push_bit 24 (drop_bit 24 a AND 255) OR push_bit 16 (drop_bit 16 a AND 255) OR push_bit 8 (drop_bit 8 a AND 255) OR (drop_bit 0 a AND 255) = a"
    unfolding m
  proof (rule bit_word_eqI)
    fix n assume "n < LENGTH(32)"
    then show "bit (push_bit 24 (drop_bit 24 a AND mask 8) OR push_bit 16 (drop_bit 16 a AND mask 8) OR push_bit 8 (drop_bit 8 a AND mask 8) OR (drop_bit 0 a AND mask 8)) n = bit a n"
      using four [of n] by (elim disjE conjE) (auto simp: bit_simps)
  qed
  show "push_bit 24 (drop_bit 24 a AND 255) OR push_bit 16 (drop_bit 16 a AND 255) OR push_bit 8 (drop_bit 8 a AND 255) = (a AND 0xFFFFFF00)"
    unfolding m
  proof (rule bit_word_eqI)
    fix n assume "n < LENGTH(32)"
    then show "bit (push_bit 24 (drop_bit 24 a AND mask 8) OR push_bit 16 (drop_bit 16 a AND mask 8) OR push_bit 8 (drop_bit 8 a AND mask 8)) n = bit (a AND NOT (mask 8)) n"
      using four [of n] by (elim disjE conjE) (auto simp: bit_simps)
  qed
qed

lemma dotted_length:
  "length (dotted a) = length (print_u (octet a 24)) + length (print_u (octet a 16)) + length (print_u (octet a 8)) + length (print_u (octet a 0)) + 3"
  by (simp add: dotted_def)

lemma octet_length: "length (print_u (octet a k)) \<le> 3 \<and> (length (print_u (octet a k)) = 3 \<longrightarrow> 100 \<le> octet a k)"
  using print_u_length [of "octet a k"] octet_less [of a k]
  by (cases "octet a k < 10"; cases "octet a k < 100") auto

lemma snprintf_15:
  assumes "15 \<le> length buf"
  shows "\<exists>rest. IpNetToAscii a buf = Some (take 14 (dotted a) @ 0 # rest)"
  using assms by (simp add: IpNetToAscii_def snprintf_def check_def)

text \<open>C34. An address that is printed and parsed again is the same address, as long as its text has at most
  14 characters. A text of 15 characters (four numbers of three digits) does not fit the buffer size that
  \<open>IpNetToAscii\<close> gives to \<open>snprintf\<close>: its last digit is cut off, and the address that is read back has a
  tenth of the last number.\<close>

theorem IpNet_roundtrip:
  assumes "15 \<le> length buf"
  shows "\<exists>text. IpNetToAscii a buf = Some text \<and> length text = length buf \<and> length (dotted a) \<le> 15 \<and>
    IpAsciiToNet text = Some (if length (dotted a) = 15 then (a AND 0xFFFFFF00) OR word_of_nat (octet a 0 div 10) else a)"
proof -
  obtain rest where t: "IpNetToAscii a buf = Some (take 14 (dotted a) @ 0 # rest)" using snprintf_15 [OF assms] by blast
  have len: "length (dotted a) \<le> 15"
    using octet_length [of a 24] octet_length [of a 16] octet_length [of a 8] octet_length [of a 0] dotted_length [of a] by linarith
  have size: "length (take 14 (dotted a) @ 0 # rest) = length buf"
    using t assms by (auto simp: IpNetToAscii_def snprintf_def check_def split: if_splits)
  have parse: "parse_quads (print_u (octet a 24) @ 46 # print_u (octet a 16) @ 46 # print_u (octet a 8) @ 46 # print_u s @ 0 # rest) 24 True 0 =
      Some (push_bit 24 (drop_bit 24 a AND 255) OR push_bit 16 (drop_bit 16 a AND 255) OR push_bit 8 (drop_bit 8 a AND 255) OR word_of_nat s)"
    if "s < 256" for s
    using parse_dotted [OF octet_less octet_less octet_less that] by (simp only: octet_word)
  show ?thesis
  proof (cases "length (dotted a) = 15")
    case True
    have "length (print_u (octet a 0)) = 3"
      using True octet_length [of a 24] octet_length [of a 16] octet_length [of a 8] octet_length [of a 0] dotted_length [of a] by linarith
    then have "\<not> octet a 0 < 10" using octet_length [of a 0] by simp
    then have "print_u (octet a 0) = print_u (octet a 0 div 10) @ [word_of_nat (48 + octet a 0 mod 10)]"
      by (subst print_u.simps) simp
    define Z where "Z = print_u (octet a 24) @ 46 # print_u (octet a 16) @ 46 # print_u (octet a 8) @ 46 # print_u (octet a 0 div 10)"
    have snoc: "dotted a = Z @ [word_of_nat (48 + octet a 0 mod 10)]" unfolding Z_def using \<open>print_u (octet a 0) = _\<close>
      by (simp add: dotted_def)
    then have "length Z = 14" using True by simp
    then have "take 14 (dotted a) = Z" by (simp add: snoc)
    moreover have "octet a 0 div 10 < 256" using octet_less [of a 0] by linarith
    ultimately have "IpAsciiToNet (take 14 (dotted a) @ 0 # rest) = Some ((a AND 0xFFFFFF00) OR word_of_nat (octet a 0 div 10))"
      using parse [of "octet a 0 div 10"] octets_join(2) [of a] by (simp only: IpAsciiToNet_def Z_def append.assoc append_Cons or.assoc [symmetric])
    then show ?thesis using t size len True by simp
  next
    case False
    then have "take 14 (dotted a) = dotted a" using len by simp
    then have "IpAsciiToNet (take 14 (dotted a) @ 0 # rest) = Some a"
      using parse [OF octet_less [of a 0]] octets_join(1) [of a]
      by (simp only: IpAsciiToNet_def dotted_def append.assoc append_Cons octet_word)
    then show ?thesis using t size len False by simp
  qed
qed

lemma print_u_exec [exec_simps]: "print_u (numeral k) = (if numeral k < (10 :: nat) then [word_of_nat (48 + numeral k)]
    else print_u (numeral k div 10) @ [word_of_nat (48 + numeral k mod 10)])" "print_u 0 = [48]" "print_u (Suc 0) = [49]"
  by (simp_all add: print_u.simps)

theorem IpNet_roundtrip_witness:
  "(\<exists>text. IpNetToAscii 0xC0A80114 (replicate 32 0) = Some text \<and> IpAsciiToNet text = Some 0xC0A80114) \<and>
   (\<exists>text. IpNetToAscii 0xC0A864C8 (replicate 32 0) = Some text \<and> IpAsciiToNet text = Some 0xC0A86414)"
proof -
  have "length (dotted 0xC0A80114) = 12" "length (dotted 0xC0A864C8) = 15" "octet 0xC0A864C8 0 = 200"
    by (simp_all add: dotted_def octet_def exec_simps)
  then show ?thesis
    using IpNet_roundtrip [of "replicate 32 0" "0xC0A80114"] IpNet_roundtrip [of "replicate 32 0" "0xC0A864C8"] by auto
qed

text \<open>C35. \<open>RandomAlphaNumericString\<close> returns, and its string has the requested length and only digits and
  letters, whatever bytes the generator gives. The letter z never appears; every other digit and letter
  does for some byte.\<close>

theorem RandomAlphaNumericString_alphanumeric:
  assumes "\<And>k n. length (block k n) = n"
  shows "\<exists>out. RandomAlphaNumericString block len = Some out \<and> length out = len \<and> list_all alnum out \<and> 122 \<notin> set out \<and>
    (\<forall>c. alnum c \<and> c \<noteq> 122 \<longrightarrow> (\<exists>b. alphanumeric_char b = c))"
proof -
  obtain out where out: "random_blocks block len 0 [] = Some out" "length out = len"
    using random_blocks_spec [of block "[]" len 0] assms by auto
  have "list_all alnum (map alphanumeric_char out)" "122 \<notin> set (map alphanumeric_char out)"
    using alphanumeric_char_alnum by (auto simp: list_all_iff)
  moreover have "\<exists>b. alphanumeric_char b = c" if c: "alnum c" "c \<noteq> 122" for c
  proof -
    define u where "u = uint c"
    have u: "48 \<le> u \<and> u \<le> 57 \<or> 65 \<le> u \<and> u \<le> 90 \<or> 97 \<le> u \<and> u \<le> 122" "u \<noteq> 122" "word_of_int u = c"
      using c by (auto simp: u_def alnum_def word_le_def word_uint_eq_iff)
    have "sint (word_of_int v :: byte) = v" if "- 128 \<le> v" "v < 128" for v
      using that by (simp add: signed_of_int signed_take_bit_int_eq_self)
    from this [of "u - 128"] have "sint (word_of_int (u - 128) :: byte) = u - 128" using u(1) by auto
    then have "alphanumeric_char (word_of_int (u - 128)) = word_of_int u"
      using u(1,2) by (auto simp: alphanumeric_char_def Let_def)
    then show ?thesis using u(3) by metis
  qed
  ultimately show ?thesis
    using out by (intro exI [of _ "map alphanumeric_char out"]) (simp add: RandomAlphaNumericString_def RandomString_def)
qed

theorem RandomAlphaNumericString_alphanumeric_witness:
  "\<exists>out. RandomAlphaNumericString (\<lambda>k n. replicate n (word_of_nat k)) 3 = Some out \<and> length out = 3 \<and> list_all alnum out"
  using RandomAlphaNumericString_alphanumeric [of "\<lambda>k n. replicate n (word_of_nat k)" 3] by auto

text \<open>The ids stay between 1 and 2147483645 and follow each other in a cycle: a given id is increased by 1,
  the last one is followed by 1, and the first is random. The header promises 2147483646 as the last id,
  which is never produced.\<close>

lemma GenerateNextTransactionId_bounds:
  assumes "convertible (rand_num k)"
  shows "\<exists>r. GenerateNextTransactionId rand_num convertible ident = Some r \<and> 1 \<le> r \<and> r \<le> 2147483645 \<and>
    (ident \<noteq> 0 \<longrightarrow> ident < 2147483645 \<longrightarrow> r = ident + 1) \<and> (ident = 2147483645 \<longrightarrow> r = 1)"
proof -
  have first: "\<exists>r. RandomInt32 rand_num convertible j = Some r" if "j \<le> k" for j
    using that
  proof (induction rule: inc_induct)
    case base
    then show ?case using assms by (simp add: RandomInt32.simps)
  next
    case (step n)
    then show ?case by (subst RandomInt32.simps) simp
  qed
  have range: "1 \<le> x mod 2147483645 + 1 \<and> x mod 2147483645 + 1 \<le> (2147483645 :: u32)" for x :: u32
  proof -
    have "unat (x mod 2147483645) < 2147483645" by (simp add: unat_mod_distrib)
    moreover from this have "unat (x mod 2147483645 + 1) = unat (x mod 2147483645) + 1" by (subst unat_add_lem [THEN iffD1]) simp_all
    ultimately show ?thesis by (simp add: word_le_nat_alt)
  qed
  show ?thesis
  proof (cases "ident = 0")
    case True
    obtain r where "RandomInt32 rand_num convertible 0 = Some r" using first by blast
    then show ?thesis using True range [of r] by (simp add: GenerateNextTransactionId_def RandomUint32_def Let_def)
  next
    case False
    have "ident mod 2147483645 = ident" if "ident < 2147483645"
      using that by (simp add: word_unat_eq_iff unat_mod_distrib word_less_nat_alt)
    then show ?thesis using False range [of ident] by (simp add: GenerateNextTransactionId_def Let_def)
  qed
qed

text \<open>\<open>Stats<int>\<close> computes number, minimum, maximum and sum of the values that were added, as long as no
  sum of the first values overflows, and the mean, rounded down, when the sum is not negative.\<close>

lemma Stats_correct:
  assumes "\<And>k. k \<le> length xs \<Longrightarrow> in_int (sum_list (take k xs))" and "length xs < 2 ^ 64" "xs \<noteq> []"
  shows "\<exists>s. for_in xs Stats_Add Stats_new = Some s \<and> size_of s = word_of_nat (length xs) \<and> min_of s = Min (set xs) \<and>
    max_of s = Max (set xs) \<and> sum_of s = sum_list xs \<and> (0 \<le> sum_list xs \<longrightarrow> Stats_Mean s = sum_list xs div int (length xs))"
proof -
  let ?s = "\<lparr>size_of = word_of_nat (length xs), min_of = Min (set xs), max_of = Max (set xs), sum_of = sum_list xs\<rparr>"
  have "Stats_Mean ?s = sum_list xs div int (length xs)" if pos: "0 \<le> sum_list xs"
  proof -
    let ?m = "sum_list xs div int (length xs)"
    have lt: "sum_list xs < 2 ^ 31" using assms(1) [of "length xs"] by (simp add: in_int_def)
    have n: "uint (word_of_nat (length xs) :: u64) = int (length xs)"
      using take_bit_int_eq_self [of "int (length xs)" 64] assms(2) by (simp add: unsigned_of_nat take_bit_of_nat)
    have su: "uint (word_of_int (sum_list xs) :: u64) = sum_list xs" using pos lt by (simp add: uint_word_of_int)
    have m: "0 \<le> ?m" "?m < 2 ^ 31"
    proof -
      have "0 < int (length xs)" "1 \<le> int (length xs)" using assms(3) by (simp_all add: Suc_le_eq)
      then show "0 \<le> ?m" "?m < 2 ^ 31"
        using pos lt zdiv_mono2 [of "sum_list xs" 1 "int (length xs)"] by (simp_all add: pos_imp_zdiv_nonneg_iff)
    qed
    have "(word_of_int (sum_list xs) :: u64) div word_of_nat (length xs) = word_of_int ?m"
      using n su by (simp add: word_div_def)
    moreover have "(ucast (word_of_int ?m :: u64) :: u32) = word_of_int ?m"
      by (rule bit_word_eqI) (simp add: bit_simps)
    moreover have "sint (word_of_int ?m :: u32) = ?m" using m by (simp add: signed_of_int signed_take_bit_int_eq_self)
    moreover have "(word_of_nat (length xs) :: u64) > 0" using n assms(3) by (auto simp: word_less_def)
    ultimately show ?thesis by (simp add: Stats_Mean_def)
  qed
  then show ?thesis using stats_run [OF assms] by (intro exI [of _ ?s]) simp
qed

text \<open>The mean of negative values is not their mean: the sum was converted to an unsigned number.\<close>

lemma Stats_Mean_negative: "map_option Stats_Mean (for_in [- 1, - 1, - 1] Stats_Add Stats_new) = Some 1431655764"
  by (simp add: Stats_Add_def Stats_new_def Stats_Mean_def in_int_def check_def Let_def)

end
