(* ===== verification/String_Piece.thy ===== *)
theory String_Piece imports Prelude begin

text \<open>
  \<open>string_piece.h\<close> and \<open>string_piece.cc\<close>: a pointer to characters of somebody else's memory and a
  length. \<open>StringPiece\<close> (bytes) and \<open>StringPiece16\<close> (16-bit characters) are the same code for two
  character types, so the model has the type of the characters as a parameter.

  The memory is a list of characters, an address is an index into it, and address 0 is \<open>NULL\<close>.
  Reading outside the memory gives \<open>None\<close>. Sizes are 64-bit words, which wrap around.

  The standard library's \<open>search\<close>, \<open>find\<close>, \<open>find_end\<close>, \<open>strlen\<close> and \<open>memcmp\<close> are the functions that the
  standard describes; of the result of \<open>memcmp\<close> only the sign is defined.
\<close>

section \<open>Memory and the standard library\<close>

definition chars :: "'c list \<Rightarrow> nat \<Rightarrow> nat \<Rightarrow> 'c list option" where
  "chars m p n = (if n = 0 then Some [] else if 0 < p \<and> p + n \<le> length m then Some (take n (drop p m)) else None)"

fun strlen :: "'c::len word list \<Rightarrow> nat option" where
  "strlen [] = None"
| "strlen (c # cs) = (if c = 0 then Some 0 else map_option Suc (strlen cs))"

fun search :: "'c list \<Rightarrow> 'c list \<Rightarrow> nat" where
  "search [] n = 0"
| "search (c # cs) n = (if take (length n) (c # cs) = n then 0 else Suc (search cs n))"

definition find_char :: "'c list \<Rightarrow> 'c \<Rightarrow> nat" where
  "find_char h c = length (takeWhile (\<lambda>d. d \<noteq> c) h)"

definition find_end :: "'c list \<Rightarrow> 'c list \<Rightarrow> nat" where
  "find_end h n = (case filter (\<lambda>i. n \<noteq> [] \<and> take (length n) (drop i h) = n) [0..<length h] of
     [] \<Rightarrow> length h | i # is \<Rightarrow> last (i # is))"

fun memcmp :: "'c::len word list \<Rightarrow> 'c word list \<Rightarrow> int" where
  "memcmp (a # as) (b # bs) = (if a < b then - 1 else if b < a then 1 else memcmp as bs)"
| "memcmp _ _ = 0"

section \<open>The class\<close>

record string_piece =
  data_ptr :: nat
  len :: u64

definition npos :: u64 where "npos = - 1"

definition StringPiece_new :: string_piece where
  "StringPiece_new = \<lparr>data_ptr = 0, len = 0\<rparr>"

definition StringPiece_cstr :: "'c::len word list \<Rightarrow> nat \<Rightarrow> string_piece option" where
  "StringPiece_cstr m str = do {
     n \<leftarrow> if str = 0 then Some 0 else strlen (drop str m);
     Some \<lparr>data_ptr = str, len = word_of_nat n\<rparr> }"

definition StringPiece_range :: "nat \<Rightarrow> u64 \<Rightarrow> string_piece" where
  "StringPiece_range offset n = \<lparr>data_ptr = offset, len = n\<rparr>"

definition empty_piece :: "string_piece \<Rightarrow> bool" where
  "empty_piece sp = (len sp = 0)"

definition clear_piece :: "string_piece \<Rightarrow> string_piece" where
  "clear_piece sp = sp\<lparr>data_ptr := 0, len := 0\<rparr>"

definition set_range :: "nat \<Rightarrow> u64 \<Rightarrow> string_piece \<Rightarrow> string_piece" where
  "set_range data n sp = sp\<lparr>data_ptr := data, len := n\<rparr>"

definition set_cstr :: "'c::len word list \<Rightarrow> nat \<Rightarrow> string_piece \<Rightarrow> string_piece option" where
  "set_cstr m str sp = do {
     n \<leftarrow> if str \<noteq> 0 then strlen (drop str m) else Some 0;
     Some (sp\<lparr>data_ptr := str, len := word_of_nat n\<rparr>) }"

definition char_at :: "'c list \<Rightarrow> string_piece \<Rightarrow> u64 \<Rightarrow> 'c option" where
  "char_at m sp i = map_option hd (chars m (data_ptr sp + unat i) 1)"

definition remove_prefix :: "u64 \<Rightarrow> string_piece \<Rightarrow> string_piece" where
  "remove_prefix n sp = sp\<lparr>data_ptr := data_ptr sp + unat n, len := len sp - n\<rparr>"

definition remove_suffix :: "u64 \<Rightarrow> string_piece \<Rightarrow> string_piece" where
  "remove_suffix n sp = sp\<lparr>len := len sp - n\<rparr>"

definition wordmemcmp :: "'c::len word list \<Rightarrow> nat \<Rightarrow> nat \<Rightarrow> u64 \<Rightarrow> int option" where
  "wordmemcmp m p p2 N = do { x \<leftarrow> chars m p (unat N); y \<leftarrow> chars m p2 (unat N); Some (memcmp x y) }"

definition compare :: "'c::len word list \<Rightarrow> string_piece \<Rightarrow> string_piece \<Rightarrow> int option" where
  "compare m sp x = do {
     r \<leftarrow> wordmemcmp m (data_ptr sp) (data_ptr x) (if len sp < len x then len sp else len x);
     Some (if r = 0 then (if len sp < len x then - 1 else if len sp > len x then 1 else r) else r) }"

definition as_string :: "'c list \<Rightarrow> string_piece \<Rightarrow> 'c list option" where
  "as_string m sp = (if \<not> empty_piece sp then chars m (data_ptr sp) (unat (len sp)) else Some [])"

definition starts_with :: "'c::len word list \<Rightarrow> string_piece \<Rightarrow> string_piece \<Rightarrow> bool option" where
  "starts_with m sp x = (if len sp \<ge> len x
     then do { r \<leftarrow> wordmemcmp m (data_ptr sp) (data_ptr x) (len x); Some (r = 0) } else Some False)"

definition ends_with :: "'c::len word list \<Rightarrow> string_piece \<Rightarrow> string_piece \<Rightarrow> bool option" where
  "ends_with m sp x = (if len sp \<ge> len x
     then do { r \<leftarrow> wordmemcmp m (data_ptr sp + unat (len sp - len x)) (data_ptr x) (len x); Some (r = 0) } else Some False)"

text \<open>The operators, and the ones of \<open>StringPiece16\<close>.\<close>

definition sp_eq :: "'c::len word list \<Rightarrow> string_piece \<Rightarrow> string_piece \<Rightarrow> bool option" where
  "sp_eq m x y = (if len x \<noteq> len y then Some False
     else do { r \<leftarrow> wordmemcmp m (data_ptr x) (data_ptr y) (len x); Some (r = 0) })"

definition sp_less :: "'c::len word list \<Rightarrow> string_piece \<Rightarrow> string_piece \<Rightarrow> bool option" where
  "sp_less m x y = do {
     r \<leftarrow> wordmemcmp m (data_ptr x) (data_ptr y) (if len x < len y then len x else len y);
     Some (r < 0 \<or> (r = 0 \<and> len x < len y)) }"

definition sp_neq :: "'c::len word list \<Rightarrow> string_piece \<Rightarrow> string_piece \<Rightarrow> bool option" where
  "sp_neq m x y = map_option Not (sp_eq m x y)"

definition sp_greater :: "'c::len word list \<Rightarrow> string_piece \<Rightarrow> string_piece \<Rightarrow> bool option" where
  "sp_greater m x y = sp_less m y x"

definition sp_less_eq :: "'c::len word list \<Rightarrow> string_piece \<Rightarrow> string_piece \<Rightarrow> bool option" where
  "sp_less_eq m x y = map_option Not (sp_greater m x y)"

definition sp_greater_eq :: "'c::len word list \<Rightarrow> string_piece \<Rightarrow> string_piece \<Rightarrow> bool option" where
  "sp_greater_eq m x y = map_option Not (sp_less m x y)"

text \<open>The hash: a \<open>char\<close> is signed, a \<open>char16\<close> is not.\<close>

definition hash_piece :: "('c::len word \<Rightarrow> u64) \<Rightarrow> 'c word list \<Rightarrow> string_piece \<Rightarrow> u64 option" where
  "hash_piece conv m sp = do {
     s \<leftarrow> chars m (data_ptr sp) (unat (len sp));
     Some (fold (\<lambda>c result. result * 131 + conv c) s 0) }"

definition StringPiece_hash :: "byte list \<Rightarrow> string_piece \<Rightarrow> u64 option" where
  "StringPiece_hash = hash_piece scast"

definition StringPiece16_hash :: "u16 list \<Rightarrow> string_piece \<Rightarrow> u64 option" where
  "StringPiece16_hash = hash_piece ucast"

section \<open>\<open>string_piece.cc\<close>\<close>

definition CopyToString :: "'c list \<Rightarrow> string_piece \<Rightarrow> 'c list \<Rightarrow> 'c list option" where
  "CopyToString m sp target = (if \<not> empty_piece sp then chars m (data_ptr sp) (unat (len sp)) else Some [])"

definition AppendToString :: "'c list \<Rightarrow> string_piece \<Rightarrow> 'c list \<Rightarrow> 'c list option" where
  "AppendToString m sp target = (if \<not> empty_piece sp
     then do { s \<leftarrow> chars m (data_ptr sp) (unat (len sp)); Some (target @ s) } else Some target)"

text \<open>\<open>memcpy\<close> into \<open>buf\<close>.\<close>

definition copy_piece :: "'c list \<Rightarrow> string_piece \<Rightarrow> 'c list \<Rightarrow> u64 \<Rightarrow> u64 \<Rightarrow> (u64 \<times> 'c list) option" where
  "copy_piece m sp buf n pos = do {
     let ret = min (len sp - pos) n;
     s \<leftarrow> chars m (data_ptr sp + unat pos) (unat ret);
     _ \<leftarrow> check (unat ret \<le> length buf);
     Some (ret, s @ drop (unat ret) buf) }"

definition find_piece :: "'c list \<Rightarrow> string_piece \<Rightarrow> string_piece \<Rightarrow> u64 \<Rightarrow> u64 option" where
  "find_piece m sp s pos = (if pos > len sp then Some npos
     else do {
       h \<leftarrow> chars m (data_ptr sp + unat pos) (unat (len sp - pos));
       n \<leftarrow> chars m (data_ptr s) (unat (len s));
       let xpos = pos + word_of_nat (search h n);
       Some (if xpos + len s \<le> len sp then xpos else npos) })"

definition find_c :: "'c list \<Rightarrow> string_piece \<Rightarrow> 'c \<Rightarrow> u64 \<Rightarrow> u64 option" where
  "find_c m sp c pos = (if pos \<ge> len sp then Some npos
     else do {
       h \<leftarrow> chars m (data_ptr sp + unat pos) (unat (len sp - pos));
       let result = unat pos + find_char h c;
       Some (if result \<noteq> unat (len sp) then word_of_nat result else npos) })"

definition rfind :: "'c list \<Rightarrow> string_piece \<Rightarrow> string_piece \<Rightarrow> u64 \<Rightarrow> u64 option" where
  "rfind m sp s pos = (if len sp < len s then Some npos
     else if empty_piece s then Some (min (len sp) pos)
     else do {
       let last = min (len sp - len s) pos + len s;
       h \<leftarrow> chars m (data_ptr sp) (unat last);
       n \<leftarrow> chars m (data_ptr s) (unat (len s));
       let result = find_end h n;
       Some (if result \<noteq> unat last then word_of_nat result else npos) })"

text \<open>The loops: the first index of a list of indices that passes a test.\<close>

primrec first_in :: "nat list \<Rightarrow> (nat \<Rightarrow> bool option) \<Rightarrow> u64 option" where
  "first_in [] t = Some npos"
| "first_in (i # is) t = do { b \<leftarrow> t i; if b then Some (word_of_nat i) else first_in is t }"

definition rfind_c :: "'c list \<Rightarrow> string_piece \<Rightarrow> 'c \<Rightarrow> u64 \<Rightarrow> u64 option" where
  "rfind_c m sp c pos = (if len sp = 0 then Some npos
     else first_in (rev [0..<Suc (unat (min pos (len sp - 1)))])
       (\<lambda>i. do { d \<leftarrow> char_at m sp (word_of_nat i); Some (d = c) }))"

definition BuildLookupTable :: "byte list \<Rightarrow> string_piece \<Rightarrow> bool list \<Rightarrow> bool list option" where
  "BuildLookupTable m characters_wanted table =
     for_in [0..<unat (len characters_wanted)] (\<lambda>i table. do {
       c \<leftarrow> char_at m characters_wanted (word_of_nat i);
       wr table (unat c) True }) table"

definition looked_up :: "byte list \<Rightarrow> string_piece \<Rightarrow> bool list \<Rightarrow> nat \<Rightarrow> bool option" where
  "looked_up m sp lookup i = do { c \<leftarrow> char_at m sp (word_of_nat i); rd lookup (unat c) }"

definition find_first_of :: "byte list \<Rightarrow> string_piece \<Rightarrow> string_piece \<Rightarrow> u64 \<Rightarrow> u64 option" where
  "find_first_of m sp s pos = (if len sp = 0 \<or> len s = 0 then Some npos
     else if len s = 1 then do { c \<leftarrow> char_at m s 0; find_c m sp c pos }
     else do {
       lookup \<leftarrow> BuildLookupTable m s (replicate 256 False);
       first_in [unat pos..<unat (len sp)] (looked_up m sp lookup) })"

definition find_first_not_of_c :: "'c list \<Rightarrow> string_piece \<Rightarrow> 'c \<Rightarrow> u64 \<Rightarrow> u64 option" where
  "find_first_not_of_c m sp c pos = (if len sp = 0 then Some npos
     else first_in [unat pos..<unat (len sp)] (\<lambda>i. do { d \<leftarrow> char_at m sp (word_of_nat i); Some (d \<noteq> c) }))"

definition find_first_not_of :: "byte list \<Rightarrow> string_piece \<Rightarrow> string_piece \<Rightarrow> u64 \<Rightarrow> u64 option" where
  "find_first_not_of m sp s pos = (if len sp = 0 then Some npos
     else if len s = 0 then Some 0
     else if len s = 1 then do { c \<leftarrow> char_at m s 0; find_first_not_of_c m sp c pos }
     else do {
       lookup \<leftarrow> BuildLookupTable m s (replicate 256 False);
       first_in [unat pos..<unat (len sp)] (\<lambda>i. map_option Not (looked_up m sp lookup i)) })"

definition find_last_of :: "byte list \<Rightarrow> string_piece \<Rightarrow> string_piece \<Rightarrow> u64 \<Rightarrow> u64 option" where
  "find_last_of m sp s pos = (if len sp = 0 \<or> len s = 0 then Some npos
     else if len s = 1 then do { c \<leftarrow> char_at m s 0; rfind_c m sp c pos }
     else do {
       lookup \<leftarrow> BuildLookupTable m s (replicate 256 False);
       first_in (rev [0..<Suc (unat (min pos (len sp - 1)))]) (looked_up m sp lookup) })"

definition find_last_not_of_c :: "'c list \<Rightarrow> string_piece \<Rightarrow> 'c \<Rightarrow> u64 \<Rightarrow> u64 option" where
  "find_last_not_of_c m sp c pos = (if len sp = 0 then Some npos
     else first_in (rev [0..<Suc (unat (min pos (len sp - 1)))])
       (\<lambda>i. do { d \<leftarrow> char_at m sp (word_of_nat i); Some (d \<noteq> c) }))"

definition find_last_not_of :: "byte list \<Rightarrow> string_piece \<Rightarrow> string_piece \<Rightarrow> u64 \<Rightarrow> u64 option" where
  "find_last_not_of m sp s pos = (if len sp = 0 then Some npos
     else do {
       let i = min pos (len sp - 1);
       if len s = 0 then Some i
       else if len s = 1 then do { c \<leftarrow> char_at m s 0; find_last_not_of_c m sp c pos }
       else do {
         lookup \<leftarrow> BuildLookupTable m s (replicate 256 False);
         first_in (rev [0..<Suc (unat i)]) (\<lambda>i. map_option Not (looked_up m sp lookup i)) } })"

definition substr :: "string_piece \<Rightarrow> u64 \<Rightarrow> u64 \<Rightarrow> string_piece" where
  "substr sp pos n = (
     let pos = (if pos > len sp then len sp else pos);
         n = (if n > len sp - pos then len sp - pos else n) in
     StringPiece_range (data_ptr sp + unat pos) n)"

section \<open>The characters of a piece\<close>

definition chars_of :: "'c list \<Rightarrow> string_piece \<Rightarrow> 'c list option" where
  "chars_of m sp = chars m (data_ptr sp) (unat (len sp))"

lemma length_chars: "chars m p n = Some s \<Longrightarrow> length s = n"
  by (auto simp: chars_def split: if_splits)

lemma length_chars_of: "chars_of m sp = Some h \<Longrightarrow> unat (len sp) = length h"
  unfolding chars_of_def using length_chars by metis

lemma chars_within: "chars m p n = Some s \<Longrightarrow> i + k \<le> n \<Longrightarrow> chars m (p + i) k = Some (take k (drop i s))"
  by (auto simp: chars_def min_def drop_take add.commute split: if_splits)

lemma char_at_in:
  assumes "chars_of m sp = Some h" "unat i < length h"
  shows "char_at m sp i = Some (h ! unat i)"
proof -
  have "chars m (data_ptr sp + unat i) 1 = Some (take 1 (drop (unat i) h))"
    using assms length_chars_of [OF assms(1)] unfolding chars_of_def by (intro chars_within [of m _ "unat (len sp)"]) simp_all
  then show ?thesis using assms(2) by (simp add: char_at_def hd_drop_conv_nth)
qed

lemma len_tests:
  assumes "chars_of m sp = Some h"
  shows "len sp = 0 \<longleftrightarrow> h = []" "len sp = 1 \<longleftrightarrow> length h = 1"
proof -
  show "len sp = 0 \<longleftrightarrow> h = []" using length_chars_of [OF assms] by (metis length_0_conv unsigned_eq_0_iff)
  show "len sp = 1 \<longleftrightarrow> length h = 1" using length_chars_of [OF assms] by (metis unsigned_1 word_unat_eq_iff)
qed

lemma unat_small: "n < 2 ^ 64 \<Longrightarrow> unat (word_of_nat n :: u64) = n"
  by (simp add: unat_of_nat)

lemma unat_index: "i \<le> unat (w :: u64) \<Longrightarrow> unat (word_of_nat i :: u64) = i"
  using unsigned_less [of w, where 'a = nat] by (simp add: unat_of_nat)

text \<open>The reference: the first index of a list of indices that has a property.\<close>

definition first_pos :: "(nat \<Rightarrow> bool) \<Rightarrow> nat list \<Rightarrow> u64" where
  "first_pos P is = (case filter P is of [] \<Rightarrow> npos | i # _ \<Rightarrow> word_of_nat i)"

definition occurs :: "'c list \<Rightarrow> 'c list \<Rightarrow> nat \<Rightarrow> bool" where
  "occurs h n i = (take (length n) (drop i h) = n)"

lemma first_in_eq: "(\<And>i. i \<in> set is \<Longrightarrow> t i = Some (P i)) \<Longrightarrow> first_in is t = Some (first_pos P is)"
  by (induction "is") (simp_all add: first_pos_def)

lemma first_pos_cong: "(\<And>i. i \<in> set is \<Longrightarrow> P i = Q i) \<Longrightarrow> first_pos P is = first_pos Q is"
  by (simp add: first_pos_def cong: filter_cong)

lemma occurs_fits: "occurs h n i \<Longrightarrow> i \<le> length h \<Longrightarrow> i + length n \<le> length h"
proof -
  assume o: "occurs h n i" and i: "i \<le> length h"
  from arg_cong [OF o [unfolded occurs_def], of length] i show ?thesis by simp
qed

lemma occurs_drop: "occurs (drop p h) n i = occurs h n (p + i)"
  by (simp add: occurs_def add.commute)

section \<open>Searching for a string\<close>

lemma search_spec:
  "(case filter (occurs h n) [0..<Suc (length h)] of [] \<Rightarrow> search h n = length h \<and> n \<noteq> [] | i # _ \<Rightarrow> search h n = i)"
proof (induction h)
  case (Cons c cs)
  have u: "[0..<Suc (length (c # cs))] = 0 # map Suc [0..<Suc (length cs)]"
    by (simp add: upt_conv_Cons map_Suc_upt del: upt_Suc)
  have o: "occurs (c # cs) n (Suc i) = occurs cs n i" for i by (simp add: occurs_def)
  show ?case
  proof (cases "occurs (c # cs) n 0")
    case False
    then have "search (c # cs) n = Suc (search cs n)" by (simp add: occurs_def)
    with False Cons show ?thesis unfolding u
      by (auto simp: filter_map o_def o simp del: upt_Suc search.simps split: list.splits)
  next
    case True
    then have "search (c # cs) n = 0" by (simp add: occurs_def)
    with True show ?thesis unfolding u by simp
  qed
qed (simp add: occurs_def)

lemma find_piece_eq:
  assumes h: "chars_of m sp = Some h" and n: "chars_of m s = Some n" and small: "length h + length n < 2 ^ 64"
  shows "find_piece m sp s pos = Some (first_pos (occurs h n) [unat pos..<Suc (length h)])"
proof (cases "pos > len sp")
  case True
  then have "length h < unat pos" using length_chars_of [OF h] by (simp add: word_less_nat_alt)
  then show ?thesis using True by (simp add: find_piece_def first_pos_def)
next
  case False
  let ?p = "unat pos" and ?g = "drop (unat pos) h"
  have p: "?p \<le> length h" using False length_chars_of [OF h] by (simp add: word_le_nat_alt not_less)
  have "unat (len sp - pos) = length h - ?p"
    using False length_chars_of [OF h] by (simp add: unat_sub not_less)
  moreover have "chars m (data_ptr sp + ?p) (length h - ?p) = Some (take (length h - ?p) ?g)"
    using chars_within [OF h [unfolded chars_of_def], of ?p "length h - ?p"] p length_chars_of [OF h] by simp
  ultimately have run: "find_piece m sp s pos = Some (let x = pos + word_of_nat (search ?g n) in if x + len s \<le> len sp then x else npos)"
    using False n by (simp add: find_piece_def chars_of_def Let_def)
  have plus: "(+) ?p = (\<lambda>i. i + ?p)" by (simp add: fun_eq_iff)
  have u: "[?p..<Suc (length h)] = map ((+) ?p) [0..<Suc (length ?g)]"
    using p map_add_upt [of ?p "Suc (length ?g)"] unfolding plus by (simp add: Suc_diff_le del: upt_Suc)
  have f: "filter (occurs h n) [?p..<Suc (length h)] = map ((+) ?p) (filter (occurs ?g n) [0..<Suc (length ?g)])"
    unfolding u filter_map o_def occurs_drop ..
  have w: "unat (pos + word_of_nat k + len s) = ?p + k + length n" "unat (pos + word_of_nat k) = ?p + k" if "?p + k \<le> length h" for k
  proof -
    have e: "pos + word_of_nat k = word_of_nat (?p + k)" "pos + word_of_nat k + len s = word_of_nat (?p + k + unat (len s))" by simp_all
    show "unat (pos + word_of_nat k + len s) = ?p + k + length n"
      unfolding e(2) by (subst unat_small) (use that small length_chars_of [OF n] in simp_all)
    show "unat (pos + word_of_nat k) = ?p + k"
      unfolding e(1) by (subst unat_small) (use that small in simp_all)
  qed
  show ?thesis
  proof (cases "filter (occurs ?g n) [0..<Suc (length ?g)]")
    case Nil
    then have "search ?g n = length ?g" "n \<noteq> []" using search_spec [of ?g n] by simp_all
    then have "\<not> pos + word_of_nat (search ?g n) + len s \<le> len sp"
      using w(1) [of "length ?g"] p length_chars_of [OF h] by (simp add: word_le_nat_alt)
    then show ?thesis unfolding run first_pos_def f Nil by (simp add: Let_def)
  next
    case (Cons i "is")
    then have i: "search ?g n = i" using search_spec [of ?g n] by simp
    have "i \<in> set (filter (occurs ?g n) [0..<Suc (length ?g)])" unfolding Cons by simp
    then have "i + length n \<le> length ?g" using occurs_fits [of ?g n i] by (simp del: upt_Suc)
    then have "pos + word_of_nat i + len s \<le> len sp"
      using w(1) [of i] p length_chars_of [OF h] by (simp add: word_le_nat_alt)
    then show ?thesis unfolding run first_pos_def f Cons i by (simp add: Let_def)
  qed
qed

text \<open>\<open>rfind\<close>: the last occurrence that begins at or before \<open>pos\<close>.\<close>

lemma first_pos_rev:
  "i < n \<Longrightarrow> P i \<Longrightarrow> (\<And>j. j < n \<Longrightarrow> P j \<Longrightarrow> j \<le> i) \<Longrightarrow> first_pos P (rev [0..<n]) = word_of_nat i"
proof (induction n)
  case (Suc n)
  show ?case
  proof (cases "P n")
    case True
    then have "n \<le> i" using Suc.prems(3) [of n] by simp
    then have "i = n" using Suc.prems(1) by simp
    then show ?thesis using True by (simp add: first_pos_def)
  next
    case False
    then have "i < n" using Suc.prems(1,2) by (metis less_Suc_eq)
    moreover have "first_pos P (rev [0..<Suc n]) = first_pos P (rev [0..<n])" using False by (simp add: first_pos_def)
    ultimately show ?thesis using Suc by simp
  qed
qed simp

lemma last_filter_upt:
  "filter P [0..<n] \<noteq> [] \<Longrightarrow>
   last (filter P [0..<n]) < n \<and> P (last (filter P [0..<n])) \<and> (\<forall>j < n. P j \<longrightarrow> j \<le> last (filter P [0..<n]))"
proof (induction n)
  case (Suc n)
  show ?case
  proof (cases "P n")
    case False
    then have e: "filter P [0..<Suc n] = filter P [0..<n]" by simp
    then show ?thesis using Suc.IH Suc.prems False unfolding e by (auto simp: less_Suc_eq)
  qed auto
qed simp

lemma first_pos_none: "(\<And>i. i \<in> set is \<Longrightarrow> \<not> P i) \<Longrightarrow> first_pos P is = npos"
  by (simp add: first_pos_def)

lemma find_end_spec:
  "find_end h n = length h \<and> (\<forall>i < length h. n \<noteq> [] \<longrightarrow> \<not> occurs h n i) \<or>
   find_end h n < length h \<and> occurs h n (find_end h n) \<and> (\<forall>i < length h. occurs h n i \<longrightarrow> i \<le> find_end h n)"
proof -
  let ?f = "filter (\<lambda>i. n \<noteq> [] \<and> take (length n) (drop i h) = n) [0..<length h]"
  show ?thesis
  proof (cases ?f)
    case Nil
    then show ?thesis unfolding find_end_def by (auto simp: filter_empty_conv occurs_def)
  next
    case (Cons i "is")
    have e: "find_end h n = last ?f" unfolding find_end_def Cons by simp
    have "?f \<noteq> []" by (simp add: Cons)
    from last_filter_upt [OF this] show ?thesis unfolding e occurs_def by blast
  qed
qed

lemma unat_min: "unat (min a b) = min (unat a) (unat (b :: 'w::len word))"
  by (auto simp: min_def word_le_nat_alt)

lemma occurs_take: "i + length n \<le> k \<Longrightarrow> occurs (take k h) n i = occurs h n i"
  by (simp add: occurs_def drop_take min_absorb1)

lemma occurs_take_iff:
  assumes "k \<le> length h" "i \<le> k"
  shows "occurs (take k h) n i \<longleftrightarrow> occurs h n i \<and> i + length n \<le> k"
proof (cases "i + length n \<le> k")
  case False
  then show ?thesis using occurs_fits [of "take k h" n i] assms by auto
qed (simp add: occurs_take)

lemma rfind_eq:
  assumes h: "chars_of m sp = Some h" and n: "chars_of m s = Some n"
  shows "rfind m sp s pos = Some (first_pos (occurs h n) (rev [0..<Suc (min (unat pos) (length h))]))"
proof -
  let ?N = "Suc (min (unat pos) (length h))"
  have lh: "unat (len sp) = length h" "unat (len s) = length n" using length_chars_of h n by blast+
  consider "length h < length n" | "n = []" | "length n \<le> length h" "n \<noteq> []" by linarith
  then show ?thesis
  proof cases
    case 1
    then have "\<not> occurs h n i" if "i \<le> length h" for i using occurs_fits [of h n i] that by linarith
    then have "first_pos (occurs h n) (rev [0..<?N]) = npos" by (intro first_pos_none) (simp del: upt_Suc)
    then show ?thesis using 1 lh by (simp add: rfind_def word_less_nat_alt)
  next
    case 2
    have "first_pos (occurs h n) (rev [0..<?N]) = word_of_nat (min (unat pos) (length h))"
      by (rule first_pos_rev) (auto simp: 2 occurs_def)
    also have "\<dots> = min (len sp) pos" using lh by (intro word_unat_eq_iff [THEN iffD2]) (simp add: unat_min unat_small unat_index [of _ pos] min.commute)
    finally show ?thesis using 2 lh len_tests(1) [OF n] by (simp add: rfind_def empty_piece_def word_less_nat_alt)
  next
    case 3
    let ?last = "min (length h - length n) (unat pos) + length n" and ?w = "min (len sp - len s) pos + len s"
    have le: "len s \<le> len sp" using 3 lh by (simp add: word_le_nat_alt)
    have "unat (min (len sp - len s) pos) = min (length h - length n) (unat pos)"
      using le lh by (simp add: unat_min unat_sub)
    moreover have "?last < 2 ^ 64" using 3 lh unsigned_less [of "len sp", where 'a = nat] by simp
    ultimately have w: "unat ?w = ?last" using lh by (simp add: unat_plus_if')
    have "?last \<le> length h" using 3 by simp
    then have cut: "chars m (data_ptr sp) (unat ?w) = Some (take ?last h)"
      using chars_within [OF h [unfolded chars_of_def], of 0 ?last] lh w by simp
    have o: "occurs (take ?last h) n i \<longleftrightarrow> occurs h n i \<and> i + length n \<le> ?last" if "i \<le> ?last" for i
      by (rule occurs_take_iff [OF \<open>?last \<le> length h\<close> that])
    have nl: "(len sp < len s) = False" using le by (simp add: not_less)
    have run: "rfind m sp s pos = Some (if find_end (take ?last h) n \<noteq> ?last then word_of_nat (find_end (take ?last h) n) else npos)"
      using 3 lh cut w n len_tests(1) [OF n] nl by (simp add: rfind_def empty_piece_def chars_of_def Let_def)
    have reach: "i + length n \<le> ?last \<and> i < ?last" if "occurs h n i" "i < ?N" for i
    proof -
      have "i \<le> unat pos" "i \<le> length h" using that(2) by simp_all
      then have "i \<le> length h - length n" "i \<le> unat pos" using occurs_fits [OF that(1)] by simp_all
      moreover have "0 < length n" using 3 by simp
      ultimately show ?thesis by linarith
    qed
    have lt: "length (take ?last h) = ?last" using \<open>?last \<le> length h\<close> by simp
    show ?thesis
    proof (cases "find_end (take ?last h) n < ?last")
      case True
      let ?e = "find_end (take ?last h) n"
      have e: "occurs (take ?last h) n ?e" "\<And>i. i < ?last \<Longrightarrow> occurs (take ?last h) n i \<Longrightarrow> i \<le> ?e"
        using find_end_spec [of "take ?last h" n] True unfolding lt by auto
      have "first_pos (occurs h n) (rev [0..<?N]) = word_of_nat ?e"
      proof (rule first_pos_rev)
        show "occurs h n ?e" using e(1) o [of ?e] True by simp
        show "?e < ?N" using e(1) o [of ?e] True by linarith
        show "j \<le> ?e" if "j < ?N" "occurs h n j" for j
          using reach [OF that(2,1)] e(2) [of j] o [of j] that(2) by simp
      qed
      then show ?thesis using run True by simp
    next
      case False
      then have "find_end (take ?last h) n = ?last" "\<And>i. i < ?last \<Longrightarrow> \<not> occurs (take ?last h) n i"
        using find_end_spec [of "take ?last h" n] 3 unfolding lt by auto
      moreover have "first_pos (occurs h n) (rev [0..<?N]) = npos"
      proof (rule first_pos_none)
        fix i assume "i \<in> set (rev [0..<?N])"
        then have "i < ?N" by (simp del: upt_Suc)
        show "\<not> occurs h n i"
        proof
          assume i: "occurs h n i"
          from reach [OF i \<open>i < ?N\<close>] o [of i] calculation(2) [of i] i show False by simp
        qed
      qed
      ultimately show ?thesis using run by simp
    qed
  qed
qed

section \<open>Searching for characters\<close>

lemma char_index:
  "chars_of m sp = Some h \<Longrightarrow> i < length h \<Longrightarrow> char_at m sp (word_of_nat i) = Some (h ! i)"
  using char_at_in [of m sp h "word_of_nat i"] unat_index [of i "len sp"] length_chars_of [of m sp h] by simp

lemma first_char:
  "p \<le> length h \<Longrightarrow> first_pos (\<lambda>i. h ! i = c) [p..<length h] =
    (if p + find_char (drop p h) c \<noteq> length h then word_of_nat (p + find_char (drop p h) c) else npos)"
proof (induction "length h - p" arbitrary: p)
  case (Suc k)
  then have p: "p < length h" by linarith
  have u: "[p..<length h] = p # [Suc p..<length h]" "drop p h = h ! p # drop (Suc p) h"
    using p by (simp_all add: upt_conv_Cons Cons_nth_drop_Suc)
  have "k = length h - Suc p" "Suc p \<le> length h" using Suc.hyps(2) p by linarith+
  from Suc.hyps(1) [OF this] show ?case
    unfolding u by (cases "h ! p = c") (use p in \<open>simp_all add: first_pos_def find_char_def\<close>)
qed (simp add: first_pos_def find_char_def)

lemma find_c_eq:
  assumes h: "chars_of m sp = Some h"
  shows "find_c m sp c pos = Some (first_pos (\<lambda>i. h ! i = c) [unat pos..<length h])"
proof (cases "pos \<ge> len sp")
  case True
  then have "length h \<le> unat pos" using length_chars_of [OF h] by (simp add: word_le_nat_alt)
  then show ?thesis using True by (simp add: find_c_def first_pos_def)
next
  case False
  let ?p = "unat pos" and ?g = "drop (unat pos) h"
  have p: "?p < length h" using False length_chars_of [OF h] by (simp add: word_le_nat_alt not_le)
  have "unat (len sp - pos) = length h - ?p"
    using False length_chars_of [OF h] by (simp add: unat_sub)
  moreover have "chars m (data_ptr sp + ?p) (length h - ?p) = Some (take (length h - ?p) ?g)"
    using chars_within [OF h [unfolded chars_of_def], of ?p "length h - ?p"] p length_chars_of [OF h] by simp
  ultimately have run: "find_c m sp c pos = Some (let r = ?p + find_char ?g c in if r \<noteq> length h then word_of_nat r else npos)"
    using False length_chars_of [OF h] by (simp add: find_c_def Let_def)
  then show ?thesis using first_char [of ?p h c] p by (simp add: Let_def)
qed

text \<open>The lookup table holds the characters that are wanted.\<close>

lemma BuildLookupTable_eq:
  assumes n: "chars_of m s = Some n"
  shows "\<exists>t. BuildLookupTable m s (replicate 256 False) = Some t \<and> length t = 256 \<and> (\<forall>c :: byte. t ! unat c \<longleftrightarrow> c \<in> set n)"
proof -
  let ?P = "\<lambda>k (t :: bool list). length t = 256 \<and> (\<forall>c :: byte. t ! unat c \<longleftrightarrow> c \<in> set (take k n))"
  have "\<exists>t. BuildLookupTable m s (replicate 256 False) = Some t \<and> ?P (unat (len s)) t"
    unfolding BuildLookupTable_def
  proof (rule for_in_upt)
    have "unat c < 256" for c :: byte using unsigned_less [of c, where 'a = nat] by simp
    then show "?P 0 (replicate 256 False)" by simp
  next
    fix k t assume k: "k < unat (len s)" and P: "?P k t"
    have kn: "k < length n" using k length_chars_of [OF n] by simp
    have b: "unat c < 256" for c :: byte using unsigned_less [of c, where 'a = nat] by simp
    have "?P (Suc k) (t[unat (n ! k) := True])"
      using P b kn by (auto simp: take_Suc_conv_app_nth nth_list_update word_unat_eq_iff)
    moreover have "wr t (unat (n ! k)) True = Some (t[unat (n ! k) := True])" using P b by (simp add: wr_def)
    ultimately show "\<exists>t'. do { c \<leftarrow> char_at m s (word_of_nat k); wr t (unat c) True } = Some t' \<and> ?P (Suc k) t'"
      using char_index [OF n kn] by simp
  qed simp
  then show ?thesis using length_chars_of [OF n] by simp
qed

lemma looked_up_eq:
  assumes "chars_of m sp = Some h" "length t = 256" "\<forall>c :: byte. t ! unat c \<longleftrightarrow> c \<in> set n" "i < length h"
  shows "looked_up m sp t i = Some (h ! i \<in> set n)"
proof -
  have "unat (h ! i) < 256" using unsigned_less [of "h ! i", where 'a = nat] by simp
  then show ?thesis using assms char_index [OF assms(1,4)] by (simp add: looked_up_def rd_def)
qed

lemma last_index: "chars_of m sp = Some h \<Longrightarrow> h \<noteq> [] \<Longrightarrow> unat (min pos (len sp - 1)) = min (unat pos) (length h - 1)"
proof -
  assume h: "chars_of m sp = Some h" "h \<noteq> []"
  then have "0 < unat (len sp)" using length_chars_of [OF h(1)] by simp
  then have "1 \<le> len sp" by (simp add: word_le_nat_alt)
  then have "unat (len sp - 1) = length h - 1" using length_chars_of [OF h(1)] by (simp add: unat_sub)
  then show ?thesis by (simp add: unat_min)
qed

text \<open>The indices that a search from the back visits.\<close>

definition backward :: "u64 \<Rightarrow> nat \<Rightarrow> nat list" where
  "backward pos n = rev [0..<min (Suc (unat pos)) n]"

lemma backward_eq: "chars_of m sp = Some h \<Longrightarrow> h \<noteq> [] \<Longrightarrow> rev [0..<Suc (unat (min pos (len sp - 1)))] = backward pos (length h)"
  unfolding backward_def using last_index [of m sp h pos] by (cases h) (simp_all add: min_Suc_Suc del: upt_Suc)

lemma backward_in: "i \<in> set (backward pos n) \<Longrightarrow> i < n"
  by (auto simp: backward_def)

lemma rfind_c_eq:
  assumes "chars_of m sp = Some h"
  shows "rfind_c m sp c pos = Some (first_pos (\<lambda>i. h ! i = c) (backward pos (length h)))"
proof (cases "h = []")
  case False
  have "rfind_c m sp c pos = first_in (backward pos (length h)) (\<lambda>i. do { d \<leftarrow> char_at m sp (word_of_nat i); Some (d = c) })"
    using False by (simp add: rfind_c_def len_tests [OF assms] backward_eq [OF assms] del: upt_Suc)
  then show ?thesis using char_index [OF assms] by (simp add: first_in_eq backward_in)
qed (simp add: rfind_c_def len_tests [OF assms] backward_def first_pos_def)

lemma not_of_c_eq:
  assumes "chars_of m sp = Some h"
  shows "find_first_not_of_c m sp c pos = Some (first_pos (\<lambda>i. h ! i \<noteq> c) [unat pos..<length h])"
    "find_last_not_of_c m sp c pos = Some (first_pos (\<lambda>i. h ! i \<noteq> c) (backward pos (length h)))"
proof -
  note ci = char_index [OF assms]
  show "find_first_not_of_c m sp c pos = Some (first_pos (\<lambda>i. h ! i \<noteq> c) [unat pos..<length h])"
    using ci by (auto simp: find_first_not_of_c_def len_tests [OF assms] length_chars_of [OF assms] first_pos_def intro!: first_in_eq [unfolded first_pos_def])
  show "find_last_not_of_c m sp c pos = Some (first_pos (\<lambda>i. h ! i \<noteq> c) (backward pos (length h)))"
  proof (cases "h = []")
    case False
    have "find_last_not_of_c m sp c pos = first_in (backward pos (length h)) (\<lambda>i. do { d \<leftarrow> char_at m sp (word_of_nat i); Some (d \<noteq> c) })"
      using False by (simp add: find_last_not_of_c_def len_tests [OF assms] backward_eq [OF assms] del: upt_Suc)
    then show ?thesis using ci by (simp add: first_in_eq backward_in)
  qed (simp add: find_last_not_of_c_def len_tests [OF assms] backward_def first_pos_def)
qed

lemma singleton: "length n = 1 \<Longrightarrow> set n = {n ! 0}"
  by (cases n) auto

lemma find_of_eq:
  assumes h: "chars_of m sp = Some h" and n: "chars_of m s = Some n"
  shows "find_first_of m sp s pos = Some (first_pos (\<lambda>i. h ! i \<in> set n) [unat pos..<length h])"
    "find_last_of m sp s pos = Some (first_pos (\<lambda>i. h ! i \<in> set n) (backward pos (length h)))"
    "n \<noteq> [] \<Longrightarrow> find_first_not_of m sp s pos = Some (first_pos (\<lambda>i. h ! i \<notin> set n) [unat pos..<length h])"
    "find_last_not_of m sp s pos = Some (first_pos (\<lambda>i. h ! i \<notin> set n) (backward pos (length h)))"
proof -
  obtain t where t: "BuildLookupTable m s (replicate 256 False) = Some t" "length t = 256" "\<forall>c :: byte. t ! unat c \<longleftrightarrow> c \<in> set n"
    using BuildLookupTable_eq [OF n] by blast
  have up: "looked_up m sp t i = Some (h ! i \<in> set n)" "map_option Not (looked_up m sp t i) = Some (h ! i \<notin> set n)"
    if "i \<in> set [unat pos..<length h]" for i
    using looked_up_eq [OF h t(2,3)] that by simp_all
  have up': "looked_up m sp t i = Some (h ! i \<in> set n)" "map_option Not (looked_up m sp t i) = Some (h ! i \<notin> set n)"
    if "i \<in> set (backward pos (length h))" for i
    using looked_up_eq [OF h t(2,3) backward_in [OF that]] by simp_all
  note tests = len_tests [OF h] len_tests [OF n]
  have one: "char_at m s 0 = Some (n ! 0)" "set n = {n ! 0}" if "length n = 1"
    using char_index [OF n, of 0] singleton that by simp_all
  have none: "first_pos P [] = npos" for P by (simp add: first_pos_def)
  show "find_first_of m sp s pos = Some (first_pos (\<lambda>i. h ! i \<in> set n) [unat pos..<length h])"
  proof (cases "h = [] \<or> n = [] \<or> length n = 1")
    case True
    then show ?thesis using one find_c_eq [OF h, of "n ! 0" pos] by (auto simp: find_first_of_def tests none first_pos_none)
  next
    case False
    then have "find_first_of m sp s pos = first_in [unat pos..<length h] (looked_up m sp t)"
      by (simp add: find_first_of_def tests t(1) length_chars_of [OF h])
    then show ?thesis by (simp only: first_in_eq [OF up(1)])
  qed
  show "find_last_of m sp s pos = Some (first_pos (\<lambda>i. h ! i \<in> set n) (backward pos (length h)))"
  proof (cases "h = [] \<or> n = [] \<or> length n = 1")
    case True
    then show ?thesis using one rfind_c_eq [OF h, of "n ! 0" pos]
      by (auto simp: find_last_of_def tests none first_pos_none backward_def)
  next
    case False
    then have "find_last_of m sp s pos = first_in (backward pos (length h)) (looked_up m sp t)"
      by (simp add: find_last_of_def tests t(1) backward_eq [OF h] del: upt_Suc)
    then show ?thesis by (simp only: first_in_eq [OF up'(1)])
  qed
  show "find_first_not_of m sp s pos = Some (first_pos (\<lambda>i. h ! i \<notin> set n) [unat pos..<length h])" if "n \<noteq> []"
  proof (cases "h = [] \<or> length n = 1")
    case True
    then show ?thesis using that one not_of_c_eq(1) [OF h, of "n ! 0" pos] by (auto simp: find_first_not_of_def tests none)
  next
    case False
    then have "find_first_not_of m sp s pos = first_in [unat pos..<length h] (\<lambda>i. map_option Not (looked_up m sp t i))"
      using that by (simp add: find_first_not_of_def tests t(1) length_chars_of [OF h])
    then show ?thesis by (simp only: first_in_eq [OF up(2)])
  qed
  show "find_last_not_of m sp s pos = Some (first_pos (\<lambda>i. h ! i \<notin> set n) (backward pos (length h)))"
  proof (cases "h = [] \<or> n = [] \<or> length n = 1")
    case True
    have "min pos (len sp - 1) = first_pos (\<lambda>i. True) (backward pos (length h))" if "h \<noteq> []"
    proof -
      have "first_pos (\<lambda>i. True) (rev [0..<Suc (unat (min pos (len sp - 1)))]) = word_of_nat (unat (min pos (len sp - 1)))"
        by (rule first_pos_rev) auto
      then show ?thesis unfolding backward_eq [OF h that] by simp
    qed
    then show ?thesis using True one not_of_c_eq(2) [OF h, of "n ! 0" pos]
      by (auto simp: find_last_not_of_def tests none backward_def Let_def)
  next
    case False
    then have "find_last_not_of m sp s pos = first_in (backward pos (length h)) (\<lambda>i. map_option Not (looked_up m sp t i))"
      by (simp add: find_last_not_of_def tests t(1) backward_eq [OF h] del: upt_Suc)
    then show ?thesis by (simp only: first_in_eq [OF up'(2)])
  qed
qed

section \<open>Order, pieces of pieces, copies\<close>

lemma memcmp_lexord:
  "memcmp (take (min (length a) (length b)) a) (take (min (length a) (length b)) b) < 0 \<or>
   (memcmp (take (min (length a) (length b)) a) (take (min (length a) (length b)) b) = 0 \<and> length a < length b)
   \<longleftrightarrow> ord_class.lexordp a b"
proof (induction a b rule: memcmp.induct)
  case (1 x xs y ys)
  then show ?case by auto
qed auto

lemma memcmp_eq: "length a = length b \<Longrightarrow> memcmp a b = 0 \<longleftrightarrow> a = b"
  by (induction a b rule: memcmp.induct) auto

lemma memcmp_range: "memcmp a b \<in> {- 1, 0, 1}"
  by (induction a b rule: memcmp.induct) auto

lemma compared:
  assumes "chars_of m x = Some a" "chars_of m y = Some b"
  shows "wordmemcmp m (data_ptr x) (data_ptr y) (if len x < len y then len x else len y) =
      Some (memcmp (take (min (length a) (length b)) a) (take (min (length a) (length b)) b))"
    "len x < len y \<longleftrightarrow> length a < length b" "len x = len y \<longleftrightarrow> length a = length b"
proof -
  have l: "unat (len x) = length a" "unat (len y) = length b" using length_chars_of assms by blast+
  then show lt: "len x < len y \<longleftrightarrow> length a < length b" "len x = len y \<longleftrightarrow> length a = length b"
    by (simp_all add: word_less_nat_alt word_unat_eq_iff)
  let ?k = "min (length a) (length b)"
  have k: "unat (if len x < len y then len x else len y) = ?k" using l lt by (simp add: min_def)
  have "chars m (data_ptr x) ?k = Some (take ?k a)" "chars m (data_ptr y) ?k = Some (take ?k b)"
    using chars_within [OF assms(1) [unfolded chars_of_def], of 0 ?k] chars_within [OF assms(2) [unfolded chars_of_def], of 0 ?k] l
    by simp_all
  then show "wordmemcmp m (data_ptr x) (data_ptr y) (if len x < len y then len x else len y) =
      Some (memcmp (take ?k a) (take ?k b))"
    unfolding wordmemcmp_def k by simp
qed

lemma lexordp_total: "a \<noteq> b \<Longrightarrow> \<not> ord_class.lexordp a b \<Longrightarrow> ord_class.lexordp b a" for a b :: "'a::linorder list"
  using lexordp_linear [of a b] by blast

lemma operators_eq:
  assumes "chars_of m x = Some a" "chars_of m y = Some b"
  shows "sp_less m x y = Some (ord_class.lexordp a b)" "sp_eq m x y = Some (a = b)"
    "\<exists>r. compare m x y = Some r \<and> (r < 0 \<longleftrightarrow> ord_class.lexordp a b) \<and> (r = 0 \<longleftrightarrow> a = b)"
proof -
  note c = compared [OF assms]
  let ?k = "min (length a) (length b)"
  let ?r = "memcmp (take ?k a) (take ?k b)"
  show "sp_less m x y = Some (ord_class.lexordp a b)"
    unfolding sp_less_def c(1) using c(2) memcmp_lexord [of a b] by simp
  show "sp_eq m x y = Some (a = b)"
  proof (cases "length a = length b")
    case True
    then have "wordmemcmp m (data_ptr x) (data_ptr y) (len x) = Some (memcmp a b)" using c by simp
    then show ?thesis using True c(3) memcmp_eq [OF True] by (simp add: sp_eq_def)
  next
    case False
    then show ?thesis using c(3) by (auto simp: sp_eq_def)
  qed
  have run: "compare m x y = Some (if ?r = 0 then (if length a < length b then - 1 else if length b < length a then 1 else ?r) else ?r)"
    unfolding compare_def c(1) using c(2) compared(2) [OF assms(2,1)] by simp
  have eq: "a = b" if "?r = 0" "length a = length b" using memcmp_eq [of a b] that by simp
  have "?r = 0" if "a = b" using memcmp_eq [of a a] that by simp
  then have "(if ?r = 0 then (if length a < length b then - 1 else if length b < length a then 1 else ?r) else ?r) = 0 \<longleftrightarrow> a = b"
    using eq by (auto split: if_splits)
  moreover have "(if ?r = 0 then (if length a < length b then - 1 else if length b < length a then 1 else ?r) else ?r) < 0 \<longleftrightarrow> ord_class.lexordp a b"
    using memcmp_lexord [of a b] by auto
  ultimately show "\<exists>r. compare m x y = Some r \<and> (r < 0 \<longleftrightarrow> ord_class.lexordp a b) \<and> (r = 0 \<longleftrightarrow> a = b)"
    using run by auto
qed

lemma affixes_eq:
  assumes "chars_of m sp = Some a" "chars_of m x = Some b"
  shows "starts_with m sp x = Some (length b \<le> length a \<and> take (length b) a = b)"
    "ends_with m sp x = Some (length b \<le> length a \<and> drop (length a - length b) a = b)"
proof -
  have l: "unat (len sp) = length a" "unat (len x) = length b" using length_chars_of assms by blast+
  have le: "len x \<le> len sp \<longleftrightarrow> length b \<le> length a" using l by (simp add: word_le_nat_alt)
  show "starts_with m sp x = Some (length b \<le> length a \<and> take (length b) a = b)"
    using chars_within [OF assms(1) [unfolded chars_of_def], of 0 "length b"] assms(2) l le memcmp_eq [of "take (length b) a" b]
    by (auto simp: starts_with_def wordmemcmp_def chars_of_def)
  have "unat (len sp - len x) = length a - length b" if "length b \<le> length a" using l le that by (simp add: unat_sub)
  then show "ends_with m sp x = Some (length b \<le> length a \<and> drop (length a - length b) a = b)"
    using chars_within [OF assms(1) [unfolded chars_of_def], of "length a - length b" "length b"] assms(2) l le
      memcmp_eq [of "drop (length a - length b) a" b]
    by (auto simp: ends_with_def wordmemcmp_def chars_of_def)
qed

lemma substr_eq:
  assumes "chars_of m sp = Some h"
  shows "chars_of m (substr sp pos n) = Some (take (unat n) (drop (unat pos) h))"
proof -
  let ?p = "min (unat pos) (length h)" and ?k = "min (unat n) (length h - min (unat pos) (length h))"
  have l: "unat (len sp) = length h" by (rule length_chars_of [OF assms])
  define q where "q = (if pos > len sp then len sp else pos)"
  have q: "unat q = ?p" "q \<le> len sp" using l by (auto simp: q_def word_less_nat_alt word_le_nat_alt)
  then have s: "unat (len sp - q) = length h - ?p" using l by (simp add: unat_sub)
  then have k: "unat (if n > len sp - q then len sp - q else n) = ?k" by (auto simp: word_less_nat_alt)
  have "chars m (data_ptr sp + ?p) ?k = Some (take ?k (drop ?p h))"
    using l by (intro chars_within [OF assms [unfolded chars_of_def]]) simp
  moreover have "take ?k (drop ?p h) = take (unat n) (drop (unat pos) h)" by (auto simp: min_def)
  ultimately show ?thesis
    unfolding substr_def Let_def q_def [symmetric] by (simp add: StringPiece_range_def chars_of_def q(1) k)
qed

text \<open>\<open>copy\<close> stays inside the piece when \<open>pos\<close> does. Beyond the end \<open>length_ - pos\<close> wraps around, and \<open>n\<close>
  characters behind the piece are copied.\<close>

lemma copy_eq:
  assumes "chars_of m sp = Some h" "unat pos \<le> length h" "unat n \<le> length buf"
  shows "copy_piece m sp buf n pos = Some (min (len sp - pos) n,
    take (min (length h - unat pos) (unat n)) (drop (unat pos) h) @ drop (min (length h - unat pos) (unat n)) buf)"
proof -
  have l: "unat (len sp) = length h" by (rule length_chars_of [OF assms(1)])
  then have "unat (len sp - pos) = length h - unat pos" using assms(2) by (simp add: unat_sub word_le_nat_alt)
  then have r: "unat (min (len sp - pos) n) = min (length h - unat pos) (unat n)" by (simp add: unat_min)
  have "chars m (data_ptr sp + unat pos) (min (length h - unat pos) (unat n)) = Some (take (min (length h - unat pos) (unat n)) (drop (unat pos) h))"
    using l assms(2) by (intro chars_within [OF assms(1) [unfolded chars_of_def]]) simp
  moreover have "min (length h - unat pos) (unat n) \<le> length buf" using assms(3) by simp
  ultimately show ?thesis unfolding copy_piece_def Let_def r by (simp only: Option.bind.bind_lunit check_True)
qed

lemma copy_reads_behind:
  assumes "n \<le> len sp - pos" "chars m (data_ptr sp + unat pos) (unat n) = Some s" "unat n \<le> length buf"
  shows "copy_piece m sp buf n pos = Some (n, s @ drop (unat n) buf)"
  using assms by (simp add: copy_piece_def Let_def min_def)

section \<open>Properties\<close>

text \<open>C32. Searching for a string: \<open>find\<close> returns the first index from \<open>pos\<close> on at which the string
  occurs, and \<open>rfind\<close> the last one up to \<open>pos\<close>; and searching for a character: the first index from \<open>pos\<close> on
  that has it, and the last one up to \<open>pos\<close>. All return \<open>npos\<close> when there is none. They read nothing
  outside the two pieces, also for an empty string and for a \<open>pos\<close> beyond the end.\<close>

theorem StringPiece_find_correct:
  assumes "chars_of m sp = Some h" "chars_of m s = Some n" "length h + length n < 2 ^ 64"
  shows "find_piece m sp s pos = Some (first_pos (occurs h n) [unat pos..<Suc (length h)]) \<and>
    rfind m sp s pos = Some (first_pos (occurs h n) (rev [0..<Suc (min (unat pos) (length h))])) \<and>
    find_c m sp c pos = Some (first_pos (\<lambda>i. h ! i = c) [unat pos..<length h]) \<and>
    rfind_c m sp c pos = Some (first_pos (\<lambda>i. h ! i = c) (rev [0..<min (Suc (unat pos)) (length h)]))"
  using find_piece_eq [OF assms] rfind_eq [OF assms(1,2)] find_c_eq [OF assms(1)] rfind_c_eq [OF assms(1)]
  unfolding backward_def by blast

theorem StringPiece_find_correct_witness:
  "let m = [0, 97, 98, 97, 98] :: byte list; sp = StringPiece_range 1 4; s = StringPiece_range 3 2 in
    find_piece m sp s 1 = Some 2 \<and> rfind m sp s 1 = Some 0 \<and> find_c m sp 97 1 = Some 2 \<and> rfind_c m sp 98 2 = Some 1"
proof -
  let ?m = "[0, 97, 98, 97, 98] :: byte list" and ?sp = "StringPiece_range 1 4" and ?s = "StringPiece_range 3 2"
  have "chars_of ?m ?sp = Some [97, 98, 97, 98]" "chars_of ?m ?s = Some [97, 98]"
    by (simp_all add: chars_of_def chars_def StringPiece_range_def)
  from StringPiece_find_correct [OF this, of 1 97] StringPiece_find_correct [OF this, of 2 98]
  have "find_piece ?m ?sp ?s 1 = Some 2 \<and> rfind ?m ?sp ?s 1 = Some 0" "find_c ?m ?sp 97 1 = Some 2" "rfind_c ?m ?sp 98 2 = Some 1"
    by (simp_all add: first_pos_def occurs_def upt_conv_Cons)
  then show ?thesis by (simp add: Let_def)
qed

text \<open>C33. Searching for characters: the four functions with a set of characters return the first index
  from \<open>pos\<close> on, or the last one up to \<open>pos\<close>, whose character is in the set, or is not; the lookup table
  makes no difference. The exception is \<open>find_first_not_of\<close> with an empty set: it ignores \<open>pos\<close> and
  returns 0.\<close>

theorem StringPiece_find_of_correct:
  assumes "chars_of m sp = Some h" "chars_of m s = Some n"
  shows "find_first_of m sp s pos = Some (first_pos (\<lambda>i. h ! i \<in> set n) [unat pos..<length h]) \<and>
    find_last_of m sp s pos = Some (first_pos (\<lambda>i. h ! i \<in> set n) (backward pos (length h))) \<and>
    find_first_not_of m sp s pos = Some (if n = [] \<and> h \<noteq> [] then 0 else first_pos (\<lambda>i. h ! i \<notin> set n) [unat pos..<length h]) \<and>
    find_last_not_of m sp s pos = Some (first_pos (\<lambda>i. h ! i \<notin> set n) (backward pos (length h)))"
proof -
  have "find_first_not_of m sp s pos = Some (if n = [] \<and> h \<noteq> [] then 0 else first_pos (\<lambda>i. h ! i \<notin> set n) [unat pos..<length h])"
    using find_of_eq(3) [OF assms, of pos] len_tests [OF assms(1)] len_tests [OF assms(2)]
    by (cases "n = []") (auto simp: find_first_not_of_def first_pos_def)
  then show ?thesis using find_of_eq(1,2,4) [OF assms, of pos] by blast
qed

theorem StringPiece_find_of_correct_witness:
  "let m = [0, 97, 98, 99, 97] :: byte list; sp = StringPiece_range 1 4 in
    find_first_of m sp (StringPiece_range 2 2) 0 = Some 1 \<and> find_first_not_of m sp (StringPiece_range 0 0) 3 = Some 0"
proof -
  let ?m = "[0, 97, 98, 99, 97] :: byte list" and ?sp = "StringPiece_range 1 4"
  have h: "chars_of ?m ?sp = Some [97, 98, 99, 97]" and n: "chars_of ?m (StringPiece_range 2 2) = Some [98, 99]"
    and e: "chars_of ?m (StringPiece_range 0 0) = Some []"
    by (simp_all add: chars_of_def chars_def StringPiece_range_def)
  have "find_first_of ?m ?sp (StringPiece_range 2 2) 0 = Some 1"
    using StringPiece_find_of_correct [OF h n, of 0] by (simp add: first_pos_def upt_conv_Cons)
  moreover have "find_first_not_of ?m ?sp (StringPiece_range 0 0) 3 = Some 0"
    using StringPiece_find_of_correct [OF h e, of 3] by simp
  ultimately show ?thesis by (simp add: Let_def)
qed

text \<open>The comparisons of pieces are those of their characters: \<open>==\<close> is equality, \<open><\<close> is the
  lexicographic order with unsigned characters, which is total, the other operators and \<open>compare\<close>
  agree with them, wherever the characters are stored.\<close>

lemma StringPiece_order:
  assumes "chars_of m x = Some a" "chars_of m y = Some b"
  shows "sp_eq m x y = Some (a = b) \<and> sp_neq m x y = Some (a \<noteq> b) \<and>
    sp_less m x y = Some (ord_class.lexordp a b) \<and> sp_greater m x y = Some (ord_class.lexordp b a) \<and>
    sp_less_eq m x y = Some (a = b \<or> ord_class.lexordp a b) \<and> sp_greater_eq m x y = Some (a = b \<or> ord_class.lexordp b a) \<and>
    (\<exists>r. compare m x y = Some r \<and> (r < 0 \<longleftrightarrow> ord_class.lexordp a b) \<and> (r = 0 \<longleftrightarrow> a = b))"
proof -
  have "(\<not> ord_class.lexordp b a) = (a = b \<or> ord_class.lexordp a b)" for a b :: "'a word list"
    using lexordp_linear [of a b] lexordp_antisym [of a b] lexordp_irreflexive' [of a] by auto
  then show ?thesis
    using operators_eq [OF assms] operators_eq(1) [OF assms(2,1)]
    by (auto simp: sp_neq_def sp_greater_def sp_less_eq_def sp_greater_eq_def)
qed

end
