(* ===== verification/String16.thy ===== *)
theory String16 imports String_Piece begin

text \<open>
  \<open>string16.h\<close> and \<open>string16.cc\<close>: the character traits of UTF-16 strings on machines whose \<open>wchar_t\<close> has 32
  bits, and the hash functions of \<open>hash_tables.h\<close>. Memory is a list of characters, as in \<open>String_Piece\<close>;
  address 0 is the null pointer. The class \<open>std::basic_string\<close> that is built from them is the standard
  library's.
\<close>

section \<open>Functions on characters\<close>

definition deref16 :: "u16 list \<Rightarrow> nat \<Rightarrow> u16 option" where
  "deref16 m p = (if p = 0 then None else rd m p)"

fun c16memcmp :: "u16 list \<Rightarrow> nat \<Rightarrow> nat \<Rightarrow> nat \<Rightarrow> int option" where
  "c16memcmp m s1 s2 0 = Some 0"
| "c16memcmp m s1 s2 (Suc n) = do {
     a \<leftarrow> deref16 m s1;
     b \<leftarrow> deref16 m s2;
     if a \<noteq> b then Some (if a < b then - 1 else 1) else c16memcmp m (Suc s1) (Suc s2) n }"

partial_function (option) find_null :: "u16 list \<Rightarrow> nat \<Rightarrow> nat option" where
  "find_null m s = do { c \<leftarrow> deref16 m s; if c \<noteq> 0 then find_null m (Suc s) else Some s }"

definition c16len :: "u16 list \<Rightarrow> nat \<Rightarrow> nat option" where
  "c16len m s = do { e \<leftarrow> find_null m s; Some (e - s) }"

fun c16memchr :: "u16 list \<Rightarrow> nat \<Rightarrow> u16 \<Rightarrow> nat \<Rightarrow> nat option" where
  "c16memchr m s c 0 = Some 0"
| "c16memchr m s c (Suc n) = do { a \<leftarrow> deref16 m s; if a = c then Some s else c16memchr m (Suc s) c n }"

text \<open>\<open>memmove\<close> and \<open>memcpy\<close>; the latter is undefined on areas that overlap. The result is the memory and the
  returned pointer.\<close>

definition write_chars :: "u16 list \<Rightarrow> nat \<Rightarrow> u16 list \<Rightarrow> u16 list option" where
  "write_chars m p cs =
     (if cs = [] then Some m else if 0 < p \<and> p + length cs \<le> length m then Some (take p m @ cs @ drop (p + length cs) m) else None)"

definition c16memmove :: "u16 list \<Rightarrow> nat \<Rightarrow> nat \<Rightarrow> nat \<Rightarrow> (u16 list \<times> nat) option" where
  "c16memmove m s1 s2 n = do { cs \<leftarrow> chars m s2 n; m \<leftarrow> write_chars m s1 cs; Some (m, s1) }"

definition c16memcpy :: "u16 list \<Rightarrow> nat \<Rightarrow> nat \<Rightarrow> nat \<Rightarrow> (u16 list \<times> nat) option" where
  "c16memcpy m s1 s2 n = do {
     check (n = 0 \<or> s1 + n \<le> s2 \<or> s2 + n \<le> s1);
     cs \<leftarrow> chars m s2 n;
     m \<leftarrow> write_chars m s1 cs;
     Some (m, s1) }"

fun set_loop :: "u16 list \<Rightarrow> nat \<Rightarrow> u16 \<Rightarrow> nat \<Rightarrow> u16 list option" where
  "set_loop m s c 0 = Some m"
| "set_loop m s c (Suc n) = do { check (s \<noteq> 0); m \<leftarrow> wr m s c; set_loop m (Suc s) c n }"

definition c16memset :: "u16 list \<Rightarrow> nat \<Rightarrow> u16 \<Rightarrow> nat \<Rightarrow> (u16 list \<times> nat) option" where
  "c16memset m s c n = do { m \<leftarrow> set_loop m s c n; Some (m, s) }"

section \<open>\<open>string16_char_traits\<close>\<close>

definition traits_eq :: "u16 \<Rightarrow> u16 \<Rightarrow> bool" where "traits_eq c1 c2 = (c1 = c2)"
definition traits_lt :: "u16 \<Rightarrow> u16 \<Rightarrow> bool" where "traits_lt c1 c2 = (c1 < c2)"
definition traits_compare :: "u16 list \<Rightarrow> nat \<Rightarrow> nat \<Rightarrow> nat \<Rightarrow> int option" where "traits_compare = c16memcmp"
definition traits_length :: "u16 list \<Rightarrow> nat \<Rightarrow> nat option" where "traits_length = c16len"
definition traits_find :: "u16 list \<Rightarrow> nat \<Rightarrow> nat \<Rightarrow> u16 \<Rightarrow> nat option" where "traits_find m s n a = c16memchr m s a n"

text \<open>\<open>move\<close> takes its length as an \<open>int\<close>, which is converted to \<open>size_t\<close>.\<close>

definition traits_move :: "u16 list \<Rightarrow> nat \<Rightarrow> nat \<Rightarrow> int \<Rightarrow> (u16 list \<times> nat) option" where
  "traits_move m s1 s2 n = c16memmove m s1 s2 (unat (word_of_int n :: u64))"

definition traits_copy :: "u16 list \<Rightarrow> nat \<Rightarrow> nat \<Rightarrow> nat \<Rightarrow> (u16 list \<times> nat) option" where "traits_copy = c16memcpy"
definition traits_assign :: "u16 list \<Rightarrow> nat \<Rightarrow> nat \<Rightarrow> u16 \<Rightarrow> (u16 list \<times> nat) option" where
  "traits_assign m s n a = c16memset m s a n"

definition eof :: int where "eof = - 1"
definition eq_int_type :: "int \<Rightarrow> int \<Rightarrow> bool" where "eq_int_type c1 c2 = (c1 = c2)"
definition not_eof :: "int \<Rightarrow> int" where "not_eof c = (if eq_int_type c eof then 0 else c)"
definition to_char_type :: "int \<Rightarrow> u16" where "to_char_type c = word_of_int c"
definition to_int_type :: "u16 \<Rightarrow> int" where "to_int_type c = uint c"

section \<open>Hash functions\<close>

definition string_hash :: "byte list \<Rightarrow> u64" where
  "string_hash s = fold (\<lambda>c result. result * 131 + scast c) s 0"

definition string16_hash :: "u16 list \<Rightarrow> u64" where
  "string16_hash s = fold (\<lambda>c result. result * 131 + ucast c) s 0"

text \<open>A view has the hash of the string it shows.\<close>

lemma piece_hashes:
  "chars_of m sp = Some s \<Longrightarrow> StringPiece_hash m sp = Some (string_hash s)"
  "chars_of m' sp = Some s' \<Longrightarrow> StringPiece16_hash m' sp = Some (string16_hash s')"
  by (simp_all add: StringPiece_hash_def StringPiece16_hash_def hash_piece_def chars_of_def string_hash_def string16_hash_def)

section \<open>What the functions compute\<close>

lemma chars_Suc:
  "chars m p (Suc n) = Some s \<longleftrightarrow> (\<exists>c cs. s = c # cs \<and> deref16 m p = Some c \<and> chars m (Suc p) n = Some cs)"
proof -
  have "take (Suc n) (drop p m) = m ! p # take n (drop (Suc p) m)" if "p + Suc n \<le> length m"
    using that by (simp add: Cons_nth_drop_Suc [symmetric])
  then show ?thesis by (auto simp: chars_def deref16_def rd_def)
qed

lemma c16memcmp_eq:
  "chars m s1 n = Some a \<Longrightarrow> chars m s2 n = Some b \<Longrightarrow> c16memcmp m s1 s2 n = Some (memcmp a b)"
proof (induction n arbitrary: s1 s2 a b)
  case 0
  then show ?case by (simp add: chars_def)
next
  case (Suc n)
  then obtain c cs d ds where "a = c # cs" "deref16 m s1 = Some c" "chars m (Suc s1) n = Some cs"
    "b = d # ds" "deref16 m s2 = Some d" "chars m (Suc s2) n = Some ds"
    unfolding chars_Suc by blast
  with Suc.IH show ?case by auto
qed

lemma c16memchr_eq:
  "chars m s n = Some a \<Longrightarrow> c16memchr m s c n = Some (if c \<in> set a then s + find_char a c else 0)"
proof (induction n arbitrary: s a)
  case 0
  then show ?case by (simp add: chars_def)
next
  case (Suc n)
  then obtain d ds where "a = d # ds" "deref16 m s = Some d" "chars m (Suc s) n = Some ds"
    unfolding chars_Suc by blast
  with Suc.IH show ?case by (auto simp: find_char_def)
qed

lemma c16len_eq:
  assumes "0 < s"
  shows "c16len m s = strlen (drop s m)"
proof -
  have "find_null m s = map_option (\<lambda>k. s + k) (strlen (drop s m))"
    using assms
  proof (induction "length m - s" arbitrary: s)
    case 0
    then show ?case by (subst find_null.simps) (simp add: deref16_def rd_def)
  next
    case (Suc k)
    then have "s < length m" by simp
    then have d: "drop s m = m ! s # drop (Suc s) m" by (simp add: Cons_nth_drop_Suc)
    show ?case
    proof (cases "m ! s = 0")
      case True
      then show ?thesis using \<open>s < length m\<close> Suc.prems unfolding d
        by (subst find_null.simps) (simp add: deref16_def rd_def)
    next
      case False
      have "find_null m (Suc s) = map_option (\<lambda>k. Suc s + k) (strlen (drop (Suc s) m))"
        by (rule Suc.hyps(1)) (use Suc.hyps(2) in simp_all)
      then show ?thesis using False \<open>s < length m\<close> Suc.prems unfolding d
        by (subst find_null.simps) (simp add: deref16_def rd_def option.map_comp o_def)
    qed
  qed
  then show ?thesis by (cases "strlen (drop s m)") (simp_all add: c16len_def)
qed

lemma set_loop_eq:
  assumes "0 < s" "s + n \<le> length m"
  shows "set_loop m s c n = Some (take s m @ replicate n c @ drop (s + n) m)"
  using assms
proof (induction n arbitrary: m s)
  case (Suc n)
  have "s < length m" using Suc.prems by simp
  then have m: "m[s := c] = take s m @ c # drop (Suc s) m" by (rule upd_conv_take_nth_drop)
  have "set_loop (m[s := c]) (Suc s) c n = Some (take (Suc s) (m[s := c]) @ replicate n c @ drop (Suc s + n) (m[s := c]))"
    using Suc by simp
  also have "take (Suc s) (m[s := c]) = take s m @ [c]" using \<open>s < length m\<close> by (simp add: m)
  finally show ?case using \<open>s < length m\<close> Suc.prems(1) by (simp add: check_def wr_def)
qed simp

text \<open>The character traits do what the standard library asks of them. On characters that are in memory,
  \<open>compare\<close> is the lexicographic comparison that \<open>StringPiece16\<close> uses, \<open>find\<close> gives the first occurrence or the
  null pointer, \<open>length\<close> the distance to the null character, and \<open>assign\<close> and \<open>move\<close> change exactly their
  area. Every character survives the way through \<open>int_type\<close>, is different from \<open>eof\<close>, and \<open>not_eof\<close> is
  the identity on everything but \<open>eof\<close>.\<close>

lemma string16_traits_correct:
  assumes "chars m s1 n = Some a" and "chars m s2 n = Some b" and "0 < n" "n < 2 ^ 31"
  shows "traits_compare m s1 s2 n = Some (memcmp a b) \<and> traits_compare m s1 s2 n = wordmemcmp m s1 s2 (word_of_nat n) \<and>
    traits_find m s1 n c = Some (if c \<in> set a then s1 + find_char a c else 0) \<and>
    traits_length m s1 = strlen (drop s1 m) \<and>
    traits_assign m s1 n c = Some (take s1 m @ replicate n c @ drop (s1 + n) m, s1) \<and>
    traits_move m s1 s2 (int n) = Some (take s1 m @ b @ drop (s1 + n) m, s1) \<and>
    to_char_type (to_int_type c) = c \<and> to_int_type c \<noteq> eof \<and> not_eof (to_int_type c) = to_int_type c \<and> not_eof eof \<noteq> eof"
proof -
  have in1: "0 < s1" "s1 + n \<le> length m" using assms(1,3) by (auto simp: chars_def split: if_splits)
  have b: "length b = n" using assms(2) by (rule length_chars)
  have n: "unat (word_of_nat n :: u64) = n" using assms(4) take_bit_nat_eq_self [of n 64] by (simp add: unsigned_of_nat)
  have "traits_move m s1 s2 (int n) = Some (take s1 m @ b @ drop (s1 + n) m, s1)"
    using assms(2,3) in1 b n by (auto simp: traits_move_def c16memmove_def write_chars_def)
  moreover have "uint c \<noteq> - 1" using uint_nonnegative [of c] by linarith
  ultimately show ?thesis
    using c16memcmp_eq [OF assms(1,2)] c16memchr_eq [OF assms(1)] c16len_eq [OF in1(1)] set_loop_eq [OF in1] assms(1,2) n
    by (simp add: traits_compare_def traits_find_def traits_length_def traits_assign_def c16memset_def wordmemcmp_def
      to_char_type_def to_int_type_def eof_def eq_int_type_def not_eof_def)
qed

end
