(* ===== verification/Cfb_Mode.thy ===== *)
theory Cfb_Mode imports Prelude begin

text \<open>
  \<open>cryptopp/strciphr.cpp\<close> and \<open>modes.cpp\<close>: the cipher feedback mode that \<open>Crypto::SymmEncrypt\<close> and
  \<open>Crypto::SymmDecrypt\<close> use. The block cipher under its key is a parameter: a function \<open>E\<close> from blocks to
  blocks. The feedback size is the size of a block, which is what \<open>SetFeedbackSize\<close> chooses without a
  parameter. \<open>ProcessData\<close> is called on a message piece by piece; the sizes of the pieces and the
  alignment of the buffers decide which of its loops run.
\<close>

section \<open>The code\<close>

datatype cipher_dir = ENCRYPTION | DECRYPTION

record cfb =
  m_register :: "byte list"
  m_leftOver :: nat

definition BlockSize :: nat where "BlockSize = 16"

text \<open>\<open>xorbuf\<close> on two blocks.\<close>

definition xor_block :: "byte list \<Rightarrow> byte list \<Rightarrow> byte list" where
  "xor_block xs ys = map2 (XOR) xs ys"

definition TransformRegister :: "(byte list \<Rightarrow> byte list) \<Rightarrow> cfb \<Rightarrow> cfb" where
  "TransformRegister E c =
     (let m_temp = E (m_register c);
          updateSize = BlockSize - BlockSize
      in c\<lparr>m_register := take updateSize (drop BlockSize (m_register c)) @ take BlockSize m_temp\<rparr>)"

text \<open>\<open>CipherResynchronize\<close> and \<open>UncheckedSetKey\<close>.\<close>

definition CipherResynchronize :: "(byte list \<Rightarrow> byte list) \<Rightarrow> byte list \<Rightarrow> cfb \<Rightarrow> cfb option" where
  "CipherResynchronize E iv c = do {
     check (length iv = BlockSize);
     Some (TransformRegister E (c\<lparr>m_register := iv\<rparr>)) }"

definition UncheckedSetKey :: "(byte list \<Rightarrow> byte list) \<Rightarrow> byte list \<Rightarrow> cfb option" where
  "UncheckedSetKey E iv = do {
     c \<leftarrow> CipherResynchronize E iv \<lparr>m_register = [], m_leftOver = 0\<rparr>;
     Some (c\<lparr>m_leftOver := BlockSize\<rparr>) }"

text \<open>\<open>CombineMessageAndShiftRegister\<close> from the place \<open>i\<close> of the register on; the result has the output.\<close>

fun combine_encrypt :: "nat \<Rightarrow> byte list \<Rightarrow> byte list \<Rightarrow> (byte list \<times> byte list) option" where
  "combine_encrypt i [] reg = Some (reg, [])"
| "combine_encrypt i (b # msg) reg = do {
     x \<leftarrow> rd reg i;
     reg \<leftarrow> wr reg i (x XOR b);
     (reg, out) \<leftarrow> combine_encrypt (Suc i) msg reg;
     Some (reg, (x XOR b) # out) }"

fun combine_decrypt :: "nat \<Rightarrow> byte list \<Rightarrow> byte list \<Rightarrow> (byte list \<times> byte list) option" where
  "combine_decrypt i [] reg = Some (reg, [])"
| "combine_decrypt i (b # msg) reg = do {
     x \<leftarrow> rd reg i;
     reg \<leftarrow> wr reg i b;
     (reg, out) \<leftarrow> combine_decrypt (Suc i) msg reg;
     Some (reg, (x XOR b) # out) }"

definition CombineMessageAndShiftRegister :: "cipher_dir \<Rightarrow> nat \<Rightarrow> byte list \<Rightarrow> cfb \<Rightarrow> (cfb \<times> byte list) option" where
  "CombineMessageAndShiftRegister dir i msg c = do {
     (reg, out) \<leftarrow> (case dir of ENCRYPTION \<Rightarrow> combine_encrypt | DECRYPTION \<Rightarrow> combine_decrypt) i msg (m_register c);
     Some (c\<lparr>m_register := reg\<rparr>, out) }"

text \<open>
  \<open>Iterate\<close> on whole blocks, in the buffer \<open>bs\<close> that holds the input blocks at first: encryption goes
  forwards and feeds each output block to the next one; decryption goes backwards, so that each block is
  still the input when the next one is decrypted. With separate buffers the blocks that are read are the
  same.
\<close>

definition xor_previous :: "(byte list \<Rightarrow> byte list) \<Rightarrow> nat \<Rightarrow> byte list list \<Rightarrow> byte list list option" where
  "xor_previous E k bs = do { p \<leftarrow> rd bs (k - 1); b \<leftarrow> rd bs k; wr bs k (xor_block (E p) b) }"

definition Iterate :: "(byte list \<Rightarrow> byte list) \<Rightarrow> cipher_dir \<Rightarrow> byte list list \<Rightarrow> cfb \<Rightarrow> (cfb \<times> byte list list) option" where
  "Iterate E dir bs c = do {
     let n = length bs;
     temp \<leftarrow> rd bs (n - 1);
     case dir of
       ENCRYPTION \<Rightarrow> do {
         b \<leftarrow> rd bs 0;
         bs \<leftarrow> wr bs 0 (xor_block (E (m_register c)) b);
         bs \<leftarrow> for_in [1..<n] (xor_previous E) bs;
         r \<leftarrow> rd bs (n - 1);
         Some (c\<lparr>m_register := r\<rparr>, bs) }
     | DECRYPTION \<Rightarrow> do {
         bs \<leftarrow> for_in (rev [1..<n]) (xor_previous E) bs;
         b \<leftarrow> rd bs 0;
         bs \<leftarrow> wr bs 0 (xor_block (E (m_register c)) b);
         Some (c\<lparr>m_register := temp\<rparr>, bs) } }"

text \<open>A buffer cut into blocks.\<close>

fun blocks :: "nat \<Rightarrow> byte list \<Rightarrow> byte list list" where
  "blocks 0 xs = []"
| "blocks (Suc n) xs = take BlockSize xs # blocks n (drop BlockSize xs)"

text \<open>The loops of \<open>ProcessData\<close>. The register begins at place 0, as the feedback size is a block.\<close>

function whole_blocks :: "(byte list \<Rightarrow> byte list) \<Rightarrow> cipher_dir \<Rightarrow> byte list \<Rightarrow> cfb \<Rightarrow> (cfb \<times> byte list \<times> byte list) option" where
  "whole_blocks E dir inp c =
     (if length inp \<ge> BlockSize then do {
        (c, out) \<leftarrow> CombineMessageAndShiftRegister dir 0 (take BlockSize inp) (TransformRegister E c);
        (c, rest, outs) \<leftarrow> whole_blocks E dir (drop BlockSize inp) c;
        Some (c, rest, out @ outs) }
      else Some (c, inp, []))"
  by pat_completeness auto
termination by (relation "measure (\<lambda>(_, _, inp, _). length inp)") (auto simp: BlockSize_def)

declare whole_blocks.simps [simp del]

definition ProcessData :: "(byte list \<Rightarrow> byte list) \<Rightarrow> cipher_dir \<Rightarrow> byte list \<times> bool \<Rightarrow> cfb \<times> byte list \<Rightarrow> (cfb \<times> byte list) option" where
  "ProcessData E dir = (\<lambda>(inp, aligned) (c, acc). do {
     (c, inp, out1) \<leftarrow>
       (if m_leftOver c \<noteq> 0 then do {
          let len = min (m_leftOver c) (length inp);
          (c, out) \<leftarrow> CombineMessageAndShiftRegister dir (BlockSize - m_leftOver c) (take len inp) c;
          Some (c\<lparr>m_leftOver := m_leftOver c - len\<rparr>, drop len inp, out) }
        else Some (c, inp, []));
     if inp = [] then Some (c, acc @ out1)
     else do {
       check (m_leftOver c = 0);
       (c, inp, out2) \<leftarrow>
         (if length inp \<ge> BlockSize \<and> aligned then do {
            let n = length inp div BlockSize;
            (c, bs) \<leftarrow> Iterate E dir (blocks n inp) c;
            Some (c, drop (n * BlockSize) inp, concat bs) }
          else Some (c, inp, []));
       (c, inp, out3) \<leftarrow> whole_blocks E dir inp c;
       if inp \<noteq> [] then do {
         (c, out4) \<leftarrow> CombineMessageAndShiftRegister dir 0 inp (TransformRegister E c);
         Some (c\<lparr>m_leftOver := BlockSize - length inp\<rparr>, acc @ out1 @ out2 @ out3 @ out4) }
       else Some (c, acc @ out1 @ out2 @ out3) } })"

text \<open>A whole message, in the pieces that the stream filter hands over, each with the alignment of its buffer.\<close>

definition cfb_message :: "(byte list \<Rightarrow> byte list) \<Rightarrow> cipher_dir \<Rightarrow> byte list \<Rightarrow> (byte list \<times> bool) list \<Rightarrow> byte list option" where
  "cfb_message E dir iv pieces = do {
     c \<leftarrow> UncheckedSetKey E iv;
     (c, out) \<leftarrow> for_in pieces (ProcessData E dir) (c, []);
     Some out }"

section \<open>One byte at a time\<close>

text \<open>
  The reference: a byte is combined with the next byte of the register, which the cipher fills anew when
  it is used up; the register keeps the byte of the ciphertext.
\<close>

definition refill :: "(byte list \<Rightarrow> byte list) \<Rightarrow> cfb \<Rightarrow> cfb" where
  "refill E c = (if m_leftOver c = 0 then \<lparr>m_register = E (m_register c), m_leftOver = BlockSize\<rparr> else c)"

definition byte_step :: "(byte list \<Rightarrow> byte list) \<Rightarrow> cipher_dir \<Rightarrow> byte \<Rightarrow> cfb \<Rightarrow> cfb \<times> byte" where
  "byte_step E dir b c =
     (let c = refill E c; i = BlockSize - m_leftOver c; o_byte = m_register c ! i XOR b
      in (c\<lparr>m_register := (m_register c)[i := (case dir of ENCRYPTION \<Rightarrow> o_byte | DECRYPTION \<Rightarrow> b)],
            m_leftOver := m_leftOver c - 1\<rparr>, o_byte))"

fun byte_wise :: "(byte list \<Rightarrow> byte list) \<Rightarrow> cipher_dir \<Rightarrow> byte list \<Rightarrow> cfb \<Rightarrow> cfb \<times> byte list" where
  "byte_wise E dir [] c = (c, [])"
| "byte_wise E dir (b # bs) c = (let (c, o_byte) = byte_step E dir b c; (c, out) = byte_wise E dir bs c in (c, o_byte # out))"

lemma byte_wise_append:
  "byte_wise E dir (xs @ ys) c = (let (c, out) = byte_wise E dir xs c; (c, out') = byte_wise E dir ys c in (c, out @ out'))"
  by (induction xs arbitrary: c) (simp_all add: Let_def split: prod.splits)

definition cfb_ok :: "cfb \<Rightarrow> bool" where
  "cfb_ok c \<longleftrightarrow> length (m_register c) = BlockSize \<and> m_leftOver c \<le> BlockSize"

definition keeps_size :: "(byte list \<Rightarrow> byte list) \<Rightarrow> bool" where
  "keeps_size E \<longleftrightarrow> (\<forall>b. length (E b) = BlockSize)"

lemma byte_step_ok: "keeps_size E \<Longrightarrow> cfb_ok c \<Longrightarrow> cfb_ok (fst (byte_step E dir b c))"
  by (auto simp: byte_step_def refill_def cfb_ok_def keeps_size_def Let_def)

lemma byte_wise_ok: "keeps_size E \<Longrightarrow> cfb_ok c \<Longrightarrow> cfb_ok (fst (byte_wise E dir bs c)) \<and> length (snd (byte_wise E dir bs c)) = length bs"
proof (induction bs arbitrary: c)
  case (Cons b bs)
  obtain c' o_byte where s: "byte_step E dir b c = (c', o_byte)" by fastforce
  then have "cfb_ok c'" using byte_step_ok [OF Cons.prems, of dir b] by simp
  with Cons.IH [OF Cons.prems(1) this] show ?case by (cases "byte_wise E dir bs c'") (simp add: s Let_def)
qed simp

text \<open>\<open>CombineMessageAndShiftRegister\<close> within what is left of the register is byte by byte.\<close>

lemma register_inject [simp]: "c\<lparr>m_register := a\<rparr> = c\<lparr>m_register := b\<rparr> \<longleftrightarrow> a = b"
  by (cases c) simp

lemma combine_iff:
  "CombineMessageAndShiftRegister dir i msg c = Some (c\<lparr>m_register := r\<rparr>, out) \<longleftrightarrow>
   (case dir of ENCRYPTION \<Rightarrow> combine_encrypt | DECRYPTION \<Rightarrow> combine_decrypt) i msg (m_register c) = Some (r, out)"
  by (auto simp: CombineMessageAndShiftRegister_def bind_eq_Some_conv)

lemma combine_bytes:
  assumes "cfb_ok c" "length msg \<le> m_leftOver c"
  shows "\<exists>c' out. byte_wise E dir msg c = (c', out) \<and> m_leftOver c' = m_leftOver c - length msg \<and>
    CombineMessageAndShiftRegister dir (BlockSize - m_leftOver c) msg c = Some (c\<lparr>m_register := m_register c'\<rparr>, out)"
  using assms
proof (induction msg arbitrary: c)
  case Nil
  then show ?case by (cases dir) (simp_all add: CombineMessageAndShiftRegister_def)
next
  case (Cons b msg)
  let ?i = "BlockSize - m_leftOver c"
  define r where "r = (m_register c)[?i := (case dir of ENCRYPTION \<Rightarrow> m_register c ! ?i XOR b | DECRYPTION \<Rightarrow> b)]"
  define c1 where "c1 = c\<lparr>m_register := r, m_leftOver := m_leftOver c - 1\<rparr>"
  have pos: "m_leftOver c \<noteq> 0" "?i < length (m_register c)" using Cons.prems by (auto simp: cfb_ok_def)
  have step: "byte_step E dir b c = (c1, m_register c ! ?i XOR b)"
    using pos by (simp add: byte_step_def refill_def Let_def c1_def r_def)
  have c1: "cfb_ok c1" "length msg \<le> m_leftOver c1" "BlockSize - m_leftOver c1 = Suc ?i"
    using Cons.prems pos by (auto simp: cfb_ok_def c1_def r_def)
  obtain c2 out where "byte_wise E dir msg c1 = (c2, out)" "m_leftOver c2 = m_leftOver c1 - length msg"
    "(case dir of ENCRYPTION \<Rightarrow> combine_encrypt | DECRYPTION \<Rightarrow> combine_decrypt) (Suc ?i) msg r = Some (m_register c2, out)"
    using Cons.IH [OF c1(1,2)] unfolding c1(3) combine_iff by (auto simp: c1_def)
  then show ?case
    using pos step unfolding combine_iff by (cases dir) (auto simp: access_simps r_def c1_def Let_def)
qed

lemma cfb_eqI: "m_register c = m_register d \<Longrightarrow> m_leftOver c = m_leftOver d \<Longrightarrow> c = (d :: cfb)"
  by (cases c; cases d) simp

lemma transformed: "keeps_size E \<Longrightarrow> TransformRegister E c = c\<lparr>m_register := E (m_register c)\<rparr>"
  by (simp add: TransformRegister_def keeps_size_def)

lemma byte_wise_refill: "msg \<noteq> [] \<Longrightarrow> byte_wise E dir msg (refill E c) = byte_wise E dir msg c"
proof -
  have "refill E (refill E c) = refill E c" by (simp add: refill_def BlockSize_def)
  then have "byte_step E dir b (refill E c) = byte_step E dir b c" for b by (simp add: byte_step_def)
  then show "msg \<noteq> [] \<Longrightarrow> byte_wise E dir msg (refill E c) = byte_wise E dir msg c" by (cases msg) simp_all
qed

lemma refill_ok: "keeps_size E \<Longrightarrow> cfb_ok c \<Longrightarrow> cfb_ok (refill E c)"
  by (simp add: refill_def cfb_ok_def keeps_size_def)

text \<open>A fresh register and at most a block of the message.\<close>

lemma fresh_bytes:
  assumes E: "keeps_size E" and c: "cfb_ok c" "m_leftOver c = 0" and msg: "msg \<noteq> []" "length msg \<le> BlockSize"
  shows "\<exists>c' out. byte_wise E dir msg c = (c', out) \<and> m_leftOver c' = BlockSize - length msg \<and>
    CombineMessageAndShiftRegister dir 0 msg (TransformRegister E c) = Some (c'\<lparr>m_leftOver := 0\<rparr>, out)"
proof -
  have r: "m_leftOver (refill E c) = BlockSize" "m_register (refill E c) = m_register (TransformRegister E c)"
    using c(2) transformed [OF E] by (simp_all add: refill_def)
  obtain c' out where b: "byte_wise E dir msg (refill E c) = (c', out)" "m_leftOver c' = BlockSize - length msg"
    "CombineMessageAndShiftRegister dir 0 msg (refill E c) = Some ((refill E c)\<lparr>m_register := m_register c'\<rparr>, out)"
    using combine_bytes [OF refill_ok [OF E c(1)], of msg E dir] msg(2) r(1) by auto
  have "CombineMessageAndShiftRegister dir 0 msg (TransformRegister E c) = Some ((TransformRegister E c)\<lparr>m_register := m_register c'\<rparr>, out)"
    using b(3) unfolding combine_iff r(2) .
  moreover have "(TransformRegister E c)\<lparr>m_register := m_register c'\<rparr> = c'\<lparr>m_leftOver := 0\<rparr>"
    using c(2) transformed [OF E] by (intro cfb_eqI) simp_all
  ultimately show ?thesis using b byte_wise_refill [OF msg(1)] by auto
qed

lemma whole_blocks_bytes:
  assumes E: "keeps_size E" and c: "cfb_ok c" "m_leftOver c = 0"
  shows "\<exists>c' xs rest out. whole_blocks E dir inp c = Some (c', rest, out) \<and> inp = xs @ rest \<and> length rest < BlockSize \<and>
    byte_wise E dir xs c = (c', out) \<and> m_leftOver c' = 0"
  using c
proof (induction inp arbitrary: c rule: length_induct)
  case (1 inp)
  show ?case
  proof (cases "length inp \<ge> BlockSize")
    case False
    then show ?thesis using 1(3) by (subst whole_blocks.simps) (auto intro!: exI [of _ "[]"])
  next
    case True
    let ?b = "take BlockSize inp" and ?r = "drop BlockSize inp"
    have b: "?b \<noteq> []" "length ?b = BlockSize" using True by (auto simp: BlockSize_def)
    obtain c1 out1 where 2: "byte_wise E dir ?b c = (c1, out1)" "m_leftOver c1 = 0"
      "CombineMessageAndShiftRegister dir 0 ?b (TransformRegister E c) = Some (c1\<lparr>m_leftOver := 0\<rparr>, out1)"
      using fresh_bytes [OF E 1(2,3) b(1), of dir] unfolding b(2) by auto
    have c1: "c1\<lparr>m_leftOver := 0\<rparr> = c1" "cfb_ok c1" using 2(1,2) byte_wise_ok [OF E 1(2), of dir ?b] by (auto intro: cfb_eqI)
    have "length ?r < length inp" using True by (simp add: BlockSize_def)
    then obtain c2 xs rest out2 where 3: "whole_blocks E dir ?r c1 = Some (c2, rest, out2)" "?r = xs @ rest" "length rest < BlockSize"
      "byte_wise E dir xs c1 = (c2, out2)" "m_leftOver c2 = 0"
      using 1(1) c1(2) 2(2) by blast
    have "whole_blocks E dir inp c = Some (c2, rest, out1 @ out2)"
      using True 2(3) 3(1) c1(1) by (subst whole_blocks.simps) simp
    moreover have "inp = (?b @ xs) @ rest" using 3(2) append_take_drop_id [of BlockSize inp] by simp
    moreover have "byte_wise E dir (?b @ xs) c = (c2, out1 @ out2)" using 2(1) 3(4) by (simp add: byte_wise_append)
    ultimately show ?thesis using 3(3,5) by blast
  qed
qed

text \<open>\<open>Iterate\<close> is block by block too, whichever direction its loop has.\<close>

fun block_wise :: "(byte list \<Rightarrow> byte list) \<Rightarrow> cipher_dir \<Rightarrow> byte list \<Rightarrow> byte list list \<Rightarrow> byte list \<times> byte list list" where
  "block_wise E dir r [] = (r, [])"
| "block_wise E dir r (b # bs) =
     (let o_block = xor_block (E r) b; (r, out) = block_wise E dir (case dir of ENCRYPTION \<Rightarrow> o_block | DECRYPTION \<Rightarrow> b) bs
      in (r, o_block # out))"

lemma length_block_wise: "length (snd (block_wise E dir r bs)) = length bs"
  by (induction bs arbitrary: r) (simp_all add: Let_def split: prod.splits, metis snd_conv)

lemma block_wise_nth:
  "k < length bs \<Longrightarrow> snd (block_wise E dir r bs) ! k =
     xor_block (E (if k = 0 then r else (case dir of ENCRYPTION \<Rightarrow> snd (block_wise E dir r bs) | DECRYPTION \<Rightarrow> bs) ! (k - 1))) (bs ! k)"
proof (induction bs arbitrary: r k)
  case (Cons b bs)
  obtain r' out where w: "block_wise E dir (case dir of ENCRYPTION \<Rightarrow> xor_block (E r) b | DECRYPTION \<Rightarrow> b) bs = (r', out)" by fastforce
  show ?case
  proof (cases k)
    case (Suc j)
    then have "out ! j = xor_block (E (if j = 0 then (case dir of ENCRYPTION \<Rightarrow> xor_block (E r) b | DECRYPTION \<Rightarrow> b)
        else (case dir of ENCRYPTION \<Rightarrow> out | DECRYPTION \<Rightarrow> bs) ! (j - 1))) (bs ! j)"
      using Cons.IH [of j "case dir of ENCRYPTION \<Rightarrow> xor_block (E r) b | DECRYPTION \<Rightarrow> b"] Cons.prems unfolding w snd_conv by simp
    then show ?thesis using Suc w by (cases j; cases dir) (simp_all add: Let_def)
  qed (simp add: w Let_def)
qed simp

lemma block_wise_register:
  "bs \<noteq> [] \<Longrightarrow> fst (block_wise E dir r bs) = (case dir of ENCRYPTION \<Rightarrow> snd (block_wise E dir r bs) | DECRYPTION \<Rightarrow> bs) ! (length bs - 1)"
proof (induction bs arbitrary: r)
  case (Cons b bs)
  obtain r' out where w: "block_wise E dir (case dir of ENCRYPTION \<Rightarrow> xor_block (E r) b | DECRYPTION \<Rightarrow> b) bs = (r', out)" by fastforce
  show ?case
  proof (cases bs)
    case Nil
    then show ?thesis using w by (cases dir) (simp_all add: Let_def)
  next
    case (Cons b' bs')
    then have "bs \<noteq> []" by simp
    from Cons.IH [OF this, of "case dir of ENCRYPTION \<Rightarrow> xor_block (E r) b | DECRYPTION \<Rightarrow> b"]
    have "r' = (case dir of ENCRYPTION \<Rightarrow> out | DECRYPTION \<Rightarrow> bs) ! (length bs - 1)" unfolding w fst_conv snd_conv .
    then show ?thesis using \<open>bs \<noteq> []\<close> w by (cases dir; cases "length bs") (simp_all add: Let_def)
  qed
qed simp

lemma xor_previous_in:
  "0 < k \<Longrightarrow> k < length bs \<Longrightarrow> xor_previous E k bs = Some (bs[k := xor_block (E (bs ! (k - 1))) (bs ! k)])"
  by (simp add: xor_previous_def access_simps)

lemma Iterate_blocks:
  assumes "bs \<noteq> []"
  shows "Iterate E dir bs c = Some (c\<lparr>m_register := fst (block_wise E dir (m_register c) bs)\<rparr>, snd (block_wise E dir (m_register c) bs))"
proof -
  let ?n = "length bs" and ?r = "m_register c"
  define outs where "outs = snd (block_wise E dir ?r bs)"
  have outs: "length outs = ?n" unfolding outs_def by (rule length_block_wise)
  note nth = block_wise_nth [of _ bs E dir ?r, folded outs_def] and reg = block_wise_register [OF assms, of E dir ?r, folded outs_def]
  show ?thesis
  proof (cases dir)
    case ENCRYPTION
    let ?P = "\<lambda>k s. length s = ?n \<and> (\<forall>i < ?n. s ! i = (if i < k then outs ! i else bs ! i))"
    have "\<exists>s. for_in [1..<?n] (xor_previous E) (bs[0 := xor_block (E ?r) (bs ! 0)]) = Some s \<and> ?P ?n s"
    proof (rule for_in_upt [where P = ?P])
      fix k s assume k: "1 \<le> k" "k < ?n" and s: "?P k s"
      then have "s ! (k - 1) = outs ! (k - 1)" "s ! k = bs ! k" by auto
      then have "xor_previous E k s = Some (s[k := outs ! k])"
        using xor_previous_in [of k s E] k s nth [of k] ENCRYPTION by simp
      moreover have "?P (Suc k) (s[k := outs ! k])" using s k by (auto simp: nth_list_update less_Suc_eq)
      ultimately show "\<exists>s'. xor_previous E k s = Some s' \<and> ?P (Suc k) s'" by blast
    qed (use assms nth [of 0] in \<open>auto simp: nth_list_update Suc_le_eq\<close>)
    then obtain s where s: "for_in [1..<?n] (xor_previous E) (bs[0 := xor_block (E ?r) (bs ! 0)]) = Some s" "?P ?n s" by blast
    then have "s = outs" using outs by (intro nth_equalityI) auto
    then show ?thesis
      using s(1) assms outs reg ENCRYPTION by (simp add: Iterate_def Let_def access_simps outs_def)
  next
    case DECRYPTION
    let ?P = "\<lambda>k s. length s = ?n \<and> (\<forall>i < ?n. s ! i = (if k \<le> i then outs ! i else bs ! i))"
    have "\<exists>s. for_in (rev [1..<?n]) (xor_previous E) bs = Some s \<and> ?P 1 s"
    proof (rule for_in_down [where P = ?P])
      fix k s assume k: "1 \<le> k" "k < ?n" and s: "?P (Suc k) s"
      then have "s ! (k - 1) = bs ! (k - 1)" "s ! k = bs ! k" by auto
      then have "xor_previous E k s = Some (s[k := outs ! k])"
        using xor_previous_in [of k s E] k s nth [of k] DECRYPTION by simp
      moreover have "?P k (s[k := outs ! k])" using s k by (auto simp: nth_list_update le_less Suc_le_eq)
      ultimately show "\<exists>s'. xor_previous E k s = Some s' \<and> ?P k s'" by blast
    qed (use assms in \<open>auto simp: Suc_le_eq\<close>)
    then obtain s where s: "for_in (rev [1..<?n]) (xor_previous E) bs = Some s" "?P 1 s" by blast
    have "s[0 := xor_block (E ?r) (bs ! 0)] = outs"
    proof (rule nth_equalityI)
      fix i assume "i < length (s[0 := xor_block (E ?r) (bs ! 0)])"
      then show "s[0 := xor_block (E ?r) (bs ! 0)] ! i = outs ! i" using s(2) assms nth [of 0] by (cases i) simp_all
    qed (use s(2) outs in simp)
    moreover have "s ! 0 = bs ! 0" using s(2) assms by simp
    ultimately show ?thesis
      using s assms outs reg DECRYPTION by (simp add: Iterate_def Let_def access_simps outs_def)
  qed
qed

lemma xor_block_simps [simp]: "xor_block [] ys = []" "xor_block (x # xs) (y # ys) = (x XOR y) # xor_block xs ys" "xor_block xs [] = []"
  by (simp_all add: xor_block_def)

lemma byte_wise_cells:
  assumes "cfb_ok c" "length msg \<le> m_leftOver c"
  defines "i \<equiv> BlockSize - m_leftOver c"
  shows "\<exists>c'. byte_wise E dir msg c = (c', xor_block (take (length msg) (drop i (m_register c))) msg) \<and> m_leftOver c' = m_leftOver c - length msg \<and>
    m_register c' = take i (m_register c) @ (case dir of ENCRYPTION \<Rightarrow> xor_block (take (length msg) (drop i (m_register c))) msg | DECRYPTION \<Rightarrow> msg) @
      drop (i + length msg) (m_register c)"
  using assms(1,2) unfolding i_def
proof (induction msg arbitrary: c)
  case Nil
  then show ?case by (cases dir) simp_all
next
  case (Cons b msg)
  let ?i = "BlockSize - m_leftOver c" and ?R = "m_register c"
  define v where "v = (case dir of ENCRYPTION \<Rightarrow> ?R ! ?i XOR b | DECRYPTION \<Rightarrow> b)"
  define c1 where "c1 = c\<lparr>m_register := ?R[?i := v], m_leftOver := m_leftOver c - 1\<rparr>"
  have pos: "m_leftOver c \<noteq> 0" "?i < length ?R" using Cons.prems by (auto simp: cfb_ok_def)
  have step: "byte_step E dir b c = (c1, ?R ! ?i XOR b)"
    using pos by (simp add: byte_step_def refill_def Let_def c1_def v_def)
  have c1: "cfb_ok c1" "length msg \<le> m_leftOver c1" "BlockSize - m_leftOver c1 = Suc ?i"
    using Cons.prems pos by (auto simp: cfb_ok_def c1_def)
  have d: "drop ?i ?R = ?R ! ?i # drop (Suc ?i) ?R" using pos by (simp add: Cons_nth_drop_Suc)
  have "take (Suc ?i) (?R[?i := v]) = take ?i ?R @ [v]" using pos by (simp add: take_Suc_conv_app_nth)
  then show ?case
    using Cons.IH [OF c1(1,2)] step unfolding c1(3)
    by (cases dir) (auto simp: c1_def d v_def Let_def)
qed

lemma byte_wise_blocks:
  assumes E: "keeps_size E" and c: "cfb_ok c" "m_leftOver c = 0" and bs: "\<forall>b \<in> set bs. length b = BlockSize"
  shows "byte_wise E dir (concat bs) c =
    (c\<lparr>m_register := fst (block_wise E dir (m_register c) bs)\<rparr>, concat (snd (block_wise E dir (m_register c) bs)))"
  using c bs
proof (induction bs arbitrary: c)
  case (Cons b bs)
  let ?R = "m_register c"
  have b: "length b = BlockSize" "b \<noteq> []" using Cons.prems(3) by (auto simp: BlockSize_def)
  have r: "cfb_ok (refill E c)" "m_leftOver (refill E c) = BlockSize" "m_register (refill E c) = E ?R"
    using refill_ok [OF E Cons.prems(1)] Cons.prems(2) by (simp_all add: refill_def)
  have size: "length (E ?R) = BlockSize" using E by (simp add: keeps_size_def)
  define r1 where "r1 = (case dir of ENCRYPTION \<Rightarrow> xor_block (E ?R) b | DECRYPTION \<Rightarrow> b)"
  obtain c1 where 1: "byte_wise E dir b c = (c1, xor_block (E ?R) b)" "m_leftOver c1 = 0" "m_register c1 = r1"
    using byte_wise_cells [OF r(1), of b E dir] r(2,3) b size byte_wise_refill [OF b(2), of E dir c] by (cases dir) (auto simp: r1_def)
  have eq: "c1 = c\<lparr>m_register := r1\<rparr>" using 1(2,3) Cons.prems(2) by (intro cfb_eqI) simp_all
  have ok: "cfb_ok c1" using byte_wise_ok [OF E Cons.prems(1), of dir b] 1(1) by simp
  have "byte_wise E dir (concat bs) c1 = (c1\<lparr>m_register := fst (block_wise E dir r1 bs)\<rparr>, concat (snd (block_wise E dir r1 bs)))"
    using Cons.IH [OF ok 1(2)] Cons.prems(3) 1(3) by simp
  moreover obtain r2 out where "block_wise E dir r1 bs = (r2, out)" by fastforce
  ultimately show ?case using 1(1) eq by (simp add: byte_wise_append Let_def r1_def [symmetric])
qed simp

lemma blocks_spec:
  "n * BlockSize \<le> length xs \<Longrightarrow> concat (blocks n xs) = take (n * BlockSize) xs \<and> length (blocks n xs) = n \<and> (\<forall>b \<in> set (blocks n xs). length b = BlockSize)"
proof (induction n arbitrary: xs)
  case (Suc n)
  then have "n * BlockSize \<le> length (drop BlockSize xs)" by simp
  from Suc.IH [OF this] Suc.prems show ?case by (simp add: take_add add.commute)
qed simp

section \<open>The mode\<close>

text \<open>\<open>ProcessData\<close> is byte by byte, whatever the piece and the alignment.\<close>

lemma ProcessData_bytes:
  assumes E: "keeps_size E" and c: "cfb_ok c"
  shows "ProcessData E dir (inp, aligned) (c, acc) =
    Some (fst (byte_wise E dir inp c), acc @ snd (byte_wise E dir inp c))"
proof -
  define len where "len = min (m_leftOver c) (length inp)"
  obtain c1 out1 where 1: "(if m_leftOver c \<noteq> 0 then do {
          let len = min (m_leftOver c) (length inp);
          (c, out) \<leftarrow> CombineMessageAndShiftRegister dir (BlockSize - m_leftOver c) (take len inp) c;
          Some (c\<lparr>m_leftOver := m_leftOver c - len\<rparr>, drop len inp, out) }
        else Some (c, inp, [])) = Some (c1, drop len inp, out1)"
    "byte_wise E dir (take len inp) c = (c1, out1)" "m_leftOver c1 = m_leftOver c - len"
  proof (cases "m_leftOver c = 0")
    case True
    then show ?thesis using that [of c "[]"] by (simp add: len_def)
  next
    case False
    have "length (take len inp) \<le> m_leftOver c" by (simp add: len_def)
    then obtain c' out where "byte_wise E dir (take len inp) c = (c', out)" "m_leftOver c' = m_leftOver c - len"
      "CombineMessageAndShiftRegister dir (BlockSize - m_leftOver c) (take len inp) c = Some (c\<lparr>m_register := m_register c'\<rparr>, out)"
      using combine_bytes [OF c, of "take len inp" E dir] by (auto simp: len_def)
    moreover from this have "c\<lparr>m_register := m_register c', m_leftOver := m_leftOver c - len\<rparr> = c'" by (intro cfb_eqI) simp_all
    ultimately show ?thesis using False that [of c' out] by (simp add: Let_def len_def)
  qed
  let ?rest = "drop len inp"
  have ok1: "cfb_ok c1" using byte_wise_ok [OF E c, of dir "take len inp"] 1(2) by simp
  have whole: "byte_wise E dir inp c = (let (c', out) = byte_wise E dir ?rest c1 in (c', out1 @ out))"
    using byte_wise_append [of E dir "take len inp" ?rest c] 1(2) by simp
  show ?thesis
  proof (cases "?rest = []")
    case True
    then show ?thesis unfolding ProcessData_def prod.case 1(1) bind.bind_lunit using whole by simp
  next
    case False
    then have lo: "m_leftOver c1 = 0" using 1(3) by (auto simp: len_def)
    define n where "n = length ?rest div BlockSize"
    obtain c2 xs rest2 out2 where 2: "(if length ?rest \<ge> BlockSize \<and> aligned then do {
            let n = length ?rest div BlockSize;
            (c, bs) \<leftarrow> Iterate E dir (blocks n ?rest) c1;
            Some (c, drop (n * BlockSize) ?rest, concat bs) }
          else Some (c1, ?rest, [])) = Some (c2, rest2, out2)"
      "?rest = xs @ rest2" "byte_wise E dir xs c1 = (c2, out2)" "m_leftOver c2 = 0"
    proof (cases "length ?rest \<ge> BlockSize \<and> aligned")
      case True
      have "n * BlockSize \<le> length ?rest" by (simp add: n_def)
      note bl = blocks_spec [OF this]
      have "0 < n" using True by (simp add: n_def div_greater_zero_iff BlockSize_def)
      then have ne: "blocks n ?rest \<noteq> []" using bl by auto
      define W where "W = block_wise E dir (m_register c1) (blocks n ?rest)"
      have n2: "(length inp - len) div BlockSize = n" by (simp add: n_def)
      have split: "?rest = take (n * BlockSize) ?rest @ drop (n * BlockSize + len) inp"
        using append_take_drop_id [of "n * BlockSize" ?rest] by (simp add: add.commute)
      show ?thesis
        using that [of "c1\<lparr>m_register := fst W\<rparr>" "drop (n * BlockSize) ?rest" "concat (snd W)" "take (n * BlockSize) ?rest"]
          split True lo Iterate_blocks [OF ne, of E dir c1, folded W_def] byte_wise_blocks [OF E ok1 lo, of "blocks n ?rest" dir, folded W_def] bl
        by (simp add: n2 Let_def)
    next
      case False
      then show ?thesis using that [of c1 ?rest "[]" "[]"] lo by auto
    qed
    have ok2: "cfb_ok c2" using byte_wise_ok [OF E ok1, of dir xs] 2(3) by simp
    obtain c3 ys rest3 out3 where 3: "whole_blocks E dir rest2 c2 = Some (c3, rest3, out3)" "rest2 = ys @ rest3" "length rest3 < BlockSize"
      "byte_wise E dir ys c2 = (c3, out3)" "m_leftOver c3 = 0"
      using whole_blocks_bytes [OF E ok2 2(4)] by blast
    have ok3: "cfb_ok c3" using byte_wise_ok [OF E ok2, of dir ys] 3(4) by simp
    have upto3: "byte_wise E dir ?rest c1 = (let (c', out) = byte_wise E dir rest3 c3 in (c', out2 @ out3 @ out))"
      using 2(2,3) 3(2,4) by (simp add: byte_wise_append Let_def split: prod.splits)
    show ?thesis
    proof (cases "rest3 = []")
      case True
      then show ?thesis
        unfolding ProcessData_def prod.case 1(1) bind.bind_lunit using False lo 2(1) 3(1) whole upto3 by simp
    next
      case ne: False
      obtain c4 out4 where 4: "byte_wise E dir rest3 c3 = (c4, out4)" "m_leftOver c4 = BlockSize - length rest3"
        "CombineMessageAndShiftRegister dir 0 rest3 (TransformRegister E c3) = Some (c4\<lparr>m_leftOver := 0\<rparr>, out4)"
        using fresh_bytes [OF E ok3 3(5) ne less_imp_le [OF 3(3)], of dir] by auto
      have "c4\<lparr>m_leftOver := BlockSize - length rest3\<rparr> = c4" using 4(2) by (intro cfb_eqI) simp_all
      then show ?thesis
        unfolding ProcessData_def prod.case 1(1) bind.bind_lunit using False lo 2(1) 3(1) ne 4 whole upto3 by simp
    qed
  qed
qed

text \<open>A message in any pieces.\<close>

definition cfb_start :: "(byte list \<Rightarrow> byte list) \<Rightarrow> byte list \<Rightarrow> cfb" where
  "cfb_start E iv = \<lparr>m_register = E iv, m_leftOver = BlockSize\<rparr>"

lemma cfb_message_bytes:
  assumes "keeps_size E" "length iv = BlockSize"
  shows "cfb_message E dir iv pieces = Some (snd (byte_wise E dir (concat (map fst pieces)) (cfb_start E iv)))"
proof -
  have start: "UncheckedSetKey E iv = Some (cfb_start E iv)"
    using assms by (simp add: UncheckedSetKey_def CipherResynchronize_def TransformRegister_def keeps_size_def cfb_start_def)
  have "cfb_ok (cfb_start E iv)" using assms by (simp add: cfb_start_def cfb_ok_def keeps_size_def)
  then have "for_in pieces (ProcessData E dir) (cfb_start E iv, acc) =
      Some (fst (byte_wise E dir (concat (map fst pieces)) (cfb_start E iv)), acc @ snd (byte_wise E dir (concat (map fst pieces)) (cfb_start E iv)))" for acc
  proof (induction pieces arbitrary: acc rule: rev_induct)
    case (snoc p ps)
    obtain inp aligned where p: "p = (inp, aligned)" by fastforce
    have "cfb_ok (fst (byte_wise E dir (concat (map fst ps)) (cfb_start E iv)))" using byte_wise_ok assms(1) snoc.prems by blast
    note P = ProcessData_bytes [OF assms(1) this]
    show ?case using snoc by (simp add: p for_in_append P byte_wise_append Let_def split: prod.splits)
  qed simp
  then show ?thesis by (simp add: cfb_message_def start split_beta)
qed

text \<open>Both directions keep the ciphertext in the register, so they stay in step.\<close>

lemma decrypt_in_step: "byte_wise E ENCRYPTION xs c = (c', ys) \<Longrightarrow> byte_wise E DECRYPTION ys c = (c', xs)"
proof (induction xs arbitrary: c c' ys)
  case (Cons x xs)
  obtain c1 y where s: "byte_step E ENCRYPTION x c = (c1, y)" by fastforce
  obtain zs where w: "byte_wise E ENCRYPTION xs c1 = (c', zs)" "ys = y # zs"
    using Cons.prems s by (auto simp: Let_def split: prod.splits)
  have "byte_step E DECRYPTION y c = (c1, x)" using s by (auto simp: byte_step_def Let_def)
  then show ?case using Cons.IH [OF w(1)] w(2) by simp
qed simp

lemma cfb_decrypts:
  assumes "keeps_size E" "length iv = BlockSize" and "concat (map fst pieces) = msg" "concat (map fst pieces') = cipher"
    and "cfb_message E ENCRYPTION iv pieces = Some cipher"
  shows "cfb_message E DECRYPTION iv pieces' = Some msg"
proof -
  obtain c' ys where w: "byte_wise E ENCRYPTION msg (cfb_start E iv) = (c', ys)" by fastforce
  then have "ys = cipher" using cfb_message_bytes [OF assms(1,2), of ENCRYPTION pieces] assms(3,5) by simp
  then show ?thesis using cfb_message_bytes [OF assms(1,2), of DECRYPTION pieces'] decrypt_in_step [OF w] assms(4) by simp
qed

text \<open>C38. The output of the feedback mode does not depend on how the message comes in. For every division
  of a message into pieces, and whether or not their buffers are aligned, \<open>ProcessData\<close> with its three
  loops (the rest of the last block, \<open>Iterate\<close> over aligned blocks, one block at a time) computes the
  bytewise feedback of the whole message, in both directions, inside the register; and decryption of the
  ciphertext, in any other pieces, gives the message back.\<close>

theorem cfb_mode_correct:
  assumes "keeps_size E" and "length iv = BlockSize"
  shows "\<exists>cipher. cfb_message E ENCRYPTION iv pieces = Some cipher \<and> length cipher = length (concat (map fst pieces)) \<and>
    cipher = snd (byte_wise E ENCRYPTION (concat (map fst pieces)) (cfb_start E iv)) \<and>
    (\<forall>pieces'. concat (map fst pieces') = cipher \<longrightarrow> cfb_message E DECRYPTION iv pieces' = Some (concat (map fst pieces)))"
proof -
  let ?msg = "concat (map fst pieces)"
  define cipher where "cipher = snd (byte_wise E ENCRYPTION ?msg (cfb_start E iv))"
  have c: "cfb_message E ENCRYPTION iv pieces = Some cipher" using cfb_message_bytes [OF assms] by (simp add: cipher_def)
  have "cfb_ok (cfb_start E iv)" using assms by (simp add: cfb_start_def cfb_ok_def keeps_size_def)
  then have "length cipher = length ?msg" using byte_wise_ok [OF assms(1)] by (simp add: cipher_def)
  then show ?thesis using c cfb_decrypts [OF assms refl _ c] by (auto simp: cipher_def)
qed

theorem cfb_mode_correct_witness:
  "\<exists>cipher. cfb_message (\<lambda>b. map (\<lambda>x. x + 1) (take 16 b @ replicate (16 - length b) 0)) ENCRYPTION (replicate 16 7)
      [([1, 2, 3], False), (replicate 40 9, True)] = Some cipher \<and> length cipher = 43 \<and>
    cfb_message (\<lambda>b. map (\<lambda>x. x + 1) (take 16 b @ replicate (16 - length b) 0)) DECRYPTION (replicate 16 7) [(cipher, True)] =
      Some ([1, 2, 3] @ replicate 40 9)"
proof -
  let ?E = "\<lambda>b :: byte list. map (\<lambda>x. x + 1) (take 16 b @ replicate (16 - length b) 0)"
  have "keeps_size ?E" "length (replicate 16 (7 :: byte)) = BlockSize" by (simp_all add: keeps_size_def BlockSize_def min_def)
  from cfb_mode_correct [OF this, of "[([1, 2, 3], False), (replicate 40 9, True)]"]
  obtain cipher where "cfb_message ?E ENCRYPTION (replicate 16 7) [([1, 2, 3], False), (replicate 40 9, True)] = Some cipher"
    "length cipher = 43"
    "concat (map fst [(cipher, True)]) = cipher \<longrightarrow> cfb_message ?E DECRYPTION (replicate 16 7) [(cipher, True)] = Some ([1, 2, 3] @ replicate 40 9)"
    by auto
  then show ?thesis by (intro exI [of _ cipher]) simp
qed

end
