(* ===== verification/Base_Code.thy ===== *)
theory Base_Code imports Base64 begin

text \<open>
  \<open>cryptopp/basecode.cpp\<close>, \<open>hex.cpp\<close>, \<open>base32.cpp\<close>, \<open>base64.cpp\<close> and their callers in \<open>utils.cc\<close>: the
  coders that turn bytes into characters of 4, 5 or 6 bits and back. A coder is a filter with a buffer
  that it fills bit by bit; what it puts into the attached filter is a list of pieces, each with its
  message-end flag. The hex coder is the one of \<open>Crypto::Hash\<close> too.
\<close>

section \<open>The encoder\<close>

text \<open>The members that \<open>Put2\<close> changes, and those that \<open>IsolatedInitialize\<close> sets.\<close>

record coder =
  m_outBuf :: "byte list"
  m_bytePos :: nat
  m_bitPos :: nat

record encoder_par =
  m_alphabet :: "byte list"
  m_bitsPerChar :: nat
  m_padding :: "byte option"
  m_outputBlockSize :: nat

text \<open>The loops that find the number of bits in a block: the first multiple of \<open>step\<close> that \<open>m\<close> divides.\<close>

partial_function (option) block_bits :: "nat \<Rightarrow> nat \<Rightarrow> nat \<Rightarrow> nat option" where
  "block_bits step m i = (if i mod m \<noteq> 0 then block_bits step m (i + step) else Some i)"

definition encoder_init :: "byte list \<Rightarrow> nat \<Rightarrow> byte option \<Rightarrow> (encoder_par \<times> coder) option" where
  "encoder_init alpha bits pad = do {
     check (\<not> (bits \<le> 0 \<or> 8 \<le> bits));
     i \<leftarrow> block_bits 8 bits 8;
     let blk = i div bits;
     Some (\<lparr>m_alphabet = alpha, m_bitsPerChar = bits, m_padding = pad, m_outputBlockSize = blk\<rparr>,
       \<lparr>m_outBuf = replicate blk 0, m_bytePos = 0, m_bitPos = 0\<rparr>) }"

text \<open>The bits of one source byte \<open>b\<close>, of which the first \<open>left\<close> are still to be written.\<close>

partial_function (option) put_bits :: "nat \<Rightarrow> u32 \<Rightarrow> nat \<Rightarrow> coder \<Rightarrow> coder option" where
  "put_bits bits b left c = do {
     check (m_bitPos c < bits);
     let bitsLeftInTarget = bits - m_bitPos c;
     x \<leftarrow> rd (m_outBuf c) (m_bytePos c);
     buf \<leftarrow> wr (m_outBuf c) (m_bytePos c) (x OR ucast (drop_bit (8 - bitsLeftInTarget) b));
     let c = c\<lparr>m_outBuf := buf\<rparr>;
     if left \<ge> bitsLeftInTarget then do {
       let c = c\<lparr>m_bitPos := 0, m_bytePos := m_bytePos c + 1\<rparr>;
       let left = left - bitsLeftInTarget;
       if left = 0 then Some c else put_bits bits (push_bit bitsLeftInTarget b AND 0xff) left c }
     else Some (c\<lparr>m_bitPos := m_bitPos c + left\<rparr>) }"

definition translate :: "byte list \<Rightarrow> nat \<Rightarrow> byte list \<Rightarrow> byte list option" where
  "translate alpha i buf = do { v \<leftarrow> rd buf i; ch \<leftarrow> rd alpha (unat v); wr buf i ch }"

definition encode_byte :: "encoder_par \<Rightarrow> byte \<Rightarrow> coder \<times> (byte list \<times> bool) list \<Rightarrow> (coder \<times> (byte list \<times> bool) list) option" where
  "encode_byte p = (\<lambda>s (c, out). do {
     let c = (if m_bytePos c = 0 then c\<lparr>m_outBuf := replicate (m_outputBlockSize p) 0\<rparr> else c);
     c \<leftarrow> put_bits (m_bitsPerChar p) (ucast s) 8 c;
     check (m_bytePos c \<le> m_outputBlockSize p);
     if m_bytePos c = m_outputBlockSize p then do {
       buf \<leftarrow> for_in [0..<m_bytePos c] (\<lambda>i buf. do {
         v \<leftarrow> rd buf i; check (unat v < 2 ^ m_bitsPerChar p); translate (m_alphabet p) i buf }) (m_outBuf c);
       Some (c\<lparr>m_outBuf := buf, m_bytePos := 0, m_bitPos := 0\<rparr>, out @ [(take (m_outputBlockSize p) buf, False)]) }
     else Some (c, out) })"

definition encoder_end :: "encoder_par \<Rightarrow> coder \<times> (byte list \<times> bool) list \<Rightarrow> (coder \<times> (byte list \<times> bool) list) option" where
  "encoder_end p = (\<lambda>(c, out). do {
     let n = (if m_bitPos c > 0 then m_bytePos c + 1 else m_bytePos c);
     buf \<leftarrow> for_in [0..<n] (translate (m_alphabet p)) (m_outBuf c);
     check (n \<le> m_outputBlockSize p);
     (buf, n) \<leftarrow> (case m_padding p of
         Some pad \<Rightarrow> if n > 0 then Some (take n buf @ replicate (m_outputBlockSize p - n) pad, m_outputBlockSize p) else Some (buf, n)
       | None \<Rightarrow> Some (buf, n));
     Some (c\<lparr>m_outBuf := buf, m_bytePos := 0, m_bitPos := 0\<rparr>, out @ [(take n buf, True)]) })"

definition BaseN_Encoder_Put2 :: "encoder_par \<Rightarrow> byte list \<Rightarrow> bool \<Rightarrow> coder \<Rightarrow> (coder \<times> (byte list \<times> bool) list) option" where
  "BaseN_Encoder_Put2 p inp messageEnd c = do {
     s \<leftarrow> for_in inp (encode_byte p) (c, []);
     if messageEnd then encoder_end p s else Some s }"

section \<open>The decoder\<close>

record decoder_par =
  m_lookup :: "int list"
  d_bitsPerChar :: nat
  d_outputBlockSize :: nat

definition decoder_init :: "int list \<Rightarrow> nat \<Rightarrow> (decoder_par \<times> coder) option" where
  "decoder_init lookup bits = do {
     check (\<not> (bits \<le> 0 \<or> 8 \<le> bits));
     i \<leftarrow> block_bits bits 8 bits;
     let blk = i div 8;
     Some (\<lparr>m_lookup = lookup, d_bitsPerChar = bits, d_outputBlockSize = blk\<rparr>,
       \<lparr>m_outBuf = replicate blk 0, m_bytePos = 0, m_bitPos = 0\<rparr>) }"

definition or_at :: "nat \<Rightarrow> u32 \<Rightarrow> byte list \<Rightarrow> byte list option" where
  "or_at i v buf = do { x \<leftarrow> rd buf i; wr buf i (x OR ucast v) }"

fun carry_bytes :: "nat \<Rightarrow> nat \<Rightarrow> nat \<times> nat" where
  "carry_bytes bytePos bitPos = (if bitPos \<ge> 8 then carry_bytes (bytePos + 1) (bitPos - 8) else (bytePos, bitPos))"

declare carry_bytes.simps [simp del]

definition decode_char :: "decoder_par \<Rightarrow> byte \<Rightarrow> coder \<times> (byte list \<times> bool) list \<Rightarrow> (coder \<times> (byte list \<times> bool) list) option" where
  "decode_char p = (\<lambda>ch (c, out). do {
     l \<leftarrow> rd (m_lookup p) (unat ch);
     let v = (word_of_int l :: u32);
     if v \<ge> 256 then Some (c, out)
     else do {
       let c = (if m_bytePos c = 0 \<and> m_bitPos c = 0 then c\<lparr>m_outBuf := replicate (d_outputBlockSize p) 0\<rparr> else c);
       let newBitPos = m_bitPos c + d_bitsPerChar p;
       buf \<leftarrow> (if newBitPos \<le> 8 then or_at (m_bytePos c) (push_bit (8 - newBitPos) v) (m_outBuf c)
         else do {
           buf \<leftarrow> or_at (m_bytePos c) (drop_bit (newBitPos - 8) v) (m_outBuf c);
           or_at (m_bytePos c + 1) (push_bit (16 - newBitPos) v) buf });
       let (bytePos, bitPos) = carry_bytes (m_bytePos c) newBitPos;
       if bytePos = d_outputBlockSize p
       then Some (c\<lparr>m_outBuf := buf, m_bytePos := 0, m_bitPos := 0\<rparr>, out @ [(take (d_outputBlockSize p) buf, False)])
       else Some (c\<lparr>m_outBuf := buf, m_bytePos := bytePos, m_bitPos := bitPos\<rparr>, out) } })"

definition BaseN_Decoder_Put2 :: "decoder_par \<Rightarrow> byte list \<Rightarrow> bool \<Rightarrow> coder \<Rightarrow> (coder \<times> (byte list \<times> bool) list) option" where
  "BaseN_Decoder_Put2 p inp messageEnd c = do {
     (c, out) \<leftarrow> for_in inp (decode_char p) (c, []);
     if messageEnd then do {
       check (m_bytePos c \<le> length (m_outBuf c));
       Some (c\<lparr>m_bytePos := 0, m_bitPos := 0\<rparr>, out @ [(take (m_bytePos c) (m_outBuf c), True)]) }
     else Some (c, out) }"

text \<open>\<open>InitializeDecodingLookupArray\<close>; \<open>isalpha\<close>, \<open>toupper\<close> and \<open>tolower\<close> on ASCII.\<close>

definition isalpha :: "byte \<Rightarrow> bool" where
  "isalpha ch \<longleftrightarrow> 65 \<le> ch \<and> ch \<le> 90 \<or> 97 \<le> ch \<and> ch \<le> 122"

definition toupper :: "byte \<Rightarrow> byte" where
  "toupper ch = (if 97 \<le> ch \<and> ch \<le> 122 then ch - 32 else ch)"

definition tolower :: "byte \<Rightarrow> byte" where
  "tolower ch = (if 65 \<le> ch \<and> ch \<le> 90 then ch + 32 else ch)"

definition set_entry :: "nat \<Rightarrow> byte \<Rightarrow> int list \<Rightarrow> int list option" where
  "set_entry i ch lookup = do { l \<leftarrow> rd lookup (unat ch); check (l = - 1); wr lookup (unat ch) (int i) }"

definition InitializeDecodingLookupArray :: "byte list \<Rightarrow> nat \<Rightarrow> bool \<Rightarrow> int list option" where
  "InitializeDecodingLookupArray alpha base caseInsensitive =
     for_in [0..<base] (\<lambda>i lookup. do {
       ch \<leftarrow> rd alpha i;
       if caseInsensitive \<and> isalpha ch then do { lookup \<leftarrow> set_entry i (toupper ch) lookup; set_entry i (tolower ch) lookup }
       else set_entry i ch lookup }) (replicate 256 (- 1))"

section \<open>The grouper\<close>

record grouper =
  m_groupSize :: nat
  m_separator :: "byte list"
  m_terminator :: "byte list"
  m_counter :: nat

function group_loop :: "nat \<Rightarrow> byte list \<Rightarrow> nat \<Rightarrow> byte list \<Rightarrow> nat \<times> byte list" where
  "group_loop g_size sep counter inp =
     (if inp = [] then (counter, [])
      else let out = (if counter = g_size then sep else []);
               counter = (if counter = g_size then 0 else counter);
               n = min (length inp) (g_size - counter)
           in if n = 0 then (counter, out)
              else let (k, rest) = group_loop g_size sep (counter + n) (drop n inp) in (k, out @ take n inp @ rest))"
  by pat_completeness auto
termination by (relation "measure (\<lambda>(_, _, _, inp). length inp)") auto

declare group_loop.simps [simp del]

definition Grouper_Put2 :: "byte list \<times> bool \<Rightarrow> grouper \<times> byte list \<Rightarrow> (grouper \<times> byte list) option" where
  "Grouper_Put2 = (\<lambda>(inp, messageEnd) (g, out).
     (let (g, out) = (if m_groupSize g \<noteq> 0
            then let (k, part) = group_loop (m_groupSize g) (m_separator g) (m_counter g) inp in (g\<lparr>m_counter := k\<rparr>, out @ part)
            else (g, out @ inp))
      in Some (if messageEnd then (g\<lparr>m_counter := 0\<rparr>, out @ m_terminator g) else (g, out))))"

section \<open>The coders\<close>

definition ascii :: "string \<Rightarrow> byte list" where
  "ascii s = map of_char s"

definition hex_vecUpper :: "byte list" where "hex_vecUpper = ascii ''0123456789ABCDEF''"
definition hex_vecLower :: "byte list" where "hex_vecLower = ascii ''0123456789abcdef''"
definition b32_vecUpper :: "byte list" where "b32_vecUpper = ascii ''ABCDEFGHIJKMNPQRSTUVWXYZ23456789''"
definition b32_vecLower :: "byte list" where "b32_vecLower = ascii ''abcdefghijkmnpqrstuvwxyz23456789''"
definition b64_vec :: "byte list" where
  "b64_vec = ascii ''ABCDEFGHIJKLMNOPQRSTUVWXYZabcdefghijklmnopqrstuvwxyz0123456789+/''"

text \<open>A whole message through an encoder with its grouper; a string source puts it in one piece.\<close>

definition encode_message :: "byte list \<Rightarrow> nat \<Rightarrow> byte option \<Rightarrow> grouper \<Rightarrow> byte list \<Rightarrow> byte list option" where
  "encode_message alpha bits pad g s = do {
     (p, c) \<leftarrow> encoder_init alpha bits pad;
     (c, out1) \<leftarrow> BaseN_Encoder_Put2 p s False c;
     (c, out2) \<leftarrow> BaseN_Encoder_Put2 p [] True c;
     (g, text) \<leftarrow> for_in (out1 @ out2) Grouper_Put2 (g, []);
     Some text }"

definition decode_message :: "int list \<Rightarrow> nat \<Rightarrow> byte list \<Rightarrow> byte list option" where
  "decode_message lookup bits s = do {
     (p, c) \<leftarrow> decoder_init lookup bits;
     (c, out1) \<leftarrow> BaseN_Decoder_Put2 p s False c;
     (c, out2) \<leftarrow> BaseN_Decoder_Put2 p [] True c;
     Some (concat (map fst (out1 @ out2))) }"

definition HexEncoder :: "bool \<Rightarrow> nat \<Rightarrow> byte list \<Rightarrow> byte list \<Rightarrow> byte list \<Rightarrow> byte list option" where
  "HexEncoder uppercase outputGroupSize separator terminator s =
     encode_message (if uppercase then hex_vecUpper else hex_vecLower) 4 None
       \<lparr>m_groupSize = outputGroupSize, m_separator = separator, m_terminator = terminator, m_counter = 0\<rparr> s"

definition HexDecoder :: "byte list \<Rightarrow> byte list option" where
  "HexDecoder s = do { lookup \<leftarrow> InitializeDecodingLookupArray hex_vecUpper 16 True; decode_message lookup 4 s }"

text \<open>The encoder for base 32 does not hand its terminator on.\<close>

definition Base32Encoder :: "bool \<Rightarrow> nat \<Rightarrow> byte list \<Rightarrow> byte list \<Rightarrow> byte list option" where
  "Base32Encoder uppercase outputGroupSize separator s =
     encode_message (if uppercase then b32_vecUpper else b32_vecLower) 5 None
       \<lparr>m_groupSize = outputGroupSize, m_separator = separator, m_terminator = [], m_counter = 0\<rparr> s"

definition Base32Decoder :: "byte list \<Rightarrow> byte list option" where
  "Base32Decoder s = do { lookup \<leftarrow> InitializeDecodingLookupArray b32_vecUpper 32 True; decode_message lookup 5 s }"

definition Base64Encoder :: "bool \<Rightarrow> nat \<Rightarrow> byte list \<Rightarrow> byte list option" where
  "Base64Encoder insertLineBreaks maxLineLength s =
     (let lineBreak = (if insertLineBreaks then [10] else [])
      in encode_message b64_vec 6 (Some 61)
        \<lparr>m_groupSize = (if insertLineBreaks then maxLineLength else 0), m_separator = lineBreak, m_terminator = lineBreak,
         m_counter = 0\<rparr> s)"

definition Base64Decoder :: "byte list \<Rightarrow> byte list option" where
  "Base64Decoder s = do { lookup \<leftarrow> InitializeDecodingLookupArray b64_vec 64 False; decode_message lookup 6 s }"

text \<open>\<open>utils.cc\<close>. The default separator of the hex encoder is a colon.\<close>

definition EncodeToHex :: "byte list \<Rightarrow> byte list option" where
  "EncodeToHex s = HexEncoder False 0 [58] [] s"

definition EncodeToBase64 :: "byte list \<Rightarrow> byte list option" where
  "EncodeToBase64 s = Base64Encoder False 255 s"

definition EncodeToBase32 :: "byte list \<Rightarrow> byte list option" where
  "EncodeToBase32 s = Base32Encoder False 0 [58] s"

definition DecodeFromHex :: "byte list \<Rightarrow> byte list option" where
  "DecodeFromHex s = HexDecoder s"

definition DecodeFromBase64 :: "byte list \<Rightarrow> byte list option" where
  "DecodeFromBase64 s = Base64Decoder s"

definition DecodeFromBase32 :: "byte list \<Rightarrow> byte list option" where
  "DecodeFromBase32 s = Base32Decoder s"

end
