(* ===== verification/Base_Correct.thy ===== *)
theory Base_Correct imports Base_Code begin

text \<open>
  The coders of \<open>Base_Code\<close>: both directions as operations on strings of bits. The locale \<open>base_n\<close> is
  the contract between an alphabet and a lookup array; it is interpreted by the coders for hexadecimal,
  base 32 and base 64.
\<close>

section \<open>Strings of bits\<close>

definition to_bits :: "nat \<Rightarrow> 'a::len word \<Rightarrow> bool list" where
  "to_bits n w = map (bit w) (rev [0..<n])"

definition cells :: "nat \<Rightarrow> byte list \<Rightarrow> bool list" where
  "cells n buf = concat (map (to_bits n) buf)"

lemma length_to_bits [simp]: "length (to_bits n w) = n"
  by (simp add: to_bits_def)

lemma nth_to_bits [simp]: "i < n \<Longrightarrow> to_bits n w ! i = bit w (n - 1 - i)"
  by (simp add: to_bits_def rev_nth)

lemma to_bits_eqI: "length xs = n \<Longrightarrow> (\<And>i. i < n \<Longrightarrow> xs ! i = bit w (n - 1 - i)) \<Longrightarrow> to_bits n w = xs"
  by (rule nth_equalityI) simp_all

lemma cells_simps [simp]: "cells n [] = []" "cells n (x # xs) = to_bits n x @ cells n xs" "cells n (xs @ ys) = cells n xs @ cells n ys"
  by (simp_all add: cells_def)

lemma length_cells [simp]: "length (cells n xs) = length xs * n"
  by (induction xs) simp_all

lemma cells_zero: "cells n (replicate k 0) = replicate (k * n) False"
proof (induction k)
  case (Suc k)
  have "to_bits n (0 :: byte) = replicate n False" by (rule to_bits_eqI) simp_all
  then show ?case using Suc by (simp add: replicate_add)
qed simp

lemma small_iff: "unat (v :: byte) < 2 ^ n \<longleftrightarrow> take_bit n (unat v) = unat v"
  by (simp add: take_bit_nat_eq_self_iff)

lemma small_or: "unat (v :: byte) < 2 ^ n \<Longrightarrow> unat w < 2 ^ n \<Longrightarrow> unat (v OR w) < 2 ^ n"
  unfolding unsigned_or_eq take_bit_nat_eq_self_iff [symmetric] take_bit_or by simp

lemma high_bit: "unat (v :: 'a::len word) < 2 ^ n \<Longrightarrow> n \<le> i \<Longrightarrow> \<not> bit v i"
proof
  assume v: "unat v < 2 ^ n" "n \<le> i" "bit v i"
  then have "bit (unat v) i" by (simp add: bit_unsigned_iff)
  then have "bit (take_bit n (unat v)) i" using v by (simp add: take_bit_nat_eq_self)
  then show False using v(2) by (simp add: bit_take_bit_iff)
qed

text \<open>Two lists of small values with the same bits are the same list.\<close>

lemma to_bits_inject:
  assumes "to_bits n v = to_bits n w" "unat (v :: byte) < 2 ^ n" "unat w < 2 ^ n"
  shows "v = w"
proof (rule bit_word_eqI)
  fix i assume "i < LENGTH(8)"
  show "bit v i = bit w i"
  proof (cases "i < n")
    case True
    then show ?thesis using arg_cong [OF assms(1), of "\<lambda>xs. xs ! (n - 1 - i)"] by simp
  next
    case False
    then show ?thesis using high_bit [OF assms(2), of i] high_bit [OF assms(3), of i] by simp
  qed
qed

lemma cells_inject:
  "cells n vs = cells n ws \<Longrightarrow> length vs = length ws \<Longrightarrow> \<forall>v \<in> set vs \<union> set ws. unat v < 2 ^ n \<Longrightarrow> vs = ws"
  by (induction vs ws rule: list_induct2') (auto intro: to_bits_inject)

text \<open>A string of bits that is bytes and fewer than \<open>m\<close> bits more determines the bytes.\<close>

lemma cells_tail_unique:
  assumes "cells n vs @ xs = cells n ws @ ys" "length xs < n" "length ys < n"
    and "\<forall>v \<in> set vs \<union> set ws. unat v < 2 ^ n"
  shows "vs = ws" "xs = ys"
proof -
  have "(length vs * n + length xs) div n = (length ws * n + length ys) div n"
    using arg_cong [OF assms(1), of length] by simp
  then have len: "length vs = length ws" using assms(2,3) by simp
  then have "cells n vs = cells n ws" "xs = ys" using assms(1) by simp_all
  then show "vs = ws" "xs = ys" using cells_inject len assms(4) by blast+
qed

section \<open>Filling the buffer\<close>

definition filled :: "nat \<Rightarrow> bool list \<Rightarrow> nat \<Rightarrow> coder \<Rightarrow> bool" where
  "filled n bs r c \<longleftrightarrow> cells n (m_outBuf c) = bs @ replicate r False \<and> length bs = m_bytePos c * n + m_bitPos c \<and>
     m_bitPos c < n \<and> (\<forall>v \<in> set (m_outBuf c). unat v < 2 ^ n)"

text \<open>Bits that are or-ed into the cell that is filled at present are appended to the string.\<close>

lemma or_cell:
  assumes f: "filled n bs r c" and i: "m_bytePos c < length (m_outBuf c)"
    and x: "to_bits n x = replicate (m_bitPos c) False @ ys @ replicate (n - m_bitPos c - length ys) False" "unat x < 2 ^ n"
    and ys: "m_bitPos c + length ys \<le> n"
  defines "buf \<equiv> (m_outBuf c)[m_bytePos c := m_outBuf c ! m_bytePos c OR x]"
  shows "cells n buf = (bs @ ys) @ replicate (r - length ys) False" "\<forall>v \<in> set buf. unat v < 2 ^ n" "length ys \<le> r"
proof -
  let ?i = "m_bytePos c" and ?p = "m_bitPos c" and ?b = "m_outBuf c"
  have split: "?b = take ?i ?b @ ?b ! ?i # drop (Suc ?i) ?b" using i by (rule id_take_nth_drop)
  have len: "length bs = ?i * n + ?p" "?p < n" using f by (simp_all add: filled_def)
  define A where "A = take (?i * n) bs"
  define B where "B = drop (?i * n) bs"
  have AB: "bs = A @ B" "length A = ?i * n" "length B = ?p" using len by (simp_all add: A_def B_def)
  have "cells n (take ?i ?b) @ to_bits n (?b ! ?i) @ cells n (drop (Suc ?i) ?b) = A @ B @ replicate r False"
    using f split by (metis AB(1) append.assoc cells_simps(2,3) filled_def)
  then have pre: "cells n (take ?i ?b) = A" and rest: "to_bits n (?b ! ?i) @ cells n (drop (Suc ?i) ?b) = B @ replicate r False"
    using AB(2) i by (simp_all add: append_eq_append_conv)
  have r: "n + (length ?b - Suc ?i) * n = ?p + r" using arg_cong [OF rest, of length] AB(3) by simp
  then have "n - ?p \<le> r" using len(2) by linarith
  then show "length ys \<le> r" using ys by linarith
  have "replicate r False = replicate (n - ?p) False @ replicate (r - (n - ?p)) False"
    using \<open>n - ?p \<le> r\<close> by (simp add: replicate_add [symmetric])
  then have "to_bits n (?b ! ?i) @ cells n (drop (Suc ?i) ?b) = (B @ replicate (n - ?p) False) @ replicate (r - (n - ?p)) False"
    using rest by simp
  moreover have l: "length (to_bits n (?b ! ?i)) = length (B @ replicate (n - ?p) False)" using AB(3) len(2) by simp
  ultimately have cell: "to_bits n (?b ! ?i) = B @ replicate (n - ?p) False" and tail: "cells n (drop (Suc ?i) ?b) = replicate (r - (n - ?p)) False"
    using append_eq_append_conv [OF disjI1 [OF l]] by blast+
  have "to_bits n (?b ! ?i OR x) = B @ ys @ replicate (n - ?p - length ys) False"
  proof (rule to_bits_eqI)
    fix j assume j: "j < n"
    have "bit (?b ! ?i) (n - 1 - j) = (B @ replicate (n - ?p) False) ! j" using j cell nth_to_bits by metis
    moreover have "bit x (n - 1 - j) = (replicate ?p False @ ys @ replicate (n - ?p - length ys) False) ! j" using j x(1) nth_to_bits by metis
    ultimately show "(B @ ys @ replicate (n - ?p - length ys) False) ! j = bit (?b ! ?i OR x) (n - 1 - j)"
      using j AB(3) by (auto simp: bit_or_iff nth_append)
  qed (use AB(3) ys in simp)
  moreover have "replicate (n - ?p - length ys) False @ replicate (r - (n - ?p)) False = replicate (r - length ys) False"
    using \<open>n - ?p \<le> r\<close> ys by (simp add: replicate_add [symmetric])
  moreover have "buf = take ?i ?b @ (?b ! ?i OR x) # drop (Suc ?i) ?b"
    unfolding buf_def using i by (rule upd_conv_take_nth_drop)
  ultimately show "cells n buf = (bs @ ys) @ replicate (r - length ys) False"
    using pre tail AB(1) by simp
  have "unat (?b ! ?i) < 2 ^ n" using f i by (simp add: filled_def)
  then show "\<forall>v \<in> set buf. unat v < 2 ^ n"
    using f small_or [OF _ x(2)] set_update_subset_insert [of ?b ?i] by (fastforce simp: buf_def filled_def)
qed

section \<open>The encoder\<close>

lemma shifted_down:
  assumes "unat (b :: u32) < 256" "t \<le> bits" "bits \<le> 8"
  shows "to_bits bits (ucast (drop_bit (8 - t) b) :: byte) = replicate (bits - t) False @ take t (to_bits 8 b)"
proof (rule to_bits_eqI)
  fix i assume i: "i < bits"
  have "8 - t + (bits - 1 - i) \<ge> 8" if "i < bits - t" using that i assms(2,3) by linarith
  moreover have "8 - t + (bits - 1 - i) = 8 - 1 - (i - (bits - t))" if "\<not> i < bits - t" using that i assms(2,3) by linarith
  ultimately show "(replicate (bits - t) False @ take t (to_bits 8 b)) ! i = bit (ucast (drop_bit (8 - t) b) :: byte) (bits - 1 - i)"
    using i assms high_bit [of b 8] by (auto simp: bit_ucast_iff bit_drop_bit_eq nth_append)
qed (use assms in simp)

lemma shifted_down_small:
  assumes "unat (b :: u32) < 256" "t \<le> bits" "t \<le> 8"
  shows "unat (ucast (drop_bit (8 - t) b) :: byte) < 2 ^ bits"
proof -
  have "unat (drop_bit (8 - t) b) < 2 ^ t"
  proof -
    have "unat (drop_bit (8 - t) b) = unat b div 2 ^ (8 - t)"
      using drop_bit_eq_div [of "8 - t" "unat b"] take_bit_nat_eq_self [of "unat b" 32] assms(1)
      by (simp only: unsigned_drop_bit_eq) simp
    moreover have "unat b < 2 ^ t * 2 ^ (8 - t)" using assms(1,3) by (simp add: power_add [symmetric])
    ultimately show ?thesis by (simp add: less_mult_imp_div_less)
  qed
  moreover have "(2 :: nat) ^ t \<le> 2 ^ bits" using assms(2) by (rule power_increasing) simp
  moreover have "unat (ucast (drop_bit (8 - t) b) :: byte) \<le> unat (drop_bit (8 - t) b)" by (simp add: unsigned_ucast_eq)
  ultimately show ?thesis by linarith
qed

lemma shifted_up:
  assumes "t \<le> 8"
  shows "to_bits 8 (push_bit t b AND 0xff :: u32) = drop t (to_bits 8 b) @ replicate t False" "unat (push_bit t b AND 0xff :: u32) < 256"
proof -
  have m: "(0xff :: u32) = mask 8" by (simp add: mask_eq_exp_minus_1)
  show "to_bits 8 (push_bit t b AND 0xff) = drop t (to_bits 8 b) @ replicate t False"
    using assms by (intro to_bits_eqI) (auto simp: m bit_and_iff bit_mask_iff bit_push_bit_iff nth_append add.commute)
  show "unat (push_bit t b AND 0xff) < 256"
    unfolding m take_bit_eq_mask [symmetric] unsigned_take_bit_eq using take_bit_nat_less_exp [of 8] by simp
qed

lemma put_bits_spec:
  assumes "bits < 8" and "filled bits bs r c" and "0 < left" "left \<le> r" "left \<le> 8"
    and "to_bits 8 b = src @ replicate (8 - left) False" "length src = left" "unat b < 256"
  shows "\<exists>c'. put_bits bits b left c = Some c' \<and> filled bits (bs @ src) (r - left) c'"
  using assms(2-)
proof (induction left arbitrary: b c bs r src rule: less_induct)
  case (less left)
  let ?t = "bits - m_bitPos c" and ?i = "m_bytePos c"
  have len: "length bs = ?i * bits + m_bitPos c" "m_bitPos c < bits" using less.prems(1) by (simp_all add: filled_def)
  have total: "length (m_outBuf c) * bits = length bs + r"
    using arg_cong [OF conjunct1 [OF less.prems(1) [unfolded filled_def]], of length] by simp
  have i: "?i < length (m_outBuf c)"
  proof (rule ccontr)
    assume "\<not> ?thesis"
    then have "length (m_outBuf c) * bits \<le> ?i * bits" by simp
    then show False using total len(1) less.prems(2,3) by linarith
  qed
  define x where "x = (ucast (drop_bit (8 - ?t) b) :: byte)"
  define ys where "ys = take ?t src"
  have ys: "length ys = min ?t left" using less.prems(6) by (simp add: ys_def)
  have "take ?t (to_bits 8 b) = ys @ replicate (?t - length ys) False"
    using less.prems(4-6) assms(1) by (simp add: ys_def min_def)
  then have x: "to_bits bits x = replicate (m_bitPos c) False @ ys @ replicate (bits - m_bitPos c - length ys) False" "unat x < 2 ^ bits"
    using shifted_down [OF less.prems(7), of ?t bits] shifted_down_small [OF less.prems(7), of ?t bits] assms(1) len(2) by (simp_all add: x_def)
  define c1 where "c1 = c\<lparr>m_outBuf := (m_outBuf c)[?i := m_outBuf c ! ?i OR x]\<rparr>"
  note cell = or_cell [OF less.prems(1) i x, folded ys]
  have step: "put_bits bits b left c =
      (if left \<ge> ?t then let c = c1\<lparr>m_bitPos := 0, m_bytePos := ?i + 1\<rparr> in
         if left - ?t = 0 then Some c else put_bits bits (push_bit ?t b AND 0xff) (left - ?t) c
       else Some (c1\<lparr>m_bitPos := m_bitPos c + left\<rparr>))"
    using len(2) i by (subst put_bits.simps) (simp add: Let_def access_simps x_def c1_def)
  show ?case
  proof (cases "left \<ge> ?t")
    case True
    define c2 where "c2 = c1\<lparr>m_bitPos := 0, m_bytePos := ?i + 1\<rparr>"
    have f: "filled bits (bs @ ys) (r - length ys) c2"
      using cell len True ys by (simp add: filled_def c2_def c1_def)
    show ?thesis
    proof (cases "left = ?t")
      case True
      then have "ys = src" using less.prems(6) by (simp add: ys_def)
      then show ?thesis using step f True less.prems(6) by (simp add: c2_def)
    next
      case False
      let ?l = "left - ?t"
      have t: "0 < ?t" "?t \<le> 8" "?t < left" using len(2) assms(1) True False by linarith+
      have b: "to_bits 8 (push_bit ?t b AND 0xff) = drop ?t src @ replicate (8 - ?l) False" "unat (push_bit ?t b AND 0xff) < 256"
        using shifted_up [OF t(2), of b] less.prems(4-6) t by (simp_all add: replicate_add [symmetric])
      have "\<exists>c'. put_bits bits (push_bit ?t b AND 0xff) ?l c2 = Some c' \<and> filled bits ((bs @ ys) @ drop ?t src) (r - length ys - ?l) c'"
        using less.prems(3-6) t ys by (intro less.IH [OF _ f _ _ _ b(1) _ b(2)]) simp_all
      moreover have "(bs @ ys) @ drop ?t src = bs @ src" "r - length ys - ?l = r - left"
        using t ys by (simp_all add: ys_def)
      moreover have "left - ?t \<noteq> 0" using t by simp
      then have "put_bits bits b left c = put_bits bits (push_bit ?t b AND 0xff) ?l c2"
        unfolding step Let_def c2_def using True by (simp only: if_True if_False)
      ultimately show ?thesis by (simp only:)
    qed
  next
    case False
    then have "ys = src" using less.prems(6) by (simp add: ys_def)
    then have "filled bits (bs @ src) (r - left) (c1\<lparr>m_bitPos := m_bitPos c + left\<rparr>)"
      using cell len False less.prems(6) by (simp add: filled_def c1_def)
    then show ?thesis using step False by simp
  qed
qed

lemma translate_prefix:
  assumes "n \<le> length buf" "\<forall>v \<in> set buf. Q v"
    and f: "\<And>i s. i < length s \<Longrightarrow> Q (s ! i) \<Longrightarrow> f i s = Some (s[i := h (s ! i)])"
  shows "for_in [0..<n] f buf = Some (map h (take n buf) @ drop n buf)"
  using assms(1)
proof (induction n)
  case (Suc n)
  let ?s = "map h (take n buf) @ drop n buf"
  have n: "?s ! n = buf ! n" "n < length ?s" using Suc.prems by (simp_all add: nth_append)
  have "?s[n := h (buf ! n)] = map h (take (Suc n) buf) @ drop (Suc n) buf"
    using Suc.prems by (simp add: list_update_append take_Suc_conv_app_nth Cons_nth_drop_Suc [symmetric])
  moreover have "f n ?s = Some (?s[n := h (?s ! n)])" using f [OF n(2)] assms(2) Suc.prems n by simp
  ultimately have "f n ?s = Some (map h (take (Suc n) buf) @ drop (Suc n) buf)" unfolding n(1) by simp
  with Suc show ?case by (simp add: for_in_append)
qed simp

definition enc_inv :: "byte list \<Rightarrow> nat \<Rightarrow> nat \<Rightarrow> byte list \<Rightarrow> coder \<times> (byte list \<times> bool) list \<Rightarrow> bool" where
  "enc_inv alpha bits blk s = (\<lambda>(c, out). \<exists>vs bs.
     concat (map fst out) = map (\<lambda>v. alpha ! unat v) vs \<and> (\<forall>v \<in> set vs. unat v < 2 ^ bits) \<and> (\<forall>x \<in> set out. \<not> snd x) \<and>
     length vs mod blk = 0 \<and> cells 8 s = cells bits vs @ bs \<and> 8 dvd length bs \<and> length bs < blk * bits \<and>
     length bs = m_bytePos c * bits + m_bitPos c \<and> m_bitPos c < bits \<and>
     (m_bytePos c = 0 \<or> filled bits bs (blk * bits - length bs) c))"

lemma enc_invI:
  "concat (map fst out) = map (\<lambda>v. alpha ! unat v) vs \<Longrightarrow> \<forall>v \<in> set vs. unat v < 2 ^ bits \<Longrightarrow> \<forall>x \<in> set out. \<not> snd x \<Longrightarrow>
   length vs mod blk = 0 \<Longrightarrow> cells 8 s = cells bits vs @ bs \<Longrightarrow> 8 dvd length bs \<Longrightarrow> length bs < blk * bits \<Longrightarrow>
   length bs = m_bytePos c * bits + m_bitPos c \<Longrightarrow> m_bitPos c < bits \<Longrightarrow>
   m_bytePos c = 0 \<or> filled bits bs (blk * bits - length bs) c \<Longrightarrow> enc_inv alpha bits blk s (c, out)"
  by (auto simp: enc_inv_def)

lemma filled_length: "filled n bs r c \<Longrightarrow> length (m_outBuf c) * n = length bs + r"
proof -
  assume "filled n bs r c"
  then have "length (cells n (m_outBuf c)) = length (bs @ replicate r False)" by (simp only: filled_def)
  then show ?thesis by simp
qed

lemma filled_new: "0 < n \<Longrightarrow> m_bytePos c = 0 \<Longrightarrow> m_bitPos c = 0 \<Longrightarrow> filled n [] (blk * n) (c\<lparr>m_outBuf := replicate blk 0\<rparr>)"
  by (simp add: filled_def cells_zero)

lemma div_place: "a * n + p = (k :: nat) * n \<Longrightarrow> p < n \<Longrightarrow> a = k"
proof -
  assume "a * n + p = k * n" "p < n"
  moreover have "(a * n + p) div n = a" using \<open>p < n\<close> by simp
  ultimately show ?thesis by (metis div_mult_self_is_m gr_implies_not0 neq0_conv)
qed

lemma encode_byte_spec:
  assumes bits: "0 < bits" "bits < 8" and alpha: "2 ^ bits \<le> length alpha" and N: "8 dvd blk * bits"
    and p: "p = \<lparr>m_alphabet = alpha, m_bitsPerChar = bits, m_padding = pad, m_outputBlockSize = blk\<rparr>"
    and inv: "enc_inv alpha bits blk s (c, out)"
  shows "\<exists>t. encode_byte p b (c, out) = Some t \<and> enc_inv alpha bits blk (s @ [b]) t"
proof -
  let ?N = "blk * bits"
  obtain vs bs where out: "concat (map fst out) = map (\<lambda>v. alpha ! unat v) vs" "\<forall>v \<in> set vs. unat v < 2 ^ bits"
      "\<forall>x \<in> set out. \<not> snd x" "length vs mod blk = 0" "cells 8 s = cells bits vs @ bs"
    and bs: "8 dvd length bs" "length bs < ?N" "length bs = m_bytePos c * bits + m_bitPos c" "m_bitPos c < bits"
      "m_bytePos c = 0 \<or> filled bits bs (?N - length bs) c"
    using inv by (auto simp: enc_inv_def)
  define c1 where "c1 = (if m_bytePos c = 0 then c\<lparr>m_outBuf := replicate blk 0\<rparr> else c)"
  have body: "encode_byte p b (c, out) = do {
      c \<leftarrow> put_bits bits (ucast b) 8 c1;
      check (m_bytePos c \<le> blk);
      if m_bytePos c = blk then do {
        buf \<leftarrow> for_in [0..<m_bytePos c] (\<lambda>i buf. do { v \<leftarrow> rd buf i; check (unat v < 2 ^ bits); translate alpha i buf }) (m_outBuf c);
        Some (c\<lparr>m_outBuf := buf, m_bytePos := 0, m_bitPos := 0\<rparr>, out @ [(take blk buf, False)]) }
      else Some (c, out) }"
    by (simp only: encode_byte_def p Let_def prod.case c1_def encoder_par.select_convs)
  have c1: "filled bits bs (?N - length bs) c1"
  proof (cases "m_bytePos c = 0")
    case True
    then have "length bs < 8" using bs(3,4) bits(2) by simp
    then have "bs = []" using bs(1) by (auto dest: dvd_imp_le)
    moreover from this have "m_bitPos c = 0" using bs(3) by simp
    ultimately show ?thesis using filled_new [of bits c blk] True bits(1) by (simp add: c1_def)
  qed (use bs(5) in \<open>simp add: c1_def\<close>)
  have "8 dvd ?N - length bs" using N bs(1) by (rule dvd_diff_nat)
  then have room: "8 \<le> ?N - length bs" using bs(2) by (intro dvd_imp_le) simp_all
  have u: "to_bits 8 (ucast b :: u32) = to_bits 8 b @ replicate (8 - 8) False" "unat (ucast b :: u32) < 256"
    using byte_lt [of b] by (auto intro!: to_bits_eqI simp: bit_ucast_iff unsigned_ucast_eq take_bit_nat_eq_self)
  obtain c2 where c2: "put_bits bits (ucast b) 8 c1 = Some c2" "filled bits (bs @ to_bits 8 b) (?N - length bs - 8) c2"
    using put_bits_spec [OF bits(2) c1 _ room _ u(1) _ u(2)] by auto
  let ?bs = "bs @ to_bits 8 b"
  have len: "length ?bs = m_bytePos c2 * bits + m_bitPos c2" "m_bitPos c2 < bits" using c2(2) by (simp_all only: filled_def)
  have "length ?bs \<le> ?N" using room by simp
  note len = len this
  have "m_bytePos c2 * bits \<le> blk * bits" using len by linarith
  then have le: "m_bytePos c2 \<le> blk" using bits(1) by simp
  have size: "length (m_outBuf c2) = blk" using filled_length [OF c2(2)] room bs(2) bits(1) by simp
  let ?h = "\<lambda>v. alpha ! unat v"
  have cells: "cells 8 (s @ [b]) = cells bits vs @ ?bs" using out(5) by simp
  show ?thesis
  proof (cases "m_bytePos c2 = blk")
    case True
    have "length ?bs = ?N + m_bitPos c2" using len(1) unfolding True .
    then have full: "length ?bs = ?N" "m_bitPos c2 = 0" using len(3) by simp_all
    define buf where "buf = map ?h (m_outBuf c2)"
    have "for_in [0..<blk] (\<lambda>i buf. do { v \<leftarrow> rd buf i; check (unat v < 2 ^ bits); translate alpha i buf }) (m_outBuf c2) =
        Some (map ?h (take blk (m_outBuf c2)) @ drop blk (m_outBuf c2))"
      using c2(2) size alpha
      by (intro translate_prefix [where Q = "\<lambda>v. unat v < 2 ^ bits"]) (simp_all add: filled_def translate_def access_simps)
    then have run: "encode_byte p b (c, out) =
        Some (c2\<lparr>m_outBuf := buf, m_bytePos := 0, m_bitPos := 0\<rparr>, out @ [(buf, False)])"
      using c2(1) True size by (simp add: body buf_def)
    have "cells bits (m_outBuf c2) = ?bs" using c2(2) full(1) by (simp add: filled_def)
    then have "enc_inv alpha bits blk (s @ [b]) (c2\<lparr>m_outBuf := buf, m_bytePos := 0, m_bitPos := 0\<rparr>, out @ [(buf, False)])"
      using out cells c2(2) size bits bs(2)
      by (intro enc_invI [where vs = "vs @ m_outBuf c2" and bs = "[]"]) (auto simp: filled_def buf_def)
    with run show ?thesis by blast
  next
    case False
    then have run: "encode_byte p b (c, out) = Some (c2, out)"
      using c2(1) le by (simp add: body)
    have "length ?bs \<noteq> ?N"
    proof
      assume "length ?bs = ?N"
      then show False using div_place [of "m_bytePos c2" bits "m_bitPos c2" blk] len(1,2) False by simp
    qed
    then have "length ?bs < ?N" using len(3) by simp
    moreover have "8 dvd length ?bs" using bs(1) by simp
    moreover from this have "8 dvd m_bytePos c2 * bits + m_bitPos c2" by (simp only: len(1))
    ultimately have "enc_inv alpha bits blk (s @ [b]) (c2, out)"
      using out cells c2(2) len by (intro enc_invI [where vs = vs and bs = ?bs]) simp_all
    with run show ?thesis by blast
  qed
qed

text \<open>What the encoder writes: the characters of values whose bits are those of the bytes and fewer than
  \<open>bits\<close> zeros more, and padding up to a whole block.\<close>

definition pads :: "nat \<Rightarrow> byte option \<Rightarrow> nat \<Rightarrow> byte list" where
  "pads blk pad n = (case pad of None \<Rightarrow> [] | Some ch \<Rightarrow> replicate ((blk - n mod blk) mod blk) ch)"

definition values_of :: "nat \<Rightarrow> byte list \<Rightarrow> byte list \<Rightarrow> bool" where
  "values_of bits s vs \<longleftrightarrow> (\<forall>v \<in> set vs. unat v < 2 ^ bits) \<and> (\<exists>k < bits. cells bits vs = cells 8 s @ replicate k False)"

lemma encoder_end_spec:
  assumes bits: "0 < bits" "bits < 8" and alpha: "2 ^ bits \<le> length alpha" and blk: "0 < blk"
    and p: "p = \<lparr>m_alphabet = alpha, m_bitsPerChar = bits, m_padding = pad, m_outputBlockSize = blk\<rparr>"
    and inv: "enc_inv alpha bits blk s (c, out)"
  shows "\<exists>c' lp vs. encoder_end p (c, out) = Some (c', out @ [(lp, True)]) \<and> (\<forall>x \<in> set out. \<not> snd x) \<and> values_of bits s vs \<and>
    concat (map fst out) @ lp = map (\<lambda>v. alpha ! unat v) vs @ pads blk pad (length vs)"
proof -
  let ?N = "blk * bits" and ?h = "\<lambda>v. alpha ! unat v"
  obtain vs bs where out: "concat (map fst out) = map ?h vs" "\<forall>v \<in> set vs. unat v < 2 ^ bits"
      "\<forall>x \<in> set out. \<not> snd x" "length vs mod blk = 0" "cells 8 s = cells bits vs @ bs"
    and bs: "8 dvd length bs" "length bs < ?N" "length bs = m_bytePos c * bits + m_bitPos c" "m_bitPos c < bits"
      "m_bytePos c = 0 \<or> filled bits bs (?N - length bs) c"
    using inv by (auto simp: enc_inv_def)
  define n where "n = (if m_bitPos c > 0 then m_bytePos c + 1 else m_bytePos c)"
  define ws where "ws = take n (m_outBuf c)"
  have empty: "bs = []" "n = 0" if "m_bytePos c = 0"
  proof -
    have "length bs < 8" using bs(3,4) bits(2) that by simp
    then show "bs = []" using bs(1) by (auto dest: dvd_imp_le)
    then show "n = 0" using bs(3) that by (simp add: n_def)
  qed
  have place: "m_bytePos c * bits < blk * bits" using bs(2,3) by linarith
  then have le: "n \<le> blk" by (auto simp: n_def)
  have nb: "length bs \<le> n * bits" "n * bits - length bs < bits"
    using bs(3,4) bits(1) by (auto simp: n_def algebra_simps)
  have ws: "cells bits ws = bs @ replicate (n * bits - length bs) False \<and> (\<forall>v \<in> set ws. unat v < 2 ^ bits) \<and> length ws = n \<and>
      for_in [0..<n] (translate alpha) (m_outBuf c) = Some (map ?h ws @ drop n (m_outBuf c))"
  proof (cases "m_bytePos c = 0")
    case True
    then show ?thesis using empty by (simp add: ws_def)
  next
    case False
    with bs(5) have f: "filled bits bs (?N - length bs) c" by simp
    have size: "length (m_outBuf c) = blk" using filled_length [OF f] bs(2) bits(1) by simp
    have "cells bits (m_outBuf c) = cells bits ws @ cells bits (drop n (m_outBuf c))"
      unfolding ws_def cells_simps(3) [symmetric] by simp
    moreover have "replicate (?N - length bs) False = replicate (n * bits - length bs) False @ replicate (?N - n * bits) False"
    proof -
      have "n * bits \<le> ?N" using le by simp
      then have "?N - length bs = (n * bits - length bs) + (?N - n * bits)" using nb(1) by linarith
      then show ?thesis by (simp only: replicate_add)
    qed
    moreover have "length (cells bits ws) = length (bs @ replicate (n * bits - length bs) False)"
      using nb(1) le size by (simp add: ws_def)
    ultimately have "cells bits ws = bs @ replicate (n * bits - length bs) False"
      using f unfolding filled_def by (metis append.assoc append_eq_append_conv)
    moreover have small: "\<forall>v \<in> set (m_outBuf c). unat v < 2 ^ bits" using f by (simp add: filled_def)
    moreover have "for_in [0..<n] (translate alpha) (m_outBuf c) = Some (map ?h ws @ drop n (m_outBuf c))"
      unfolding ws_def using le size alpha small
      by (intro translate_prefix [where Q = "\<lambda>v. unat v < 2 ^ bits"]) (simp_all add: translate_def access_simps)
    ultimately show ?thesis using le size by (auto simp: ws_def dest: in_set_takeD)
  qed
  have vals: "values_of bits s (vs @ ws)"
    using ws out nb(2) by (auto simp: values_of_def intro!: exI [of _ "n * bits - length bs"])
  have pad_num: "(blk - length (vs @ ws) mod blk) mod blk = (if n > 0 then blk - n else 0)"
  proof -
    have "length (vs @ ws) mod blk = (length vs mod blk + n) mod blk" using ws by (simp add: mod_add_left_eq)
    then have "length (vs @ ws) mod blk = n mod blk" using out(4) by simp
    then show ?thesis using le blk by (cases "n = blk") auto
  qed
  define lp where "lp = map ?h ws @ pads blk pad (length (vs @ ws))"
  have run: "for_in [0..<n] (translate alpha) (m_outBuf c) = Some (map ?h ws @ drop n (m_outBuf c))" and wl: "length ws = n"
    using ws by blast+
  have "encoder_end p (c, out) = do {
      (buf, n) \<leftarrow> (case pad of
          Some ch \<Rightarrow> if n > 0 then Some (map ?h ws @ replicate (blk - n) ch, blk) else Some (map ?h ws @ drop n (m_outBuf c), n)
        | None \<Rightarrow> Some (map ?h ws @ drop n (m_outBuf c), n));
      Some (c\<lparr>m_outBuf := buf, m_bytePos := 0, m_bitPos := 0\<rparr>, out @ [(take n buf, True)]) }"
    unfolding encoder_end_def p prod.case Let_def encoder_par.select_convs n_def [symmetric] run
    using le wl by (simp cong: option.case_cong if_cong)
  then have "\<exists>c'. encoder_end p (c, out) = Some (c', out @ [(lp, True)])"
    unfolding lp_def pads_def pad_num using wl le by (cases pad) auto
  then show ?thesis using vals out(1,3) by (auto simp: lp_def intro!: exI [of _ "vs @ ws"])
qed

lemma block_bits_run:
  "0 < m \<Longrightarrow> i mod m = 0 \<Longrightarrow> block_bits step m i = Some i"
  "i mod m \<noteq> 0 \<Longrightarrow> block_bits step m i = block_bits step m (i + step)"
  by (subst block_bits.simps, simp)+

lemma block_bits_total:
  assumes "0 < bits" "bits < 8"
  shows "\<exists>N. block_bits 8 bits 8 = Some N \<and> block_bits bits 8 bits = Some N \<and> bits dvd N \<and> 8 dvd N \<and> 0 < N"
proof -
  have "bits = 1 \<or> bits = 2 \<or> bits = 3 \<or> bits = 4 \<or> bits = 5 \<or> bits = 6 \<or> bits = 7" using assms by auto
  then show ?thesis by (elim disjE) (simp_all add: block_bits_run)
qed

section \<open>The grouper\<close>

lemma group_loop_spec:
  assumes "0 < g_size" "counter \<le> g_size" "\<forall>ch \<in> set sep. \<not> V ch"
  shows "\<exists>k part. group_loop g_size sep counter inp = (k, part) \<and> filter V part = filter V inp \<and> k \<le> g_size"
  using assms
proof (induction g_size sep counter inp rule: group_loop.induct)
  case (1 g_size sep counter inp)
  show ?case
  proof (cases "inp = []")
    case True
    then show ?thesis using 1 by (subst group_loop.simps) simp
  next
    case False
    define out where "out = (if counter = g_size then sep else [])"
    define k0 where "k0 = (if counter = g_size then 0 else counter)"
    define n where "n = min (length inp) (g_size - k0)"
    have n: "0 < n" "k0 + n \<le> g_size" using False 1(2,3) by (auto simp: n_def k0_def)
    obtain k rest where r: "group_loop g_size sep (k0 + n) (drop n inp) = (k, rest)" "filter V rest = filter V (drop n inp)" "k \<le> g_size"
      using "1.IH" [OF False out_def k0_def n_def _ "1.prems"(1) n(2) "1.prems"(3)] n(1) by auto
    have "group_loop g_size sep counter inp = (k, out @ take n inp @ rest)"
      using r(1) False n(1) by (subst group_loop.simps) (simp only: Let_def out_def [symmetric] k0_def [symmetric] n_def [symmetric], simp)
    moreover have "filter V out = []" using 1(4) by (auto simp: out_def)
    moreover have "filter V (take n inp) @ filter V (drop n inp) = filter V inp"
      by (simp only: filter_append [symmetric] append_take_drop_id)
    ultimately show ?thesis using r(2,3) by auto
  qed
qed

definition grouping :: "grouper \<Rightarrow> grouper \<Rightarrow> bool" where
  "grouping g g' \<longleftrightarrow> m_groupSize g' = m_groupSize g \<and> m_separator g' = m_separator g \<and> m_terminator g' = m_terminator g \<and>
     m_counter g' \<le> m_groupSize g"

lemma Grouper_Put2_spec:
  assumes "grouping g g1" "\<forall>ch \<in> set (m_separator g). \<not> V ch" "\<forall>ch \<in> set (m_terminator g). \<not> V ch"
  shows "\<exists>g2 part. Grouper_Put2 (inp, e) (g1, str) = Some (g2, str @ part) \<and> grouping g g2 \<and> filter V part = filter V inp \<and>
    (m_groupSize g = 0 \<longrightarrow> part = inp @ (if e then m_terminator g else []))"
proof (cases "m_groupSize g = 0")
  case True
  moreover have "filter V (m_terminator g) = []" using assms(3) by auto
  ultimately show ?thesis using assms by (auto simp: Grouper_Put2_def grouping_def)
next
  case False
  then obtain k part where "group_loop (m_groupSize g) (m_separator g) (m_counter g1) inp = (k, part)"
    "filter V part = filter V inp" "k \<le> m_groupSize g"
    using group_loop_spec [of "m_groupSize g" "m_counter g1" "m_separator g" V inp] assms by (auto simp: grouping_def)
  moreover have "filter V (m_terminator g) = []" using assms(3) by auto
  ultimately show ?thesis using assms False by (auto simp: Grouper_Put2_def grouping_def)
qed

lemma grouped_spec:
  assumes "grouping g g1" "\<forall>ch \<in> set (m_separator g). \<not> V ch" "\<forall>ch \<in> set (m_terminator g). \<not> V ch"
    and "\<forall>x \<in> set out. \<not> snd x"
  shows "\<exists>g2 part. for_in (out @ [(lp, True)]) Grouper_Put2 (g1, str) = Some (g2, str @ part) \<and>
    filter V part = filter V (concat (map fst out) @ lp) \<and>
    (m_groupSize g = 0 \<longrightarrow> part = concat (map fst out) @ lp @ m_terminator g)"
  using assms(1,4)
proof (induction out arbitrary: g1 str)
  case Nil
  then show ?case using Grouper_Put2_spec [OF Nil(1) assms(2,3), of lp True str] by auto
next
  case (Cons x out)
  obtain inp where x: "x = (inp, False)" using Cons.prems(2) by (cases x) auto
  obtain g2 part where 1: "Grouper_Put2 (inp, False) (g1, str) = Some (g2, str @ part)" "grouping g g2"
    "filter V part = filter V inp" "m_groupSize g = 0 \<longrightarrow> part = inp"
    using Grouper_Put2_spec [OF Cons.prems(1) assms(2,3), of inp False str] by auto
  have "\<forall>x \<in> set out. \<not> snd x" using Cons.prems(2) by simp
  from Cons.IH [OF 1(2) this, of "str @ part"] 1(1,3,4) show ?case by (auto simp: x)
qed

lemma encode_message_spec:
  assumes bits: "0 < bits" "bits < 8" and alpha: "2 ^ bits \<le> length alpha"
    and N: "block_bits 8 bits 8 = Some N" and g: "m_counter g \<le> m_groupSize g"
  shows "\<exists>str vs. encode_message alpha bits pad g s = Some str \<and> values_of bits s vs \<and>
    (m_groupSize g = 0 \<longrightarrow> str = map (\<lambda>v. alpha ! unat v) vs @ pads (N div bits) pad (length vs) @ m_terminator g) \<and>
    (\<forall>V. (\<forall>ch \<in> set (m_separator g). \<not> V ch) \<and> (\<forall>ch \<in> set (m_terminator g). \<not> V ch) \<longrightarrow>
      filter V str = filter V (map (\<lambda>v. alpha ! unat v) vs @ pads (N div bits) pad (length vs)))"
proof -
  define blk where "blk = N div bits"
  define p where "p = \<lparr>m_alphabet = alpha, m_bitsPerChar = bits, m_padding = pad, m_outputBlockSize = blk\<rparr>"
  define c where "c = \<lparr>m_outBuf = replicate blk 0, m_bytePos = 0, m_bitPos = 0\<rparr>"
  have dvd: "bits dvd N" "8 dvd N" "0 < N" using block_bits_total [OF bits] N by auto
  then have blk: "blk * bits = N" "0 < blk" using bits(1) by (auto simp: blk_def dest: dvd_imp_le)
  have init: "encoder_init alpha bits pad = Some (p, c)"
    using bits N by (simp add: encoder_init_def p_def c_def blk_def Let_def)
  have "\<exists>t. for_in s (encode_byte p) (c, []) = Some t \<and> enc_inv alpha bits blk s t"
  proof (induction s rule: rev_induct)
    case Nil
    have "enc_inv alpha bits blk [] (c, [])"
      using bits blk dvd by (intro enc_invI [where vs = "[]" and bs = "[]"]) (simp_all add: c_def)
    then show ?case by simp
  next
    case (snoc b s)
    then obtain c1 out1 where 1: "for_in s (encode_byte p) (c, []) = Some (c1, out1)" "enc_inv alpha bits blk s (c1, out1)" by auto
    have "8 dvd blk * bits" using blk dvd by simp
    from encode_byte_spec [OF bits alpha this p_def 1(2), of b] 1(1) show ?case by (auto simp: for_in_append)
  qed
  then obtain c1 out1 where 1: "for_in s (encode_byte p) (c, []) = Some (c1, out1)" "enc_inv alpha bits blk s (c1, out1)" by auto
  obtain c2 lp vs where 2: "encoder_end p (c1, out1) = Some (c2, out1 @ [(lp, True)])" "\<forall>x \<in> set out1. \<not> snd x" "values_of bits s vs"
    "concat (map fst out1) @ lp = map (\<lambda>v. alpha ! unat v) vs @ pads blk pad (length vs)"
    using encoder_end_spec [OF bits alpha blk(2) p_def 1(2)] by blast
  have "encoder_end p (c1, []) = Some (c2, [(lp, True)])"
    using 2(1) by (auto simp: encoder_end_def Let_def bind_eq_Some_conv split: option.splits prod.splits if_splits)
  then have enc: "encode_message alpha bits pad g s =
      do { (g, str) \<leftarrow> for_in (out1 @ [(lp, True)]) Grouper_Put2 (g, []); Some str }"
    using 1(1) init by (simp add: encode_message_def BaseN_Encoder_Put2_def)
  have refl: "grouping g g" using g by (simp add: grouping_def)
  show ?thesis
  proof -
    obtain g2 str where t: "for_in (out1 @ [(lp, True)]) Grouper_Put2 (g, []) = Some (g2, str)"
      "m_groupSize g = 0 \<longrightarrow> str = concat (map fst out1) @ lp @ m_terminator g"
      using grouped_spec [OF refl _ _ 2(2), of "\<lambda>_. False" lp "[]"] by auto
    have "filter V str = filter V (concat (map fst out1) @ lp)"
      if "\<forall>ch \<in> set (m_separator g). \<not> V ch" "\<forall>ch \<in> set (m_terminator g). \<not> V ch" for V
      using grouped_spec [OF refl that 2(2), of lp "[]"] t(1) by auto
    moreover have "m_groupSize g = 0 \<longrightarrow> str = map (\<lambda>v. alpha ! unat v) vs @ pads blk pad (length vs) @ m_terminator g"
      using t(2) 2(4) by (metis append.assoc)
    ultimately show ?thesis using enc t(1) 2(3,4) blk_def by (intro exI [of _ str] exI [of _ vs]) simp
  qed
qed

section \<open>The decoder\<close>

lemma shifted_in_cell:
  assumes "unat (v :: u32) < 2 ^ bits" "q + bits \<le> 8"
  shows "to_bits 8 (ucast (push_bit (8 - (q + bits)) v) :: byte) = replicate q False @ to_bits bits v @ replicate (8 - q - bits) False"
proof (rule to_bits_eqI)
  fix i assume i: "i < (8 :: nat)"
  have "\<not> bit v (7 - i - (8 - (q + bits)))" if "i < q" using that assms by (intro high_bit [OF assms(1)]) linarith
  moreover have "7 - i - (8 - (q + bits)) = bits - 1 - (i - q)" if "\<not> i < q" using that assms(2) i by linarith
  moreover have "8 - (q + bits) \<le> 7 - i \<longleftrightarrow> i < q + bits" using assms(2) i by linarith
  ultimately show "(replicate q False @ to_bits bits v @ replicate (8 - q - bits) False) ! i =
      bit (ucast (push_bit (8 - (q + bits)) v) :: byte) (8 - 1 - i)"
    using i by (auto simp: bit_ucast_iff bit_push_bit_iff nth_append)
qed (use assms in simp)

lemma shifted_over_cell:
  assumes "unat (v :: u32) < 2 ^ bits" "q < 8" "8 < q + bits" "bits \<le> 8"
  shows "to_bits 8 (ucast (drop_bit (q + bits - 8) v) :: byte) = replicate q False @ take (8 - q) (to_bits bits v)"
    "to_bits 8 (ucast (push_bit (16 - (q + bits)) v) :: byte) = drop (8 - q) (to_bits bits v) @ replicate (16 - (q + bits)) False"
proof -
  show "to_bits 8 (ucast (drop_bit (q + bits - 8) v) :: byte) = replicate q False @ take (8 - q) (to_bits bits v)"
  proof (rule to_bits_eqI)
    fix i assume i: "i < (8 :: nat)"
    have "\<not> bit v (q + bits - 8 + (7 - i))" if "i < q" using that assms by (intro high_bit [OF assms(1)]) linarith
    moreover have "q + bits - 8 + (7 - i) = bits - 1 - (i - q)" if "\<not> i < q" using that assms i by linarith
    ultimately show "(replicate q False @ take (8 - q) (to_bits bits v)) ! i = bit (ucast (drop_bit (q + bits - 8) v) :: byte) (8 - 1 - i)"
      using i assms by (auto simp: bit_ucast_iff bit_drop_bit_eq nth_append)
  qed (use assms in simp)
  show "to_bits 8 (ucast (push_bit (16 - (q + bits)) v) :: byte) = drop (8 - q) (to_bits bits v) @ replicate (16 - (q + bits)) False"
  proof (rule to_bits_eqI)
    fix i assume i: "i < (8 :: nat)"
    have "16 - (q + bits) \<le> 7 - i \<longleftrightarrow> i < bits - (8 - q)" using assms i by linarith
    moreover have "7 - i - (16 - (q + bits)) = bits - 1 - (8 - q + i)" if "i < bits - (8 - q)" using that assms i by linarith
    ultimately show "(drop (8 - q) (to_bits bits v) @ replicate (16 - (q + bits)) False) ! i =
        bit (ucast (push_bit (16 - (q + bits)) v) :: byte) (8 - 1 - i)"
      using i assms by (auto simp: bit_ucast_iff bit_push_bit_iff nth_append)
  qed (use assms in simp)
qed

definition valid_char :: "int list \<Rightarrow> byte \<Rightarrow> bool" where
  "valid_char lookup ch \<longleftrightarrow> 0 \<le> lookup ! unat ch"

definition lookup_values :: "int list \<Rightarrow> byte list \<Rightarrow> byte list" where
  "lookup_values lookup s = map (\<lambda>ch. word_of_int (lookup ! unat ch)) (filter (valid_char lookup) s)"

definition lookup_ok :: "int list \<Rightarrow> nat \<Rightarrow> bool" where
  "lookup_ok lookup bits \<longleftrightarrow> length lookup = 256 \<and> (\<forall>l \<in> set lookup. l = - 1 \<or> 0 \<le> l \<and> l < 2 ^ bits)"

definition dec_inv :: "int list \<Rightarrow> nat \<Rightarrow> nat \<Rightarrow> byte list \<Rightarrow> coder \<times> (byte list \<times> bool) list \<Rightarrow> bool" where
  "dec_inv lookup bits blk s = (\<lambda>(c, out). \<exists>bs.
     cells bits (lookup_values lookup s) = cells 8 (concat (map fst out)) @ bs \<and> bits dvd length bs \<and> length bs < blk * 8 \<and>
     length bs = m_bytePos c * 8 + m_bitPos c \<and> m_bitPos c < 8 \<and> (bs = [] \<or> filled 8 bs (blk * 8 - length bs) c))"

lemma carry_bytes_eq:
  assumes "m < 16"
  shows "carry_bytes n m = (if m < 8 then (n, m) else (n + 1, m - 8))"
proof -
  have "\<not> 8 \<le> m - 8" using assms by linarith
  then show ?thesis by (simp add: carry_bytes.simps [of n m] carry_bytes.simps [of "Suc n" "m - 8"])
qed

lemma or_cell_8:
  assumes f: "filled 8 bs r c" and x: "to_bits 8 (ucast v :: byte) = replicate (m_bitPos c) False @ ys @ replicate (8 - m_bitPos c - length ys) False"
    and ys: "m_bitPos c + length ys \<le> 8" "0 < r"
  shows "\<exists>buf. or_at (m_bytePos c) v (m_outBuf c) = Some buf \<and> cells 8 buf = (bs @ ys) @ replicate (r - length ys) False \<and> length ys \<le> r"
proof -
  have "length (m_outBuf c) * 8 = length bs + r" using filled_length [OF f] .
  moreover have "length bs = m_bytePos c * 8 + m_bitPos c" "m_bitPos c < 8" using f by (simp_all add: filled_def)
  ultimately have i: "m_bytePos c < length (m_outBuf c)" using ys(2) by linarith
  have "unat (ucast v :: byte) < 2 ^ 8" using byte_lt [of "ucast v"] by simp
  from or_cell [OF f i x this ys(1)] show ?thesis using i by (simp add: or_at_def access_simps)
qed

lemma byte_below_8: "unat (v :: byte) < 2 ^ 8"
  using byte_lt [of v] by simp

lemma or_value:
  assumes bits: "0 < bits" "bits < 8" and f: "filled 8 bs r c" and v: "unat (v :: u32) < 2 ^ bits" and r: "bits \<le> r"
  defines "nb \<equiv> m_bitPos c + bits"
  shows "\<exists>buf bytePos bitPos. (if nb \<le> 8 then or_at (m_bytePos c) (push_bit (8 - nb) v) (m_outBuf c)
      else do { buf \<leftarrow> or_at (m_bytePos c) (drop_bit (nb - 8) v) (m_outBuf c); or_at (m_bytePos c + 1) (push_bit (16 - nb) v) buf }) = Some buf \<and>
    carry_bytes (m_bytePos c) nb = (bytePos, bitPos) \<and>
    filled 8 (bs @ to_bits bits v) (r - bits) (c\<lparr>m_outBuf := buf, m_bytePos := bytePos, m_bitPos := bitPos\<rparr>)"
proof -
  let ?q = "m_bitPos c" and ?i = "m_bytePos c"
  have len: "length bs = ?i * 8 + ?q" "?q < 8" using f by (simp_all add: filled_def)
  have carry: "carry_bytes ?i nb = (if nb < 8 then (?i, nb) else (?i + 1, nb - 8))"
    using carry_bytes_eq [of nb ?i] len(2) bits(2) by (simp add: nb_def)
  show ?thesis
  proof (cases "nb \<le> 8")
    case True
    have x: "to_bits 8 (ucast (push_bit (8 - nb) v) :: byte) = replicate ?q False @ to_bits bits v @ replicate (8 - ?q - length (to_bits bits v)) False"
      using shifted_in_cell [OF v, of ?q] True by (simp add: nb_def)
    obtain buf where "or_at ?i (push_bit (8 - nb) v) (m_outBuf c) = Some buf"
      "cells 8 buf = (bs @ to_bits bits v) @ replicate (r - bits) False"
      using or_cell_8 [OF f x] True r bits(1) by (auto simp: nb_def)
    then show ?thesis using True carry len byte_below_8 by (auto simp: filled_def nb_def)
  next
    case False
    let ?ys = "take (8 - ?q) (to_bits bits v)" and ?zs = "drop (8 - ?q) (to_bits bits v)"
    have sz: "length ?ys = 8 - ?q" "length ?zs = nb - 8" "?q + length ?ys \<le> 8" using False len(2) by (simp_all add: nb_def)
    note over = shifted_over_cell [OF v len(2), folded nb_def]
    have x: "to_bits 8 (ucast (drop_bit (nb - 8) v) :: byte) = replicate ?q False @ ?ys @ replicate (8 - ?q - length ?ys) False"
      using over(1) False bits(2) sz by simp
    obtain buf where 1: "or_at ?i (drop_bit (nb - 8) v) (m_outBuf c) = Some buf" "cells 8 buf = (bs @ ?ys) @ replicate (r - length ?ys) False"
      using or_cell_8 [OF f x sz(3)] r bits(1) by auto
    define c1 where "c1 = c\<lparr>m_outBuf := buf, m_bytePos := ?i + 1, m_bitPos := 0\<rparr>"
    have f1: "filled 8 (bs @ ?ys) (r - length ?ys) c1"
      using 1(2) len sz(1) byte_below_8 by (simp add: filled_def c1_def)
    have y: "to_bits 8 (ucast (push_bit (16 - nb) v) :: byte) = replicate (m_bitPos c1) False @ ?zs @ replicate (8 - m_bitPos c1 - length ?zs) False"
      using over(2) False bits(2) sz len(2) by (simp add: c1_def nb_def)
    have z: "m_bitPos c1 + length ?zs \<le> 8" "0 < r - length ?ys" using sz False bits len(2) r by (simp_all add: c1_def nb_def)
    obtain buf2 where 2: "or_at (?i + 1) (push_bit (16 - nb) v) buf = Some buf2"
      "cells 8 buf2 = ((bs @ ?ys) @ ?zs) @ replicate (r - length ?ys - length ?zs) False"
      using or_cell_8 [OF f1 y z] by (auto simp: c1_def)
    have "r - length ?ys - length ?zs = r - bits" using sz False len(2) by (simp add: nb_def)
    then have "cells 8 buf2 = (bs @ to_bits bits v) @ replicate (r - bits) False"
      using 2(2) by (simp only: append.assoc append_take_drop_id)
    moreover have "nb - 8 < 8" using len(2) bits(2) by (simp add: nb_def)
    ultimately show ?thesis using 1(1) 2(1) False carry len byte_below_8 by (auto simp: filled_def nb_def)
  qed
qed

lemma bit_unat: "bit (unat w) k = bit w k"
  by (simp add: bit_unsigned_iff)

lemma lookup_entry:
  assumes "lookup_ok lookup bits" "bits < 8"
  shows "rd lookup (unat (ch :: byte)) = Some (lookup ! unat ch)"
    "valid_char lookup ch \<Longrightarrow> unat (word_of_int (lookup ! unat ch) :: u32) < 2 ^ bits \<and> (word_of_int (lookup ! unat ch) :: u32) < 256 \<and>
      to_bits bits (word_of_int (lookup ! unat ch) :: u32) = to_bits bits (word_of_int (lookup ! unat ch) :: byte)"
    "\<not> valid_char lookup ch \<Longrightarrow> \<not> (word_of_int (lookup ! unat ch) :: u32) < 256"
proof -
  have i: "unat ch < length lookup" using assms(1) byte_lt [of ch] by (simp add: lookup_ok_def)
  then show "rd lookup (unat ch) = Some (lookup ! unat ch)" by (rule rd_in)
  have l: "lookup ! unat ch = - 1 \<or> 0 \<le> lookup ! unat ch \<and> lookup ! unat ch < 2 ^ bits"
    using assms(1) i by (simp add: lookup_ok_def)
  show "unat (word_of_int (lookup ! unat ch) :: u32) < 2 ^ bits \<and> (word_of_int (lookup ! unat ch) :: u32) < 256 \<and>
      to_bits bits (word_of_int (lookup ! unat ch) :: u32) = to_bits bits (word_of_int (lookup ! unat ch) :: byte)" if "valid_char lookup ch"
  proof -
    define n where "n = nat (lookup ! unat ch)"
    have n: "lookup ! unat ch = int n" "n < 2 ^ bits" using that l by (auto simp: n_def valid_char_def nat_less_iff)
    have "(2 :: nat) ^ bits \<le> 2 ^ 7" using assms(2) by (intro power_increasing) simp_all
    then have "n < 128" using n(2) by simp
    then have u: "unat (word_of_nat n :: u32) = n" by (simp add: unat_of_nat)
    have u8: "unat (word_of_nat n :: byte) = n" using \<open>n < 128\<close> by (simp add: unat_of_nat)
    have "bit (word_of_nat n :: u32) k = bit (word_of_nat n :: byte) k" for k
      using bit_unat [of "word_of_nat n :: u32" k] bit_unat [of "word_of_nat n :: byte" k] u u8 by simp
    then have "to_bits bits (word_of_nat n :: u32) = to_bits bits (word_of_nat n :: byte)" by (simp add: to_bits_def)
    then show ?thesis using u n \<open>n < 128\<close> by (simp add: word_less_nat_alt)
  qed
  show "\<not> (word_of_int (lookup ! unat ch) :: u32) < 256" if "\<not> valid_char lookup ch"
    using that l by (auto simp: valid_char_def)
qed

lemma decode_char_spec:
  assumes bits: "0 < bits" "bits < 8" and ok: "lookup_ok lookup bits" and N: "bits dvd blk * 8" "0 < blk"
    and p: "p = \<lparr>m_lookup = lookup, d_bitsPerChar = bits, d_outputBlockSize = blk\<rparr>"
    and inv: "dec_inv lookup bits blk s (c, out)"
  shows "\<exists>t. decode_char p ch (c, out) = Some t \<and> dec_inv lookup bits blk (s @ [ch]) t"
proof (cases "valid_char lookup ch")
  case False
  then have "256 \<le> (word_of_int (lookup ! unat ch) :: u32)" using lookup_entry(3) [OF ok bits(2), of ch] by simp
  then have "decode_char p ch (c, out) = Some (c, out)"
    by (simp only: decode_char_def p Let_def prod.case decoder_par.select_convs lookup_entry(1) [OF ok bits(2)] bind.bind_lunit if_True)
  then show ?thesis using inv False by (simp add: dec_inv_def lookup_values_def)
next
  case True
  let ?N = "blk * 8"
  define v where "v = (word_of_int (lookup ! unat ch) :: u32)"
  note e = lookup_entry(1) [OF ok bits(2), of ch] lookup_entry(2) [OF ok bits(2) True, folded v_def]
  obtain bs where out: "cells bits (lookup_values lookup s) = cells 8 (concat (map fst out)) @ bs"
    and bs: "bits dvd length bs" "length bs < ?N" "length bs = m_bytePos c * 8 + m_bitPos c" "m_bitPos c < 8" "bs = [] \<or> filled 8 bs (?N - length bs) c"
    using inv by (auto simp: dec_inv_def)
  define c1 where "c1 = (if m_bytePos c = 0 \<and> m_bitPos c = 0 then c\<lparr>m_outBuf := replicate blk 0\<rparr> else c)"
  have c1: "filled 8 bs (?N - length bs) c1"
  proof (cases "bs = []")
    case True
    then show ?thesis using filled_new [of 8 c blk] bs(3) by (simp add: c1_def)
  next
    case False
    then have "0 < length bs" by simp
    then have "\<not> (m_bytePos c = 0 \<and> m_bitPos c = 0)" using bs(3) by linarith
    then show ?thesis using bs(5) False by (auto simp: c1_def)
  qed
  have "bits dvd ?N - length bs" using N(1) bs(1) by (rule dvd_diff_nat)
  then have room: "bits \<le> ?N - length bs" using bs(2) by (intro dvd_imp_le) simp_all
  have small: "unat v < 2 ^ bits" "v < 256" using e(2) by blast+
  define nb where "nb = m_bitPos c1 + bits"
  obtain buf bytePos bitPos where 1: "(if nb \<le> 8 then or_at (m_bytePos c1) (push_bit (8 - nb) v) (m_outBuf c1)
      else do { buf \<leftarrow> or_at (m_bytePos c1) (drop_bit (nb - 8) v) (m_outBuf c1); or_at (m_bytePos c1 + 1) (push_bit (16 - nb) v) buf }) = Some buf"
    "carry_bytes (m_bytePos c1) nb = (bytePos, bitPos)"
    "filled 8 (bs @ to_bits bits v) (?N - length bs - bits) (c1\<lparr>m_outBuf := buf, m_bytePos := bytePos, m_bitPos := bitPos\<rparr>)"
    using or_value [OF bits c1 small(1) room] unfolding nb_def by blast
  let ?bs = "bs @ to_bits bits v"
  have body: "decode_char p ch (c, out) = do {
      buf \<leftarrow> (if nb \<le> 8 then or_at (m_bytePos c1) (push_bit (8 - nb) v) (m_outBuf c1)
        else do { buf \<leftarrow> or_at (m_bytePos c1) (drop_bit (nb - 8) v) (m_outBuf c1); or_at (m_bytePos c1 + 1) (push_bit (16 - nb) v) buf });
      let (bytePos, bitPos) = carry_bytes (m_bytePos c1) nb;
      if bytePos = blk then Some (c1\<lparr>m_outBuf := buf, m_bytePos := 0, m_bitPos := 0\<rparr>, out @ [(take blk buf, False)])
      else Some (c1\<lparr>m_outBuf := buf, m_bytePos := bytePos, m_bitPos := bitPos\<rparr>, out) }"
    using small(2) by (simp only: decode_char_def p Let_def prod.case decoder_par.select_convs e(1) bind.bind_lunit v_def [symmetric]
      c1_def [symmetric] nb_def [symmetric] not_le [symmetric] if_False)
  have val: "cells bits (lookup_values lookup (s @ [ch])) = cells 8 (concat (map fst out)) @ ?bs"
    using out e(2) True by (simp add: lookup_values_def)
  have dvd: "bits dvd length ?bs" using bs(1) by simp
  have len: "length ?bs = bytePos * 8 + bitPos" "bitPos < 8" using 1(3) by (simp_all add: filled_def)
  have "length ?bs \<le> ?N" using room bs(2) by simp
  note len = len this
  have size: "length buf = blk" using filled_length [OF 1(3)] room bs(2) by simp
  show ?thesis
  proof (cases "bytePos = blk")
    case True
    then have full: "length ?bs = ?N" using len by linarith
    then have "cells 8 buf = ?bs" using 1(3) by (simp add: filled_def)
    then have "dec_inv lookup bits blk (s @ [ch]) (c1\<lparr>m_outBuf := buf, m_bytePos := 0, m_bitPos := 0\<rparr>, out @ [(buf, False)])"
      using val N(2) unfolding dec_inv_def prod.case by (intro exI [of _ "[]"]) simp
    then show ?thesis using 1(1,2) True size by (simp add: body)
  next
    case False
    then have "length ?bs < ?N"
      using len div_place [of bytePos 8 bitPos blk] by (cases "length ?bs = ?N") auto
    moreover have "bits dvd bytePos * 8 + bitPos" using dvd by (simp only: len(1))
    ultimately have "dec_inv lookup bits blk (s @ [ch]) (c1\<lparr>m_outBuf := buf, m_bytePos := bytePos, m_bitPos := bitPos\<rparr>, out)"
      using val dvd len(1,2) 1(3) unfolding dec_inv_def prod.case by (intro exI [of _ ?bs]) simp
    then show ?thesis using 1(1,2) False by (simp add: body)
  qed
qed

lemma decode_message_spec:
  assumes bits: "0 < bits" "bits < 8" and ok: "lookup_ok lookup bits"
  shows "\<exists>d rest. decode_message lookup bits s = Some d \<and> cells bits (lookup_values lookup s) = cells 8 d @ rest \<and> length rest < 8"
proof -
  obtain N where N: "block_bits bits 8 bits = Some N" "bits dvd N" "8 dvd N" "0 < N" using block_bits_total [OF bits] by blast
  define blk where "blk = N div 8"
  have blk: "blk * 8 = N" "0 < blk" using N(3,4) by (auto simp: blk_def dest: dvd_imp_le)
  define p where "p = \<lparr>m_lookup = lookup, d_bitsPerChar = bits, d_outputBlockSize = blk\<rparr>"
  define c where "c = \<lparr>m_outBuf = replicate blk 0, m_bytePos = 0, m_bitPos = 0\<rparr>"
  have init: "decoder_init lookup bits = Some (p, c)"
    using bits N(1) by (simp add: decoder_init_def p_def c_def blk_def Let_def)
  have "\<exists>t. for_in s (decode_char p) (c, []) = Some t \<and> dec_inv lookup bits blk s t"
  proof (induction s rule: rev_induct)
    case Nil
    have "dec_inv lookup bits blk [] (c, [])" using blk by (auto simp: dec_inv_def c_def lookup_values_def)
    then show ?case by simp
  next
    case (snoc ch s)
    then obtain c1 out1 where 1: "for_in s (decode_char p) (c, []) = Some (c1, out1)" "dec_inv lookup bits blk s (c1, out1)" by auto
    have "bits dvd blk * 8" using blk N by simp
    from decode_char_spec [OF bits ok this blk(2) p_def 1(2), of ch] 1(1) show ?case by (auto simp: for_in_append)
  qed
  then obtain c1 out bs where 1: "for_in s (decode_char p) (c, []) = Some (c1, out)"
    "cells bits (lookup_values lookup s) = cells 8 (concat (map fst out)) @ bs" "length bs < blk * 8"
    "length bs = m_bytePos c1 * 8 + m_bitPos c1" "m_bitPos c1 < 8" "bs = [] \<or> filled 8 bs (blk * 8 - length bs) c1"
    by (auto simp: dec_inv_def)
  define lp where "lp = take (m_bytePos c1) (m_outBuf c1)"
  have tail: "m_bytePos c1 \<le> length (m_outBuf c1) \<and> (\<exists>rest. bs = cells 8 lp @ rest \<and> length rest < 8)"
  proof (cases "bs = []")
    case True
    then show ?thesis using 1(4) by (simp add: lp_def)
  next
    case False
    then have f: "filled 8 bs (blk * 8 - length bs) c1" using 1(6) by blast
    have le: "m_bytePos c1 \<le> length (m_outBuf c1)" using filled_length [OF f] 1(3,4) by linarith
    have "cells 8 lp @ cells 8 (drop (m_bytePos c1) (m_outBuf c1)) = bs @ replicate (blk * 8 - length bs) False"
      using f unfolding lp_def cells_simps(3) [symmetric] by (simp add: filled_def)
    then have "take (m_bytePos c1 * 8) (cells 8 lp @ cells 8 (drop (m_bytePos c1) (m_outBuf c1))) = take (m_bytePos c1 * 8) (bs @ replicate (blk * 8 - length bs) False)"
      by (rule arg_cong)
    moreover have "length (cells 8 lp) = m_bytePos c1 * 8" using le by (simp add: lp_def)
    ultimately have "cells 8 lp = take (m_bytePos c1 * 8) bs" using 1(4) by simp
    then have "bs = cells 8 lp @ drop (m_bytePos c1 * 8) bs" by simp
    moreover have "length (drop (m_bytePos c1 * 8) bs) < 8" using 1(4,5) by simp
    ultimately show ?thesis using le by blast
  qed
  then obtain rest where rest: "bs = cells 8 lp @ rest" "length rest < 8" by blast
  have "decode_message lookup bits s = Some (concat (map fst out) @ lp)"
    using 1(1) init tail by (simp add: decode_message_def BaseN_Decoder_Put2_def lp_def)
  then show ?thesis using 1(2) rest by (intro exI [of _ "concat (map fst out) @ lp"] exI [of _ rest]) simp
qed

section \<open>Alphabets\<close>

text \<open>The contract between the alphabet of an encoder and the lookup array of a decoder.\<close>

locale base_n =
  fixes bits :: nat and alpha :: "byte list" and lookup :: "int list"
  assumes width: "0 < bits" "bits < 8"
    and alphabet: "length alpha = 2 ^ bits"
    and lookup: "lookup_ok lookup bits"
    and inverse: "\<And>v. v < 2 ^ bits \<Longrightarrow> lookup ! unat (alpha ! v) = int v"
begin

lemma values_back:
  assumes "values_of bits s vs" "filter (valid_char lookup) str = filter (valid_char lookup) (map (\<lambda>v. alpha ! unat v) vs)"
  shows "decode_message lookup bits str = Some s"
proof -
  have small: "\<forall>v \<in> set vs. unat v < 2 ^ bits" using assms(1) by (simp add: values_of_def)
  then have "filter (valid_char lookup) (map (\<lambda>v. alpha ! unat v) vs) = map (\<lambda>v. alpha ! unat v) vs"
    by (intro filter_True) (auto simp: valid_char_def inverse)
  then have "lookup_values lookup str = map (\<lambda>v. word_of_int (lookup ! unat (alpha ! unat v))) vs"
    using assms(2) by (simp add: lookup_values_def)
  also have "\<dots> = vs" using small by (intro map_idI) (simp add: inverse)
  finally have vals: "lookup_values lookup str = vs" .
  obtain k where k: "k < bits" "cells bits vs = cells 8 s @ replicate k False" using assms(1) by (auto simp: values_of_def)
  obtain d rest where d: "decode_message lookup bits str = Some d" "cells bits vs = cells 8 d @ rest" "length rest < 8"
    using decode_message_spec [OF width lookup, of str] vals by auto
  have "cells 8 d @ rest = cells 8 s @ replicate k False" using d(2) k(2) by simp
  then have "d = s" using cells_tail_unique(1) [of 8 d rest s "replicate k False"] d(3) k(1) width(2) byte_below_8 by simp
  then show ?thesis using d(1) by simp
qed

text \<open>Grouped and padded text is decoded when separators, terminator and padding are not in the alphabet.\<close>

lemma coded_back:
  assumes "m_counter g \<le> m_groupSize g" and "pad = None \<or> (\<exists>ch. pad = Some ch \<and> \<not> valid_char lookup ch)"
    and "\<forall>ch \<in> set (m_separator g). \<not> valid_char lookup ch" "\<forall>ch \<in> set (m_terminator g). \<not> valid_char lookup ch"
  shows "\<exists>str. encode_message alpha bits pad g s = Some str \<and> decode_message lookup bits str = Some s"
proof -
  obtain N where N: "block_bits 8 bits 8 = Some N" using block_bits_total [OF width] by blast
  obtain str vs where 1: "encode_message alpha bits pad g s = Some str" "values_of bits s vs"
    "filter (valid_char lookup) str = filter (valid_char lookup) (map (\<lambda>v. alpha ! unat v) vs @ pads (N div bits) pad (length vs))"
    using encode_message_spec [OF width _ N assms(1), of alpha pad s] alphabet assms(3,4) by auto
  have "filter (valid_char lookup) (pads (N div bits) pad (length vs)) = []" using assms(2) by (auto simp: pads_def filter_empty_conv)
  then show ?thesis using 1 values_back [of s vs str] by simp
qed

end

text \<open>The values of the characters, and the arrays of them.\<close>

definition upper :: "int \<Rightarrow> int" where
  "upper c = (if 97 \<le> c \<and> c \<le> 122 then c - 32 else c)"

definition hex_value :: "int \<Rightarrow> int" where
  "hex_value c = (if 48 \<le> c \<and> c \<le> 57 then c - 48 else if 65 \<le> upper c \<and> upper c \<le> 70 then upper c - 55 else - 1)"

definition b32_value :: "int \<Rightarrow> int" where
  "b32_value c = (if 50 \<le> c \<and> c \<le> 57 then c - 26 else if 65 \<le> upper c \<and> upper c \<le> 75 then upper c - 65
     else if 77 \<le> upper c \<and> upper c \<le> 78 then upper c - 66 else if 80 \<le> upper c \<and> upper c \<le> 90 then upper c - 67 else - 1)"

definition b64_value :: "int \<Rightarrow> int" where
  "b64_value c = (if 65 \<le> c \<and> c \<le> 90 then c - 65 else if 97 \<le> c \<and> c \<le> 122 then c - 71
     else if 48 \<le> c \<and> c \<le> 57 then c + 4 else if c = 43 then 62 else if c = 47 then 63 else - 1)"

definition value_table :: "(int \<Rightarrow> int) \<Rightarrow> int list" where
  "value_table f = map f [0..255]"

lemma value_table_nth: "value_table f ! unat (ch :: byte) = f (uint ch)"
proof -
  have u: "unat ch < 256" using byte_lt by simp
  then have "[0..255] ! unat ch = 0 + int (unat ch)" by (intro nth_upto) linarith
  then show ?thesis using u unfolding value_table_def by (subst nth_map) simp_all
qed

lemma value_table_ok: "(\<And>c. f c = - 1 \<or> 0 \<le> f c \<and> f c < 2 ^ bits) \<Longrightarrow> lookup_ok (value_table f) bits"
  by (auto simp: lookup_ok_def value_table_def)

lemma hex_array: "InitializeDecodingLookupArray hex_vecUpper 16 True = Some (value_table hex_value)" by code_simp
lemma b32_array: "InitializeDecodingLookupArray b32_vecUpper 32 True = Some (value_table b32_value)" by code_simp
lemma b64_array: "InitializeDecodingLookupArray b64_vec 64 False = Some (value_table b64_value)" by code_simp

lemma values_inverse:
  "list_all (\<lambda>v. hex_value (uint (hex_vecLower ! v)) = int v \<and> hex_value (uint (hex_vecUpper ! v)) = int v) [0..<16]"
  "list_all (\<lambda>v. b32_value (uint (b32_vecLower ! v)) = int v \<and> b32_value (uint (b32_vecUpper ! v)) = int v) [0..<32]"
  "list_all (\<lambda>v. b64_value (uint (b64_vec ! v)) = int v) [0..<64]"
  "length hex_vecLower = 16 \<and> length hex_vecUpper = 16 \<and> length b32_vecLower = 32 \<and> length b32_vecUpper = 32 \<and> length b64_vec = 64"
  "b64_vec = alphabet"
  by code_simp+

lemma value_range:
  "hex_value c = - 1 \<or> 0 \<le> hex_value c \<and> hex_value c < 2 ^ 4"
  "b32_value c = - 1 \<or> 0 \<le> b32_value c \<and> b32_value c < 2 ^ 5"
  "b64_value c = - 1 \<or> 0 \<le> b64_value c \<and> b64_value c < 2 ^ 6"
  by (auto simp: hex_value_def b32_value_def b64_value_def upper_def)

interpretation hex_lower: base_n 4 hex_vecLower "value_table hex_value"
  using values_inverse(1,4) value_table_ok [OF value_range(1)] by unfold_locales (auto simp: value_table_nth list_all_iff)

interpretation hex_upper: base_n 4 hex_vecUpper "value_table hex_value"
  using values_inverse(1,4) value_table_ok [OF value_range(1)] by unfold_locales (auto simp: value_table_nth list_all_iff)

interpretation b32_lower: base_n 5 b32_vecLower "value_table b32_value"
  using values_inverse(2,4) value_table_ok [OF value_range(2)] by unfold_locales (auto simp: value_table_nth list_all_iff)

interpretation b32_upper: base_n 5 b32_vecUpper "value_table b32_value"
  using values_inverse(2,4) value_table_ok [OF value_range(2)] by unfold_locales (auto simp: value_table_nth list_all_iff)

interpretation b64_coder: base_n 6 b64_vec "value_table b64_value"
  using values_inverse(3,4) value_table_ok [OF value_range(3)] by unfold_locales (auto simp: value_table_nth list_all_iff)

section \<open>Properties\<close>

definition no_digit :: "(int \<Rightarrow> int) \<Rightarrow> byte \<Rightarrow> bool" where
  "no_digit f ch \<longleftrightarrow> f (uint ch) = - 1"

lemma no_digit_invalid: "no_digit f ch \<Longrightarrow> \<not> valid_char (value_table f) ch"
  by (simp add: no_digit_def valid_char_def value_table_nth)

text \<open>C39. Every byte string survives its coders: hexadecimal text in either case and with any groups,
  base 32 in either case, and base 64 with or without line breaks and padding are decoded to the bytes
  that were encoded, as long as separator and terminator contain no character of the alphabet. The
  functions of \<open>utils.cc\<close> are the cases without groups. No coder leaves its buffer or its tables.\<close>

theorem BaseN_roundtrip:
  assumes "\<forall>ch \<in> set sep \<union> set term. no_digit hex_value ch" and "\<forall>ch \<in> set sep32. no_digit b32_value ch"
  shows "(\<exists>str. HexEncoder uppercase group_size sep term s = Some str \<and> DecodeFromHex str = Some s) \<and>
    (\<exists>str. Base32Encoder uppercase group_size sep32 s = Some str \<and> DecodeFromBase32 str = Some s) \<and>
    (\<exists>str. Base64Encoder breaks line_length s = Some str \<and> DecodeFromBase64 str = Some s) \<and>
    (\<exists>str. EncodeToHex s = Some str \<and> DecodeFromHex str = Some s) \<and>
    (\<exists>str. EncodeToBase32 s = Some str \<and> DecodeFromBase32 str = Some s) \<and>
    (\<exists>str. EncodeToBase64 s = Some str \<and> DecodeFromBase64 str = Some s)"
proof -
  have hex: "\<exists>str. HexEncoder u n a b s = Some str \<and> DecodeFromHex str = Some s" if "\<forall>ch \<in> set a \<union> set b. no_digit hex_value ch" for u n a b
    using hex_upper.coded_back [of "\<lparr>m_groupSize = n, m_separator = a, m_terminator = b, m_counter = 0\<rparr>" None s]
      hex_lower.coded_back [of "\<lparr>m_groupSize = n, m_separator = a, m_terminator = b, m_counter = 0\<rparr>" None s] that no_digit_invalid
    by (cases u) (simp_all add: HexEncoder_def DecodeFromHex_def HexDecoder_def hex_array)
  have b32: "\<exists>str. Base32Encoder u n a s = Some str \<and> DecodeFromBase32 str = Some s" if "\<forall>ch \<in> set a. no_digit b32_value ch" for u n a
    using b32_upper.coded_back [of "\<lparr>m_groupSize = n, m_separator = a, m_terminator = [], m_counter = 0\<rparr>" None s]
      b32_lower.coded_back [of "\<lparr>m_groupSize = n, m_separator = a, m_terminator = [], m_counter = 0\<rparr>" None s] that no_digit_invalid
    by (cases u) (simp_all add: Base32Encoder_def DecodeFromBase32_def Base32Decoder_def b32_array)
  have "no_digit b64_value 61" "no_digit b64_value 10" "no_digit hex_value 58" "no_digit b32_value 58"
    by (simp_all add: no_digit_def b64_value_def hex_value_def b32_value_def upper_def)
  note d = this no_digit_invalid [OF this(1)] no_digit_invalid [OF this(2)]
  have b64: "\<exists>str. Base64Encoder u n s = Some str \<and> DecodeFromBase64 str = Some s" for u n
    using b64_coder.coded_back [of "\<lparr>m_groupSize = (if u then n else 0), m_separator = (if u then [10] else []), m_terminator = (if u then [10] else []), m_counter = 0\<rparr>" "Some 61" s] d
    by (simp add: Base64Encoder_def DecodeFromBase64_def Base64Decoder_def b64_array Let_def)
  show ?thesis
    using hex [OF assms(1)] b32 [OF assms(2)] b64 hex [of "[58]" "[]" False 0] b32 [of "[58]" False 0] d
    by (simp add: EncodeToHex_def EncodeToBase32_def EncodeToBase64_def)
qed

theorem BaseN_roundtrip_witness:
  "\<exists>str. HexEncoder True 1 [58] [10] [0xCA, 0xFE] = Some str \<and> DecodeFromHex str = Some [0xCA, 0xFE]"
proof -
  have "\<forall>ch \<in> set [58 :: byte] \<union> set [10]. no_digit hex_value ch" "\<forall>ch \<in> set ([] :: byte list). no_digit b32_value ch"
    by (simp_all add: no_digit_def hex_value_def upper_def)
  from BaseN_roundtrip [OF this, of True 1 "[0xCA, 0xFE]" True 72] show ?thesis by blast
qed

text \<open>The values of RFC 4648 are the values of the six-bit encoder.\<close>

definition of_bits :: "bool list \<Rightarrow> nat" where
  "of_bits bs = foldl (\<lambda>n b. 2 * n + of_bool b) 0 bs"

lemma of_bits_shift: "foldl (\<lambda>n b. 2 * n + of_bool b) m bs = m * 2 ^ length bs + of_bits bs" for m :: nat
  unfolding of_bits_def
proof (induction bs rule: rev_induct)
  case (snoc b bs)
  then show ?case by (simp add: algebra_simps)
qed simp

lemma of_bits_append: "of_bits (xs @ ys) = of_bits xs * 2 ^ length ys + of_bits ys"
  using of_bits_shift [of "of_bits xs" ys] by (simp add: of_bits_def)

lemma of_bits_less: "of_bits bs < 2 ^ length bs"
  by (induction bs rule: rev_induct) (simp_all add: of_bits_def)

lemma of_bits_inject: "length xs = length ys \<Longrightarrow> of_bits xs = of_bits ys \<Longrightarrow> xs = ys"
proof (induction xs arbitrary: ys rule: rev_induct)
  case (snoc x xs)
  then obtain y zs where ys: "ys = zs @ [y]" by (cases ys rule: rev_cases) auto
  have "2 * of_bits xs + of_bool x = 2 * of_bits zs + of_bool y" using snoc.prems(2) by (simp add: ys of_bits_def)
  then have "of_bits xs = of_bits zs" "x = y" by (cases x; cases y; simp; presburger)+
  then show ?case using snoc.IH [of zs] snoc.prems(1) ys by simp
qed simp

lemma of_bits_to_bits: "unat (w :: byte) < 2 ^ n \<Longrightarrow> of_bits (to_bits n w) = unat w"
proof -
  have "of_bits (to_bits n w) = take_bit n (unat w)"
  proof (induction n)
    case (Suc n)
    have "to_bits (Suc n) w = bit w n # to_bits n w" by (simp add: to_bits_def)
    then have "of_bits (to_bits (Suc n) w) = of_bool (bit w n) * 2 ^ n + of_bits (to_bits n w)"
      using of_bits_append [of "[bit w n]" "to_bits n w"] by (simp add: of_bits_def)
    then show ?case using Suc by (simp add: take_bit_Suc_from_most bit_unat)
  qed (simp add: to_bits_def of_bits_def)
  then show "unat w < 2 ^ n \<Longrightarrow> of_bits (to_bits n w) = unat w" by (simp add: take_bit_nat_eq_self)
qed

definition sextet_bytes :: "byte list \<Rightarrow> byte list" where
  "sextet_bytes x = map word_of_nat (sextets_of x)"

lemma bits_of_num: "n < 2 ^ k \<Longrightarrow> k \<le> 8 \<Longrightarrow> of_bits (to_bits k (word_of_nat n :: byte)) = n"
proof -
  assume n: "n < 2 ^ k" "k \<le> 8"
  then have "(2 :: nat) ^ k \<le> 2 ^ 8" by (intro power_increasing) simp_all
  then have "unat (word_of_nat n :: byte) = n" using n by (simp add: unat_of_nat)
  then show ?thesis using of_bits_to_bits [of "word_of_nat n" k] n by simp
qed

lemma bits_of_byte: "of_bits (to_bits 8 (b :: byte)) = unat b"
  using of_bits_to_bits [of b 8] byte_lt [of b] by simp

lemma regroup:
  "((qa * 64 + (ra * 16 + qb)) * 64 + (rb * 4 + qc)) * 64 + rc = ((qa * 4 + ra) * 256 + (qb * 16 + rb)) * 256 + (qc * 64 + rc)" for qa :: nat
  by (simp add: algebra_simps)

lemma three_bytes:
  fixes a b c :: byte
  shows "to_bits 6 (word_of_nat (unat a div 4) :: byte) @ to_bits 6 (word_of_nat (unat a mod 4 * 16 + unat b div 16) :: byte) @
     to_bits 6 (word_of_nat (unat b mod 16 * 4 + unat c div 64) :: byte) @ to_bits 6 (word_of_nat (unat c mod 64) :: byte) =
   to_bits 8 a @ to_bits 8 b @ to_bits 8 c"
proof (rule of_bits_inject)
  have n: "unat a div 4 < 2 ^ 6" "unat a mod 4 * 16 + unat b div 16 < 2 ^ 6" "unat b mod 16 * 4 + unat c div 64 < 2 ^ 6" "unat c mod 64 < 2 ^ 6"
    by ((use byte_lt [of a] byte_lt [of b] byte_lt [of c] in simp; fail), (use byte_lt [of a] byte_lt [of b] in simp; linarith),
      (use byte_lt [of b] byte_lt [of c] in simp; linarith), simp)
  have six: "(6 :: nat) \<le> 8" by simp
  have eq: "((unat a div 4 * 64 + (unat a mod 4 * 16 + unat b div 16)) * 64 + (unat b mod 16 * 4 + unat c div 64)) * 64 + unat c mod 64 =
      (unat a * 256 + unat b) * 256 + unat c"
    using regroup [of "unat a div 4" "unat a mod 4" "unat b div 16" "unat b mod 16" "unat c div 64" "unat c mod 64"]
    unfolding div_mult_mod_eq .
  have pw: "u * 2 ^ (6 + (6 + 6)) + (v * 2 ^ (6 + 6) + (w * 2 ^ 6 + t)) = ((u * 64 + v) * 64 + w) * 64 + t"
    "u * 2 ^ (8 + 8) + (v * 2 ^ 8 + w) = (u * 256 + v) * 256 + w" for u v w t :: nat by simp_all
  show "of_bits (to_bits 6 (word_of_nat (unat a div 4) :: byte) @ to_bits 6 (word_of_nat (unat a mod 4 * 16 + unat b div 16) :: byte) @
      to_bits 6 (word_of_nat (unat b mod 16 * 4 + unat c div 64) :: byte) @ to_bits 6 (word_of_nat (unat c mod 64) :: byte)) =
    of_bits (to_bits 8 a @ to_bits 8 b @ to_bits 8 c)"
    unfolding of_bits_append length_append length_to_bits bits_of_byte bits_of_num [OF n(1) six] bits_of_num [OF n(2) six]
      bits_of_num [OF n(3) six] bits_of_num [OF n(4) six] pw by (rule eq)
qed simp

lemma zero_bits: "to_bits k (0 :: byte) = replicate k False"
  by (rule to_bits_eqI) simp_all

lemma sextet_byte: "v \<in> set (sextets_of x) \<Longrightarrow> unat (word_of_nat v :: byte) = v"
  using sextets_less [of v x] by (simp add: unat_of_nat)

lemma sextets_values: "values_of 6 x (sextet_bytes x)"
proof -
  have "unat v < 2 ^ 6" if "v \<in> set (sextet_bytes x)" for v
    using that sextets_less by (auto simp: sextet_bytes_def sextet_byte)
  moreover have "\<exists>k < 6. cells 6 (sextet_bytes x) = cells 8 x @ replicate k False"
  proof (induction x rule: sextets_of.induct)
    case (1 a b c r)
    then obtain k where "k < 6" "cells 6 (sextet_bytes r) = cells 8 r @ replicate k False" by blast
    then show ?case using three_bytes [of a b c] by (intro exI [of _ k]) (simp add: sextet_bytes_def append_assoc [symmetric] del: append_assoc)
  next
    case (2 a b)
    have "to_bits 6 (word_of_nat (unat a div 4) :: byte) @ to_bits 6 (word_of_nat (unat a mod 4 * 16 + unat b div 16) :: byte) @
        to_bits 6 (word_of_nat (unat b mod 16 * 4) :: byte) = to_bits 8 a @ to_bits 8 b @ replicate 2 False"
    proof -
      have "replicate 8 False = replicate 2 False @ replicate 6 False" by (simp add: replicate_add [symmetric])
      then show ?thesis using three_bytes [of a b 0] by (simp add: zero_bits append_assoc [symmetric] del: append_assoc)
    qed
    then show ?case by (intro exI [of _ 2]) (simp add: sextet_bytes_def)
  next
    case (3 a)
    have "to_bits 6 (word_of_nat (unat a div 4) :: byte) @ to_bits 6 (word_of_nat (unat a mod 4 * 16) :: byte) = to_bits 8 a @ replicate 4 False"
    proof -
      have "replicate 8 False @ replicate 8 False = replicate 4 False @ replicate 6 False @ replicate 6 False"
        by (simp add: replicate_add [symmetric])
      then have "to_bits 8 a @ replicate 8 False @ replicate 8 False = (to_bits 8 a @ replicate 4 False) @ replicate 6 False @ replicate 6 False"
        by simp
      then show ?thesis using three_bytes [of a 0 0] by (simp add: zero_bits append_assoc [symmetric] del: append_assoc)
    qed
    then show ?case by (intro exI [of _ 4]) (simp add: sextet_bytes_def)
  next
    case 4
    then show ?case by (intro exI [of _ 0]) (simp add: sextet_bytes_def)
  qed
  ultimately show ?thesis by (simp add: values_of_def)
qed

lemma values_unique:
  assumes "values_of bits s vs" "values_of bits s ws" "0 < bits"
  shows "vs = ws"
proof -
  obtain k l where 1: "k < bits" "cells bits vs = cells 8 s @ replicate k False" "l < bits" "cells bits ws = cells 8 s @ replicate l False"
    using assms(1,2) by (auto simp: values_of_def)
  have "length vs * bits = length s * 8 + k" "length ws * bits = length s * 8 + l"
    using arg_cong [OF 1(2), of length] arg_cong [OF 1(4), of length] by simp_all
  then have "length vs = length ws \<and> k = l"
  proof -
    assume a: "length vs * bits = length s * 8 + k" "length ws * bits = length s * 8 + l"
    show ?thesis
    proof (cases "k \<le> l")
      case True
      then have "length vs * bits + (l - k) = length ws * bits" using a by simp
      moreover have "l - k < bits" using 1(3) by simp
      ultimately show ?thesis using div_place [of "length vs" bits "l - k" "length ws"] a True by simp
    next
      case False
      then have "length ws * bits + (k - l) = length vs * bits" using a by simp
      moreover have "k - l < bits" using 1(1) by simp
      ultimately show ?thesis using div_place [of "length ws" bits "k - l" "length vs"] a by simp
    qed
  qed
  then show ?thesis using 1 cells_inject [of bits vs ws] assms(1,2) by (auto simp: values_of_def)
qed

text \<open>C40. The program has two base 64 encoders. The one of Crypto++ that \<open>EncodeToBase64\<close> uses writes RFC 4648
  for every byte string. \<open>Base64Encode\<close> of \<open>base64.cc\<close> gives the same text as long as the text has fewer
  than 2^31 characters; for longer ones (and fewer than 2^31 bytes) it returns false.\<close>

theorem EncodeToBase64_is_Base64Encode:
  "EncodeToBase64 s = Some (b64 s) \<and> (length s < 2 ^ 31 \<longrightarrow>
    Base64Encode s = Some (if (length s + 2) div 3 * 4 < 2 ^ 31 then EncodeToBase64 s else None))"
proof -
  have N: "block_bits 8 6 8 = Some 24" by (simp add: block_bits_run)
  obtain str vs where 1: "encode_message b64_vec 6 (Some 61) \<lparr>m_groupSize = 0, m_separator = [], m_terminator = [], m_counter = 0\<rparr> s = Some str"
    "values_of 6 s vs" "str = map (\<lambda>v. b64_vec ! unat v) vs @ pads 4 (Some 61) (length vs)"
    using encode_message_spec [OF _ _ _ N, of b64_vec "\<lparr>m_groupSize = 0, m_separator = [], m_terminator = [], m_counter = 0\<rparr>" "Some 61" s]
      values_inverse(4) by auto
  have vs: "vs = sextet_bytes s" using values_unique [OF 1(2) sextets_values] by simp
  have "map (\<lambda>v. b64_vec ! unat v) vs = map ((!) alphabet) (sextets_of s)"
    unfolding vs sextet_bytes_def values_inverse(5) map_map by (intro map_cong) (simp_all add: sextet_byte)
  then have "str = b64 s" using 1(3) vs by (simp add: b64_def pads_def sextet_bytes_def CHARPAD_def)
  then have "EncodeToBase64 s = Some (b64 s)" using 1(1) by (simp add: EncodeToBase64_def Base64Encoder_def)
  then show ?thesis using Base64Encode_cases [of s] by (simp add: length_b64)
qed

theorem EncodeToBase64_is_Base64Encode_witness:
  "EncodeToBase64 [77, 97] = Some [84, 87, 69, 61] \<and> Base64Encode [77, 97] = Some (Some [84, 87, 69, 61])"
  using EncodeToBase64_is_Base64Encode [of "[77, 97]"] by (simp add: b64_def alphabet_nth CHARPAD_def)

end
