(* ===== verification/Crypto.thy ===== *)
theory Crypto imports Cfb_Mode Base_Correct Utils begin

text \<open>
  \<open>crypto.h\<close> and \<open>crypto.cc\<close>: hashing, encryption, signatures and compression of strings and files, each a
  chain of Crypto++ filters between a source and a sink. The feedback mode and the hexadecimal coder are
  those of \<open>Cfb_Mode\<close> and \<open>Base_Code\<close>; the primitives themselves (the block cipher, the digests, RSA, gzip)
  are parameters. Files are a map from names to contents.
\<close>

section \<open>Strings and files\<close>

datatype operation = STRING_STRING | FILE_STRING | STRING_FILE | FILE_FILE
datatype hash_type = SHA_512 | SHA_1 | SHA_256 | SHA_384
datatype symmetric_type = AES_256
datatype obfuscation_type = XOR_TYPE

text \<open>\<open>writable\<close> says which names can be opened for writing; that truncates an existing file.\<close>

record world =
  files :: "byte list \<Rightarrow> byte list option"
  writable :: "byte list \<Rightarrow> bool"

text \<open>A file name is the string up to its first null.\<close>

definition c_str :: "byte list \<Rightarrow> byte list" where
  "c_str s = takeWhile (\<lambda>c. c \<noteq> 0) s"

text \<open>
  What a filter makes of its whole input: the bytes that reach the sink, and whether it ended without an
  exception of Crypto++; \<open>None\<close> would be an access outside a buffer.
\<close>

type_synonym transformation = "byte list \<Rightarrow> (byte list \<times> bool) option"

text \<open>
  The switch that the functions share. \<open>FileSink\<close> is an argument of the constructor of the source, so it
  opens its file first; the constructor of \<open>FileSource\<close> opens the input. The result is the returned
  string, \<open>None\<close> for an exception, and the files.
\<close>

definition create :: "byte list \<Rightarrow> world \<Rightarrow> world option" where
  "create name w = (if writable w name then Some (w\<lparr>files := (files w)(name \<mapsto> [])\<rparr>) else None)"

definition pipe :: "transformation \<Rightarrow> operation \<Rightarrow> byte list \<Rightarrow> byte list \<Rightarrow> world \<Rightarrow> (byte list option \<times> world) option" where
  "pipe F op input output w =
     (case op of
       STRING_STRING \<Rightarrow> do { (out, good) \<leftarrow> F input; Some (if good then Some out else None, w) }
     | FILE_STRING \<Rightarrow>
         (case files w (c_str input) of None \<Rightarrow> Some (None, w)
          | Some data \<Rightarrow> do { (out, good) \<leftarrow> F data; Some (if good then Some out else None, w) })
     | STRING_FILE \<Rightarrow>
         (case create (c_str output) w of None \<Rightarrow> Some (None, w)
          | Some w \<Rightarrow> do {
              (out, good) \<leftarrow> F input;
              Some (if good then Some output else None, w\<lparr>files := (files w)(c_str output \<mapsto> out)\<rparr>) })
     | FILE_FILE \<Rightarrow>
         (case create (c_str output) w of None \<Rightarrow> Some (None, w)
          | Some w \<Rightarrow>
              (case files w (c_str input) of None \<Rightarrow> Some (None, w)
               | Some data \<Rightarrow> do {
                   (out, good) \<leftarrow> F data;
                   Some (if good then Some output else None, w\<lparr>files := (files w)(c_str output \<mapsto> out)\<rparr>) })))"

text \<open>The handler of the exceptions: the empty string.\<close>

definition caught :: "byte list option \<times> world \<Rightarrow> byte list \<times> world" where
  "caught = (\<lambda>(r, w). (case r of None \<Rightarrow> [] | Some s \<Rightarrow> s, w))"

section \<open>The class \<open>Crypto\<close>\<close>

record crypto =
  hash_algorithm :: hash_type
  symm_algorithm :: symmetric_type

definition Crypto_new :: crypto where
  "Crypto_new = \<lparr>hash_algorithm = SHA_512, symm_algorithm = AES_256\<rparr>"

definition set_hash_algorithm :: "hash_type \<Rightarrow> crypto \<Rightarrow> crypto" where
  "set_hash_algorithm t c = c\<lparr>hash_algorithm := t\<rparr>"

definition AES256_KeySize :: nat where "AES256_KeySize = 32"
definition AES256_IVSize :: nat where "AES256_IVSize = 16"
definition kMaxCompressionLevel :: u16 where "kMaxCompressionLevel = 9"

definition XOROperation :: "byte list \<Rightarrow> byte list \<Rightarrow> byte list option" where
  "XOROperation first second =
     for_in [0..<length first] (\<lambda>i result. do { a \<leftarrow> rd first i; b \<leftarrow> rd second i; wr result i (a XOR b) }) first"

definition Obfuscate :: "byte list \<Rightarrow> byte list \<Rightarrow> obfuscation_type \<Rightarrow> byte list option" where
  "Obfuscate first second type =
     (if length first \<noteq> length second \<or> first = [] then Some []
      else case type of XOR_TYPE \<Rightarrow> XOROperation first second)"

text \<open>\<open>derive len purpose password salt iter\<close> is the key derivation of Crypto++ with SHA-256.\<close>

definition SecurePassword ::
  "(nat \<Rightarrow> byte \<Rightarrow> byte list \<Rightarrow> byte list \<Rightarrow> u16 \<Rightarrow> byte list) \<Rightarrow> byte list \<Rightarrow> byte list \<Rightarrow> u32 \<Rightarrow> byte list" where
  "SecurePassword derive password salt pin =
     (if password = [] \<or> salt = [] \<or> pin = 0 then []
      else let purpose = 0; iter = ucast (pin mod 1000 + 1000)
           in derive (AES256_KeySize + AES256_IVSize) purpose password salt iter)"

text \<open>\<open>HashFunc\<close> with the digest of its template parameter; the hexadecimal coder is \<open>HexEncoder(sink, false)\<close>.\<close>

definition HashFunc :: "(byte list \<Rightarrow> byte list) \<Rightarrow> byte list \<Rightarrow> operation \<Rightarrow> bool \<Rightarrow> world \<Rightarrow> byte list option" where
  "HashFunc digest input op hex w =
     (let out = (\<lambda>data. if hex then HexEncoder False 0 [58] [] (digest data) else Some (digest data))
      in case op of
           STRING_STRING \<Rightarrow> out input
         | FILE_STRING \<Rightarrow> (case files w (c_str input) of None \<Rightarrow> Some [] | Some data \<Rightarrow> out data)
         | _ \<Rightarrow> Some [])"

definition Hash :: "(hash_type \<Rightarrow> byte list \<Rightarrow> byte list) \<Rightarrow> crypto \<Rightarrow> byte list \<Rightarrow> operation \<Rightarrow> bool \<Rightarrow> world \<Rightarrow> byte list option" where
  "Hash digest c input op hex w =
     (case hash_algorithm c of
       SHA_512 \<Rightarrow> HashFunc (digest SHA_512) input op hex w
     | SHA_1 \<Rightarrow> HashFunc (digest SHA_1) input op hex w
     | SHA_256 \<Rightarrow> HashFunc (digest SHA_256) input op hex w
     | SHA_384 \<Rightarrow> HashFunc (digest SHA_384) input op hex w)"

text \<open>
  \<open>aes key\<close> is the block cipher under a key, \<open>pieces\<close> how source and filter divide the data. Encryption
  and decryption differ in the direction of the mode.
\<close>

definition cfb_filter :: "(byte list \<Rightarrow> byte list \<Rightarrow> byte list) \<Rightarrow> (byte list \<Rightarrow> (byte list \<times> bool) list) \<Rightarrow> cipher_dir \<Rightarrow> byte list \<Rightarrow> transformation" where
  "cfb_filter aes pieces dir key_and_iv data =
     (let byte_key = take AES256_KeySize key_and_iv;
          byte_iv = take AES256_IVSize (drop AES256_KeySize key_and_iv)
      in map_option (\<lambda>out. (out, True)) (cfb_message (aes byte_key) dir byte_iv (pieces data)))"

definition SymmEncrypt :: "(byte list \<Rightarrow> byte list \<Rightarrow> byte list) \<Rightarrow> (byte list \<Rightarrow> (byte list \<times> bool) list) \<Rightarrow> crypto \<Rightarrow>
  byte list \<Rightarrow> byte list \<Rightarrow> operation \<Rightarrow> byte list \<Rightarrow> world \<Rightarrow> (byte list \<times> world) option" where
  "SymmEncrypt aes pieces c input output op key_and_iv w =
     (if symm_algorithm c \<noteq> AES_256 \<or> length key_and_iv < AES256_KeySize + AES256_IVSize then Some ([], w)
      else map_option caught (pipe (cfb_filter aes pieces ENCRYPTION key_and_iv) op input output w))"

definition SymmDecrypt :: "(byte list \<Rightarrow> byte list \<Rightarrow> byte list) \<Rightarrow> (byte list \<Rightarrow> (byte list \<times> bool) list) \<Rightarrow> crypto \<Rightarrow>
  byte list \<Rightarrow> byte list \<Rightarrow> operation \<Rightarrow> byte list \<Rightarrow> world \<Rightarrow> (byte list \<times> world) option" where
  "SymmDecrypt aes pieces c input output op key_and_iv w =
     (if symm_algorithm c \<noteq> AES_256 \<or> length key_and_iv < AES256_KeySize + AES256_IVSize then Some ([], w)
      else map_option caught (pipe (cfb_filter aes pieces DECRYPTION key_and_iv) op input output w))"

text \<open>
  RSA: \<open>load\<close> reads a key from its DER text, \<open>None\<close> when it throws; the filters of Crypto++ work on the
  whole message at its end and may throw then.
\<close>

definition AsymEncrypt :: "(byte list \<Rightarrow> 'pub option) \<Rightarrow> ('pub \<Rightarrow> byte list \<Rightarrow> byte list option) \<Rightarrow>
  byte list \<Rightarrow> byte list \<Rightarrow> byte list \<Rightarrow> operation \<Rightarrow> world \<Rightarrow> (byte list \<times> world) option" where
  "AsymEncrypt load_public rsa_encrypt input output key op w =
     (case load_public key of None \<Rightarrow> Some ([], w)
      | Some pub \<Rightarrow> map_option caught (pipe (\<lambda>m. Some (case rsa_encrypt pub m of None \<Rightarrow> ([], False) | Some s \<Rightarrow> (s, True))) op input output w))"

definition AsymDecrypt :: "(byte list \<Rightarrow> 'priv option) \<Rightarrow> ('priv \<Rightarrow> byte list \<Rightarrow> byte list option) \<Rightarrow>
  byte list \<Rightarrow> byte list \<Rightarrow> byte list \<Rightarrow> operation \<Rightarrow> world \<Rightarrow> (byte list \<times> world) option" where
  "AsymDecrypt load_private rsa_decrypt input output key op w =
     (if input = [] then Some ([], w)
      else case load_private key of None \<Rightarrow> Some ([], w)
      | Some priv \<Rightarrow> map_option caught (pipe (\<lambda>m. Some (case rsa_decrypt priv m of None \<Rightarrow> ([], False) | Some s \<Rightarrow> (s, True))) op input output w))"

definition AsymSign :: "(byte list \<Rightarrow> 'priv option) \<Rightarrow> ('priv \<Rightarrow> byte list \<Rightarrow> byte list option) \<Rightarrow>
  byte list \<Rightarrow> byte list \<Rightarrow> operation \<Rightarrow> world \<Rightarrow> byte list" where
  "AsymSign load_private rsa_sign input key op w =
     (case load_private key of None \<Rightarrow> []
      | Some priv \<Rightarrow>
          (let sign = (\<lambda>m. case rsa_sign priv m of None \<Rightarrow> [] | Some s \<Rightarrow> s)
           in case op of
                STRING_STRING \<Rightarrow> sign input
              | FILE_STRING \<Rightarrow> (case files w (c_str input) of None \<Rightarrow> [] | Some m \<Rightarrow> sign m)
              | _ \<Rightarrow> []))"

definition AsymCheckSig :: "(byte list \<Rightarrow> 'pub option) \<Rightarrow> ('pub \<Rightarrow> nat) \<Rightarrow> ('pub \<Rightarrow> byte list \<Rightarrow> byte list \<Rightarrow> bool) \<Rightarrow>
  byte list \<Rightarrow> byte list \<Rightarrow> byte list \<Rightarrow> operation \<Rightarrow> world \<Rightarrow> bool" where
  "AsymCheckSig load_public signature_length rsa_verify input_data input_signature key op w =
     (if op = STRING_FILE \<or> op = FILE_FILE then False
      else case load_public key of None \<Rightarrow> False
      | Some pub \<Rightarrow>
          if length input_signature \<noteq> signature_length pub then False
          else if op = STRING_STRING then rsa_verify pub input_signature input_data
          else if op = FILE_STRING then
            (case files w (c_str input_data) of None \<Rightarrow> False | Some m \<Rightarrow> rsa_verify pub input_signature m)
          else False)"

definition Compress :: "(u16 \<Rightarrow> byte list \<Rightarrow> byte list) \<Rightarrow> byte list \<Rightarrow> byte list \<Rightarrow> u16 \<Rightarrow> operation \<Rightarrow> world \<Rightarrow> (byte list \<times> world) option" where
  "Compress gzip input output level op w =
     (if level > kMaxCompressionLevel then Some ([], w)
      else map_option caught (pipe (\<lambda>data. Some (gzip level data, True)) op input output w))"

definition Uncompress :: "(byte list \<Rightarrow> byte list \<times> bool) \<Rightarrow> byte list \<Rightarrow> byte list \<Rightarrow> operation \<Rightarrow> world \<Rightarrow> (byte list \<times> world) option" where
  "Uncompress gunzip input output op w = map_option caught (pipe (\<lambda>data. Some (gunzip data)) op input output w)"

text \<open>\<open>RsaKeyPair\<close>. \<open>make_keys seed bits\<close> are the DER texts of the keys that Crypto++ makes from the seed.\<close>

record rsa_key_pair =
  public_key :: "byte list"
  private_key :: "byte list"

definition RsaKeyPair_new :: rsa_key_pair where
  "RsaKeyPair_new = \<lparr>public_key = [], private_key = []\<rparr>"

definition ClearKeys :: "rsa_key_pair \<Rightarrow> rsa_key_pair" where
  "ClearKeys k = k\<lparr>public_key := [], private_key := []\<rparr>"

definition GenerateKeys :: "(nat \<Rightarrow> nat \<Rightarrow> byte list) \<Rightarrow> (byte list \<Rightarrow> nat \<Rightarrow> byte list \<times> byte list) \<Rightarrow> u16 \<Rightarrow> rsa_key_pair \<Rightarrow> rsa_key_pair option" where
  "GenerateKeys block make_keys keySize k = do {
     let k = k\<lparr>private_key := [], public_key := []\<rparr>;
     seed \<leftarrow> RandomString block (unat keySize);
     let (priv, pub) = make_keys seed (unat keySize);
     let k = k\<lparr>private_key := private_key k @ priv\<rparr>;
     Some (k\<lparr>public_key := public_key k @ pub\<rparr>) }"

section \<open>Sources and sinks\<close>

definition from_file :: "operation \<Rightarrow> bool" where
  "from_file op \<longleftrightarrow> op = FILE_STRING \<or> op = FILE_FILE"

definition to_file :: "operation \<Rightarrow> bool" where
  "to_file op \<longleftrightarrow> op = STRING_FILE \<or> op = FILE_FILE"

text \<open>The data of a source; a sink that can be opened and is not the source; what a call delivers.\<close>

definition source :: "operation \<Rightarrow> byte list \<Rightarrow> world \<Rightarrow> byte list option" where
  "source op input w = (if from_file op then files w (c_str input) else Some input)"

definition sink_ok :: "operation \<Rightarrow> byte list \<Rightarrow> byte list \<Rightarrow> world \<Rightarrow> bool" where
  "sink_ok op input output w \<longleftrightarrow> (to_file op \<longrightarrow> writable w (c_str output)) \<and> (op = FILE_FILE \<longrightarrow> c_str input \<noteq> c_str output)"

definition delivered :: "operation \<Rightarrow> byte list \<Rightarrow> byte list \<times> world \<Rightarrow> byte list option" where
  "delivered op output = (\<lambda>(r, w). if to_file op then if r = output then files w (c_str output) else None else Some r)"

lemma pipe_delivers:
  assumes "source op input w = Some data" "sink_ok op input output w" "F data = Some (out, True)"
  shows "\<exists>rw. map_option caught (pipe F op input output w) = Some rw \<and> delivered op output rw = Some out"
  using assms
  by (cases op) (auto simp: pipe_def source_def sink_ok_def delivered_def from_file_def to_file_def create_def caught_def)

lemma pipe_empties:
  assumes "writable w (c_str output)" "c_str input = c_str output \<or> files w (c_str input) = None" "F [] = Some ([], True)"
  shows "map_option caught (pipe F FILE_FILE input output w) =
    Some (if c_str input = c_str output then output else [], w\<lparr>files := (files w)(c_str output \<mapsto> [])\<rparr>)"
  using assms by (auto simp: pipe_def create_def caught_def)

text \<open>The parameters: a block cipher keeps the size of a block, and a division into pieces keeps the data.\<close>

definition block_cipher :: "(byte list \<Rightarrow> byte list \<Rightarrow> byte list) \<Rightarrow> bool" where
  "block_cipher aes \<longleftrightarrow> (\<forall>key. keeps_size (aes key))"

definition division :: "(byte list \<Rightarrow> (byte list \<times> bool) list) \<Rightarrow> bool" where
  "division pieces \<longleftrightarrow> (\<forall>x. concat (map fst (pieces x)) = x)"

lemma cfb_filter_runs:
  assumes "block_cipher aes" "division pieces" "AES256_KeySize + AES256_IVSize \<le> length key"
  shows "\<exists>cipher. cfb_filter aes pieces ENCRYPTION key data = Some (cipher, True) \<and> length cipher = length data \<and>
    (\<forall>pieces' key'. division pieces' \<and> take (AES256_KeySize + AES256_IVSize) key' = take (AES256_KeySize + AES256_IVSize) key \<longrightarrow>
      cfb_filter aes pieces' DECRYPTION key' cipher = Some (data, True))"
proof -
  define k where "k = take AES256_KeySize key"
  define iv where "iv = take AES256_IVSize (drop AES256_KeySize key)"
  have iv: "length iv = BlockSize" using assms(3) by (simp add: iv_def AES256_KeySize_def AES256_IVSize_def BlockSize_def)
  have E: "keeps_size (aes k)" using assms(1) by (simp add: block_cipher_def)
  have cat: "concat (map fst (pieces data)) = data" using assms(2) by (simp add: division_def)
  define cipher where "cipher = snd (byte_wise (aes k) ENCRYPTION data (cfb_start (aes k) iv))"
  have enc: "cfb_message (aes k) ENCRYPTION iv (pieces data) = Some cipher"
    using cfb_message_bytes [OF E iv, of ENCRYPTION "pieces data"] cat by (simp add: cipher_def)
  have "cfb_ok (cfb_start (aes k) iv)" using E by (simp add: cfb_start_def cfb_ok_def keeps_size_def)
  then have len: "length cipher = length data" using byte_wise_ok [OF E] by (simp add: cipher_def)
  have "cfb_filter aes pieces' DECRYPTION key' cipher = Some (data, True)"
    if "division pieces'" and key: "take (AES256_KeySize + AES256_IVSize) key' = take (AES256_KeySize + AES256_IVSize) key" for pieces' key'
  proof -
    have "take AES256_KeySize key' = k" using arg_cong [OF key, of "take AES256_KeySize"] by (simp add: k_def min_def)
    moreover have "take AES256_IVSize (drop AES256_KeySize key') = iv"
      using arg_cong [OF key, of "drop AES256_KeySize"] by (simp add: iv_def drop_take)
    ultimately show ?thesis
      using cfb_decrypts [OF E iv cat _ enc, of "pieces' cipher"] that(1) by (simp add: cfb_filter_def division_def Let_def)
  qed
  then show ?thesis using enc len by (intro exI [of _ cipher]) (simp add: cfb_filter_def k_def [symmetric] iv_def [symmetric] Let_def)
qed

section \<open>Properties\<close>

text \<open>C36. \<open>SymmDecrypt\<close> gives back what \<open>SymmEncrypt\<close> was given, for each of the four kinds of source and
  sink on either side: whenever the data can be read, and the output can be opened and is not the input,
  the call succeeds and delivers a ciphertext of the same length; and any later call of \<open>SymmDecrypt\<close>,
  in whatever state of the files, that reads this ciphertext with a key of the same first 48 bytes
  delivers the data, whatever block cipher is used and however the data is divided.\<close>

theorem SymmDecrypt_inverts:
  assumes "block_cipher aes" "division pieces" "division pieces'"
    and "48 \<le> length key" "48 \<le> length key'" "take 48 key' = take 48 key"
    and "source op input w = Some data" "sink_ok op input output w"
  shows "\<exists>rw cipher. SymmEncrypt aes pieces c input output op key w = Some rw \<and> delivered op output rw = Some cipher \<and>
    length cipher = length data \<and>
    (\<forall>op' input' output' w'. source op' input' w' = Some cipher \<and> sink_ok op' input' output' w' \<longrightarrow>
      (\<exists>rw'. SymmDecrypt aes pieces' c input' output' op' key' w' = Some rw' \<and> delivered op' output' rw' = Some data))"
proof -
  have sz: "AES256_KeySize + AES256_IVSize = 48" by (simp add: AES256_KeySize_def AES256_IVSize_def)
  have alg: "symm_algorithm c = AES_256" by (cases "symm_algorithm c") simp
  obtain cipher where f: "cfb_filter aes pieces ENCRYPTION key data = Some (cipher, True)" "length cipher = length data"
    "cfb_filter aes pieces' DECRYPTION key' cipher = Some (data, True)"
    using cfb_filter_runs [OF assms(1,2), of key data] assms(3,4,6) unfolding sz by blast
  obtain rw where e: "SymmEncrypt aes pieces c input output op key w = Some rw" "delivered op output rw = Some cipher"
    using pipe_delivers [where F = "cfb_filter aes pieces ENCRYPTION key", OF assms(7,8) f(1)] assms(4) alg by (auto simp: SymmEncrypt_def sz)
  have "\<exists>rw'. SymmDecrypt aes pieces' c input' output' op' key' w' = Some rw' \<and> delivered op' output' rw' = Some data"
    if "source op' input' w' = Some cipher" "sink_ok op' input' output' w'" for op' input' output' w'
    using pipe_delivers [where F = "cfb_filter aes pieces' DECRYPTION key'", OF that f(3)] assms(5) alg by (auto simp: SymmDecrypt_def sz)
  then show ?thesis using e f(2) by blast
qed

text \<open>A cipher for the witnesses: it adds the first byte of the key to each byte of the block.\<close>

definition sample_cipher :: "byte list \<Rightarrow> byte list \<Rightarrow> byte list" where
  "sample_cipher key b = map (\<lambda>x. x + key ! 0) (take 16 b @ replicate (16 - length b) 0)"

lemma sample_cipher: "block_cipher sample_cipher"
  by (simp add: block_cipher_def keeps_size_def sample_cipher_def BlockSize_def min_def)

theorem SymmDecrypt_inverts_witness:
  "\<exists>w1 rw. SymmEncrypt sample_cipher (\<lambda>x. [(x, True)]) Crypto_new [97] [98] FILE_FILE (replicate 50 3)
      \<lparr>files = (\<lambda>_. None)([97] \<mapsto> [1, 2, 3]), writable = \<lambda>_. True\<rparr> = Some ([98], w1) \<and>
    SymmDecrypt sample_cipher (\<lambda>x. [(take 1 x, False), (drop 1 x, True)]) Crypto_new [98] [] FILE_STRING (replicate 48 3) w1 = Some rw \<and>
    fst rw = [1, 2, 3]"
proof -
  let ?w = "\<lparr>files = (\<lambda>_. None)([97] \<mapsto> [1, 2, 3]), writable = \<lambda>_. True\<rparr>"
  have d: "division (\<lambda>x. [(x, True)])" "division (\<lambda>x. [(take 1 x, False), (drop 1 x, True)])" by (simp_all add: division_def)
  have k: "48 \<le> length (replicate 50 (3 :: byte))" "48 \<le> length (replicate 48 (3 :: byte))"
    "take 48 (replicate 48 (3 :: byte)) = take 48 (replicate 50 3)" by simp_all
  have s: "source FILE_FILE [97] ?w = Some [1, 2, 3]" "sink_ok FILE_FILE [97] [98] ?w"
    by (simp_all add: source_def from_file_def sink_ok_def c_str_def)
  note inverts = SymmDecrypt_inverts [OF sample_cipher d k s, of Crypto_new]
  obtain rw cipher where 0: "SymmEncrypt sample_cipher (\<lambda>x. [(x, True)]) Crypto_new [97] [98] FILE_FILE (replicate 50 3) ?w = Some rw"
    "delivered FILE_FILE [98] rw = Some cipher"
    "\<forall>op' input' output' w'. source op' input' w' = Some cipher \<and> sink_ok op' input' output' w' \<longrightarrow>
      (\<exists>rw'. SymmDecrypt sample_cipher (\<lambda>x. [(take 1 x, False), (drop 1 x, True)]) Crypto_new input' output' op' (replicate 48 3) w' = Some rw' \<and>
        delivered op' output' rw' = Some [1, 2, 3])"
    using inverts by (elim exE conjE)
  obtain r w1 where rw: "rw = (r, w1)" by (cases rw)
  note 1 = 0 [unfolded rw]
  have r: "r = [98]" "files w1 (c_str [98]) = Some cipher" using 1(2) by (auto simp: delivered_def to_file_def split: if_splits)
  have "source FILE_STRING [98] w1 = Some cipher" "sink_ok FILE_STRING [98] [] w1"
    using r(2) by (simp_all add: source_def from_file_def sink_ok_def to_file_def)
  with 1(3) obtain rw' where "SymmDecrypt sample_cipher (\<lambda>x. [(take 1 x, False), (drop 1 x, True)]) Crypto_new [98] [] FILE_STRING (replicate 48 3) w1 = Some rw'"
    "delivered FILE_STRING [] rw' = Some [1, 2, 3]" by blast
  moreover from this(2) have "fst rw' = [1, 2, 3]" by (cases rw') (simp add: delivered_def to_file_def)
  ultimately show ?thesis using 1(1) r(1) by blast
qed

text \<open>C37. The output file is opened before the input file. Encrypting or decrypting a file into itself
  therefore empties it, and the call still returns the name of the file, which means success; and when
  the input cannot be read, the call fails with the empty string, but an existing output file has been
  emptied all the same.\<close>

theorem symm_empties_output:
  assumes "block_cipher aes" "division pieces" "48 \<le> length key"
    and "writable w (c_str output)" "c_str input = c_str output \<or> files w (c_str input) = None"
  shows "SymmEncrypt aes pieces c input output FILE_FILE key w =
      Some (if c_str input = c_str output then output else [], w\<lparr>files := (files w)(c_str output \<mapsto> [])\<rparr>) \<and>
    SymmDecrypt aes pieces c input output FILE_FILE key w =
      Some (if c_str input = c_str output then output else [], w\<lparr>files := (files w)(c_str output \<mapsto> [])\<rparr>)"
proof -
  have sz: "AES256_KeySize + AES256_IVSize = 48" by (simp add: AES256_KeySize_def AES256_IVSize_def)
  have alg: "symm_algorithm c = AES_256" by (cases "symm_algorithm c") simp
  obtain cipher where f: "cfb_filter aes pieces ENCRYPTION key [] = Some (cipher, True)" "length cipher = length ([] :: byte list)"
    "cfb_filter aes pieces DECRYPTION key cipher = Some ([], True)"
    using cfb_filter_runs [OF assms(1,2), of key "[]"] assms(2,3) unfolding sz by blast
  have "cfb_filter aes pieces dir key [] = Some ([], True)" for dir using f by (cases dir) simp_all
  then have "map_option caught (pipe (cfb_filter aes pieces dir key) FILE_FILE input output w) =
      Some (if c_str input = c_str output then output else [], w\<lparr>files := (files w)(c_str output \<mapsto> [])\<rparr>)" for dir
    using pipe_empties [where F = "cfb_filter aes pieces dir key", OF assms(4,5)] by blast
  then show ?thesis using assms(3) alg by (simp add: SymmEncrypt_def SymmDecrypt_def sz)
qed

theorem symm_empties_output_witness:
  "SymmEncrypt sample_cipher (\<lambda>x. [(x, True)]) Crypto_new [97] [97] FILE_FILE (replicate 48 3) \<lparr>files = [[97] \<mapsto> [1, 2, 3]], writable = \<lambda>_. True\<rparr> =
    Some ([97], \<lparr>files = [[97] \<mapsto> []], writable = \<lambda>_. True\<rparr>)"
proof -
  have d: "division (\<lambda>x. [(x, True)])" by (simp add: division_def)
  have k: "48 \<le> length (replicate 48 (3 :: byte))" by simp
  show ?thesis
    using symm_empties_output [OF sample_cipher d k, of "\<lparr>files = [[97] \<mapsto> [1, 2, 3]], writable = \<lambda>_. True\<rparr>" "[97]" "[97]" Crypto_new]
    by (simp add: c_str_def)
qed

text \<open>Compression and RSA, with what the documentation of Crypto++ promises of the primitives.\<close>

lemma Uncompress_inverts:
  assumes "\<And>level data. gunzip (gzip level data) = (data, True)" "level \<le> 9"
    and "source op input w = Some data" "sink_ok op input output w"
  shows "\<exists>rw. Compress gzip input output level op w = Some rw \<and> delivered op output rw = Some (gzip level data) \<and>
    (\<forall>op' input' output' w'. source op' input' w' = Some (gzip level data) \<and> sink_ok op' input' output' w' \<longrightarrow>
      (\<exists>rw'. Uncompress gunzip input' output' op' w' = Some rw' \<and> delivered op' output' rw' = Some data))"
proof -
  have level: "\<not> level > kMaxCompressionLevel" using assms(2) by (simp add: kMaxCompressionLevel_def)
  obtain rw where "Compress gzip input output level op w = Some rw" "delivered op output rw = Some (gzip level data)"
    using pipe_delivers [OF assms(3,4), of "\<lambda>data. Some (gzip level data, True)" "gzip level data"] level by (auto simp: Compress_def)
  moreover have "\<exists>rw'. Uncompress gunzip input' output' op' w' = Some rw' \<and> delivered op' output' rw' = Some data"
    if "source op' input' w' = Some (gzip level data)" "sink_ok op' input' output' w'" for op' input' output' w'
    using pipe_delivers [OF that, of "\<lambda>data. Some (gunzip data)" data] assms(1) by (auto simp: Uncompress_def)
  ultimately show ?thesis by blast
qed

lemma AsymDecrypt_inverts:
  assumes "load_public pub_text = Some pub" "load_private priv_text = Some priv"
    and "rsa_encrypt pub data = Some cipher" "rsa_decrypt priv cipher = Some data" "cipher \<noteq> []"
    and "source op input w = Some data" "sink_ok op input output w"
  shows "\<exists>rw. AsymEncrypt load_public rsa_encrypt input output pub_text op w = Some rw \<and> delivered op output rw = Some cipher \<and>
    (\<forall>op' input' output' w'. source op' input' w' = Some cipher \<and> input' \<noteq> [] \<and> sink_ok op' input' output' w' \<longrightarrow>
      (\<exists>rw'. AsymDecrypt load_private rsa_decrypt input' output' priv_text op' w' = Some rw' \<and> delivered op' output' rw' = Some data))"
proof -
  let ?F = "\<lambda>m. Some (case rsa_encrypt pub m of None \<Rightarrow> ([], False) | Some s \<Rightarrow> (s, True))"
  let ?G = "\<lambda>m. Some (case rsa_decrypt priv m of None \<Rightarrow> ([], False) | Some s \<Rightarrow> (s, True))"
  obtain rw where "AsymEncrypt load_public rsa_encrypt input output pub_text op w = Some rw" "delivered op output rw = Some cipher"
    using pipe_delivers [OF assms(6,7), of ?F cipher] assms(1,3) by (auto simp: AsymEncrypt_def)
  moreover have "\<exists>rw'. AsymDecrypt load_private rsa_decrypt input' output' priv_text op' w' = Some rw' \<and> delivered op' output' rw' = Some data"
    if "source op' input' w' = Some cipher" "sink_ok op' input' output' w'" "input' \<noteq> []" for op' input' output' w'
    using pipe_delivers [OF that(1,2), of ?G data] that(3) assms(2,4) by (auto simp: AsymDecrypt_def)
  ultimately show ?thesis by blast
qed

lemma AsymCheckSig_accepts:
  assumes "load_private priv_text = Some priv" "rsa_sign priv m = Some s" "load_public pub_text = Some pub"
    and "length s = signature_length pub" "rsa_verify pub s m" "\<not> to_file op" "source op input w = Some m"
  shows "AsymSign load_private rsa_sign input priv_text op w = s \<and>
    AsymCheckSig load_public signature_length rsa_verify input s pub_text op w"
  using assms by (cases op) (auto simp: AsymSign_def AsymCheckSig_def source_def from_file_def to_file_def Let_def)

text \<open>The key derived from a password fits \<open>SymmEncrypt\<close>, and the number of iterations is between 1000 and 1999.\<close>

lemma SecurePassword_iterations:
  "uint (ucast (pin mod 1000 + 1000 :: u32) :: u16) = uint pin mod 1000 + 1000"
proof -
  have "uint (pin mod 1000) = uint pin mod 1000" by (simp add: uint_mod)
  moreover have "0 \<le> uint pin mod 1000" "uint pin mod 1000 < 1000" by simp_all
  ultimately have "uint (pin mod 1000 + 1000) = uint pin mod 1000 + 1000" by (simp add: uint_word_ariths)
  then show ?thesis using \<open>uint pin mod 1000 < 1000\<close> \<open>0 \<le> uint pin mod 1000\<close> by (simp add: unsigned_ucast_eq take_bit_int_eq_self)
qed

text \<open>The hexadecimal form of a hash is decoded to its bytes.\<close>

lemma HexDecoder_Nil: "HexDecoder [] = Some []"
proof -
  obtain d rest where d: "decode_message (value_table hex_value) 4 [] = Some d" "cells 4 (lookup_values (value_table hex_value) []) = cells 8 d @ rest"
    using decode_message_spec [OF hex_lower.width hex_lower.lookup, of "[]"] by blast
  have "length d = 0" using arg_cong [OF d(2), of length] by (simp add: lookup_values_def)
  then show ?thesis using d(1) by (simp add: HexDecoder_def hex_array)
qed

lemma Hash_hex:
  "\<exists>str raw. Hash digest c input op True w = Some str \<and> Hash digest c input op False w = Some raw \<and> HexDecoder str = Some raw"
proof -
  have hex: "\<exists>str. HexEncoder False 0 [58] [] d = Some str \<and> HexDecoder str = Some d" for d
  proof -
    have "\<not> valid_char (value_table hex_value) 58" by (rule no_digit_invalid) (simp add: no_digit_def hex_value_def upper_def)
    then show ?thesis
      using hex_lower.coded_back [of "\<lparr>m_groupSize = 0, m_separator = [58], m_terminator = [], m_counter = 0\<rparr>" None d]
      by (simp add: HexEncoder_def HexDecoder_def hex_array)
  qed
  have "\<exists>str raw. HashFunc f input op True w = Some str \<and> HashFunc f input op False w = Some raw \<and> HexDecoder str = Some raw" for f
  proof (cases "case op of STRING_STRING \<Rightarrow> Some input | FILE_STRING \<Rightarrow> files w (c_str input) | _ \<Rightarrow> None")
    case None
    then have "HashFunc f input op b w = Some []" for b by (cases op) (simp_all add: HashFunc_def Let_def)
    note empty = this
    have "HashFunc f input op True w = Some [] \<and> HashFunc f input op False w = Some [] \<and> HexDecoder [] = Some []"
      by (simp add: empty HexDecoder_Nil)
    then show ?thesis by (intro exI)
  next
    case (Some data)
    then have "HashFunc f input op True w = HexEncoder False 0 [58] [] (f data)" "HashFunc f input op False w = Some (f data)"
      by (cases op; simp add: HashFunc_def Let_def)+
    then show ?thesis using hex [of "f data"] by auto
  qed
  then show ?thesis by (cases "hash_algorithm c") (simp_all add: Hash_def)
qed

text \<open>Obfuscation with the same string twice gives the first string back.\<close>

lemma XOROperation_eq: "length a = length b \<Longrightarrow> XOROperation a b = Some (map2 (XOR) a b)"
proof -
  assume len: "length a = length b"
  have "\<exists>s. for_in [0..<length a] (\<lambda>i result. do { x \<leftarrow> rd a i; y \<leftarrow> rd b i; wr result i (x XOR y) }) a = Some s \<and>
      (length s = length a \<and> (\<forall>i < length a. s ! i = (if i < length a then a ! i XOR b ! i else a ! i)))"
    by (rule for_in_upt [where P = "\<lambda>k s. length s = length a \<and> (\<forall>i < length a. s ! i = (if i < k then a ! i XOR b ! i else a ! i))"])
      (use len in \<open>auto simp: access_simps nth_list_update less_Suc_eq\<close>)
  then obtain s where "XOROperation a b = Some s" "length s = length a" "\<forall>i < length a. s ! i = a ! i XOR b ! i"
    by (auto simp: XOROperation_def)
  moreover from this have "s = map2 (XOR) a b" using len by (intro nth_equalityI) simp_all
  ultimately show ?thesis by simp
qed

lemma Obfuscate_twice:
  assumes "length a = length b" "a \<noteq> []"
  shows "\<exists>c. Obfuscate a b XOR_TYPE = Some c \<and> Obfuscate c b XOR_TYPE = Some a"
proof -
  let ?c = "map2 (XOR) a b"
  have c: "length ?c = length b" "?c \<noteq> []" using assms by (auto simp: zip_eq_Nil_iff)
  have "map2 (XOR) ?c b = a" using assms(1) by (intro nth_equalityI) (simp_all add: xor.assoc)
  then show ?thesis using assms c by (auto simp: Obfuscate_def XOROperation_eq)
qed

end
