(* ===== verification/Rs_Main.thy ===== *)
theory Rs_Main imports Rs_Corrects begin

text \<open>
  \<open>reed_solomon/rs_main.cc\<close>: the program that tries the library out. It encodes 223 bytes with 16 parity
  symbols, overwrites some bytes at random, decodes, and prints how many bytes differ. \<open>rand\<close> gives the
  result of each successive call of the standard library's generator, which is not negative; what the
  program prints is its result.
\<close>

definition kParityLen :: nat where "kParityLen = 16"

text \<open>The loop that counts the bytes in which the data differ from the copy.\<close>

definition differences :: "byte list \<Rightarrow> byte list \<Rightarrow> nat option" where
  "differences orig_copy data = for_in [0..<223] (\<lambda>i nerrors. do {
     a \<leftarrow> rd orig_copy i; b \<leftarrow> rd data i;
     Some (if a \<noteq> b then nerrors + 1 else nerrors) }) 0"

text \<open>The loop that overwrites bytes: the data, the number of changes, the number of calls of \<open>rand\<close>.\<close>

definition send :: "(nat \<Rightarrow> nat) \<Rightarrow> byte list \<Rightarrow> (byte list \<times> nat \<times> nat) option" where
  "send rand data = for_in [0..<223] (\<lambda>i (data, nchanges, k).
     if rand k mod 15 = 0 then do {
       data \<leftarrow> wr data i (word_of_nat (rand (k + 1) mod 255));
       Some (data, nchanges + 1, k + 2) }
     else Some (data, nchanges, k + 1)) (data, 0, 0)"

record rs_report =
  differences_before :: nat
  printed_parity :: "u16 list"
  changes :: nat
  sent_data :: "byte list"
  num_errors :: int
  decoded_data :: "byte list"
  differences_after :: nat

text \<open>
  \<open>junk_data\<close> is what the array holds before it is set, \<open>junk'\<close> what the arrays of the decoder hold. A
  null pointer from \<open>init_rs\<close> would be dereferenced.
\<close>

definition rs_main_cc ::
  "(nat \<Rightarrow> bool) \<Rightarrow> (nat \<Rightarrow> nat \<Rightarrow> u16) \<Rightarrow> (nat \<Rightarrow> int \<Rightarrow> int) \<Rightarrow> nat \<Rightarrow> (nat \<Rightarrow> byte) \<Rightarrow> (nat \<Rightarrow> nat \<Rightarrow> u16) \<Rightarrow> (nat \<Rightarrow> nat) \<Rightarrow>
   rs_state \<Rightarrow> (rs_report \<times> rs_state) option" where
  "rs_main_cc malloc junk call fresh junk_data junk' rand st = do {
     (ptr, st) \<leftarrow> init_rs malloc junk call fresh 8 0x187 0 1 16 st;
     let par = replicate kParityLen 0;
     data \<leftarrow> for_in [0..<223] (\<lambda>i data. wr data i 1) (map junk_data [0..<223]);
     let orig_copy = data;
     before \<leftarrow> differences orig_copy data;
     q \<leftarrow> ptr;
     rs \<leftarrow> objs st q;
     (_, par) \<leftarrow> encode_rs8 rs data 223 par 0;
     let printed = take kParityLen par;
     (data, nchanges, _) \<leftarrow> send rand data;
     let sent = data;
     r \<leftarrow> decode_rs8 junk' rs (Some data) par 223 None 0 None 0 None;
     data \<leftarrow> d_data r;
     after \<leftarrow> differences orig_copy data;
     st \<leftarrow> free_rs q st;
     Some (\<lparr>differences_before = before, printed_parity = printed, changes = nchanges, sent_data = sent,
       num_errors = d_count r, decoded_data = data, differences_after = after\<rparr>, st) }"

section \<open>The loops\<close>

lemma differences_eq:
  assumes "length xs = 223" "length ys = 223"
  shows "differences xs ys = Some (changed xs ys)"
proof -
  have "\<exists>n. differences xs ys = Some n \<and> n = changed (take 223 xs) (take 223 ys)"
    unfolding differences_def
  proof (rule for_in_upt [where P = "\<lambda>k n. n = changed (take k xs) (take k ys)"])
    show "0 = changed (take 0 xs) (take 0 ys)" by (simp add: changed_def)
  next
    fix k n assume "k < 223" and n: "n = changed (take k xs) (take k ys)"
    then have k: "k < length xs" "k < length ys" using assms by simp_all
    have "changed (take (Suc k) xs) (take (Suc k) ys) = (if xs ! k \<noteq> ys ! k then n + 1 else n)"
      using k n by (simp add: take_Suc_conv_app_nth changed_append) (simp add: changed_def)
    then show "\<exists>n'. (do { a \<leftarrow> rd xs k; b \<leftarrow> rd ys k; Some (if a \<noteq> b then n + 1 else n) }) = Some n' \<and>
        n' = changed (take (Suc k) xs) (take (Suc k) ys)"
      using k by (simp add: access_simps)
  qed simp
  then show ?thesis using assms by simp
qed

lemma changed_same: "changed xs xs = 0"
  by (induction xs) (simp_all add: changed_def)

lemma changed_update: "changed (xs[i := v]) ys \<le> Suc (changed xs ys)"
proof (induction xs arbitrary: i ys)
  case (Cons x xs)
  show ?case
  proof (cases ys)
    case (Cons y ys')
    then show ?thesis using Cons.IH [of "i - 1" ys'] by (cases i) (auto simp: changed_def)
  qed (simp add: changed_def)
qed (simp add: changed_def)

text \<open>The bytes that differ after the loop are at most those that it overwrote.\<close>

lemma send_spec:
  assumes "length data = 223"
  shows "\<exists>sent n k. send rand data = Some (sent, n, k) \<and> length sent = 223 \<and> changed sent data \<le> n \<and> n \<le> 223"
proof -
  have "\<exists>s. send rand data = Some s \<and>
      (case s of (sent, n, k) \<Rightarrow> length sent = 223 \<and> changed sent data \<le> n \<and> n \<le> 223)"
    unfolding send_def
  proof (rule for_in_upt [where P = "\<lambda>i s. case s of (sent, n, k) \<Rightarrow> length sent = 223 \<and> changed sent data \<le> n \<and> n \<le> i"])
    fix i and s :: "byte list \<times> nat \<times> nat" assume i: "i < 223" and P: "case s of (sent, n, k) \<Rightarrow> length sent = 223 \<and> changed sent data \<le> n \<and> n \<le> i"
    obtain sent n k where s: "s = (sent, n, k)" by (cases s)
    have "changed (sent[i := v]) data \<le> Suc n" for v
      using changed_update [of sent i v data] P s by simp
    then show "\<exists>s'. (case s of (data, nchanges, k) \<Rightarrow>
        if rand k mod 15 = 0 then do { data \<leftarrow> wr data i (word_of_nat (rand (k + 1) mod 255)); Some (data, nchanges + 1, k + 2) }
        else Some (data, nchanges, k + 1)) = Some s' \<and>
        (case s' of (sent, n, k) \<Rightarrow> length sent = 223 \<and> changed sent data \<le> n \<and> n \<le> Suc i)"
      using i P by (simp add: s access_simps)
  qed (simp_all add: assms changed_same)
  then show ?thesis by (auto split: prod.splits)
qed

lemma fill_ones: "for_in [0..<223] (\<lambda>i data. wr data i 1) (map junk_data [0..<223]) = Some (replicate 223 (1 :: byte))"
proof -
  have "\<exists>s. for_in [0..<223] (\<lambda>i data. wr data i 1) (map junk_data [0..<223]) = Some s \<and>
      (length s = 223 \<and> (\<forall>j < 223. s ! j = (1 :: byte)))"
    by (rule for_in_upt [where P = "\<lambda>k s. length s = 223 \<and> (\<forall>j < k. s ! j = 1)"])
      (auto simp: access_simps nth_list_update less_Suc_eq)
  then obtain s where s: "for_in [0..<223] (\<lambda>i data. wr data i 1) (map junk_data [0..<223]) = Some s" "length s = 223" "\<forall>j < 223. s ! j = (1 :: byte)"
    by blast
  have "s = replicate 223 1" by (rule nth_equalityI) (use s(2,3) in simp_all)
  with s(1) show ?thesis by simp
qed

section \<open>The program\<close>

text \<open>The structure that the program gets, with its 16 roots.\<close>

lemma init_16:
  assumes inv: "rs_inv st" and fresh: "objs st fresh = None" and mem: "\<forall>k. malloc k"
  shows "\<exists>q st1 rs. init_rs malloc junk call fresh 8 0x187 0 1 16 st = Some (Some q, st1) \<and> rs_inv st1 \<and> objs st1 q = Some rs \<and>
    rs_ok rs 0x187 \<and> mm rs = 8 \<and> nn rs = 255 \<and> nroots rs = 16 \<and>
    (case objs st q of None \<Rightarrow> users rs = 1 | Some old \<Rightarrow> rs = old\<lparr>users := users old + 1\<rparr> \<and> 1 \<le> users old) \<and>
    (\<forall>q'. q' \<noteq> q \<longrightarrow> objs st1 q' = objs st q')"
proof -
  have args: "args_ok 8 0 1 16" by (simp add: args_ok_def)
  obtain found where found: "find_rs (rs_matches 8 0x187 None 0 1 16) (objs st) (rslist st) = Some found"
    using find_rs_inv [OF inv] by blast
  obtain rs where "rs_init malloc junk call 8 0x187 None 0 1 16 = Some (Some rs)"
    using rs_init_eq [of 8 "0x187" 16 0 1 1 malloc junk call None] primitive_0x187 mem
    by (auto simp: find_iprim_1)
  with found obtain q st1 where r: "init_rs_internal malloc junk call fresh 8 0x187 None 0 1 16 st = Some (Some q, st1)"
    using find_rs_Some [of "rs_matches 8 0x187 None 0 1 16" "objs st" "rslist st"]
    by (cases found) (auto simp: init_good_args [OF args])
  from init_inv [OF inv fresh r] obtain rs where rs: "rs_inv st1" "objs st1 q = Some rs" "rs_matches 8 0x187 None 0 1 16 rs"
    "case objs st q of None \<Rightarrow> users rs = 1 | Some old \<Rightarrow> rs = old\<lparr>users := users old + 1\<rparr>"
    "\<forall>q'. q' \<noteq> q \<longrightarrow> objs st1 q' = objs st q'" by auto
  have "rs_built rs" using rs(1,2) by (auto simp: rs_inv_def)
  then have ok: "rs_ok rs 0x187" "mm rs = 8" "nroots rs = 16"
    using rs(3) primitive_0x187 by (auto simp: rs_built_def rs_matches_def)
  then have "nn rs = 255" by (auto simp: rs_ok_def tables_ok_def sizes_ok_def)
  moreover have "case objs st q of None \<Rightarrow> users rs = 1 | Some old \<Rightarrow> rs = old\<lparr>users := users old + 1\<rparr> \<and> 1 \<le> users old"
    using rs(4) inv by (auto simp: rs_inv_def split: option.splits)
  ultimately show ?thesis using r rs(1,2,5) ok by (auto simp: init_rs_def)
qed

lemma rs_main_runs:
  assumes inv: "rs_inv st" and fresh: "objs st fresh = None" and mem: "\<forall>k. malloc k"
  shows "\<exists>rep st'. rs_main_cc malloc junk call fresh junk_data junk' rand st = Some (rep, st') \<and> rs_inv st' \<and> objs st' = objs st \<and>
    differences_before rep = 0 \<and> length (printed_parity rep) = 16 \<and> (\<exists>k. send rand (replicate 223 1) = Some (sent_data rep, changes rep, k)) \<and>
    changed (sent_data rep) (replicate 223 1) \<le> changes rep \<and>
    (num_errors rep = - 74 \<or> 0 \<le> num_errors rep \<and> num_errors rep \<le> 16) \<and>
    differences_after rep = changed (replicate 223 1) (decoded_data rep) \<and>
    (changed (sent_data rep) (replicate 223 1) \<le> 8 \<longrightarrow>
      num_errors rep = int (changed (sent_data rep) (replicate 223 1)) \<and> decoded_data rep = replicate 223 1)"
proof -
  let ?data = "replicate 223 (1 :: byte)"
  obtain q st1 rs where init: "init_rs malloc junk call fresh 8 0x187 0 1 16 st = Some (Some q, st1)"
    and st1: "rs_inv st1" "objs st1 q = Some rs" and ok: "rs_ok rs 0x187" and n: "mm rs = 8" "nn rs = 255" "nroots rs = 16"
    and kept: "case objs st q of None \<Rightarrow> users rs = 1 | Some old \<Rightarrow> rs = old\<lparr>users := users old + 1\<rparr> \<and> 1 \<le> users old"
      "\<forall>q'. q' \<noteq> q \<longrightarrow> objs st1 q' = objs st q'"
    using init_16 [OF assms] by blast
  obtain par where par: "encode_rs8 rs ?data 223 (replicate 16 0) 0 = Some (0, par)" "length par = 16" "list_all (fld_of rs) par"
    using encode_then_decode [OF ok, of 223 ?data 0 "\<lambda>_ _. 0" 0 None None] n by auto
  have small: "list_all (\<lambda>s. s \<le> 255) par" using par(3) by (simp add: list_all_iff fld_of_def n word_le_def)
  obtain sent m k where sent: "send rand ?data = Some (sent, m, k)" "length sent = 223" "changed sent ?data \<le> m"
    using send_spec [of ?data rand] by auto
  obtain r where r: "decode_rs8 junk' rs (Some sent) par 223 None 0 None 0 None = Some r"
    "d_count r = - 74 \<or> 0 \<le> d_count r \<and> d_count r \<le> 16" "map_option length (d_data r) = Some 223"
    using decode_rs8_returns [OF ok, of 223 sent par None None junk' 0] n sent(2) par(2) by (auto simp: returns_def)
  obtain out where out: "d_data r = Some out" "length out = 223" using r(3) by auto
  have near: "d_count r = int (changed sent ?data) \<and> out = ?data" if "changed sent ?data \<le> 8"
    using decode_near_8 [OF ok n(1,2), of 223 ?data par sent par junk'] par small n sent(2) that r(1) out changed_same [of par] by auto
  obtain st2 where st2: "free_rs q st1 = Some st2" "rs_inv st2" "objs st2 = objs st"
    using delete_undoes [OF st1 kept] by (auto simp: RsCodec_delete_def)
  have len: "length ?data = 223" by (rule length_replicate)
  have "rs_main_cc malloc junk call fresh junk_data junk' rand st =
      Some (\<lparr>differences_before = 0, printed_parity = par, changes = m, sent_data = sent, num_errors = d_count r,
        decoded_data = out, differences_after = changed ?data out\<rparr>, st2)"
    unfolding rs_main_cc_def
    by (simp only: init fill_ones differences_eq [OF len len] differences_eq [OF len out(2)] changed_same st1(2) par(1) sent(1) r(1) out(1) st2(1)
        kParityLen_def bind.simps prod.case Let_def) (simp add: par(2))
  with near sent par st2 r(2) show ?thesis by auto
qed

text \<open>C12. The program \<open>rs_main.cc\<close>: from every state of the list of codecs that the library leaves, with
  memory enough, it returns and leaves the list as it found it; the copy equals the data before they are
  sent; the decoder reports -EBADMSG or at most 16 errors. When the loop has changed at most 8 of the 223
  bytes (overwriting a byte by itself changes nothing), the reported number is the number of changed
  bytes, the decoded data are the original ones, and the last count of differences is 0.\<close>

theorem rs_main_corrects:
  assumes "rs_inv st" and "objs st fresh = None" and "\<forall>k. malloc k"
  shows "\<exists>rep st'. rs_main_cc malloc junk call fresh junk_data junk' rand st = Some (rep, st') \<and> rs_inv st' \<and> objs st' = objs st \<and>
    differences_before rep = 0 \<and> (\<exists>k. send rand (replicate 223 1) = Some (sent_data rep, changes rep, k)) \<and>
    changed (sent_data rep) (replicate 223 1) \<le> changes rep \<and>
    (num_errors rep = - 74 \<or> 0 \<le> num_errors rep \<and> num_errors rep \<le> 16) \<and>
    (changed (sent_data rep) (replicate 223 1) \<le> 8 \<longrightarrow>
      num_errors rep = int (changed (sent_data rep) (replicate 223 1)) \<and> decoded_data rep = replicate 223 1 \<and>
      differences_after rep = 0)"
proof -
  obtain rep st' where "rs_main_cc malloc junk call fresh junk_data junk' rand st = Some (rep, st')" "rs_inv st'" "objs st' = objs st"
    "differences_before rep = 0" "\<exists>k. send rand (replicate 223 1) = Some (sent_data rep, changes rep, k)"
    "changed (sent_data rep) (replicate 223 1) \<le> changes rep" "num_errors rep = - 74 \<or> 0 \<le> num_errors rep \<and> num_errors rep \<le> 16"
    "differences_after rep = changed (replicate 223 1) (decoded_data rep)"
    "changed (sent_data rep) (replicate 223 1) \<le> 8 \<longrightarrow>
      num_errors rep = int (changed (sent_data rep) (replicate 223 1)) \<and> decoded_data rep = replicate 223 1"
    using rs_main_runs [OF assms, of junk call junk_data junk' rand] by metis
  then show ?thesis by (intro exI [of _ rep] exI [of _ st']) (simp add: changed_same)
qed

text \<open>One byte is overwritten by 7.\<close>

lemma send_one:
  "send (\<lambda>k. if k = 0 then 0 else if k = 1 then 7 else 1) (replicate 223 1) = Some (7 # replicate 222 1, 1, 224)"
proof -
  let ?rand = "\<lambda>k :: nat. if k = 0 then 0 else if k = 1 then 7 else 1 :: nat"
  have rep: "replicate 223 (1 :: byte) = 1 # replicate 222 1" by (simp add: replicate_Suc [symmetric])
  have "\<exists>s. send ?rand (replicate 223 1) = Some s \<and> (if (223 :: nat) = 0 then s = (replicate 223 1, 0, 0) else s = (7 # replicate 222 1, 1, 223 + 1))"
    unfolding send_def
    by (rule for_in_upt [where P = "\<lambda>i s. if i = 0 then s = (replicate 223 1, 0, 0) else s = (7 # replicate 222 1, 1, i + 1)"])
      (use rep in \<open>auto simp: access_simps split: if_splits\<close>)
  then show ?thesis by simp
qed

theorem rs_main_corrects_witness:
  "\<exists>rep st. rs_main_cc (\<lambda>_. True) (\<lambda>_ _. 3) (\<lambda>_ x. x) 40 (\<lambda>_. 9) (\<lambda>_ _. 8) (\<lambda>k. if k = 0 then 0 else if k = 1 then 7 else 1) rs_empty = Some (rep, st) \<and>
    sent_data rep = 7 # replicate 222 1 \<and> num_errors rep = 1 \<and> decoded_data rep = replicate 223 1"
proof -
  have f: "objs rs_empty 40 = None" by (simp add: rs_empty_def)
  have "replicate 223 (1 :: byte) = 1 # replicate 222 1" by (simp add: replicate_Suc [symmetric])
  then have "changed (7 # replicate 222 1) (replicate 223 (1 :: byte)) = 1"
    using changed_same [of "replicate 222 (1 :: byte)"] by (simp add: changed_def)
  then show ?thesis
    using rs_main_corrects [OF rs_inv_empty f, of "\<lambda>_. True" "\<lambda>_ _. 3" "\<lambda>_ x. x" "\<lambda>_. 9" "\<lambda>_ _. 8" "\<lambda>k. if k = 0 then 0 else if k = 1 then 7 else 1"]
    unfolding send_one by auto
qed

end
