(* ===== verification/Coder.thy ===== *)
theory Coder imports Prelude begin

text \<open>
  \<open>Coder.cc\<close>, \<open>util.h\<close>: the coder between symbols and signal levels, and the copy of a vector into an
  array. \<open>std::map\<close>'s \<open>operator []\<close> inserts a zero for a key that is missing.
\<close>

record symbol_coder =
  symbol_to_signal :: "byte \<rightharpoonup> int"
  signal_to_symbol :: "int \<rightharpoonup> byte"

definition Base64SymbolSignalCoder :: symbol_coder where
  "Base64SymbolSignalCoder =
    \<lparr>symbol_to_signal = Map.empty (48 \<mapsto> 238, 49 \<mapsto> 210, 50 \<mapsto> 182, 51 \<mapsto> 154, 52 \<mapsto> 126, 53 \<mapsto> 98, 54 \<mapsto> 70, 55 \<mapsto> 42, 56 \<mapsto> 14),
     signal_to_symbol = Map.empty (238 \<mapsto> 48, 210 \<mapsto> 49, 182 \<mapsto> 50, 154 \<mapsto> 51, 126 \<mapsto> 52, 98 \<mapsto> 53, 70 \<mapsto> 54, 42 \<mapsto> 55, 14 \<mapsto> 56)\<rparr>"

definition SymbolToSignal :: "byte \<Rightarrow> symbol_coder \<Rightarrow> int \<times> symbol_coder" where
  "SymbolToSignal symbol c =
     (case symbol_to_signal c symbol of
        Some v \<Rightarrow> (v, c)
      | None \<Rightarrow> (0, c\<lparr>symbol_to_signal := (symbol_to_signal c)(symbol \<mapsto> 0)\<rparr>))"

definition SignalToSymbol :: "int \<Rightarrow> symbol_coder \<Rightarrow> byte" where
  "SignalToSymbol signal c = 0"

definition UcharVectorToArray :: "byte list \<Rightarrow> nat \<Rightarrow> byte list \<Rightarrow> (bool \<times> byte list) option" where
  "UcharVectorToArray input output_capacity out = do {
     check (output_capacity = length input);
     out \<leftarrow> for_in [0..<output_capacity] (\<lambda>i out. do { x \<leftarrow> rd input i; wr out i x }) out;
     Some (True, out) }"

text \<open>The two maps of the constructor are inverse to each other; the levels are 28 grey levels apart.\<close>

lemma coder_maps_inverse:
  "symbol_to_signal Base64SymbolSignalCoder s = Some v \<longleftrightarrow> signal_to_symbol Base64SymbolSignalCoder v = Some s"
  by (auto simp: Base64SymbolSignalCoder_def split: if_splits)

lemma SymbolToSignal_level:
  assumes "s < 9"
  shows "SymbolToSignal (48 + word_of_nat s) Base64SymbolSignalCoder = (238 - 28 * int s, Base64SymbolSignalCoder)"
proof -
  have "s \<in> {0, 1, 2, 3, 4, 5, 6, 7, 8}" using assms by auto
  then show ?thesis by (auto simp: SymbolToSignal_def Base64SymbolSignalCoder_def)
qed

text \<open>
  \<open>SignalToSymbol\<close> is a stub: it does not look the signal up, so no symbol comes back. A symbol that the
  coder does not know gets the level 0, which is not one of its levels.
\<close>

lemma SignalToSymbol_stub:
  assumes "symbol_to_signal Base64SymbolSignalCoder s = Some v"
  shows "SignalToSymbol v c \<noteq> s"
  using assms by (auto simp: SignalToSymbol_def Base64SymbolSignalCoder_def split: if_splits)

lemma SymbolToSignal_unknown:
  "fst (SymbolToSignal 57 Base64SymbolSignalCoder) = 0 \<and> signal_to_symbol Base64SymbolSignalCoder 0 = None"
  by (simp add: SymbolToSignal_def Base64SymbolSignalCoder_def)

text \<open>The copy fills the start of the array, which has to be long enough.\<close>

lemma UcharVectorToArray_copies:
  assumes "length input \<le> length out"
  shows "UcharVectorToArray input (length input) out = Some (True, input @ drop (length input) out)"
proof -
  have "\<exists>s. for_in [0..<length input] (\<lambda>i out. do { x \<leftarrow> rd input i; wr out i x }) out = Some s \<and>
      s = take (length input) input @ drop (length input) out"
    by (rule for_in_upt [where P = "\<lambda>k s. s = take k input @ drop k out"])
      (use assms in \<open>auto simp: access_simps take_Suc_conv_app_nth list_update_append Cons_nth_drop_Suc [symmetric]\<close>)
  then show ?thesis by (simp add: UcharVectorToArray_def)
qed

end
