(* ===== verification/Ecc_Main.thy ===== *)
theory Ecc_Main imports Ecc_Run begin

text \<open>
  \<open>ecc_experiment_main.cc\<close>, \<open>ecc_thread.cc\<close>: the program that divides the experiments among threads. A
  thread is started with its number and its share; its body is \<open>EccThread_Run\<close>.
\<close>

text \<open>\<open>PrintTwoByteInt\<close>: the bits that it prints, lowest first.\<close>

definition PrintTwoByteInt :: "u16 \<Rightarrow> u16 list" where
  "PrintTwoByteInt num = map (\<lambda>ii. drop_bit ii num AND 1) [0..<16]"

record ecc_thread =
  id_of :: int
  iterations_of :: int

definition EccThread_new :: "int \<Rightarrow> int \<Rightarrow> ecc_thread" where
  "EccThread_new i n = \<lparr>id_of = i, iterations_of = n\<rparr>"

text \<open>
  \<open>Foo\<close>, up to the start of the threads. The division is that of C, which rounds towards zero; it is
  undefined for zero threads.
\<close>

definition Foo :: "int \<Rightarrow> int \<Rightarrow> ecc_thread list option" where
  "Foo iterations num_threads = do {
     check (num_threads \<noteq> 0);
     let iterations_per_thread = sgn num_threads * sgn iterations * (\<bar>iterations\<bar> div \<bar>num_threads\<bar>);
     Some (map (\<lambda>i. EccThread_new (int i) iterations_per_thread) [0..<nat num_threads]) }"

text \<open>The experiments that the threads run, all together.\<close>

definition experiments_run :: "ecc_thread list \<Rightarrow> int" where
  "experiments_run ts = (\<Sum>t \<leftarrow> ts. max 0 (iterations_of t))"

lemma Foo_shares:
  assumes "0 < num_threads" and "0 \<le> iterations"
  shows "\<exists>ts. Foo iterations num_threads = Some ts \<and> distinct (map id_of ts) \<and>
    experiments_run ts = iterations - iterations mod num_threads"
proof -
  let ?q = "iterations div num_threads"
  have q: "0 \<le> ?q" using assms by (simp add: pos_imp_zdiv_nonneg_iff)
  have share: "sgn num_threads * sgn iterations * (\<bar>iterations\<bar> div \<bar>num_threads\<bar>) = ?q"
    using assms by (cases "iterations = 0") (simp_all add: sgn_if)
  have "experiments_run (map (\<lambda>i. EccThread_new (int i) ?q) [0..<n]) = int n * ?q" for n
    using q by (induction n) (simp_all add: experiments_run_def EccThread_new_def algebra_simps)
  from this [of "nat num_threads"] have "experiments_run (map (\<lambda>i. EccThread_new (int i) ?q) [0..<nat num_threads]) = num_threads * ?q"
    using assms(1) by simp
  also have "\<dots> = iterations - iterations mod num_threads" by (simp add: minus_mod_eq_mult_div)
  finally have run: "experiments_run (map (\<lambda>i. EccThread_new (int i) ?q) [0..<nat num_threads]) = iterations - iterations mod num_threads" .
  have "distinct (map id_of (map (\<lambda>i. EccThread_new (int i) ?q) [0..<nat num_threads]))"
    by (simp add: distinct_map EccThread_new_def o_def inj_on_def)
  then show ?thesis using assms(1) run unfolding Foo_def share by auto
qed

text \<open>With more threads than iterations nothing is run: two iterations over three threads.\<close>

lemma Foo_loses_remainder: "\<exists>ts. Foo 2 3 = Some ts \<and> experiments_run ts = 0"
  using Foo_shares [of 3 2] by auto

lemma PrintTwoByteInt_bits:
  "length (PrintTwoByteInt num) = 16 \<and> (\<forall>ii < 16. PrintTwoByteInt num ! ii = of_bool (bit num ii))"
  by (simp add: PrintTwoByteInt_def and_one_eq bit_iff_odd_drop_bit odd_iff_mod_2_eq_one)

end
