(* ===== verification/Spec2Isabelle.thy ===== *)
theory Spec2Isabelle imports Rs_Corrects Ecc_Run Threadsafe_Queue In_Memory Base64_Decode Rs_Program_Correct Rs_List Utils String16 Crypto Rs_Main Coder Ecc_Main begin

text \<open>
  Cryptogram: the C++ library of the repository (\<open>experimental/lib/src\<close>).

  \<^bold>\<open>The program.\<close> Cryptogram hides encrypted messages in photographs that a web site will compress with
  JPEG. The library measures how well that can work. A message is a row of bytes; two Reed-Solomon code
  words of it (\<open>RsCodec\<close>) are cut into three-bit indices (\<open>MatrixRepresentation\<close>); each index selects a grey
  level (\<open>Discretizations\<close>), which fills a 2 x 2 cell of an 8 x 8 block of pixels (\<open>EccImage\<close>, \<open>array.cc\<close>).
  The image goes through libjpeg (\<open>JPEGCodec\<close>) and back, the mean of every cell is mapped to the closest
  level, and the indices, bytes and code words are recovered (\<open>EccExperiment::Run\<close>). The older experiments
  send single blocks through the trip and count the cells that move (\<open>Experiment::Run\<close>); their blocks come
  from generator threads over a queue (\<open>aesthete_thread.cc\<close>, \<open>queue.h\<close>, \<open>threadsafe_queue.h\<close>). Beside them
  the library has base64 (\<open>base64.cc\<close>, \<open>modp_b64.cc\<close>), string views and UTF-16 strings (\<open>string_piece.cc\<close>,
  \<open>string16.cc\<close>), functions for random strings and addresses (\<open>utils.cc\<close>), a wrapper of Crypto++ for strings
  and files (\<open>crypto.cc\<close>) and an older Reed-Solomon program (\<open>rs.c\<close>).

  \<^bold>\<open>Theories.\<close> Each theory names its source file in its first lines; the definitions keep the names of the
  functions and stand in the order of the code.
  \<^item> \<open>Prelude\<close>: machine types, checked access to arrays (\<open>rd\<close>, \<open>wr\<close>: an access outside gives \<open>None\<close>),
    loops over index lists (\<open>for_in\<close>), and lemmas on them.
  \<^item> \<open>Aesthete\<close> (\<open>aesthete.cc\<close>), \<open>Discretizations\<close> (\<open>discretizations.h\<close>), \<open>Image\<close> (\<open>array.cc\<close>, \<open>ecc_image.h\<close>),
    \<open>Ecc_Message\<close> (\<open>ecc_message.cc\<close>, \<open>reentrant_rand.cc\<close>): blocks, levels, pixels, messages.
  \<^item> \<open>Reed_Solomon\<close> (\<open>reed_solomon.c\<close>, \<open>rslib.h\<close>, \<open>encode_rs.h\<close>, \<open>decode_rs.h\<close>): tables, reference-counted
    list, encoder and every phase of the decoder. \<open>Rs_Field\<close>: the locale \<open>log_field\<close> of a finite field that
    is given by logarithms, with the algebra of code words. \<open>Rs_Tables\<close>: \<open>rs_init\<close> builds such a field, and
    the interpretation of the locale. \<open>Rs_Code\<close>: encoder and syndromes. \<open>Rs_Decode\<close>: the error path stays
    inside its arrays and returns. \<open>Rs_Codec\<close>: the class \<open>RsCodec\<close>. \<open>Rs_Correct\<close>: the properties
    of tables, encoder and detection. \<open>Rs_Algebra\<close>, \<open>Rs_Locate\<close>, \<open>Rs_Repair\<close>, \<open>Rs_Corrects\<close>: the locator
    polynomial (Berlekamp-Massey), its roots (Chien), the error values (Forney), and the correction of
    errors. \<open>Rs_Main\<close> (\<open>rs_main.cc\<close>): the program that tries the library out.
  \<^item> \<open>List_Head\<close> (\<open>list.h\<close>): linked lists on a heap of structures, and their refinement of lists of addresses.
    \<open>Rs_List\<close>: \<open>init_rs_internal\<close> and \<open>free_rs\<close> on that heap.
  \<^item> \<open>Rs_Program\<close>, \<open>Rs_Program_Correct\<close> (\<open>rs.c\<close>): the program, and its agreement with the library.
  \<^item> \<open>Jpeg_Codec\<close> (\<open>jpeg_codec.cc\<close>): buffer managers, pixel converters, \<open>Encode\<close>, \<open>Decode\<close>. libjpeg is a
    parameter; \<open>Jpeg_Stored\<close> has an instance of it.
  \<^item> \<open>Ecc_Experiment\<close>, \<open>Ecc_Run\<close> (\<open>ecc_experiment.cc\<close>, \<open>ecc_thread.cc\<close>): the whole trip of a message.
    \<open>Ecc_Main\<close> (\<open>ecc_experiment_main.cc\<close>): the division of the experiments among threads.
  \<^item> \<open>Experiment\<close> (\<open>experiment.cc\<close>, \<open>jpeg_benchmark.cc\<close>, \<open>jpeg_delta.cc\<close>): the trip of a block.
  \<^item> \<open>Buffer\<close>: the locale of a bounded buffer, interpreted by both queues. \<open>Queue\<close> (\<open>queue.h\<close>): each
    operation as a critical section, and a step relation for any number of threads with condition
    variables. \<open>Threadsafe_Queue\<close> (\<open>threadsafe_queue.h\<close>): the ring buffer. \<open>Aesthete_Threads\<close>
    (\<open>aesthete_thread.cc\<close>): what the generators make and the runners do. \<open>In_Memory\<close>
    (\<open>in_memory_experiment.cc\<close>): both kinds of threads and \<open>main\<close>, on every schedule.
  \<^item> \<open>Base64_Tables\<close>, \<open>Base64\<close>, \<open>Base64_Decode\<close> (\<open>modp_b64.cc\<close>, \<open>modp_b64_data.h\<close>, \<open>base64.cc\<close>): tables,
    both byte orders of the decoder, and a reference decoder.
  \<^item> \<open>String_Piece\<close> (\<open>string_piece.h\<close>, \<open>string_piece.cc\<close>): views, comparisons and searches.
    \<open>String16\<close> (\<open>string16.cc\<close>, \<open>hash_tables.h\<close>): functions on UTF-16 characters. \<open>Utils\<close> (\<open>utils.cc\<close>): random
    strings, transaction ids, IP addresses. \<open>Coder\<close> (\<open>Coder.cc\<close>, \<open>util.h\<close>): symbols and signal levels.
  \<^item> \<open>Base_Code\<close>, \<open>Base_Correct\<close> (\<open>cryptopp/basecode.cpp\<close>, \<open>hex.cpp\<close>, \<open>base32.cpp\<close>, \<open>base64.cpp\<close>, \<open>utils.cc\<close>): the
    coders of Crypto++; the locale \<open>base_n\<close> of a code of \<open>2^n\<close> digits, interpreted by the five alphabets.
    \<open>Cfb_Mode\<close> (\<open>cryptopp/strciphr.cpp\<close>, \<open>modes.cpp\<close>): cipher feedback. \<open>Crypto\<close> (\<open>crypto.cc\<close>): the filter
    chains from strings and files to strings and files.

  \<^bold>\<open>What is shown.\<close> For the Reed-Solomon code: tables and generator polynomial are those of the field, the
  encoder makes code words, the code has its distance, the decoder accepts code words unchanged, detects
  up to \<open>nroots\<close> changed symbols and corrects up to half as many, and returns on every word within its
  arrays; the list of codecs is the same in memory as in the abstract. For the experiment: if the
  channel moves no cell by 16 grey levels, the run reports the message, and otherwise the errors that
  it counts. For the queues: FIFO order and no
  lost wake-up in every interleaving, and conservation of the elements of the ring buffer; on every schedule of the in-memory experiment no
  matrix is lost or run twice before a CHECK at the end, which tells when one was left over. For the
  formats: round trips and equivalence with reference functions. For encryption: the mode is cipher
  feedback however the data are divided, and what is encrypted to a string or file is decrypted from it. Properties of kind error show what the
  code does where it deviates from its intention.

  \<^bold>\<open>Modelling choices.\<close> A C \<open>int\<close> is an \<open>int\<close> where its range is bounded by the code and a word where
  wrap-around is possible. A failed \<open>CHECK\<close>, an access outside an array and a call of undefined behaviour
  are \<open>None\<close>; error codes are values. Two exceptions are named where they are made: the conversion of a
  double outside 0..255 to \<open>unsigned char\<close> is its low byte, as on x86 (\<open>Experiment\<close>), and the unlocked flag
  \<open>done_\<close> is read and written in the order of the schedule (\<open>In_Memory\<close>). Contents of uninitialised memory are parameters. Loops are structural
  recursion over index lists; where the number of rounds is not fixed the model is a partial function,
  and termination is a theorem. No definition uses fuel, except where the theory says so.

  \<^bold>\<open>Not modelled.\<close> The primitives that \<open>crypto.cc\<close> takes from Crypto++ (AES, the digests, RSA, gzip, key
  derivation) are parameters; \<open>ColorSpace.cc\<close> computes in floating point; \<open>SjclCryptoBridge.cc\<close>, \<open>rs.cc\<close>, \<open>jpeg_file.cc\<close>, \<open>polynomial.h\<close> and \<open>random_array.h\<close> are unfinished and
  are not compiled or contain no code; the \<open>main\<close> functions that only read flags and print; the Chromium
  \<open>base\<close> directory, the rest of Crypto++, gtest and gmock, which are third-party code; the clients in other languages.
\<close>

end
